(* ===== verification/Prelude.thy ===== *)
theory Prelude
  imports Main "HOL-Library.Word"
begin

text \<open>
  Shared material of the development: the C integer types, the hint collections the component
  theories fill and use, and generic facts on lists, maps and words that more than one
  component needs.
\<close>

section \<open>C integer types\<close>

type_synonym u8 = "8 word"
type_synonym u16 = "16 word"
type_synonym u32 = "32 word"

section \<open>Hint collections\<close>

named_theorems inv_intros \<open>introduction rules: an operation keeps the invariant of its component\<close>
named_theorems op_defs \<open>definitions of the operations of a component\<close>
named_theorems frame_simps \<open>what an operation leaves unchanged\<close>

section \<open>Updates of a range of a list\<close>

text \<open>
  \<open>list_write xs i ys\<close> stores \<open>ys\<close> at index \<open>i\<close> (a \<open>memcpy\<close> into a buffer); a store that does
  not fit leaves the list, and the models test the bound before they call it.
\<close>

definition list_write :: "'a list \<Rightarrow> nat \<Rightarrow> 'a list \<Rightarrow> 'a list" where
  "list_write xs i ys =
     (if i + length ys \<le> length xs then take i xs @ ys @ drop (i + length ys) xs else xs)"

lemma length_list_write [simp]: "length (list_write xs i ys) = length xs"
  by (simp add: list_write_def)

lemma list_write_nth_in:
  "i + length ys \<le> length xs \<Longrightarrow> i \<le> k \<Longrightarrow> k < i + length ys \<Longrightarrow> list_write xs i ys ! k = ys ! (k - i)"
  by (auto simp: list_write_def nth_append)

lemma list_write_nth_out:
  assumes "k < i \<or> i + length ys \<le> k" and "k < length xs"
  shows "list_write xs i ys ! k = xs ! k"
  using assms by (auto simp: list_write_def nth_append)

lemma slice_list_write:
  "i + length ys \<le> length xs \<Longrightarrow> take (length ys) (drop i (list_write xs i ys)) = ys"
  by (simp add: list_write_def)

section \<open>Lists\<close>

lemma remove1_append_mid: "e \<notin> set xs \<Longrightarrow> remove1 e (xs @ e # ys) = xs @ ys"
  by (induction xs) auto

lemma filter_distinct_insert_same:
  "x \<notin> set xs \<Longrightarrow> filter ((\<noteq>) x) xs = xs"
  by (induction xs) auto

lemma sum_list_filter_split:
  fixes f :: "'a \<Rightarrow> nat"
  shows "sum_list (map f (filter P xs)) + sum_list (map f (filter (\<lambda>x. \<not> P x) xs)) = sum_list (map f xs)"
  by (induction xs) auto

section \<open>Bounds of words\<close>

lemma unat_u8: "unat (b :: u8) < 256"
  using unsigned_less [of b, where ?'a = nat] by simp

lemma unat_u16: "unat (b :: u16) < 65536"
  using unsigned_less [of b, where ?'a = nat] by simp

lemma unat_u32: "unat (b :: u32) < 4294967296"
  using unsigned_less [of b, where ?'a = nat] by simp

end
