(* ===== verification/Sys_List.thy ===== *)
theory Sys_List
  imports Prelude
begin

text \<open>
  The intrusive doubly linked list of include/sys/list.h, at the level of its pointers: a node
  is an address, and the store holds the \<open>next\<close> and \<open>prev\<close> field of every node. The
  operations are the sequences of stores of the inline functions of the header.
  \<open>ring s h xs\<close> says that the nodes \<open>xs\<close>, in this order, hang on the list head \<open>h\<close>; the
  lemmas show that each operation does to the pointers what its name says to the abstract
  list. The other components work on the abstract lists.
\<close>

section \<open>The operations of sys/list.h\<close>

type_synonym node = nat

record links =
  nxt :: "node \<Rightarrow> node"
  prv :: "node \<Rightarrow> node"

definition set_nxt :: "links \<Rightarrow> node \<Rightarrow> node \<Rightarrow> links" where
  "set_nxt s n v = s\<lparr>nxt := (nxt s)(n := v)\<rparr>"

definition set_prv :: "links \<Rightarrow> node \<Rightarrow> node \<Rightarrow> links" where
  "set_prv s n v = s\<lparr>prv := (prv s)(n := v)\<rparr>"

definition INIT_LIST_HEAD :: "links \<Rightarrow> node \<Rightarrow> links" where
  "INIT_LIST_HEAD s l = set_prv (set_nxt s l l) l l"

definition list_add_between :: "links \<Rightarrow> node \<Rightarrow> node \<Rightarrow> node \<Rightarrow> links" where
  "list_add_between s newl prev next =
     (let s1 = set_prv s next newl;
          s2 = set_nxt s1 newl next;
          s3 = set_prv s2 newl prev
      in set_nxt s3 prev newl)"

definition list_add :: "links \<Rightarrow> node \<Rightarrow> node \<Rightarrow> links" where
  "list_add s newl head = list_add_between s newl head (nxt s head)"

definition list_add_tail :: "links \<Rightarrow> node \<Rightarrow> node \<Rightarrow> links" where
  "list_add_tail s newl head = list_add_between s newl (prv s head) head"

definition list_del_between :: "links \<Rightarrow> node \<Rightarrow> node \<Rightarrow> links" where
  "list_del_between s prev next = set_nxt (set_prv s next prev) prev next"

definition list_del_entry :: "links \<Rightarrow> node \<Rightarrow> links" where
  "list_del_entry s entry = list_del_between s (prv s entry) (nxt s entry)"

definition list_del :: "links \<Rightarrow> node \<Rightarrow> links" where
  "list_del s entry =
     (let s1 = list_del_between s (prv s entry) (nxt s entry);
          s2 = set_nxt s1 entry entry
      in set_prv s2 entry entry)"

definition list_replace :: "links \<Rightarrow> node \<Rightarrow> node \<Rightarrow> links" where
  "list_replace s old newl =
     (let s1 = set_nxt s newl (nxt s old);
          s2 = set_prv s1 (nxt s1 newl) newl;
          s3 = set_prv s2 newl (prv s2 old)
      in set_nxt s3 (prv s3 newl) newl)"

definition list_del_init :: "links \<Rightarrow> node \<Rightarrow> links" where
  "list_del_init s entry = INIT_LIST_HEAD (list_del_entry s entry) entry"

definition list_move :: "links \<Rightarrow> node \<Rightarrow> node \<Rightarrow> links" where
  "list_move s l head = list_add (list_del_entry s l) l head"

definition list_move_tail :: "links \<Rightarrow> node \<Rightarrow> node \<Rightarrow> links" where
  "list_move_tail s l head = list_add_tail (list_del_entry s l) l head"

definition list_empty :: "links \<Rightarrow> node \<Rightarrow> bool" where
  "list_empty s head = (nxt s head = head)"

definition list_rotate_left :: "links \<Rightarrow> node \<Rightarrow> links" where
  "list_rotate_left s head =
     (if \<not> list_empty s head then list_move_tail s (nxt s head) head else s)"

definition list_first_entry_or_null :: "links \<Rightarrow> node \<Rightarrow> node option" where
  "list_first_entry_or_null s head = (if \<not> list_empty s head then Some (nxt s head) else None)"

text \<open>
  \<open>list_for_each_entry\<close>: the cursor starts at the first node and follows \<open>next\<close> until it is
  the head again. A ring that does not lead back to the head never ends; the fuel bounds the
  number of nodes visited and \<open>None\<close> says that it ran out.
\<close>

fun list_walk :: "nat \<Rightarrow> links \<Rightarrow> node \<Rightarrow> node \<Rightarrow> node list option" where
  "list_walk 0 s head pos = None"
| "list_walk (Suc fuel) s head pos =
     (if pos = head then Some [] else map_option ((#) pos) (list_walk fuel s head (nxt s pos)))"

definition list_for_each :: "nat \<Rightarrow> links \<Rightarrow> node \<Rightarrow> node list option" where
  "list_for_each fuel s head = list_walk fuel s head (nxt s head)"

lemmas list_op_defs =
  list_add_between_def list_add_def list_add_tail_def list_del_between_def list_del_entry_def
  list_del_def list_del_init_def list_move_def list_move_tail_def INIT_LIST_HEAD_def
  list_replace_def

section \<open>The abstract list behind the pointers\<close>

text \<open>\<open>chain s a xs b\<close>: from \<open>a\<close> the nodes \<open>xs\<close> lead to \<open>b\<close>, in both directions.\<close>

fun chain :: "links \<Rightarrow> node \<Rightarrow> node list \<Rightarrow> node \<Rightarrow> bool" where
  "chain s a [] b = (nxt s a = b \<and> prv s b = a)"
| "chain s a (x # xs) b = (nxt s a = x \<and> prv s x = a \<and> chain s x xs b)"

definition ring :: "links \<Rightarrow> node \<Rightarrow> node list \<Rightarrow> bool" where
  "ring s h xs = (distinct (h # xs) \<and> chain s h xs h)"

lemma nxt_set_nxt [simp]: "nxt (set_nxt s n v) = (nxt s)(n := v)"
  and prv_set_nxt [simp]: "prv (set_nxt s n v) = prv s"
  and nxt_set_prv [simp]: "nxt (set_prv s n v) = nxt s"
  and prv_set_prv [simp]: "prv (set_prv s n v) = (prv s)(n := v)"
  by (simp_all add: set_nxt_def set_prv_def)

lemma chain_append: "chain s a (xs @ y # ys) b = (chain s a xs y \<and> chain s y ys b)"
  by (induction xs arbitrary: a) auto

text \<open>Which fields a chain depends on: \<open>next\<close> of all but the end, \<open>prev\<close> of all but the start.\<close>

lemma chain_cong:
  assumes "\<And>x. x \<in> insert a (set xs) \<Longrightarrow> nxt t x = nxt s x"
    and "\<And>x. x \<in> insert b (set xs) \<Longrightarrow> prv t x = prv s x"
  shows "chain t a xs b = chain s a xs b"
  using assms
proof (induction xs arbitrary: a)
  case Nil
  then show ?case by simp
next
  case (Cons x xs)
  have "chain t x xs b = chain s x xs b" by (rule Cons.IH) (auto intro: Cons.prems)
  moreover have "nxt t a = nxt s a" and "prv t x = prv s x" by (auto intro: Cons.prems)
  ultimately show ?case by simp
qed

lemma chain_frame:
  assumes "chain s a xs b"
    and "\<And>x. x \<in> insert a (set xs) \<Longrightarrow> nxt t x = nxt s x"
    and "\<And>x. x \<in> insert b (set xs) \<Longrightarrow> prv t x = prv s x"
  shows "chain t a xs b"
  using assms(1) chain_cong [of a xs t s b, OF assms(2,3)] by simp

lemma chain_nxt_start: "chain s a xs b \<Longrightarrow> nxt s a = (case xs of [] \<Rightarrow> b | x # _ \<Rightarrow> x)"
  by (cases xs) auto

lemma chain_prv_end: "chain s a xs b \<Longrightarrow> prv s b = (if xs = [] then a else last xs)"
  by (induction xs arbitrary: a) auto

lemma ring_nxt_head: "ring s h xs \<Longrightarrow> nxt s h = (case xs of [] \<Rightarrow> h | x # _ \<Rightarrow> x)"
  by (simp add: ring_def chain_nxt_start)

lemma ring_prv_head: "ring s h xs \<Longrightarrow> prv s h = (if xs = [] then h else last xs)"
  by (simp add: ring_def chain_prv_end)

text \<open>A ring stays a ring when only fields of nodes outside it change.\<close>

lemma ring_frame:
  assumes "ring s h xs"
    and "\<And>x. x \<in> insert h (set xs) \<Longrightarrow> nxt t x = nxt s x \<and> prv t x = prv s x"
  shows "ring t h xs"
  using assms unfolding ring_def by (metis chain_frame)

section \<open>What the operations do\<close>

text \<open>An update of a field of a node that a chain does not use for that field.\<close>

lemma chain_set_nxt [simp]: "c \<notin> insert a (set xs) \<Longrightarrow> chain (set_nxt s c v) a xs b = chain s a xs b"
  by (rule chain_cong) auto

lemma chain_set_prv [simp]: "c \<notin> insert b (set xs) \<Longrightarrow> chain (set_prv s c v) a xs b = chain s a xs b"
  by (rule chain_cong) auto

text \<open>Inserting between two neighbours of a ring, in any position.\<close>

lemma ring_insert_between:
  assumes r: "ring s h (as @ bs)" and n: "n \<notin> set (h # as @ bs)"
  shows "ring (list_add_between s n (last (h # as)) (hd (bs @ [h]))) h (as @ n # bs)"
proof (cases as rule: rev_cases)
  case Nil
  with r n show ?thesis
    by (cases bs) (auto simp: ring_def list_add_between_def)
next
  case (snoc as' p)
  with r n show ?thesis
    by (cases bs) (auto simp: ring_def list_add_between_def chain_append)
qed

lemma ring_nxt_last: "ring s h (as @ bs) \<Longrightarrow> nxt s (last (h # as)) = hd (bs @ [h])"
  by (cases as rule: rev_cases; cases bs) (auto simp: ring_def chain_append)

lemma ring_prv_first: "ring s h (as @ bs) \<Longrightarrow> prv s (hd (bs @ [h])) = last (h # as)"
  by (cases as rule: rev_cases; cases bs) (auto simp: ring_def chain_append)

lemma ring_INIT: "ring (INIT_LIST_HEAD s h) h []"
  by (simp add: ring_def INIT_LIST_HEAD_def)

lemma ring_list_empty: "ring s h xs \<Longrightarrow> list_empty s h = (xs = [])"
  by (auto simp: list_empty_def ring_nxt_head) (auto simp: ring_def split: list.splits)

lemma ring_list_add:
  assumes "ring s h (as @ bs)" and "n \<notin> set (h # as @ bs)"
  shows "ring (list_add s n (last (h # as))) h (as @ n # bs)"
  using ring_insert_between [OF assms] ring_nxt_last [OF assms(1)] by (simp add: list_add_def)

lemma ring_list_add_tail:
  assumes "ring s h (as @ bs)" and "n \<notin> set (h # as @ bs)"
  shows "ring (list_add_tail s n (hd (bs @ [h]))) h (as @ n # bs)"
  using ring_insert_between [OF assms] ring_prv_first [OF assms(1)] by (simp add: list_add_tail_def)

text \<open>Taking a node out leaves the ring without it.\<close>

lemma ring_list_del_entry:
  assumes r: "ring s h (as @ e # bs)"
  shows "ring (list_del_entry s e) h (as @ bs)"
proof (cases as rule: rev_cases)
  case Nil
  with r show ?thesis
    by (cases bs) (auto simp: ring_def list_del_entry_def list_del_between_def)
next
  case (snoc as' p)
  with r show ?thesis
    by (cases bs) (auto simp: ring_def list_del_entry_def list_del_between_def chain_append)
qed

lemma ring_list_del:
  assumes r: "ring s h (as @ e # bs)"
  shows "ring (list_del s e) h (as @ bs)"
proof -
  have e: "e \<notin> insert h (set (as @ bs))" using r by (auto simp: ring_def)
  show ?thesis
    by (rule ring_frame [OF ring_list_del_entry [OF r]])
      (use e in \<open>auto simp: list_del_def list_del_entry_def Let_def\<close>)
qed

lemma list_del_empty: "list_empty (list_del s e) e"
  by (simp add: list_empty_def list_del_def)

lemma list_del_init_empty: "list_empty (list_del_init s e) e"
  by (simp add: list_empty_def list_del_init_def INIT_LIST_HEAD_def)

lemma ring_list_move_tail:
  assumes r: "ring s h (as @ e # bs)"
  shows "ring (list_move_tail s e h) h (as @ bs @ [e])"
proof -
  have e: "e \<notin> set (h # (as @ bs) @ [])" using r by (auto simp: ring_def)
  have "ring (list_del_entry s e) h ((as @ bs) @ [])" using ring_list_del_entry [OF r] by simp
  from ring_list_add_tail [OF this e] show ?thesis by (simp add: list_move_tail_def)
qed

section \<open>Traversal\<close>

lemma list_walk_chain:
  assumes "chain s a xs h" and "h \<notin> set xs" and "length xs < fuel"
  shows "list_walk fuel s h (nxt s a) = Some xs"
  using assms
proof (induction xs arbitrary: a fuel)
  case Nil
  then show ?case by (cases fuel) auto
next
  case (Cons x xs)
  then obtain f where f: "fuel = Suc f" and "length xs < f" by (cases fuel) auto
  with Cons.IH [of x f] Cons.prems show ?case by auto
qed

lemma ring_list_for_each:
  "ring s h xs \<Longrightarrow> length xs < fuel \<Longrightarrow> list_for_each fuel s h = Some xs"
  by (auto simp: list_for_each_def ring_def intro: list_walk_chain)

lemma ring_first_entry:
  "ring s h xs \<Longrightarrow> list_first_entry_or_null s h = (case xs of [] \<Rightarrow> None | x # _ \<Rightarrow> Some x)"
  by (auto simp: list_first_entry_or_null_def ring_list_empty ring_nxt_head split: list.splits)

section \<open>The interface a list gives its users\<close>

text \<open>
  What the users of an intrusive list rely on: an abstract list \<open>rep st xs\<close>, the head read by
  \<open>first_of\<close>, appending and taking out. The drain loop of buttons_deinit
  (\<open>while (!list_empty(h)) { e = list_first_entry(h); list_del(e); }\<close>) is one client of it.
\<close>

locale node_list =
  fixes rep :: "'s \<Rightarrow> node list \<Rightarrow> bool"
    and first_of :: "'s \<Rightarrow> node option"
    and del :: "'s \<Rightarrow> node \<Rightarrow> 's"
    and add_last :: "'s \<Rightarrow> node \<Rightarrow> 's"
    and fresh :: "'s \<Rightarrow> node \<Rightarrow> bool"
  assumes first_law: "rep st xs \<Longrightarrow> first_of st = (case xs of [] \<Rightarrow> None | x # _ \<Rightarrow> Some x)"
    and del_law: "rep st (xs @ e # ys) \<Longrightarrow> rep (del st e) (xs @ ys)"
    and add_law: "rep st xs \<Longrightarrow> n \<notin> set xs \<Longrightarrow> fresh st n \<Longrightarrow> rep (add_last st n) (xs @ [n])"
begin

fun drain :: "nat \<Rightarrow> 's \<Rightarrow> node list \<Rightarrow> ('s \<times> node list) option" where
  "drain 0 st acc = (case first_of st of None \<Rightarrow> Some (st, acc) | Some _ \<Rightarrow> None)"
| "drain (Suc n) st acc =
     (case first_of st of None \<Rightarrow> Some (st, acc) | Some e \<Rightarrow> drain n (del st e) (acc @ [e]))"

lemma drain_all:
  assumes "rep st xs" and "length xs \<le> n"
  shows "\<exists>st'. drain n st acc = Some (st', acc @ xs) \<and> rep st' []"
  using assms
proof (induction n arbitrary: st xs acc)
  case 0
  then show ?case by (auto simp: first_law)
next
  case (Suc n)
  show ?case
  proof (cases xs)
    case Nil
    with Suc.prems show ?thesis by (auto simp: first_law)
  next
    case (Cons x ys)
    then have "rep (del st x) ys" using Suc.prems(1) del_law [of st "[]" x ys] by simp
    from Suc.IH [OF this, of "acc @ [x]"] Suc.prems Cons show ?thesis by (auto simp: first_law)
  qed
qed

end

text \<open>The drain loop on the pointers; the fuel bounds the number of rounds.\<close>

fun drain_list :: "nat \<Rightarrow> links \<Rightarrow> node \<Rightarrow> node list \<Rightarrow> (links \<times> node list) option" where
  "drain_list 0 s h acc =
     (case list_first_entry_or_null s h of None \<Rightarrow> Some (s, acc) | Some _ \<Rightarrow> None)"
| "drain_list (Suc n) s h acc =
     (case list_first_entry_or_null s h of
        None \<Rightarrow> Some (s, acc)
      | Some e \<Rightarrow> drain_list n (list_del s e) h (acc @ [e]))"

interpretation sl: node_list "\<lambda>s. ring s h" "\<lambda>s. list_first_entry_or_null s h" list_del
    "\<lambda>s n. list_add_tail s n h" "\<lambda>s n. n \<noteq> h" for h
proof unfold_locales
  fix st xs n
  assume "ring st h xs" and "n \<notin> set xs" and "n \<noteq> h"
  then show "ring (list_add_tail st n h) h (xs @ [n])"
    using ring_list_add_tail [of st h xs "[]" n] by simp
qed (simp_all add: ring_first_entry ring_list_del)

lemma drain_list_eq: "drain_list n s h acc = sl.drain h n s acc"
  by (induction n arbitrary: s acc) (auto split: option.splits)

section \<open>Properties\<close>

text \<open>C39: list_add after the head or after any node of a ring, list_add_tail before the head,
  and list_del of any node do to the pointers exactly what they do to the abstract list, and a
  node that list_del took out is an empty list of its own (so \<open>list_empty(&n->node)\<close> tells that
  it is in no list).\<close>

theorem list_ops_refine:
  assumes "ring s h (as @ bs)" and "n \<notin> set (h # as @ bs)"
  shows "ring (list_add s n (last (h # as))) h (as @ n # bs)
    \<and> ring (list_add_tail s n h) h (as @ bs @ [n])
    \<and> (\<forall>e cs. bs = e # cs \<longrightarrow> ring (list_del s e) h (as @ cs) \<and> list_empty (list_del s e) e)
    \<and> list_empty s h = (as @ bs = [])"
  using ring_list_add [OF assms] sl.add_law [OF assms(1)] assms
  by (auto simp: ring_list_del list_del_empty ring_list_empty)

definition two_ring :: links where
  "two_ring = list_add_tail (list_add_tail (INIT_LIST_HEAD \<lparr>nxt = (\<lambda>x. x), prv = (\<lambda>x. x)\<rparr> 0) 1 0) 2 0"

lemma two_ring_ring: "ring two_ring 0 [1, 2]"
  by (simp add: two_ring_def ring_def list_op_defs Let_def)

theorem list_ops_refine_witness:
  "ring (list_add two_ring 3 1) 0 [1, 3, 2] \<and> ring (list_del two_ring 2) 0 [1]"
  using list_ops_refine [of two_ring 0 "[1]" "[2]" 3] two_ring_ring by auto

text \<open>a traversal of a ring with list_for_each_entry ends and visits each node once, in
  order; fuel of one more than the number of nodes is enough.\<close>

lemma list_for_each_visits_all:
  assumes "ring s h xs" and "length xs < fuel"
  shows "list_for_each fuel s h = Some xs \<and> distinct xs"
  using assms ring_list_for_each by (auto simp: ring_def)

lemma list_for_each_visits_all_witness: "list_for_each 3 two_ring 0 = Some [1, 2]"
  using list_for_each_visits_all [OF two_ring_ring, of 3] by simp

text \<open>the drain loop of buttons_deinit (take the first entry, unlink it, until the list is
  empty) ends, unlinks every node once in list order, and leaves an empty list.\<close>

lemma drain_empties:
  assumes "ring s h xs"
  shows "\<exists>s'. drain_list (length xs) s h [] = Some (s', xs) \<and> ring s' h [] \<and> list_empty s' h"
  using sl.drain_all [OF assms order_refl, of "[]"] by (auto simp: ring_list_empty drain_list_eq)

lemma drain_empties_witness: "\<exists>s'. drain_list 2 two_ring 0 [] = Some (s', [1, 2]) \<and> list_empty s' 0"
  using drain_empties [OF two_ring_ring] by (auto simp: numeral_2_eq_2)

end
