(* ===== verification/Os.thy ===== *)
theory Os
  imports Prelude
begin

text \<open>
  The kernel objects the SDK code works on, at the level of the wrappers of
  src/kernel/os/FreeRTOS: semaphores, queues and software timers. The FreeRTOS calls behind
  a wrapper (xSemaphoreTake, xQueueSend, ...) appear with their documented effect on the
  object; a call that blocks sees no other thread act while it waits, so waiting on an empty
  semaphore or a full queue ends in the timeout. Interleavings are sequences of such calls.
\<close>

section \<open>Status codes\<close>

datatype OS_Status = OS_OK | OS_FAIL | OS_E_NOMEM | OS_E_PARAM | OS_E_TIMEOUT | OS_E_ISR

fun status_int :: "OS_Status \<Rightarrow> int" where
  "status_int OS_OK = 0"
| "status_int OS_FAIL = -1"
| "status_int OS_E_NOMEM = -2"
| "status_int OS_E_PARAM = -3"
| "status_int OS_E_TIMEOUT = -4"
| "status_int OS_E_ISR = -5"

section \<open>Semaphores (os_semaphore.c)\<close>

record semaphore =
  sem_count :: nat
  sem_max :: nat

text \<open>\<open>created\<close>: the kernel had the memory for the object.\<close>

definition OS_SemaphoreCreate :: "bool \<Rightarrow> nat \<Rightarrow> nat \<Rightarrow> OS_Status \<times> semaphore option" where
  "OS_SemaphoreCreate created initCount maxCount =
     (if created then (OS_OK, Some \<lparr>sem_count = initCount, sem_max = maxCount\<rparr>) else (OS_FAIL, None))"

definition OS_SemaphoreCreateBinary :: "bool \<Rightarrow> OS_Status \<times> semaphore option" where
  "OS_SemaphoreCreateBinary created =
     (if created then (OS_OK, Some \<lparr>sem_count = 0, sem_max = 1\<rparr>) else (OS_FAIL, None))"

definition OS_SemaphoreWait :: "bool \<Rightarrow> semaphore \<Rightarrow> u32 \<Rightarrow> OS_Status \<times> semaphore" where
  "OS_SemaphoreWait isr sem waitMS =
     (if isr \<and> waitMS \<noteq> 0 then (OS_E_ISR, sem)
      else if sem_count sem > 0 then (OS_OK, sem\<lparr>sem_count := sem_count sem - 1\<rparr>)
      else (OS_E_TIMEOUT, sem))"

definition OS_SemaphoreRelease :: "semaphore \<Rightarrow> OS_Status \<times> semaphore" where
  "OS_SemaphoreRelease sem =
     (if sem_count sem < sem_max sem then (OS_OK, sem\<lparr>sem_count := Suc (sem_count sem)\<rparr>)
      else (OS_FAIL, sem))"

definition sem_wf :: "semaphore \<Rightarrow> bool" where
  "sem_wf sem = (sem_count sem \<le> sem_max sem)"

lemma OS_SemaphoreWait_wf [inv_intros]: "sem_wf s \<Longrightarrow> sem_wf (snd (OS_SemaphoreWait isr s w))"
  by (auto simp: sem_wf_def OS_SemaphoreWait_def)

lemma OS_SemaphoreRelease_wf [inv_intros]: "sem_wf s \<Longrightarrow> sem_wf (snd (OS_SemaphoreRelease s))"
  by (auto simp: sem_wf_def OS_SemaphoreRelease_def)

section \<open>Queues (os_queue.c)\<close>

record 'a os_queue =
  q_items :: "'a list"
  q_len :: nat

definition OS_QueueCreate :: "bool \<Rightarrow> nat \<Rightarrow> OS_Status \<times> 'a os_queue option" where
  "OS_QueueCreate created queueLen =
     (if created then (OS_OK, Some \<lparr>q_items = [], q_len = queueLen\<rparr>) else (OS_FAIL, None))"

definition OS_QueueDelete :: "'a os_queue \<Rightarrow> OS_Status \<times> 'a os_queue option" where
  "OS_QueueDelete q = (if length (q_items q) > 0 then (OS_FAIL, Some q) else (OS_OK, None))"

definition OS_QueueSend :: "'a os_queue \<Rightarrow> 'a \<Rightarrow> OS_Status \<times> 'a os_queue" where
  "OS_QueueSend q item =
     (if length (q_items q) < q_len q then (OS_OK, q\<lparr>q_items := q_items q @ [item]\<rparr>) else (OS_FAIL, q))"

definition OS_QueueReceive :: "'a os_queue \<Rightarrow> OS_Status \<times> 'a option \<times> 'a os_queue" where
  "OS_QueueReceive q =
     (case q_items q of
        [] \<Rightarrow> (OS_FAIL, None, q)
      | x # xs \<Rightarrow> (OS_OK, Some x, q\<lparr>q_items := xs\<rparr>))"

section \<open>Software timers (os_timer.c)\<close>

record os_timer =
  tm_active :: bool
  tm_period :: u32

text \<open>
  \<open>accepted\<close>: the timer command queue took the command. Starting a timer and changing its
  period both make it active; stopping makes it dormant.
\<close>

definition OS_TimerStart :: "bool \<Rightarrow> os_timer \<Rightarrow> OS_Status \<times> os_timer" where
  "OS_TimerStart accepted t = (if accepted then (OS_OK, t\<lparr>tm_active := True\<rparr>) else (OS_FAIL, t))"

definition OS_TimerChangePeriod :: "bool \<Rightarrow> os_timer \<Rightarrow> u32 \<Rightarrow> OS_Status \<times> os_timer" where
  "OS_TimerChangePeriod accepted t periodMS =
     (if accepted then (OS_OK, t\<lparr>tm_active := True, tm_period := periodMS\<rparr>) else (OS_FAIL, t))"

definition OS_TimerStop :: "bool \<Rightarrow> os_timer \<Rightarrow> OS_Status \<times> os_timer" where
  "OS_TimerStop accepted t = (if accepted then (OS_OK, t\<lparr>tm_active := False\<rparr>) else (OS_FAIL, t))"

lemmas os_timer_defs = OS_TimerStart_def OS_TimerChangePeriod_def OS_TimerStop_def

end
