(* ===== verification/Container.thy ===== *)
theory Container
  imports Sys_List Os
begin

text \<open>
  The sorted list of project/common/framework/sys_ctrl/container.c: a pool of nodes, a list of
  pending nodes, a binary semaphore that counts what is pending, and a comparison function.
  Both lists are intrusive lists on the pointers of \<open>Sys_List\<close>, so that what the code does to a
  node that is still linked elsewhere is what happens here.
\<close>

section \<open>State\<close>

text \<open>
  Addresses: the list heads \<open>head\<close> and \<open>pool\<close>, and the nodes \<open>vec[i]\<close> of the array. \<open>sl_arg\<close> is
  the word that a \<open>list_node\<close> at an address keeps behind its links.
\<close>

definition head_addr :: node where "head_addr = 0"
definition pool_addr :: node where "pool_addr = 1"
definition vec_addr :: "nat \<Rightarrow> node" where "vec_addr i = i + 2"

record sorted_list =
  sl_size :: nat
  sl_sem :: semaphore
  sl_links :: links
  sl_arg :: "node \<Rightarrow> u32"

text \<open>What a call gives back to the system: memory, kernel objects.\<close>

datatype released = Free_vec | Free_impl | Del_sem | Del_lock

section \<open>Creation and destruction\<close>

text \<open>\<open>for (i = size; i-- > 0; ) list_add_tail(&vec[i].node, &pool)\<close>\<close>

fun fill_pool :: "nat \<Rightarrow> links \<Rightarrow> links" where
  "fill_pool 0 l = l"
| "fill_pool (Suc i) l = fill_pool i (list_add_tail (INIT_LIST_HEAD l (vec_addr i)) (vec_addr i) pool_addr)"

definition empty_links :: links where
  "empty_links = \<lparr>nxt = (\<lambda>_. 0), prv = (\<lambda>_. 0)\<rparr>"

text \<open>
  \<open>sem_ok\<close>, \<open>lock_ok\<close>, \<open>vec_ok\<close>: the semaphore, the mutex and the node array could be had. On a
  failure the code releases what it has, \<open>impl\<close> itself included, and returns -1.
\<close>

definition sorted_list_init :: "bool \<Rightarrow> bool \<Rightarrow> bool \<Rightarrow> nat \<Rightarrow> int \<times> sorted_list option \<times> released list" where
  "sorted_list_init sem_ok lock_ok vec_ok sz =
     (let l = INIT_LIST_HEAD (INIT_LIST_HEAD empty_links head_addr) pool_addr;
          ret1 = OS_SemaphoreCreateBinary sem_ok;
          failed = (\<lambda>ret2 vec.
            (-1, None, (if vec then [Free_vec] else []) @ (if fst ret1 = OS_OK then [Del_sem] else [])
               @ (if ret2 = OS_OK then [Del_lock] else []) @ [Free_impl]))
      in case ret1 of
           (OS_OK, Some sem) \<Rightarrow>
             (if \<not> lock_ok then failed OS_FAIL False
              else if \<not> vec_ok then failed OS_OK False
              else (0, Some \<lparr>sl_size = sz, sl_sem = sem, sl_links = fill_pool sz l, sl_arg = (\<lambda>_. 0)\<rparr>, []))
         | _ \<Rightarrow> failed OS_FAIL False)"

definition sorted_list_deinit :: "bool \<Rightarrow> int \<times> released list" where
  "sorted_list_deinit has_poolBuf =
     (0, [Del_sem, Del_lock] @ (if has_poolBuf then [Free_vec] else []) @ [Free_impl])"

definition sorted_list_control :: "sorted_list \<Rightarrow> u32 \<Rightarrow> u32 \<Rightarrow> int" where
  "sorted_list_control impl cmd arg = -1"

definition sorted_list_create :: "bool \<Rightarrow> bool \<Rightarrow> bool \<Rightarrow> bool \<Rightarrow> nat \<Rightarrow> sorted_list option \<times> released list" where
  "sorted_list_create impl_ok sem_ok lock_ok vec_ok sz =
     (if \<not> impl_ok then (None, [])
      else case sorted_list_init sem_ok lock_ok vec_ok sz of
             (r, s, rel) \<Rightarrow> if r \<noteq> 0 then (None, rel @ [Free_impl]) else (s, rel))"

section \<open>Push and pop\<close>

text \<open>
  Step 1 of sorted_list_push: the first node of the pool. While the pool is empty the lock is
  released for 3 ms at a time, in which other threads may change the lists (\<open>env\<close>, given the
  number of the sleep), until less than 3 ms of the timeout are left. The node found stays linked
  in the pool.
\<close>

definition BLOCK_WAIT_EACHTIME :: nat where "BLOCK_WAIT_EACHTIME = 3"

function push_get_node :: "(nat \<Rightarrow> sorted_list \<Rightarrow> sorted_list) \<Rightarrow> nat \<Rightarrow> sorted_list \<Rightarrow> nat \<Rightarrow> sorted_list \<times> node option" where
  "push_get_node env k s timeout =
     (case list_first_entry_or_null (sl_links s) pool_addr of
        Some n \<Rightarrow> (s, Some n)
      | None \<Rightarrow>
          (let s' = env k s
           in if timeout \<le> BLOCK_WAIT_EACHTIME then (s', None)
              else push_get_node env (Suc k) s' (timeout - BLOCK_WAIT_EACHTIME)))"
  by pat_completeness auto
termination
  by (relation "measure (\<lambda>(env, k, s, timeout). timeout)") (auto simp: BLOCK_WAIT_EACHTIME_def)

declare push_get_node.simps [simp del]

text \<open>
  Step 2: the cursor \<open>tmp\<close> of list_for_each_entry after the loop. The loop stops at the first entry
  that compares at least and steps back to its predecessor; when no entry does, the cursor is the
  entry of the head itself. \<open>None\<close>: the loop does not end within the fuel.
\<close>

fun find_place :: "(u32 \<Rightarrow> u32 \<Rightarrow> int) \<Rightarrow> nat \<Rightarrow> sorted_list \<Rightarrow> u32 \<Rightarrow> node \<Rightarrow> node option" where
  "find_place cmp 0 s arg tmp = None"
| "find_place cmp (Suc fuel) s arg tmp =
     (if tmp = head_addr then Some tmp
      else if cmp arg (sl_arg s tmp) \<ge> 0 then Some (prv (sl_links s) tmp)
      else find_place cmp fuel s arg (nxt (sl_links s) tmp))"

definition sorted_list_push ::
  "(u32 \<Rightarrow> u32 \<Rightarrow> int) \<Rightarrow> nat \<Rightarrow> (nat \<Rightarrow> sorted_list \<Rightarrow> sorted_list) \<Rightarrow> sorted_list \<Rightarrow> u32 \<Rightarrow> u32
     \<Rightarrow> (int \<times> sorted_list) option" where
  "sorted_list_push cmp fuel env s arg timeout =
     (case push_get_node env 0 s (unat timeout) of
        (s1, None) \<Rightarrow> Some (-1, s1)
      | (s1, Some n) \<Rightarrow>
          (let s2 = s1\<lparr>sl_arg := (sl_arg s1)(n := arg)\<rparr>
           in case find_place cmp fuel s2 arg (nxt (sl_links s2) head_addr) of
                None \<Rightarrow> None
              | Some tmp \<Rightarrow>
                  (let s3 = s2\<lparr>sl_links := list_add (sl_links s2) n tmp\<rparr>
                   in Some (0, s3\<lparr>sl_sem := snd (OS_SemaphoreRelease (sl_sem s3))\<rparr>))))"

text \<open>sorted_list_pop: the node leaves the pending list and is appended to that same list.\<close>

definition sorted_list_pop :: "sorted_list \<Rightarrow> u32 \<Rightarrow> int \<times> u32 option \<times> sorted_list" where
  "sorted_list_pop s timeout =
     (case OS_SemaphoreWait False (sl_sem s) timeout of
        (ret, sem) \<Rightarrow>
          (let s1 = s\<lparr>sl_sem := sem\<rparr>
           in if ret \<noteq> OS_OK then (-1, None, s1)
              else case list_first_entry_or_null (sl_links s1) head_addr of
                     None \<Rightarrow> (-2, None, s1)
                   | Some n \<Rightarrow>
                       (0, Some (sl_arg s1 n),
                        s1\<lparr>sl_links := list_add_tail (list_del (sl_links s1) n) n head_addr\<rparr>)))"

lemmas addr_defs = head_addr_def pool_addr_def vec_addr_def

section \<open>The pool that a new list has\<close>

lemma fill_pool_rings:
  assumes "ring l pool_addr xs" and "ring l head_addr []" and "head_addr \<notin> set xs"
    and "\<And>i. i < n \<Longrightarrow> vec_addr i \<notin> set xs"
  shows "ring (fill_pool n l) pool_addr (xs @ map vec_addr (rev [0..<n])) \<and> ring (fill_pool n l) head_addr []"
  using assms
proof (induction n arbitrary: l xs)
  case 0
  then show ?case by simp
next
  case (Suc n)
  let ?v = "vec_addr n"
  let ?l = "INIT_LIST_HEAD l ?v"
  have v: "?v \<notin> set xs" "?v \<noteq> pool_addr" "?v \<noteq> head_addr" "pool_addr \<noteq> head_addr"
    using Suc.prems(4) [of n] by (auto simp: addr_defs)
  have r: "ring ?l pool_addr xs"
    by (rule ring_frame [OF Suc.prems(1)]) (use v in \<open>auto simp: INIT_LIST_HEAD_def\<close>)
  have rp: "ring (list_add_tail ?l ?v pool_addr) pool_addr (xs @ [?v])"
    using r v by (intro sl.add_law) auto
  have p: "prv ?l pool_addr \<noteq> head_addr"
    using ring_prv_head [OF r] v Suc.prems(3) by (metis last_in_set)
  have "ring (list_add_tail ?l ?v pool_addr) head_addr []"
    by (rule ring_frame [OF Suc.prems(2)])
      (use v p in \<open>auto simp: INIT_LIST_HEAD_def list_add_tail_def list_add_between_def Let_def\<close>)
  from Suc.IH [OF rp this] Suc.prems(3,4) v show ?case
    by (force simp: addr_defs)
qed

definition new_sorted_list :: "nat \<Rightarrow> sorted_list" where
  "new_sorted_list sz = the (fst (sorted_list_create True True True True sz))"

lemma sorted_list_create_ok:
  "sorted_list_create True True True True sz = (Some (new_sorted_list sz), [])"
  by (simp add: new_sorted_list_def sorted_list_create_def sorted_list_init_def OS_SemaphoreCreateBinary_def)

lemma new_sorted_list_links:
  "sl_links (new_sorted_list sz) = fill_pool sz (INIT_LIST_HEAD (INIT_LIST_HEAD empty_links head_addr) pool_addr)"
  "sl_sem (new_sorted_list sz) = \<lparr>sem_count = 0, sem_max = 1\<rparr>"
  by (simp_all add: new_sorted_list_def sorted_list_create_def sorted_list_init_def
      OS_SemaphoreCreateBinary_def Let_def)

lemma new_sorted_list_rings:
  "ring (sl_links (new_sorted_list sz)) pool_addr (map vec_addr (rev [0..<sz]))"
  "ring (sl_links (new_sorted_list sz)) head_addr []"
proof -
  let ?l = "INIT_LIST_HEAD (INIT_LIST_HEAD empty_links head_addr) pool_addr"
  have "ring ?l pool_addr []" by (rule ring_INIT)
  moreover have "ring ?l head_addr []"
    by (simp add: ring_def INIT_LIST_HEAD_def addr_defs)
  ultimately show "ring (sl_links (new_sorted_list sz)) pool_addr (map vec_addr (rev [0..<sz]))"
    and "ring (sl_links (new_sorted_list sz)) head_addr []"
    using fill_pool_rings [of ?l "[]" sz] by (simp_all add: new_sorted_list_links)
qed

section \<open>What pushing and popping do to the pointers\<close>

text \<open>
  The first node \<open>n\<close> of the pool is never unlinked from it, so every push uses it again; the
  pending list only ever leads to that node. \<open>one_slot s n\<close> is what the pointers look like between
  any two calls.
\<close>

definition slot_links :: "links \<Rightarrow> node \<Rightarrow> bool" where
  "slot_links l n =
     (n \<noteq> head_addr \<and> n \<noteq> pool_addr \<and> nxt l pool_addr = n
      \<and> (nxt l head_addr = head_addr \<and> prv l head_addr = head_addr
         \<or> nxt l head_addr = n \<and> nxt l n \<in> {head_addr, n} \<and> prv l n \<in> {head_addr, n}
           \<and> prv l head_addr \<in> {head_addr, n} \<and> (prv l n = n \<longrightarrow> nxt l n = n)))"

definition one_slot :: "sorted_list \<Rightarrow> node \<Rightarrow> bool" where
  "one_slot s n = slot_links (sl_links s) n"

lemma addrs_differ [simp]: "head_addr \<noteq> pool_addr" "pool_addr \<noteq> head_addr"
  by (simp_all add: addr_defs)

lemma slot_links_cases [consumes 1, case_names fresh used]:
  assumes "slot_links l n"
  obtains "nxt l head_addr = head_addr" "prv l head_addr = head_addr" "nxt l pool_addr = n"
      "n \<noteq> head_addr" "n \<noteq> pool_addr"
    | p q r where "nxt l head_addr = n" "nxt l n = q" "prv l n = p" "prv l head_addr = r"
      "nxt l pool_addr = n" "n \<noteq> head_addr" "n \<noteq> pool_addr"
      "q = head_addr \<or> q = n" "p = head_addr \<or> p = n \<and> q = n" "r = head_addr \<or> r = n"
  using assms unfolding slot_links_def by auto

definition push_links :: "links \<Rightarrow> node \<Rightarrow> links" where
  "push_links l n = list_add l n (if nxt l head_addr = head_addr then head_addr else prv l (nxt l head_addr))"

lemma slot_links_push:
  assumes "slot_links l n"
  shows "slot_links (push_links l n) n \<and> nxt (push_links l n) head_addr = n"
  using assms
proof (cases rule: slot_links_cases)
  case fresh
  then show ?thesis by (simp add: slot_links_def push_links_def list_add_def list_add_between_def)
next
  case (used p q r)
  from used(8-10) used(1-7) show ?thesis
    by (elim disjE conjE) (simp_all add: slot_links_def push_links_def list_add_def list_add_between_def)
qed

lemma slot_links_pop:
  assumes "slot_links l n" and "nxt l head_addr = n"
  shows "slot_links (list_add_tail (list_del l n) n head_addr) n"
  using assms(1)
proof (cases rule: slot_links_cases)
  case fresh
  with assms(2) show ?thesis by simp
next
  case (used p q r)
  from used(8-10) used(1-7) show ?thesis
    by (elim disjE conjE)
      (simp_all add: slot_links_def list_add_tail_def list_del_def list_del_between_def list_add_between_def)
qed

text \<open>A comparison that never answers negatively, as the one of event_queue.c.\<close>

definition nonneg_compare :: "(u32 \<Rightarrow> u32 \<Rightarrow> int) \<Rightarrow> bool" where
  "nonneg_compare cmp = (\<forall>a b. cmp a b \<ge> 0)"

lemma push_get_node_first:
  assumes "one_slot s n"
  shows "push_get_node env k s t = (s, Some n)"
  using assms
  by (auto simp: push_get_node.simps one_slot_def slot_links_def list_first_entry_or_null_def list_empty_def)

lemma find_place_nonneg:
  "nonneg_compare cmp \<Longrightarrow>
   find_place cmp (Suc f) s arg p = Some (if p = head_addr then p else prv (sl_links s) p)"
  by (simp add: nonneg_compare_def)

lemma push_one_slot:
  assumes "one_slot s n" and "nonneg_compare cmp" and "sem_max (sl_sem s) = 1" and "sem_wf (sl_sem s)"
  shows "\<exists>s'. sorted_list_push cmp (Suc f) env s arg t = Some (0, s') \<and> one_slot s' n
    \<and> nxt (sl_links s') head_addr = n \<and> sl_arg s' n = arg
    \<and> sl_sem s' = \<lparr>sem_count = 1, sem_max = 1\<rparr>"
proof -
  have "snd (OS_SemaphoreRelease (sl_sem s)) = \<lparr>sem_count = 1, sem_max = 1\<rparr>"
    using assms(3,4) by (auto simp: OS_SemaphoreRelease_def sem_wf_def)
  then show ?thesis
    using slot_links_push [of "sl_links s" n] assms(1)
    by (auto simp: sorted_list_push_def push_get_node_first [OF assms(1)] find_place_nonneg [OF assms(2)]
        one_slot_def push_links_def Let_def simp del: find_place.simps split: if_splits)
qed

lemma pop_one_slot:
  assumes "one_slot s n" and "sl_sem s = \<lparr>sem_count = 1, sem_max = 1\<rparr>"
    and "nxt (sl_links s) head_addr = n"
  shows "\<exists>s'. sorted_list_pop s t = (0, Some (sl_arg s n), s') \<and> one_slot s' n
    \<and> sl_sem s' = \<lparr>sem_count = 0, sem_max = 1\<rparr>"
proof -
  have "n \<noteq> head_addr" using assms(1) by (simp add: one_slot_def slot_links_def)
  then show ?thesis
    using slot_links_pop [of "sl_links s" n] assms
    by (simp add: sorted_list_pop_def OS_SemaphoreWait_def one_slot_def list_first_entry_or_null_def
        list_empty_def)
qed

lemma pop_empty: "sem_count (sl_sem s) = 0 \<Longrightarrow> sorted_list_pop s t = (-1, None, s)"
  by (simp add: sorted_list_pop_def OS_SemaphoreWait_def)

lemma new_one_slot: "one_slot (new_sorted_list (Suc sz)) (vec_addr sz)"
  using ring_nxt_head [OF new_sorted_list_rings(1), of "Suc sz"] new_sorted_list_rings(2) [of "Suc sz"]
  by (auto simp: one_slot_def slot_links_def ring_def addr_defs)

text \<open>Pushing several items, one call after the other.\<close>

fun push_all ::
  "(u32 \<Rightarrow> u32 \<Rightarrow> int) \<Rightarrow> nat \<Rightarrow> (nat \<Rightarrow> sorted_list \<Rightarrow> sorted_list) \<Rightarrow> u32 \<Rightarrow> sorted_list \<Rightarrow> u32 list
     \<Rightarrow> (int list \<times> sorted_list) option" where
  "push_all cmp fuel env t s [] = Some ([], s)"
| "push_all cmp fuel env t s (a # as) =
     (case sorted_list_push cmp fuel env s a t of
        None \<Rightarrow> None
      | Some (r, s') \<Rightarrow> map_option (apfst ((#) r)) (push_all cmp fuel env t s' as))"

lemma push_all_one_slot:
  assumes "one_slot s n" and "nonneg_compare cmp" and "sem_max (sl_sem s) = 1" and "sem_wf (sl_sem s)"
    and "as \<noteq> []"
  shows "\<exists>s'. push_all cmp (Suc f) env t s as = Some (replicate (length as) 0, s') \<and> one_slot s' n
    \<and> nxt (sl_links s') head_addr = n \<and> sl_arg s' n = last as
    \<and> sl_sem s' = \<lparr>sem_count = 1, sem_max = 1\<rparr>"
  using assms
proof (induction as arbitrary: s)
  case Nil
  then show ?case by simp
next
  case (Cons a as)
  from push_one_slot [OF Cons.prems(1-4), of f env a t]
  obtain s1 where s1: "sorted_list_push cmp (Suc f) env s a t = Some (0, s1)" "one_slot s1 n"
    "nxt (sl_links s1) head_addr = n" "sl_arg s1 n = a" "sl_sem s1 = \<lparr>sem_count = 1, sem_max = 1\<rparr>"
    by blast
  show ?case
  proof (cases "as = []")
    case True
    with s1 show ?thesis by simp
  next
    case False
    from Cons.IH [OF s1(2) Cons.prems(2) _ _ False] s1 show ?thesis
      by (auto simp: sem_wf_def)
  qed
qed

section \<open>Properties\<close>

text \<open>A new sorted list has all its nodes in the pool, highest index first, and nothing
  pending; a pop on it times out with -1.\<close>

lemma sorted_list_create_state:
  "\<exists>s. sorted_list_create True True True True sz = (Some s, [])
     \<and> ring (sl_links s) pool_addr (map vec_addr (rev [0..<sz]))
     \<and> ring (sl_links s) head_addr [] \<and> sorted_list_pop s t = (-1, None, s)"
  using new_sorted_list_rings [of sz] pop_empty [of "new_sorted_list sz" t]
  by (simp add: sorted_list_create_ok new_sorted_list_links)

text \<open>with a comparison that is never negative (the one event_queue.c passes), a sorted list
  of any size above 0 works as a one-place mailbox: pushes never wait and all succeed, a pop
  returns the last item pushed, and the pop after it times out, whatever was pushed before.\<close>

lemma sorted_list_mailbox:
  assumes "nonneg_compare cmp" and "as \<noteq> []"
  shows "\<exists>s' s''. push_all cmp (Suc f) env t (new_sorted_list (Suc sz)) as = Some (replicate (length as) 0, s')
    \<and> sorted_list_pop s' t1 = (0, Some (last as), s'') \<and> sorted_list_pop s'' t2 = (-1, None, s'')"
proof -
  from push_all_one_slot [OF new_one_slot assms(1) _ _ assms(2), of sz f env t]
  obtain s' where s': "push_all cmp (Suc f) env t (new_sorted_list (Suc sz)) as = Some (replicate (length as) 0, s')"
    "one_slot s' (vec_addr sz)" "nxt (sl_links s') head_addr = vec_addr sz"
    "sl_arg s' (vec_addr sz) = last as" "sl_sem s' = \<lparr>sem_count = 1, sem_max = 1\<rparr>"
    by (auto simp: new_sorted_list_links sem_wf_def)
  from pop_one_slot [OF s'(2,5,3), of t1] s' show ?thesis
    using pop_empty by fastforce
qed

lemma sorted_list_mailbox_witness:
  "\<exists>s' s''. push_all (\<lambda>a b. if a < b then 1 else 0) 1 (\<lambda>_ s. s) 0 (new_sorted_list 6) [10, 20] = Some ([0, 0], s')
    \<and> sorted_list_pop s' 0 = (0, Some 20, s'') \<and> sorted_list_pop s'' 0 = (-1, None, s'')"
  using sorted_list_mailbox [of "\<lambda>a b. if a < b then 1 else 0" "[10, 20]" 0 "\<lambda>_ s. s" 0 5 0 0]
  by (simp add: nonneg_compare_def eval_nat_numeral)

text \<open>a create whose init fails releases the list object twice: once in sorted_list_init and
  once more in sorted_list_create; a create that fails at the first malloc releases nothing.\<close>

lemma sorted_list_create_double_free:
  "count_list (snd (sorted_list_create impl_ok sem_ok lock_ok vec_ok sz)) Free_impl =
     (if impl_ok \<and> \<not> (sem_ok \<and> lock_ok \<and> vec_ok) then 2 else 0)"
  by (simp add: sorted_list_create_def sorted_list_init_def OS_SemaphoreCreateBinary_def Let_def)

end
