(* ===== verification/Event_Queue.thy ===== *)
theory Event_Queue
  imports Container
begin

text \<open>
  The event queues of project/common/framework/sys_ctrl/event_queue.c. Both kinds implement the
  same three operations (\<open>deinit\<close>, \<open>send\<close>, \<open>recv\<close>): the priority queue keeps pointers to
  heap copies of the messages in the sorted list of \<open>Container\<close>, the normal queue copies the
  messages into a kernel queue. The locale \<open>event_queue\<close> is the contract their users rely on; the
  normal queue fulfils it, and a theorem shows how the priority queue departs from it.
\<close>

section \<open>Messages\<close>

text \<open>
  \<open>execute\<close> and \<open>destruct\<close> are function pointers (\<open>None\<close> for NULL); \<open>extra\<close> is the flexible
  array member, of which sys_ctrl.c uses the first word as a pointer to a semaphore.
\<close>

type_synonym fn_ptr = "nat option"

record event_msg =
  execute :: fn_ptr
  destruct :: fn_ptr
  event :: u32
  data :: u32
  extra :: "nat option"

section \<open>The priority queue\<close>

text \<open>\<open>pq_mem\<close> is the memory the message pointers point into, \<open>pq_live\<close> the blocks not yet freed.\<close>

record prio_event_queue =
  pq_container :: sorted_list
  pq_mem :: "u32 \<Rightarrow> event_msg"
  pq_live :: "u32 list"

definition complare_event_msg :: "(u32 \<Rightarrow> event_msg) \<Rightarrow> u32 \<Rightarrow> u32 \<Rightarrow> int" where
  "complare_event_msg mem newArg oldArg = (if event (mem newArg) < event (mem oldArg) then 1 else 0)"

text \<open>\<open>malloc_res\<close> is what malloc returned: \<open>None\<close>, or a block that is not in use.\<close>

definition prio_event_send ::
  "nat \<Rightarrow> (nat \<Rightarrow> sorted_list \<Rightarrow> sorted_list) \<Rightarrow> u32 option \<Rightarrow> prio_event_queue \<Rightarrow> event_msg \<Rightarrow> u32
     \<Rightarrow> (int \<times> prio_event_queue) option" where
  "prio_event_send fuel env malloc_res q msg wait_ms =
     (case malloc_res of
        None \<Rightarrow> Some (-1, q)
      | Some newMsg \<Rightarrow>
          (let q1 = q\<lparr>pq_mem := (pq_mem q)(newMsg := msg), pq_live := newMsg # pq_live q\<rparr>
           in case sorted_list_push (complare_event_msg (pq_mem q1)) fuel env (pq_container q1) newMsg wait_ms of
                None \<Rightarrow> None
              | Some (ret, c) \<Rightarrow>
                  (let q2 = q1\<lparr>pq_container := c\<rparr>
                   in if ret \<noteq> 0 then Some (-2, q2\<lparr>pq_live := remove1 newMsg (pq_live q2)\<rparr>)
                      else Some (0, q2))))"

definition prio_event_recv :: "prio_event_queue \<Rightarrow> u32 \<Rightarrow> int \<times> event_msg option \<times> prio_event_queue" where
  "prio_event_recv q wait_ms =
     (case sorted_list_pop (pq_container q) wait_ms of
        (ret, p, c) \<Rightarrow>
          (let q1 = q\<lparr>pq_container := c\<rparr>
           in if ret \<noteq> 0 then (-2, None, q1)
              else case p of
                     None \<Rightarrow> (-2, None, q1)
                   | Some newMsg \<Rightarrow>
                       (0, Some (pq_mem q1 newMsg), q1\<lparr>pq_live := remove1 newMsg (pq_live q1)\<rparr>)))"

definition prio_event_queue_create ::
  "bool \<Rightarrow> bool \<Rightarrow> bool \<Rightarrow> bool \<Rightarrow> bool \<Rightarrow> (u32 \<Rightarrow> event_msg) \<Rightarrow> nat \<Rightarrow> prio_event_queue option" where
  "prio_event_queue_create queue_ok impl_ok sem_ok lock_ok vec_ok mem queue_len =
     (if \<not> queue_ok then None
      else case fst (sorted_list_create impl_ok sem_ok lock_ok vec_ok queue_len) of
             None \<Rightarrow> None
           | Some c \<Rightarrow> Some \<lparr>pq_container = c, pq_mem = mem, pq_live = []\<rparr>)"

text \<open>deinit releases the container, and the queue object when that succeeded.\<close>

definition prio_event_queue_deinit :: "prio_event_queue \<Rightarrow> int \<times> released list \<times> bool" where
  "prio_event_queue_deinit q =
     (let r = sorted_list_deinit True in (fst r, snd r, fst r = 0))"

section \<open>The normal queue\<close>

type_synonym 'm normal_event_queue = "'m os_queue"

definition normal_event_send :: "'m normal_event_queue \<Rightarrow> 'm \<Rightarrow> int \<times> 'm normal_event_queue" where
  "normal_event_send q msg =
     (case OS_QueueSend q msg of (ret, q') \<Rightarrow> if ret \<noteq> OS_OK then (-1, q') else (0, q'))"

definition normal_event_recv :: "'m normal_event_queue \<Rightarrow> int \<times> 'm option \<times> 'm normal_event_queue" where
  "normal_event_recv q =
     (case OS_QueueReceive q of (ret, m, q') \<Rightarrow> if ret \<noteq> OS_OK then (-1, None, q') else (0, m, q'))"

definition normal_event_queue_create :: "bool \<Rightarrow> bool \<Rightarrow> nat \<Rightarrow> 'm normal_event_queue option" where
  "normal_event_queue_create impl_ok queue_ok queue_len =
     (if \<not> impl_ok then None
      else case OS_QueueCreate queue_ok queue_len of
             (ret, q) \<Rightarrow> if ret \<noteq> OS_OK then None else q)"

definition normal_event_queue_deinit :: "'m normal_event_queue \<Rightarrow> int \<times> 'm normal_event_queue option" where
  "normal_event_queue_deinit q =
     (case OS_QueueDelete q of (ret, q') \<Rightarrow> if ret \<noteq> OS_OK then (-1, q') else (0, None))"

section \<open>The contract of an event queue\<close>

locale event_queue =
  fixes send :: "'q \<Rightarrow> 'm \<Rightarrow> int \<times> 'q"
    and recv :: "'q \<Rightarrow> int \<times> 'm option \<times> 'q"
    and pending :: "'q \<Rightarrow> 'm list"
    and capacity :: "'q \<Rightarrow> nat"
  assumes send_room: "length (pending q) < capacity q \<Longrightarrow> \<exists>q'. send q m = (0, q')
      \<and> pending q' = pending q @ [m] \<and> capacity q' = capacity q"
    and send_full: "\<not> length (pending q) < capacity q \<Longrightarrow> fst (send q m) \<noteq> 0 \<and> snd (send q m) = q"
    and recv_some: "pending q = m # ms \<Longrightarrow> \<exists>q'. recv q = (0, Some m, q')
      \<and> pending q' = ms \<and> capacity q' = capacity q"
    and recv_none: "pending q = [] \<Longrightarrow> fst (recv q) \<noteq> 0 \<and> snd (snd (recv q)) = q"
begin

fun send_all :: "'q \<Rightarrow> 'm list \<Rightarrow> int list \<times> 'q" where
  "send_all q [] = ([], q)"
| "send_all q (m # ms) = (case send q m of (r, q') \<Rightarrow> apfst ((#) r) (send_all q' ms))"

fun recv_all :: "nat \<Rightarrow> 'q \<Rightarrow> 'm list \<times> 'q" where
  "recv_all 0 q = ([], q)"
| "recv_all (Suc n) q =
     (case recv q of (r, Some m, q') \<Rightarrow> apfst ((#) m) (recv_all n q') | (r, None, q') \<Rightarrow> ([], q'))"

lemma send_all_pending:
  "length (pending q) + length ms \<le> capacity q \<Longrightarrow>
   \<exists>q'. send_all q ms = (replicate (length ms) 0, q') \<and> pending q' = pending q @ ms \<and> capacity q' = capacity q"
proof (induction ms arbitrary: q)
  case Nil
  then show ?case by simp
next
  case (Cons m ms)
  then obtain q1 where "send q m = (0, q1)" "pending q1 = pending q @ [m]" "capacity q1 = capacity q"
    using send_room [of q m] by auto
  with Cons.IH [of q1] Cons.prems show ?case by auto
qed

lemma recv_all_pending:
  "pending q = ms @ rest \<Longrightarrow> \<exists>q'. recv_all (length ms) q = (ms, q') \<and> pending q' = rest \<and> capacity q' = capacity q"
proof (induction ms arbitrary: q)
  case Nil
  then show ?case by simp
next
  case (Cons m ms)
  then obtain q1 where "recv q = (0, Some m, q1)" "pending q1 = ms @ rest" "capacity q1 = capacity q"
    using recv_some [of q m "ms @ rest"] by auto
  with Cons.IH [of q1] show ?case by auto
qed

lemma in_order:
  assumes "pending q = []" and "length ms \<le> capacity q"
  shows "\<exists>q'. send_all q ms = (replicate (length ms) 0, q') \<and> fst (recv_all (length ms) q') = ms"
  using send_all_pending [of q ms] recv_all_pending [of _ ms "[]"] assms by fastforce

end

interpretation neq: event_queue normal_event_send normal_event_recv q_items q_len
  by unfold_locales
    (auto simp: normal_event_send_def normal_event_recv_def OS_QueueSend_def OS_QueueReceive_def)

section \<open>Properties\<close>

text \<open>Sending and receiving several messages on a normal queue.\<close>

fun normal_send_all :: "'m normal_event_queue \<Rightarrow> 'm list \<Rightarrow> int list \<times> 'm normal_event_queue" where
  "normal_send_all q [] = ([], q)"
| "normal_send_all q (m # ms) =
     (case normal_event_send q m of (r, q') \<Rightarrow> apfst ((#) r) (normal_send_all q' ms))"

fun normal_recv_all :: "nat \<Rightarrow> 'm normal_event_queue \<Rightarrow> 'm list \<times> 'm normal_event_queue" where
  "normal_recv_all 0 q = ([], q)"
| "normal_recv_all (Suc n) q =
     (case normal_event_recv q of
        (r, Some m, q') \<Rightarrow> apfst ((#) m) (normal_recv_all n q') | (r, None, q') \<Rightarrow> ([], q'))"

lemma normal_send_all_eq: "normal_send_all q ms = neq.send_all q ms"
  by (induction ms arbitrary: q) (auto split: prod.splits)

lemma normal_recv_all_eq: "normal_recv_all n q = neq.recv_all n q"
  by (induction n arbitrary: q) (auto split: prod.splits option.splits)

text \<open>a normal event queue of length \<open>len\<close> takes up to \<open>len\<close> messages without loss and hands
  them out in the order they were sent; one more is refused with -1 and changes nothing.\<close>

lemma normal_queue_in_order:
  assumes "normal_event_queue_create True True len = Some q" and "length ms \<le> len"
  shows "\<exists>q'. normal_send_all q ms = (replicate (length ms) 0, q')
     \<and> fst (normal_recv_all (length ms) q') = ms
     \<and> (length ms = len \<longrightarrow> normal_event_send q' m = (-1, q'))"
proof -
  have q: "q_items q = []" "q_len q = len"
    using assms(1) by (auto simp: normal_event_queue_create_def OS_QueueCreate_def)
  obtain q' where q': "neq.send_all q ms = (replicate (length ms) 0, q')" "q_items q' = ms" "q_len q' = len"
    using neq.send_all_pending [of q ms] q assms(2) by auto
  with neq.in_order [of q ms] q assms(2) show ?thesis
    by (auto simp: normal_send_all_eq normal_recv_all_eq normal_event_send_def OS_QueueSend_def)
qed

lemma normal_queue_in_order_witness:
  "\<exists>q'. normal_send_all \<lparr>q_items = [], q_len = 2\<rparr> [7::nat, 8] = ([0, 0], q')
     \<and> fst (normal_recv_all 2 q') = [7, 8] \<and> normal_event_send q' 9 = (-1, q')"
  using normal_queue_in_order [of 2 "\<lparr>q_items = [], q_len = 2\<rparr>" "[7::nat, 8]" 9]
  by (simp add: normal_event_queue_create_def OS_QueueCreate_def eval_nat_numeral)

definition new_prio_queue :: "nat \<Rightarrow> (u32 \<Rightarrow> event_msg) \<Rightarrow> prio_event_queue" where
  "new_prio_queue len mem = \<lparr>pq_container = new_sorted_list len, pq_mem = mem, pq_live = []\<rparr>"

lemma new_prio_queue_create:
  "prio_event_queue_create True True True True True mem len = Some (new_prio_queue len mem)"
  by (simp add: prio_event_queue_create_def new_prio_queue_def sorted_list_create_ok)

lemma complare_nonneg: "nonneg_compare (complare_event_msg mem)"
  by (simp add: nonneg_compare_def complare_event_msg_def)

lemma prio_send_one_slot:
  assumes "one_slot (pq_container q) n" and "sem_max (sl_sem (pq_container q)) = 1"
    and "sem_wf (sl_sem (pq_container q))"
  shows "\<exists>c. prio_event_send (Suc f) env (Some p) q m t =
      Some (0, \<lparr>pq_container = c, pq_mem = (pq_mem q)(p := m), pq_live = p # pq_live q\<rparr>)
    \<and> one_slot c n \<and> nxt (sl_links c) head_addr = n \<and> sl_arg c n = p
    \<and> sl_sem c = \<lparr>sem_count = 1, sem_max = 1\<rparr>"
  using push_one_slot [OF assms(1) complare_nonneg assms(2,3),
      of "(pq_mem q)(p := m)" f env p t]
  by (cases q) (auto simp: prio_event_send_def Let_def)

text \<open>the priority queue keeps one message: when two are sent before a receive, both sends
  report success, the receive returns the second one whatever the two event numbers are, the next
  receive fails with -2, and the block of the first message is never freed.\<close>

lemma prio_queue_loses_message:
  assumes "p1 \<noteq> p2"
  shows "\<exists>q1 q2 q3. prio_event_send (Suc f) env (Some p1) (new_prio_queue (Suc len) mem) m1 t = Some (0, q1)
     \<and> prio_event_send (Suc f) env (Some p2) q1 m2 t = Some (0, q2)
     \<and> prio_event_recv q2 t = (0, Some m2, q3)
     \<and> prio_event_recv q3 t = (-2, None, q3) \<and> pq_live q3 = [p1]"
proof -
  let ?q0 = "new_prio_queue (Suc len) mem"
  obtain c1 where c1: "prio_event_send (Suc f) env (Some p1) ?q0 m1 t =
        Some (0, \<lparr>pq_container = c1, pq_mem = mem(p1 := m1), pq_live = [p1]\<rparr>)"
      "one_slot c1 (vec_addr len)" "sl_sem c1 = \<lparr>sem_count = 1, sem_max = 1\<rparr>"
    using prio_send_one_slot [of ?q0 "vec_addr len" f env p1 m1 t] new_one_slot [of len]
    by (auto simp: new_prio_queue_def new_sorted_list_links sem_wf_def)
  let ?q1 = "\<lparr>pq_container = c1, pq_mem = mem(p1 := m1), pq_live = [p1]\<rparr>"
  obtain c2 where c2: "prio_event_send (Suc f) env (Some p2) ?q1 m2 t =
        Some (0, \<lparr>pq_container = c2, pq_mem = mem(p1 := m1, p2 := m2), pq_live = [p2, p1]\<rparr>)"
      "one_slot c2 (vec_addr len)" "nxt (sl_links c2) head_addr = vec_addr len"
      "sl_arg c2 (vec_addr len) = p2" "sl_sem c2 = \<lparr>sem_count = 1, sem_max = 1\<rparr>"
    using prio_send_one_slot [of ?q1 "vec_addr len" f env p2 m2 t] c1 by (auto simp: sem_wf_def)
  obtain c3 where c3: "sorted_list_pop c2 t = (0, Some p2, c3)" "sl_sem c3 = \<lparr>sem_count = 0, sem_max = 1\<rparr>"
    using pop_one_slot [OF c2(2,5,3), of t] c2(4) by auto
  show ?thesis
    using c1(1) c2(1) c3 pop_empty [of c3 t] assms
    by (auto simp: prio_event_recv_def Let_def)
qed

definition msg_of :: "u32 \<Rightarrow> event_msg" where
  "msg_of e = \<lparr>execute = None, destruct = None, event = e, data = 0, extra = None\<rparr>"

lemma prio_queue_loses_message_witness:
  "\<exists>q1 q2 q3. prio_event_send (Suc 0) (\<lambda>_ s. s) (Some 100) (new_prio_queue (Suc 5) (\<lambda>_. msg_of 0)) (msg_of 1) 0 = Some (0, q1)
     \<and> prio_event_send (Suc 0) (\<lambda>_ s. s) (Some 200) q1 (msg_of 2) 0 = Some (0, q2)
     \<and> prio_event_recv q2 0 = (0, Some (msg_of 2), q3)
     \<and> prio_event_recv q3 0 = (-2, None, q3) \<and> pq_live q3 = [100]"
  using prio_queue_loses_message [of 100 200 0 "\<lambda>_ s. s" 5 "\<lambda>_. msg_of 0" "msg_of 1" 0 "msg_of 2"]
  by simp

end
