(* ===== verification/Observer.thy ===== *)
theory Observer
  imports Event_Queue
begin

text \<open>
  The observers of project/common/framework/sys_ctrl/observer.c: a base with the event observed
  and its attachment state, and three kinds that differ in what a trigger does (release a
  semaphore, call a function, start a thread).
\<close>

section \<open>State\<close>

datatype observer_state = OBSERVER_ILDE | OBSERVER_ATTACHED | OBSERVER_ATTACHED_ONCE
  | OBSERVER_DETACHED | OBSERVER_WORKING

text \<open>\<open>to_thd\<close>: the thread handle is valid, that is the thread runs.\<close>

record thread_part =
  to_thd :: bool
  to_run :: fn_ptr
  to_exception :: fn_ptr
  to_stack :: u32
  to_prio :: nat
  to_event :: u32
  to_arg :: u32

datatype observer_kind =
    Plain_Observer fn_ptr
  | Event_Observer "semaphore option"
  | Callback_Observer fn_ptr
  | Thread_Observer thread_part

record observer_base =
  ob_event :: u32
  ob_state :: observer_state
  ob_arg :: nat
  ob_kind :: observer_kind

text \<open>What a trigger makes happen outside the observer.\<close>

datatype action =
    Call_trigger fn_ptr u32 u32
  | Call_cb fn_ptr u32 u32 nat
  | Start_thread fn_ptr
  | Call_exception fn_ptr OS_Status
  | Call_execute fn_ptr event_msg
  | Call_destruct fn_ptr event_msg

section \<open>Initialisation and creation\<close>

text \<open>\<open>memset(obs, 0, sizeof(*obs))\<close>\<close>

definition zero_observer :: "observer_kind \<Rightarrow> observer_base" where
  "zero_observer k = \<lparr>ob_event = 0, ob_state = OBSERVER_ILDE, ob_arg = 0, ob_kind = k\<rparr>"

definition observer_init :: "observer_base \<Rightarrow> u32 \<Rightarrow> fn_ptr \<Rightarrow> nat \<Rightarrow> int \<times> observer_base" where
  "observer_init obs ev trigger arg =
     (0, obs\<lparr>ob_event := ev, ob_arg := arg, ob_kind := Plain_Observer trigger\<rparr>)"

definition observer_create :: "bool \<Rightarrow> u32 \<Rightarrow> fn_ptr \<Rightarrow> nat \<Rightarrow> observer_base option" where
  "observer_create malloc_ok ev trigger arg =
     (if \<not> malloc_ok then None
      else Some (snd (observer_init (zero_observer (Plain_Observer None)) ev trigger arg)))"

definition event_observer_init :: "bool \<Rightarrow> observer_base \<Rightarrow> u32 \<Rightarrow> int \<times> observer_base" where
  "event_observer_init sem_ok obs ev =
     (case OS_SemaphoreCreateBinary sem_ok of
        (ret, sem) \<Rightarrow> (status_int ret, obs\<lparr>ob_event := ev, ob_kind := Event_Observer sem\<rparr>))"

definition event_observer_create :: "bool \<Rightarrow> bool \<Rightarrow> u32 \<Rightarrow> observer_base option" where
  "event_observer_create malloc_ok sem_ok ev =
     (if \<not> malloc_ok then None
      else Some (snd (event_observer_init sem_ok (zero_observer (Event_Observer None)) ev)))"

definition callback_observer_init :: "observer_base \<Rightarrow> u32 \<Rightarrow> fn_ptr \<Rightarrow> nat \<Rightarrow> int \<times> observer_base" where
  "callback_observer_init obs ev cb arg =
     (0, obs\<lparr>ob_event := ev, ob_arg := arg, ob_kind := Callback_Observer cb\<rparr>)"

definition callback_observer_create :: "bool \<Rightarrow> u32 \<Rightarrow> fn_ptr \<Rightarrow> nat \<Rightarrow> observer_base option" where
  "callback_observer_create malloc_ok ev cb arg =
     (if \<not> malloc_ok then None
      else Some (snd (callback_observer_init (zero_observer (Callback_Observer None)) ev cb arg)))"

definition zero_thread :: thread_part where
  "zero_thread = \<lparr>to_thd = False, to_run = None, to_exception = None, to_stack = 0, to_prio = 0,
     to_event = 0, to_arg = 0\<rparr>"

definition thread_of :: "observer_base \<Rightarrow> thread_part" where
  "thread_of obs = (case ob_kind obs of Thread_Observer t \<Rightarrow> t | _ \<Rightarrow> zero_thread)"

definition thread_observer_init ::
  "observer_base \<Rightarrow> u32 \<Rightarrow> fn_ptr \<Rightarrow> nat \<Rightarrow> u32 \<Rightarrow> nat \<Rightarrow> int \<times> observer_base" where
  "thread_observer_init obs ev run arg stackSize prio =
     (0, obs\<lparr>ob_event := ev, ob_arg := arg,
             ob_kind := Thread_Observer ((thread_of obs)\<lparr>to_run := run, to_stack := stackSize, to_prio := prio\<rparr>)\<rparr>)"

definition thread_observer_create ::
  "bool \<Rightarrow> u32 \<Rightarrow> fn_ptr \<Rightarrow> nat \<Rightarrow> u32 \<Rightarrow> nat \<Rightarrow> observer_base option" where
  "thread_observer_create malloc_ok ev run arg stackSize prio =
     (if \<not> malloc_ok then None
      else Some (snd (thread_observer_init (zero_observer (Thread_Observer zero_thread)) ev run arg stackSize prio)))"

definition thread_observer_throw :: "observer_base \<Rightarrow> fn_ptr \<Rightarrow> observer_base" where
  "thread_observer_throw obs ex = obs\<lparr>ob_kind := Thread_Observer ((thread_of obs)\<lparr>to_exception := ex\<rparr>)\<rparr>"

text \<open>\<open>None\<close> as the observer is the NULL pointer; the second component says whether it was freed.\<close>

definition observer_destroy :: "observer_base option \<Rightarrow> int \<times> bool" where
  "observer_destroy base =
     (case base of
        None \<Rightarrow> (-1, False)
      | Some b \<Rightarrow> if ob_state b \<noteq> OBSERVER_ILDE then (-1, False) else (0, True))"

section \<open>Triggers\<close>

definition event_trigger :: "observer_base \<Rightarrow> observer_base" where
  "event_trigger obs =
     (case ob_kind obs of
        Event_Observer (Some sem) \<Rightarrow> obs\<lparr>ob_kind := Event_Observer (Some (snd (OS_SemaphoreRelease sem)))\<rparr>
      | _ \<Rightarrow> obs)"

definition event_wait :: "observer_base \<Rightarrow> u32 \<Rightarrow> OS_Status \<times> observer_base" where
  "event_wait obs timeout =
     (case ob_kind obs of
        Event_Observer (Some sem) \<Rightarrow>
          (case OS_SemaphoreWait False sem timeout of
             (ret, sem') \<Rightarrow> (ret, obs\<lparr>ob_kind := Event_Observer (Some sem')\<rparr>))
      | _ \<Rightarrow> (OS_FAIL, obs))"

definition trigger_callback :: "observer_base \<Rightarrow> fn_ptr \<Rightarrow> u32 \<Rightarrow> u32 \<Rightarrow> observer_base \<times> action list" where
  "trigger_callback obs cb ev arg = (obs, [Call_cb cb ev arg (ob_arg obs)])"

text \<open>\<open>create_ret\<close> is the answer of OS_ThreadCreate. The thread ends with wrap_thread's OS_ThreadDelete.\<close>

definition trigger_thread ::
  "OS_Status \<Rightarrow> observer_base \<Rightarrow> u32 \<Rightarrow> u32 \<Rightarrow> observer_base \<times> action list" where
  "trigger_thread create_ret obs ev arg =
     (let t = (thread_of obs)\<lparr>to_event := ev, to_arg := arg\<rparr>;
          obs1 = obs\<lparr>ob_kind := Thread_Observer t\<rparr>
      in if to_thd t then (obs1, [])
         else if create_ret \<noteq> OS_OK
              then (obs1, if to_exception t \<noteq> None then [Call_exception (to_exception t) create_ret] else [])
              else (obs\<lparr>ob_kind := Thread_Observer (t\<lparr>to_thd := True\<rparr>)\<rparr>, [Start_thread (to_run t)]))"

definition wrap_thread :: "observer_base \<Rightarrow> observer_base \<times> action list" where
  "wrap_thread obs =
     (let t = thread_of obs
      in (obs\<lparr>ob_kind := Thread_Observer (t\<lparr>to_thd := False\<rparr>)\<rparr>,
          [Call_cb (to_run t) (to_event t) (to_arg t) (ob_arg obs)]))"

text \<open>\<open>obs->trigger(obs, event, arg)\<close>: the function pointer the init of each kind stored.\<close>

definition obs_trigger ::
  "OS_Status \<Rightarrow> observer_base \<Rightarrow> u32 \<Rightarrow> u32 \<Rightarrow> observer_base \<times> action list" where
  "obs_trigger create_ret obs ev arg =
     (case ob_kind obs of
        Plain_Observer f \<Rightarrow> (obs, [Call_trigger f ev arg])
      | Event_Observer _ \<Rightarrow> (event_trigger obs, [])
      | Callback_Observer cb \<Rightarrow> trigger_callback obs cb ev arg
      | Thread_Observer _ \<Rightarrow> trigger_thread create_ret obs ev arg)"

lemmas observer_defs =
  event_trigger_def trigger_callback_def trigger_thread_def obs_trigger_def thread_of_def

lemma obs_trigger_frame [simp, frame_simps]:
  "ob_event (fst (obs_trigger r obs ev arg)) = ob_event obs"
  "ob_state (fst (obs_trigger r obs ev arg)) = ob_state obs"
  "ob_arg (fst (obs_trigger r obs ev arg)) = ob_arg obs"
  by (auto simp: observer_defs Let_def split: observer_kind.splits option.splits)

section \<open>Properties\<close>

text \<open>Triggering an observer several times.\<close>

fun trigger_n :: "nat \<Rightarrow> observer_base \<Rightarrow> u32 \<Rightarrow> u32 \<Rightarrow> observer_base" where
  "trigger_n 0 obs ev arg = obs"
| "trigger_n (Suc n) obs ev arg = trigger_n n (fst (obs_trigger OS_OK obs ev arg)) ev arg"

lemma trigger_n_event:
  assumes "ob_kind obs = Event_Observer (Some \<lparr>sem_count = c, sem_max = 1\<rparr>)" and "c \<le> 1"
  shows "trigger_n n obs ev arg =
    obs\<lparr>ob_kind := Event_Observer (Some \<lparr>sem_count = (if n = 0 then c else 1), sem_max = 1\<rparr>)\<rparr>"
  using assms
proof (induction n arbitrary: obs c)
  case 0
  then show ?case by simp
next
  case (Suc n)
  let ?obs = "fst (obs_trigger OS_OK obs ev arg)"
  have o: "?obs = obs\<lparr>ob_kind := Event_Observer (Some \<lparr>sem_count = 1, sem_max = 1\<rparr>)\<rparr>"
    using Suc.prems by (cases "c = 0") (simp_all add: observer_defs OS_SemaphoreRelease_def le_Suc_eq)
  then have "ob_kind ?obs = Event_Observer (Some \<lparr>sem_count = 1, sem_max = 1\<rparr>)" by simp
  from Suc.IH [OF this] o show ?case by simp
qed

text \<open>an event observer remembers that its event was seen, not how often: after any number of
  triggers above 0 exactly one event_wait succeeds and the next one times out.\<close>

lemma event_observer_single_shot:
  assumes "event_observer_create True True ev = Some obs" and "0 < n"
  shows "\<exists>obs'. event_wait (trigger_n n obs e a) t = (OS_OK, obs') \<and> event_wait obs' t = (OS_E_TIMEOUT, obs')"
proof -
  have "ob_kind obs = Event_Observer (Some \<lparr>sem_count = 0, sem_max = 1\<rparr>)"
    using assms(1)
    by (auto simp: event_observer_create_def event_observer_init_def OS_SemaphoreCreateBinary_def)
  from trigger_n_event [OF this, of n e a] assms(2) show ?thesis
    by (simp add: event_wait_def OS_SemaphoreWait_def)
qed

lemma event_observer_single_shot_witness:
  "\<exists>obs'. event_wait (trigger_n 3 (the (event_observer_create True True 5)) 5 0) 10 = (OS_OK, obs')
     \<and> event_wait obs' 10 = (OS_E_TIMEOUT, obs')"
  using event_observer_single_shot [of 5 "the (event_observer_create True True 5)" 3 5 0 10]
  by (simp add: event_observer_create_def)

text \<open>a thread observer triggered while its thread still runs starts no second thread, but it
  overwrites the event and the argument that the running thread reports: a wrap_thread that has not
  yet read them calls \<open>run\<close> with those of the second trigger, and the first trigger is lost.\<close>

lemma thread_observer_overwrites:
  assumes "ob_kind obs = Thread_Observer t" and "\<not> to_thd t"
  shows "snd (obs_trigger OS_OK (fst (obs_trigger OS_OK obs e1 a1)) e2 a2) = []
    \<and> snd (wrap_thread (fst (obs_trigger OS_OK (fst (obs_trigger OS_OK obs e1 a1)) e2 a2)))
        = [Call_cb (to_run t) e2 a2 (ob_arg obs)]"
  using assms by (simp add: observer_defs wrap_thread_def Let_def)

lemma thread_observer_overwrites_witness:
  "snd (wrap_thread (fst (obs_trigger OS_OK (fst (obs_trigger OS_OK
      (the (thread_observer_create True 1 (Some 9) 0 512 3)) 1 10)) 1 11))) = [Call_cb (Some 9) 1 11 0]"
  using thread_observer_overwrites
    [of "the (thread_observer_create True 1 (Some 9) 0 512 3)"
        "zero_thread\<lparr>to_run := Some 9, to_stack := 512, to_prio := 3\<rparr>" 1 10 1 11]
  by (simp add: thread_observer_create_def thread_observer_init_def zero_observer_def thread_of_def
      zero_thread_def)

end
