(* ===== verification/Publisher.thy ===== *)
theory Publisher
  imports Observer
begin

text \<open>
  The publisher of project/common/framework/sys_ctrl/publisher.c: a list of observers, attached,
  attached once or detached, and the delivery of an event to those that match it. An observer is
  known by its number; \<open>pb_head\<close> is the list of the observers linked under the publisher, in list
  order, so \<open>list_empty(&obs->node)\<close> is \<open>o \<notin> set (pb_head p)\<close> (see \<open>Sys_List\<close>). The functions a
  callback observer runs reach the publisher through attach, touch and detach only.
\<close>

section \<open>State\<close>

datatype publisher_state = PUBLISHER_IDLE | PUBLISHER_WORKING

record publisher_base =
  pb_head :: "nat list"
  pb_state :: publisher_state
  pb_obs :: "nat \<Rightarrow> observer_base"
  pb_log :: "(nat \<times> action list) list"  \<comment> \<open>the triggers so far, in order\<close>

definition set_obs_state :: "publisher_base \<Rightarrow> nat \<Rightarrow> observer_state \<Rightarrow> publisher_base" where
  "set_obs_state p ob st = p\<lparr>pb_obs := (pb_obs p)(ob := (pb_obs p ob)\<lparr>ob_state := st\<rparr>)\<rparr>"

section \<open>Attaching and detaching\<close>

definition attach_common :: "publisher_base \<Rightarrow> nat \<Rightarrow> bool \<Rightarrow> int \<times> publisher_base" where
  "attach_common p ob once =
     (let attach_state = (if once then OBSERVER_ATTACHED_ONCE else OBSERVER_ATTACHED)
      in if ob_state (pb_obs p ob) = OBSERVER_DETACHED then (0, set_obs_state p ob attach_state)
         else if ob \<notin> set (pb_head p)
              then (0, set_obs_state (p\<lparr>pb_head := pb_head p @ [ob]\<rparr>) ob attach_state)
              else (-1, p))"

definition attach_once :: "publisher_base \<Rightarrow> nat \<Rightarrow> int \<times> publisher_base" where
  "attach_once p ob = attach_common p ob True"

definition attach :: "publisher_base \<Rightarrow> nat \<Rightarrow> int \<times> publisher_base" where
  "attach p ob = attach_common p ob False"

definition detach :: "publisher_base \<Rightarrow> nat \<Rightarrow> int \<times> publisher_base" where
  "detach p ob =
     (if pb_state p = PUBLISHER_IDLE
      then (0, set_obs_state (p\<lparr>pb_head := remove1 ob (pb_head p)\<rparr>) ob OBSERVER_ILDE)
      else (0, set_obs_state p ob OBSERVER_DETACHED))"

section \<open>Notification\<close>

text \<open>What a callback does to the publisher that called it.\<close>

datatype pub_call = Attach nat | Touch nat | Detach nat

fun run_call :: "publisher_base \<Rightarrow> pub_call \<Rightarrow> publisher_base" where
  "run_call p (Attach ob) = snd (attach p ob)"
| "run_call p (Touch ob) = snd (attach_once p ob)"
| "run_call p (Detach ob) = snd (detach p ob)"

definition run_calls :: "publisher_base \<Rightarrow> pub_call list \<Rightarrow> publisher_base" where
  "run_calls = foldl run_call"

text \<open>
  \<open>cb\<close> says which calls the function of an action makes, \<open>create_ret\<close> what OS_ThreadCreate answers.
\<close>

type_synonym callbacks = "action \<Rightarrow> pub_call list"

definition trigger_obs :: "callbacks \<Rightarrow> OS_Status \<Rightarrow> u32 \<Rightarrow> u32 \<Rightarrow> publisher_base \<Rightarrow> nat \<Rightarrow> publisher_base" where
  "trigger_obs cb create_ret ev arg p ob =
     (case obs_trigger create_ret (pb_obs p ob) ev arg of
        (obs', acts) \<Rightarrow>
          run_calls (p\<lparr>pb_obs := (pb_obs p)(ob := obs'), pb_log := pb_log p @ [(ob, acts)]\<rparr>)
            (concat (map cb acts)))"

text \<open>The node after \<open>ob\<close> in the list; a node out of every list leads to itself.\<close>

fun next_in :: "nat list \<Rightarrow> nat \<Rightarrow> nat option" where
  "next_in [] ob = Some ob"
| "next_in (x # xs) ob =
     (if x = ob then (case xs of [] \<Rightarrow> None | y # _ \<Rightarrow> Some y) else next_in xs ob)"

definition wanted :: "(u32 \<Rightarrow> u32 \<Rightarrow> int) \<Rightarrow> u32 \<Rightarrow> observer_base \<Rightarrow> bool" where
  "wanted cmp ev obs =
     (cmp ev (ob_event obs) = 0
      \<and> (ob_state obs = OBSERVER_ATTACHED \<or> ob_state obs = OBSERVER_ATTACHED_ONCE))"

definition visit ::
  "callbacks \<Rightarrow> OS_Status \<Rightarrow> (u32 \<Rightarrow> u32 \<Rightarrow> int) \<Rightarrow> u32 \<Rightarrow> u32 \<Rightarrow> publisher_base \<Rightarrow> nat \<Rightarrow> publisher_base \<times> bool" where
  "visit cb create_ret cmp ev arg p ob =
     (if wanted cmp ev (pb_obs p ob)
      then (let p1 = trigger_obs cb create_ret ev arg p ob
            in (if ob_state (pb_obs p1 ob) = OBSERVER_ATTACHED_ONCE
                then set_obs_state p1 ob OBSERVER_DETACHED else p1, True))
      else (p, False))"

text \<open>The first loop of notify, from the cursor \<open>cur\<close> on; the fuel bounds the nodes visited.\<close>

fun notify_loop ::
  "nat \<Rightarrow> callbacks \<Rightarrow> OS_Status \<Rightarrow> (u32 \<Rightarrow> u32 \<Rightarrow> int) \<Rightarrow> u32 \<Rightarrow> u32 \<Rightarrow> nat option \<Rightarrow> publisher_base \<Rightarrow> nat
     \<Rightarrow> (nat \<times> publisher_base) option" where
  "notify_loop fuel cb create_ret cmp ev arg None p cnt = Some (cnt, p)"
| "notify_loop 0 cb create_ret cmp ev arg (Some ob) p cnt = None"
| "notify_loop (Suc fuel) cb create_ret cmp ev arg (Some ob) p cnt =
     (case visit cb create_ret cmp ev arg p ob of
        (p', hit) \<Rightarrow>
          notify_loop fuel cb create_ret cmp ev arg (next_in (pb_head p') ob) p' (if hit then Suc cnt else cnt))"

text \<open>The second loop: the observers marked as detached leave the list.\<close>

definition sweep :: "publisher_base \<Rightarrow> publisher_base" where
  "sweep p =
     (let gone = (\<lambda>ob. ob_state (pb_obs p ob) = OBSERVER_DETACHED)
      in p\<lparr>pb_head := filter (\<lambda>ob. \<not> gone ob) (pb_head p),
           pb_obs := (\<lambda>ob. if ob \<in> set (pb_head p) \<and> gone ob then (pb_obs p ob)\<lparr>ob_state := OBSERVER_ILDE\<rparr>
                          else pb_obs p ob)\<rparr>)"

definition notify ::
  "nat \<Rightarrow> callbacks \<Rightarrow> OS_Status \<Rightarrow> (u32 \<Rightarrow> u32 \<Rightarrow> int) \<Rightarrow> publisher_base \<Rightarrow> u32 \<Rightarrow> u32 \<Rightarrow> (nat \<times> publisher_base) option" where
  "notify fuel cb create_ret cmp p ev arg =
     (let p0 = p\<lparr>pb_state := PUBLISHER_WORKING\<rparr>
      in case notify_loop fuel cb create_ret cmp ev arg
                (case pb_head p0 of [] \<Rightarrow> None | x # _ \<Rightarrow> Some x) p0 0 of
           None \<Rightarrow> None
         | Some (cnt, p1) \<Rightarrow> Some (cnt, (sweep p1)\<lparr>pb_state := PUBLISHER_IDLE\<rparr>))"

lemmas attach_defs = attach_common_def attach_once_def attach_def detach_def set_obs_state_def

section \<open>Frames\<close>

lemma set_obs_state_simps [simp, frame_simps]:
  "pb_head (set_obs_state p ob st) = pb_head p"
  "pb_state (set_obs_state p ob st) = pb_state p"
  "pb_log (set_obs_state p ob st) = pb_log p"
  "pb_obs (set_obs_state p ob st) = (pb_obs p)(ob := (pb_obs p ob)\<lparr>ob_state := st\<rparr>)"
  by (simp_all add: set_obs_state_def)

lemma attach_common_frame [simp, frame_simps]:
  "pb_state (snd (attach_common p ob once)) = pb_state p"
  "pb_log (snd (attach_common p ob once)) = pb_log p"
  by (auto simp: attach_common_def Let_def)

lemma run_call_frame [simp, frame_simps]:
  "pb_state (run_call p c) = pb_state p" "pb_log (run_call p c) = pb_log p"
  by (cases c; simp add: attach_def attach_once_def detach_def)+

lemma run_calls_frame [simp, frame_simps]:
  "pb_state (run_calls p cs) = pb_state p" "pb_log (run_calls p cs) = pb_log p"
  unfolding run_calls_def by (induction cs arbitrary: p) auto

section \<open>The invariant\<close>

text \<open>
  An observer is linked exactly while it is not idle; between notifications no linked observer is
  marked as detached.
\<close>

definition pub_inv :: "publisher_base \<Rightarrow> bool" where
  "pub_inv p =
     (distinct (pb_head p)
      \<and> (\<forall>ob. ob \<in> set (pb_head p) \<longleftrightarrow> ob_state (pb_obs p ob) \<noteq> OBSERVER_ILDE)
      \<and> (\<forall>ob. ob_state (pb_obs p ob) \<noteq> OBSERVER_WORKING)
      \<and> (pb_state p = PUBLISHER_IDLE \<longrightarrow> (\<forall>ob. ob_state (pb_obs p ob) \<noteq> OBSERVER_DETACHED)))"

lemma attach_common_inv [inv_intros]: "pub_inv p \<Longrightarrow> pub_inv (snd (attach_common p ob once))"
  by (auto simp: pub_inv_def attach_common_def Let_def)

lemma detach_inv [inv_intros]:
  "pub_inv p \<Longrightarrow> pb_state p = PUBLISHER_IDLE \<or> ob \<in> set (pb_head p) \<Longrightarrow> pub_inv (snd (detach p ob))"
  by (auto simp: pub_inv_def detach_def)

text \<open>While the publisher works its list only grows at the end.\<close>

lemma attach_common_head:
  "\<exists>ext. pb_head (snd (attach_common p ob once)) = pb_head p @ ext \<and> set ext \<subseteq> {ob}"
  by (auto simp: attach_common_def Let_def)

fun call_obs :: "pub_call \<Rightarrow> nat" where
  "call_obs (Attach ob) = ob" | "call_obs (Touch ob) = ob" | "call_obs (Detach ob) = ob"

lemma run_call_head:
  "pb_state p = PUBLISHER_WORKING \<Longrightarrow> \<exists>ext. pb_head (run_call p c) = pb_head p @ ext \<and> set ext \<subseteq> {call_obs c}"
  using attach_common_head [of p] by (cases c) (auto simp: attach_def attach_once_def detach_def)

text \<open>A callback detaches only observers that the publisher has linked.\<close>

definition detaches_linked :: "callbacks \<Rightarrow> nat list \<Rightarrow> bool" where
  "detaches_linked cb xs = (\<forall>act ob. Detach ob \<in> set (cb act) \<longrightarrow> ob \<in> set xs)"

definition calls_within :: "callbacks \<Rightarrow> nat set \<Rightarrow> bool" where
  "calls_within cb U = (\<forall>act c. c \<in> set (cb act) \<longrightarrow> call_obs c \<in> U)"

text \<open>\<open>grown xs U p\<close>: the invariant, the publisher works, and its list is \<open>xs\<close> plus members of \<open>U\<close>.\<close>

definition grown :: "nat list \<Rightarrow> nat set \<Rightarrow> publisher_base \<Rightarrow> bool" where
  "grown xs U p = (pub_inv p \<and> pb_state p = PUBLISHER_WORKING \<and> set (pb_head p) \<subseteq> U
     \<and> (\<exists>ext. pb_head p = xs @ ext))"

lemma run_call_grown:
  assumes g: "grown xs U p" and "call_obs c \<in> U" and "\<And>ob. c = Detach ob \<Longrightarrow> ob \<in> set (pb_head p)"
  shows "grown (pb_head p) U (run_call p c)"
proof -
  obtain ext where "pb_head (run_call p c) = pb_head p @ ext" "set ext \<subseteq> {call_obs c}"
    using run_call_head [of p c] g by (auto simp: grown_def)
  moreover have "pub_inv (run_call p c)"
    using assms by (cases c) (auto simp: grown_def attach_def attach_once_def intro: inv_intros)
  ultimately show ?thesis using assms by (auto simp: grown_def)
qed

lemma grown_trans: "grown ys U q \<Longrightarrow> ys = xs @ ext \<Longrightarrow> grown xs U q"
  by (auto simp: grown_def)

lemma run_calls_grown:
  assumes "grown xs U p" and "\<And>c. c \<in> set cs \<Longrightarrow> call_obs c \<in> U"
    and "\<And>ob. Detach ob \<in> set cs \<Longrightarrow> ob \<in> set xs"
  shows "grown (pb_head p) U (run_calls p cs)"
  using assms
proof (induction cs arbitrary: p)
  case Nil
  then show ?case by (auto simp: run_calls_def grown_def)
next
  case (Cons c cs)
  have "set xs \<subseteq> set (pb_head p)" using Cons.prems(1) by (auto simp: grown_def)
  then have g: "grown (pb_head p) U (run_call p c)"
    using Cons.prems by (intro run_call_grown [of xs]) auto
  then obtain ext where e: "pb_head (run_call p c) = pb_head p @ ext" by (auto simp: grown_def)
  have "grown xs U (run_call p c)"
    using g Cons.prems(1) by (auto simp: grown_def)
  from Cons.IH [OF this] Cons.prems(2,3)
  have "grown (pb_head (run_call p c)) U (run_calls (run_call p c) cs)" by auto
  then have "grown (pb_head p) U (run_calls (run_call p c) cs)" by (rule grown_trans [OF _ e])
  then show ?case by (simp add: run_calls_def)
qed

lemma next_in_nth:
  "distinct ys \<Longrightarrow> i < length ys \<Longrightarrow> next_in ys (ys ! i) = (if Suc i < length ys then Some (ys ! Suc i) else None)"
proof (induction ys arbitrary: i)
  case Nil
  then show ?case by simp
next
  case (Cons y ys)
  then show ?case by (cases i) (auto split: list.splits simp: nth_Cons')
qed

lemma visit_grown:
  assumes g: "grown xs U p" and ob: "ob \<in> set (pb_head p)"
    and "detaches_linked cb xs" and "calls_within cb U"
  shows "grown (pb_head p) U (fst (visit cb r cmp ev arg p ob))"
proof (cases "wanted cmp ev (pb_obs p ob)")
  case False
  then show ?thesis using g by (auto simp: visit_def grown_def)
next
  case True
  obtain obs' acts where t: "obs_trigger r (pb_obs p ob) ev arg = (obs', acts)" by fastforce
  then have st: "ob_state obs' = ob_state (pb_obs p ob)"
    using obs_trigger_frame(2) [of r "pb_obs p ob" ev arg] by simp
  let ?p = "p\<lparr>pb_obs := (pb_obs p)(ob := obs'), pb_log := pb_log p @ [(ob, acts)]\<rparr>"
  have "grown xs U ?p" using g st by (auto simp: grown_def pub_inv_def)
  then have "grown (pb_head ?p) U (run_calls ?p (concat (map cb acts)))"
    by (rule run_calls_grown) (use assms(3,4) in \<open>auto simp: detaches_linked_def calls_within_def\<close>)
  then have g1: "grown (pb_head p) U (trigger_obs cb r ev arg p ob)"
    by (simp add: trigger_obs_def t)
  then have "ob \<in> set (pb_head (trigger_obs cb r ev arg p ob))"
    using ob by (auto simp: grown_def)
  with g1 have "grown (pb_head p) U (set_obs_state (trigger_obs cb r ev arg p ob) ob OBSERVER_DETACHED)"
    by (auto simp: grown_def pub_inv_def)
  with g1 True show ?thesis by (simp add: visit_def Let_def)
qed

lemma notify_loop_total:
  assumes "grown xs U p" and "finite U" and "i < length (pb_head p)" and "card U < fuel + i"
    and "detaches_linked cb xs" and "calls_within cb U"
  shows "\<exists>cnt' p'. notify_loop fuel cb r cmp ev arg (Some (pb_head p ! i)) p cnt = Some (cnt', p') \<and> grown xs U p'"
  using assms(1,3,4)
proof (induction fuel arbitrary: p i cnt)
  case 0
  have "length (pb_head p) \<le> card U"
    using 0(1) \<open>finite U\<close> by (metis card_mono distinct_card grown_def pub_inv_def)
  with 0 show ?case by simp
next
  case (Suc fuel)
  obtain p' hit where v: "visit cb r cmp ev arg p (pb_head p ! i) = (p', hit)" by fastforce
  have g': "grown (pb_head p) U p'"
    using visit_grown [OF Suc.prems(1) _ assms(5,6), of "pb_head p ! i" r cmp ev arg] Suc.prems(2) v by simp
  then obtain ext where h: "pb_head p' = pb_head p @ ext" by (auto simp: grown_def)
  then have nth: "pb_head p ! i = pb_head p' ! i" using Suc.prems(2) by (simp add: nth_append)
  have gx: "grown xs U p'" using Suc.prems(1) g' by (auto simp: grown_def)
  have nx: "next_in (pb_head p') (pb_head p ! i) =
      (if Suc i < length (pb_head p') then Some (pb_head p' ! Suc i) else None)"
    using next_in_nth [of "pb_head p'" i] g' h Suc.prems(2) nth by (simp add: grown_def pub_inv_def)
  show ?case
  proof (cases "Suc i < length (pb_head p')")
    case True
    from Suc.IH [OF gx True, of "if hit then Suc cnt else cnt"] Suc.prems(3) v nx True show ?thesis by simp
  next
    case False
    with v nx gx show ?thesis by simp
  qed
qed

lemma sweep_inv:
  assumes "pub_inv p" and "pb_state p = PUBLISHER_WORKING"
  shows "pub_inv ((sweep p)\<lparr>pb_state := PUBLISHER_IDLE\<rparr>)"
  using assms by (auto simp: pub_inv_def sweep_def Let_def)

text \<open>The observers that a notification and its callbacks deal with.\<close>

lemma grown_start: "pub_inv p \<Longrightarrow> set (pb_head p) \<subseteq> U \<Longrightarrow> grown (pb_head p) U (p\<lparr>pb_state := PUBLISHER_WORKING\<rparr>)"
  by (auto simp: grown_def pub_inv_def)

lemma notify_total:
  assumes "pub_inv p" and "finite U" and "set (pb_head p) \<subseteq> U" and "card U < fuel"
    and "detaches_linked cb (pb_head p)" and "calls_within cb U"
  shows "\<exists>cnt p'. notify fuel cb r cmp p ev arg = Some (cnt, p') \<and> pub_inv p' \<and> pb_state p' = PUBLISHER_IDLE"
proof (cases "pb_head p")
  case Nil
  then show ?thesis
    using sweep_inv [of "p\<lparr>pb_state := PUBLISHER_WORKING\<rparr>"] assms(1)
    by (auto simp: notify_def Let_def pub_inv_def)
next
  case (Cons x xs)
  let ?p = "p\<lparr>pb_state := PUBLISHER_WORKING\<rparr>"
  from notify_loop_total [OF grown_start [OF assms(1,3)] assms(2) _ _ assms(5,6), of 0 fuel r cmp ev arg 0]
  obtain cnt p' where "notify_loop fuel cb r cmp ev arg (Some x) ?p 0 = Some (cnt, p')"
    "grown (pb_head p) U p'"
    using assms(4) Cons by auto
  with Cons show ?thesis by (auto simp: notify_def grown_def intro: sweep_inv)
qed

section \<open>Delivery when the callbacks leave the publisher alone\<close>

definition silent :: callbacks where "silent act = []"

lemma silent_calls: "concat (map silent acts) = []"
  by (induction acts) (auto simp: silent_def)

definition shot :: "(u32 \<Rightarrow> u32 \<Rightarrow> int) \<Rightarrow> u32 \<Rightarrow> observer_base \<Rightarrow> bool" where
  "shot cmp ev obs = (wanted cmp ev obs \<and> ob_state obs = OBSERVER_ATTACHED_ONCE)"

lemma ob_state_same: "ob_state a = v \<Longrightarrow> a\<lparr>ob_state := v\<rparr> = a"
  by (cases a) simp

text \<open>What a visit leaves of an observer.\<close>

definition after_visit :: "OS_Status \<Rightarrow> (u32 \<Rightarrow> u32 \<Rightarrow> int) \<Rightarrow> u32 \<Rightarrow> u32 \<Rightarrow> observer_base \<Rightarrow> observer_base" where
  "after_visit r cmp ev arg obs =
     (if wanted cmp ev obs
      then (fst (obs_trigger r obs ev arg))\<lparr>ob_state := (if shot cmp ev obs then OBSERVER_DETACHED else ob_state obs)\<rparr>
      else obs)"

lemma after_visit_state [simp]:
  "ob_state (after_visit r cmp ev arg obs) = (if shot cmp ev obs then OBSERVER_DETACHED else ob_state obs)"
  by (simp add: after_visit_def shot_def)

definition deliveries :: "OS_Status \<Rightarrow> (u32 \<Rightarrow> u32 \<Rightarrow> int) \<Rightarrow> u32 \<Rightarrow> u32 \<Rightarrow> publisher_base \<Rightarrow> nat list \<Rightarrow> (nat \<times> action list) list" where
  "deliveries r cmp ev arg p xs =
     map (\<lambda>x. (x, snd (obs_trigger r (pb_obs p x) ev arg))) (filter (\<lambda>x. wanted cmp ev (pb_obs p x)) xs)"

lemma deliveries_cong:
  "(\<And>x. x \<in> set xs \<Longrightarrow> pb_obs q x = pb_obs p x) \<Longrightarrow> deliveries r cmp ev arg q xs = deliveries r cmp ev arg p xs"
  unfolding deliveries_def by (intro map_cong filter_cong) auto

lemma visit_silent:
  "visit silent r cmp ev arg p ob =
     (p\<lparr>pb_obs := (pb_obs p)(ob := after_visit r cmp ev arg (pb_obs p ob)),
        pb_log := pb_log p @ deliveries r cmp ev arg p [ob]\<rparr>, wanted cmp ev (pb_obs p ob))"
  using obs_trigger_frame(2) [of r "pb_obs p ob" ev arg]
  by (cases "obs_trigger r (pb_obs p ob) ev arg")
    (auto simp: visit_def trigger_obs_def silent_calls run_calls_def set_obs_state_def shot_def Let_def
      ob_state_same after_visit_def deliveries_def)

lemma notify_loop_silent:
  assumes "distinct (pre @ ob # post)" and "pb_head p = pre @ ob # post" and "length post < fuel"
  shows "\<exists>p'. notify_loop fuel silent r cmp ev arg (Some ob) p cnt =
      Some (cnt + length (deliveries r cmp ev arg p (ob # post)), p')
    \<and> pb_head p' = pb_head p \<and> pb_state p' = pb_state p
    \<and> pb_log p' = pb_log p @ deliveries r cmp ev arg p (ob # post)
    \<and> pb_obs p' = (\<lambda>x. if x \<in> set (ob # post) then after_visit r cmp ev arg (pb_obs p x) else pb_obs p x)"
  using assms
proof (induction post arbitrary: pre ob p cnt fuel)
  case Nil
  have "next_in (pre @ [ob]) ob = None"
    using next_in_nth [of "pre @ [ob]" "length pre"] Nil.prems by simp
  with Nil show ?case
    by (cases fuel) (auto simp: visit_silent deliveries_def)
next
  case (Cons y ys)
  then obtain f where f: "fuel = Suc f" "length ys < f" by (cases fuel) auto
  have nx: "next_in (pre @ ob # y # ys) ob = Some y"
    using next_in_nth [of "pre @ ob # y # ys" "length pre"] Cons.prems by (simp add: nth_append)
  let ?hit = "wanted cmp ev (pb_obs p ob)"
  let ?cnt = "if ?hit then Suc cnt else cnt"
  let ?p1 = "fst (visit silent r cmp ev arg p ob)"
  have ne: "ob \<notin> set (y # ys)" using Cons.prems(1) by auto
  have d1: "deliveries r cmp ev arg ?p1 (y # ys) = deliveries r cmp ev arg p (y # ys)"
    by (rule deliveries_cong) (use ne in \<open>auto simp: visit_silent\<close>)
  have d2: "deliveries r cmp ev arg p (ob # y # ys) =
      deliveries r cmp ev arg p [ob] @ deliveries r cmp ev arg p (y # ys)"
    by (simp add: deliveries_def)
  have d3: "length (deliveries r cmp ev arg p [ob]) = (if ?hit then 1 else 0)"
    by (simp add: deliveries_def)
  from Cons.IH [of "pre @ [ob]" y ?p1 f ?cnt] Cons.prems f
  obtain p' where p': "notify_loop f silent r cmp ev arg (Some y) ?p1 ?cnt =
      Some (?cnt + length (deliveries r cmp ev arg ?p1 (y # ys)), p')"
    "pb_head p' = pb_head ?p1" "pb_state p' = pb_state ?p1"
    "pb_log p' = pb_log ?p1 @ deliveries r cmp ev arg ?p1 (y # ys)"
    "pb_obs p' = (\<lambda>x. if x \<in> set (y # ys) then after_visit r cmp ev arg (pb_obs ?p1 x) else pb_obs ?p1 x)"
    by (auto simp: visit_silent)
  have l1: "notify_loop fuel silent r cmp ev arg (Some ob) p cnt =
      Some (cnt + length (deliveries r cmp ev arg p (ob # y # ys)), p')"
    using p'(1) nx Cons.prems(2) d1 d2 d3 f(1) by (simp add: visit_silent)
  have l2: "pb_log p' = pb_log p @ deliveries r cmp ev arg p (ob # y # ys)"
    using p'(4) d1 d2 by (simp add: visit_silent)
  have l3: "pb_obs p' = (\<lambda>x. if x \<in> set (ob # y # ys) then after_visit r cmp ev arg (pb_obs p x) else pb_obs p x)"
    using p'(5) ne by (auto simp: visit_silent fun_eq_iff)
  show ?case
    by (intro exI [of _ p'] conjI l1 l2 l3) (simp_all add: p'(2,3) visit_silent)
qed

text \<open>The whole of notify with silent callbacks.\<close>

lemma notify_silent:
  assumes "pub_inv p" and "pb_state p = PUBLISHER_IDLE" and "length (pb_head p) < fuel"
  shows "\<exists>p'. notify fuel silent r cmp p ev arg = Some (length (deliveries r cmp ev arg p (pb_head p)), p')
    \<and> pb_log p' = pb_log p @ deliveries r cmp ev arg p (pb_head p)
    \<and> pb_head p' = filter (\<lambda>x. \<not> shot cmp ev (pb_obs p x)) (pb_head p)
    \<and> (\<forall>x. x \<in> set (pb_head p') \<longrightarrow> pb_obs p' x = after_visit r cmp ev arg (pb_obs p x))
    \<and> pub_inv p' \<and> pb_state p' = PUBLISHER_IDLE"
proof (cases "pb_head p")
  case Nil
  then show ?thesis using assms(1,2)
    by (simp add: notify_def sweep_def Let_def pub_inv_def deliveries_def)
next
  case (Cons x xs)
  let ?p = "p\<lparr>pb_state := PUBLISHER_WORKING\<rparr>"
  have d: "distinct ([] @ x # xs)" using assms(1) Cons by (simp add: pub_inv_def)
  have st: "\<And>y. ob_state (pb_obs p y) \<noteq> OBSERVER_DETACHED" using assms(1,2) by (simp add: pub_inv_def)
  have dp: "deliveries r cmp ev arg ?p (x # xs) = deliveries r cmp ev arg p (x # xs)"
    by (rule deliveries_cong) simp
  from notify_loop_silent [OF d, of ?p fuel r cmp ev arg 0] Cons assms(3) dp
  obtain p1 where p1: "notify_loop fuel silent r cmp ev arg (Some x) ?p 0 =
      Some (length (deliveries r cmp ev arg p (pb_head p)), p1)"
    "pb_head p1 = pb_head p" "pb_log p1 = pb_log p @ deliveries r cmp ev arg p (pb_head p)"
    "pb_obs p1 = (\<lambda>x. if x \<in> set (pb_head p) then after_visit r cmp ev arg (pb_obs p x) else pb_obs p x)"
    by (auto cong: if_cong)
  have gone: "filter (\<lambda>y. ob_state (pb_obs p1 y) \<noteq> OBSERVER_DETACHED) (pb_head p1) =
      filter (\<lambda>x. \<not> shot cmp ev (pb_obs p x)) (pb_head p)"
    using p1(2,4) st by (intro filter_cong) auto
  have "pub_inv ((sweep p1)\<lparr>pb_state := PUBLISHER_IDLE\<rparr>)"
    using assms(1) p1(2,4) st by (auto simp: pub_inv_def sweep_def Let_def)
  then show ?thesis using p1 gone Cons st by (simp add: notify_def sweep_def Let_def)
qed

section \<open>Properties\<close>


definition cb_obs :: "u32 \<Rightarrow> observer_state \<Rightarrow> observer_base" where
  "cb_obs ev st = \<lparr>ob_event = ev, ob_state = st, ob_arg = 0, ob_kind = Callback_Observer (Some 1)\<rparr>"

definition pub3 :: publisher_base where
  "pub3 = \<lparr>pb_head = [1, 2, 3], pb_state = PUBLISHER_IDLE,
     pb_obs = (\<lambda>n. if n = 1 then cb_obs 7 OBSERVER_ATTACHED_ONCE else if n = 2 then cb_obs 8 OBSERVER_ATTACHED
                  else if n = 3 then cb_obs 7 OBSERVER_ATTACHED else cb_obs 0 OBSERVER_ILDE), pb_log = []\<rparr>"

definition same_event :: "u32 \<Rightarrow> u32 \<Rightarrow> int" where
  "same_event a b = (if a = b then 0 else -1)"

lemma pub3_inv: "pub_inv pub3" "pb_state pub3 = PUBLISHER_IDLE" "pb_head pub3 = [1, 2, 3]"
  by (auto simp: pub_inv_def pub3_def cb_obs_def split: if_splits)



definition busy_cb :: callbacks where
  "busy_cb act = [Detach 2, Attach 4, Detach 1, Touch 1]"


text \<open>detaching, while the publisher works, an observer that was never attached leaves it marked
  as detached outside the list. The next attach then reports success, but the observer is still not
  in the list, so no event reaches it; a further attach links it.\<close>

lemma attach_after_stray_detach:
  assumes "pb_state p = PUBLISHER_WORKING" and "ob \<notin> set (pb_head p)"
  defines "q \<equiv> (sweep (snd (detach p ob)))\<lparr>pb_state := PUBLISHER_IDLE\<rparr>"
  shows "fst (attach q ob) = 0 \<and> ob \<notin> set (pb_head (snd (attach q ob)))
    \<and> fst (attach (snd (attach q ob)) ob) = 0 \<and> ob \<in> set (pb_head (snd (attach (snd (attach q ob)) ob)))"
  using assms by (simp add: attach_defs sweep_def Let_def)

lemma attach_after_stray_detach_witness:
  "ob_state (pb_obs pub3 5) = OBSERVER_ILDE
    \<and> 5 \<notin> set (pb_head (snd (attach ((sweep (snd (detach (pub3\<lparr>pb_state := PUBLISHER_WORKING\<rparr>) 5)))\<lparr>pb_state := PUBLISHER_IDLE\<rparr>) 5)))"
  using attach_after_stray_detach [of "pub3\<lparr>pb_state := PUBLISHER_WORKING\<rparr>" 5]
  by (simp add: pub3_def cb_obs_def)

text \<open>an observer cannot re-arm itself from its own callback by detach and touch: both calls
  report success, yet the notification that runs the callback takes the observer out of the list.\<close>

lemma rearm_in_callback_lost:
  assumes "pub_inv p" and "pb_state p = PUBLISHER_WORKING" and "ob \<in> set (pb_head p)"
    and "ob_kind (pb_obs p ob) = Callback_Observer f" and "wanted cmp ev (pb_obs p ob)"
    and "\<And>act. cb act = [Detach ob, Touch ob]"
  shows "fst (attach_once (snd (detach p ob)) ob) = 0
    \<and> ob \<notin> set (pb_head (sweep (fst (visit cb r cmp ev arg p ob))))"
  using assms
  by (simp add: visit_def trigger_obs_def observer_defs run_calls_def attach_defs sweep_def Let_def)

lemma rearm_in_callback_lost_witness:
  "1 \<notin> set (pb_head (sweep (fst (visit (\<lambda>_. [Detach 1, Touch 1]) OS_OK same_event 7 0
      (pub3\<lparr>pb_state := PUBLISHER_WORKING\<rparr>) 1))))"
  using rearm_in_callback_lost [of "pub3\<lparr>pb_state := PUBLISHER_WORKING\<rparr>" 1 "Some 1" same_event 7
      "\<lambda>_. [Detach 1, Touch 1]" OS_OK 0] pub3_inv
  by (auto simp: pub_inv_def pub3_def cb_obs_def same_event_def wanted_def)

end
