(* ===== verification/Looper.thy ===== *)
theory Looper
  imports Publisher
begin

text \<open>
  The looper of project/common/framework/sys_ctrl/looper.c (the thread that takes messages from an
  event queue and runs their handlers) and the factories that build a looper and a publisher
  (looper.c, publisher.c).
\<close>

section \<open>Outcomes of code that may follow a null pointer\<close>

datatype 'a outcome = Returns 'a | Null_deref

section \<open>The looper object and its factory\<close>

text \<open>\<open>lp_msg\<close>: size of the message buffer, if it has one. \<open>lp_thd\<close>: priority and stack of its thread.\<close>

record looper_base =
  lp_extend :: fn_ptr
  lp_msg :: "nat option"
  lp_thd :: "(nat \<times> u32) option"

record looper_factory =
  lf_looper :: looper_base
  lf_prio :: nat
  lf_stack :: u32

definition sizeof_event_msg :: nat where "sizeof_event_msg = 16"
definition sizeof_sys_ctrl_msg :: nat where "sizeof_sys_ctrl_msg = 20"
definition OS_PRIORITY_NORMAL :: nat where "OS_PRIORITY_NORMAL = 3"

definition looper_create :: "bool \<Rightarrow> bool \<Rightarrow> OS_Status \<Rightarrow> looper_base option" where
  "looper_create base_ok msg_ok thread_ret =
     (if \<not> base_ok then None
      else (let base = \<lparr>lp_extend = None, lp_msg = (if msg_ok then Some sizeof_event_msg else None), lp_thd = None\<rparr>
            in if thread_ret \<noteq> OS_OK then None
               else Some (base\<lparr>lp_thd := Some (OS_PRIORITY_NORMAL, 2 * 1024)\<rparr>)))"

definition set_thread_param :: "looper_factory \<Rightarrow> nat \<Rightarrow> u32 \<Rightarrow> looper_factory" where
  "set_thread_param ctor prio stack = ctor\<lparr>lf_prio := prio, lf_stack := stack\<rparr>"

definition set_msg_size :: "bool \<Rightarrow> looper_factory \<Rightarrow> nat \<Rightarrow> looper_factory" where
  "set_msg_size malloc_ok ctor sz =
     ctor\<lparr>lf_looper := (lf_looper ctor)\<lparr>lp_msg := (if malloc_ok then Some sz else None)\<rparr>\<rparr>"

definition set_extend_function :: "looper_factory \<Rightarrow> fn_ptr \<Rightarrow> looper_factory" where
  "set_extend_function ctor ext = ctor\<lparr>lf_looper := (lf_looper ctor)\<lparr>lp_extend := ext\<rparr>\<rparr>"

definition create_looper :: "bool \<Rightarrow> OS_Status \<Rightarrow> looper_factory \<Rightarrow> looper_base option" where
  "create_looper malloc_ok thread_ret ctor =
     (let looper = lf_looper ctor;
          looper1 = (if lp_msg looper = None
                     then looper\<lparr>lp_msg := (if malloc_ok then Some sizeof_event_msg else None)\<rparr> else looper)
      in if thread_ret \<noteq> OS_OK then None
         else Some (looper1\<lparr>lp_thd := Some (lf_prio ctor, lf_stack ctor)\<rparr>))"

definition looper_factory_create :: "bool \<Rightarrow> bool \<Rightarrow> looper_factory option" where
  "looper_factory_create base_ok ctor_ok =
     (if \<not> base_ok then None
      else if \<not> ctor_ok then None
      else Some \<lparr>lf_looper = \<lparr>lp_extend = None, lp_msg = None, lp_thd = None\<rparr>,
                 lf_prio = OS_PRIORITY_NORMAL, lf_stack = 2 * 1024\<rparr>)"

section \<open>One round of the looper thread\<close>

text \<open>
  \<open>while (extend != NULL) extend = base->extend(msg, base->arg);\<close> where the function says, besides
  the new state, whether it returned a non-null pointer.
\<close>

fun extend_loop :: "nat \<Rightarrow> (event_msg \<Rightarrow> 's \<Rightarrow> ('s \<times> bool) option) \<Rightarrow> event_msg \<Rightarrow> 's \<Rightarrow> 's option" where
  "extend_loop 0 ext msg s = None"
| "extend_loop (Suc fuel) ext msg s =
     (case ext msg s of None \<Rightarrow> None | Some (s', again) \<Rightarrow> if again then extend_loop fuel ext msg s' else Some s')"

text \<open>
  The body of the \<open>while (1)\<close> of main_looper: \<open>recv\<close> is the receive operation of the queue,
  \<open>call\<close> runs a function pointer of the message, \<open>ext\<close> is the extend function if there is one.
\<close>

definition main_looper ::
  "nat \<Rightarrow> ('q \<Rightarrow> int \<times> event_msg option \<times> 'q) \<Rightarrow> (action \<Rightarrow> 's \<Rightarrow> 's)
     \<Rightarrow> (event_msg \<Rightarrow> 's \<Rightarrow> ('s \<times> bool) option) option \<Rightarrow> 'q \<times> 's \<Rightarrow> ('q \<times> 's) option" where
  "main_looper fuel recv call ext qs =
     (case qs of (q, s) \<Rightarrow>
        (case recv q of
           (ret, m, q') \<Rightarrow>
             if ret \<noteq> 0 then Some (q', s)
             else case m of
                    None \<Rightarrow> Some (q', s)
                  | Some msg \<Rightarrow>
                      (let s1 = (if execute msg \<noteq> None then call (Call_execute (execute msg) msg) s else s)
                       in case (case ext of None \<Rightarrow> Some s1 | Some f \<Rightarrow> extend_loop fuel f msg s1) of
                            None \<Rightarrow> None
                          | Some s2 \<Rightarrow>
                              Some (q', if destruct msg \<noteq> None then call (Call_destruct (destruct msg) msg) s2 else s2))))"

section \<open>The publisher factory\<close>

text \<open>\<open>pf_sys_compare\<close>: the comparison was set (otherwise it is notice_all, which accepts every event).\<close>

record publisher_factory =
  pf_prio :: nat
  pf_stack :: u32
  pf_size :: nat
  pf_compare :: "u32 \<Rightarrow> u32 \<Rightarrow> int"

definition notice_all :: "u32 \<Rightarrow> u32 \<Rightarrow> int" where
  "notice_all newEvent obsEvent = 0"

definition publisher_factory_create :: "bool \<Rightarrow> bool \<Rightarrow> bool \<Rightarrow> publisher_factory option" where
  "publisher_factory_create base_ok ctor_ok mutex_ok =
     (if \<not> base_ok then None
      else if \<not> ctor_ok then None
      else if \<not> mutex_ok then None
      else Some \<lparr>pf_prio = OS_PRIORITY_NORMAL, pf_stack = 2 * 1024, pf_size = sizeof_event_msg,
                 pf_compare = notice_all\<rparr>)"

definition pf_set_compare :: "publisher_factory \<Rightarrow> (u32 \<Rightarrow> u32 \<Rightarrow> int) \<Rightarrow> publisher_factory" where
  "pf_set_compare ctor cmp = ctor\<lparr>pf_compare := cmp\<rparr>"

definition pf_set_thread_param :: "publisher_factory \<Rightarrow> nat \<Rightarrow> u32 \<Rightarrow> publisher_factory" where
  "pf_set_thread_param ctor prio stack = ctor\<lparr>pf_prio := prio, pf_stack := stack\<rparr>"

definition pf_set_msg_size :: "publisher_factory \<Rightarrow> nat \<Rightarrow> publisher_factory" where
  "pf_set_msg_size ctor sz = ctor\<lparr>pf_size := sz\<rparr>"

text \<open>What malloc and OS_ThreadCreate answer while a publisher's looper is built.\<close>

record looper_env =
  le_base_ok :: bool
  le_ctor_ok :: bool
  le_msg_ok :: bool
  le_default_msg_ok :: bool
  le_thread_ret :: OS_Status

definition publisher_main_ptr :: fn_ptr where "publisher_main_ptr = Some 0"

text \<open>The factory pointer that looper_factory_create returns is used unchecked.\<close>

definition create_publisher :: "looper_env \<Rightarrow> publisher_factory \<Rightarrow> looper_base option outcome" where
  "create_publisher e ctor =
     (case looper_factory_create (le_base_ok e) (le_ctor_ok e) of
        None \<Rightarrow> Null_deref
      | Some lf \<Rightarrow>
          (let lf1 = set_thread_param lf (pf_prio ctor) (pf_stack ctor);
               lf2 = set_msg_size (le_msg_ok e) lf1 (pf_size ctor);
               lf3 = set_extend_function lf2 publisher_main_ptr
           in Returns (create_looper (le_default_msg_ok e) (le_thread_ret e) lf3)))"

definition publisher_create :: "bool \<Rightarrow> bool \<Rightarrow> looper_env \<Rightarrow> nat \<Rightarrow> u32 \<Rightarrow> looper_base option outcome" where
  "publisher_create base_ok mutex_ok e prio stack =
     (if \<not> base_ok then Returns None
      else if \<not> mutex_ok then Returns None
      else case looper_factory_create (le_base_ok e) (le_ctor_ok e) of
             None \<Rightarrow> Null_deref
           | Some lf \<Rightarrow>
               Returns (create_looper (le_default_msg_ok e) (le_thread_ret e)
                 (set_extend_function (set_thread_param lf prio stack) publisher_main_ptr)))"

lemmas factory_defs =
  looper_factory_create_def set_thread_param_def set_msg_size_def set_extend_function_def create_looper_def
  publisher_factory_create_def pf_set_compare_def pf_set_thread_param_def pf_set_msg_size_def
  create_publisher_def

section \<open>Properties\<close>

text \<open>the message buffer of a publisher's looper. Built by the factory it has the size that was
  set when the allocation succeeded; when only that allocation fails, create_looper silently falls
  back to a buffer of the basic message size, smaller than a sys_ctrl message, and still succeeds.\<close>

lemma looper_buffer_size:
  assumes "publisher_factory_create True True True = Some ctor" and "le_base_ok e" and "le_ctor_ok e"
    and "le_default_msg_ok e" and "le_thread_ret e = OS_OK"
  shows "\<exists>l. create_publisher e (pf_set_msg_size ctor sizeof_sys_ctrl_msg) = Returns (Some l)
     \<and> lp_msg l = Some (if le_msg_ok e then sizeof_sys_ctrl_msg else sizeof_event_msg)
     \<and> (\<not> le_msg_ok e \<longrightarrow> the (lp_msg l) < sizeof_sys_ctrl_msg)"
  using assms by (auto simp: factory_defs Let_def sizeof_event_msg_def sizeof_sys_ctrl_msg_def)

lemma looper_buffer_size_witness:
  "\<exists>l. create_publisher \<lparr>le_base_ok = True, le_ctor_ok = True, le_msg_ok = False, le_default_msg_ok = True,
        le_thread_ret = OS_OK\<rparr> (pf_set_msg_size (the (publisher_factory_create True True True)) sizeof_sys_ctrl_msg)
      = Returns (Some l) \<and> lp_msg l = Some 16"
  using looper_buffer_size [of "the (publisher_factory_create True True True)"
      "\<lparr>le_base_ok = True, le_ctor_ok = True, le_msg_ok = False, le_default_msg_ok = True, le_thread_ret = OS_OK\<rparr>"]
  by (auto simp: publisher_factory_create_def sizeof_event_msg_def)

end
