(* ===== verification/Sys_Ctrl.thy ===== *)
theory Sys_Ctrl
  imports Looper
begin

text \<open>
  The system control module of project/common/framework/sys_ctrl/sys_ctrl.c: one event queue, one
  publisher and the looper thread between them. Events are 32-bit words made of a type and a
  subtype; a message is published to the observers and may carry a handler to execute and a
  destructor. The module is built with SYS_CTRL_PRIO_QUEUE 0 (the normal queue) and without
  SYS_HANDLER_THREAD (handlers go through the same queue), as sys_ctrl.h has it.
\<close>

unbundle bit_operations_syntax

section \<open>Event words (sys_ctrl.h)\<close>

definition ALL_SUBTYPE :: u16 where "ALL_SUBTYPE = 0xFFFF"

definition EVENT_TYPE :: "u32 \<Rightarrow> u16" where
  "EVENT_TYPE ev = ucast (drop_bit 16 ev)"

definition EVENT_SUBTYPE :: "u32 \<Rightarrow> u16" where
  "EVENT_SUBTYPE ev = ucast (ev AND 0xFFFF)"

definition MK_EVENT :: "u16 \<Rightarrow> u16 \<Rightarrow> u32" where
  "MK_EVENT type subtype = push_bit 16 (ucast type) OR (ucast subtype AND 0xFFFF)"

definition CMP_EVENT_TYPE :: "u32 \<Rightarrow> u32 \<Rightarrow> u32" where
  "CMP_EVENT_TYPE event1 event2 = (event1 XOR event2) AND 0xFFFF0000"

definition CTRL_MSG_TYPE_HANDLER :: u16 where "CTRL_MSG_TYPE_HANDLER = 7"

definition compare :: "u32 \<Rightarrow> u32 \<Rightarrow> int" where
  "compare newEvent obsEvent =
     (if CMP_EVENT_TYPE newEvent obsEvent = 0 \<and> (EVENT_SUBTYPE obsEvent = ALL_SUBTYPE \<or> newEvent = obsEvent)
      then 0 else -1)"

section \<open>State\<close>

text \<open>
  \<open>g_sys_queue\<close> and \<open>g_sys_publisher\<close> are \<open>None\<close> while the pointers are NULL. \<open>sc_sems\<close> are the
  semaphores that waiting senders own, \<open>sc_freed\<close> the data blocks given back, \<open>sc_log\<close> the handlers
  and destructors called.
\<close>

record sys_ctrl =
  g_sys_queue :: "event_msg normal_event_queue option"
  g_sys_publisher :: "publisher_base option"
  sc_looper :: "looper_base option"
  sc_sems :: "nat \<Rightarrow> semaphore"
  sc_freed :: "u32 list"
  sc_log :: "action list"

definition PRJCONF_SYS_CTRL_QUEUE_LEN :: nat where "PRJCONF_SYS_CTRL_QUEUE_LEN = 6"

record sys_env =
  se_queue_impl_ok :: bool
  se_queue_ok :: bool
  se_pub_ok :: bool
  se_ctor_ok :: bool
  se_mutex_ok :: bool
  se_looper :: looper_env
  se_prio :: nat
  se_stack :: u32

definition new_publisher :: publisher_base where
  "new_publisher = \<lparr>pb_head = [], pb_state = PUBLISHER_IDLE,
     pb_obs = (\<lambda>_. zero_observer (Plain_Observer None)), pb_log = []\<rparr>"

definition sys_ctrl_create :: "sys_env \<Rightarrow> sys_ctrl \<Rightarrow> (int \<times> sys_ctrl) outcome" where
  "sys_ctrl_create e s =
     (let s1 = (if g_sys_queue s = None
                then s\<lparr>g_sys_queue := normal_event_queue_create (se_queue_impl_ok e) (se_queue_ok e)
                         PRJCONF_SYS_CTRL_QUEUE_LEN\<rparr> else s)
      in if g_sys_queue s1 = None then Returns (-1, s1)
         else if g_sys_publisher s1 = None
         then (case publisher_factory_create (se_pub_ok e) (se_ctor_ok e) (se_mutex_ok e) of
                 None \<Rightarrow> Null_deref
               | Some ctor \<Rightarrow>
                   (case create_publisher (se_looper e)
                       (pf_set_msg_size (pf_set_compare (pf_set_thread_param ctor (se_prio e) (se_stack e)) compare)
                          sizeof_sys_ctrl_msg) of
                      Null_deref \<Rightarrow> Null_deref
                    | Returns None \<Rightarrow> Returns (-1, s1)
                    | Returns (Some l) \<Rightarrow>
                        Returns (0, s1\<lparr>g_sys_publisher := Some new_publisher, sc_looper := Some l\<rparr>)))
         else Returns (0, s1))"

section \<open>Observers\<close>

definition on_publisher ::
  "(publisher_base \<Rightarrow> nat \<Rightarrow> int \<times> publisher_base) \<Rightarrow> sys_ctrl \<Rightarrow> nat \<Rightarrow> int \<times> sys_ctrl" where
  "on_publisher f s ob =
     (case g_sys_publisher s of
        None \<Rightarrow> (-1, s)
      | Some p \<Rightarrow> (case f p ob of (r, p') \<Rightarrow> (r, s\<lparr>g_sys_publisher := Some p'\<rparr>)))"

definition sys_ctrl_touch :: "sys_ctrl \<Rightarrow> nat \<Rightarrow> int \<times> sys_ctrl" where
  "sys_ctrl_touch = on_publisher attach_once"

definition sys_ctrl_attach :: "sys_ctrl \<Rightarrow> nat \<Rightarrow> int \<times> sys_ctrl" where
  "sys_ctrl_attach = on_publisher attach"

definition sys_ctrl_detach :: "sys_ctrl \<Rightarrow> nat \<Rightarrow> int \<times> sys_ctrl" where
  "sys_ctrl_detach = on_publisher detach"

section \<open>Sending\<close>

definition queue_send :: "sys_ctrl \<Rightarrow> event_msg \<Rightarrow> int \<times> sys_ctrl" where
  "queue_send s msg =
     (case g_sys_queue s of
        None \<Rightarrow> (-1, s)
      | Some q \<Rightarrow> (case normal_event_send q msg of (r, q') \<Rightarrow> (r, s\<lparr>g_sys_queue := Some q'\<rparr>)))"

definition event_send :: "sys_ctrl \<Rightarrow> u16 \<Rightarrow> u16 \<Rightarrow> u32 \<Rightarrow> fn_ptr \<Rightarrow> int \<times> sys_ctrl" where
  "event_send s type subtype dat destr =
     queue_send s \<lparr>execute = None, destruct = destr, event = MK_EVENT type subtype, data = dat, extra = None\<rparr>"

text \<open>The two destructors of this file, as function pointers.\<close>

definition freeMsgData_ptr :: nat where "freeMsgData_ptr = 1"
definition sys_handler_finish_ptr :: nat where "sys_handler_finish_ptr = 2"

definition sys_event_send :: "sys_ctrl \<Rightarrow> u16 \<Rightarrow> u16 \<Rightarrow> u32 \<Rightarrow> int \<times> sys_ctrl" where
  "sys_event_send s type subtype dat =
     (if g_sys_queue s = None then (-1, s) else event_send s type subtype dat None)"

definition sys_event_send_with_free :: "sys_ctrl \<Rightarrow> u16 \<Rightarrow> u16 \<Rightarrow> u32 \<Rightarrow> int \<times> sys_ctrl" where
  "sys_event_send_with_free s type subtype dat =
     (if g_sys_queue s = None then (-1, s) else event_send s type subtype dat (Some freeMsgData_ptr))"

definition sys_event_send_with_destruct :: "sys_ctrl \<Rightarrow> u16 \<Rightarrow> u16 \<Rightarrow> u32 \<Rightarrow> fn_ptr \<Rightarrow> int \<times> sys_ctrl" where
  "sys_event_send_with_destruct s type subtype dat destr =
     (if g_sys_queue s = None then (-1, s) else event_send s type subtype dat destr)"

definition sys_event_handler_send :: "sys_ctrl \<Rightarrow> u16 \<Rightarrow> u16 \<Rightarrow> u32 \<Rightarrow> fn_ptr \<Rightarrow> int \<times> sys_ctrl" where
  "sys_event_handler_send s type subtype dat exec =
     (if g_sys_queue s = None then (-1, s)
      else queue_send s \<lparr>execute = exec, destruct = None, event = MK_EVENT type subtype, data = dat, extra = None\<rparr>)"

text \<open>
  sys_event_handler_send_wait_finish up to its wait: \<open>sem\<close> is the semaphore on the caller's stack.
  The second component says whether the caller goes on to OS_SemaphoreWait(&sem, OS_WAIT_FOREVER);
  the call returns the first component once that wait, \<open>wait_finish\<close>, is over.
\<close>

definition sys_event_handler_send_wait_finish ::
  "sys_ctrl \<Rightarrow> nat \<Rightarrow> u16 \<Rightarrow> u16 \<Rightarrow> u32 \<Rightarrow> fn_ptr \<Rightarrow> int \<times> bool \<times> sys_ctrl" where
  "sys_event_handler_send_wait_finish s sem type subtype dat exec =
     (if g_sys_queue s = None then (-1, False, s)
      else (let s1 = s\<lparr>sc_sems := (sc_sems s)(sem := the (snd (OS_SemaphoreCreate True 0 1)))\<rparr>
            in case queue_send s1 \<lparr>execute = exec, destruct = Some sys_handler_finish_ptr,
                                   event = MK_EVENT type subtype, data = dat, extra = Some sem\<rparr> of
                 (ret, s2) \<Rightarrow> (ret, ret = 0, s2)))"

definition wait_finish :: "sys_ctrl \<Rightarrow> nat \<Rightarrow> OS_Status \<times> sys_ctrl" where
  "wait_finish s sem =
     (case OS_SemaphoreWait False (sc_sems s sem) 0xFFFFFFFF of
        (ret, sem') \<Rightarrow> (ret, s\<lparr>sc_sems := (sc_sems s)(sem := sem')\<rparr>))"

definition sys_handler_finish :: "sys_ctrl \<Rightarrow> event_msg \<Rightarrow> sys_ctrl" where
  "sys_handler_finish s msg =
     (case extra msg of
        None \<Rightarrow> s
      | Some sem \<Rightarrow> s\<lparr>sc_sems := (sc_sems s)(sem := snd (OS_SemaphoreRelease (sc_sems s sem)))\<rparr>)"

definition freeMsgData :: "sys_ctrl \<Rightarrow> event_msg \<Rightarrow> sys_ctrl" where
  "freeMsgData s msg = s\<lparr>sc_freed := sc_freed s @ [data msg]\<rparr>"

definition sys_handler_send :: "sys_ctrl \<Rightarrow> fn_ptr \<Rightarrow> u32 \<Rightarrow> int \<times> sys_ctrl" where
  "sys_handler_send s exec dat = sys_event_handler_send s CTRL_MSG_TYPE_HANDLER ALL_SUBTYPE dat exec"

definition sys_handler_send_wait_finish :: "sys_ctrl \<Rightarrow> nat \<Rightarrow> fn_ptr \<Rightarrow> u32 \<Rightarrow> int \<times> bool \<times> sys_ctrl" where
  "sys_handler_send_wait_finish s sem exec dat =
     sys_event_handler_send_wait_finish s sem CTRL_MSG_TYPE_HANDLER ALL_SUBTYPE dat exec"

section \<open>The looper thread\<close>

text \<open>Running a handler or a destructor: the two of this file, and \<open>cb\<close> for all others.\<close>

definition run_action :: "callbacks \<Rightarrow> action \<Rightarrow> sys_ctrl \<Rightarrow> sys_ctrl" where
  "run_action cb act s =
     (let s1 = s\<lparr>sc_log := sc_log s @ [act],
                 g_sys_publisher := map_option (\<lambda>p. run_calls p (cb act)) (g_sys_publisher s)\<rparr>
      in case act of
           Call_destruct (Some f) msg \<Rightarrow>
             if f = sys_handler_finish_ptr then sys_handler_finish s1 msg
             else if f = freeMsgData_ptr then freeMsgData s1 msg else s1
         | _ \<Rightarrow> s1)"

text \<open>publisher_main notifies and returns NULL, so the extend loop runs it once per message.\<close>

definition publisher_main :: "nat \<Rightarrow> callbacks \<Rightarrow> OS_Status \<Rightarrow> event_msg \<Rightarrow> sys_ctrl \<Rightarrow> (sys_ctrl \<times> bool) option" where
  "publisher_main fuel cb r msg s =
     (case g_sys_publisher s of
        None \<Rightarrow> Some (s, False)
      | Some p \<Rightarrow>
          (case notify fuel cb r compare p (event msg) (data msg) of
             None \<Rightarrow> None
           | Some (n, p') \<Rightarrow> Some (s\<lparr>g_sys_publisher := Some p'\<rparr>, False)))"

definition sys_looper_round :: "nat \<Rightarrow> callbacks \<Rightarrow> OS_Status \<Rightarrow> sys_ctrl \<Rightarrow> sys_ctrl option" where
  "sys_looper_round fuel cb r s =
     (case g_sys_queue s of
        None \<Rightarrow> Some s
      | Some q \<Rightarrow>
          map_option (\<lambda>(q', s'). s'\<lparr>g_sys_queue := Some q'\<rparr>)
            (main_looper 1 normal_event_recv (run_action cb) (Some (publisher_main fuel cb r)) (q, s)))"

fun sys_looper :: "nat \<Rightarrow> nat \<Rightarrow> callbacks \<Rightarrow> OS_Status \<Rightarrow> sys_ctrl \<Rightarrow> sys_ctrl option" where
  "sys_looper 0 fuel cb r s = Some s"
| "sys_looper (Suc n) fuel cb r s =
     (case sys_looper_round fuel cb r s of None \<Rightarrow> None | Some s' \<Rightarrow> sys_looper n fuel cb r s')"

section \<open>Event words\<close>

lemma low_half: "(0xFFFF :: u32) = mask 16"
  and high_half: "(0xFFFF0000 :: u32) = push_bit 16 (mask 16)"
  by (simp_all add: mask_eq_exp_minus_1 push_bit_eq_mult)

lemma bit_MK_EVENT:
  "bit (MK_EVENT t st) n = (if n < 16 then bit st n else n < 32 \<and> bit t (n - 16))"
  using bit_imp_le_length [of st n] bit_imp_le_length [of t "n - 16"]
  by (auto simp: MK_EVENT_def low_half bit_simps)

lemma EVENT_TYPE_MK [simp]: "EVENT_TYPE (MK_EVENT t st) = t"
  by (rule bit_word_eqI) (auto simp: EVENT_TYPE_def bit_simps bit_MK_EVENT)

lemma EVENT_SUBTYPE_MK [simp]: "EVENT_SUBTYPE (MK_EVENT t st) = st"
  by (rule bit_word_eqI) (auto simp: EVENT_SUBTYPE_def low_half bit_simps bit_MK_EVENT)

lemma MK_EVENT_inject [simp]: "(MK_EVENT t st = MK_EVENT t' st') = (t = t' \<and> st = st')"
  by (metis EVENT_TYPE_MK EVENT_SUBTYPE_MK)

lemma CMP_EVENT_TYPE_MK: "(CMP_EVENT_TYPE (MK_EVENT t st) (MK_EVENT t' st') = 0) = (t = t')"
proof
  assume "t = t'"
  then show "CMP_EVENT_TYPE (MK_EVENT t st) (MK_EVENT t' st') = 0"
    by (intro bit_word_eqI) (auto simp: CMP_EVENT_TYPE_def high_half bit_simps bit_MK_EVENT)
next
  assume z: "CMP_EVENT_TYPE (MK_EVENT t st) (MK_EVENT t' st') = 0"
  show "t = t'"
  proof (rule bit_word_eqI)
    fix n assume "n < LENGTH(16)"
    then show "bit t n = bit t' n"
      using arg_cong [OF z, of "\<lambda>w. bit w (n + 16)"]
      by (simp add: CMP_EVENT_TYPE_def high_half bit_simps bit_MK_EVENT)
  qed
qed

lemma compare_MK:
  "compare (MK_EVENT t st) (MK_EVENT t' st') = (if t = t' \<and> (st' = ALL_SUBTYPE \<or> st = st') then 0 else -1)"
  by (auto simp: compare_def CMP_EVENT_TYPE_MK)

section \<open>Rounds of the looper\<close>

lemma silent_run_calls [simp]: "run_calls p (silent act) = p"
  by (simp add: silent_def run_calls_def)

lemma map_option_same [simp]: "map_option (\<lambda>p. p) x = x"
  by (cases x) auto

lemma run_action_silent:
  "g_sys_queue (run_action silent act s) = g_sys_queue s"
  "g_sys_publisher (run_action silent act s) = g_sys_publisher s"
  by (auto simp: run_action_def sys_handler_finish_def freeMsgData_def Let_def
      split: action.splits option.splits)

definition finish_sems :: "event_msg \<Rightarrow> (nat \<Rightarrow> semaphore) \<Rightarrow> nat \<Rightarrow> semaphore" where
  "finish_sems msg sems =
     (case extra msg of
        Some sem \<Rightarrow> if destruct msg = Some sys_handler_finish_ptr
                    then sems(sem := snd (OS_SemaphoreRelease (sems sem))) else sems
      | None \<Rightarrow> sems)"

definition freed_by :: "event_msg \<Rightarrow> u32 list" where
  "freed_by msg = (if destruct msg = Some freeMsgData_ptr then [data msg] else [])"

lemma run_execute_silent:
  "sc_sems (run_action silent (Call_execute f m) s) = sc_sems s"
  "sc_freed (run_action silent (Call_execute f m) s) = sc_freed s"
  by (simp_all add: run_action_def Let_def)

lemma run_destruct_silent:
  "sc_sems (if destruct m \<noteq> None then run_action silent (Call_destruct (destruct m) m) s else s)
     = finish_sems m (sc_sems s)"
  "sc_freed (if destruct m \<noteq> None then run_action silent (Call_destruct (destruct m) m) s else s)
     = sc_freed s @ freed_by m"
  by (auto simp: run_action_def finish_sems_def freed_by_def sys_handler_finish_def freeMsgData_def
      freeMsgData_ptr_def sys_handler_finish_ptr_def Let_def split: option.splits)

lemma round_silent:
  assumes "g_sys_queue s = Some q" and "q_items q = m # ms" and "g_sys_publisher s = Some p"
    and n: "notify fuel silent r compare p (event m) (data m) = Some (n, p')"
  shows "\<exists>s'. sys_looper_round fuel silent r s = Some s' \<and> g_sys_queue s' = Some (q\<lparr>q_items := ms\<rparr>)
    \<and> g_sys_publisher s' = Some p' \<and> sc_sems s' = finish_sems m (sc_sems s)
    \<and> sc_freed s' = sc_freed s @ freed_by m"
proof -
  have rcv: "normal_event_recv q = (0, Some m, q\<lparr>q_items := ms\<rparr>)"
    using assms(2) by (simp add: normal_event_recv_def OS_QueueReceive_def)
  let ?s1 = "if execute m \<noteq> None then run_action silent (Call_execute (execute m) m) s else s"
  let ?s2 = "?s1\<lparr>g_sys_publisher := Some p'\<rparr>"
  let ?s3 = "if destruct m \<noteq> None then run_action silent (Call_destruct (destruct m) m) ?s2 else ?s2"
  have "publisher_main fuel silent r m ?s1 = Some (?s2, False)"
    using assms(3) n by (simp add: publisher_main_def run_action_silent)
  then have "main_looper 1 normal_event_recv (run_action silent) (Some (publisher_main fuel silent r)) (q, s) =
      Some (q\<lparr>q_items := ms\<rparr>, ?s3)"
    by (simp only: main_looper_def rcv prod.case option.case Let_def One_nat_def extend_loop.simps) simp
  then have "sys_looper_round fuel silent r s = Some (?s3\<lparr>g_sys_queue := Some (q\<lparr>q_items := ms\<rparr>)\<rparr>)"
    using assms(1) by (simp add: sys_looper_round_def)
  moreover have "sc_sems ?s3 = finish_sems m (sc_sems s)" "sc_freed ?s3 = sc_freed s @ freed_by m"
    unfolding run_destruct_silent by (simp_all add: run_execute_silent)
  moreover have "g_sys_publisher ?s3 = Some p'" by (simp add: run_action_silent)
  ultimately show ?thesis
    by (intro exI [of _ "?s3\<lparr>g_sys_queue := Some (q\<lparr>q_items := ms\<rparr>)\<rparr>"] conjI) simp_all
qed

section \<open>Observers that stay: permanently attached callback observers\<close>

definition steady :: "publisher_base \<Rightarrow> bool" where
  "steady p = (pub_inv p \<and> pb_state p = PUBLISHER_IDLE
     \<and> (\<forall>x \<in> set (pb_head p). ob_state (pb_obs p x) = OBSERVER_ATTACHED
          \<and> (\<exists>f. ob_kind (pb_obs p x) = Callback_Observer f)))"

lemma after_visit_steady:
  "ob_state obs = OBSERVER_ATTACHED \<Longrightarrow> ob_kind obs = Callback_Observer f \<Longrightarrow> after_visit r cmp ev arg obs = obs"
  by (simp add: after_visit_def shot_def observer_defs ob_state_same)

lemma notify_steady:
  assumes "steady p" and "length (pb_head p) < fuel"
  shows "\<exists>n p'. notify fuel silent r cmp p ev arg = Some (n, p') \<and> steady p' \<and> pb_head p' = pb_head p
    \<and> pb_log p' = pb_log p @ deliveries r cmp ev arg p (pb_head p)
    \<and> (\<forall>x \<in> set (pb_head p). pb_obs p' x = pb_obs p x)"
proof -
  have a: "\<And>x. x \<in> set (pb_head p) \<Longrightarrow> \<not> shot cmp ev (pb_obs p x) \<and> after_visit r cmp ev arg (pb_obs p x) = pb_obs p x"
    using assms(1) after_visit_steady by (fastforce simp: steady_def shot_def)
  then have "filter (\<lambda>x. \<not> shot cmp ev (pb_obs p x)) (pb_head p) = pb_head p" by simp
  with notify_silent [of p fuel r cmp ev arg] assms a show ?thesis
    unfolding steady_def by fastforce
qed

lemma looper_steady:
  assumes "steady p" and "length (pb_head p) < fuel" and "g_sys_publisher s = Some p"
    and "g_sys_queue s = Some q" and "q_items q = ms"
  shows "\<exists>s' p'. sys_looper (length ms) fuel silent r s = Some s' \<and> g_sys_publisher s' = Some p' \<and> steady p'
    \<and> pb_log p' = pb_log p @ concat (map (\<lambda>m. deliveries r compare (event m) (data m) p (pb_head p)) ms)
    \<and> sc_freed s' = sc_freed s @ concat (map freed_by ms)
    \<and> g_sys_queue s' = Some (q\<lparr>q_items := []\<rparr>)"
  using assms
proof (induction ms arbitrary: s p q)
  case Nil
  then show ?case by (cases q) auto
next
  case (Cons m ms)
  from notify_steady [OF Cons.prems(1,2), of r compare "event m" "data m"]
  obtain n p1 where n: "notify fuel silent r compare p (event m) (data m) = Some (n, p1)" and p1: "steady p1"
    "pb_head p1 = pb_head p" "pb_log p1 = pb_log p @ deliveries r compare (event m) (data m) p (pb_head p)"
    "\<And>x. x \<in> set (pb_head p) \<Longrightarrow> pb_obs p1 x = pb_obs p x" by blast
  from round_silent [OF Cons.prems(4,5,3) n] obtain s1 where s1:
    "sys_looper_round fuel silent r s = Some s1" "g_sys_queue s1 = Some (q\<lparr>q_items := ms\<rparr>)"
    "g_sys_publisher s1 = Some p1" "sc_freed s1 = sc_freed s @ freed_by m" by blast
  have d: "\<And>m :: event_msg. deliveries r compare (event m) (data m) p1 (pb_head p1) =
      deliveries r compare (event m) (data m) p (pb_head p)"
    unfolding p1(2) by (rule deliveries_cong) (rule p1(4))
  from Cons.IH [OF p1(1) _ s1(3,2)] Cons.prems(2) p1(2,3) s1(1,4) d show ?case by auto
qed

text \<open>With silent callbacks a round never takes a semaphore away from a waiting sender.\<close>

lemma finish_sems_mono: "sem_count (sems i) \<le> sem_count (finish_sems m sems i)"
  by (auto simp: finish_sems_def OS_SemaphoreRelease_def split: option.splits)

lemma finish_sems_max: "sem_max (finish_sems m sems i) = sem_max (sems i)"
  by (auto simp: finish_sems_def OS_SemaphoreRelease_def split: option.splits)

lemma finish_sems_own:
  "destruct m = Some sys_handler_finish_ptr \<Longrightarrow> extra m = Some i \<Longrightarrow> sem_max (sems i) = 1 \<Longrightarrow>
   0 < sem_count (finish_sems m sems i)"
  by (auto simp: finish_sems_def OS_SemaphoreRelease_def)

lemma looper_finish:
  assumes "pub_inv p" and "pb_state p = PUBLISHER_IDLE" and "length (pb_head p) < fuel"
    and "g_sys_publisher s = Some p" and "g_sys_queue s = Some q" and "q_items q = ms"
    and "sem_max (sc_sems s i) = 1"
    and "0 < sem_count (sc_sems s i)
      \<or> (\<exists>m \<in> set ms. destruct m = Some sys_handler_finish_ptr \<and> extra m = Some i)"
  shows "\<exists>s'. sys_looper (length ms) fuel silent r s = Some s' \<and> 0 < sem_count (sc_sems s' i)"
  using assms
proof (induction ms arbitrary: s p q)
  case Nil
  then show ?case by simp
next
  case (Cons m ms)
  from notify_silent [OF Cons.prems(1-3), of r compare "event m" "data m"]
  obtain n p1 where n: "notify fuel silent r compare p (event m) (data m) = Some (n, p1)"
    and p1: "pub_inv p1" "pb_state p1 = PUBLISHER_IDLE"
      "pb_head p1 = filter (\<lambda>x. \<not> shot compare (event m) (pb_obs p x)) (pb_head p)" by blast
  have len: "length (pb_head p1) < fuel"
    using Cons.prems(3) p1(3) by (metis le_less_trans length_filter_le)
  from round_silent [OF Cons.prems(5,6,4) n] obtain s1 where s1:
    "sys_looper_round fuel silent r s = Some s1" "g_sys_queue s1 = Some (q\<lparr>q_items := ms\<rparr>)"
    "g_sys_publisher s1 = Some p1" "sc_sems s1 = finish_sems m (sc_sems s)" by blast
  have "0 < sem_count (sc_sems s1 i) \<or> (\<exists>m \<in> set ms. destruct m = Some sys_handler_finish_ptr \<and> extra m = Some i)"
    using Cons.prems(7,8) finish_sems_mono [of "sc_sems s" i m] finish_sems_own [of m i "sc_sems s"] s1(4) by auto
  from Cons.IH [OF p1(1,2) len s1(3,2) _ _ this] Cons.prems(7) s1 show ?case
    by (simp add: finish_sems_max)
qed

section \<open>Properties\<close>

text \<open>the event encoding loses nothing: type and subtype are read back from the word made of
  them, and the publisher's comparison accepts an event for an observer exactly when the types are
  equal and the observer asks for all subtypes or for the same one.\<close>

lemma event_word_roundtrip:
  "EVENT_TYPE (MK_EVENT t st) = t \<and> EVENT_SUBTYPE (MK_EVENT t st) = st
   \<and> (compare (MK_EVENT t st) (MK_EVENT t' st') = 0) = (t = t' \<and> (st' = 0xFFFF \<or> st = st'))"
  by (simp add: compare_MK ALL_SUBTYPE_def)


definition sys0 :: sys_ctrl where
  "sys0 = \<lparr>g_sys_queue = Some \<lparr>q_items = [], q_len = 6\<rparr>,
     g_sys_publisher = Some \<lparr>pb_head = [4], pb_state = PUBLISHER_IDLE,
       pb_obs = (\<lambda>n. \<lparr>ob_event = MK_EVENT 1 ALL_SUBTYPE,
                      ob_state = (if n = 4 then OBSERVER_ATTACHED else OBSERVER_ILDE),
                      ob_arg = 0, ob_kind = Callback_Observer (Some 9)\<rparr>), pb_log = []\<rparr>,
     sc_looper = None, sc_sems = (\<lambda>_. \<lparr>sem_count = 0, sem_max = 1\<rparr>), sc_freed = [], sc_log = []\<rparr>"

definition sys1 :: sys_ctrl where
  "sys1 = snd (sys_event_send_with_free (snd (sys_event_send sys0 2 5 70)) 1 3 80)"

lemma sys1_queue:
  "g_sys_queue sys1 = Some \<lparr>q_items = [
      \<lparr>execute = None, destruct = None, event = MK_EVENT 2 5, data = 70, extra = None\<rparr>,
      \<lparr>execute = None, destruct = Some freeMsgData_ptr, event = MK_EVENT 1 3, data = 80, extra = None\<rparr>], q_len = 6\<rparr>"
  by (simp add: sys1_def sys0_def sys_event_send_def sys_event_send_with_free_def event_send_def queue_send_def
      normal_event_send_def OS_QueueSend_def)

lemma sys1_rest: "g_sys_publisher sys1 = g_sys_publisher sys0" "sc_freed sys1 = []"
  by (simp_all add: sys1_def sys0_def sys_event_send_def sys_event_send_with_free_def event_send_def queue_send_def
      normal_event_send_def OS_QueueSend_def)

lemma sys0_steady: "steady (the (g_sys_publisher sys0))"
  by (auto simp: steady_def pub_inv_def sys0_def)


text \<open>a handler sent with sys_handler_send_wait_finish is waited for to its end and no longer: when
  the send was accepted, the wait times out before the looper has come to the message and succeeds
  once it has worked off what was queued up to and including it.\<close>

lemma wait_finish_released:
  assumes "pub_inv p" and "pb_state p = PUBLISHER_IDLE" and "length (pb_head p) < fuel"
    and "g_sys_publisher s = Some p" and "g_sys_queue s = Some q"
    and "sys_handler_send_wait_finish s i exec dat = (0, True, s1)"
  shows "fst (wait_finish s1 i) = OS_E_TIMEOUT
    \<and> (\<exists>s2. sys_looper (Suc (length (q_items q))) fuel silent r s1 = Some s2 \<and> fst (wait_finish s2 i) = OS_OK)"
proof -
  let ?m = "\<lparr>execute = exec, destruct = Some sys_handler_finish_ptr,
      event = MK_EVENT CTRL_MSG_TYPE_HANDLER ALL_SUBTYPE, data = dat, extra = Some i\<rparr>"
  have s1: "g_sys_queue s1 = Some (q\<lparr>q_items := q_items q @ [?m]\<rparr>)" "g_sys_publisher s1 = Some p"
    "sc_sems s1 i = \<lparr>sem_count = 0, sem_max = 1\<rparr>"
    using assms(4-6)
    by (auto simp: sys_handler_send_wait_finish_def sys_event_handler_send_wait_finish_def queue_send_def
        normal_event_send_def OS_QueueSend_def OS_SemaphoreCreate_def Let_def split: if_splits)
  have "\<exists>s'. sys_looper (length (q_items q @ [?m])) fuel silent r s1 = Some s' \<and> 0 < sem_count (sc_sems s' i)"
    by (rule looper_finish [OF assms(1-3) s1(2,1)]) (auto simp: s1(3))
  then show ?thesis
    using s1(3) by (auto simp: wait_finish_def OS_SemaphoreWait_def)
qed

lemma wait_finish_released_witness:
  "\<exists>s2. sys_looper 1 2 silent OS_OK (snd (snd (sys_handler_send_wait_finish sys0 0 (Some 5) 7))) = Some s2
     \<and> fst (wait_finish s2 0) = OS_OK"
  using wait_finish_released [of "the (g_sys_publisher sys0)" 2 sys0 "\<lparr>q_items = [], q_len = 6\<rparr>" 0 "Some 5" 7
      "snd (snd (sys_handler_send_wait_finish sys0 0 (Some 5) 7))" OS_OK] sys0_steady
  by (auto simp: steady_def sys0_def sys_handler_send_wait_finish_def sys_event_handler_send_wait_finish_def
      queue_send_def normal_event_send_def OS_QueueSend_def Let_def)

end
