(* ===== verification/Buttons.thy ===== *)
theory Buttons
  imports Os
begin

text \<open>
  The button driver of project/common/apps/buttons/buttons.c: button objects of five kinds, one
  current object that is being pressed, a one-shot timer, and the thread that turns changes of the
  hardware state and timer expiries into calls of the buttons' callback functions. The low-level
  driver (buttons_low_level.c) appears through its semaphore, a binary one, and through the state
  word it reads in each round.
\<close>

unbundle bit_operations_syntax

section \<open>State\<close>

datatype BUTTON_TYPE = SHORT_BUTTON | LONG_BUTTON | SHORT_LONG_BUTTON | COMBINED_LONG_BUTTON | REPEAT_LONG_BUTTON

datatype BUTTON_STATE = PRESS | RELEASE | REPEAT_PRESS | REPEAT_RELEASE | INVALID_STA

record button_obj =
  id_mask :: u32
  repeat_timeout_ms :: u32
  timeout_ms :: u32
  en :: bool
  func :: BUTTON_TYPE
  state :: BUTTON_STATE
  cb :: "nat option"
  cb_arg :: nat

text \<open>Which functions of button_impl_t are there (not NULL).\<close>

record button_impl_t =
  low_level_init :: bool
  low_level_get_state :: bool
  low_level_wait_semaphore :: bool
  low_level_release_semaphore :: bool
  low_level_deinit :: bool

text \<open>
  The static variables of the file. A button object is known by its address: \<open>bt_objs\<close> is the memory
  of the objects, \<open>bt_head\<close> the list of all buttons. \<open>bt_prev\<close> is the thread's prev_buttons_state,
  \<open>bt_sem\<close> the low-level semaphore, \<open>bt_calls\<close> the callbacks made so far and \<open>bt_freed\<close> the objects freed.
\<close>

record buttons =
  button_impl :: button_impl_t
  bt_objs :: "nat \<Rightarrow> button_obj"
  bt_head :: "nat list"
  bt_time_up :: bool
  bt_timer :: "os_timer option"
  bt_thread :: bool
  bt_run_flag :: bool
  bt_stack_size :: u32
  bt_priority :: nat
  bt_current :: "nat option"
  bt_prev :: u32
  bt_sem :: semaphore
  bt_calls :: "(nat \<times> BUTTON_STATE \<times> nat) list"
  bt_freed :: "nat list"

definition ALL_BUTTONS_RELEASE :: u32 where "ALL_BUTTONS_RELEASE = 0"

text \<open>What the timer command queue answers to the commands of one round.\<close>

record timer_env =
  te_stop :: bool
  te_change :: bool
  te_start :: bool

section \<open>Helpers\<close>

definition set_state :: "nat \<Rightarrow> BUTTON_STATE \<Rightarrow> buttons \<Rightarrow> buttons" where
  "set_state c st s = s\<lparr>bt_objs := (bt_objs s)(c := (bt_objs s c)\<lparr>state := st\<rparr>)\<rparr>"

text \<open>\<open>if (obj->handle.cb) obj->handle.cb(obj->state, obj->handle.arg);\<close>\<close>

definition call_cb :: "nat \<Rightarrow> buttons \<Rightarrow> buttons" where
  "call_cb c s =
     (case cb (bt_objs s c) of
        None \<Rightarrow> s
      | Some f \<Rightarrow> s\<lparr>bt_calls := bt_calls s @ [(f, state (bt_objs s c), cb_arg (bt_objs s c))]\<rparr>)"

definition fire :: "nat \<Rightarrow> BUTTON_STATE \<Rightarrow> buttons \<Rightarrow> buttons" where
  "fire c st s = call_cb c (set_state c st s)"

text \<open>The common end of the release functions: the state becomes invalid, and the pointer is reset
  once every button is released.\<close>

definition end_release :: "nat \<Rightarrow> u32 \<Rightarrow> buttons \<Rightarrow> buttons" where
  "end_release c buttons_state s =
     (let s1 = set_state c INVALID_STA s
      in if buttons_state = ALL_BUTTONS_RELEASE then s1\<lparr>bt_current := None\<rparr> else s1)"

definition timer_stop :: "timer_env \<Rightarrow> buttons \<Rightarrow> buttons" where
  "timer_stop e s = s\<lparr>bt_timer := map_option (\<lambda>t. snd (OS_TimerStop (te_stop e) t)) (bt_timer s), bt_time_up := False\<rparr>"

definition timer_is_active :: "buttons \<Rightarrow> bool" where
  "timer_is_active s = (case bt_timer s of None \<Rightarrow> False | Some t \<Rightarrow> tm_active t)"

text \<open>Change the period, then start: \<open>True\<close> when both were accepted.\<close>

definition timer_arm :: "timer_env \<Rightarrow> u32 \<Rightarrow> buttons \<Rightarrow> bool \<times> buttons" where
  "timer_arm e period s =
     (case bt_timer s of
        None \<Rightarrow> (False, s)
      | Some t \<Rightarrow>
          (case OS_TimerChangePeriod (te_change e) t period of
             (r1, t1) \<Rightarrow>
               if r1 \<noteq> OS_OK then (False, s\<lparr>bt_timer := Some t1\<rparr>)
               else case OS_TimerStart (te_start e) t1 of
                      (r2, t2) \<Rightarrow> (r2 = OS_OK, s\<lparr>bt_timer := Some t2\<rparr>)))"

section \<open>Release functions\<close>

text \<open>Each of them works on the current object, which their callers have checked is there.\<close>

definition short_button_release :: "u32 \<Rightarrow> buttons \<Rightarrow> buttons" where
  "short_button_release buttons_state s =
     (case bt_current s of
        None \<Rightarrow> s
      | Some c \<Rightarrow>
          end_release c buttons_state
            (if buttons_state = ALL_BUTTONS_RELEASE \<and> state (bt_objs s c) = PRESS then fire c RELEASE s else s))"

definition long_button_release :: "timer_env \<Rightarrow> u32 \<Rightarrow> buttons \<Rightarrow> buttons" where
  "long_button_release e buttons_state s =
     (case bt_current s of
        None \<Rightarrow> s
      | Some c \<Rightarrow>
          (let s1 = timer_stop e s
           in end_release c buttons_state
                (if state (bt_objs s1 c) = PRESS \<or> state (bt_objs s1 c) = REPEAT_PRESS
                 then fire c RELEASE s1 else s1)))"

definition short_long_button_release :: "timer_env \<Rightarrow> u32 \<Rightarrow> buttons \<Rightarrow> buttons" where
  "short_long_button_release e buttons_state s =
     (case bt_current s of
        None \<Rightarrow> s
      | Some c \<Rightarrow>
          end_release c buttons_state
            (if timer_is_active s then fire c RELEASE (timer_stop e s)
             else if state (bt_objs s c) = PRESS then fire c REPEAT_RELEASE s
             else s))"

definition repeat_long_button_release :: "timer_env \<Rightarrow> u32 \<Rightarrow> buttons \<Rightarrow> buttons" where
  "repeat_long_button_release e buttons_state s = long_button_release e buttons_state s"

definition combined_long_button_release :: "timer_env \<Rightarrow> u32 \<Rightarrow> buttons \<Rightarrow> buttons" where
  "combined_long_button_release e buttons_state s =
     (case bt_current s of
        None \<Rightarrow> s
      | Some c \<Rightarrow>
          (let s1 = timer_stop e s
           in end_release c buttons_state (if state (bt_objs s1 c) = PRESS then fire c RELEASE s1 else s1)))"

definition release_current_tiggered_obj :: "timer_env \<Rightarrow> u32 \<Rightarrow> buttons \<Rightarrow> buttons" where
  "release_current_tiggered_obj e buttons_state s =
     (case bt_current s of
        None \<Rightarrow> s
      | Some c \<Rightarrow>
          (case func (bt_objs s c) of
             SHORT_BUTTON \<Rightarrow> short_button_release buttons_state s
           | LONG_BUTTON \<Rightarrow> long_button_release e buttons_state s
           | SHORT_LONG_BUTTON \<Rightarrow> short_long_button_release e buttons_state s
           | COMBINED_LONG_BUTTON \<Rightarrow> combined_long_button_release e buttons_state s
           | REPEAT_LONG_BUTTON \<Rightarrow> repeat_long_button_release e buttons_state s))"

section \<open>Press functions\<close>

definition short_button_press :: "nat \<Rightarrow> buttons \<Rightarrow> buttons" where
  "short_button_press obj s =
     (if bt_current s \<noteq> None then s else (set_state obj PRESS s)\<lparr>bt_current := Some obj\<rparr>)"

text \<open>The part that long and combined presses share: arm the timer, then take over as current object.\<close>

definition take_over :: "timer_env \<Rightarrow> nat \<Rightarrow> buttons \<Rightarrow> buttons" where
  "take_over e obj s =
     (case timer_arm e (timeout_ms (bt_objs s obj)) s of
        (ok, s1) \<Rightarrow> if \<not> ok then s1 else (set_state obj INVALID_STA s1)\<lparr>bt_current := Some obj\<rparr>)"

definition long_button_press :: "timer_env \<Rightarrow> nat \<Rightarrow> buttons \<Rightarrow> buttons" where
  "long_button_press e obj s = (if bt_current s \<noteq> None then s else take_over e obj s)"

definition short_long_button_press :: "timer_env \<Rightarrow> nat \<Rightarrow> buttons \<Rightarrow> buttons" where
  "short_long_button_press e obj s = long_button_press e obj s"

definition repeat_long_button_press :: "timer_env \<Rightarrow> nat \<Rightarrow> buttons \<Rightarrow> buttons" where
  "repeat_long_button_press e obj s = long_button_press e obj s"

definition combined_long_button_press :: "timer_env \<Rightarrow> nat \<Rightarrow> buttons \<Rightarrow> buttons" where
  "combined_long_button_press e obj s =
     (let buttons_state = id_mask (bt_objs s obj)
      in case map_option (\<lambda>c. func (bt_objs s c)) (bt_current s) of
           Some SHORT_BUTTON \<Rightarrow> take_over e obj (short_button_release buttons_state s)
         | Some LONG_BUTTON \<Rightarrow> take_over e obj (long_button_release e buttons_state s)
         | Some SHORT_LONG_BUTTON \<Rightarrow> take_over e obj (short_long_button_release e buttons_state s)
         | Some COMBINED_LONG_BUTTON \<Rightarrow> combined_long_button_release e buttons_state s
         | _ \<Rightarrow> take_over e obj s)"

section \<open>Timer event\<close>

definition button_timer_event :: "timer_env \<Rightarrow> buttons \<Rightarrow> buttons" where
  "button_timer_event e s =
     (case bt_current s of
        None \<Rightarrow> s
      | Some c \<Rightarrow>
          (let f = func (bt_objs s c); st = state (bt_objs s c)
           in if f = LONG_BUTTON \<or> f = SHORT_LONG_BUTTON \<or> f = COMBINED_LONG_BUTTON then fire c PRESS s
              else if f = REPEAT_LONG_BUTTON
              then (let st' = (if st = INVALID_STA then PRESS
                               else if st = PRESS \<or> st = REPEAT_PRESS then REPEAT_PRESS else st);
                        s1 = fire c st' s
                    in snd (timer_arm e (repeat_timeout_ms (bt_objs s1 c)) s1))
              else s))"

section \<open>The thread\<close>

fun find_button :: "(nat \<Rightarrow> button_obj) \<Rightarrow> u32 \<Rightarrow> nat list \<Rightarrow> nat option" where
  "find_button objs m [] = None"
| "find_button objs m (x # xs) = (if id_mask (objs x) = m then Some x else find_button objs m xs)"

definition get_buttons_obj :: "u32 \<Rightarrow> buttons \<Rightarrow> nat option" where
  "get_buttons_obj m s = (if bt_head s = [] then None else find_button (bt_objs s) m (bt_head s))"

definition press_obj :: "timer_env \<Rightarrow> nat \<Rightarrow> buttons \<Rightarrow> buttons" where
  "press_obj e obj s =
     (if \<not> en (bt_objs s obj) then s
      else case func (bt_objs s obj) of
             SHORT_BUTTON \<Rightarrow> short_button_press obj s
           | LONG_BUTTON \<Rightarrow> long_button_press e obj s
           | SHORT_LONG_BUTTON \<Rightarrow> short_long_button_press e obj s
           | COMBINED_LONG_BUTTON \<Rightarrow> combined_long_button_press e obj s
           | REPEAT_LONG_BUTTON \<Rightarrow> repeat_long_button_press e obj s)"

text \<open>
  One round of buttons_process_thread after its wait: \<open>hw\<close> is what low_level_get_state answers.
\<close>

definition thread_body :: "timer_env \<Rightarrow> u32 \<Rightarrow> buttons \<Rightarrow> buttons" where
  "thread_body e hw s =
     (if bt_time_up s then (button_timer_event e s)\<lparr>bt_time_up := False\<rparr>
      else (let buttons_state = (if low_level_get_state (button_impl s) then hw else 0)
            in if bt_prev s = buttons_state then s
               else (let s1 = s\<lparr>bt_prev := buttons_state\<rparr>;
                         obj = get_buttons_obj buttons_state s1;
                         s2 = (if bt_current s1 \<noteq> None then release_current_tiggered_obj e buttons_state s1 else s1)
                     in case obj of None \<Rightarrow> s2 | Some ob \<Rightarrow> press_obj e ob s2)))"

text \<open>
  The round with its wait: the thread stays blocked while the semaphore is taken. A thread whose
  run flag is off has left the loop.
\<close>

definition buttons_process_thread :: "timer_env \<Rightarrow> u32 \<Rightarrow> buttons \<Rightarrow> buttons" where
  "buttons_process_thread e hw s =
     (if \<not> bt_thread s then s
      else if low_level_wait_semaphore (button_impl s)
      then (case OS_SemaphoreWait False (bt_sem s) 0xFFFFFFFF of
              (ret, sem) \<Rightarrow> if ret \<noteq> OS_OK then s else thread_body e hw (s\<lparr>bt_sem := sem\<rparr>))
      else thread_body e hw s)"

definition release_sem :: "buttons \<Rightarrow> buttons" where
  "release_sem s = s\<lparr>bt_sem := snd (OS_SemaphoreRelease (bt_sem s))\<rparr>"

text \<open>The timer callback is two steps: the semaphore first, the flag second.\<close>

definition timer_cb_release :: "buttons \<Rightarrow> buttons" where
  "timer_cb_release s = (if low_level_release_semaphore (button_impl s) then release_sem s else s)"

definition timer_cb_flag :: "buttons \<Rightarrow> buttons" where
  "timer_cb_flag s = s\<lparr>bt_time_up := True\<rparr>"

definition buttons_timer_cb :: "buttons \<Rightarrow> buttons" where
  "buttons_timer_cb s = timer_cb_flag (timer_cb_release s)"

text \<open>
  The events that drive the driver: the one-shot timer expires (and becomes dormant), the hardware
  signals a change through the low-level callbacks, the thread runs a round. \<open>Expire_cb1\<close> and
  \<open>Expire_cb2\<close> are an expiry whose callback is interrupted after its first step.
\<close>

datatype btn_event = Expire | Expire_cb1 | Expire_cb2 | Signal | Round u32

definition timer_dormant :: "buttons \<Rightarrow> buttons" where
  "timer_dormant s = s\<lparr>bt_timer := map_option (\<lambda>t. t\<lparr>tm_active := False\<rparr>) (bt_timer s)\<rparr>"

fun btn_step :: "timer_env \<Rightarrow> buttons \<Rightarrow> btn_event \<Rightarrow> buttons" where
  "btn_step e s Expire = (if timer_is_active s then buttons_timer_cb (timer_dormant s) else s)"
| "btn_step e s Expire_cb1 = (if timer_is_active s then timer_cb_release (timer_dormant s) else s)"
| "btn_step e s Expire_cb2 = timer_cb_flag s"
| "btn_step e s Signal = release_sem s"
| "btn_step e s (Round hw) = buttons_process_thread e hw s"

definition btn_run :: "timer_env \<Rightarrow> buttons \<Rightarrow> btn_event list \<Rightarrow> buttons" where
  "btn_run e = foldl (btn_step e)"

section \<open>Module and object life cycle\<close>

definition OS_PRIORITY_IDLE :: nat where "OS_PRIORITY_IDLE = 0"
definition OS_PRIORITY_REAL_TIME :: nat where "OS_PRIORITY_REAL_TIME = 6"

definition buttons_set_thread_stack_size :: "u32 \<Rightarrow> buttons \<Rightarrow> buttons" where
  "buttons_set_thread_stack_size sz s = (if sz > 0 then s\<lparr>bt_stack_size := sz\<rparr> else s)"

definition buttons_set_thread_priority :: "nat \<Rightarrow> buttons \<Rightarrow> buttons" where
  "buttons_set_thread_priority prio s =
     (if prio \<ge> OS_PRIORITY_IDLE \<and> prio \<le> OS_PRIORITY_REAL_TIME then s\<lparr>bt_priority := prio\<rparr> else s)"

text \<open>
  \<open>init_ret\<close> is what the low-level init answers (it creates the semaphore, empty), \<open>thread_ret\<close> what
  OS_ThreadCreate and \<open>timer_ok\<close> what OS_TimerCreate answer.
\<close>

definition buttons_init ::
  "int \<Rightarrow> OS_Status \<Rightarrow> bool \<Rightarrow> button_impl_t option \<Rightarrow> buttons \<Rightarrow> int \<times> buttons" where
  "buttons_init init_ret thread_ret timer_ok impl s =
     (case impl of
        None \<Rightarrow> (-1, s)
      | Some im \<Rightarrow>
          (let s1 = s\<lparr>button_impl := im\<rparr>;
               s2 = (if low_level_init im then s1\<lparr>bt_sem := \<lparr>sem_count = 0, sem_max = 1\<rparr>\<rparr> else s1)
           in if low_level_init im \<and> init_ret \<noteq> 0 then (-1, s1)
              else (let s3 = s2\<lparr>bt_run_flag := True\<rparr>
                    in if thread_ret \<noteq> OS_OK then (-1, s3)
                       else (let s4 = s3\<lparr>bt_thread := True, bt_prev := 0\<rparr>
                             in if \<not> timer_ok then (-1, s4)
                                else (0, s4\<lparr>bt_timer := Some \<lparr>tm_active = False, tm_period = 0xFFFFFFFF\<rparr>,
                                            bt_head := []\<rparr>)))))"

text \<open>
  After the semaphore is released the thread runs the rest of its round, reading \<open>hw\<close>, sees its run
  flag off and deletes itself; then the objects, the timer and the implementation go.
\<close>

definition buttons_deinit :: "timer_env \<Rightarrow> u32 \<Rightarrow> buttons \<Rightarrow> int \<times> buttons" where
  "buttons_deinit e hw s =
     (if bt_head s = [] then (0, s)
      else (let s1 = s\<lparr>bt_run_flag := False\<rparr>;
                s2 = (if low_level_release_semaphore (button_impl s1) then release_sem s1 else s1);
                s3 = (buttons_process_thread e hw s2)\<lparr>bt_thread := False\<rparr>;
                s4 = s3\<lparr>bt_freed := bt_freed s3 @ bt_head s3, bt_head := []\<rparr>
            in (0, s4\<lparr>bt_timer := None,
                      button_impl := \<lparr>low_level_init = False, low_level_get_state = False,
                        low_level_wait_semaphore = False, low_level_release_semaphore = False,
                        low_level_deinit = False\<rparr>\<rparr>)))"

definition button_start :: "nat \<Rightarrow> buttons \<Rightarrow> buttons" where
  "button_start ob s = s\<lparr>bt_objs := (bt_objs s)(ob := (bt_objs s ob)\<lparr>en := True\<rparr>)\<rparr>"

definition button_stop :: "nat \<Rightarrow> buttons \<Rightarrow> buttons" where
  "button_stop ob s = s\<lparr>bt_objs := (bt_objs s)(ob := (bt_objs s ob)\<lparr>en := False\<rparr>)\<rparr>"

definition button_get_state :: "nat \<Rightarrow> buttons \<Rightarrow> BUTTON_STATE" where
  "button_get_state ob s = (if state (bt_objs s ob) = PRESS then PRESS else RELEASE)"

definition button_destroy :: "nat \<Rightarrow> buttons \<Rightarrow> int \<times> buttons" where
  "button_destroy ob s =
     (if bt_current s = Some ob then (-1, s)
      else if bt_head s = [] then (-1, s)
      else if ob \<in> set (bt_head s)
           then (0, s\<lparr>bt_head := remove1 ob (bt_head s), bt_freed := bt_freed s @ [ob]\<rparr>)
      else (0, s))"

text \<open>\<open>while (num) { if (num & 1) count++; num >>= 1; }\<close>\<close>

function count_loop :: "u32 \<Rightarrow> nat \<Rightarrow> nat" where
  "count_loop num count =
     (if num = 0 then count
      else count_loop (drop_bit 1 num) (if num AND 1 \<noteq> 0 then Suc count else count))"
  by pat_completeness auto
termination
proof (relation "measure (\<lambda>(num, count). unat num)", goal_cases)
  case 1
  show ?case by simp
next
  case (2 num count)
  then have "unat num \<noteq> 0" by (simp add: unat_eq_zero)
  moreover have "unat (drop_bit 1 num) = unat num div 2"
    by (subst unat_drop_bit_eq) (simp add: drop_bit_eq_div)
  ultimately show ?case by (simp only: in_measure split_conv)
qed

declare count_loop.simps [simp del]

text \<open>
  What the five create functions share: \<open>count_ok\<close> is the test on the number of keys, \<open>malloc_res\<close>
  the address malloc returned, zero-filled but for the fields the function sets.
\<close>

definition create_button ::
  "(nat \<Rightarrow> bool) \<Rightarrow> BUTTON_TYPE \<Rightarrow> u32 \<Rightarrow> u32 \<Rightarrow> u32 \<Rightarrow> nat option \<Rightarrow> buttons \<Rightarrow> nat option \<times> buttons" where
  "create_button count_ok f m timeout repeat malloc_res s =
     (if \<not> count_ok (count_loop m 0) then (None, s)
      else if get_buttons_obj m s \<noteq> None then (None, s)
      else case malloc_res of
             None \<Rightarrow> (None, s)
           | Some ob \<Rightarrow>
               (Some ob, s\<lparr>bt_objs := (bt_objs s)(ob := \<lparr>id_mask = m, repeat_timeout_ms = repeat,
                              timeout_ms = timeout, en = False, func = f, state = INVALID_STA,
                              cb = None, cb_arg = 0\<rparr>),
                           bt_head := bt_head s @ [ob]\<rparr>))"

definition create_short_button :: "u32 \<Rightarrow> nat option \<Rightarrow> buttons \<Rightarrow> nat option \<times> buttons" where
  "create_short_button m = create_button (\<lambda>count. count = 1) SHORT_BUTTON m 0 0"

definition create_long_button :: "u32 \<Rightarrow> u32 \<Rightarrow> nat option \<Rightarrow> buttons \<Rightarrow> nat option \<times> buttons" where
  "create_long_button m t = create_button (\<lambda>count. count = 1) LONG_BUTTON m t 0"

definition create_short_long_button :: "u32 \<Rightarrow> u32 \<Rightarrow> nat option \<Rightarrow> buttons \<Rightarrow> nat option \<times> buttons" where
  "create_short_long_button m t = create_button (\<lambda>count. count = 1) SHORT_LONG_BUTTON m t 0"

definition create_combined_long_button :: "u32 \<Rightarrow> u32 \<Rightarrow> nat option \<Rightarrow> buttons \<Rightarrow> nat option \<times> buttons" where
  "create_combined_long_button m t = create_button (\<lambda>count. \<not> count < 2) COMBINED_LONG_BUTTON m t 0"

definition create_repeat_long_button :: "u32 \<Rightarrow> u32 \<Rightarrow> u32 \<Rightarrow> nat option \<Rightarrow> buttons \<Rightarrow> nat option \<times> buttons" where
  "create_repeat_long_button m t rt = create_button (\<lambda>count. count = 1) REPEAT_LONG_BUTTON m t rt"

section \<open>Counting keys\<close>

lemma bits_shift: "{n. bit (num :: u32) n} = (if bit num 0 then {0} else {}) \<union> Suc ` {n. bit (drop_bit 1 num) n}"
proof (rule set_eqI)
  fix n
  show "n \<in> {n. bit num n} \<longleftrightarrow> n \<in> (if bit num 0 then {0} else {}) \<union> Suc ` {n. bit (drop_bit 1 num) n}"
    by (cases n) (auto simp: bit_simps)
qed

lemma finite_bits [simp]: "finite {n. bit (num :: u32) n}"
  by (rule finite_subset [of _ "{..<32}"]) (auto dest: bit_imp_le_length)

lemma count_loop_card: "count_loop num count = count + card {n. bit num n}"
proof (induction num count rule: count_loop.induct)
  case (1 num count)
  show ?case
  proof (cases "num = 0")
    case True
    then show ?thesis by (simp add: count_loop.simps)
  next
    case False
    have odd: "(num AND 1 \<noteq> 0) = bit num 0"
      by (simp add: and_one_eq odd_iff_mod_2_eq_one bit_0 mod2_eq_if)
    have inj: "card (Suc ` {n. bit (drop_bit 1 num) n}) = card {n. bit (drop_bit 1 num) n}"
      by (rule card_image) simp
    have "card {n. bit num n} = (if bit num 0 then 1 else 0) + card {n. bit (drop_bit 1 num) n}"
      using inj by (subst bits_shift) (auto simp: card_insert_if)
    with "1" [OF False] False odd show ?thesis by (simp add: count_loop.simps [of num count])
  qed
qed


section \<open>What the operations leave alone\<close>

text \<open>The objects without their states: everything a round of the thread never writes.\<close>

definition static_part :: "buttons \<Rightarrow> (nat \<Rightarrow> button_obj) \<times> nat list \<times> button_impl_t \<times> bool" where
  "static_part s = (\<lambda>x. (bt_objs s x)\<lparr>state := INVALID_STA\<rparr>, bt_head s, button_impl s, bt_thread s)"

definition st_of :: "buttons \<Rightarrow> nat \<Rightarrow> BUTTON_STATE" where "st_of s x = state (bt_objs s x)"

definition all_invalid :: "buttons \<Rightarrow> bool" where
  "all_invalid s = (\<forall>x\<in>set (bt_head s). st_of s x = INVALID_STA)"

lemma static_partD:
  assumes "static_part s' = static_part s"
  shows "bt_head s' = bt_head s" "button_impl s' = button_impl s" "bt_thread s' = bt_thread s"
    "id_mask (bt_objs s' x) = id_mask (bt_objs s x)" "func (bt_objs s' x) = func (bt_objs s x)"
    "en (bt_objs s' x) = en (bt_objs s x)" "cb (bt_objs s' x) = cb (bt_objs s x)"
    "cb_arg (bt_objs s' x) = cb_arg (bt_objs s x)" "timeout_ms (bt_objs s' x) = timeout_ms (bt_objs s x)"
    "repeat_timeout_ms (bt_objs s' x) = repeat_timeout_ms (bt_objs s x)"
proof -
  have e: "(bt_objs s' x)\<lparr>state := INVALID_STA\<rparr> = (bt_objs s x)\<lparr>state := INVALID_STA\<rparr>"
    using assms by (simp add: static_part_def fun_eq_iff)
  show "bt_head s' = bt_head s" "button_impl s' = button_impl s" "bt_thread s' = bt_thread s"
    using assms by (simp_all add: static_part_def)
  show "id_mask (bt_objs s' x) = id_mask (bt_objs s x)" "func (bt_objs s' x) = func (bt_objs s x)"
    "en (bt_objs s' x) = en (bt_objs s x)" "cb (bt_objs s' x) = cb (bt_objs s x)"
    "cb_arg (bt_objs s' x) = cb_arg (bt_objs s x)" "timeout_ms (bt_objs s' x) = timeout_ms (bt_objs s x)"
    "repeat_timeout_ms (bt_objs s' x) = repeat_timeout_ms (bt_objs s x)"
    using arg_cong [OF e, of id_mask] arg_cong [OF e, of func] arg_cong [OF e, of en] arg_cong [OF e, of cb]
      arg_cong [OF e, of cb_arg] arg_cong [OF e, of timeout_ms] arg_cong [OF e, of repeat_timeout_ms] by simp_all
qed

lemma set_state_simps [simp]:
  "static_part (set_state c st s) = static_part s" "bt_head (set_state c st s) = bt_head s"
  "st_of (set_state c st s) x = (if x = c then st else st_of s x)" "bt_current (set_state c st s) = bt_current s"
  "bt_timer (set_state c st s) = bt_timer s" "bt_time_up (set_state c st s) = bt_time_up s"
  "bt_prev (set_state c st s) = bt_prev s" "bt_sem (set_state c st s) = bt_sem s"
  "bt_calls (set_state c st s) = bt_calls s"
  by (auto simp: set_state_def static_part_def st_of_def fun_eq_iff)

lemma fire_simps [simp]:
  "static_part (fire c st s) = static_part s" "bt_head (fire c st s) = bt_head s"
  "st_of (fire c st s) x = (if x = c then st else st_of s x)" "bt_current (fire c st s) = bt_current s"
  "bt_timer (fire c st s) = bt_timer s" "bt_time_up (fire c st s) = bt_time_up s"
  "bt_prev (fire c st s) = bt_prev s" "bt_sem (fire c st s) = bt_sem s"
  by (auto simp: fire_def call_cb_def set_state_def static_part_def st_of_def fun_eq_iff split: option.splits)

lemma fire_calls:
  "bt_calls (fire c st s) =
     bt_calls s @ (case cb (bt_objs s c) of None \<Rightarrow> [] | Some f \<Rightarrow> [(f, st, cb_arg (bt_objs s c))])"
  by (simp add: fire_def call_cb_def set_state_def split: option.splits)

lemma static_upd [simp]:
  "static_part (s\<lparr>bt_current := a\<rparr>) = static_part s" "static_part (s\<lparr>bt_timer := t\<rparr>) = static_part s"
  "static_part (s\<lparr>bt_time_up := b\<rparr>) = static_part s" "static_part (s\<lparr>bt_prev := w\<rparr>) = static_part s"
  "static_part (s\<lparr>bt_sem := m\<rparr>) = static_part s"
  "st_of (s\<lparr>bt_current := a\<rparr>) = st_of s" "st_of (s\<lparr>bt_timer := t\<rparr>) = st_of s"
  "st_of (s\<lparr>bt_time_up := b\<rparr>) = st_of s" "st_of (s\<lparr>bt_prev := w\<rparr>) = st_of s"
  "st_of (s\<lparr>bt_sem := m\<rparr>) = st_of s"
  by (simp_all add: static_part_def st_of_def fun_eq_iff)

lemma timer_stop_simps [simp]:
  "static_part (timer_stop e s) = static_part s" "st_of (timer_stop e s) = st_of s"
  "bt_current (timer_stop e s) = bt_current s" "bt_head (timer_stop e s) = bt_head s"
  "bt_objs (timer_stop e s) = bt_objs s" "bt_calls (timer_stop e s) = bt_calls s"
  "bt_prev (timer_stop e s) = bt_prev s" "bt_sem (timer_stop e s) = bt_sem s" "bt_time_up (timer_stop e s) = False"
  by (simp_all add: timer_stop_def)

lemma timer_arm_simps [simp]:
  "static_part (snd (timer_arm e p s)) = static_part s" "st_of (snd (timer_arm e p s)) = st_of s"
  "bt_current (snd (timer_arm e p s)) = bt_current s" "bt_head (snd (timer_arm e p s)) = bt_head s"
  "bt_objs (snd (timer_arm e p s)) = bt_objs s" "bt_calls (snd (timer_arm e p s)) = bt_calls s"
  "bt_prev (snd (timer_arm e p s)) = bt_prev s" "bt_sem (snd (timer_arm e p s)) = bt_sem s"
  "bt_time_up (snd (timer_arm e p s)) = bt_time_up s"
  by (auto simp: timer_arm_def Let_def split: option.splits prod.splits)

lemma end_release_simps [simp]:
  "static_part (end_release c v s) = static_part s" "bt_head (end_release c v s) = bt_head s"
  "st_of (end_release c v s) x = (if x = c then INVALID_STA else st_of s x)"
  "bt_current (end_release c v s) = (if v = 0 then None else bt_current s)"
  "bt_timer (end_release c v s) = bt_timer s" "bt_time_up (end_release c v s) = bt_time_up s"
  "bt_prev (end_release c v s) = bt_prev s" "bt_sem (end_release c v s) = bt_sem s"
  "bt_calls (end_release c v s) = bt_calls s"
  by (simp_all add: end_release_def ALL_BUTTONS_RELEASE_def Let_def)

section \<open>The contract of the release functions\<close>

text \<open>
  What the thread relies on when it releases the current object: nothing but its state, the current
  pointer, the timer and the callbacks change; the object is left invalid, and only the release of
  all keys resets the pointer.
\<close>

locale button_release =
  fixes rel :: "timer_env \<Rightarrow> u32 \<Rightarrow> buttons \<Rightarrow> buttons"
  assumes rel_static: "bt_current s = Some c \<Longrightarrow> static_part (rel e v s) = static_part s"
    and rel_state: "bt_current s = Some c \<Longrightarrow> st_of (rel e v s) x = (if x = c then INVALID_STA else st_of s x)"
    and rel_current: "bt_current s = Some c \<Longrightarrow> bt_current (rel e v s) = (if v = 0 then None else Some c)"
    and rel_prev: "bt_current s = Some c \<Longrightarrow> bt_prev (rel e v s) = bt_prev s"
    and rel_sem: "bt_current s = Some c \<Longrightarrow> bt_sem (rel e v s) = bt_sem s"
    and rel_calls: "bt_current s = Some c \<Longrightarrow> \<exists>cs. bt_calls (rel e v s) = bt_calls s @ cs \<and> length cs \<le> 1"
begin

lemma rel_head: "bt_current s = Some c \<Longrightarrow> bt_head (rel e v s) = bt_head s"
  using static_partD(1) [OF rel_static] .

lemma rel_all_invalid:
  assumes "bt_current s = Some c" and "\<And>x. x \<in> set (bt_head s) \<Longrightarrow> x \<noteq> c \<Longrightarrow> st_of s x = INVALID_STA"
  shows "all_invalid (rel e v s)"
  using assms by (auto simp: all_invalid_def rel_head rel_state)

lemma rel_full: "bt_current s = Some c \<Longrightarrow> bt_current (rel e 0 s) = None"
  by (simp add: rel_current)

lemma rel_partial: "bt_current s = Some c \<Longrightarrow> v \<noteq> 0 \<Longrightarrow> bt_current (rel e v s) = Some c"
  by (simp add: rel_current)

end

lemmas release_defs = short_button_release_def long_button_release_def short_long_button_release_def
  repeat_long_button_release_def combined_long_button_release_def

interpretation short_rel: button_release "\<lambda>e. short_button_release"
  by unfold_locales (auto simp: release_defs fire_calls split: option.splits)

interpretation long_rel: button_release long_button_release
  by unfold_locales (auto simp: release_defs fire_calls Let_def split: option.splits)

interpretation short_long_rel: button_release short_long_button_release
  by unfold_locales (auto simp: release_defs fire_calls Let_def split: option.splits)

interpretation combined_rel: button_release combined_long_button_release
  by unfold_locales (auto simp: release_defs fire_calls Let_def split: option.splits)

interpretation repeat_rel: button_release repeat_long_button_release
  by unfold_locales
    (simp_all only: repeat_long_button_release_def long_rel.rel_static long_rel.rel_state long_rel.rel_current
      long_rel.rel_prev long_rel.rel_sem long_rel.rel_calls)

text \<open>The dispatcher inherits the contract.\<close>

interpretation cur_rel: button_release release_current_tiggered_obj
proof
  fix c x :: nat and s :: buttons and e :: timer_env and v :: u32
  assume c: "bt_current s = Some c"
  note rd = release_current_tiggered_obj_def
  show "static_part (release_current_tiggered_obj e v s) = static_part s"
    using short_rel.rel_static [OF c] long_rel.rel_static [OF c] short_long_rel.rel_static [OF c]
      combined_rel.rel_static [OF c] repeat_rel.rel_static [OF c] by (simp add: rd c split: BUTTON_TYPE.split)
  show "st_of (release_current_tiggered_obj e v s) x = (if x = c then INVALID_STA else st_of s x)"
    using short_rel.rel_state [OF c] long_rel.rel_state [OF c] short_long_rel.rel_state [OF c]
      combined_rel.rel_state [OF c] repeat_rel.rel_state [OF c] by (simp add: rd c split: BUTTON_TYPE.split)
  show "bt_current (release_current_tiggered_obj e v s) = (if v = 0 then None else Some c)"
    using short_rel.rel_current [OF c] long_rel.rel_current [OF c] short_long_rel.rel_current [OF c]
      combined_rel.rel_current [OF c] repeat_rel.rel_current [OF c] by (simp add: rd c split: BUTTON_TYPE.split)
  show "bt_prev (release_current_tiggered_obj e v s) = bt_prev s"
    using short_rel.rel_prev [OF c] long_rel.rel_prev [OF c] short_long_rel.rel_prev [OF c]
      combined_rel.rel_prev [OF c] repeat_rel.rel_prev [OF c] by (simp add: rd c split: BUTTON_TYPE.split)
  show "bt_sem (release_current_tiggered_obj e v s) = bt_sem s"
    using short_rel.rel_sem [OF c] long_rel.rel_sem [OF c] short_long_rel.rel_sem [OF c]
      combined_rel.rel_sem [OF c] repeat_rel.rel_sem [OF c] by (simp add: rd c split: BUTTON_TYPE.split)
  show "\<exists>cs. bt_calls (release_current_tiggered_obj e v s) = bt_calls s @ cs \<and> length cs \<le> 1"
    using short_rel.rel_calls [OF c] long_rel.rel_calls [OF c] short_long_rel.rel_calls [OF c]
      combined_rel.rel_calls [OF c] repeat_rel.rel_calls [OF c] by (simp add: rd c split: BUTTON_TYPE.split)
qed

section \<open>Invariant\<close>

definition kind_ok :: "button_obj \<Rightarrow> bool" where
  "kind_ok ob =
     (if func ob = COMBINED_LONG_BUTTON then 2 \<le> card {n. bit (id_mask ob) n}
      else card {n. bit (id_mask ob) n} = 1)"

text \<open>
  The list has no object twice and no two objects for the same keys, each mask suits its kind, the
  current object is listed, every other object is idle, and the semaphore is within its bound.
\<close>

definition btn_inv :: "buttons \<Rightarrow> bool" where
  "btn_inv s =
     (distinct (bt_head s) \<and> distinct (map (\<lambda>x. id_mask (bt_objs s x)) (bt_head s)) \<and>
      (\<forall>x\<in>set (bt_head s). kind_ok (bt_objs s x)) \<and>
      (\<forall>c. bt_current s = Some c \<longrightarrow> c \<in> set (bt_head s)) \<and>
      (\<forall>x\<in>set (bt_head s). bt_current s \<noteq> Some x \<longrightarrow> st_of s x = INVALID_STA) \<and>
      sem_wf (bt_sem s))"

lemma btn_inv_frame:
  assumes "btn_inv s" "static_part s' = static_part s" "bt_sem s' = bt_sem s"
    and "\<And>c. bt_current s' = Some c \<Longrightarrow> c \<in> set (bt_head s)"
    and "\<And>x. x \<in> set (bt_head s) \<Longrightarrow> bt_current s' \<noteq> Some x \<Longrightarrow> st_of s' x = INVALID_STA"
  shows "btn_inv s'"
proof -
  note d = static_partD [OF assms(2)]
  have "map (\<lambda>x. id_mask (bt_objs s' x)) (bt_head s') = map (\<lambda>x. id_mask (bt_objs s x)) (bt_head s)"
    by (simp add: d)
  moreover have "kind_ok (bt_objs s' x) = kind_ok (bt_objs s x)" for x
    by (simp add: kind_ok_def d)
  ultimately show ?thesis using assms(1,3,4,5) d(1)
    unfolding btn_inv_def by (metis (no_types, lifting))
qed

lemma find_button_Some:
  "find_button objs m xs = Some x \<Longrightarrow> x \<in> set xs \<and> id_mask (objs x) = m"
  by (induction xs) (auto split: if_splits)

lemma find_button_None: "(find_button objs m xs = None) = (\<forall>x\<in>set xs. id_mask (objs x) \<noteq> m)"
  by (induction xs) auto

lemma get_buttons_obj_Some: "get_buttons_obj m s = Some x \<Longrightarrow> x \<in> set (bt_head s) \<and> id_mask (bt_objs s x) = m"
  by (auto simp: get_buttons_obj_def split: if_splits dest: find_button_Some)

lemma get_buttons_obj_None: "(get_buttons_obj m s = None) = (\<forall>x\<in>set (bt_head s). id_mask (bt_objs s x) \<noteq> m)"
  by (auto simp: get_buttons_obj_def find_button_None)

text \<open>A press starts from a state in which every listed object is idle.\<close>

definition ready :: "buttons \<Rightarrow> bool" where "ready s = (btn_inv s \<and> all_invalid s)"

lemma take_over_inv:
  assumes "ready s" "obj \<in> set (bt_head s)"
  shows "btn_inv (take_over e obj s)"
proof -
  have inv: "btn_inv s" and idle: "\<And>x. x \<in> set (bt_head s) \<Longrightarrow> st_of s x = INVALID_STA"
    using assms by (auto simp: ready_def all_invalid_def)
  obtain ok s1 where a: "timer_arm e (timeout_ms (bt_objs s obj)) s = (ok, s1)" by fastforce
  note t = timer_arm_simps [of e "timeout_ms (bt_objs s obj)" s, unfolded a snd_conv]
  show ?thesis
  proof (cases ok)
    case True
    then show ?thesis
      by (intro btn_inv_frame [OF inv]) (use assms(2) idle in \<open>auto simp: take_over_def a t\<close>)
  next
    case False
    then show ?thesis
      by (intro btn_inv_frame [OF inv]) (use inv idle in \<open>auto simp: take_over_def a t btn_inv_def\<close>)
  qed
qed

context button_release
begin

lemma rel_ready:
  assumes "btn_inv s" "bt_current s = Some c"
  shows "ready (rel e v s)"
proof -
  have idle: "\<And>x. x \<in> set (bt_head s) \<Longrightarrow> x \<noteq> c \<Longrightarrow> st_of s x = INVALID_STA"
    and c: "c \<in> set (bt_head s)"
    using assms by (auto simp: btn_inv_def)
  have "btn_inv (rel e v s)"
    by (rule btn_inv_frame [OF assms(1) rel_static [OF assms(2)] rel_sem [OF assms(2)]])
      (use assms(2) idle c in \<open>auto simp: rel_current rel_state split: if_splits\<close>)
  then show ?thesis using rel_all_invalid [OF assms(2)] idle by (simp add: ready_def)
qed

end

lemma ready_if_idle: "btn_inv s \<Longrightarrow> bt_current s = None \<Longrightarrow> ready s"
  by (simp add: ready_def all_invalid_def btn_inv_def)

lemma ready_inv: "ready s \<Longrightarrow> btn_inv s"
  by (simp add: ready_def)

lemma combined_press_inv:
  assumes "ready s" "obj \<in> set (bt_head s)"
  shows "btn_inv (combined_long_button_press e obj s)"
proof (cases "bt_current s")
  case None
  then show ?thesis using assms by (simp add: combined_long_button_press_def take_over_inv)
next
  case (Some c)
  have inv: "btn_inv s" using assms(1) by (rule ready_inv)
  show ?thesis
    using assms Some short_rel.rel_ready [OF inv Some] long_rel.rel_ready [OF inv Some]
      short_long_rel.rel_ready [OF inv Some] ready_inv [OF combined_rel.rel_ready [OF inv Some]]
    by (simp add: combined_long_button_press_def Let_def take_over_inv short_rel.rel_head [OF Some]
        long_rel.rel_head [OF Some] short_long_rel.rel_head [OF Some] split: BUTTON_TYPE.split)
qed

lemma press_obj_inv:
  assumes "ready s" "obj \<in> set (bt_head s)"
  shows "btn_inv (press_obj e obj s)"
proof -
  have "btn_inv (short_button_press obj s)"
    using assms by (cases "bt_current s")
      (auto simp: short_button_press_def ready_def all_invalid_def intro!: btn_inv_frame [of s])
  moreover have "btn_inv (long_button_press e obj s)"
    using assms by (simp add: long_button_press_def take_over_inv ready_inv)
  ultimately show ?thesis
    using combined_press_inv [OF assms] ready_inv [OF assms(1)]
    by (simp add: press_obj_def short_long_button_press_def repeat_long_button_press_def split: BUTTON_TYPE.split)
qed

lemma button_timer_event_simps [simp]:
  "static_part (button_timer_event e s) = static_part s" "bt_current (button_timer_event e s) = bt_current s"
  "bt_prev (button_timer_event e s) = bt_prev s" "bt_sem (button_timer_event e s) = bt_sem s"
  "bt_current s \<noteq> Some x \<Longrightarrow> st_of (button_timer_event e s) x = st_of s x"
  by (auto simp: button_timer_event_def Let_def split: option.splits)

lemma change_inv:
  assumes "btn_inv s" and "s2 = (if bt_current s \<noteq> None then release_current_tiggered_obj e v s else s)"
  shows "btn_inv (case get_buttons_obj w s of None \<Rightarrow> s2 | Some ob \<Rightarrow> press_obj e ob s2)"
proof -
  have r: "ready s2" and h: "bt_head s2 = bt_head s"
    using assms by (auto simp: ready_if_idle cur_rel.rel_ready cur_rel.rel_head)
  show ?thesis
    using press_obj_inv [OF r] get_buttons_obj_Some [of w s] ready_inv [OF r] by (auto simp: h split: option.split)
qed

lemma thread_body_inv:
  assumes "btn_inv s"
  shows "btn_inv (thread_body e hw s)"
proof -
  have upd: "btn_inv (s\<lparr>bt_prev := w\<rparr>)" for w
    by (rule btn_inv_frame [OF assms]) (use assms in \<open>auto simp: btn_inv_def\<close>)
  have "btn_inv ((button_timer_event e s)\<lparr>bt_time_up := False\<rparr>)"
    by (rule btn_inv_frame [OF assms]) (use assms in \<open>auto simp: btn_inv_def\<close>)
  then show ?thesis
    using assms by (simp only: thread_body_def Let_def change_inv [OF upd refl] split: if_split) blast
qed

lemma btn_inv_sem: "btn_inv s \<Longrightarrow> sem_wf m \<Longrightarrow> btn_inv (s\<lparr>bt_sem := m\<rparr>)"
  by (simp add: btn_inv_def st_of_def)

lemma btn_inv_timer: "btn_inv (s\<lparr>bt_timer := t\<rparr>) = btn_inv s" "btn_inv (s\<lparr>bt_time_up := b\<rparr>) = btn_inv s"
  by (simp_all add: btn_inv_def st_of_def)

lemma process_thread_inv: "btn_inv s \<Longrightarrow> btn_inv (buttons_process_thread e hw s)"
  using OS_SemaphoreWait_wf [of "bt_sem s" False "0xFFFFFFFF"]
  by (auto simp: buttons_process_thread_def btn_inv_def [of s] intro!: thread_body_inv btn_inv_sem split: prod.split)

lemma release_sem_inv: "btn_inv s \<Longrightarrow> btn_inv (release_sem s)"
  using OS_SemaphoreRelease_wf [of "bt_sem s"] by (simp add: release_sem_def btn_inv_sem btn_inv_def [of s])

lemma btn_step_inv: "btn_inv s \<Longrightarrow> btn_inv (btn_step e s ev)"
  by (cases ev) (auto simp: process_thread_inv release_sem_inv timer_dormant_def buttons_timer_cb_def
      timer_cb_release_def timer_cb_flag_def btn_inv_timer)

section \<open>Reachable states\<close>

text \<open>Every way a program can drive the module: init, the five create functions, destroy, start, stop
  and the events of the driver. Memory from malloc is not in the list.\<close>

inductive btn_reach :: "buttons \<Rightarrow> bool" where
  reach_init: "buttons_init init_ret thread_ret timer_ok (Some im) s0 = (0, s) \<Longrightarrow> bt_current s0 = None
    \<Longrightarrow> sem_wf (bt_sem s0) \<Longrightarrow> btn_reach s"
| reach_event: "btn_reach s \<Longrightarrow> btn_reach (btn_step e s ev)"
| reach_short: "btn_reach s \<Longrightarrow> set_option r \<inter> set (bt_head s) = {} \<Longrightarrow> btn_reach (snd (create_short_button m r s))"
| reach_long: "btn_reach s \<Longrightarrow> set_option r \<inter> set (bt_head s) = {} \<Longrightarrow> btn_reach (snd (create_long_button m t r s))"
| reach_short_long: "btn_reach s \<Longrightarrow> set_option r \<inter> set (bt_head s) = {}
    \<Longrightarrow> btn_reach (snd (create_short_long_button m t r s))"
| reach_combined: "btn_reach s \<Longrightarrow> set_option r \<inter> set (bt_head s) = {}
    \<Longrightarrow> btn_reach (snd (create_combined_long_button m t r s))"
| reach_repeat: "btn_reach s \<Longrightarrow> set_option r \<inter> set (bt_head s) = {}
    \<Longrightarrow> btn_reach (snd (create_repeat_long_button m t rt r s))"
| reach_start: "btn_reach s \<Longrightarrow> btn_reach (button_start ob s)"
| reach_stop: "btn_reach s \<Longrightarrow> btn_reach (button_stop ob s)"
| reach_destroy: "btn_reach s \<Longrightarrow> btn_reach (snd (button_destroy ob s))"

lemmas create_defs = create_short_button_def create_long_button_def create_short_long_button_def
  create_combined_long_button_def create_repeat_long_button_def

lemma create_button_inv:
  assumes inv: "btn_inv s" and fresh: "set_option r \<inter> set (bt_head s) = {}"
    and ok: "\<And>k. count_ok k = (if f = COMBINED_LONG_BUTTON then 2 \<le> k else k = 1)"
  shows "btn_inv (snd (create_button count_ok f m t rt r s))"
proof (cases "count_ok (count_loop m 0) \<and> get_buttons_obj m s = None \<and> r \<noteq> None")
  case False
  then show ?thesis using inv by (auto simp: create_button_def)
next
  case True
  then obtain ob where r: "r = Some ob" by auto
  have new: "ob \<notin> set (bt_head s)" using fresh r by auto
  let ?n = "\<lparr>id_mask = m, repeat_timeout_ms = rt, timeout_ms = t, en = False, func = f, state = INVALID_STA,
     cb = None, cb_arg = 0\<rparr>"
  let ?s = "s\<lparr>bt_objs := (bt_objs s)(ob := ?n), bt_head := bt_head s @ [ob]\<rparr>"
  have same: "bt_objs ?s x = bt_objs s x" if "x \<in> set (bt_head s)" for x using that new by auto
  have ids: "map (\<lambda>x. id_mask (bt_objs ?s x)) (bt_head ?s) = map (\<lambda>x. id_mask (bt_objs s x)) (bt_head s) @ [m]"
    using new by auto
  have "m \<notin> set (map (\<lambda>x. id_mask (bt_objs s x)) (bt_head s))"
    using True by (auto simp: get_buttons_obj_None)
  moreover have "kind_ok ?n" using True by (auto simp: kind_ok_def ok count_loop_card split: if_splits)
  ultimately have "btn_inv ?s"
    using inv new unfolding btn_inv_def ids by (auto simp: st_of_def)
  then show ?thesis using True r by (simp add: create_button_def)
qed

lemma destroy_inv: "btn_inv s \<Longrightarrow> btn_inv (snd (button_destroy ob s))"
  by (auto simp: button_destroy_def btn_inv_def st_of_def distinct_map set_remove1_eq intro: inj_on_diff)

lemma start_stop_frame:
  "id_mask (bt_objs (button_start ob s) x) = id_mask (bt_objs s x)" "func (bt_objs (button_start ob s) x) = func (bt_objs s x)"
  "state (bt_objs (button_start ob s) x) = state (bt_objs s x)" "bt_head (button_start ob s) = bt_head s"
  "bt_current (button_start ob s) = bt_current s" "bt_sem (button_start ob s) = bt_sem s"
  "id_mask (bt_objs (button_stop ob s) x) = id_mask (bt_objs s x)" "func (bt_objs (button_stop ob s) x) = func (bt_objs s x)"
  "state (bt_objs (button_stop ob s) x) = state (bt_objs s x)" "bt_head (button_stop ob s) = bt_head s"
  "bt_current (button_stop ob s) = bt_current s" "bt_sem (button_stop ob s) = bt_sem s"
  by (simp_all add: button_start_def button_stop_def)

lemma start_stop_inv: "btn_inv s \<Longrightarrow> btn_inv (button_start ob s)" "btn_inv s \<Longrightarrow> btn_inv (button_stop ob s)"
  unfolding btn_inv_def kind_ok_def st_of_def start_stop_frame by assumption+

lemma init_inv:
  assumes "buttons_init init_ret thread_ret timer_ok (Some im) s0 = (0, s)" "bt_current s0 = None" "sem_wf (bt_sem s0)"
  shows "btn_inv s"
  using assms by (auto simp: buttons_init_def Let_def btn_inv_def sem_wf_def split: if_splits)


definition all_impl :: button_impl_t where
  "all_impl = \<lparr>low_level_init = True, low_level_get_state = True, low_level_wait_semaphore = True,
     low_level_release_semaphore = True, low_level_deinit = True\<rparr>"

definition all_env :: timer_env where "all_env = \<lparr>te_stop = True, te_change = True, te_start = True\<rparr>"

text \<open>The static variables as the program starts.\<close>

definition boot :: buttons where
  "boot = \<lparr>button_impl = all_impl, bt_objs = \<lambda>_. \<lparr>id_mask = 0, repeat_timeout_ms = 0, timeout_ms = 0, en = False,
       func = SHORT_BUTTON, state = PRESS, cb = None, cb_arg = 0\<rparr>,
     bt_head = [], bt_time_up = False, bt_timer = None, bt_thread = False, bt_run_flag = False,
     bt_stack_size = 0, bt_priority = 3, bt_current = None, bt_prev = 0,
     bt_sem = \<lparr>sem_count = 0, sem_max = 0\<rparr>, bt_calls = [], bt_freed = []\<rparr>"

definition booted :: buttons where "booted = snd (buttons_init 0 OS_OK True (Some all_impl) boot)"

lemma count_one: "count_loop 2 0 = 1" "count_loop 4 0 = 1" "count_loop 6 0 = 2" "count_loop 8 0 = 1"
  by (simp_all add: count_loop.simps)


text \<open>A create function makes an object exactly when the mask has one key (two or more for a
  combined button), no listed object has that mask, and malloc gave memory; the new object is at the
  end of the list, disabled and idle. Otherwise the module is left as it was.
\<close>

lemma create_button_accepts:
  "create_short_button m r s =
     (if card {n. bit m n} = 1 \<and> m \<notin> set (map (\<lambda>x. id_mask (bt_objs s x)) (bt_head s)) \<and> r \<noteq> None
      then (r, s\<lparr>bt_objs := (bt_objs s)(the r := \<lparr>id_mask = m, repeat_timeout_ms = 0, timeout_ms = 0, en = False,
                   func = SHORT_BUTTON, state = INVALID_STA, cb = None, cb_arg = 0\<rparr>), bt_head := bt_head s @ [the r]\<rparr>)
      else (None, s)) \<and>
   create_combined_long_button m t r s =
     (if 2 \<le> card {n. bit m n} \<and> m \<notin> set (map (\<lambda>x. id_mask (bt_objs s x)) (bt_head s)) \<and> r \<noteq> None
      then (r, s\<lparr>bt_objs := (bt_objs s)(the r := \<lparr>id_mask = m, repeat_timeout_ms = 0, timeout_ms = t, en = False,
                   func = COMBINED_LONG_BUTTON, state = INVALID_STA, cb = None, cb_arg = 0\<rparr>), bt_head := bt_head s @ [the r]\<rparr>)
      else (None, s)) \<and>
   fst (create_long_button m t r s) = fst (create_short_button m r s) \<and>
   fst (create_short_long_button m t r s) = fst (create_short_button m r s) \<and>
   fst (create_repeat_long_button m t rt r s) = fst (create_short_button m r s)"
proof -
  have g: "(get_buttons_obj m s \<noteq> None) = (m \<in> set (map (\<lambda>x. id_mask (bt_objs s x)) (bt_head s)))"
    using get_buttons_obj_None [of m s] by auto
  show ?thesis
    unfolding create_defs create_button_def g count_loop_card
    by (cases r) (simp_all add: not_less)
qed

section \<open>Holding a button\<close>

text \<open>What the documentation of the five kinds promises when a button is held for \<open>k\<close> timer expiries:
  the states its callback gets.\<close>

fun held_calls :: "BUTTON_TYPE \<Rightarrow> nat \<Rightarrow> BUTTON_STATE list" where
  "held_calls SHORT_BUTTON k = []"
| "held_calls LONG_BUTTON k = (if k = 0 then [] else [PRESS])"
| "held_calls SHORT_LONG_BUTTON k = (if k = 0 then [] else [PRESS])"
| "held_calls COMBINED_LONG_BUTTON k = (if k = 0 then [] else [PRESS])"
| "held_calls REPEAT_LONG_BUTTON k = (if k = 0 then [] else PRESS # replicate (k - 1) REPEAT_PRESS)"

fun release_calls :: "BUTTON_TYPE \<Rightarrow> nat \<Rightarrow> BUTTON_STATE list" where
  "release_calls SHORT_BUTTON k = [RELEASE]"
| "release_calls SHORT_LONG_BUTTON k = (if k = 0 then [RELEASE] else [REPEAT_RELEASE])"
| "release_calls f k = (if k = 0 then [] else [RELEASE])"

definition promised :: "button_obj \<Rightarrow> nat \<Rightarrow> (nat \<times> BUTTON_STATE \<times> nat) list" where
  "promised ob k = map (\<lambda>st. (the (cb ob), st, cb_arg ob)) (held_calls (func ob) k @ release_calls (func ob) k)"

text \<open>Pressing the keys \<open>m\<close>, holding them for \<open>k\<close> expiries of the timer, releasing them; \<open>hw\<close> is what
  the hardware would say in the rounds that handle an expiry.\<close>

definition hold :: "u32 \<Rightarrow> nat \<Rightarrow> u32 \<Rightarrow> btn_event list" where
  "hold m k hw = [Signal, Round m] @ concat (replicate k [Expire, Round hw]) @ [Signal, Round 0]"

definition at_rest :: "buttons \<Rightarrow> bool" where
  "at_rest s =
     (btn_inv s \<and> bt_thread s \<and> bt_current s = None \<and> bt_prev s = 0 \<and> bt_sem s = \<lparr>sem_count = 0, sem_max = 1\<rparr> \<and>
      \<not> bt_time_up s \<and> (\<exists>p. bt_timer s = Some \<lparr>tm_active = False, tm_period = p\<rparr>) \<and>
      low_level_get_state (button_impl s) \<and> low_level_wait_semaphore (button_impl s) \<and>
      low_level_release_semaphore (button_impl s))"

definition can_press :: "nat \<Rightarrow> buttons \<Rightarrow> bool" where
  "can_press ob s = (ob \<in> set (bt_head s) \<and> en (bt_objs s ob) \<and> cb (bt_objs s ob) \<noteq> None)"

definition held_state :: "BUTTON_TYPE \<Rightarrow> nat \<Rightarrow> BUTTON_STATE" where
  "held_state f k =
     (if f = SHORT_BUTTON then PRESS
      else if k = 0 then INVALID_STA
      else if f = REPEAT_LONG_BUTTON \<and> k > 1 then REPEAT_PRESS
      else PRESS)"

text \<open>The state in which \<open>ob\<close> has been held for \<open>k\<close> expiries.\<close>

definition held :: "buttons \<Rightarrow> nat \<Rightarrow> nat \<Rightarrow> buttons \<Rightarrow> bool" where
  "held s0 ob k s =
     (static_part s = static_part s0 \<and> bt_current s = Some ob \<and> bt_prev s = id_mask (bt_objs s0 ob) \<and>
      bt_sem s = \<lparr>sem_count = 0, sem_max = 1\<rparr> \<and> \<not> bt_time_up s \<and>
      (\<exists>p. bt_timer s = Some \<lparr>tm_active = (func (bt_objs s0 ob) = REPEAT_LONG_BUTTON \<or>
                                func (bt_objs s0 ob) \<noteq> SHORT_BUTTON \<and> k = 0), tm_period = p\<rparr>) \<and>
      (\<forall>x\<in>set (bt_head s0). st_of s x = (if x = ob then held_state (func (bt_objs s0 ob)) k else INVALID_STA)) \<and>
      bt_calls s = bt_calls s0 @ map (\<lambda>st. (the (cb (bt_objs s0 ob)), st, cb_arg (bt_objs s0 ob)))
                                   (held_calls (func (bt_objs s0 ob)) k))"

lemma find_unique:
  assumes "btn_inv s" "ob \<in> set (bt_head s)"
  shows "get_buttons_obj (id_mask (bt_objs s ob)) s = Some ob"
proof (cases "get_buttons_obj (id_mask (bt_objs s ob)) s")
  case None
  then show ?thesis using assms(2) by (auto simp: get_buttons_obj_None)
next
  case (Some x)
  then have "x \<in> set (bt_head s)" "id_mask (bt_objs s x) = id_mask (bt_objs s ob)"
    by (auto dest: get_buttons_obj_Some)
  then have "x = ob" using assms by (auto simp: btn_inv_def distinct_map dest: inj_onD)
  with Some show ?thesis by simp
qed

lemma mask_nonzero: "btn_inv s \<Longrightarrow> ob \<in> set (bt_head s) \<Longrightarrow> id_mask (bt_objs s ob) \<noteq> 0"
proof
  assume "btn_inv s" "ob \<in> set (bt_head s)" and z: "id_mask (bt_objs s ob) = 0"
  then have "kind_ok (bt_objs s ob)" by (simp add: btn_inv_def)
  then show False using z by (simp add: kind_ok_def split: if_splits)
qed

lemma no_zero_button: "btn_inv s \<Longrightarrow> get_buttons_obj 0 s = None"
  using mask_nonzero [of s] by (simp add: get_buttons_obj_None)

lemma get_buttons_obj_static: "static_part s' = static_part s \<Longrightarrow> get_buttons_obj m s' = get_buttons_obj m s"
proof -
  assume "static_part s' = static_part s"
  note d = static_partD [OF this]
  have "find_button (bt_objs s') m xs = find_button (bt_objs s) m xs" for xs by (induction xs) (auto simp: d)
  then show ?thesis by (simp add: get_buttons_obj_def d)
qed

lemma set_sem_same: "bt_sem s = m \<Longrightarrow> s\<lparr>bt_sem := m\<rparr> = s"
  by simp

lemma btn_run_append: "btn_run e s (xs @ ys) = btn_run e (btn_run e s xs) ys"
  by (simp add: btn_run_def)

text \<open>A signalled round whose semaphore was empty is a round of the thread's body.\<close>

lemma signalled_round:
  assumes "bt_thread s" "low_level_wait_semaphore (button_impl s)" "bt_sem s = \<lparr>sem_count = 0, sem_max = 1\<rparr>"
  shows "btn_run e s [Signal, Round hw] = thread_body e hw s"
proof -
  have e: "s\<lparr>bt_sem := \<lparr>sem_count = 0, sem_max = Suc 0\<rparr>\<rparr> = s"
    by (rule set_sem_same) (use assms(3) in simp)
  show ?thesis using assms
    by (simp add: e btn_run_def release_sem_def buttons_process_thread_def OS_SemaphoreRelease_def OS_SemaphoreWait_def)
qed

lemma expired_round:
  assumes "bt_thread s" "low_level_wait_semaphore (button_impl s)" "low_level_release_semaphore (button_impl s)"
    "bt_sem s = \<lparr>sem_count = 0, sem_max = 1\<rparr>" "bt_timer s = Some \<lparr>tm_active = True, tm_period = p\<rparr>"
  shows "btn_run e s [Expire, Round hw] =
    (button_timer_event e (s\<lparr>bt_timer := Some \<lparr>tm_active = False, tm_period = p\<rparr>, bt_time_up := True\<rparr>))\<lparr>bt_time_up := False\<rparr>"
proof -
  have e: "s\<lparr>bt_timer := x, bt_time_up := True, bt_sem := \<lparr>sem_count = 0, sem_max = Suc 0\<rparr>\<rparr> =
    s\<lparr>bt_timer := x, bt_time_up := True\<rparr>" for x
    by (rule set_sem_same) (use assms(4) in simp)
  show ?thesis using assms
    by (simp add: btn_run_def timer_is_active_def buttons_timer_cb_def timer_cb_release_def timer_cb_flag_def
        timer_dormant_def release_sem_def buttons_process_thread_def OS_SemaphoreRelease_def OS_SemaphoreWait_def
        thread_body_def e)
qed

lemma not_expired_round:
  assumes "bt_thread s" "low_level_wait_semaphore (button_impl s)"
    "bt_sem s = \<lparr>sem_count = 0, sem_max = 1\<rparr>" "bt_timer s = Some \<lparr>tm_active = False, tm_period = p\<rparr>"
  shows "btn_run e s [Expire, Round hw] = s"
  using assms by (simp add: btn_run_def timer_is_active_def buttons_process_thread_def OS_SemaphoreWait_def)

lemma hold_press:
  assumes "at_rest s" "can_press ob s"
  shows "held s ob 0 (btn_run all_env s [Signal, Round (id_mask (bt_objs s ob))])"
proof -
  let ?m = "id_mask (bt_objs s ob)"
  have inv: "btn_inv s" and ob: "ob \<in> set (bt_head s)" and en: "en (bt_objs s ob)"
    using assms by (auto simp: at_rest_def can_press_def)
  obtain p where t: "bt_timer s = Some \<lparr>tm_active = False, tm_period = p\<rparr>" using assms(1) by (auto simp: at_rest_def)
  have g: "get_buttons_obj ?m (s\<lparr>bt_prev := ?m\<rparr>) = Some ob"
    using find_unique [OF inv ob] get_buttons_obj_static [of "s\<lparr>bt_prev := ?m\<rparr>" s] by simp
  have st: "st_of s x = INVALID_STA" if "x \<in> set (bt_head s)" for x
    using assms(1) that by (auto simp: at_rest_def btn_inv_def)
  have run: "btn_run all_env s [Signal, Round ?m] = press_obj all_env ob (s\<lparr>bt_prev := ?m\<rparr>)"
    using assms(1) mask_nonzero [OF inv ob] g by (auto simp: at_rest_def signalled_round thread_body_def)
  show ?thesis
    unfolding run using assms(1) en t st
    by (cases "func (bt_objs s ob)")
      (simp_all add: held_def at_rest_def press_obj_def short_button_press_def long_button_press_def
        short_long_button_press_def repeat_long_button_press_def combined_long_button_press_def take_over_def
        timer_arm_def all_env_def os_timer_defs held_state_def)
qed

lemma hold_expiry:
  assumes "at_rest s0" "can_press ob s0" "held s0 ob k s"
  shows "held s0 ob (Suc k) (btn_run all_env s [Expire, Round hw])"
proof -
  note d = static_partD [of s s0]
  have sp: "static_part s = static_part s0" and ob: "ob \<in> set (bt_head s0)"
    using assms by (auto simp: held_def can_press_def)
  obtain p where t: "bt_timer s = Some \<lparr>tm_active = (func (bt_objs s0 ob) = REPEAT_LONG_BUTTON \<or>
                                func (bt_objs s0 ob) \<noteq> SHORT_BUTTON \<and> k = 0), tm_period = p\<rparr>"
    using assms(3) by (auto simp: held_def)
  have env: "bt_thread s" "low_level_wait_semaphore (button_impl s)" "low_level_release_semaphore (button_impl s)"
    "bt_sem s = \<lparr>sem_count = 0, sem_max = 1\<rparr>"
    using assms(1,3) d [OF sp] by (auto simp: at_rest_def held_def)
  have cb: "cb (bt_objs s0 ob) \<noteq> None" using assms(2) by (simp add: can_press_def)
  have st: "state (bt_objs s ob) = held_state (func (bt_objs s0 ob)) k"
    using assms(3) ob by (simp add: held_def st_of_def)
  show ?thesis
  proof (cases "func (bt_objs s0 ob) = REPEAT_LONG_BUTTON \<or> func (bt_objs s0 ob) \<noteq> SHORT_BUTTON \<and> k = 0")
    case False
    then have "btn_run all_env s [Expire, Round hw] = s"
      using not_expired_round [OF env(1,2,4)] t by simp
    moreover have "held_state (func (bt_objs s0 ob)) (Suc k) = held_state (func (bt_objs s0 ob)) k"
      "held_calls (func (bt_objs s0 ob)) (Suc k) = held_calls (func (bt_objs s0 ob)) k"
      using False by (cases "func (bt_objs s0 ob)"; auto simp: held_state_def)+
    ultimately show ?thesis using assms(3) False by (auto simp: held_def)
  next
    case True
    then have run: "btn_run all_env s [Expire, Round hw] =
       (button_timer_event all_env (s\<lparr>bt_timer := Some \<lparr>tm_active = False, tm_period = p\<rparr>, bt_time_up := True\<rparr>))\<lparr>bt_time_up := False\<rparr>"
      using expired_round [OF env] t by simp
    show ?thesis
      using assms(3) True st cb d [OF sp]
      unfolding run
      by (cases "func (bt_objs s0 ob)"; cases k)
        (auto simp: held_def button_timer_event_def Let_def fire_calls held_state_def timer_arm_def all_env_def
          os_timer_defs replicate_append_same [symmetric]
          simp del: replicate_append_same)
  qed
qed

lemma hold_expiries:
  assumes "at_rest s0" "can_press ob s0" "held s0 ob j s"
  shows "held s0 ob (j + k) (btn_run all_env s (concat (replicate k [Expire, Round hw])))"
  using assms(3)
proof (induction k arbitrary: j s)
  case 0
  then show ?case by (simp add: btn_run_def)
next
  case (Suc k)
  have "held s0 ob (Suc j + k) (btn_run all_env (btn_run all_env s [Expire, Round hw]) (concat (replicate k [Expire, Round hw])))"
    by (rule Suc.IH) (rule hold_expiry [OF assms(1,2) Suc.prems])
  then show ?case by (simp add: btn_run_def)
qed

lemma hold_release:
  assumes "at_rest s0" "can_press ob s0" "held s0 ob k s"
  shows "at_rest (btn_run all_env s [Signal, Round 0]) \<and>
    static_part (btn_run all_env s [Signal, Round 0]) = static_part s0 \<and>
    bt_calls (btn_run all_env s [Signal, Round 0]) = bt_calls s0 @ promised (bt_objs s0 ob) k"
proof -
  note d = static_partD [of s s0]
  have sp: "static_part s = static_part s0" and ob: "ob \<in> set (bt_head s0)" and cb: "cb (bt_objs s0 ob) \<noteq> None"
    and inv0: "btn_inv s0"
    using assms by (auto simp: held_def can_press_def at_rest_def)
  have env: "bt_thread s" "low_level_wait_semaphore (button_impl s)"
    "bt_sem s = \<lparr>sem_count = 0, sem_max = 1\<rparr>" and st: "state (bt_objs s ob) = held_state (func (bt_objs s0 ob)) k"
    using assms(1,3) d [OF sp] ob by (auto simp: at_rest_def held_def st_of_def)
  have inv: "btn_inv s"
    by (rule btn_inv_frame [OF inv0 sp]) (use assms(1,3) ob in \<open>auto simp: held_def at_rest_def\<close>)
  have g: "get_buttons_obj 0 (s\<lparr>bt_prev := 0\<rparr>) = None"
    using no_zero_button [OF inv] get_buttons_obj_static [of "s\<lparr>bt_prev := 0\<rparr>" s] by simp
  have c: "bt_current (s\<lparr>bt_prev := 0\<rparr>) = Some ob" using assms(3) by (simp add: held_def)
  have m: "bt_prev s \<noteq> 0" using assms(3) mask_nonzero [OF inv0 ob] by (simp add: held_def)
  have run: "btn_run all_env s [Signal, Round 0] = release_current_tiggered_obj all_env 0 (s\<lparr>bt_prev := 0\<rparr>)"
    using assms(3) m g c by (simp add: signalled_round [OF env] thread_body_def held_def)
  have inv1: "btn_inv (s\<lparr>bt_prev := 0\<rparr>)" by (rule btn_inv_frame [OF inv]) (use inv in \<open>auto simp: btn_inv_def\<close>)
  let ?s' = "release_current_tiggered_obj all_env 0 (s\<lparr>bt_prev := 0\<rparr>)"
  have sp': "static_part ?s' = static_part s0" using cur_rel.rel_static [OF c] sp by simp
  have f: "func (bt_objs s ob) = func (bt_objs s0 ob)" "cb (bt_objs s ob) = cb (bt_objs s0 ob)"
    "cb_arg (bt_objs s ob) = cb_arg (bt_objs s0 ob)" using d [OF sp] by auto
  have tm: "(\<exists>p. bt_timer ?s' = Some \<lparr>tm_active = False, tm_period = p\<rparr>) \<and> \<not> bt_time_up ?s' \<and>
    bt_calls ?s' = bt_calls s0 @ promised (bt_objs s0 ob) k"
    using assms(3) st cb f
    by (cases "func (bt_objs s0 ob)"; cases k)
      (auto simp: release_current_tiggered_obj_def held_def release_defs Let_def fire_calls held_state_def
        timer_stop_def all_env_def os_timer_defs timer_is_active_def promised_def ALL_BUTTONS_RELEASE_def)
  have "at_rest ?s'"
    using ready_inv [OF cur_rel.rel_ready [OF inv1 c]] tm assms(1,3) static_partD [OF sp'] cur_rel.rel_current [OF c]
      cur_rel.rel_prev [OF c] cur_rel.rel_sem [OF c]
    by (simp add: at_rest_def held_def)
  then show ?thesis using tm sp' by (simp add: run)
qed

lemma hold_once:
  assumes "at_rest s" "can_press ob s" and s': "s' = btn_run all_env s (hold (id_mask (bt_objs s ob)) k hw)"
  shows "at_rest s' \<and> static_part s' = static_part s \<and> bt_calls s' = bt_calls s @ promised (bt_objs s ob) k"
proof -
  have "held s ob (0 + k) (btn_run all_env (btn_run all_env s [Signal, Round (id_mask (bt_objs s ob))])
      (concat (replicate k [Expire, Round hw])))"
    by (rule hold_expiries [OF assms(1,2) hold_press [OF assms(1,2)]])
  from hold_release [OF assms(1,2) this] show ?thesis by (simp add: s' hold_def btn_run_def)
qed

text \<open>
  C14: From rest, any sequence of holds of enabled buttons (each pressed, held for any number of timer
  expiries, released) makes exactly the callbacks the documentation of the kinds promises, in order,
  and leaves the module at rest: a short button reports its release, a long one press and release once
  held long enough, a short-long one tells the two apart, a repeat one repeats its press.
\<close>

theorem holds_report_promised:
  assumes "at_rest s" and "list_all (\<lambda>(ob, k, hw). can_press ob s) hs"
    and s': "s' = btn_run all_env s (concat (map (\<lambda>(ob, k, hw). hold (id_mask (bt_objs s ob)) k hw) hs))"
  shows "at_rest s' \<and> bt_calls s' = bt_calls s @ concat (map (\<lambda>(ob, k, hw). promised (bt_objs s ob) k) hs)"
  using assms
proof (induction hs arbitrary: s)
  case Nil
  then show ?case by (simp add: btn_run_def)
next
  case (Cons h hs)
  obtain ob k hw where h: "h = (ob, k, hw)" by (cases h)
  let ?s1 = "btn_run all_env s (hold (id_mask (bt_objs s ob)) k hw)"
  have one: "at_rest ?s1" "static_part ?s1 = static_part s" "bt_calls ?s1 = bt_calls s @ promised (bt_objs s ob) k"
    using hold_once [OF Cons.prems(1) _ refl] Cons.prems(2) by (auto simp: h)
  note d = static_partD [OF one(2)]
  have "list_all (\<lambda>(ob, k, hw). can_press ob ?s1) hs" using Cons.prems(2) by (simp add: h can_press_def d)
  moreover have "s' = btn_run all_env ?s1 (concat (map (\<lambda>(ob, k, hw). hold (id_mask (bt_objs ?s1 ob)) k hw) hs))"
    using Cons.prems(3) by (simp add: h btn_run_append d)
  ultimately have "at_rest s' \<and> bt_calls s' = bt_calls ?s1 @ concat (map (\<lambda>(ob, k, hw). promised (bt_objs ?s1 ob) k) hs)"
    by (rule Cons.IH [OF one(1)])
  then show ?case by (simp add: h one(3) promised_def d)
qed

definition demo_obj :: "BUTTON_TYPE \<Rightarrow> u32 \<Rightarrow> button_obj" where
  "demo_obj f m = \<lparr>id_mask = m, repeat_timeout_ms = 200, timeout_ms = 500, en = True, func = f,
     state = INVALID_STA, cb = Some 7, cb_arg = 9\<rparr>"

text \<open>A module with a short, a repeat, a long and a combined button.\<close>

definition demo :: buttons where
  "demo = booted\<lparr>bt_objs := (\<lambda>x. if x = 1 then demo_obj SHORT_BUTTON 2 else if x = 2 then demo_obj REPEAT_LONG_BUTTON 4
       else if x = 3 then demo_obj LONG_BUTTON 8 else demo_obj COMBINED_LONG_BUTTON 6), bt_head := [1, 2, 3, 4]\<rparr>"

lemma bits_count: "card {n. bit (m :: u32) n} = count_loop m 0"
  by (simp add: count_loop_card)

lemma demo_rest: "at_rest demo"
proof -
  have inv: "btn_inv demo"
    unfolding btn_inv_def kind_ok_def bits_count
    by (auto simp: demo_def booted_def buttons_init_def boot_def all_impl_def demo_obj_def Let_def st_of_def
        sem_wf_def count_one split: if_splits)
  then show ?thesis
    by (auto simp: at_rest_def demo_def booted_def buttons_init_def boot_def all_impl_def Let_def)
qed

lemma demo_head: "bt_head demo = [1, 2, 3, 4]"
  by (simp add: demo_def)

lemma demo_objs: "bt_objs demo (Suc 0) = demo_obj SHORT_BUTTON 2" "bt_objs demo 2 = demo_obj REPEAT_LONG_BUTTON 4"
  "bt_objs demo 3 = demo_obj LONG_BUTTON 8" "bt_objs demo 4 = demo_obj COMBINED_LONG_BUTTON 6"
  by (simp_all add: demo_def)

lemma demo_calls: "bt_calls demo = []"
  by (simp add: demo_def booted_def buttons_init_def boot_def Let_def all_impl_def)

lemma demo_can: "can_press (Suc 0) demo" "can_press 2 demo" "can_press 3 demo" "can_press 4 demo"
  by (simp_all add: can_press_def demo_head demo_objs demo_obj_def)

lemma replicate_two: "replicate 2 x = [x, x]"
  by (simp add: numeral_2_eq_2)

theorem holds_report_promised_witness:
  "bt_calls (btn_run all_env demo (concat (map (\<lambda>(ob, k, hw). hold (id_mask (bt_objs demo ob)) k hw)
      [(1, 0, 0), (2, 3, 4), (3, 0, 0), (4, 1, 6)]))) =
   [(7, RELEASE, 9), (7, PRESS, 9), (7, REPEAT_PRESS, 9), (7, REPEAT_PRESS, 9), (7, RELEASE, 9), (7, PRESS, 9), (7, RELEASE, 9)]"
  using holds_report_promised [OF demo_rest _ refl, of "[(1, 0, 0), (2, 3, 4), (3, 0, 0), (4, 1, 6)]"]
  by (simp add: demo_can demo_calls promised_def demo_objs demo_obj_def replicate_two)

section \<open>Interrupted presses\<close>

text \<open>A press that was interrupted: the object stays current, idle, its timer stopped.\<close>

definition interrupted :: "buttons \<Rightarrow> nat \<Rightarrow> buttons \<Rightarrow> bool" where
  "interrupted s0 ob s =
     (static_part s = static_part s0 \<and> bt_current s = Some ob \<and> bt_prev s \<noteq> 0 \<and>
      bt_sem s = \<lparr>sem_count = 0, sem_max = 1\<rparr> \<and> \<not> bt_time_up s \<and>
      (\<exists>p. bt_timer s = Some \<lparr>tm_active = False, tm_period = p\<rparr>) \<and>
      (\<forall>x\<in>set (bt_head s0). st_of s x = INVALID_STA) \<and> bt_calls s = bt_calls s0)"

definition no_combined :: "buttons \<Rightarrow> u32 \<Rightarrow> bool" where
  "no_combined s m =
     (case get_buttons_obj m s of None \<Rightarrow> True | Some x \<Rightarrow> func (bt_objs s x) \<noteq> COMBINED_LONG_BUTTON)"

lemma current_blocks_press:
  assumes "bt_current s = Some c" "func (bt_objs s ob) \<noteq> COMBINED_LONG_BUTTON"
  shows "press_obj e ob s = s"
  using assms by (cases "func (bt_objs s ob)")
    (simp_all add: press_obj_def short_button_press_def long_button_press_def short_long_button_press_def
      repeat_long_button_press_def)

text \<open>One change of the keys to another non-zero state, from a press or from an interrupted one.\<close>

lemma change_interrupts:
  assumes "at_rest s0" "ob \<in> set (bt_head s0)" and sp: "static_part s = static_part s0"
    and cur: "bt_current s = Some ob" and sem: "bt_sem s = \<lparr>sem_count = 0, sem_max = 1\<rparr>" and up: "\<not> bt_time_up s"
    and tm: "bt_timer s = Some \<lparr>tm_active = a, tm_period = p\<rparr>"
    and st: "\<forall>x\<in>set (bt_head s0). x \<noteq> ob \<longrightarrow> st_of s x = INVALID_STA"
    and quiet: "func (bt_objs s0 ob) = SHORT_BUTTON \<and> \<not> a \<or> st_of s ob = INVALID_STA \<and> (a \<longrightarrow> func (bt_objs s0 ob) \<noteq> SHORT_LONG_BUTTON)"
    and w: "w \<noteq> 0" "w \<noteq> bt_prev s" "no_combined s0 w" and short: "a \<longrightarrow> func (bt_objs s0 ob) \<noteq> SHORT_BUTTON"
    and calls: "bt_calls s = bt_calls s0"
  shows "interrupted s0 ob (btn_run all_env s [Signal, Round w])"
proof -
  note d = static_partD [OF sp]
  have env: "bt_thread s" "low_level_wait_semaphore (button_impl s)" "low_level_get_state (button_impl s)"
    using assms(1) by (auto simp: at_rest_def d)
  let ?s1 = "s\<lparr>bt_prev := w\<rparr>"
  let ?r = "release_current_tiggered_obj all_env w ?s1"
  have c: "bt_current ?s1 = Some ob" using cur by simp
  have spr: "static_part ?r = static_part s0" using cur_rel.rel_static [OF c] sp by simp
  have g: "get_buttons_obj w ?s1 = get_buttons_obj w s0"
    using get_buttons_obj_static [of ?s1 s0] sp by simp
  have cr: "bt_current ?r = Some ob" using cur_rel.rel_partial [OF c w(1)] .
  have "(case get_buttons_obj w s0 of None \<Rightarrow> ?r | Some x \<Rightarrow> press_obj all_env x ?r) = ?r"
    using w(3) current_blocks_press [OF cr] static_partD(5) [OF spr]
    by (auto simp: no_combined_def split: option.splits)
  then have run: "btn_run all_env s [Signal, Round w] = ?r"
    using env w(2) up cur by (simp add: signalled_round [OF env(1,2) sem] thread_body_def g)
  have f: "func (bt_objs s ob) = func (bt_objs s0 ob)" by (simp add: d)
  have "(\<exists>p. bt_timer ?r = Some \<lparr>tm_active = False, tm_period = p\<rparr>) \<and> \<not> bt_time_up ?r \<and> bt_calls ?r = bt_calls s"
    using cur tm up quiet short w(1) f
    by (cases "func (bt_objs s0 ob)"; cases a)
      (auto simp: release_current_tiggered_obj_def release_defs Let_def fire_calls timer_stop_def all_env_def
        os_timer_defs timer_is_active_def ALL_BUTTONS_RELEASE_def st_of_def end_release_def set_state_def)
  then show ?thesis
    using spr cr cur_rel.rel_prev [OF c, of all_env w] cur_rel.rel_sem [OF c, of all_env w]
      cur_rel.rel_state [OF c, of all_env w] sem w(1) st calls
    by (auto simp: run interrupted_def)
qed

lemma same_keys_round:
  assumes "bt_thread s" "low_level_wait_semaphore (button_impl s)" "low_level_get_state (button_impl s)"
    "bt_sem s = \<lparr>sem_count = 0, sem_max = 1\<rparr>" "\<not> bt_time_up s"
  shows "btn_run e s [Signal, Round (bt_prev s)] = s"
  using assms by (simp add: signalled_round thread_body_def)

lemma interrupted_stays:
  assumes "at_rest s0" "ob \<in> set (bt_head s0)" "interrupted s0 ob s" "w \<noteq> 0" "no_combined s0 w"
  shows "interrupted s0 ob (btn_run all_env s [Signal, Round w])"
proof (cases "w = bt_prev s")
  case True
  have "bt_thread s" "low_level_wait_semaphore (button_impl s)" "low_level_get_state (button_impl s)"
    using assms(1,3) static_partD [of s s0] by (auto simp: at_rest_def interrupted_def)
  then show ?thesis
    using assms(3) same_keys_round [of s all_env] True by (simp add: interrupted_def)
next
  case False
  obtain p where t: "bt_timer s = Some \<lparr>tm_active = False, tm_period = p\<rparr>" using assms(3) by (auto simp: interrupted_def)
  show ?thesis
    by (rule change_interrupts [OF assms(1,2) _ _ _ _ t]) (use assms False in \<open>auto simp: interrupted_def\<close>)
qed

lemma interrupted_many:
  assumes "at_rest s0" "ob \<in> set (bt_head s0)" "interrupted s0 ob s" "list_all (\<lambda>w. w \<noteq> 0 \<and> no_combined s0 w) ws"
  shows "interrupted s0 ob (btn_run all_env s (concat (map (\<lambda>w. [Signal, Round w]) ws)))"
  using assms(3,4)
proof (induction ws arbitrary: s)
  case Nil
  then show ?case by (simp add: btn_run_def)
next
  case (Cons w ws)
  have "interrupted s0 ob (btn_run all_env s [Signal, Round w])"
    by (rule interrupted_stays [OF assms(1,2) Cons.prems(1)]) (use Cons.prems(2) in auto)
  from Cons.IH [OF this] Cons.prems(2) show ?case
    using btn_run_append [of all_env s "[Signal, Round w]" "concat (map (\<lambda>w. [Signal, Round w]) ws)"] by simp
qed

lemma interrupted_release:
  assumes "at_rest s0" "ob \<in> set (bt_head s0)" "interrupted s0 ob s"
  shows "at_rest (btn_run all_env s [Signal, Round 0]) \<and> bt_calls (btn_run all_env s [Signal, Round 0]) = bt_calls s0"
proof -
  note d = static_partD [of s s0]
  have sp: "static_part s = static_part s0" and inv0: "btn_inv s0" using assms by (auto simp: interrupted_def at_rest_def)
  have env: "bt_thread s" "low_level_wait_semaphore (button_impl s)" "bt_sem s = \<lparr>sem_count = 0, sem_max = 1\<rparr>"
    using assms(1,3) d [OF sp] by (auto simp: at_rest_def interrupted_def)
  have st: "state (bt_objs s ob) = INVALID_STA" using assms by (simp add: interrupted_def st_of_def)
  have inv: "btn_inv s"
    by (rule btn_inv_frame [OF inv0 sp]) (use assms in \<open>auto simp: interrupted_def at_rest_def\<close>)
  have inv1: "btn_inv (s\<lparr>bt_prev := 0\<rparr>)" by (rule btn_inv_frame [OF inv]) (use inv in \<open>auto simp: btn_inv_def\<close>)
  have g: "get_buttons_obj 0 (s\<lparr>bt_prev := 0\<rparr>) = None"
    using no_zero_button [OF inv] get_buttons_obj_static [of "s\<lparr>bt_prev := 0\<rparr>" s] by simp
  have c: "bt_current (s\<lparr>bt_prev := 0\<rparr>) = Some ob" using assms(3) by (simp add: interrupted_def)
  let ?s' = "release_current_tiggered_obj all_env 0 (s\<lparr>bt_prev := 0\<rparr>)"
  have run: "btn_run all_env s [Signal, Round 0] = ?s'"
    using assms(3) g c by (simp add: signalled_round [OF env] thread_body_def interrupted_def)
  have sp': "static_part ?s' = static_part s0" using cur_rel.rel_static [OF c] sp by simp
  have "(\<exists>p. bt_timer ?s' = Some \<lparr>tm_active = False, tm_period = p\<rparr>) \<and> \<not> bt_time_up ?s' \<and> bt_calls ?s' = bt_calls s0"
    using assms(3) st
    by (cases "func (bt_objs s ob)")
      (auto simp: release_current_tiggered_obj_def interrupted_def release_defs Let_def timer_stop_def all_env_def
        os_timer_defs timer_is_active_def end_release_def set_state_def)
  then show ?thesis
    using ready_inv [OF cur_rel.rel_ready [OF inv1 c]] assms(1,3) static_partD [OF sp'] cur_rel.rel_current [OF c]
      cur_rel.rel_prev [OF c] cur_rel.rel_sem [OF c]
    by (simp add: run at_rest_def interrupted_def)
qed


lemma demo_no_combined: "no_combined demo 12" "no_combined demo 8"
  by (simp_all add: no_combined_def get_buttons_obj_def demo_head demo_def demo_obj_def)


section \<open>One semaphore for two causes\<close>

lemma second_signal_lost:
  assumes "low_level_release_semaphore (button_impl s)" "bt_sem s = \<lparr>sem_count = 0, sem_max = 1\<rparr>"
    "bt_timer s = Some \<lparr>tm_active = True, tm_period = p\<rparr>"
  shows "btn_run e s [Expire, Signal, Round hw] = btn_run e s [Expire, Round hw]"
proof -
  have swap: "t\<lparr>bt_sem := a, bt_time_up := b\<rparr> = t\<lparr>bt_time_up := b, bt_sem := a\<rparr>" for t :: buttons and a b
    by simp
  show ?thesis using assms
    by (simp add: btn_run_def timer_is_active_def buttons_timer_cb_def timer_cb_release_def
        timer_cb_flag_def timer_dormant_def release_sem_def OS_SemaphoreRelease_def swap)
qed

text \<open>
  C33: The timer and the keys share one binary semaphore. When a long press expires and the keys are
  released before the thread runs, the second signal is lost: the one round that follows handles the
  time-out only (the callback gets PRESS), and every later round stays blocked, so the release is not
  reported until the keys change again.
\<close>

theorem release_lost_at_timeout:
  assumes "at_rest s" "can_press ob s" "func (bt_objs s ob) = LONG_BUTTON"
    and s': "s' = btn_run all_env s [Signal, Round (id_mask (bt_objs s ob)), Expire, Signal, Round 0]"
  shows "bt_calls s' = bt_calls s @ [(the (cb (bt_objs s ob)), PRESS, cb_arg (bt_objs s ob))] \<and>
    bt_current s' = Some ob \<and> st_of s' ob = PRESS \<and> btn_run all_env s' (map Round hws) = s'"
proof -
  let ?h = "btn_run all_env s [Signal, Round (id_mask (bt_objs s ob))]"
  have h: "held s ob 0 ?h" by (rule hold_press [OF assms(1,2)])
  then have sp: "static_part ?h = static_part s" by (simp add: held_def)
  note d = static_partD [OF sp]
  have env: "bt_thread ?h" "low_level_wait_semaphore (button_impl ?h)" "low_level_release_semaphore (button_impl ?h)"
    "bt_sem ?h = \<lparr>sem_count = 0, sem_max = 1\<rparr>" using assms(1) h by (auto simp: at_rest_def held_def d)
  obtain p where t: "bt_timer ?h = Some \<lparr>tm_active = True, tm_period = p\<rparr>"
    using h assms(3) by (auto simp: held_def)
  have "btn_run all_env ?h [Expire, Signal, Round 0] = btn_run all_env ?h [Expire, Round 0]"
    by (rule second_signal_lost [OF env(3,4) t])
  then have s'_eq: "s' = btn_run all_env ?h [Expire, Round 0]"
    unfolding s' using btn_run_append [of all_env s "[Signal, Round (id_mask (bt_objs s ob))]" "[Expire, Signal, Round 0]"]
    by simp
  have k1: "held s ob 1 s'"
    unfolding s'_eq using hold_expiry [OF assms(1,2) h] by simp
  have ob: "ob \<in> set (bt_head s)" using assms(2) by (simp add: can_press_def)
  have env': "low_level_wait_semaphore (button_impl s')" "bt_sem s' = \<lparr>sem_count = 0, sem_max = 1\<rparr>"
    using k1 assms(1) static_partD(2) [of s' s] by (auto simp: held_def at_rest_def)
  have blocked: "btn_step all_env s' (Round hw) = s'" for hw
    using env' by (simp add: buttons_process_thread_def OS_SemaphoreWait_def)
  have "btn_run all_env s' (map Round hws) = s'"
    by (induction hws) (simp_all add: btn_run_def blocked del: btn_step.simps)
  then show ?thesis using k1 ob assms(3) by (simp add: held_def held_state_def)
qed

theorem release_lost_at_timeout_witness:
  "bt_calls (btn_run all_env demo [Signal, Round (id_mask (bt_objs demo 3)), Expire, Signal, Round 0]) = [(7, PRESS, 9)]"
  using release_lost_at_timeout [OF demo_rest demo_can(3) _ refl]
  by (simp add: demo_calls demo_objs demo_obj_def)

text \<open>Destroying the object that is being pressed is refused; deinit of a module whose list is empty
  reports success and does nothing, so the thread and the timer that init made stay.
\<close>

lemma destroy_and_deinit_edges:
  "button_destroy ob (s\<lparr>bt_current := Some ob\<rparr>) = (-1, s\<lparr>bt_current := Some ob\<rparr>) \<and>
   buttons_deinit e hw (snd (buttons_init 0 OS_OK True (Some im) s)) =
     (0, snd (buttons_init 0 OS_OK True (Some im) s)) \<and>
   bt_thread (snd (buttons_init 0 OS_OK True (Some im) s)) \<and>
   bt_timer (snd (buttons_init 0 OS_OK True (Some im) s)) \<noteq> None"
  by (simp add: button_destroy_def buttons_deinit_def buttons_init_def Let_def)

end
