(* ===== verification/Mbuf.thy ===== *)
theory Mbuf
  imports Prelude
begin

text \<open>
  The packet buffers of src/sys/mbuf/mbuf_0.c (with include/sys/mbuf_0.h): allocation with head and
  tail room, trimming, appending, splitting, duplicating, and the limits on the memory that TX and RX
  buffers may take. A buffer is one block: the 48 byte header and the data area \<open>m_buf\<close>; \<open>m_data\<close> is
  an offset into it. The sums of memory are kept at their 32 bits, head and tail room at their 16.
\<close>

unbundle bit_operations_syntax

section \<open>State\<close>

record pkthdr =
  rcvif :: nat
  pkt_len :: int
  PH_per :: "u8 list"
  m_cb :: "nat \<times> nat"

record mbuf =
  m_buf :: "u8 list"
  m_nextpkt :: "nat option"
  m_data :: int
  m_len :: int
  m_headspace :: u16
  m_tailspace :: u16
  m_type :: u8
  m_flags :: u32
  m_pkthdr :: pkthdr

definition MBUF_SIZE :: int where "MBUF_SIZE = 48"
definition MBUF_HEAD_SPACE :: nat where "MBUF_HEAD_SPACE = 68"
definition MBUF_TAIL_SPACE :: nat where "MBUF_TAIL_SPACE = 16"
definition MBUF_GET_FLAG_MASK :: u32 where "MBUF_GET_FLAG_MASK = 0xF0"
definition MBUF_GET_FLAG_LIMIT_TX :: u8 where "MBUF_GET_FLAG_LIMIT_TX = 0x10"
definition MBUF_GET_FLAG_LIMIT_RX :: u8 where "MBUF_GET_FLAG_LIMIT_RX = 0x20"
definition M_PKTHDR :: u32 where "M_PKTHDR = 2"
definition M_PROTOFLAGS :: u32 where "M_PROTOFLAGS = 0xFFF000"
definition M_COPYFLAGS :: u32 where
  "M_COPYFLAGS = M_PKTHDR OR 0x4 OR 0x8 OR 0x10 OR 0x20 OR 0x80 OR 0x40 OR M_PROTOFLAGS"

text \<open>The limits, the sums, and the buffers that are allocated, by address.\<close>

record mb_mem =
  tx_mem_max :: u32
  rx_mem_max :: u32
  txrx_mem_max :: u32
  m_tx_mem_sum :: u32
  m_rx_mem_sum :: u32
  m_txrx_mem_sum :: u32
  mbufs :: "nat \<Rightarrow> mbuf option"

section \<open>Limits\<close>

text \<open>The comparison with a limit is one of unsigned words, as C makes it.\<close>

definition over_limit :: "u32 \<Rightarrow> u32 \<Rightarrow> bool" where
  "over_limit mx sm = (mx > 0 \<and> sm > mx)"

definition mb_limit_mem_inc :: "u8 \<Rightarrow> u32 \<Rightarrow> mb_mem \<Rightarrow> bool \<times> mb_mem" where
  "mb_limit_mem_inc flag len s =
     (if over_limit (txrx_mem_max s) (m_txrx_mem_sum s + len) then (False, s)
      else if flag AND MBUF_GET_FLAG_LIMIT_TX \<noteq> 0 \<and> over_limit (tx_mem_max s) (m_tx_mem_sum s + len) then (False, s)
      else (let s1 = (if flag AND MBUF_GET_FLAG_LIMIT_TX \<noteq> 0
                      then s\<lparr>m_tx_mem_sum := m_tx_mem_sum s + len\<rparr> else s)
            in if flag AND MBUF_GET_FLAG_LIMIT_RX \<noteq> 0 \<and> over_limit (rx_mem_max s1) (m_rx_mem_sum s1 + len)
               then (False, s1)
               else (let s2 = (if flag AND MBUF_GET_FLAG_LIMIT_RX \<noteq> 0
                               then s1\<lparr>m_rx_mem_sum := m_rx_mem_sum s1 + len\<rparr> else s1)
                     in (True, s2\<lparr>m_txrx_mem_sum := m_txrx_mem_sum s2 + len\<rparr>))))"

definition mb_limit_mem_dec :: "u8 \<Rightarrow> u32 \<Rightarrow> mb_mem \<Rightarrow> mb_mem" where
  "mb_limit_mem_dec flag len s =
     (let s1 = s\<lparr>m_txrx_mem_sum := m_txrx_mem_sum s - len\<rparr>;
          s2 = (if flag AND MBUF_GET_FLAG_LIMIT_TX \<noteq> 0 then s1\<lparr>m_tx_mem_sum := m_tx_mem_sum s1 - len\<rparr> else s1)
      in if flag AND MBUF_GET_FLAG_LIMIT_RX \<noteq> 0 then s2\<lparr>m_rx_mem_sum := m_rx_mem_sum s2 - len\<rparr> else s2)"

definition mb_mem_set_limit :: "u32 \<Rightarrow> u32 \<Rightarrow> u32 \<Rightarrow> mb_mem \<Rightarrow> mb_mem" where
  "mb_mem_set_limit tx rx txrx s = s\<lparr>tx_mem_max := tx, rx_mem_max := rx, txrx_mem_max := txrx\<rparr>"

definition mb_mem_get_limit :: "mb_mem \<Rightarrow> u32 \<times> u32 \<times> u32" where
  "mb_mem_get_limit s = (tx_mem_max s, rx_mem_max s, txrx_mem_max s)"

section \<open>Allocation\<close>

text \<open>
  \<open>malloc_res\<close>: the address malloc answers and what the new memory holds. The flag bits of \<open>tx\<close>
  choose the limits, bit 0 the head and tail room.
\<close>

definition mb_get :: "(nat \<times> (nat \<Rightarrow> u8)) option \<Rightarrow> int \<Rightarrow> u32 \<Rightarrow> mb_mem \<Rightarrow> nat option \<times> mb_mem" where
  "mb_get malloc_res len tx s =
     (if len < 0 then (None, s)
      else (let flag = ucast (tx AND MBUF_GET_FLAG_MASK) :: u8;
                room = (tx AND 1 \<noteq> 0);
                hs = (if room then MBUF_HEAD_SPACE else 0);
                ts = (if room then MBUF_TAIL_SPACE else 0);
                tot_len = MBUF_SIZE + len + int hs + int ts;
                r = (if flag \<noteq> 0 then mb_limit_mem_inc flag (word_of_int tot_len) s else (True, s))
            in if \<not> fst r then (None, snd r)
               else case malloc_res of
                      Some (p, junk) \<Rightarrow>
                        (Some p, (snd r)\<lparr>mbufs := (mbufs (snd r))(p \<mapsto>
                           \<lparr>m_buf = map junk [0..<nat (len + int hs + int ts)], m_nextpkt = None, m_data = int hs,
                            m_len = len, m_headspace = of_nat hs, m_tailspace = of_nat ts, m_type = flag,
                            m_flags = M_PKTHDR,
                            m_pkthdr = \<lparr>rcvif = 0, pkt_len = len, PH_per = replicate 8 0, m_cb = (0, 0)\<rparr>\<rparr>)\<rparr>)
                    | None \<Rightarrow>
                        (None, if flag \<noteq> 0 then mb_limit_mem_dec flag (word_of_int tot_len) (snd r) else snd r)))"

text \<open>The size mb_free gives back: header, data and room as the header says now.\<close>

definition mbuf_total :: "mbuf \<Rightarrow> int" where
  "mbuf_total m = MBUF_SIZE + m_len m + uint (m_headspace m) + uint (m_tailspace m)"

definition limit_flag :: "mbuf \<Rightarrow> u8" where
  "limit_flag m = ucast ((ucast (m_type m) :: u32) AND MBUF_GET_FLAG_MASK)"

text \<open>A pointer to memory that was freed is outside C; the call is then left out.\<close>

definition mb_free :: "nat option \<Rightarrow> mb_mem \<Rightarrow> mb_mem" where
  "mb_free p s =
     (case p of
        None \<Rightarrow> s
      | Some a \<Rightarrow>
          (case mbufs s a of
             None \<Rightarrow> s
           | Some m \<Rightarrow>
               (let s1 = (if limit_flag m \<noteq> 0 then mb_limit_mem_dec (limit_flag m) (word_of_int (mbuf_total m)) s else s)
                in s1\<lparr>mbufs := (mbufs s1)(a := None)\<rparr>)))"

section \<open>Operations on one buffer\<close>

definition mb_adj_head :: "mbuf \<Rightarrow> int \<Rightarrow> mbuf" where
  "mb_adj_head m increment =
     m\<lparr>m_headspace := m_headspace m - word_of_int increment, m_data := m_data m - increment,
       m_len := m_len m + increment, m_pkthdr := (m_pkthdr m)\<lparr>pkt_len := pkt_len (m_pkthdr m) + increment\<rparr>\<rparr>"

definition mb_adj_tail :: "mbuf \<Rightarrow> int \<Rightarrow> mbuf" where
  "mb_adj_tail m increment =
     m\<lparr>m_tailspace := m_tailspace m - word_of_int increment,
       m_len := m_len m + increment, m_pkthdr := (m_pkthdr m)\<lparr>pkt_len := pkt_len (m_pkthdr m) + increment\<rparr>\<rparr>"

definition mb_pkthdr_init :: "mbuf \<Rightarrow> mbuf \<Rightarrow> int \<Rightarrow> mbuf" where
  "mb_pkthdr_init d s pktlen =
     d\<lparr>m_flags := (m_flags s AND M_COPYFLAGS) OR M_PKTHDR, m_pkthdr := (m_pkthdr s)\<lparr>pkt_len := pktlen\<rparr>\<rparr>"

definition mb_adj :: "mbuf \<Rightarrow> int \<Rightarrow> int \<times> mbuf" where
  "mb_adj m req_len =
     (if req_len \<ge> 0
      then if req_len > m_len m then (-1, m) else (0, mb_adj_head m (- req_len))
      else if - req_len > m_len m then (-1, m) else (0, mb_adj_tail m (- (- req_len))))"

text \<open>\<open>MB_PREPEND\<close>: None when the buffer is freed for want of room.\<close>

definition MB_PREPEND :: "mbuf \<Rightarrow> int \<Rightarrow> mbuf option" where
  "MB_PREPEND m plen = (if plen \<ge> 0 \<and> uint (m_headspace m) \<ge> plen then Some (mb_adj_head m plen) else None)"

text \<open>
  \<open>memcpy(dst, src, n)\<close> out of the data area: a negative count is a huge size_t, and such a copy or
  one that leaves the area is undefined: None.
\<close>

definition bytes_at :: "mbuf \<Rightarrow> int \<Rightarrow> int \<Rightarrow> u8 list option" where
  "bytes_at m off n =
     (if 0 \<le> n \<and> 0 \<le> off \<and> off + n \<le> int (length (m_buf m))
      then Some (take (nat n) (drop (nat off) (m_buf m))) else None)"

definition mb_copydata :: "mbuf \<Rightarrow> int \<Rightarrow> int \<Rightarrow> (int \<times> u8 list) option" where
  "mb_copydata m off len =
     (if off < 0 \<or> len \<le> 0 then Some (0, [])
      else (let copy_len = (if m_len m - off > len then len else m_len m - off)
            in map_option (Pair copy_len) (bytes_at m (m_data m + off) copy_len)))"

text \<open>\<open>mb_append\<close>: \<open>cp\<close> is the data to copy, if the pointer is not NULL.\<close>

definition mb_append :: "mbuf \<Rightarrow> int \<Rightarrow> u8 list option \<Rightarrow> (int \<times> mbuf) option" where
  "mb_append m len cp =
     (if len > uint (m_tailspace m) then Some (0, m)
      else (let m1 = mb_adj_tail m len
            in case cp of
                 None \<Rightarrow> Some (1, m1)
               | Some bs \<Rightarrow>
                   if len < 0 \<or> nat len > length bs then None
                   else Some (1, m1\<lparr>m_buf := list_write (m_buf m1) (nat (m_data m + m_len m)) (take (nat len) bs)\<rparr>)))"

definition mb_reserve :: "mbuf \<Rightarrow> int \<Rightarrow> u16 \<Rightarrow> u16 \<Rightarrow> int \<times> mbuf" where
  "mb_reserve m len headspace tailspace =
     (let buf_end = m_data m + m_len m + uint (m_tailspace m);
          buf_len = uint (m_headspace m) + m_len m + uint (m_tailspace m)
      in if buf_len < uint headspace + len + uint tailspace then (-1, m)
         else (0, m\<lparr>m_tailspace := tailspace, m_len := len, m_pkthdr := (m_pkthdr m)\<lparr>pkt_len := len\<rparr>,
                    m_data := buf_end - uint tailspace - len,
                    m_headspace := word_of_int (buf_len - uint tailspace - len)\<rparr>))"

definition m_clrprotoflags :: "mbuf \<Rightarrow> mbuf" where
  "m_clrprotoflags m = m\<lparr>m_flags := m_flags m AND NOT M_PROTOFLAGS\<rparr>"

section \<open>Operations on the pool of buffers\<close>

definition mb_pullup :: "nat \<Rightarrow> int \<Rightarrow> mb_mem \<Rightarrow> nat option \<times> mb_mem" where
  "mb_pullup a len s =
     (case mbufs s a of
        None \<Rightarrow> (None, s)
      | Some m \<Rightarrow> if m_len m < len then (None, mb_free (Some a) s) else (Some a, s))"

definition mb_dup :: "(nat \<times> (nat \<Rightarrow> u8)) option \<Rightarrow> nat option \<Rightarrow> mb_mem \<Rightarrow> nat option \<times> mb_mem" where
  "mb_dup malloc_res p s =
     (case Option.bind p (mbufs s) of
        None \<Rightarrow> (None, s)
      | Some m \<Rightarrow>
          (let headspace = uint (m_headspace m); tailspace = uint (m_tailspace m)
           in case mb_get malloc_res (m_len m + headspace + tailspace) (ucast MBUF_GET_FLAG_LIMIT_RX) s of
                (None, s1) \<Rightarrow> (None, s1)
              | (Some q, s1) \<Rightarrow>
                  (case mbufs s1 q of
                     None \<Rightarrow> (None, s1)
                   | Some nm \<Rightarrow>
                       (let nm1 = mb_adj_tail (mb_adj_head nm (- headspace)) (- tailspace);
                            data = take (nat (m_len m)) (drop (nat (m_data m)) (m_buf m));
                            nm2 = nm1\<lparr>m_buf := list_write (m_buf nm1) (nat (m_data nm1)) data\<rparr>
                        in (Some q, s1\<lparr>mbufs := (mbufs s1)(q \<mapsto> mb_pkthdr_init nm2 m (m_len m))\<rparr>)))))"

definition mb_create :: "(nat \<times> (nat \<Rightarrow> u8)) option \<Rightarrow> u8 list option \<Rightarrow> int \<Rightarrow> u32 \<Rightarrow> mb_mem \<Rightarrow> nat option \<times> mb_mem" where
  "mb_create malloc_res data len tx s =
     (case mb_get malloc_res len tx s of
        (None, s1) \<Rightarrow> (None, s1)
      | (Some q, s1) \<Rightarrow>
          (case (mbufs s1 q, data) of
             (Some m, Some bs) \<Rightarrow>
               (Some q, s1\<lparr>mbufs := (mbufs s1)(q \<mapsto> m\<lparr>m_buf := list_write (m_buf m) (nat (m_data m)) (take (nat len) bs)\<rparr>)\<rparr>)
           | _ \<Rightarrow> (Some q, s1)))"

definition mb_split :: "(nat \<times> (nat \<Rightarrow> u8)) option \<Rightarrow> nat option \<Rightarrow> int \<Rightarrow> mb_mem \<Rightarrow> nat option \<times> mb_mem" where
  "mb_split malloc_res p len0 s =
     (case p of
        None \<Rightarrow> (None, s)
      | Some a \<Rightarrow>
          (case mbufs s a of
             None \<Rightarrow> (None, s)
           | Some m0 \<Rightarrow>
               if len0 \<le> 0 \<or> m_len m0 \<le> len0 then (None, s)
               else (let len = m_len m0 - len0
                     in case mb_create malloc_res (Some (drop (nat (m_data m0 + len0)) (m_buf m0))) len
                               (ucast MBUF_GET_FLAG_LIMIT_RX) s of
                          (None, s1) \<Rightarrow> (None, s1)
                        | (Some q, s1) \<Rightarrow>
                            (case mbufs s1 q of
                               None \<Rightarrow> (None, s1)
                             | Some m \<Rightarrow>
                                 (Some q, s1\<lparr>mbufs := (mbufs s1)(q \<mapsto> mb_pkthdr_init m m0 len,
                                                                a \<mapsto> mb_adj_tail m0 (- len))\<rparr>)))))"

section \<open>Well-formed buffers\<close>

definition mbuf_wf :: "mbuf \<Rightarrow> bool" where
  "mbuf_wf m =
     (0 \<le> m_len m \<and> m_data m = uint (m_headspace m) \<and>
      int (length (m_buf m)) = uint (m_headspace m) + m_len m + uint (m_tailspace m) \<and>
      pkt_len (m_pkthdr m) = m_len m \<and> length (m_buf m) < 65536)"

definition payload :: "mbuf \<Rightarrow> u8 list" where
  "payload m = take (nat (m_len m)) (drop (nat (m_data m)) (m_buf m))"

lemma uint_minus_in:
  fixes w :: u16
  assumes "0 \<le> uint w - i" "uint w - i < 65536"
  shows "uint (w - word_of_int i) = uint w - i"
proof -
  have "w - word_of_int i = word_of_int (uint w - i)" by simp
  then show ?thesis using assms by (simp only: uint_word_of_int) simp
qed

lemma uint_small: "0 \<le> i \<Longrightarrow> i < 65536 \<Longrightarrow> uint (word_of_int i :: u16) = i"
  by (simp only: uint_word_of_int) simp

lemma wf_room:
  assumes "mbuf_wf m"
  shows "uint (m_headspace m) + m_len m + uint (m_tailspace m) < 65536" "0 \<le> m_len m"
    "0 \<le> uint (m_headspace m)" "0 \<le> uint (m_tailspace m)"
  using assms by (auto simp: mbuf_wf_def)

lemma adj_head_wf:
  assumes "mbuf_wf m" "i \<le> uint (m_headspace m)" "- m_len m \<le> i"
  shows "mbuf_wf (mb_adj_head m i)" "uint (m_headspace (mb_adj_head m i)) = uint (m_headspace m) - i"
proof -
  have u: "uint (m_headspace m - word_of_int i) = uint (m_headspace m) - i"
    by (rule uint_minus_in) (use assms(2,3) wf_room [OF assms(1)] in linarith)+
  then show "uint (m_headspace (mb_adj_head m i)) = uint (m_headspace m) - i" by (simp add: mb_adj_head_def)
  show "mbuf_wf (mb_adj_head m i)" using assms u by (simp add: mbuf_wf_def mb_adj_head_def)
qed

lemma adj_tail_wf:
  assumes "mbuf_wf m" "i \<le> uint (m_tailspace m)" "- m_len m \<le> i"
  shows "mbuf_wf (mb_adj_tail m i)" "uint (m_tailspace (mb_adj_tail m i)) = uint (m_tailspace m) - i"
proof -
  have u: "uint (m_tailspace m - word_of_int i) = uint (m_tailspace m) - i"
    by (rule uint_minus_in) (use assms(2,3) wf_room [OF assms(1)] in linarith)+
  then show "uint (m_tailspace (mb_adj_tail m i)) = uint (m_tailspace m) - i" by (simp add: mb_adj_tail_def)
  show "mbuf_wf (mb_adj_tail m i)" using assms u by (simp add: mbuf_wf_def mb_adj_tail_def)
qed

lemma wf_total: "mbuf_wf m \<Longrightarrow> mbuf_total m = MBUF_SIZE + int (length (m_buf m))"
  by (simp add: mbuf_wf_def mbuf_total_def)

lemma wf_offsets:
  assumes "mbuf_wf m"
  shows "int (nat (m_data m)) = m_data m" "int (nat (m_len m)) = m_len m" "m_data m = uint (m_headspace m)"
    "int (nat (m_data m)) + int (nat (m_len m)) + uint (m_tailspace m) = int (length (m_buf m))"
  using assms by (auto simp: mbuf_wf_def)

lemma length_payload:
  assumes "mbuf_wf m"
  shows "int (length (payload m)) = m_len m"
proof -
  have "nat (m_len m) \<le> length (m_buf m) - nat (m_data m)"
    using wf_offsets [OF assms] uint_ge_0 [of "m_tailspace m"] by linarith
  then show ?thesis using wf_offsets(2) [OF assms] by (simp add: payload_def min_def)
qed

text \<open>Taking from the head, taking from the tail, growing at the tail, as views of the data area.\<close>

lemma payload_trim_head:
  assumes "mbuf_wf m" "0 \<le> r" "r \<le> m_len m"
  shows "payload (mb_adj_head m (- r)) = drop (nat r) (payload m)"
proof -
  have "0 \<le> m_data m" using assms(1) by (simp add: mbuf_wf_def)
  then show ?thesis using assms(2,3) by (simp add: payload_def mb_adj_head_def drop_take nat_diff_distrib nat_add_distrib add.commute)
qed

lemma payload_trim_tail:
  assumes "mbuf_wf m" "0 \<le> r" "r \<le> m_len m"
  shows "payload (mb_adj_tail m (- r)) = take (nat (m_len m - r)) (payload m)"
  using assms by (simp add: payload_def mb_adj_tail_def min_def)

lemma payload_grow_head:
  assumes "mbuf_wf m" "0 \<le> r" "r \<le> uint (m_headspace m)"
  shows "drop (nat r) (payload (mb_adj_head m r)) = payload m"
proof -
  have "nat r + nat (m_data m - r) = nat (m_data m)" using assms(2,3) wf_offsets(3) [OF assms(1)] by linarith
  then show ?thesis using assms(2) wf_room [OF assms(1)]
    by (simp add: payload_def mb_adj_head_def drop_take nat_add_distrib)
qed

lemma payload_append:
  assumes "mbuf_wf m" "int n \<le> uint (m_tailspace m)" "n \<le> length bs"
  shows "payload ((mb_adj_tail m (int n))\<lparr>m_buf := list_write (m_buf m) (nat (m_data m + m_len m)) (take n bs)\<rparr>) =
    payload m @ take n bs"
proof -
  let ?d = "nat (m_data m)" and ?l = "nat (m_len m)"
  have d: "0 \<le> m_data m" "0 \<le> m_len m" using assms(1) by (simp_all add: mbuf_wf_def)
  then have dl: "nat (m_data m + m_len m) = ?d + ?l" by (rule nat_add_distrib)
  have fit: "?d + ?l + n \<le> length (m_buf m)"
    using wf_offsets [OF assms(1)] assms(2) by linarith
  have a: "nat (m_len m + int n) = ?l + n" using d by simp
  have "take (?l + n) (drop ?d (take (?d + ?l) (m_buf m) @ take n bs @ drop (?d + ?l + n) (m_buf m))) =
    take ?l (drop ?d (m_buf m)) @ take n bs"
    using fit assms(3) by (simp add: drop_take)
  then show ?thesis using fit assms(3) d
    by (simp add: payload_def mb_adj_tail_def list_write_def dl a)
qed

lemma adj_facts:
  assumes "mbuf_wf m"
  shows "mbuf_wf (snd (mb_adj m r)) \<and> mbuf_total (snd (mb_adj m r)) = mbuf_total m \<and>
    (if \<bar>r\<bar> > m_len m then mb_adj m r = (-1, m)
     else fst (mb_adj m r) = 0 \<and>
       payload (snd (mb_adj m r)) =
         (if r \<ge> 0 then drop (nat r) (payload m) else take (nat (m_len m + r)) (payload m)))"
proof (cases "\<bar>r\<bar> > m_len m")
  case True
  then show ?thesis using assms by (auto simp: mb_adj_def)
next
  case False
  note h = adj_head_wf [OF assms, of "- r"] and t = adj_tail_wf [OF assms, of r]
  have len: "length (m_buf (mb_adj_head m i)) = length (m_buf m)" "length (m_buf (mb_adj_tail m i)) = length (m_buf m)" for i
    by (simp_all add: mb_adj_head_def mb_adj_tail_def)
  show ?thesis
  proof (cases "r \<ge> 0")
    case True
    have w: "mbuf_wf (mb_adj_head m (- r))" using h True False uint_ge_0 [of "m_headspace m"] by linarith
    show ?thesis using True False w payload_trim_head [OF assms True]
      by (auto simp: mb_adj_def wf_total [OF w] wf_total [OF assms] len)
  next
    case neg: False
    have w: "mbuf_wf (mb_adj_tail m r)" using t neg False uint_ge_0 [of "m_tailspace m"] by linarith
    show ?thesis using neg False w payload_trim_tail [OF assms, of "- r"]
      by (auto simp: mb_adj_def wf_total [OF w] wf_total [OF assms] len)
  qed
qed

text \<open>mb_adj trims the head (a count of zero or more) or the tail (a negative one) of a well-formed
  buffer: the data that is left is the rest of what was there, the room grows by as much, so the block
  keeps its size. A count beyond the data is refused and changes nothing.
\<close>

lemma adj_trims:
  assumes "mbuf_wf m"
  shows "mbuf_wf (snd (mb_adj m r)) \<and> mbuf_total (snd (mb_adj m r)) = mbuf_total m \<and>
    (if \<bar>r\<bar> > m_len m then mb_adj m r = (-1, m)
     else fst (mb_adj m r) = 0 \<and>
       payload (snd (mb_adj m r)) =
         (if r \<ge> 0 then drop (nat r) (payload m) else take (nat (m_len m + r)) (payload m)))"
  by (rule adj_facts [OF assms])

definition demo_mbuf :: mbuf where
  "demo_mbuf = \<lparr>m_buf = [1, 2, 3, 4, 5, 6], m_nextpkt = None, m_data = 1, m_len = 3, m_headspace = 1, m_tailspace = 2,
     m_type = 0, m_flags = M_PKTHDR, m_pkthdr = \<lparr>rcvif = 0, pkt_len = 3, PH_per = [], m_cb = (0, 0)\<rparr>\<rparr>"

lemma demo_mbuf_wf: "mbuf_wf demo_mbuf"
  by (simp add: demo_mbuf_def mbuf_wf_def)

lemma demo_payload: "payload demo_mbuf = [2, 3, 4]"
  by (simp add: demo_mbuf_def payload_def)

lemma adj_trims_witness:
  "payload (snd (mb_adj demo_mbuf 1)) = [3, 4] \<and> payload (snd (mb_adj demo_mbuf (- 1))) = [2, 3] \<and>
   mb_adj demo_mbuf 4 = (-1, demo_mbuf)"
proof -
  have l: "m_len demo_mbuf = 3" by (simp add: demo_mbuf_def)
  show ?thesis
    using adj_trims [OF demo_mbuf_wf, of 1] adj_trims [OF demo_mbuf_wf, of "-1"] adj_trims [OF demo_mbuf_wf, of 4]
    by (simp add: l demo_payload)
qed

section \<open>Append, prepend, reserve, copy\<close>

lemma bytes_at_payload:
  assumes "mbuf_wf m" "0 \<le> off" "0 \<le> n" "off + n \<le> m_len m"
  shows "bytes_at m (m_data m + off) n = Some (take (nat n) (drop (nat off) (payload m)))"
proof -
  note w = wf_offsets [OF assms(1)]
  have fit: "m_data m + off + n \<le> int (length (m_buf m))"
    using w assms(2-4) uint_ge_0 [of "m_tailspace m"] by linarith
  have d: "0 \<le> m_data m" using w(1) by linarith
  have nn: "nat (m_data m + off) = nat off + nat (m_data m)" using d assms(2) by (simp add: nat_add_distrib)
  have "nat off + nat n \<le> nat (m_len m)" using assms(2-4) by linarith
  then show ?thesis using fit d assms(2,3)
    by (simp add: bytes_at_def payload_def nn drop_take min_def)
qed

text \<open>mb_copydata copies what there is of the wanted range of the data and returns how much; an offset
  beyond the data makes the count of the memcpy negative, which is undefined (a buffer overrun).
\<close>

lemma copydata_copies:
  assumes "mbuf_wf m" "0 \<le> off" "0 < len"
  shows "mb_copydata m off len =
    (if off \<le> m_len m
     then Some (min len (m_len m - off), take (nat len) (drop (nat off) (payload m))) else None)"
proof (cases "off \<le> m_len m")
  case False
  then show ?thesis using assms by (simp add: mb_copydata_def bytes_at_def)
next
  case True
  let ?n = "if m_len m - off > len then len else m_len m - off"
  have b: "bytes_at m (m_data m + off) ?n = Some (take (nat ?n) (drop (nat off) (payload m)))"
    by (rule bytes_at_payload) (use assms True in auto)
  have l: "length (payload m) = nat (m_len m)" using length_payload [OF assms(1)] by simp
  have "take (nat ?n) (drop (nat off) (payload m)) = take (nat len) (drop (nat off) (payload m))"
    using assms(2) True by (auto simp: l)
  then show ?thesis using b assms True by (simp add: mb_copydata_def min_def)
qed

lemma copydata_copies_witness:
  "mb_copydata demo_mbuf 1 9 = Some (2, [3, 4]) \<and> mb_copydata demo_mbuf 4 1 = None"
proof -
  have l: "m_len demo_mbuf = 3" by (simp add: demo_mbuf_def)
  show ?thesis using copydata_copies [OF demo_mbuf_wf, of 1 9] copydata_copies [OF demo_mbuf_wf, of 4 1]
    by (simp add: demo_payload l)
qed

lemma append_facts:
  assumes "mbuf_wf m" "int (length bs) \<le> uint (m_tailspace m)"
  shows "\<exists>m'. mb_append m (int (length bs)) (Some bs) = Some (1, m') \<and> mbuf_wf m' \<and>
    payload m' = payload m @ bs \<and> m_type m' = m_type m \<and> length (m_buf m') = length (m_buf m)"
proof -
  let ?n = "int (length bs)"
  let ?m = "(mb_adj_tail m ?n)\<lparr>m_buf := list_write (m_buf m) (nat (m_data m + m_len m)) bs\<rparr>"
  have a: "mbuf_wf (mb_adj_tail m ?n)" using adj_tail_wf [OF assms] wf_room(2) [OF assms(1)] by linarith
  have "mbuf_wf ?m" using a by (simp add: mbuf_wf_def mb_adj_tail_def)
  moreover have "payload ?m = payload m @ bs" using payload_append [OF assms order_refl] by simp
  moreover have "mb_append m ?n (Some bs) = Some (1, ?m)"
    using assms(2) by (simp add: mb_append_def Let_def) (simp add: mb_adj_tail_def)
  ultimately show ?thesis by (intro exI [of _ ?m]) (simp add: mb_adj_tail_def)
qed

lemma grow_facts:
  assumes "mbuf_wf m"
  shows "(if int (length bs) \<le> uint (m_tailspace m)
      then \<exists>m'. mb_append m (int (length bs)) (Some bs) = Some (1, m') \<and> mbuf_wf m' \<and>
             payload m' = payload m @ bs \<and> mbuf_total m' = mbuf_total m
      else mb_append m (int (length bs)) (Some bs) = Some (0, m)) \<and>
    (if n \<le> unat (m_headspace m)
      then \<exists>m'. MB_PREPEND m (int n) = Some m' \<and> mbuf_wf m' \<and> length (payload m') = n + length (payload m) \<and>
             drop n (payload m') = payload m \<and> mbuf_total m' = mbuf_total m
      else MB_PREPEND m (int n) = None) \<and>
    (if uint h + int l + uint t \<le> int (length (m_buf m))
      then \<exists>m'. mb_reserve m (int l) h t = (0, m') \<and> mbuf_wf m' \<and> length (payload m') = l \<and>
             uint h \<le> uint (m_headspace m') \<and> m_tailspace m' = t \<and> mbuf_total m' = mbuf_total m
      else mb_reserve m (int l) h t = (-1, m))"
proof (intro conjI)
  show "if int (length bs) \<le> uint (m_tailspace m)
      then \<exists>m'. mb_append m (int (length bs)) (Some bs) = Some (1, m') \<and> mbuf_wf m' \<and>
             payload m' = payload m @ bs \<and> mbuf_total m' = mbuf_total m
      else mb_append m (int (length bs)) (Some bs) = Some (0, m)"
    using append_facts [OF assms, of bs] wf_total [OF assms] wf_total by (auto simp: mb_append_def)
next
  have nn: "(n \<le> unat (m_headspace m)) = (int n \<le> uint (m_headspace m))"
    using uint_ge_0 [of "m_headspace m"] by (simp only: unat_eq_nat_uint) linarith
  let ?m = "mb_adj_head m (int n)"
  have w: "int n \<le> uint (m_headspace m) \<Longrightarrow> mbuf_wf ?m"
    using adj_head_wf [OF assms, of "int n"] wf_room(2) [OF assms] by linarith
  have l: "mbuf_wf ?m \<Longrightarrow> length (payload ?m) = n + length (payload m)"
    using length_payload [of ?m] length_payload [OF assms] by (simp add: mb_adj_head_def)
  show "if n \<le> unat (m_headspace m)
      then \<exists>m'. MB_PREPEND m (int n) = Some m' \<and> mbuf_wf m' \<and> length (payload m') = n + length (payload m) \<and>
             drop n (payload m') = payload m \<and> mbuf_total m' = mbuf_total m
      else MB_PREPEND m (int n) = None"
    using w l payload_grow_head [OF assms, of "int n"] wf_total [OF assms] wf_total [of ?m]
    by (auto simp: nn MB_PREPEND_def mb_adj_head_def)
next
  let ?b = "int (length (m_buf m))"
  have b: "uint (m_headspace m) + m_len m + uint (m_tailspace m) = ?b" "?b < 65536"
    "m_data m + m_len m + uint (m_tailspace m) = ?b"
    using assms by (auto simp: mbuf_wf_def)
  show "if uint h + int l + uint t \<le> ?b
      then \<exists>m'. mb_reserve m (int l) h t = (0, m') \<and> mbuf_wf m' \<and> length (payload m') = l \<and>
             uint h \<le> uint (m_headspace m') \<and> m_tailspace m' = t \<and> mbuf_total m' = mbuf_total m
      else mb_reserve m (int l) h t = (-1, m)"
  proof (cases "uint h + int l + uint t \<le> ?b")
    case True
    let ?m = "m\<lparr>m_tailspace := t, m_len := int l, m_pkthdr := (m_pkthdr m)\<lparr>pkt_len := int l\<rparr>,
                m_data := ?b - uint t - int l, m_headspace := word_of_int (?b - uint t - int l)\<rparr>"
    have u: "uint (word_of_int (?b - uint t - int l) :: u16) = ?b - uint t - int l"
      by (rule uint_small) (use True b(2) uint_ge_0 [of h] uint_ge_0 [of t] in linarith)+
    have w: "mbuf_wf ?m" using b(2) u by (simp add: mbuf_wf_def)
    have "mb_reserve m (int l) h t = (0, ?m)" using True by (simp add: mb_reserve_def Let_def b(1,3))
    moreover have "length (payload ?m) = l" using length_payload [OF w] by simp
    moreover have "uint h \<le> uint (m_headspace ?m)" using True u by simp
    moreover have "mbuf_total ?m = mbuf_total m" using wf_total [OF w] wf_total [OF assms] by simp
    ultimately show ?thesis using True w by auto
  next
    case False
    then show ?thesis by (simp add: mb_reserve_def Let_def b(1))
  qed
qed

text \<open>Growing a well-formed buffer. mb_append puts the bytes after the data when the tail room holds
  them and else returns 0; MB_PREPEND uncovers room before the data and else gives the buffer up;
  mb_reserve with enough block gets the length and at least the room it asked for. The block keeps its size.
\<close>

lemma grow_ops:
  assumes "mbuf_wf m"
  shows "(if int (length bs) \<le> uint (m_tailspace m)
      then \<exists>m'. mb_append m (int (length bs)) (Some bs) = Some (1, m') \<and> mbuf_wf m' \<and>
             payload m' = payload m @ bs \<and> mbuf_total m' = mbuf_total m
      else mb_append m (int (length bs)) (Some bs) = Some (0, m)) \<and>
    (if n \<le> unat (m_headspace m)
      then \<exists>m'. MB_PREPEND m (int n) = Some m' \<and> mbuf_wf m' \<and> length (payload m') = n + length (payload m) \<and>
             drop n (payload m') = payload m \<and> mbuf_total m' = mbuf_total m
      else MB_PREPEND m (int n) = None) \<and>
    (if uint h + int l + uint t \<le> int (length (m_buf m))
      then \<exists>m'. mb_reserve m (int l) h t = (0, m') \<and> mbuf_wf m' \<and> length (payload m') = l \<and>
             uint h \<le> uint (m_headspace m') \<and> m_tailspace m' = t \<and> mbuf_total m' = mbuf_total m
      else mb_reserve m (int l) h t = (-1, m))"
  by (rule grow_facts [OF assms])

lemma grow_ops_witness:
  "\<exists>m'. mb_append demo_mbuf (int (length [9, 8])) (Some [9, 8]) = Some (1, m') \<and> payload m' = [2, 3, 4, 9, 8]"
proof -
  have "int (length [9 :: u8, 8]) \<le> uint (m_tailspace demo_mbuf)" by (simp add: demo_mbuf_def)
  then show ?thesis using grow_ops [OF demo_mbuf_wf, of "[9, 8]" 0 0 0 0] by (auto simp: demo_payload)
qed

section \<open>Accounting\<close>

datatype mem_class = TX_MEM | RX_MEM | TXRX_MEM

fun mem_used :: "mem_class \<Rightarrow> mb_mem \<Rightarrow> u32" where
  "mem_used TX_MEM s = m_tx_mem_sum s"
| "mem_used RX_MEM s = m_rx_mem_sum s"
| "mem_used TXRX_MEM s = m_txrx_mem_sum s"

fun flag_counts :: "u8 \<Rightarrow> mem_class \<Rightarrow> bool" where
  "flag_counts f TX_MEM = (f AND MBUF_GET_FLAG_LIMIT_TX \<noteq> 0)"
| "flag_counts f RX_MEM = (f AND MBUF_GET_FLAG_LIMIT_RX \<noteq> 0)"
| "flag_counts f TXRX_MEM = (f \<noteq> 0)"

definition one_limit :: "u8 \<Rightarrow> bool" where
  "one_limit f = (f AND MBUF_GET_FLAG_LIMIT_TX = 0 \<or> f AND MBUF_GET_FLAG_LIMIT_RX = 0)"

text \<open>
  The contract between the allocator and the limits: a charge adds its length to each sum its flag
  counts for, a refused charge (with at most one of the limit flags) adds nothing, a refund subtracts.
\<close>

locale mem_ledger =
  fixes inc :: "u8 \<Rightarrow> u32 \<Rightarrow> 'm \<Rightarrow> bool \<times> 'm"
    and dec :: "u8 \<Rightarrow> u32 \<Rightarrow> 'm \<Rightarrow> 'm"
    and used :: "'c \<Rightarrow> 'm \<Rightarrow> u32"
    and counts :: "u8 \<Rightarrow> 'c \<Rightarrow> bool"
    and single :: "u8 \<Rightarrow> bool"
  assumes inc_ok: "f \<noteq> 0 \<Longrightarrow> fst (inc f l s) \<Longrightarrow> used c (snd (inc f l s)) = used c s + (if counts f c then l else 0)"
    and inc_refused: "single f \<Longrightarrow> \<not> fst (inc f l s) \<Longrightarrow> used c (snd (inc f l s)) = used c s"
    and dec_used: "f \<noteq> 0 \<Longrightarrow> used c (dec f l s) = used c s - (if counts f c then l else 0)"
    and free_flag: "\<not> counts 0 c"
begin

definition charge :: "'c \<Rightarrow> u8 \<times> u32 \<Rightarrow> u32" where
  "charge c b = (if counts (fst b) c then snd b else 0)"

text \<open>\<open>bs\<close> gives flag and size of each block, \<open>A\<close> the live ones.\<close>

definition balanced :: "nat set \<Rightarrow> (nat \<Rightarrow> u8 \<times> u32) \<Rightarrow> 'm \<Rightarrow> bool" where
  "balanced A bs s = (finite A \<and> (\<forall>c. used c s = (\<Sum>a\<in>A. charge c (bs a))))"

lemma inc_dec: "f \<noteq> 0 \<Longrightarrow> fst (inc f l s) \<Longrightarrow> used c (dec f l (snd (inc f l s))) = used c s"
  by (simp add: inc_ok dec_used)

lemma balanced_insert:
  assumes "balanced A bs s" "a \<notin> A"
    and "\<And>c. used c s' = used c s + charge c b"
  shows "balanced (insert a A) (bs(a := b)) s'"
proof -
  have "(\<Sum>x\<in>A. charge c ((bs(a := b)) x)) = (\<Sum>x\<in>A. charge c (bs x))" for c
    using assms(2) by (intro sum.cong) auto
  then show ?thesis using assms by (simp add: balanced_def add.commute)
qed

lemma balanced_remove:
  assumes "balanced A bs s" "a \<in> A"
    and "\<And>c. used c s' = used c s - charge c (bs a)"
  shows "balanced (A - {a}) bs s'"
proof -
  have "finite A" using assms(1) by (simp add: balanced_def)
  then have "(\<Sum>x\<in>A. charge c (bs x)) = charge c (bs a) + (\<Sum>x\<in>A - {a}. charge c (bs x))" for c
    using assms(2) by (rule sum.remove)
  then show ?thesis using assms by (simp add: balanced_def)
qed

lemma balanced_cong:
  assumes "balanced A bs s" "\<And>a. a \<in> A \<Longrightarrow> bs' a = bs a" "\<And>c. used c s' = used c s"
  shows "balanced A bs' s'"
proof -
  have "(\<Sum>a\<in>A. charge c (bs' a)) = (\<Sum>a\<in>A. charge c (bs a))" for c
    using assms(2) by (intro sum.cong) auto
  then show ?thesis using assms by (simp add: balanced_def)
qed

lemma balanced_empty: "balanced {} bs s \<Longrightarrow> used c s = 0"
  by (simp add: balanced_def)

end

interpretation ml: mem_ledger mb_limit_mem_inc mb_limit_mem_dec mem_used flag_counts one_limit
proof
  fix f :: u8 and l :: u32 and s :: mb_mem and c :: mem_class
  show "f \<noteq> 0 \<Longrightarrow> fst (mb_limit_mem_inc f l s) \<Longrightarrow>
    mem_used c (snd (mb_limit_mem_inc f l s)) = mem_used c s + (if flag_counts f c then l else 0)"
    by (cases c) (auto simp: mb_limit_mem_inc_def Let_def split: if_splits)
  show "one_limit f \<Longrightarrow> \<not> fst (mb_limit_mem_inc f l s) \<Longrightarrow> mem_used c (snd (mb_limit_mem_inc f l s)) = mem_used c s"
    by (cases c) (auto simp: mb_limit_mem_inc_def one_limit_def Let_def split: if_splits)
  show "f \<noteq> 0 \<Longrightarrow> mem_used c (mb_limit_mem_dec f l s) = mem_used c s - (if flag_counts f c then l else 0)"
    by (cases c) (auto simp: mb_limit_mem_dec_def Let_def)
  show "\<not> flag_counts 0 c" by (cases c) simp_all
qed

lemma limit_mbufs [simp]:
  "mbufs (snd (mb_limit_mem_inc f l s)) = mbufs s" "mbufs (mb_limit_mem_dec f l s) = mbufs s"
  by (auto simp: mb_limit_mem_inc_def mb_limit_mem_dec_def Let_def)

lemma mem_used_mbufs [simp]: "mem_used c (s\<lparr>mbufs := x\<rparr>) = mem_used c s"
  by (cases c) simp_all

text \<open>Flag and size of the buffer at an address, as mb_free sees them.\<close>

definition block_of :: "mb_mem \<Rightarrow> nat \<Rightarrow> u8 \<times> u32" where
  "block_of s a = (case mbufs s a of None \<Rightarrow> (0, 0) | Some m \<Rightarrow> (limit_flag m, word_of_int (mbuf_total m)))"

definition pool_ok :: "mb_mem \<Rightarrow> bool" where
  "pool_ok s = (ml.balanced (dom (mbufs s)) (block_of s) s \<and> (\<forall>a m. mbufs s a = Some m \<longrightarrow> mbuf_wf m))"

lemma flag_byte: "(ucast ((ucast (ucast (x AND MBUF_GET_FLAG_MASK) :: u8) :: u32) AND MBUF_GET_FLAG_MASK) :: u8) =
    ucast (x AND MBUF_GET_FLAG_MASK)"
  by (rule bit_word_eqI) (auto simp: bit_simps)

section \<open>The pool keeps its books\<close>

definition get_flag :: "u32 \<Rightarrow> u8" where "get_flag tx = ucast (tx AND MBUF_GET_FLAG_MASK)"

definition get_room :: "u32 \<Rightarrow> nat \<times> nat" where
  "get_room tx = (if tx AND 1 \<noteq> 0 then (MBUF_HEAD_SPACE, MBUF_TAIL_SPACE) else (0, 0))"

definition new_mbuf :: "(nat \<Rightarrow> u8) \<Rightarrow> int \<Rightarrow> u32 \<Rightarrow> mbuf" where
  "new_mbuf junk len tx =
     \<lparr>m_buf = map junk [0..<nat (len + int (fst (get_room tx)) + int (snd (get_room tx)))], m_nextpkt = None,
      m_data = int (fst (get_room tx)), m_len = len, m_headspace = of_nat (fst (get_room tx)),
      m_tailspace = of_nat (snd (get_room tx)), m_type = get_flag tx, m_flags = M_PKTHDR,
      m_pkthdr = \<lparr>rcvif = 0, pkt_len = len, PH_per = replicate 8 0, m_cb = (0, 0)\<rparr>\<rparr>"

lemma new_mbuf_wf:
  assumes "0 \<le> len" "len + int (fst (get_room tx)) + int (snd (get_room tx)) < 65536"
  shows "mbuf_wf (new_mbuf junk len tx)" "limit_flag (new_mbuf junk len tx) = get_flag tx"
proof -
  show "limit_flag (new_mbuf junk len tx) = get_flag tx"
    by (simp add: limit_flag_def new_mbuf_def get_flag_def flag_byte)
  show "mbuf_wf (new_mbuf junk len tx)"
    using assms by (simp add: mbuf_wf_def new_mbuf_def get_room_def MBUF_HEAD_SPACE_def MBUF_TAIL_SPACE_def nat_less_iff
        split: if_splits)
qed

lemma mb_get_cases:
  assumes "one_limit (get_flag tx)" "0 \<le> len" "len + int (fst (get_room tx)) + int (snd (get_room tx)) < 65536"
  obtains (refused) "fst (mb_get r len tx s) = None" "mbufs (snd (mb_get r len tx s)) = mbufs s"
      "\<And>c. mem_used c (snd (mb_get r len tx s)) = mem_used c s"
  | (given) p junk where "r = Some (p, junk)" "fst (mb_get r len tx s) = Some p"
      "mbufs (snd (mb_get r len tx s)) = (mbufs s)(p \<mapsto> new_mbuf junk len tx)"
      "\<And>c. mem_used c (snd (mb_get r len tx s)) =
        mem_used c s + ml.charge c (get_flag tx, word_of_int (mbuf_total (new_mbuf junk len tx)))"
proof -
  let ?tot = "MBUF_SIZE + len + int (fst (get_room tx)) + int (snd (get_room tx))"
  have tot: "mbuf_total (new_mbuf junk len tx) = ?tot" for junk
    using wf_total [OF new_mbuf_wf(1) [OF assms(2,3)]] assms(2) by (simp add: new_mbuf_def)
  define w :: u32 where "w = word_of_int ?tot"
  obtain ok s1 where R: "(if get_flag tx \<noteq> 0 then mb_limit_mem_inc (get_flag tx) w s else (True, s)) = (ok, s1)"
    by fastforce
  have eq: "mb_get r len tx s =
    (if \<not> ok then (None, s1)
     else case r of
            Some (p, junk) \<Rightarrow> (Some p, s1\<lparr>mbufs := (mbufs s1)(p \<mapsto> new_mbuf junk len tx)\<rparr>)
          | None \<Rightarrow> (None, if get_flag tx \<noteq> 0 then mb_limit_mem_dec (get_flag tx) w s1 else s1))"
  proof -
    have "ok = fst (if get_flag tx \<noteq> 0 then mb_limit_mem_inc (get_flag tx) w s else (True, s))"
      "s1 = snd (if get_flag tx \<noteq> 0 then mb_limit_mem_inc (get_flag tx) w s else (True, s))" using R by simp_all
    then show ?thesis using assms(2)
      by (simp add: mb_get_def Let_def get_flag_def get_room_def new_mbuf_def w_def split: option.split)
  qed
  have mb: "mbufs s1 = mbufs s"
    using R limit_mbufs(1) [of "get_flag tx" w s] by (cases "get_flag tx \<noteq> 0") auto
  have no: "\<not> ok \<Longrightarrow> mem_used c s1 = mem_used c s" for c
    using ml.inc_refused [OF assms(1), of w s c] R by (cases "get_flag tx \<noteq> 0") auto
  have yes: "ok \<Longrightarrow> mem_used c s1 = mem_used c s + ml.charge c (get_flag tx, w)" for c
    using ml.inc_ok [of "get_flag tx" w s c] ml.free_flag [of c] R
    by (cases "get_flag tx \<noteq> 0") (auto simp: ml.charge_def)
  have undo: "ok \<Longrightarrow> get_flag tx \<noteq> 0 \<Longrightarrow> mem_used c (mb_limit_mem_dec (get_flag tx) w s1) = mem_used c s" for c
    using ml.inc_dec [of "get_flag tx" w s c] R by auto
  show ?thesis
  proof (cases r)
    case None
    have "get_flag tx = 0 \<Longrightarrow> s1 = s" using R by simp
    then show ?thesis
      by (intro refused) (use undo no yes mb in \<open>auto simp: eq [unfolded None] None\<close>)
  next
    case (Some pj)
    then obtain p junk where r: "r = Some (p, junk)" by (cases pj) auto
    show ?thesis
    proof (cases ok)
      case True
      show ?thesis
        by (rule given [OF r]) (use True yes mb in \<open>simp_all add: eq [unfolded r] r tot w_def\<close>)
    next
      case False
      show ?thesis by (rule refused) (use False no mb in \<open>simp_all add: eq [unfolded r] r\<close>)
    qed
  qed
qed

lemma pool_update:
  assumes "pool_ok s" "mbufs s a = Some m" "mbuf_wf m'" "limit_flag m' = limit_flag m" "mbuf_total m' = mbuf_total m"
    and s': "mbufs s' = (mbufs s)(a \<mapsto> m')" "\<And>c. mem_used c s' = mem_used c s"
  shows "pool_ok s'"
proof -
  have d: "dom (mbufs s') = dom (mbufs s)" using assms(2) s' by auto
  have "ml.balanced (dom (mbufs s)) (block_of s') s'"
    by (rule ml.balanced_cong [of "dom (mbufs s)" "block_of s" s])
      (use assms in \<open>auto simp: pool_ok_def block_of_def split: option.splits\<close>)
  then show ?thesis using assms(1,3) s' d by (auto simp: pool_ok_def split: if_splits)
qed

lemma pool_add:
  assumes "pool_ok s" "mbufs s p = None" "mbuf_wf m"
    and s': "mbufs s' = (mbufs s)(p \<mapsto> m)"
      "\<And>c. mem_used c s' = mem_used c s + ml.charge c (limit_flag m, word_of_int (mbuf_total m))"
  shows "pool_ok s'"
proof -
  have d: "dom (mbufs s') = insert p (dom (mbufs s))" using s' by auto
  have "ml.balanced (insert p (dom (mbufs s))) ((block_of s)(p := (limit_flag m, word_of_int (mbuf_total m)))) s'"
    by (rule ml.balanced_insert) (use assms in \<open>auto simp: pool_ok_def\<close>)
  moreover have "(block_of s)(p := (limit_flag m, word_of_int (mbuf_total m))) = block_of s'"
    by (auto simp: block_of_def s')
  ultimately show ?thesis using assms(1,3) s' d by (auto simp: pool_ok_def split: if_splits)
qed

lemma pool_free: "pool_ok s \<Longrightarrow> pool_ok (mb_free p s)"
proof (cases "Option.bind p (mbufs s)")
  case None
  then have "mb_free p s = s" by (cases p) (auto simp: mb_free_def)
  then show "pool_ok s \<Longrightarrow> pool_ok (mb_free p s)" by simp
next
  case (Some m)
  then obtain a where p: "p = Some a" and m: "mbufs s a = Some m" by (cases p) auto
  assume ok: "pool_ok s"
  let ?s = "mb_free p s"
  have mb: "mbufs ?s = (mbufs s)(a := None)" by (simp add: mb_free_def p m)
  have u: "mem_used c ?s = mem_used c s - ml.charge c (block_of s a)" for c
    using ml.dec_used [of "limit_flag m"] ml.free_flag [of c]
    by (auto simp: mb_free_def p m block_of_def ml.charge_def)
  have "ml.balanced (dom (mbufs s) - {a}) (block_of s) ?s"
    by (rule ml.balanced_remove) (use ok m u in \<open>auto simp: pool_ok_def\<close>)
  then have "ml.balanced (dom (mbufs s) - {a}) (block_of ?s) ?s"
    by (rule ml.balanced_cong) (auto simp: block_of_def mb)
  moreover have "dom (mbufs ?s) = dom (mbufs s) - {a}" by (auto simp: mb)
  ultimately show "pool_ok ?s" using ok mb by (auto simp: pool_ok_def split: if_splits)
qed

lemma pool_get:
  assumes "pool_ok s" "one_limit (get_flag tx)" "0 \<le> len" "len + int (fst (get_room tx)) + int (snd (get_room tx)) < 65536"
    and fresh: "\<And>p junk. r = Some (p, junk) \<Longrightarrow> mbufs s p = None"
  shows "pool_ok (snd (mb_get r len tx s))"
proof (rule mb_get_cases [OF assms(2-4), of r s])
  assume n: "mbufs (snd (mb_get r len tx s)) = mbufs s" "\<And>c. mem_used c (snd (mb_get r len tx s)) = mem_used c s"
  have "ml.balanced (dom (mbufs s)) (block_of (snd (mb_get r len tx s))) (snd (mb_get r len tx s))"
    by (rule ml.balanced_cong [of _ "block_of s" s]) (use assms(1) n in \<open>auto simp: pool_ok_def block_of_def\<close>)
  then show ?thesis using assms(1) n by (simp add: pool_ok_def)
next
  fix p junk
  assume r: "r = Some (p, junk)" and m: "mbufs (snd (mb_get r len tx s)) = (mbufs s)(p \<mapsto> new_mbuf junk len tx)"
    and u: "\<And>c. mem_used c (snd (mb_get r len tx s)) =
        mem_used c s + ml.charge c (get_flag tx, word_of_int (mbuf_total (new_mbuf junk len tx)))"
  show ?thesis
    by (rule pool_add [OF assms(1) fresh [OF r] new_mbuf_wf(1) [OF assms(3,4)] m])
      (simp add: u new_mbuf_wf(2) [OF assms(3,4)])
qed

definition rx_tx :: u32 where "rx_tx = ucast MBUF_GET_FLAG_LIMIT_RX"

lemma rx_tx_facts: "get_flag rx_tx = MBUF_GET_FLAG_LIMIT_RX" "get_room rx_tx = (0, 0)" "one_limit (get_flag rx_tx)"
  by (simp_all add: rx_tx_def get_flag_def get_room_def one_limit_def MBUF_GET_FLAG_MASK_def
      MBUF_GET_FLAG_LIMIT_RX_def MBUF_GET_FLAG_LIMIT_TX_def)

text \<open>Whether the limits refuse an RX buffer of \<open>n\<close> bytes.\<close>

definition rx_refused :: "mb_mem \<Rightarrow> int \<Rightarrow> bool" where
  "rx_refused s n =
     (over_limit (txrx_mem_max s) (m_txrx_mem_sum s + word_of_int (MBUF_SIZE + n)) \<or>
      over_limit (rx_mem_max s) (m_rx_mem_sum s + word_of_int (MBUF_SIZE + n)))"

lemma mb_get_rx:
  assumes "0 \<le> len"
  shows "fst (mb_get (Some (p, junk)) len rx_tx s) = (if rx_refused s len then None else Some p)"
proof -
  have f: "MBUF_GET_FLAG_LIMIT_RX AND MBUF_GET_FLAG_LIMIT_TX = 0" "MBUF_GET_FLAG_LIMIT_RX AND MBUF_GET_FLAG_LIMIT_RX \<noteq> 0"
    "MBUF_GET_FLAG_LIMIT_RX \<noteq> 0" "(ucast (rx_tx AND MBUF_GET_FLAG_MASK) :: u8) = MBUF_GET_FLAG_LIMIT_RX" "rx_tx AND 1 = 0"
    using rx_tx_facts(1) by (simp_all add: MBUF_GET_FLAG_LIMIT_RX_def MBUF_GET_FLAG_LIMIT_TX_def get_flag_def rx_tx_def)
  have "fst (mb_limit_mem_inc MBUF_GET_FLAG_LIMIT_RX (word_of_int (MBUF_SIZE + len)) s) = (\<not> rx_refused s len)"
    by (simp only: mb_limit_mem_inc_def f rx_refused_def Let_def) auto
  then show ?thesis using assms
    by (simp only: mb_get_def Let_def f) auto
qed

lemma mb_get_rx_given:
  assumes "0 \<le> len" "len < 65536" "\<not> rx_refused s len"
  shows "mbufs (snd (mb_get (Some (p, junk)) len rx_tx s)) = (mbufs s)(p \<mapsto> new_mbuf junk len rx_tx)"
    "mem_used c (snd (mb_get (Some (p, junk)) len rx_tx s)) =
      mem_used c s + ml.charge c (MBUF_GET_FLAG_LIMIT_RX, word_of_int (MBUF_SIZE + len))"
proof -
  have l: "len + int (fst (get_room rx_tx)) + int (snd (get_room rx_tx)) < 65536" using assms(2) by (simp add: rx_tx_facts)
  have g: "fst (mb_get (Some (p, junk)) len rx_tx s) = Some p" using mb_get_rx [OF assms(1)] assms(3) by simp
  have t: "mbuf_total (new_mbuf j len rx_tx) = MBUF_SIZE + len" for j
    using wf_total [OF new_mbuf_wf(1) [OF assms(1) l]] assms(1) by (simp add: new_mbuf_def rx_tx_facts)
  show "mbufs (snd (mb_get (Some (p, junk)) len rx_tx s)) = (mbufs s)(p \<mapsto> new_mbuf junk len rx_tx)"
    by (rule mb_get_cases [OF rx_tx_facts(3) assms(1) l, of "Some (p, junk)" s]) (use g in simp_all)
  show "mem_used c (snd (mb_get (Some (p, junk)) len rx_tx s)) =
      mem_used c s + ml.charge c (MBUF_GET_FLAG_LIMIT_RX, word_of_int (MBUF_SIZE + len))"
    by (rule mb_get_cases [OF rx_tx_facts(3) assms(1) l, of "Some (p, junk)" s]) (use g t rx_tx_facts(1) in simp_all)
qed

lemma mb_get_rx_refused:
  assumes "0 \<le> len" "len < 65536" "r = None \<or> rx_refused s len"
  shows "fst (mb_get r len rx_tx s) = None" "mbufs (snd (mb_get r len rx_tx s)) = mbufs s"
proof -
  have l: "len + int (fst (get_room rx_tx)) + int (snd (get_room rx_tx)) < 65536" using assms(2) by (simp add: rx_tx_facts)
  have n: "fst (mb_get r len rx_tx s) = None"
  proof (cases r)
    case None
    show ?thesis by (rule mb_get_cases [OF rx_tx_facts(3) assms(1) l, of r s]) (simp_all add: None)
  next
    case (Some pj)
    then show ?thesis using mb_get_rx [OF assms(1), of "fst pj" "snd pj" s] assms(3) by simp
  qed
  show "fst (mb_get r len rx_tx s) = None" by (fact n)
  show "mbufs (snd (mb_get r len rx_tx s)) = mbufs s"
    by (rule mb_get_cases [OF rx_tx_facts(3) assms(1) l, of r s]) (use n in simp_all)
qed

text \<open>The new buffer of mb_split: the bytes after the first \<open>len0\<close>.\<close>

definition split_tail :: "(nat \<Rightarrow> u8) \<Rightarrow> mbuf \<Rightarrow> int \<Rightarrow> mbuf" where
  "split_tail junk m0 len0 =
     (let len = m_len m0 - len0; m = new_mbuf junk len rx_tx
      in mb_pkthdr_init (m\<lparr>m_buf := list_write (m_buf m) 0 (take (nat len) (drop (nat (m_data m0 + len0)) (m_buf m0)))\<rparr>) m0 len)"

lemma split_tail_facts:
  assumes "mbuf_wf m0" "0 < len0" "len0 < m_len m0"
  shows "mbuf_wf (split_tail junk m0 len0)" "limit_flag (split_tail junk m0 len0) = MBUF_GET_FLAG_LIMIT_RX"
    "mbuf_total (split_tail junk m0 len0) = MBUF_SIZE + (m_len m0 - len0)"
    "payload (split_tail junk m0 len0) = drop (nat len0) (payload m0)"
proof -
  let ?len = "m_len m0 - len0" and ?m = "split_tail junk m0 len0"
  have "?len + int (fst (get_room rx_tx)) + int (snd (get_room rx_tx)) < 65536"
    unfolding rx_tx_facts fst_conv snd_conv using wf_room [OF assms(1)] assms(2) by linarith
  with assms(3) have w: "mbuf_wf (new_mbuf junk ?len rx_tx)" "limit_flag (new_mbuf junk ?len rx_tx) = MBUF_GET_FLAG_LIMIT_RX"
    using new_mbuf_wf [of ?len rx_tx junk] by (simp_all add: rx_tx_facts)
  then show wf: "mbuf_wf ?m" and "limit_flag ?m = MBUF_GET_FLAG_LIMIT_RX"
    by (simp_all add: split_tail_def Let_def mb_pkthdr_init_def mbuf_wf_def limit_flag_def new_mbuf_def rx_tx_facts)
  have n: "nat (m_data m0 + len0) = nat len0 + nat (m_data m0)"
    using wf_offsets(3) [OF assms(1)] assms(2) by (simp add: nat_add_distrib)
  have len: "length (drop (nat (m_data m0 + len0)) (m_buf m0)) \<ge> nat ?len"
    unfolding length_drop
    using wf_offsets [OF assms(1)] assms(2,3) uint_ge_0 [of "m_tailspace m0"] by linarith
  have bl: "length (m_buf ?m) = nat ?len"
    by (simp add: split_tail_def Let_def mb_pkthdr_init_def new_mbuf_def rx_tx_facts)
  show "mbuf_total ?m = MBUF_SIZE + ?len" using wf_total [OF wf] bl assms(3) by simp
  have "m_buf ?m = take (nat ?len) (drop (nat (m_data m0 + len0)) (m_buf m0))"
    using len by (simp add: split_tail_def Let_def mb_pkthdr_init_def new_mbuf_def rx_tx_facts list_write_def)
  then have "payload ?m = take (nat ?len) (drop (nat (m_data m0 + len0)) (m_buf m0))"
    by (simp add: payload_def split_tail_def Let_def mb_pkthdr_init_def new_mbuf_def rx_tx_facts)
  moreover have "nat ?len = nat (m_len m0) - nat len0" using assms by (simp add: nat_diff_distrib)
  ultimately show "payload ?m = drop (nat len0) (payload m0)"
    by (simp add: payload_def drop_take n)
qed

lemma mb_split_given:
  assumes "pool_ok s" "mbufs s a = Some m0" "0 < len0" "len0 < m_len m0" "mbufs s p = None"
    "\<not> rx_refused s (m_len m0 - len0)"
  shows "fst (mb_split (Some (p, junk)) (Some a) len0 s) = Some p"
    "mbufs (snd (mb_split (Some (p, junk)) (Some a) len0 s)) =
      (mbufs s)(p \<mapsto> split_tail junk m0 len0, a \<mapsto> mb_adj_tail m0 (- (m_len m0 - len0)))"
    "mem_used c (snd (mb_split (Some (p, junk)) (Some a) len0 s)) =
      mem_used c s + ml.charge c (MBUF_GET_FLAG_LIMIT_RX, word_of_int (MBUF_SIZE + (m_len m0 - len0)))"
proof -
  let ?len = "m_len m0 - len0"
  have wf: "mbuf_wf m0" using assms(1,2) by (auto simp: pool_ok_def)
  have len: "0 \<le> ?len" "?len < 65536" using assms(3,4) wf_room [OF wf] by linarith+
  obtain s1 where g: "mb_get (Some (p, junk)) ?len rx_tx s = (Some p, s1)"
    using mb_get_rx [OF len(1), of p junk s] assms(6) by (cases "mb_get (Some (p, junk)) ?len rx_tx s") auto
  have m1: "mbufs s1 = (mbufs s)(p \<mapsto> new_mbuf junk ?len rx_tx)"
    and u1: "mem_used c s1 = mem_used c s + ml.charge c (MBUF_GET_FLAG_LIMIT_RX, word_of_int (MBUF_SIZE + ?len))" for c
    using mb_get_rx_given [OF len assms(6), where p = p and junk = junk] g by simp_all
  have d0: "nat (m_data (new_mbuf junk ?len rx_tx)) = 0" by (simp add: new_mbuf_def rx_tx_facts)
  have e: "mb_split (Some (p, junk)) (Some a) len0 s =
    (Some p, s1\<lparr>mbufs := (mbufs s1)(p \<mapsto> split_tail junk m0 len0, a \<mapsto> mb_adj_tail m0 (- ?len))\<rparr>)"
    using assms(3,4) by (simp add: mb_split_def assms(2) mb_create_def rx_tx_def [symmetric] g m1 d0 Let_def split_tail_def)
  show "fst (mb_split (Some (p, junk)) (Some a) len0 s) = Some p"
    "mbufs (snd (mb_split (Some (p, junk)) (Some a) len0 s)) =
      (mbufs s)(p \<mapsto> split_tail junk m0 len0, a \<mapsto> mb_adj_tail m0 (- ?len))"
    by (simp_all add: e m1)
  show "mem_used c (snd (mb_split (Some (p, junk)) (Some a) len0 s)) =
      mem_used c s + ml.charge c (MBUF_GET_FLAG_LIMIT_RX, word_of_int (MBUF_SIZE + ?len))"
    using u1 [of c] by (simp add: e)
qed

lemma total_adj_tail:
  assumes "mbuf_wf m" "i \<le> uint (m_tailspace m)" "- m_len m \<le> i"
  shows "mbuf_total (mb_adj_tail m i) = mbuf_total m"
  using wf_total [OF adj_tail_wf(1) [OF assms]] wf_total [OF assms(1)] by (simp add: mb_adj_tail_def)

lemma mb_get_rx_some:
  assumes "0 \<le> len" "len < 65536" "fst (mb_get r len rx_tx s) \<noteq> None"
  obtains p junk where "r = Some (p, junk)" "\<not> rx_refused s len"
  using mb_get_rx_refused(1) [OF assms(1,2), of r s] assms(3)
  by (cases r; cases "rx_refused s len") auto

lemma pool_split:
  assumes "pool_ok s" and fresh: "\<And>p junk. r = Some (p, junk) \<Longrightarrow> mbufs s p = None"
  shows "pool_ok (snd (mb_split r a len0 s))"
proof (cases "\<exists>b m0. a = Some b \<and> mbufs s b = Some m0 \<and> 0 < len0 \<and> len0 < m_len m0")
  case False
  then have "mb_split r a len0 s = (None, s)"
    by (auto simp: mb_split_def split: option.split)
  then show ?thesis using assms(1) by simp
next
  case True
  then obtain b m0 where a: "a = Some b" and m: "mbufs s b = Some m0" and l: "0 < len0" "len0 < m_len m0" by auto
  have wf: "mbuf_wf m0" using assms(1) m by (auto simp: pool_ok_def)
  let ?len = "m_len m0 - len0"
  have len: "0 \<le> ?len" "?len < 65536" using l wf_room [OF wf] by linarith+
  show ?thesis
  proof (cases "fst (mb_get r ?len rx_tx s)")
    case None
    have "snd (mb_split r a len0 s) = snd (mb_get r ?len rx_tx s)"
      using None l by (cases "mb_get r ?len rx_tx s")
        (auto simp: mb_split_def a m mb_create_def rx_tx_def [symmetric] Let_def)
    moreover have "pool_ok (snd (mb_get r ?len rx_tx s))"
      by (rule pool_get [OF assms(1) rx_tx_facts(3) len(1)]) (use len fresh in \<open>simp_all add: rx_tx_facts\<close>)
    ultimately show ?thesis by simp
  next
    case (Some q)
    then obtain p junk where r: "r = Some (p, junk)" and nr: "\<not> rx_refused s ?len"
      using mb_get_rx_some [OF len, of r s] by auto
    let ?s' = "snd (mb_split (Some (p, junk)) (Some b) len0 s)"
    note g = mb_split_given [OF assms(1) m l fresh [OF r] nr, where junk = junk]
    note t = split_tail_facts [OF wf l, of junk]
    have bp: "b \<noteq> p" using m fresh [OF r] by auto
    let ?s1 = "?s'\<lparr>mbufs := (mbufs s)(p \<mapsto> split_tail junk m0 len0)\<rparr>"
    have ge: "- ?len \<le> uint (m_tailspace m0)" "- m_len m0 \<le> - ?len"
      using l uint_ge_0 [of "m_tailspace m0"] by linarith+
    have "pool_ok ?s1"
      by (rule pool_add [OF assms(1) fresh [OF r], of "split_tail junk m0 len0"]) (use g t in simp_all)
    then show ?thesis unfolding r a
      by (rule pool_update [of _ b m0 "mb_adj_tail m0 (- ?len)"])
        (use m bp g adj_tail_wf(1) [OF wf ge] total_adj_tail [OF wf ge] in \<open>simp_all add: limit_flag_def mb_adj_tail_def\<close>)
  qed
qed

definition demo_pool :: mb_mem where
  "demo_pool = \<lparr>tx_mem_max = 0, rx_mem_max = 0, txrx_mem_max = 0, m_tx_mem_sum = 0, m_rx_mem_sum = 0,
    m_txrx_mem_sum = 0, mbufs = [1 \<mapsto> demo_mbuf]\<rparr>"

lemma demo_pool_ok: "pool_ok demo_pool"
proof -
  have fl: "limit_flag demo_mbuf = 0" by (simp add: limit_flag_def demo_mbuf_def)
  have used: "mem_used c demo_pool = 0" for c by (cases c) (simp_all add: demo_pool_def)
  show ?thesis
    using demo_mbuf_wf ml.free_flag
    by (auto simp: pool_ok_def ml.balanced_def used block_of_def fl ml.charge_def demo_pool_def [THEN arg_cong, of mbufs])
qed

text \<open>mb_split cuts a buffer of the pool in two at \<open>len0\<close>: the buffer keeps the first \<open>len0\<close> bytes,
  the new one has the rest, and appending the rest to the first gives the data back. When the limits
  refuse the new buffer no buffer changes.
\<close>

lemma split_splits:
  assumes "pool_ok s" "mbufs s a = Some m0" "0 < len0" "len0 < m_len m0" "mbufs s p = None"
    and s': "(r, s') = mb_split (Some (p, junk)) (Some a) len0 s"
  shows "if rx_refused s (m_len m0 - len0) then r = None \<and> mbufs s' = mbufs s
    else \<exists>m h. r = Some p \<and> mbufs s' = (mbufs s)(p \<mapsto> m, a \<mapsto> h) \<and> mbuf_wf m \<and> mbuf_wf h \<and>
      payload h = take (nat len0) (payload m0) \<and> payload m = drop (nat len0) (payload m0) \<and>
      (\<exists>h'. mb_append h (int (length (payload m))) (Some (payload m)) = Some (1, h') \<and> payload h' = payload m0)"
proof -
  have wf: "mbuf_wf m0" using assms(1,2) by (auto simp: pool_ok_def)
  let ?len = "m_len m0 - len0"
  have len: "0 \<le> ?len" "?len < 65536" using assms(3,4) wf_room [OF wf] by linarith+
  show ?thesis
  proof (cases "rx_refused s ?len")
    case True
    have "mb_split (Some (p, junk)) (Some a) len0 s = (None, snd (mb_get (Some (p, junk)) ?len rx_tx s))"
      using assms(3,4) mb_get_rx [OF len(1), of p junk s] True
      by (cases "mb_get (Some (p, junk)) ?len rx_tx s")
        (auto simp: mb_split_def assms(2) mb_create_def rx_tx_def [symmetric] Let_def)
    then show ?thesis using True s' mb_get_rx_refused(2) [OF len, of "Some (p, junk)" s] by simp
  next
    case False
    let ?h = "mb_adj_tail m0 (- ?len)" and ?m = "split_tail junk m0 len0"
    note g = mb_split_given [OF assms(1-5) False, where junk = junk, folded s', unfolded fst_conv snd_conv]
    note t = split_tail_facts [OF wf assms(3,4), of junk]
    have ge: "- ?len \<le> uint (m_tailspace m0)" "- m_len m0 \<le> - ?len"
      using assms(3,4) uint_ge_0 [of "m_tailspace m0"] by linarith+
    have h: "mbuf_wf ?h" using adj_tail_wf(1) [OF wf ge] .
    have ph: "payload ?h = take (nat len0) (payload m0)"
      using payload_trim_tail [OF wf len(1)] assms(3) by simp
    have "int (length (payload ?m)) \<le> uint (m_tailspace ?h)"
      using length_payload [OF t(1)] adj_tail_wf(2) [OF wf ge] t(3) wf_total [OF t(1)] uint_ge_0 [of "m_tailspace m0"]
      by (simp add: split_tail_def Let_def mb_pkthdr_init_def new_mbuf_def)
    from append_facts [OF h this] obtain h' where
      "mb_append ?h (int (length (payload ?m))) (Some (payload ?m)) = Some (1, h')" "payload h' = payload ?h @ payload ?m"
      by auto
    then have E: "\<exists>h'. mb_append ?h (int (length (payload ?m))) (Some (payload ?m)) = Some (1, h') \<and> payload h' = payload m0"
      by (intro exI [of _ h'] conjI) (assumption, simp only: ph t(4) append_take_drop_id)
    show ?thesis unfolding if_not_P [OF False]
      by (rule exI [of _ ?m], rule exI [of _ ?h], intro conjI) (fact g t h ph E)+
  qed
qed

lemma split_splits_witness:
  "\<exists>h m. mbufs (snd (mb_split (Some (2, \<lambda>_. 0)) (Some 1) 1 demo_pool)) 1 = Some h \<and>
     mbufs (snd (mb_split (Some (2, \<lambda>_. 0)) (Some 1) 1 demo_pool)) 2 = Some m \<and> payload h = [2] \<and> payload m = [3, 4]"
proof -
  have "\<not> rx_refused demo_pool (m_len demo_mbuf - 1)" "1 < m_len demo_mbuf" "mbufs demo_pool 1 = Some demo_mbuf"
    "mbufs demo_pool 2 = None"
    by (simp_all add: rx_refused_def over_limit_def demo_pool_def demo_mbuf_def)
  then show ?thesis
    using split_splits [OF demo_pool_ok, of 1 demo_mbuf 1 2 "fst (mb_split (Some (2, \<lambda>_. 0)) (Some 1) 1 demo_pool)"
        "snd (mb_split (Some (2, \<lambda>_. 0)) (Some 1) 1 demo_pool)" "\<lambda>_. 0"]
    by (auto simp: demo_payload)
qed

text \<open>The copy mb_dup makes.\<close>

definition dup_mbuf :: "(nat \<Rightarrow> u8) \<Rightarrow> mbuf \<Rightarrow> mbuf" where
  "dup_mbuf junk m =
     (let nm = mb_adj_tail (mb_adj_head (new_mbuf junk (m_len m + uint (m_headspace m) + uint (m_tailspace m)) rx_tx)
                 (- uint (m_headspace m))) (- uint (m_tailspace m))
      in mb_pkthdr_init (nm\<lparr>m_buf := list_write (m_buf nm) (nat (m_data nm)) (payload m)\<rparr>) m (m_len m))"

lemma dup_mbuf_facts:
  assumes "mbuf_wf m"
  shows "mbuf_wf (dup_mbuf junk m)" "limit_flag (dup_mbuf junk m) = MBUF_GET_FLAG_LIMIT_RX"
    "mbuf_total (dup_mbuf junk m) = mbuf_total m" "payload (dup_mbuf junk m) = payload m"
    "m_headspace (dup_mbuf junk m) = m_headspace m" "m_tailspace (dup_mbuf junk m) = m_tailspace m"
proof -
  let ?n = "m_len m + uint (m_headspace m) + uint (m_tailspace m)" and ?d = "dup_mbuf junk m"
  have n: "?n = int (length (m_buf m))" using assms by (simp add: mbuf_wf_def)
  have lt: "0 \<le> ?n" "?n + int (fst (get_room rx_tx)) + int (snd (get_room rx_tx)) < 65536"
    unfolding n using assms by (simp_all add: mbuf_wf_def rx_tx_facts)
  have f: "limit_flag (new_mbuf junk ?n rx_tx) = MBUF_GET_FLAG_LIMIT_RX"
    using new_mbuf_wf(2) [OF lt] by (simp add: rx_tx_facts)
  show hs: "m_headspace ?d = m_headspace m" and ts: "m_tailspace ?d = m_tailspace m"
    by (simp_all add: dup_mbuf_def Let_def mb_pkthdr_init_def mb_adj_tail_def mb_adj_head_def new_mbuf_def rx_tx_facts)
  have ml: "m_len ?d = m_len m" and md: "m_data ?d = uint (m_headspace m)" and lb: "length (m_buf ?d) = length (m_buf m)"
    and pl: "pkt_len (m_pkthdr ?d) = m_len m"
    using n by (simp_all add: dup_mbuf_def Let_def mb_pkthdr_init_def mb_adj_tail_def mb_adj_head_def new_mbuf_def rx_tx_facts)
  show wf: "mbuf_wf ?d" using assms by (simp add: mbuf_wf_def hs ts ml md lb pl)
  show "mbuf_total ?d = mbuf_total m" using wf_total [OF wf] wf_total [OF assms] lb by simp
  show "limit_flag ?d = MBUF_GET_FLAG_LIMIT_RX"
    using f by (simp add: limit_flag_def dup_mbuf_def Let_def mb_pkthdr_init_def mb_adj_tail_def mb_adj_head_def new_mbuf_def)
  let ?b = "map junk [0..<nat ?n]"
  have fit: "nat (m_data m) + length (payload m) \<le> length ?b"
    using length_payload [OF assms] wf_offsets [OF assms] uint_ge_0 [of "m_tailspace m"] n
    unfolding length_map length_upt by linarith
  have mb: "m_buf ?d = list_write ?b (nat (m_data m)) (payload m)"
    using wf_offsets(3) [OF assms]
    by (simp add: dup_mbuf_def Let_def mb_pkthdr_init_def mb_adj_tail_def mb_adj_head_def new_mbuf_def rx_tx_facts)
  have "nat (m_len m) = length (payload m)" using length_payload [OF assms] by simp
  then show "payload ?d = payload m"
    using slice_list_write [OF fit] wf_offsets(3) [OF assms] by (simp add: payload_def [of ?d] ml md mb)
qed

lemma mb_dup_given:
  assumes "pool_ok s" "mbufs s a = Some m" "\<not> rx_refused s (int (length (m_buf m)))"
  shows "fst (mb_dup (Some (p, junk)) (Some a) s) = Some p"
    "mbufs (snd (mb_dup (Some (p, junk)) (Some a) s)) = (mbufs s)(p \<mapsto> dup_mbuf junk m)"
    "mem_used c (snd (mb_dup (Some (p, junk)) (Some a) s)) =
      mem_used c s + ml.charge c (MBUF_GET_FLAG_LIMIT_RX, word_of_int (mbuf_total m))"
proof -
  have wf: "mbuf_wf m" using assms(1,2) by (auto simp: pool_ok_def)
  let ?n = "m_len m + uint (m_headspace m) + uint (m_tailspace m)"
  have n: "?n = int (length (m_buf m))" using wf by (simp add: mbuf_wf_def)
  have len: "0 \<le> ?n" "?n < 65536" unfolding n using wf by (simp_all add: mbuf_wf_def)
  have nr: "\<not> rx_refused s ?n" using assms(3) n by simp
  obtain s1 where g: "mb_get (Some (p, junk)) ?n rx_tx s = (Some p, s1)"
    using mb_get_rx [OF len(1), of p junk s] nr by (cases "mb_get (Some (p, junk)) ?n rx_tx s") auto
  have m1: "mbufs s1 = (mbufs s)(p \<mapsto> new_mbuf junk ?n rx_tx)"
    and u1: "mem_used c s1 = mem_used c s + ml.charge c (MBUF_GET_FLAG_LIMIT_RX, word_of_int (MBUF_SIZE + ?n))"
    using mb_get_rx_given [OF len nr, where p = p and junk = junk] g by simp_all
  have e: "mb_dup (Some (p, junk)) (Some a) s = (Some p, s1\<lparr>mbufs := (mbufs s1)(p \<mapsto> dup_mbuf junk m)\<rparr>)"
    by (simp add: mb_dup_def assms(2) rx_tx_def [symmetric] g m1 Let_def dup_mbuf_def payload_def [symmetric])
  show "fst (mb_dup (Some (p, junk)) (Some a) s) = Some p"
    "mbufs (snd (mb_dup (Some (p, junk)) (Some a) s)) = (mbufs s)(p \<mapsto> dup_mbuf junk m)"
    by (simp_all add: e m1)
  show "mem_used c (snd (mb_dup (Some (p, junk)) (Some a) s)) =
      mem_used c s + ml.charge c (MBUF_GET_FLAG_LIMIT_RX, word_of_int (mbuf_total m))"
    using u1 n by (simp add: e wf_total [OF wf])
qed

lemma pool_dup:
  assumes "pool_ok s" and fresh: "\<And>p junk. r = Some (p, junk) \<Longrightarrow> mbufs s p = None"
  shows "pool_ok (snd (mb_dup r a s))"
proof (cases "Option.bind a (mbufs s)")
  case None
  then show ?thesis using assms(1) by (simp add: mb_dup_def)
next
  case (Some m)
  then obtain b where a: "a = Some b" and m: "mbufs s b = Some m" by (cases a) auto
  have wf: "mbuf_wf m" using assms(1) m by (auto simp: pool_ok_def)
  let ?n = "m_len m + uint (m_headspace m) + uint (m_tailspace m)"
  have n: "?n = int (length (m_buf m))" using wf by (simp add: mbuf_wf_def)
  have len: "0 \<le> ?n" "?n < 65536" unfolding n using wf by (simp_all add: mbuf_wf_def)
  show ?thesis
  proof (cases "fst (mb_get r ?n rx_tx s)")
    case None
    have "snd (mb_dup r a s) = snd (mb_get r ?n rx_tx s)"
      using None by (cases "mb_get r ?n rx_tx s") (auto simp: mb_dup_def Some rx_tx_def [symmetric] Let_def)
    moreover have "pool_ok (snd (mb_get r ?n rx_tx s))"
      by (rule pool_get [OF assms(1) rx_tx_facts(3) len(1)]) (use len fresh in \<open>simp_all add: rx_tx_facts\<close>)
    ultimately show ?thesis by simp
  next
    case (Some q)
    then obtain p junk where r: "r = Some (p, junk)" and nr: "\<not> rx_refused s ?n"
      using mb_get_rx_some [OF len, of r s] by auto
    note g = mb_dup_given [OF assms(1) m nr [unfolded n], where p = p and junk = junk]
    show ?thesis unfolding r a
      by (rule pool_add [OF assms(1) fresh [OF r], of "dup_mbuf junk m"]) (simp_all add: g dup_mbuf_facts [OF wf])
  qed
qed

section \<open>Every program over the pool\<close>

inductive mbuf_edit :: "mbuf \<Rightarrow> mbuf \<Rightarrow> bool" where
  edit_adj: "mbuf_edit m (snd (mb_adj m r))"
| edit_append: "mb_append m (int (length bs)) (Some bs) = Some (k, m') \<Longrightarrow> mbuf_edit m m'"
| edit_prepend: "MB_PREPEND m (int n) = Some m' \<Longrightarrow> mbuf_edit m m'"
| edit_reserve: "mbuf_edit m (snd (mb_reserve m (int l) h t))"
| edit_clr: "mbuf_edit m (m_clrprotoflags m)"

lemma type_edit: "mbuf_edit m m' \<Longrightarrow> m_type m' = m_type m"
  by (induction rule: mbuf_edit.induct)
    (auto simp: mb_adj_def mb_adj_head_def mb_adj_tail_def mb_append_def MB_PREPEND_def mb_reserve_def
      m_clrprotoflags_def Let_def split: if_splits)

lemma edit_keeps:
  assumes "mbuf_edit m m'" "mbuf_wf m"
  shows "mbuf_wf m' \<and> mbuf_total m' = mbuf_total m"
  using assms
proof (induction rule: mbuf_edit.induct)
  case (edit_adj m r)
  then show ?case using adj_facts by blast
next
  case (edit_append m bs k m')
  then show ?case using grow_facts [OF edit_append(2), of bs 0 0 0 0] by (auto split: if_splits)
next
  case (edit_prepend m n m')
  then show ?case using grow_facts [OF edit_prepend(2), of "[]" n 0 0 0] by (auto split: if_splits)
next
  case (edit_reserve m l h t)
  then show ?case using grow_facts [OF edit_reserve, of "[]" 0 h l t] by (auto split: if_splits)
next
  case (edit_clr m)
  then show ?case by (simp add: m_clrprotoflags_def mbuf_wf_def mbuf_total_def)
qed

text \<open>
  Allocation with at most one limit flag and a size that fits the 16 bit room fields, at an address
  that is not in use; the other operations in any order.
\<close>

definition malloc_fresh :: "(nat \<times> (nat \<Rightarrow> u8)) option \<Rightarrow> mb_mem \<Rightarrow> bool" where
  "malloc_fresh r s = (case r of None \<Rightarrow> True | Some (p, _) \<Rightarrow> mbufs s p = None)"

inductive mb_reach :: "mb_mem \<Rightarrow> bool" where
  mem_start: "mb_reach \<lparr>tx_mem_max = tx, rx_mem_max = rx, txrx_mem_max = txrx, m_tx_mem_sum = 0, m_rx_mem_sum = 0,
    m_txrx_mem_sum = 0, mbufs = Map.empty\<rparr>"
| mem_limit: "mb_reach s \<Longrightarrow> mb_reach (mb_mem_set_limit tx rx txrx s)"
| mem_get: "mb_reach s \<Longrightarrow> malloc_fresh r s \<Longrightarrow> one_limit (get_flag tx) \<Longrightarrow> len < 65000 \<Longrightarrow>
    mb_reach (snd (mb_get r len tx s))"
| mem_free: "mb_reach s \<Longrightarrow> mb_reach (mb_free p s)"
| mem_edit: "mb_reach s \<Longrightarrow> mbufs s a = Some m \<Longrightarrow> mbuf_edit m m' \<Longrightarrow> mb_reach (s\<lparr>mbufs := (mbufs s)(a \<mapsto> m')\<rparr>)"
| mem_pullup: "mb_reach s \<Longrightarrow> mb_reach (snd (mb_pullup a len s))"
| mem_dup: "mb_reach s \<Longrightarrow> malloc_fresh r s \<Longrightarrow> mb_reach (snd (mb_dup r p s))"
| mem_split: "mb_reach s \<Longrightarrow> malloc_fresh r s \<Longrightarrow> mb_reach (snd (mb_split r p len0 s))"

lemma pool_limit: "pool_ok s \<Longrightarrow> pool_ok (mb_mem_set_limit tx rx txrx s)"
proof -
  have "mem_used c (mb_mem_set_limit tx rx txrx s) = mem_used c s" for c
    by (cases c) (simp_all add: mb_mem_set_limit_def)
  moreover have "mbufs (mb_mem_set_limit tx rx txrx s) = mbufs s" by (simp add: mb_mem_set_limit_def)
  ultimately show "pool_ok s \<Longrightarrow> pool_ok (mb_mem_set_limit tx rx txrx s)"
    by (auto simp: pool_ok_def ml.balanced_def block_of_def)
qed

lemma mb_reach_ok: "mb_reach s \<Longrightarrow> pool_ok s"
proof (induction rule: mb_reach.induct)
  case (mem_start tx rx txrx)
  have "mem_used c \<lparr>tx_mem_max = tx, rx_mem_max = rx, txrx_mem_max = txrx, m_tx_mem_sum = 0, m_rx_mem_sum = 0,
    m_txrx_mem_sum = 0, mbufs = Map.empty\<rparr> = 0" for c by (cases c) simp_all
  then show ?case by (simp add: pool_ok_def ml.balanced_def)
next
  case (mem_limit s tx rx txrx)
  then show ?case by (simp add: pool_limit)
next
  case (mem_get s r tx len)
  show ?case
  proof (cases "len < 0")
    case True
    then show ?thesis using mem_get by (simp add: mb_get_def)
  next
    case False
    then show ?thesis using mem_get
      by (intro pool_get)
        (auto simp: get_room_def MBUF_HEAD_SPACE_def MBUF_TAIL_SPACE_def malloc_fresh_def)
  qed
next
  case (mem_free s p)
  then show ?case by (simp add: pool_free)
next
  case (mem_edit s a m m')
  have wf: "mbuf_wf m" using mem_edit by (auto simp: pool_ok_def)
  show ?case
    by (rule pool_update [OF mem_edit(4,2)])
      (use edit_keeps [OF mem_edit(3) wf] type_edit [OF mem_edit(3)] in \<open>simp_all add: limit_flag_def\<close>)
next
  case (mem_pullup s a len)
  then show ?case by (auto simp: mb_pullup_def pool_free split: option.split)
next
  case (mem_dup s r p)
  then show ?case by (intro pool_dup) (auto simp: malloc_fresh_def)
next
  case (mem_split s r p len0)
  then show ?case by (intro pool_split) (auto simp: malloc_fresh_def)
qed

text \<open>Flag and size of the live buffers, summed per limit.\<close>

definition live_sum :: "mb_mem \<Rightarrow> (u8 \<Rightarrow> bool) \<Rightarrow> u32" where
  "live_sum s counted = (\<Sum>a\<in>dom (mbufs s). if counted (limit_flag (the (mbufs s a)))
     then word_of_int (mbuf_total (the (mbufs s a))) else 0)"

lemma live_sum_charge:
  "live_sum s (\<lambda>f. flag_counts f c) = (\<Sum>a\<in>dom (mbufs s). ml.charge c (block_of s a))"
  unfolding live_sum_def by (rule sum.cong) (auto simp: block_of_def ml.charge_def)


definition fresh_pool :: mb_mem where
  "fresh_pool = \<lparr>tx_mem_max = 20480, rx_mem_max = 20480, txrx_mem_max = 32768, m_tx_mem_sum = 0, m_rx_mem_sum = 0,
    m_txrx_mem_sum = 0, mbufs = Map.empty\<rparr>"


text \<open>mb_dup of a buffer of the pool gives a new buffer with the same data and the same head and tail
  room, and leaves the original as it was; it fails only when the limits refuse it or malloc has no memory.
\<close>

lemma dup_copies:
  assumes "pool_ok s" "mbufs s a = Some m" "mbufs s p = None" "(r, s') = mb_dup (Some (p, junk)) (Some a) s"
    "\<not> rx_refused s (int (length (m_buf m)))"
  shows "r = Some p \<and> mbufs s' a = Some m \<and>
    (\<exists>d. mbufs s' p = Some d \<and> payload d = payload m \<and> m_headspace d = m_headspace m \<and>
      m_tailspace d = m_tailspace m \<and> mbuf_wf d)"
proof -
  note g = mb_dup_given [OF assms(1,2,5), where p = p and junk = junk, folded assms(4), unfolded fst_conv snd_conv]
  have "mbuf_wf m" "a \<noteq> p" using assms(1-3) by (auto simp: pool_ok_def)
  then show ?thesis using assms(2) dup_mbuf_facts [of m junk] g(1,2) by simp
qed

lemma dup_copies_witness:
  "\<exists>d. mbufs (snd (mb_dup (Some (2, \<lambda>_. 0)) (Some 1) demo_pool)) 2 = Some d \<and> payload d = [2, 3, 4]"
proof -
  have "\<not> rx_refused demo_pool (int (length (m_buf demo_mbuf)))" "mbufs demo_pool 1 = Some demo_mbuf" "mbufs demo_pool 2 = None"
    by (simp_all add: rx_refused_def over_limit_def demo_pool_def demo_mbuf_def)
  then show ?thesis
    using dup_copies [OF demo_pool_ok, of 1 demo_mbuf 2 "fst (mb_dup (Some (2, \<lambda>_. 0)) (Some 1) demo_pool)"
        "snd (mb_dup (Some (2, \<lambda>_. 0)) (Some 1) demo_pool)" "\<lambda>_. 0"]
    by (auto simp: demo_payload)
qed

lemma inc_both_leaks:
  assumes "\<not> over_limit (txrx_mem_max s) (m_txrx_mem_sum s + w)" "\<not> over_limit (tx_mem_max s) (m_tx_mem_sum s + w)"
    "over_limit (rx_mem_max s) (m_rx_mem_sum s + w)"
  shows "mb_limit_mem_inc 0x30 w s = (False, s\<lparr>m_tx_mem_sum := m_tx_mem_sum s + w\<rparr>)"
  using assms by (simp add: mb_limit_mem_inc_def Let_def MBUF_GET_FLAG_LIMIT_TX_def MBUF_GET_FLAG_LIMIT_RX_def)

text \<open>With both limit flags a refused charge is not undone: when the TX limit accepts the buffer and
  the RX limit refuses it, mb_get returns NULL but the TX sum keeps the size of the buffer for ever.
\<close>

lemma both_flags_leak:
  assumes "0 \<le> len" "tx AND MBUF_GET_FLAG_MASK = 0x30" "tx AND 1 = 0"
    and "\<not> over_limit (txrx_mem_max s) (m_txrx_mem_sum s + word_of_int (MBUF_SIZE + len))"
      "\<not> over_limit (tx_mem_max s) (m_tx_mem_sum s + word_of_int (MBUF_SIZE + len))"
      "over_limit (rx_mem_max s) (m_rx_mem_sum s + word_of_int (MBUF_SIZE + len))"
  shows "mb_get r len tx s = (None, s\<lparr>m_tx_mem_sum := m_tx_mem_sum s + word_of_int (MBUF_SIZE + len)\<rparr>)"
  using assms(1-3) inc_both_leaks [OF assms(4-6)]
  by (simp add: mb_get_def Let_def)

lemma both_flags_leak_witness:
  "m_tx_mem_sum (snd (mb_get None 100 0x30 (fresh_pool\<lparr>txrx_mem_max := 0, tx_mem_max := 0, rx_mem_max := 64\<rparr>))) = 148"
  using both_flags_leak [where len = 100 and tx = "0x30" and r = None
      and s = "fresh_pool\<lparr>txrx_mem_max := 0, tx_mem_max := 0, rx_mem_max := 64\<rparr>"]
  by (simp add: MBUF_GET_FLAG_MASK_def over_limit_def fresh_pool_def MBUF_SIZE_def)

end
