(* ===== verification/At_Parameter.thy ===== *)
theory At_Parameter
  imports Prelude
begin

text \<open>
  The parameters of AT commands, src/atcmd/at_parameter.c: five types of value (text, hex bytes,
  decimal, hexadecimal, IP address), the functions that parse each from the command line, the loop
  over a command's list of parameters, and the printing of values. A pointer into the command line is
  the list of the characters from there on; behind the end of the buffer the model reads zeros.
\<close>

unbundle bit_operations_syntax

section \<open>Types and constants\<close>

datatype AT_PARA_TYPE = APT_TEXT | APT_HEX | APT_DI | APT_HI | APT_IP

datatype at_value_t = V_text string | V_hex "u8 list" | V_di int | V_hi u32 | V_ip "u8 list"

record at_para_descriptor_t =
  pt :: AT_PARA_TYPE
  option :: u32

datatype AT_ERROR_CODE =
    AEC_OK | AEC_BLANK_LINE | AEC_CMD_ERROR | AEC_PARA_ERROR | AEC_NO_PARA | AEC_UNSUPPORTED | AEC_NOT_FOUND
  | AEC_NULL_POINTER | AEC_OUT_OF_RANGE | AEC_SCAN_FAIL | AEC_READ_ONLY | AEC_SEND_FAIL | AEC_SWITCH_MODE
  | AEC_CONNECT_FAIL | AEC_BIND_FAIL | AEC_SOCKET_FAIL | AEC_LIMITED | AEC_DISCONNECT | AEC_NETWORK_ERROR
  | AEC_NOT_ENOUGH_MEMORY | AEC_IMPROPER_OPERATION | AEC_UNDEFINED

definition AT_PARA_MAX_SIZE :: nat where "AT_PARA_MAX_SIZE = 64"
definition AT_SEPARATOR :: char where "AT_SEPARATOR = CHR '',''"
definition AT_CR :: char where "AT_CR = CHR 0x0D"
definition AT_LF :: char where "AT_LF = CHR 0x0A"
definition AT_DOT :: char where "AT_DOT = CHR ''.''"
definition AET_PARA :: u32 where "AET_PARA = 256"
definition AET_LINE :: u32 where "AET_LINE = 512"
definition SIZE_LIMIT :: "u32 \<Rightarrow> nat" where "SIZE_LIMIT opt = unat (opt AND 127)"

definition code :: "char \<Rightarrow> nat" where "code c = of_char c"

definition cur :: "string \<Rightarrow> char" where "cur para = (case para of [] \<Rightarrow> CHR 0x00 | c # _ \<Rightarrow> c)"

section \<open>Characters and numbers\<close>

definition is_hex :: "char \<Rightarrow> bool" where
  "is_hex ch = (48 \<le> code ch \<and> code ch \<le> 57 \<or> 65 \<le> code ch \<and> code ch \<le> 70 \<or> 97 \<le> code ch \<and> code ch \<le> 102)"

definition hex_to_num :: "char \<Rightarrow> int" where
  "hex_to_num ch =
     (if 48 \<le> code ch \<and> code ch \<le> 57 then int (code ch) - 48
      else if 65 \<le> code ch \<and> code ch \<le> 70 then int (code ch) - 65 + 10
      else if 97 \<le> code ch \<and> code ch \<le> 102 then int (code ch) - 97 + 10
      else -1)"

definition is_dec :: "char \<Rightarrow> bool" where
  "is_dec ch = (48 \<le> code ch \<and> code ch \<le> 57)"

text \<open>atoi of a string of digits and \<open>%x\<close> of a string of hex digits; both saturate.\<close>

definition dec_val :: "string \<Rightarrow> nat" where
  "dec_val ds = foldl (\<lambda>a c. a * 10 + (code c - 48)) 0 ds"

definition hex_val :: "string \<Rightarrow> nat" where
  "hex_val ds = foldl (\<lambda>a c. a * 16 + nat (hex_to_num c)) 0 ds"

definition at_atoi :: "string \<Rightarrow> int" where
  "at_atoi ds = int (min (dec_val ds) 2147483647)"

definition sscanf_x :: "string \<Rightarrow> u32" where
  "sscanf_x ds = of_nat (min (hex_val ds) 0xFFFFFFFF)"

section \<open>The end of a parameter\<close>

text \<open>
  The test at the head of each loop: the kind of end, whether the line is over, and what follows.
\<close>

definition at_end :: "string \<Rightarrow> (u32 \<times> bool \<times> string) option" where
  "at_end para =
     (if cur para = AT_SEPARATOR then Some (AET_PARA, False, tl para)
      else if cur para = AT_CR
      then Some (AET_LINE, True, if cur (tl para) = AT_LF then tl (tl para) else tl para)
      else if cur para = AT_LF then Some (AET_LINE, True, tl para)
      else None)"

text \<open>What a loop leaves: the collected values, the unfinished digits, the rest of the line, the kind of
  end (0 for none), whether the line is over, and the error flag.\<close>

record 'a para_loop =
  l_buf :: "'a list"
  l_digits :: string
  l_para :: string
  l_end :: u32
  l_over :: bool
  l_error :: bool

definition ended :: "'a list \<Rightarrow> string \<Rightarrow> u32 \<times> bool \<times> string \<Rightarrow> 'a para_loop" where
  "ended buf digits e =
     \<lparr>l_buf = buf, l_digits = digits, l_para = snd (snd e), l_end = fst e, l_over = fst (snd e), l_error = False\<rparr>"

definition stopped :: "'a list \<Rightarrow> string \<Rightarrow> string \<Rightarrow> bool \<Rightarrow> 'a para_loop" where
  "stopped buf digits para err =
     \<lparr>l_buf = buf, l_digits = digits, l_para = para, l_end = 0, l_over = False, l_error = err\<rparr>"

text \<open>What a parse function gives: over flag, error flag, the rest of the line, the value written.\<close>

record para_res =
  r_over :: bool
  r_error :: bool
  r_para :: string
  r_value :: "at_value_t option"

section \<open>Parse functions\<close>

text \<open>In each loop \<open>n\<close> is \<open>size_limit - cnt\<close>.\<close>

fun text_loop :: "nat \<Rightarrow> string \<Rightarrow> string \<Rightarrow> char para_loop" where
  "text_loop 0 buf para = stopped buf [] para False"
| "text_loop (Suc n) buf para =
     (case at_end para of
        Some e \<Rightarrow> ended buf [] e
      | None \<Rightarrow> text_loop n (buf @ [cur para]) (tl para))"

definition get_text_para :: "u32 \<Rightarrow> string \<Rightarrow> para_res" where
  "get_text_para opt para =
     (let size_limit = SIZE_LIMIT opt;
          l = text_loop size_limit [] para;
          cnt = length (l_buf l);
          error = (l_end l AND opt = 0 \<or> \<not> (cnt > 0 \<and> cnt < size_limit))
      in \<lparr>r_over = l_over l, r_error = error, r_para = l_para l,
          r_value = (if error then None else Some (V_text (l_buf l)))\<rparr>)"

definition hex_byte :: "string \<Rightarrow> u8" where
  "hex_byte hexbuf = word_of_int (hex_to_num (hexbuf ! 0) * 16 + hex_to_num (hexbuf ! 1))"

function hex_loop :: "nat \<Rightarrow> string \<Rightarrow> u8 list \<Rightarrow> string \<Rightarrow> u8 para_loop" where
  "hex_loop n hexbuf buf para =
     (if n = 0 then stopped buf hexbuf para False
      else case at_end para of
             Some e \<Rightarrow> ended buf hexbuf e
           | None \<Rightarrow>
               if length hexbuf < 2
               then if is_hex (cur para) then hex_loop n (hexbuf @ [cur para]) buf (tl para)
                    else stopped buf hexbuf para True
               else if length hexbuf = 2 then hex_loop (n - 1) [] (buf @ [hex_byte hexbuf]) para
               else stopped buf hexbuf para True)"
  by pat_completeness auto
termination
  by (relation "measure (\<lambda>(n, hexbuf, buf, para). 3 * n - length hexbuf)") auto

declare hex_loop.simps [simp del]

text \<open>At the end the pending pair is stored, after one more character of the line is skipped.\<close>

definition get_hex_para :: "u32 \<Rightarrow> string \<Rightarrow> para_res" where
  "get_hex_para opt para =
     (let l = hex_loop (SIZE_LIMIT opt) [] [] para;
          ok_end = (l_end l AND opt \<noteq> 0 \<and> length (l_digits l) = 2);
          error = (l_error l \<or> \<not> ok_end)
      in \<lparr>r_over = l_over l, r_error = error,
          r_para = (if ok_end then tl (l_para l) else l_para l),
          r_value = (if error then None
                     else Some (V_hex (let bs = l_buf l @ [hex_byte (l_digits l)]
                                       in bs @ replicate (SIZE_LIMIT opt - length bs) 0)))\<rparr>)"

fun digits_loop :: "(char \<Rightarrow> bool) \<Rightarrow> nat \<Rightarrow> string \<Rightarrow> string \<Rightarrow> char para_loop" where
  "digits_loop ok 0 buf para = stopped buf [] para False"
| "digits_loop ok (Suc n) buf para =
     (case at_end para of
        Some e \<Rightarrow> ended buf [] e
      | None \<Rightarrow> if ok (cur para) then digits_loop ok n (buf @ [cur para]) (tl para)
                else stopped buf [] para True)"

definition get_number :: "(char \<Rightarrow> bool) \<Rightarrow> (string \<Rightarrow> at_value_t) \<Rightarrow> u32 \<Rightarrow> string \<Rightarrow> para_res" where
  "get_number ok conv opt para =
     (let size_limit = 10 + 1;
          l = digits_loop ok size_limit [] para;
          cnt = length (l_buf l);
          error = (l_error l \<or> l_end l AND opt = 0 \<or> \<not> (cnt > 0 \<and> cnt < size_limit))
      in \<lparr>r_over = l_over l, r_error = error, r_para = l_para l,
          r_value = (if error then None else Some (conv (l_buf l)))\<rparr>)"

definition get_di_para :: "u32 \<Rightarrow> string \<Rightarrow> para_res" where
  "get_di_para = get_number is_dec (\<lambda>ds. V_di (at_atoi ds))"

definition get_hi_para :: "u32 \<Rightarrow> string \<Rightarrow> para_res" where
  "get_hi_para = get_number is_hex (\<lambda>ds. V_hi (sscanf_x ds))"

text \<open>One octet of an address: up to three digits, at most 255.\<close>

definition octet :: "string \<Rightarrow> u8 option" where
  "octet decbuf =
     (if length decbuf \<ge> 1 \<and> length decbuf \<le> 3 \<and> at_atoi decbuf \<ge> 0 \<and> at_atoi decbuf \<le> 255
      then Some (word_of_int (at_atoi decbuf)) else None)"

function ip_loop :: "nat \<Rightarrow> string \<Rightarrow> u8 list \<Rightarrow> string \<Rightarrow> u8 para_loop" where
  "ip_loop n decbuf buf para =
     (if n = 0 then stopped buf decbuf para False
      else case at_end para of
             Some e \<Rightarrow> ended buf decbuf e
           | None \<Rightarrow>
               if cur para = AT_DOT
               then case octet decbuf of
                      Some b \<Rightarrow> ip_loop (n - 1) [] (buf @ [b]) (tl para)
                    | None \<Rightarrow> stopped buf [] (tl para) True
               else if is_dec (cur para)
               then if length decbuf < 3 then ip_loop n (decbuf @ [cur para]) buf (tl para)
                    else stopped buf decbuf para True
               else stopped buf decbuf para True)"
  by pat_completeness auto
termination
  by (relation "measure (\<lambda>(n, decbuf, buf, para). 4 * n - length decbuf)") (auto simp: octet_def split: if_splits)

declare ip_loop.simps [simp del]

definition get_ip_para :: "u32 \<Rightarrow> string \<Rightarrow> para_res" where
  "get_ip_para opt para =
     (let l = ip_loop 4 [] [] para;
          bs = l_buf l @ (case octet (l_digits l) of Some b \<Rightarrow> [b] | None \<Rightarrow> []);
          error = (l_error l \<or> l_end l AND opt = 0 \<or> octet (l_digits l) = None \<or> length bs \<noteq> 4)
      in \<lparr>r_over = l_over l, r_error = error, r_para = l_para l,
          r_value = (if error then None else Some (V_ip bs))\<rparr>)"

section \<open>A command's parameters\<close>

definition get_para :: "at_para_descriptor_t \<Rightarrow> string \<Rightarrow> para_res" where
  "get_para d para =
     (case pt d of
        APT_TEXT \<Rightarrow> get_text_para (option d) para
      | APT_HEX \<Rightarrow> get_hex_para (option d) para
      | APT_DI \<Rightarrow> get_di_para (option d) para
      | APT_HI \<Rightarrow> get_hi_para (option d) para
      | APT_IP \<Rightarrow> get_ip_para (option d) para)"

definition at_get_newline :: "string \<Rightarrow> AT_ERROR_CODE" where
  "at_get_newline para = (if cur para = AT_LF \<or> cur para = AT_CR then AEC_OK else AEC_CMD_ERROR)"

text \<open>The loop gives the code, the rest of the line and the values that were read (their number is paracnt).\<close>

fun para_list :: "at_para_descriptor_t list \<Rightarrow> string \<Rightarrow> at_value_t list \<Rightarrow> AT_ERROR_CODE \<times> string \<times> at_value_t list" where
  "para_list [] para vs = (AEC_OK, para, vs)"
| "para_list (d # ds) para vs =
     (let r = get_para d para
      in if r_error r then (AEC_PARA_ERROR, r_para r, vs)
         else let vs' = vs @ (case r_value r of Some v \<Rightarrow> [v] | None \<Rightarrow> [])
              in if r_over r then (AEC_OK, r_para r, vs') else para_list ds (r_para r) vs')"

definition at_get_parameters :: "at_para_descriptor_t list \<Rightarrow> string \<Rightarrow> AT_ERROR_CODE \<times> string \<times> at_value_t list" where
  "at_get_parameters ds para = (if ds = [] then (at_get_newline para, para, []) else para_list ds para [])"

section \<open>Printing\<close>

definition digit :: "nat \<Rightarrow> char" where
  "digit d = char_of (if d < 10 then 48 + d else 55 + d)"

fun dec_digits :: "nat \<Rightarrow> string" where
  "dec_digits n = (if n < 10 then [digit n] else dec_digits (n div 10) @ [digit (n mod 10)])"

declare dec_digits.simps [simp del]

text \<open>\<open>%0kX\<close> of a value of at most \<open>k\<close> digits.\<close>

fun hex_digits :: "nat \<Rightarrow> nat \<Rightarrow> string" where
  "hex_digits 0 n = []"
| "hex_digits (Suc k) n = hex_digits k (n div 16) @ [digit (n mod 16)]"

fun sep_by :: "char \<Rightarrow> string list \<Rightarrow> string" where
  "sep_by c [] = []"
| "sep_by c [s] = s"
| "sep_by c (s # t # ts) = s @ c # sep_by c (t # ts)"

definition at_get_value :: "at_value_t \<Rightarrow> string" where
  "at_get_value v =
     (case v of
        V_di i \<Rightarrow> (if i < 0 then CHR ''-'' # dec_digits (nat (- i)) else dec_digits (nat i))
      | V_hi w \<Rightarrow> ''0x'' @ hex_digits 8 (unat w)
      | V_hex bs \<Rightarrow> sep_by (CHR '':'') (map (\<lambda>b. hex_digits 2 (unat b)) bs)
      | V_ip bs \<Rightarrow> sep_by AT_DOT (map (\<lambda>b. dec_digits (unat b)) bs)
      | V_text s \<Rightarrow> s)"

definition at_set_value :: "nat \<Rightarrow> at_value_t \<Rightarrow> at_value_t" where
  "at_set_value vsize value =
     (case value of V_hex bs \<Rightarrow> V_hex (take vsize bs) | V_ip bs \<Rightarrow> V_ip (take vsize bs) | _ \<Rightarrow> value)"

section \<open>Digits\<close>

lemma code_digit: "d < 16 \<Longrightarrow> code (digit d) = (if d < 10 then 48 + d else 55 + d)"
  by (auto simp: code_def digit_def)

lemma is_dec_digit: "d < 10 \<Longrightarrow> is_dec (digit d)"
  by (simp add: is_dec_def code_digit)

lemma is_hex_digit: "d < 16 \<Longrightarrow> is_hex (digit d)"
  by (auto simp: is_hex_def code_digit)

lemma hex_to_num_digit: "d < 16 \<Longrightarrow> hex_to_num (digit d) = int d"
  by (auto simp: hex_to_num_def code_digit)

lemma dec_digits_dec: "list_all is_dec (dec_digits n)"
  by (induction n rule: dec_digits.induct) (subst dec_digits.simps, simp add: is_dec_digit)

lemma dec_digits_ne: "dec_digits n \<noteq> []"
  by (subst dec_digits.simps) simp

lemma dec_val_snoc: "dec_val (ds @ [c]) = dec_val ds * 10 + (code c - 48)"
  by (simp add: dec_val_def)

lemma dec_val_digits: "dec_val (dec_digits n) = n"
proof (induction n rule: dec_digits.induct)
  case (1 n)
  show ?case
  proof (cases "n < 10")
    case True
    then show ?thesis by (subst dec_digits.simps) (simp add: dec_val_def code_digit)
  next
    case False
    then have "dec_digits n = dec_digits (n div 10) @ [digit (n mod 10)]" by (subst dec_digits.simps) simp
    then show ?thesis using 1 False by (simp add: dec_val_snoc code_digit)
  qed
qed

lemma length_dec_digits: "n < 10 ^ k \<Longrightarrow> 0 < k \<Longrightarrow> length (dec_digits n) \<le> k"
proof (induction k arbitrary: n)
  case 0
  then show ?case by simp
next
  case (Suc k)
  show ?case
  proof (cases "n < 10")
    case True
    then show ?thesis by (subst dec_digits.simps) simp
  next
    case False
    then have k: "0 < k" using Suc.prems(1) by (cases k) auto
    have "n div 10 < 10 ^ k" using Suc.prems(1) by (simp add: less_mult_imp_div_less mult.commute)
    then have "length (dec_digits (n div 10)) \<le> k" using Suc.IH k by simp
    then show ?thesis using False by (subst dec_digits.simps) simp
  qed
qed

lemma hex_digits_hex: "list_all is_hex (hex_digits k n)"
  by (induction k arbitrary: n) (simp_all add: is_hex_digit)

lemma length_hex_digits [simp]: "length (hex_digits k n) = k"
  by (induction k arbitrary: n) simp_all

lemma hex_val_snoc: "hex_val (ds @ [c]) = hex_val ds * 16 + nat (hex_to_num c)"
  by (simp add: hex_val_def)

lemma hex_val_digits: "n < 16 ^ k \<Longrightarrow> hex_val (hex_digits k n) = n"
proof (induction k arbitrary: n)
  case 0
  then show ?case by (simp add: hex_val_def)
next
  case (Suc k)
  have "n div 16 < 16 ^ k" using Suc.prems by (simp add: less_mult_imp_div_less mult.commute)
  then show ?case using Suc.IH by (simp add: hex_val_snoc hex_to_num_digit)
qed

section \<open>The loops over a well-formed parameter\<close>

definition plain :: "char \<Rightarrow> bool" where "plain c = (c \<noteq> AT_SEPARATOR \<and> c \<noteq> AT_CR \<and> c \<noteq> AT_LF)"

lemma at_end_plain: "plain c \<Longrightarrow> at_end (c # r) = None"
  by (simp add: at_end_def plain_def cur_def)

lemma code_inj: "c = d \<Longrightarrow> code c = code d"
  by simp

lemma hex_plain: "is_hex c \<Longrightarrow> plain c"
  by (auto simp: plain_def is_hex_def AT_SEPARATOR_def AT_CR_def AT_LF_def code_def)

lemma dec_hex: "is_dec c \<Longrightarrow> is_hex c"
  by (simp add: is_dec_def is_hex_def)

lemma dec_not_dot: "is_dec c \<Longrightarrow> c \<noteq> AT_DOT"
  by (auto simp: is_dec_def AT_DOT_def code_def)

lemma text_loop_plain:
  "list_all plain s \<Longrightarrow> length s < n \<Longrightarrow> at_end rest = Some e \<Longrightarrow> text_loop n buf (s @ rest) = ended (buf @ s) [] e"
proof (induction s arbitrary: n buf)
  case Nil
  then show ?case by (cases n) auto
next
  case (Cons c s)
  then obtain m where "n = Suc m" by (cases n) auto
  then show ?case using Cons by (simp add: at_end_plain cur_def)
qed

lemma digits_loop_ok:
  assumes "\<And>c. ok c \<Longrightarrow> plain c"
  shows "list_all ok s \<Longrightarrow> length s < n \<Longrightarrow> at_end rest = Some e \<Longrightarrow>
    digits_loop ok n buf (s @ rest) = ended (buf @ s) [] e"
proof (induction s arbitrary: n buf)
  case Nil
  then show ?case by (cases n) auto
next
  case (Cons c s)
  then obtain m where "n = Suc m" by (cases n) auto
  then show ?case using Cons assms by (simp add: at_end_plain cur_def)
qed

lemma ip_loop_digits:
  "list_all is_dec s \<Longrightarrow> length d + length s \<le> 3 \<Longrightarrow> 0 < n \<Longrightarrow>
     ip_loop n d buf (s @ rest) = ip_loop n (d @ s) buf rest"
proof (induction s arbitrary: d)
  case Nil
  then show ?case by simp
next
  case (Cons c s)
  then have "ip_loop n d buf ((c # s) @ rest) = ip_loop n (d @ [c]) buf (s @ rest)"
    by (subst ip_loop.simps) (simp add: at_end_plain hex_plain dec_hex dec_not_dot cur_def)
  then show ?case using Cons by simp
qed

lemma octet_digits: "n < 256 \<Longrightarrow> octet (dec_digits n) = Some (of_nat n)"
  using length_dec_digits [of n 3] dec_digits_ne [of n]
  by (auto simp: octet_def at_atoi_def dec_val_digits Suc_le_eq)

lemma dot_plain: "plain AT_DOT"
  by (simp add: plain_def AT_DOT_def AT_SEPARATOR_def AT_CR_def AT_LF_def)

lemma ip_loop_octet:
  assumes "0 < n"
  shows "ip_loop n [] buf (dec_digits (unat b) @ AT_DOT # rest) = ip_loop (n - 1) [] (buf @ [b :: u8]) rest"
proof -
  have b: "unat b < 256" by (rule unat_u8)
  have "ip_loop n [] buf (dec_digits (unat b) @ AT_DOT # rest) = ip_loop n (dec_digits (unat b)) buf (AT_DOT # rest)"
    using ip_loop_digits [of "dec_digits (unat b)" "[]" n buf "AT_DOT # rest"] dec_digits_dec assms
      length_dec_digits [of "unat b" 3] b by simp
  also have "\<dots> = ip_loop (n - 1) [] (buf @ [b]) rest"
    using assms by (subst ip_loop.simps) (simp add: at_end_plain dot_plain cur_def octet_digits b)
  finally show ?thesis .
qed

lemma ip_loop_last:
  assumes "0 < n" "at_end rest = Some e"
  shows "ip_loop n [] buf (dec_digits (unat (b :: u8)) @ rest) = ended buf (dec_digits (unat b)) e"
proof -
  have b: "unat b < 256" by (rule unat_u8)
  have "ip_loop n [] buf (dec_digits (unat b) @ rest) = ip_loop n (dec_digits (unat b)) buf rest"
    using ip_loop_digits [of "dec_digits (unat b)" "[]" n buf rest] dec_digits_dec assms
      length_dec_digits [of "unat b" 3] b by simp
  also have "\<dots> = ended buf (dec_digits (unat b)) e"
    using assms by (subst ip_loop.simps) simp
  finally show ?thesis .
qed

section \<open>The contract of a parse function\<close>

text \<open>
  \<open>enc\<close> is the text of a value, \<open>fits\<close> says which values the option's size admits: followed by an
  end that the option allows, the text is parsed to the value, and what is left starts right after the end.
\<close>

locale para_parser =
  fixes parse :: "u32 \<Rightarrow> string \<Rightarrow> para_res"
    and enc :: "'v \<Rightarrow> string"
    and val :: "'v \<Rightarrow> at_value_t"
    and fits :: "u32 \<Rightarrow> 'v \<Rightarrow> bool"
  assumes parse_end: "fits opt v \<Longrightarrow> at_end rest = Some e \<Longrightarrow> fst e AND opt \<noteq> 0 \<Longrightarrow>
    parse opt (enc v @ rest) =
      \<lparr>r_over = fst (snd e), r_error = False, r_para = snd (snd e), r_value = Some (val v)\<rparr>"
begin

lemma parse_sep:
  "fits opt v \<Longrightarrow> AET_PARA AND opt \<noteq> 0 \<Longrightarrow>
   parse opt (enc v @ AT_SEPARATOR # r) = \<lparr>r_over = False, r_error = False, r_para = r, r_value = Some (val v)\<rparr>"
  by (subst parse_end [of opt v _ "(AET_PARA, False, r)"]) (simp_all add: at_end_def cur_def)

lemma parse_crlf:
  "fits opt v \<Longrightarrow> AET_LINE AND opt \<noteq> 0 \<Longrightarrow>
   parse opt (enc v @ AT_CR # AT_LF # r) = \<lparr>r_over = True, r_error = False, r_para = r, r_value = Some (val v)\<rparr>"
  by (subst parse_end [of opt v _ "(AET_LINE, True, r)"])
    (simp_all add: at_end_def cur_def AT_SEPARATOR_def AT_CR_def AT_LF_def)

end

definition text_fits :: "u32 \<Rightarrow> string \<Rightarrow> bool" where
  "text_fits opt s = (list_all plain s \<and> s \<noteq> [] \<and> length s < SIZE_LIMIT opt)"

interpretation text_pp: para_parser get_text_para "\<lambda>s. s" V_text text_fits
proof
  fix opt s rest e
  assume "text_fits opt s" "at_end rest = Some e" "fst e AND opt \<noteq> 0"
  then show "get_text_para opt (s @ rest) =
      \<lparr>r_over = fst (snd e), r_error = False, r_para = snd (snd e), r_value = Some (V_text s)\<rparr>"
    by (simp add: get_text_para_def text_fits_def text_loop_plain ended_def Let_def)
qed

lemma get_number_ok:
  assumes "\<And>c. ok c \<Longrightarrow> plain c" "list_all ok s" "s \<noteq> []" "length s \<le> 10" "at_end rest = Some e" "fst e AND opt \<noteq> 0"
  shows "get_number ok conv opt (s @ rest) =
      \<lparr>r_over = fst (snd e), r_error = False, r_para = snd (snd e), r_value = Some (conv s)\<rparr>"
proof -
  have "digits_loop ok 11 [] (s @ rest) = ended s [] e"
    using digits_loop_ok [of ok, OF assms(1) assms(2), of 11 rest e "[]"] assms(4,5) by simp
  then show ?thesis using assms by (simp add: get_number_def ended_def Let_def)
qed

interpretation di_pp: para_parser get_di_para dec_digits "\<lambda>n. V_di (int n)" "\<lambda>opt n. n < 2147483648"
proof
  fix opt :: u32 and n :: nat and rest e
  assume n: "n < 2147483648" and e: "at_end rest = Some e" "fst e AND opt \<noteq> 0"
  have l: "length (dec_digits n) \<le> 10" using length_dec_digits [of n 10] n by simp
  have "is_dec c \<Longrightarrow> plain c" for c by (simp add: hex_plain dec_hex)
  from get_number_ok [of is_dec, OF this dec_digits_dec dec_digits_ne l e]
  show "get_di_para opt (dec_digits n @ rest) =
      \<lparr>r_over = fst (snd e), r_error = False, r_para = snd (snd e), r_value = Some (V_di (int n))\<rparr>"
    using n by (simp add: get_di_para_def at_atoi_def dec_val_digits)
qed

interpretation hi_pp: para_parser get_hi_para "\<lambda>w. hex_digits 8 (unat w)" V_hi "\<lambda>opt w. True"
proof
  fix opt :: u32 and w :: u32 and rest e
  assume e: "at_end rest = Some e" "fst e AND opt \<noteq> 0"
  have w: "unat w < 16 ^ 8" using unat_u32 [of w] by simp
  have s: "sscanf_x (hex_digits 8 (unat w)) = w"
    using w by (simp only: sscanf_x_def hex_val_digits) (simp add: min_def)
  have ne: "hex_digits 8 (unat w) \<noteq> []" using length_hex_digits [of 8 "unat w"] by force
  from get_number_ok [of is_hex, OF hex_plain hex_digits_hex ne _ e]
  show "get_hi_para opt (hex_digits 8 (unat w) @ rest) =
      \<lparr>r_over = fst (snd e), r_error = False, r_para = snd (snd e), r_value = Some (V_hi w)\<rparr>"
    by (simp add: get_hi_para_def s)
qed

definition ip_text :: "u8 list \<Rightarrow> string" where
  "ip_text bs = sep_by AT_DOT (map (\<lambda>b. dec_digits (unat b)) bs)"

interpretation ip_pp: para_parser get_ip_para ip_text V_ip "\<lambda>opt bs. length bs = 4"
proof
  fix opt :: u32 and bs :: "u8 list" and rest e
  assume "length bs = 4" and e: "at_end rest = Some e" "fst e AND opt \<noteq> 0"
  then obtain a b c d where bs: "bs = [a, b, c, d]" by (auto simp: length_Suc_conv eval_nat_numeral)
  have d: "unat d < 256" by (rule unat_u8)
  have "ip_loop 4 [] [] (ip_text bs @ rest) = ended [a, b, c] (dec_digits (unat d)) e"
    using ip_loop_last [OF _ e(1), of 1 "[a, b, c]" d]
    by (simp add: bs ip_text_def ip_loop_octet)
  then show "get_ip_para opt (ip_text bs @ rest) =
      \<lparr>r_over = fst (snd e), r_error = False, r_para = snd (snd e), r_value = Some (V_ip bs)\<rparr>"
    using e(2) octet_digits [OF d] by (simp add: get_ip_para_def ended_def Let_def bs)
qed

section \<open>Command lines\<close>

text \<open>The text of a value as a host sends it, and which values a descriptor admits. Hex byte strings are
  treated apart below.\<close>

definition at_text :: "at_value_t \<Rightarrow> string" where
  "at_text v =
     (case v of V_text s \<Rightarrow> s | V_di i \<Rightarrow> dec_digits (nat i) | V_hi w \<Rightarrow> hex_digits 8 (unat w) | V_ip bs \<Rightarrow> ip_text bs
      | V_hex bs \<Rightarrow> concat (map (\<lambda>b. hex_digits 2 (unat b)) bs))"

fun admits :: "AT_PARA_TYPE \<Rightarrow> u32 \<Rightarrow> at_value_t \<Rightarrow> bool" where
  "admits APT_TEXT opt (V_text s) = text_fits opt s"
| "admits APT_DI opt (V_di i) = (0 \<le> i \<and> i < 2147483648)"
| "admits APT_HI opt (V_hi w) = True"
| "admits APT_IP opt (V_ip bs) = (length bs = 4)"
| "admits _ _ _ = False"

lemma get_para_ok:
  assumes "admits (pt d) (option d) v" "at_end rest = Some e" "fst e AND option d \<noteq> 0"
  shows "get_para d (at_text v @ rest) =
    \<lparr>r_over = fst (snd e), r_error = False, r_para = snd (snd e), r_value = Some v\<rparr>"
proof (cases v)
  case (V_text s)
  with assms show ?thesis by (cases "pt d") (simp_all add: get_para_def at_text_def text_pp.parse_end)
next
  case (V_di i)
  with assms have d: "pt d = APT_DI" "0 \<le> i" "nat i < 2147483648" by (cases "pt d"; simp; linarith)+
  then show ?thesis using V_di di_pp.parse_end [OF d(3) assms(2,3)] by (simp add: get_para_def at_text_def)
next
  case (V_hi w)
  with assms show ?thesis by (cases "pt d") (simp_all add: get_para_def at_text_def hi_pp.parse_end)
next
  case (V_ip bs)
  with assms show ?thesis by (cases "pt d") (simp_all add: get_para_def at_text_def ip_pp.parse_end)
next
  case (V_hex bs)
  with assms show ?thesis by (cases "pt d") simp_all
qed

fun at_line :: "at_value_t list \<Rightarrow> string" where
  "at_line [] = [AT_CR, AT_LF]"
| "at_line [v] = at_text v @ [AT_CR, AT_LF]"
| "at_line (v # w # vs) = at_text v @ AT_SEPARATOR # at_line (w # vs)"

fun line_admitted :: "at_para_descriptor_t list \<Rightarrow> at_value_t list \<Rightarrow> bool" where
  "line_admitted (d # ds) [v] = (admits (pt d) (option d) v \<and> AET_LINE AND option d \<noteq> 0)"
| "line_admitted (d # ds) (v # w # vs) =
     (admits (pt d) (option d) v \<and> AET_PARA AND option d \<noteq> 0 \<and> line_admitted ds (w # vs))"
| "line_admitted _ _ = False"

lemma at_end_sep: "at_end (AT_SEPARATOR # r) = Some (AET_PARA, False, r)"
  by (simp add: at_end_def cur_def)

lemma at_end_crlf: "at_end (AT_CR # AT_LF # r) = Some (AET_LINE, True, r)"
  by (simp add: at_end_def cur_def AT_SEPARATOR_def AT_CR_def AT_LF_def)

lemma para_list_line:
  "line_admitted ds vs \<Longrightarrow> para_list ds (at_line vs @ r) us = (AEC_OK, r, us @ vs)"
proof (induction ds vs arbitrary: us rule: line_admitted.induct)
  case (1 d ds v)
  then show ?case using get_para_ok [OF _ at_end_crlf, of d v r] by simp
next
  case (2 d ds v w vs)
  then show ?case using get_para_ok [OF _ at_end_sep, of d v "at_line (w # vs) @ r"] by simp
qed simp_all

text \<open>A command line with up to as many values as the command has descriptors, each admitted by its
  descriptor, separated by commas and ended by CR LF, is parsed to exactly these values: the code is
  AEC_OK and the rest of the line starts after the newline.
\<close>

lemma parameters_parsed:
  assumes "line_admitted ds vs"
  shows "at_get_parameters ds (at_line vs @ r) = (AEC_OK, r, vs)"
proof -
  have "ds \<noteq> []" using assms by (cases ds) auto
  then show ?thesis using para_list_line [OF assms, of r "[]"] by (simp add: at_get_parameters_def)
qed

lemma digit_8: "digit 8 = CHR ''8''" and digit_0: "digit 0 = CHR ''0''"
proof -
  have "of_char (CHR ''8'') = (56 :: nat)" "of_char (CHR ''0'') = (48 :: nat)" by simp_all
  note e = char_of_char [of "CHR ''8''", where ?'a = nat, unfolded this]
    char_of_char [of "CHR ''0''", where ?'a = nat, unfolded this]
  show "digit 8 = CHR ''8''" "digit 0 = CHR ''0''" by (simp_all add: digit_def e)
qed

lemma dec_digits_80: "dec_digits 80 = ''80''"
  by (simp add: dec_digits.simps digit_8 digit_0)

lemma parameters_parsed_witness:
  "at_get_parameters [\<lparr>pt = APT_TEXT, option = 256 OR 32\<rparr>, \<lparr>pt = APT_DI, option = 256 OR 512\<rparr>, \<lparr>pt = APT_IP, option = 512\<rparr>]
     (''abc,80'' @ [AT_CR, AT_LF] @ ''x'') = (AEC_OK, ''x'', [V_text ''abc'', V_di 80])"
proof -
  have a: "line_admitted [\<lparr>pt = APT_TEXT, option = 256 OR 32\<rparr>, \<lparr>pt = APT_DI, option = 256 OR 512\<rparr>, \<lparr>pt = APT_IP, option = 512\<rparr>]
     [V_text ''abc'', V_di 80]"
    by (simp add: text_fits_def plain_def AT_SEPARATOR_def AT_CR_def AT_LF_def SIZE_LIMIT_def AET_PARA_def AET_LINE_def)
  have "at_line [V_text ''abc'', V_di 80] = ''abc,80'' @ [AT_CR, AT_LF]"
    by (simp add: at_text_def dec_digits_80 AT_SEPARATOR_def)
  from parameters_parsed [OF a, of "''x''", unfolded this] show ?thesis by (simp only: append_assoc)
qed

section \<open>Hex byte strings\<close>

lemma two_digits: "n < 256 \<Longrightarrow> int (n div 16 mod 16) * 16 + int (n mod 16) = int n"
proof -
  assume "n < 256"
  then have "n div 16 mod 16 = n div 16" by (simp add: less_mult_imp_div_less)
  moreover have "n div 16 * 16 + n mod 16 = n" by simp
  ultimately show ?thesis by (metis of_nat_add of_nat_mult of_nat_numeral)
qed

lemma hex_byte_digits: "hex_byte (hex_digits 2 (unat (b :: u8))) = b"
proof -
  have b: "unat b < 256" by (rule unat_u8)
  have h: "hex_digits 2 (unat b) = [digit (unat b div 16 mod 16), digit (unat b mod 16)]"
    by (simp add: numeral_2_eq_2)
  have n: "hex_to_num (digit (x mod 16)) = int (x mod 16)" for x by (rule hex_to_num_digit) simp
  show ?thesis
    unfolding h hex_byte_def nth_Cons_0 nth_Cons_Suc One_nat_def n two_digits [OF b] by simp
qed

lemma hex_loop_pair:
  assumes "0 < n"
  shows "hex_loop n [] buf (hex_digits 2 b @ rest) = hex_loop n (hex_digits 2 b) buf rest"
proof -
  have h: "hex_digits 2 b = [digit (b div 16 mod 16), digit (b mod 16)]" by (simp add: numeral_2_eq_2)
  have p: "is_hex (digit (x mod 16))" "plain (digit (x mod 16))" for x by (simp_all add: is_hex_digit hex_plain)
  show ?thesis unfolding h using assms
    by (subst hex_loop.simps, simp add: at_end_plain p cur_def) (subst hex_loop.simps, simp add: at_end_plain p cur_def)
qed

lemma hex_loop_flush:
  assumes "0 < n" "at_end rest = None"
  shows "hex_loop n (hex_digits 2 (unat (b :: u8))) buf rest = hex_loop (n - 1) [] (buf @ [b]) rest"
  using assms by (subst hex_loop.simps) (simp add: hex_byte_digits)

lemma hex_start: "at_end (hex_digits 2 b @ rest) = None"
  by (simp add: numeral_2_eq_2 at_end_plain is_hex_digit hex_plain)

lemma hex_loop_bytes:
  "length bs < n \<Longrightarrow> at_end rest = Some e \<Longrightarrow>
   hex_loop n [] buf (concat (map (\<lambda>b. hex_digits 2 (unat b)) bs) @ hex_digits 2 (unat (b :: u8)) @ rest) =
     ended (buf @ bs) (hex_digits 2 (unat b)) e"
proof (induction bs arbitrary: n buf)
  case Nil
  then show ?case by (simp add: hex_loop_pair) (subst hex_loop.simps, simp)
next
  case (Cons a bs)
  let ?rest = "concat (map (\<lambda>b. hex_digits 2 (unat b)) bs) @ hex_digits 2 (unat b) @ rest"
  have none: "at_end ?rest = None" by (cases bs) (simp_all add: hex_start)
  have "hex_loop n [] buf (hex_digits 2 (unat a) @ ?rest) = hex_loop (n - 1) [] (buf @ [a]) ?rest"
    using Cons.prems none by (simp add: hex_loop_pair hex_loop_flush)
  then show ?case using Cons.IH [of "n - 1" "buf @ [a]"] Cons.prems by simp
qed

lemma get_hex_ok:
  assumes "length bs < SIZE_LIMIT opt" "at_end rest = Some e" "fst e AND opt \<noteq> 0"
  shows "get_hex_para opt (at_text (V_hex (bs @ [b])) @ rest) =
    \<lparr>r_over = fst (snd e), r_error = False, r_para = tl (snd (snd e)),
     r_value = Some (V_hex (bs @ b # replicate (SIZE_LIMIT opt - Suc (length bs)) 0))\<rparr>"
  using hex_loop_bytes [OF assms(1,2), of "[]" b] assms(3)
  by (simp add: get_hex_para_def at_text_def ended_def Let_def hex_byte_digits)

text \<open>A string of hex byte pairs is parsed to its bytes, padded with zeros to the size of the variable;
  but the parse of the last pair skips one character more than the end: after a separator, the first
  character of the next parameter is lost.
\<close>

lemma hex_skips_character:
  assumes "0 < length bs" "length bs \<le> SIZE_LIMIT opt" "AET_PARA AND opt \<noteq> 0"
  shows "get_hex_para opt (at_text (V_hex bs) @ AT_SEPARATOR # c # r) =
    \<lparr>r_over = False, r_error = False, r_para = r, r_value = Some (V_hex (bs @ replicate (SIZE_LIMIT opt - length bs) 0))\<rparr>"
proof -
  obtain as b where bs: "bs = as @ [b]" using assms(1) by (cases bs rule: rev_cases) auto
  show ?thesis
    using get_hex_ok [OF _ at_end_sep, of as opt "c # r" b] assms by (simp add: bs)
qed

lemma hex_skips_character_witness:
  "r_para (get_hex_para (256 OR 2) (at_text (V_hex [0x0A, 0xFF]) @ AT_SEPARATOR # CHR ''4'' # ''2'')) = ''2''"
proof -
  have "2 \<le> SIZE_LIMIT (256 OR 2)" "AET_PARA AND (256 OR 2) \<noteq> 0" by (simp_all add: SIZE_LIMIT_def AET_PARA_def)
  then show ?thesis using hex_skips_character [of "[0x0A, 0xFF]" "256 OR 2" "CHR ''4''" "''2''"] by simp
qed

section \<open>Printing and parsing\<close>

lemma minus_not_dec: "\<not> is_dec (CHR ''-'')" and minus_plain: "plain (CHR ''-'')"
  by (simp_all add: is_dec_def code_def plain_def AT_SEPARATOR_def AT_CR_def AT_LF_def)

lemma x_not_hex: "\<not> is_hex (CHR ''x'')" "plain (CHR ''x'')" "is_hex (CHR ''0'')" "plain (CHR ''0'')"
  "\<not> is_hex (CHR '':'')" "plain (CHR '':'')"
  by (simp_all add: is_hex_def code_def plain_def AT_SEPARATOR_def AT_CR_def AT_LF_def)

lemma hex_loop_colon:
  "1 < n \<Longrightarrow> l_error (hex_loop n [] buf (hex_digits 2 (unat (b :: u8)) @ CHR '':'' # rest))"
  by (simp add: hex_loop_pair) (subst hex_loop_flush, simp_all add: at_end_plain x_not_hex,
    subst hex_loop.simps, simp add: at_end_plain x_not_hex cur_def stopped_def)

lemma digits_bad1: "0 < n \<Longrightarrow> plain c \<Longrightarrow> \<not> ok c \<Longrightarrow> l_error (digits_loop ok n buf (c # r))"
  by (cases n) (simp_all add: at_end_plain cur_def stopped_def)

lemma digits_bad2:
  "1 < n \<Longrightarrow> plain c \<Longrightarrow> ok c \<Longrightarrow> plain d \<Longrightarrow> \<not> ok d \<Longrightarrow> l_error (digits_loop ok n buf (c # d # r))"
  by (cases n) (simp_all add: at_end_plain cur_def digits_bad1)

lemma get_number_error: "l_error (digits_loop ok 11 [] para) \<Longrightarrow> r_error (get_number ok conv opt para)"
  by (simp add: get_number_def Let_def)

text \<open>What at_get_value prints is read back by the parser for text, addresses and non-negative decimals,
  but not for the rest: the parser refuses the "0x" of a hexadecimal, the sign of a negative decimal and
  the colons between the bytes of a hex string.
\<close>

lemma print_then_parse:
  "(admits (pt d) (option d) v \<and> pt d \<noteq> APT_HI \<and> AET_LINE AND option d \<noteq> 0 \<longrightarrow>
      get_para d (at_get_value v @ AT_CR # AT_LF # r) =
        \<lparr>r_over = True, r_error = False, r_para = r, r_value = Some v\<rparr>) \<and>
   r_error (get_hi_para opt (at_get_value (V_hi w) @ r)) \<and>
   (i < 0 \<longrightarrow> r_error (get_di_para opt (at_get_value (V_di i) @ r))) \<and>
   (1 < SIZE_LIMIT opt \<longrightarrow> r_error (get_hex_para opt (at_get_value (V_hex (a # b # bs)) @ r)))"
proof (intro conjI impI)
  assume a: "admits (pt d) (option d) v \<and> pt d \<noteq> APT_HI \<and> AET_LINE AND option d \<noteq> 0"
  then have "at_get_value v = at_text v"
    by (cases v; cases "pt d") (auto simp: at_get_value_def at_text_def ip_text_def)
  then show "get_para d (at_get_value v @ AT_CR # AT_LF # r) =
        \<lparr>r_over = True, r_error = False, r_para = r, r_value = Some v\<rparr>"
    using get_para_ok [OF _ at_end_crlf, of d v r] a by simp
next
  show "r_error (get_hi_para opt (at_get_value (V_hi w) @ r))"
    unfolding get_hi_para_def at_get_value_def
    by (rule get_number_error) (simp add: digits_bad2 x_not_hex)
next
  assume "i < 0"
  then show "r_error (get_di_para opt (at_get_value (V_di i) @ r))"
    unfolding get_di_para_def at_get_value_def
    by (intro get_number_error) (simp add: digits_bad1 minus_plain minus_not_dec)
next
  assume "1 < SIZE_LIMIT opt"
  then have "l_error (hex_loop (SIZE_LIMIT opt) [] [] (at_get_value (V_hex (a # b # bs)) @ r))"
    by (simp add: at_get_value_def hex_loop_colon)
  then show "r_error (get_hex_para opt (at_get_value (V_hex (a # b # bs)) @ r))"
    by (simp add: get_hex_para_def Let_def)
qed

lemma print_then_parse_witness:
  "get_para \<lparr>pt = APT_IP, option = 512\<rparr> (at_get_value (V_ip [192, 168, 0, 1]) @ AT_CR # AT_LF # []) =
     \<lparr>r_over = True, r_error = False, r_para = [], r_value = Some (V_ip [192, 168, 0, 1])\<rparr>"
  using print_then_parse [of "\<lparr>pt = APT_IP, option = 512\<rparr>" "V_ip [192, 168, 0, 1]" "[]" 0 0 0 0 0 "[]"]
  by (simp add: AET_LINE_def)

end
