(* ===== verification/At_Queue.thy ===== *)
theory At_Queue
  imports Prelude
begin

text \<open>
  The byte queue in front of the AT command parser, src/atcmd/at_queue.c: a ring buffer that is refilled
  from the serial port through a callback when it is empty. The static variable at_queue is the state.
\<close>

section \<open>State\<close>

datatype AT_QUEUE_ERROR_CODE = AQEC_OK | AQEC_FAIL | AQEC_EMPTY | AQEC_FULL

record at_queue_t =
  qbuf :: "u8 list"
  qsize :: int
  ridx :: nat
  widx :: nat
  qcnt :: int

text \<open>What the callback answers: the count it returns and the bytes it stored.\<close>

type_synonym chunk = "int \<times> u8 list"

definition at_queue_init :: "u8 list option \<Rightarrow> int \<Rightarrow> bool \<Rightarrow> at_queue_t \<Rightarrow> int \<times> at_queue_t" where
  "at_queue_init buf sz cb q =
     (case buf of
        None \<Rightarrow> (-1, q)
      | Some b \<Rightarrow> if \<not> cb then (-1, q) else (0, \<lparr>qbuf = b, qsize = sz, ridx = 0, widx = 0, qcnt = 0\<rparr>))"

section \<open>Operations\<close>

text \<open>One step of an index around the ring.\<close>

definition wrap :: "at_queue_t \<Rightarrow> nat \<Rightarrow> nat" where
  "wrap q i = (if int (Suc i) \<ge> qsize q then 0 else Suc i)"

definition put_byte :: "at_queue_t \<Rightarrow> u8 \<Rightarrow> at_queue_t" where
  "put_byte q b = q\<lparr>qbuf := (qbuf q)[widx q := b], widx := wrap q (widx q), qcnt := qcnt q + 1\<rparr>"

text \<open>The refill that get and peek share: \<open>None\<close> when there is nothing (AQEC_EMPTY). \<open>cb\<close> is the
  callback's answer, if there is a callback.\<close>

definition refill :: "chunk option \<Rightarrow> at_queue_t \<Rightarrow> at_queue_t option" where
  "refill cb q =
     (if qcnt q \<le> 0
      then case cb of
             None \<Rightarrow> None
           | Some (dcnt, winbuf) \<Rightarrow>
               if dcnt > 0
               then if dcnt > qsize q - qcnt q then Some q
                    else Some (foldl put_byte q (take (nat dcnt) winbuf))
               else None
      else Some q)"

definition at_queue_get :: "chunk option \<Rightarrow> at_queue_t \<Rightarrow> AT_QUEUE_ERROR_CODE \<times> u8 option \<times> at_queue_t" where
  "at_queue_get cb q =
     (case refill cb q of
        None \<Rightarrow> (AQEC_EMPTY, None, q)
      | Some q1 \<Rightarrow>
          (AQEC_OK, Some (qbuf q1 ! ridx q1), q1\<lparr>ridx := wrap q1 (ridx q1), qcnt := qcnt q1 - 1\<rparr>))"

definition at_queue_peek :: "chunk option \<Rightarrow> at_queue_t \<Rightarrow> AT_QUEUE_ERROR_CODE \<times> u8 option \<times> at_queue_t" where
  "at_queue_peek cb q =
     (case refill cb q of
        None \<Rightarrow> (AQEC_EMPTY, None, q)
      | Some q1 \<Rightarrow> (AQEC_OK, Some (qbuf q1 ! ridx q1), q1))"

section \<open>The ring as a list\<close>

definition ring_ok :: "at_queue_t \<Rightarrow> bool" where
  "ring_ok q =
     (qsize q = int (length (qbuf q)) \<and> 0 < length (qbuf q) \<and> 0 \<le> qcnt q \<and> qcnt q \<le> qsize q \<and>
      ridx q < length (qbuf q) \<and> widx q = (ridx q + nat (qcnt q)) mod length (qbuf q))"

definition contents :: "at_queue_t \<Rightarrow> u8 list" where
  "contents q = map (\<lambda>i. qbuf q ! ((ridx q + i) mod length (qbuf q))) [0..<nat (qcnt q)]"

lemma wrap_mod: "ring_ok q \<Longrightarrow> i < length (qbuf q) \<Longrightarrow> wrap q i = Suc i mod length (qbuf q)"
  by (cases "Suc i = length (qbuf q)") (auto simp: wrap_def ring_ok_def)

lemma ring_distinct:
  assumes "i < n" "j < n" "(r + i) mod n = (r + j) mod n"
  shows "i = (j :: nat)"
proof -
  have e: "(r + x) mod n = (if r mod n + x < n then r mod n + x else r mod n + x - n)" if "x < n" for x
  proof -
    have r: "r mod n < n" using that by simp
    have "(r mod n + x) mod n = (if r mod n + x < n then r mod n + x else r mod n + x - n)"
    proof (cases "r mod n + x < n")
      case True
      then show ?thesis by simp
    next
      case False
      then have "(r mod n + x) mod n = (r mod n + x - n) mod n" by (simp only: le_mod_geq not_less)
      also have "\<dots> = r mod n + x - n" by (rule mod_less) (use r that in linarith)
      finally show ?thesis using False by (simp only: if_False)
    qed
    then show ?thesis by (simp only: mod_add_left_eq)
  qed
  show ?thesis using assms(3) e [OF assms(1)] e [OF assms(2)] assms(1,2) by (auto split: if_splits)
qed

lemma put_byte_ok:
  assumes "ring_ok q" "qcnt q < qsize q"
  shows "ring_ok (put_byte q b)" "contents (put_byte q b) = contents q @ [b]" "qsize (put_byte q b) = qsize q"
    "qcnt (put_byte q b) = qcnt q + 1"
proof -
  let ?n = "length (qbuf q)" and ?k = "nat (qcnt q)"
  have k: "nat (qcnt q + 1) = Suc ?k" "?k < ?n" "0 < ?n" using assms by (auto simp: ring_ok_def)
  have w: "widx q = (ridx q + ?k) mod ?n" "widx q < ?n" using assms(1) k by (auto simp: ring_ok_def)
  show "ring_ok (put_byte q b)"
    using assms k w by (auto simp: ring_ok_def put_byte_def wrap_mod mod_Suc_eq)
  have other: "(qbuf q)[widx q := b] ! ((ridx q + i) mod ?n) = qbuf q ! ((ridx q + i) mod ?n)" if "i < ?k" for i
  proof -
    have "(ridx q + i) mod ?n \<noteq> (ridx q + ?k) mod ?n"
      using ring_distinct [of i ?n ?k "ridx q"] that k by auto
    then show ?thesis by (simp add: w)
  qed
  show "contents (put_byte q b) = contents q @ [b]"
    using other w k by (simp add: contents_def put_byte_def)
  show "qsize (put_byte q b) = qsize q" "qcnt (put_byte q b) = qcnt q + 1" by (simp_all add: put_byte_def)
qed

lemma put_all_ok:
  "ring_ok q \<Longrightarrow> qcnt q + int (length bs) \<le> qsize q \<Longrightarrow>
     ring_ok (foldl put_byte q bs) \<and> contents (foldl put_byte q bs) = contents q @ bs \<and>
     qcnt (foldl put_byte q bs) = qcnt q + int (length bs)"
proof (induction bs arbitrary: q)
  case Nil
  then show ?case by simp
next
  case (Cons b bs)
  then have "qcnt q < qsize q" by simp
  note p = put_byte_ok [OF Cons.prems(1) this, of b]
  show ?case using Cons.IH [OF p(1)] Cons.prems(2) p by simp
qed

lemma contents_head:
  assumes "ring_ok q" "0 < qcnt q"
  shows "contents q = qbuf q ! ridx q # contents (q\<lparr>ridx := wrap q (ridx q), qcnt := qcnt q - 1\<rparr>)"
    "ring_ok (q\<lparr>ridx := wrap q (ridx q), qcnt := qcnt q - 1\<rparr>)"
proof -
  let ?n = "length (qbuf q)"
  have r: "ridx q < ?n" using assms(1) by (simp add: ring_ok_def)
  obtain k where k: "nat (qcnt q) = Suc k" "nat (qcnt q - 1) = k" "qcnt q = int (Suc k)"
    using assms(2) by (metis nat_int zero_less_imp_eq_int diff_Suc_1 gr0_conv_Suc int_ops(4) add_diff_cancel_right' of_nat_Suc add.commute)
  have sh: "(Suc r mod ?n + i) mod ?n = (r + Suc i) mod ?n" for r i by (simp add: mod_simps)
  have "[0..<Suc k] = 0 # map Suc [0..<k]" by (simp add: upt_conv_Cons map_Suc_upt)
  then show "contents q = qbuf q ! ridx q # contents (q\<lparr>ridx := wrap q (ridx q), qcnt := qcnt q - 1\<rparr>)"
    using r k(2) by (simp add: contents_def k(1) wrap_mod [OF assms(1) r] sh o_def del: upt_Suc)
  show "ring_ok (q\<lparr>ridx := wrap q (ridx q), qcnt := qcnt q - 1\<rparr>)"
    using assms k by (auto simp: ring_ok_def wrap_mod [OF assms(1) r] sh)
qed

lemma contents_empty: "ring_ok q \<Longrightarrow> (contents q = []) = (qcnt q = 0)"
  by (auto simp: contents_def ring_ok_def)

section \<open>What get and peek do\<close>

lemma refill_ok:
  assumes "ring_ok q" "bs \<noteq> []" "int (length bs) \<le> qsize q"
  shows "\<exists>q1. refill (Some (int (length bs), bs)) q = Some q1 \<and> ring_ok q1 \<and> 0 < qcnt q1 \<and>
    contents q1 = (if contents q = [] then bs else contents q) \<and> qsize q1 = qsize q"
proof (cases "qcnt q \<le> 0")
  case True
  then have z: "qcnt q = 0" using assms(1) by (auto simp: ring_ok_def)
  have sz: "qsize (foldl put_byte q bs) = qsize q" for bs q
    by (induction bs arbitrary: q) (simp_all add: put_byte_def)
  show ?thesis
    using put_all_ok [OF assms(1), of bs] assms(2,3) z contents_empty [OF assms(1)] sz
    by (auto simp: refill_def)
next
  case False
  then show ?thesis using assms(1) contents_empty [OF assms(1)] by (auto simp: refill_def)
qed

lemma get_ok:
  assumes "ring_ok q" "bs \<noteq> []" "int (length bs) \<le> qsize q"
  shows "\<exists>b q'. at_queue_get (Some (int (length bs), bs)) q = (AQEC_OK, Some b, q') \<and> ring_ok q' \<and>
    b # contents q' = (if contents q = [] then bs else contents q) \<and> qsize q' = qsize q"
proof -
  obtain q1 where q1: "refill (Some (int (length bs), bs)) q = Some q1" "ring_ok q1" "0 < qcnt q1"
    "contents q1 = (if contents q = [] then bs else contents q)" "qsize q1 = qsize q"
    using refill_ok [OF assms] by auto
  show ?thesis using contents_head [OF q1(2,3)] q1 by (auto simp: at_queue_get_def)
qed

text \<open>A run of gets: the callback answers the next chunk whenever a get finds the queue empty.\<close>

fun gets :: "nat \<Rightarrow> u8 list list \<Rightarrow> at_queue_t \<Rightarrow> u8 list \<times> at_queue_t" where
  "gets 0 cs q = ([], q)"
| "gets (Suc n) cs q =
     (let c = (case cs of [] \<Rightarrow> None | b # _ \<Rightarrow> Some (int (length b), b))
      in case at_queue_get c q of
           (AQEC_OK, Some x, q') \<Rightarrow>
             (let cs' = (if qcnt q \<le> 0 then tl cs else cs) in case gets n cs' q' of (xs, q'') \<Rightarrow> (x # xs, q''))
         | _ \<Rightarrow> ([], q))"

lemma gets_stream:
  "ring_ok q \<Longrightarrow> list_all (\<lambda>b. b \<noteq> [] \<and> int (length b) \<le> qsize q) cs \<Longrightarrow>
   length (contents q @ concat cs) = n \<Longrightarrow> fst (gets n cs q) = contents q @ concat cs"
proof (induction n arbitrary: cs q)
  case 0
  then show ?case by simp
next
  case (Suc n)
  show ?case
  proof (cases "contents q")
    case Nil
    then obtain b bs where cs: "cs = b # bs" using Suc.prems(3) by (cases cs) auto
    have b: "b \<noteq> []" "int (length b) \<le> qsize q" using Suc.prems(2) by (auto simp: cs)
    obtain x q' where g: "at_queue_get (Some (int (length b), b)) q = (AQEC_OK, Some x, q')" "ring_ok q'"
      "x # contents q' = b" "qsize q' = qsize q"
      using get_ok [OF Suc.prems(1) b] Nil by auto
    have "length b = Suc (length (contents q'))" using g(3) by (metis length_Cons)
    then have "fst (gets n bs q') = contents q' @ concat bs"
      by (intro Suc.IH) (use Suc.prems g Nil cs in auto)
    moreover have "qcnt q \<le> 0" using Nil contents_empty [OF Suc.prems(1)] by simp
    ultimately show ?thesis using g Nil by (auto simp: cs split: prod.split)
  next
    case (Cons x xs)
    have pos: "0 < qcnt q" using Cons contents_empty [OF Suc.prems(1)] Suc.prems(1) by (auto simp: ring_ok_def)
    let ?q' = "q\<lparr>ridx := wrap q (ridx q), qcnt := qcnt q - 1\<rparr>"
    note h = contents_head [OF Suc.prems(1) pos]
    have g: "at_queue_get c q = (AQEC_OK, Some x, ?q')" for c
      using pos h(1) Cons by (simp add: at_queue_get_def refill_def)
    have xs: "contents ?q' = xs" using h(1) Cons by simp
    have "fst (gets n cs ?q') = contents ?q' @ concat cs"
      by (rule Suc.IH [OF h(2)]) (use Suc.prems Cons xs in auto)
    then show ?thesis using pos by (cases "gets n cs ?q'") (simp add: g Cons xs)
  qed
qed

text \<open>The bytes that a run of at_queue_get reads are the bytes that were in the ring followed by the
  chunks that the callback delivers, in order and without loss, for chunks that fit the ring.
\<close>

lemma at_queue_streams:
  assumes "ring_ok q" "list_all (\<lambda>b. b \<noteq> [] \<and> int (length b) \<le> qsize q) cs"
  shows "fst (gets (length (contents q @ concat cs)) cs q) = contents q @ concat cs"
  by (rule gets_stream [OF assms refl])

definition ring2 :: at_queue_t where
  "ring2 = \<lparr>qbuf = [0, 0], qsize = 2, ridx = 1, widx = 1, qcnt = 0\<rparr>"

lemma ring2_ok: "ring_ok ring2"
  by (simp add: ring_ok_def ring2_def)

lemma at_queue_streams_witness: "fst (gets 3 [[7, 8], [9]] ring2) = [7, 8, 9]"
proof -
  have "contents ring2 = []" "qsize ring2 = 2" by (simp_all add: contents_def ring2_def)
  then show ?thesis
    using at_queue_streams [OF ring2_ok, of "[[7, 8], [9]]"] by (simp add: numeral_3_eq_3 del: gets.simps)
qed

text \<open>When an empty queue is refilled with more bytes than its size, the bytes are dropped but get goes
  on as if they were there: it reports AQEC_OK with the stale byte under the read index and takes the
  count below zero.
\<close>

lemma at_queue_overflow_stale:
  assumes "ring_ok q" "qcnt q = 0" "qsize q < int (length bs)"
  shows "at_queue_get (Some (int (length bs), bs)) q =
    (AQEC_OK, Some (qbuf q ! ridx q), q\<lparr>ridx := wrap q (ridx q), qcnt := -1\<rparr>) \<and>
    \<not> ring_ok (q\<lparr>ridx := wrap q (ridx q), qcnt := -1\<rparr>)"
  using assms by (auto simp: at_queue_get_def refill_def ring_ok_def)

lemma at_queue_overflow_stale_witness:
  "at_queue_get (Some (int (length [1 :: u8, 2, 3]), [1, 2, 3])) ring2 = (AQEC_OK, Some 0, ring2\<lparr>ridx := 0, qcnt := -1\<rparr>)"
  using at_queue_overflow_stale [OF ring2_ok, of "[1, 2, 3]"] by (simp add: ring2_def wrap_def)

end
