(* ===== verification/Smart_Config.thy ===== *)
theory Smart_Config
  imports Prelude
begin

text \<open>
  The SmartConfig receiver, src/smartlink/smartconfig: a phone encodes the name and the password of a
  network in the third address of broadcast frames, two bytes per frame, after four lead codes that
  announce channel, lengths and a random number. smart_config_decode.c collects the frames and checks
  them with the CRC of smart_config_crc.c; smart_config_main.c keeps the status. The AES decryption is
  done by hardware and is a parameter. A store outside an array is \<open>None\<close>.
\<close>

unbundle bit_operations_syntax

section \<open>Checksum\<close>

definition CRC8_INIT :: u8 where "CRC8_INIT = 0x0"
definition CRC8_POLY :: u8 where "CRC8_POLY = 0x31"

definition crc_shift :: "u8 \<Rightarrow> u8" where
  "crc_shift crc = (if crc AND 0x1 \<noteq> 0 then drop_bit 1 crc XOR CRC8_POLY else drop_bit 1 crc)"

definition crc_byte :: "u8 \<Rightarrow> u8 \<Rightarrow> u8" where
  "crc_byte crc b = (crc_shift ^^ 8) (crc XOR b)"

definition cal_crc8 :: "u8 list \<Rightarrow> u8" where
  "cal_crc8 bs = foldl crc_byte CRC8_INIT bs"

section \<open>State\<close>

datatype SMART_CONFIG_STATUS_T = SC_STATUS_END | SC_STATUS_SEARCH_CHAN | SC_STATUS_LOCKED_CHAN | SC_STATUS_COMPLETE

record sc_lead_code_t =
  channel :: int
  ssidpwd_len :: int
  pwd_len :: int
  packet_total :: int
  packet_count :: int
  rnd :: u8
  locked_mac_flag :: bool
  lead_complete_flag :: bool
  count_pkt :: "u8 list"

text \<open>sc_result_t as its bytes: ssid[32], pwd[64], ssid_len, pwd_len, random.\<close>

type_synonym sc_result_t = "u8 list"

definition SSID_AT :: nat where "SSID_AT = 0"
definition PWD_AT :: nat where "PWD_AT = 32"
definition SSID_LEN_AT :: nat where "SSID_LEN_AT = 96"
definition PWD_LEN_AT :: nat where "PWD_LEN_AT = 97"
definition RANDOM_AT :: nat where "RANDOM_AT = 98"
definition RESULT_SIZE :: nat where "RESULT_SIZE = 99"

record smartconfig_priv_t =
  aes_key :: "u8 list"
  lead_code :: sc_lead_code_t
  sc_status :: SMART_CONFIG_STATUS_T
  result :: sc_result_t
  src_data_buff :: "u8 list"

definition SC_MAX_SSIDPSK_LEN :: nat where "SC_MAX_SSIDPSK_LEN = 128"

text \<open>The six bytes of i_addr3.\<close>

type_synonym addr3 = "u8 \<times> u8 \<times> u8 \<times> u8 \<times> u8 \<times> u8"

text \<open>memcpy into a byte array, and from one.\<close>

definition put :: "nat \<Rightarrow> u8 list \<Rightarrow> u8 list \<Rightarrow> u8 list option" where
  "put i bs mem = (if i + length bs \<le> length mem then Some (list_write mem i bs) else None)"

definition get :: "nat \<Rightarrow> nat \<Rightarrow> u8 list \<Rightarrow> u8 list option" where
  "get i n mem = (if i + n \<le> length mem then Some (take n (drop i mem)) else None)"

section \<open>Collecting packets\<close>

definition dec_valid_packet_count :: "u8 list \<Rightarrow> u8 \<Rightarrow> int \<times> u8 list" where
  "dec_valid_packet_count count packet_num =
     (let n = unat packet_num; m = push_bit (8 - n mod 8 - 1) 1
      in if n > 127 then (0, count)
         else if count ! (n div 8) AND m \<noteq> 0 then (0, count)
         else (1, count[n div 8 := count ! (n div 8) OR m]))"

datatype LEADCODE_SEQ = LEAD_CODE_NOME | LEAD_CODE_GET_CHANNEL | LEAD_CODE_GET_SSIDPWD_SIZE | LEAD_CODE_GET_PWD_SIZE
  | LEAD_CODE_GET_ROUND_NUM | LEAD_CODE_COMPLETE

definition dec_get_lead_code ::
  "addr3 \<Rightarrow> sc_lead_code_t \<Rightarrow> u8 \<Rightarrow> SMART_CONFIG_STATUS_T \<Rightarrow> LEADCODE_SEQ \<times> sc_lead_code_t \<times> SMART_CONFIG_STATUS_T" where
  "dec_get_lead_code a lc packet_num status =
     (case a of (_, _, _, _, dat, crc) \<Rightarrow>
        if packet_num = 0 \<or> packet_num > 4 then (LEAD_CODE_NOME, lc, status)
        else if \<not> (status \<noteq> SC_STATUS_LOCKED_CHAN \<or> ssidpwd_len lc = 0 \<or> pwd_len lc = -1 \<or> rnd lc = 0)
        then (LEAD_CODE_COMPLETE, lc\<lparr>locked_mac_flag := False\<rparr>, status)
        else if cal_crc8 [dat] \<noteq> crc then (LEAD_CODE_NOME, lc, status)
        else (let lc1 = lc\<lparr>locked_mac_flag := True\<rparr>
              in if packet_num = 1
                 then (LEAD_CODE_GET_CHANNEL, lc1\<lparr>channel := uint dat\<rparr>, SC_STATUS_LOCKED_CHAN)
                 else if packet_num = 2
                 then (LEAD_CODE_GET_SSIDPWD_SIZE,
                       lc1\<lparr>ssidpwd_len := uint dat, packet_total := uint dat div 2 + 1 + uint dat mod 2\<rparr>, status)
                 else if packet_num = 3
                 then (LEAD_CODE_GET_PWD_SIZE, lc1\<lparr>pwd_len := uint dat\<rparr>, status)
                 else (LEAD_CODE_GET_ROUND_NUM, lc1\<lparr>rnd := dat\<rparr>, status)))"

text \<open>The data goes to a halfword of the buffer, low byte first. \<open>None\<close>: the store is outside.\<close>

definition dec_push_data :: "sc_lead_code_t \<Rightarrow> u8 \<Rightarrow> u8 list \<Rightarrow> u8 \<times> u8 \<Rightarrow> (int \<times> sc_lead_code_t \<times> u8 list) option" where
  "dec_push_data lc packet_num src dat =
     (let pn = packet_num - 5;
          vc = dec_valid_packet_count (count_pkt lc) pn;
          lc1 = lc\<lparr>count_pkt := snd vc, packet_count := (if fst vc = 1 then packet_count lc + 1 else packet_count lc)\<rparr>
      in map_option (\<lambda>src'. (packet_count lc1 - packet_total lc1, lc1, src'))
           (put (2 * unat pn) [fst dat, snd dat] src))"

definition sc_reset_lead_code :: sc_lead_code_t where
  "sc_reset_lead_code =
     \<lparr>channel = 0, ssidpwd_len = 0, pwd_len = -1, packet_total = 0, packet_count = 0, rnd = 0,
      locked_mac_flag = False, lead_complete_flag = False, count_pkt = replicate 16 0\<rparr>"

section \<open>Decoding the data\<close>

text \<open>The padding check: the last \<open>d\<close> of the \<open>n\<close> bytes all are \<open>d\<close>; \<open>None\<close> when it reads before the buffer.\<close>

fun pad_check :: "u8 list \<Rightarrow> nat \<Rightarrow> u8 \<Rightarrow> nat \<Rightarrow> bool option" where
  "pad_check temp n d 0 = Some True"
| "pad_check temp n d (Suc k) =
     (let i = unat d - Suc k
      in if n < Suc i then None
         else if temp ! (n - 1 - i) \<noteq> d then Some False
         else pad_check temp n d k)"

text \<open>One decrypted part: its size and its bytes up to the first zero go to the result. \<open>Inl\<close>: return -1.\<close>

definition aes_part ::
  "(u8 list \<Rightarrow> u8 list \<Rightarrow> u8 list option) \<Rightarrow> u8 list \<Rightarrow> nat \<Rightarrow> u8 list \<Rightarrow> nat \<Rightarrow> nat \<Rightarrow> sc_result_t
     \<Rightarrow> (unit + sc_result_t) option" where
  "aes_part aes_ebc_decrypt key tsize src len_at buf_at res =
     (if length src = 0 then Some (Inr res)
      else case aes_ebc_decrypt key src of
             None \<Rightarrow> Some (Inr res)
           | Some dec \<Rightarrow>
               (let temp = take tsize (take (length src) dec @ replicate tsize 0);
                    d = temp ! (length src - 1)
                in case pad_check temp (length src) d (unat d) of
                     None \<Rightarrow> None
                   | Some False \<Rightarrow> Some (Inl ())
                   | Some True \<Rightarrow>
                       map_option Inr (put buf_at (takeWhile (\<lambda>b. b \<noteq> 0) temp)
                         (res[len_at := of_nat (length src) - d]))))"

definition crc_ok :: "sc_result_t \<Rightarrow> nat \<Rightarrow> nat \<Rightarrow> u8 \<Rightarrow> bool option" where
  "crc_ok res at len_at crc =
     map_option (\<lambda>bs. cal_crc8 bs = crc) (get at (unat (res ! len_at)) res)"

text \<open>
  \<open>dec_data_decode\<close>: -1 or 0, the result and the buffer. The first byte of the buffer is cleared on
  the paths that reach the CRC check.
\<close>

definition check_crcs :: "sc_lead_code_t \<Rightarrow> u8 list \<Rightarrow> sc_result_t \<Rightarrow> (int \<times> sc_result_t \<times> u8 list) option" where
  "check_crcs lc src res =
     (let res' = res[RANDOM_AT := rnd lc]; at = nat (ssidpwd_len lc + ssidpwd_len lc mod 2)
      in case Option.bind (get at 1 src) (\<lambda>c. crc_ok res' PWD_AT PWD_LEN_AT (hd c)) of
           None \<Rightarrow> None
         | Some False \<Rightarrow> Some (-1, res', src[0 := 0])
         | Some True \<Rightarrow>
             (case Option.bind (get (at + 1) 1 src) (\<lambda>c. crc_ok res' SSID_AT SSID_LEN_AT (hd c)) of
                None \<Rightarrow> None
              | Some ok \<Rightarrow> Some (if ok then 0 else -1, res', src[0 := 0])))"

text \<open>\<open>*(pwd + pwd_len) = 0; *(ssid + ssid_len) = 0;\<close>\<close>

definition put_zeros :: "sc_result_t \<Rightarrow> sc_result_t option" where
  "put_zeros res =
     Option.bind (put (PWD_AT + unat (res ! PWD_LEN_AT)) [0] res)
       (\<lambda>res1. put (SSID_AT + unat (res1 ! SSID_LEN_AT)) [0] res1)"

text \<open>The branch without a key; the lengths are read back from the result for each memcpy.\<close>

definition copy_plain :: "nat \<Rightarrow> nat \<Rightarrow> u8 list \<Rightarrow> sc_result_t \<Rightarrow> sc_result_t option" where
  "copy_plain pwd_size ssid_size src res =
     (let res1 = res[SSID_LEN_AT := of_nat ssid_size, PWD_LEN_AT := of_nat pwd_size]
      in Option.bind (get pwd_size ssid_size src)
           (\<lambda>ssid. Option.bind (put SSID_AT ssid res1)
             (\<lambda>res2. Option.bind (get 0 (unat (res2 ! PWD_LEN_AT)) src)
               (\<lambda>pwd. Option.bind (put PWD_AT pwd res2) put_zeros))))"

definition dec_data_decode ::
  "(u8 list \<Rightarrow> u8 list \<Rightarrow> u8 list option) \<Rightarrow> smartconfig_priv_t \<Rightarrow> (int \<times> sc_result_t \<times> u8 list) option" where
  "dec_data_decode aes_ebc_decrypt priv =
     (let lc = lead_code priv; src = src_data_buff priv; res = result priv;
          ssid_size = unat (word_of_int (ssidpwd_len lc - pwd_len lc) :: u8);
          pwd_size = unat (word_of_int (pwd_len lc) :: u8)
      in if aes_key priv ! 0 \<noteq> 0
         then if pwd_size \<ge> 66 \<or> ssid_size \<ge> 65 then Some (-1, res, src)
              else (case Option.bind (get 0 pwd_size src)
                           (\<lambda>pwd. aes_part aes_ebc_decrypt (aes_key priv) 66 pwd PWD_LEN_AT PWD_AT res) of
                      None \<Rightarrow> None
                    | Some (Inl _) \<Rightarrow> Some (-1, res, src)
                    | Some (Inr res1) \<Rightarrow>
                        (case Option.bind (get pwd_size ssid_size src)
                                (\<lambda>ssid. aes_part aes_ebc_decrypt (aes_key priv) 65 ssid SSID_LEN_AT SSID_AT res1) of
                           None \<Rightarrow> None
                         | Some (Inl _) \<Rightarrow> Some (-1, res1, src)
                         | Some (Inr res2) \<Rightarrow> Option.bind (put_zeros res2) (check_crcs lc src)))
         else Option.bind (copy_plain pwd_size ssid_size src res) (check_crcs lc src))"

section \<open>Frames\<close>

definition SC_MAGIC_ADD0 :: u8 where "SC_MAGIC_ADD0 = 0x01"
definition SC_MAGIC_ADD1 :: u8 where "SC_MAGIC_ADD1 = 0x00"
definition SC_MAGIC_ADD2 :: u8 where "SC_MAGIC_ADD2 = 0x5E"

fun status_num :: "SMART_CONFIG_STATUS_T \<Rightarrow> nat" where
  "status_num SC_STATUS_END = 0"
| "status_num SC_STATUS_SEARCH_CHAN = 1"
| "status_num SC_STATUS_LOCKED_CHAN = 2"
| "status_num SC_STATUS_COMPLETE = 3"

text \<open>The last part: when every packet has come, decode.\<close>

definition try_decode ::
  "(u8 list \<Rightarrow> u8 list \<Rightarrow> u8 list option) \<Rightarrow> smartconfig_priv_t \<Rightarrow> (SMART_CONFIG_STATUS_T \<times> smartconfig_priv_t) option" where
  "try_decode aes_ebc_decrypt priv =
     (if status_num (sc_status priv) < 3 \<and> packet_total (lead_code priv) = packet_count (lead_code priv)
      then case dec_data_decode aes_ebc_decrypt priv of
             None \<Rightarrow> None
           | Some (ret, res, src) \<Rightarrow>
               if ret \<noteq> 0
               then Some (SC_STATUS_END, priv\<lparr>result := res, lead_code := sc_reset_lead_code, src_data_buff := src[0 := 0]\<rparr>)
               else Some (SC_STATUS_COMPLETE, priv\<lparr>result := res, src_data_buff := src\<rparr>)
      else Some (sc_status priv, priv))"

definition sc_dec_packet_decode ::
  "(u8 list \<Rightarrow> u8 list \<Rightarrow> u8 list option) \<Rightarrow> smartconfig_priv_t \<Rightarrow> addr3 \<Rightarrow> (SMART_CONFIG_STATUS_T \<times> smartconfig_priv_t) option" where
  "sc_dec_packet_decode aes_ebc_decrypt priv a =
     (case a of (a0, a1, a2, packet_num, d0, d1) \<Rightarrow>
        if \<not> (a0 = SC_MAGIC_ADD0 \<and> a1 = SC_MAGIC_ADD1 \<and> a2 = SC_MAGIC_ADD2) then Some (sc_status priv, priv)
        else if packet_num > 0 \<and> packet_num < 5
        then if \<not> lead_complete_flag (lead_code priv)
             then case dec_get_lead_code a (lead_code priv) packet_num (sc_status priv) of
                    (ret, lc, status) \<Rightarrow>
                      Some (status, priv\<lparr>lead_code := (if ret = LEAD_CODE_COMPLETE then lc\<lparr>lead_complete_flag := True\<rparr> else lc)\<rparr>)
             else Some (sc_status priv, priv)
        else if \<not> lead_complete_flag (lead_code priv) then Some (sc_status priv, priv)
        else if packet_num \<le> 127
        then case dec_push_data (lead_code priv) packet_num (src_data_buff priv) (d0, d1) of
               None \<Rightarrow> None
             | Some (d, lc, src) \<Rightarrow>
                 (let priv1 = priv\<lparr>lead_code := lc, src_data_buff := src\<rparr>
                  in if d \<noteq> 0 then Some (sc_status priv, priv1) else try_decode aes_ebc_decrypt priv1)
        else try_decode aes_ebc_decrypt priv)"

text \<open>The receive callback of smart_config_main.c; the reports to the assistant do not change the state.\<close>

definition smartconfig_recv_rawframe ::
  "(u8 list \<Rightarrow> u8 list \<Rightarrow> u8 list option) \<Rightarrow> smartconfig_priv_t \<Rightarrow> addr3 \<Rightarrow> smartconfig_priv_t option" where
  "smartconfig_recv_rawframe aes_ebc_decrypt priv a =
     map_option (\<lambda>(status, priv1).
         if status = SC_STATUS_COMPLETE \<and> status_num (sc_status priv1) < 3 then priv1\<lparr>sc_status := status\<rparr>
         else if status = SC_STATUS_LOCKED_CHAN \<and> sc_status priv1 \<noteq> status then priv1\<lparr>sc_status := status\<rparr>
         else priv1)
       (sc_dec_packet_decode aes_ebc_decrypt priv a)"

fun recv_all :: "(u8 list \<Rightarrow> u8 list \<Rightarrow> u8 list option) \<Rightarrow> smartconfig_priv_t \<Rightarrow> addr3 list \<Rightarrow> smartconfig_priv_t option" where
  "recv_all aes priv [] = Some priv"
| "recv_all aes priv (a # as) = Option.bind (smartconfig_recv_rawframe aes priv a) (\<lambda>priv1. recv_all aes priv1 as)"

text \<open>wlan_smart_config_start: a key is taken when it has its 16 bytes.\<close>

definition wlan_smart_config_start :: "u8 list option \<Rightarrow> smartconfig_priv_t option" where
  "wlan_smart_config_start key =
     (let priv = (\<lambda>k. \<lparr>aes_key = k, lead_code = sc_reset_lead_code, sc_status = SC_STATUS_SEARCH_CHAN,
                      result = replicate RESULT_SIZE 0, src_data_buff = replicate SC_MAX_SSIDPSK_LEN 0\<rparr>)
      in case key of
           None \<Rightarrow> Some (priv (replicate 16 0))
         | Some k \<Rightarrow> if length k = 16 then Some (priv k) else None)"

text \<open>smartconfig_stop and the channel the receiver has locked.\<close>

definition smartconfig_stop :: "smartconfig_priv_t \<Rightarrow> smartconfig_priv_t" where
  "smartconfig_stop priv = priv\<lparr>sc_status := SC_STATUS_END\<rparr>"

definition sc_read_locked_channel :: "smartconfig_priv_t \<Rightarrow> u16" where
  "sc_read_locked_channel priv = word_of_int (channel (lead_code priv))"

text \<open>The result handed to the application: ssid[32], ssid_len, passphrase[64], random_num.\<close>

record wlan_smart_config_result_t =
  out_ssid :: "u8 list"
  out_ssid_len :: u8
  out_passphrase :: "u8 list"
  random_num :: u8

definition WLAN_SSID_MAX_LEN :: nat where "WLAN_SSID_MAX_LEN = 32"
definition WLAN_PASSPHRASE_MAX_LEN :: nat where "WLAN_PASSPHRASE_MAX_LEN = 63"

definition smartconfig_read_result :: "sc_result_t \<Rightarrow> wlan_smart_config_result_t \<Rightarrow> int \<times> wlan_smart_config_result_t" where
  "smartconfig_read_result src out =
     (let n = unat (src ! SSID_LEN_AT); k = unat (src ! PWD_LEN_AT)
      in if n > WLAN_SSID_MAX_LEN \<or> k > WLAN_PASSPHRASE_MAX_LEN then (-1, out)
         else (0, out\<lparr>out_ssid := list_write (out_ssid out) 0 (take n (drop SSID_AT src)),
                     out_ssid_len := src ! SSID_LEN_AT,
                     out_passphrase :=
                       (if k > 0 then (list_write (out_passphrase out) 0 (take k (drop PWD_AT src)))[k := 0]
                        else (out_passphrase out)[0 := 0]),
                     random_num := src ! RANDOM_AT\<rparr>))"

section \<open>The checksum\<close>

text \<open>The polynomial has no bit above 5 and the register is shifted right: eight bits shrink to six.\<close>

lemma crc_shift_shrinks:
  assumes y: "take_bit (Suc n) y = y" and n: "6 \<le> n"
  shows "take_bit n (crc_shift y) = crc_shift y"
proof -
  have "take_bit n (drop_bit 1 y) = drop_bit 1 y"
    using drop_bit_take_bit [of 1 "Suc n" y] y by simp
  moreover have "take_bit n CRC8_POLY = CRC8_POLY"
  proof -
    have "take_bit 6 CRC8_POLY = CRC8_POLY" by (simp add: CRC8_POLY_def)
    then show ?thesis using n by (metis take_bit_take_bit min.absorb2)
  qed
  ultimately show ?thesis by (simp add: crc_shift_def take_bit_xor)
qed

lemma crc_shift_stays: "take_bit 6 y = y \<Longrightarrow> take_bit 6 (crc_shift y) = crc_shift y"
  by (rule crc_shift_shrinks) (metis take_bit_take_bit min.absorb2 le_SucI order_refl, simp)

lemma crc_byte_six_bits: "take_bit 6 (crc_byte c b) = crc_byte c b"
proof -
  define x where "x = c XOR b"
  have "take_bit 8 x = x" by (simp add: take_bit_word_eq_self)
  then have "take_bit 7 (crc_shift x) = crc_shift x" using crc_shift_shrinks [of 7 x] by simp
  then have "take_bit 6 (crc_shift (crc_shift x)) = crc_shift (crc_shift x)" using crc_shift_shrinks [of 6 "crc_shift x"] by simp
  then have "take_bit 6 ((crc_shift ^^ k) (crc_shift (crc_shift x))) = (crc_shift ^^ k) (crc_shift (crc_shift x))" for k
    by (induction k) (simp_all add: crc_shift_stays)
  from this [of 6] show ?thesis by (simp add: crc_byte_def x_def eval_nat_numeral)
qed

lemma crc_six_bits: "cal_crc8 bs < 64"
proof (cases bs rule: rev_cases)
  case Nil
  then show ?thesis by (simp add: cal_crc8_def CRC8_INIT_def)
next
  case (snoc cs c)
  have "take_bit 6 (cal_crc8 bs) = cal_crc8 bs" by (simp add: snoc cal_crc8_def crc_byte_six_bits)
  then have "unat (cal_crc8 bs) = take_bit 6 (unat (cal_crc8 bs))" by (metis unsigned_take_bit_eq)
  then have "unat (cal_crc8 bs) < 64" using take_bit_nat_less_exp [of 6 "unat (cal_crc8 bs)"] by simp
  then show ?thesis by (simp add: word_less_nat_alt)
qed

section \<open>Which packets have come\<close>

definition seen :: "u8 list \<Rightarrow> nat \<Rightarrow> bool" where
  "seen count j = (count ! (j div 8) AND push_bit (8 - j mod 8 - 1) 1 \<noteq> 0)"

lemma seen_bit: "j < 128 \<Longrightarrow> seen count j = bit (count ! (j div 8)) (7 - j mod 8)"
  by (simp add: seen_def bit_iff_and_push_bit_not_eq_0 and.commute)

lemma seen_set:
  assumes "j < 128" "k < 128" "length count = 16"
  shows "seen (count[j div 8 := count ! (j div 8) OR push_bit (8 - j mod 8 - 1) 1]) k = (k = j \<or> seen count k)"
proof (cases "k div 8 = j div 8")
  case True
  have "k mod 8 < 8" "j mod 8 < 8" by simp_all
  then have "(7 - k mod 8 = 7 - j mod 8) = (k mod 8 = j mod 8)" by linarith
  also have "\<dots> = (k = j)" using True by (metis div_mult_mod_eq)
  finally have e: "(7 - k mod 8 = 7 - j mod 8) = (k = j)" .
  have "j div 8 < 16" using assms(1) by (simp add: less_mult_imp_div_less)
  moreover have "bit (push_bit (7 - j mod 8) (1 :: u8)) (7 - k mod 8) = (k = j)"
    using e by (auto simp: bit_simps)
  ultimately show ?thesis using assms True by (auto simp: seen_bit bit_or_iff)
next
  case False
  then show ?thesis using assms by (auto simp: seen_bit)
qed

lemma count_packet:
  assumes "j < 128" "length count = 16"
  shows "dec_valid_packet_count count (of_nat j) =
    (if seen count j then (0, count)
     else (1, count[j div 8 := count ! (j div 8) OR push_bit (8 - j mod 8 - 1) 1]))"
  using assms by (auto simp: dec_valid_packet_count_def seen_def Let_def unat_of_nat)

section \<open>The sender\<close>

text \<open>What the phone sends: the frames of the lead codes and of the data, two bytes each.\<close>

definition sc_frame :: "nat \<Rightarrow> u8 \<Rightarrow> u8 \<Rightarrow> addr3" where
  "sc_frame num b0 b1 = (0x01, 0x00, 0x5E, of_nat num, b0, b1)"

definition sc_payload :: "u8 list \<Rightarrow> u8 list \<Rightarrow> u8 list" where
  "sc_payload ssid pwd =
     pwd @ ssid @ replicate ((length ssid + length pwd) mod 2) 0 @ [cal_crc8 pwd, cal_crc8 ssid]"

definition sc_total :: "u8 list \<Rightarrow> u8 list \<Rightarrow> nat" where
  "sc_total ssid pwd = (length ssid + length pwd) div 2 + 1 + (length ssid + length pwd) mod 2"

definition lead_frame :: "u8 \<Rightarrow> u8 \<Rightarrow> u8 list \<Rightarrow> u8 list \<Rightarrow> nat \<Rightarrow> addr3" where
  "lead_frame ch r ssid pwd k =
     (let d = (if k = 1 then ch else if k = 2 then of_nat (length ssid + length pwd)
               else if k = 3 then of_nat (length pwd) else r)
      in sc_frame k d (cal_crc8 [d]))"

definition data_frame :: "u8 list \<Rightarrow> nat \<Rightarrow> addr3" where
  "data_frame pl i = sc_frame (i + 5) (pl ! (2 * i)) (pl ! (2 * i + 1))"

lemma payload_length: "length (sc_payload ssid pwd) = 2 * sc_total ssid pwd"
  using div_mult_mod_eq [of "length ssid + length pwd" 2] by (simp add: sc_payload_def sc_total_def)

section \<open>The lead codes\<close>

definition lead_of :: "u8 \<Rightarrow> u8 \<Rightarrow> u8 list \<Rightarrow> u8 list \<Rightarrow> nat set \<Rightarrow> bool \<Rightarrow> sc_lead_code_t" where
  "lead_of ch r ssid pwd S fin =
     \<lparr>channel = (if 1 \<in> S then uint ch else 0),
      ssidpwd_len = (if 2 \<in> S then int (length ssid + length pwd) else 0),
      pwd_len = (if 3 \<in> S then int (length pwd) else -1),
      packet_total = (if 2 \<in> S then int (sc_total ssid pwd) else 0), packet_count = 0,
      rnd = (if 4 \<in> S then r else 0), locked_mac_flag = (S \<noteq> {} \<and> \<not> fin), lead_complete_flag = fin,
      count_pkt = replicate 16 0\<rparr>"

definition priv_of :: "sc_lead_code_t \<Rightarrow> SMART_CONFIG_STATUS_T \<Rightarrow> u8 list \<Rightarrow> u8 list \<Rightarrow> smartconfig_priv_t" where
  "priv_of lc st res src = \<lparr>aes_key = replicate 16 0, lead_code = lc, sc_status = st, result = res, src_data_buff = src\<rparr>"

abbreviation lead_status :: "nat set \<Rightarrow> SMART_CONFIG_STATUS_T" where
  "lead_status S \<equiv> (if 1 \<in> S then SC_STATUS_LOCKED_CHAN else SC_STATUS_SEARCH_CHAN)"

text \<open>The name and the password the receiver has room for; the random number may not be zero.\<close>

definition sc_fits :: "u8 \<Rightarrow> u8 list \<Rightarrow> u8 list \<Rightarrow> bool" where
  "sc_fits r ssid pwd = (r \<noteq> 0 \<and> ssid \<noteq> [] \<and> length ssid \<le> 32 \<and> length pwd \<le> 63)"

lemma start_priv: "wlan_smart_config_start None =
    Some (priv_of (lead_of ch r ssid pwd {} False) SC_STATUS_SEARCH_CHAN (replicate 99 0) (replicate 128 0))"
  by (simp add: wlan_smart_config_start_def priv_of_def lead_of_def sc_reset_lead_code_def RESULT_SIZE_def SC_MAX_SSIDPSK_LEN_def)

lemma lead_codes: "{1..4} = {1, 2, 3, 4 :: nat}"
  by auto

lemma lead_frame_num:
  assumes "k \<in> {1..4}"
  shows "(of_nat k :: u8) \<noteq> 0" "\<not> 4 < (of_nat k :: u8)" "0 < (of_nat k :: u8)" "(of_nat k :: u8) < 5"
  using assms unfolding lead_codes by auto

lemma lead_guard:
  assumes "sc_fits r ssid pwd" "S \<subseteq> {1..4}"
  shows "(lead_status S \<noteq> SC_STATUS_LOCKED_CHAN \<or> ssidpwd_len (lead_of ch r ssid pwd S fin) = 0 \<or>
      pwd_len (lead_of ch r ssid pwd S fin) = -1 \<or> rnd (lead_of ch r ssid pwd S fin) = 0) = (S \<noteq> {1..4})"
proof -
  have "S = {1..4} \<longleftrightarrow> 1 \<in> S \<and> 2 \<in> S \<and> 3 \<in> S \<and> 4 \<in> S"
    using assms(2) unfolding lead_codes by blast
  moreover have "int (length ssid) + int (length pwd) \<noteq> 0" "r \<noteq> 0"
    using assms(1) by (cases ssid; simp add: sc_fits_def)+
  ultimately show ?thesis by (auto simp: lead_of_def)
qed

lemma lead_code_taken:
  assumes f: "sc_fits r ssid pwd" and k: "k \<in> {1..4}" and S: "S \<subseteq> {1..4}" "S \<noteq> {1..4}"
  obtains ret where "ret \<noteq> LEAD_CODE_COMPLETE"
    "dec_get_lead_code (lead_frame ch r ssid pwd k) (lead_of ch r ssid pwd S False) (of_nat k) (lead_status S) =
     (ret, lead_of ch r ssid pwd (insert k S) False, lead_status (insert k S))"
proof -
  have n: "length ssid + length pwd < 256" "length pwd < 256" using f by (auto simp: sc_fits_def)
  have w: "uint (of_nat (length ssid + length pwd) :: u8) = int (length ssid + length pwd)"
    "uint (of_nat (length pwd) :: u8) = int (length pwd)"
    using n by (simp_all only: uint_nat unat_of_nat) simp_all
  have tot: "int (length ssid + length pwd) div 2 + 1 + int (length ssid + length pwd) mod 2 = int (sc_total ssid pwd)"
    by (simp only: sc_total_def of_nat_add of_nat_1 zdiv_int zmod_int of_nat_numeral)
  obtain d where lf: "lead_frame ch r ssid pwd k = (0x01, 0x00, 0x5E, of_nat k, d, cal_crc8 [d])"
      "d = (if k = 1 then ch else if k = 2 then of_nat (length ssid + length pwd) else if k = 3 then of_nat (length pwd) else r)"
    by (simp add: lead_frame_def sc_frame_def Let_def)
  have step: "dec_get_lead_code (lead_frame ch r ssid pwd k) lc (of_nat k) st =
      (if k = 1 then (LEAD_CODE_GET_CHANNEL, lc\<lparr>locked_mac_flag := True, channel := uint d\<rparr>, SC_STATUS_LOCKED_CHAN)
       else if k = 2 then (LEAD_CODE_GET_SSIDPWD_SIZE, lc\<lparr>locked_mac_flag := True, ssidpwd_len := uint d,
         packet_total := uint d div 2 + 1 + uint d mod 2\<rparr>, st)
       else if k = 3 then (LEAD_CODE_GET_PWD_SIZE, lc\<lparr>locked_mac_flag := True, pwd_len := uint d\<rparr>, st)
       else (LEAD_CODE_GET_ROUND_NUM, lc\<lparr>locked_mac_flag := True, rnd := d\<rparr>, st))"
    if "st \<noteq> SC_STATUS_LOCKED_CHAN \<or> ssidpwd_len lc = 0 \<or> pwd_len lc = -1 \<or> rnd lc = 0" for lc st
    using k [unfolded lead_codes insert_iff empty_iff] unfolding dec_get_lead_code_def lf(1) Let_def prod.case
    by (elim disjE FalseE; insert that; simp)
  note step = step [OF lead_guard [THEN iffD2, OF f S], of ch False]
  have "\<exists>ret. ret \<noteq> LEAD_CODE_COMPLETE \<and>
    dec_get_lead_code (lead_frame ch r ssid pwd k) (lead_of ch r ssid pwd S False) (of_nat k) (lead_status S) =
     (ret, lead_of ch r ssid pwd (insert k S) False, lead_status (insert k S))"
    unfolding step using k [unfolded lead_codes insert_iff empty_iff]
    by (elim disjE FalseE) (simp_all add: lead_of_def lf(2) w [simplified] tot [simplified])
  then show thesis using that by blast
qed

lemma recv_lead:
  assumes k: "k \<in> {1..4}" and st: "st = SC_STATUS_LOCKED_CHAN \<or> st = SC_STATUS_SEARCH_CHAN"
    and d: "dec_get_lead_code (lead_frame ch r ssid pwd k) lc (of_nat k) st = (ret, lc', st')"
    and st': "st' = SC_STATUS_LOCKED_CHAN \<or> st' = st"
  shows "smartconfig_recv_rawframe aes (priv_of lc st res src) (lead_frame ch r ssid pwd k) =
    Some (if lead_complete_flag lc then priv_of lc st res src
      else priv_of (if ret = LEAD_CODE_COMPLETE then lc'\<lparr>lead_complete_flag := True\<rparr> else lc') st' res src)"
proof -
  obtain b0 b1 where lf: "lead_frame ch r ssid pwd k = (0x01, 0x00, 0x5E, of_nat k, b0, b1)"
    by (simp add: lead_frame_def sc_frame_def Let_def)
  have "sc_dec_packet_decode aes (priv_of lc st res src) (lead_frame ch r ssid pwd k) =
    (if lead_complete_flag lc then Some (st, priv_of lc st res src)
     else Some (st', priv_of (if ret = LEAD_CODE_COMPLETE then lc'\<lparr>lead_complete_flag := True\<rparr> else lc') st res src))"
    using d lead_frame_num [OF k]
    by (simp add: sc_dec_packet_decode_def lf priv_of_def SC_MAGIC_ADD0_def SC_MAGIC_ADD1_def SC_MAGIC_ADD2_def)
  then show ?thesis
    using st st' by (auto simp: smartconfig_recv_rawframe_def priv_of_def)
qed

lemma lead_step:
  assumes f: "sc_fits r ssid pwd" and k: "k \<in> {1..4}" and S: "S \<subseteq> {1..4}" and fin: "fin \<longrightarrow> S = {1..4}"
  shows "smartconfig_recv_rawframe aes (priv_of (lead_of ch r ssid pwd S fin) (lead_status S) res src)
      (lead_frame ch r ssid pwd k) =
    Some (priv_of (lead_of ch r ssid pwd (insert k S) (S = {1..4})) (lead_status (insert k S)) res src)"
proof (cases "S = {1..4}")
  case True
  then have i: "insert k S = S" using k by blast
  have "dec_get_lead_code (lead_frame ch r ssid pwd k) (lead_of ch r ssid pwd S fin) (of_nat k) (lead_status S) =
      (LEAD_CODE_COMPLETE, (lead_of ch r ssid pwd S fin)\<lparr>locked_mac_flag := False\<rparr>, lead_status S)"
    using lead_guard [OF f S, of ch fin] True lead_frame_num [OF k]
    by (simp add: dec_get_lead_code_def lead_frame_def sc_frame_def Let_def)
  then show ?thesis
    using recv_lead [OF k _ \<open>dec_get_lead_code _ _ _ _ = _\<close>] True by (auto simp: i lead_of_def)
next
  case False
  then have nf: "\<not> fin" using fin by simp
  obtain ret where "ret \<noteq> LEAD_CODE_COMPLETE"
    "dec_get_lead_code (lead_frame ch r ssid pwd k) (lead_of ch r ssid pwd S False) (of_nat k) (lead_status S) =
     (ret, lead_of ch r ssid pwd (insert k S) False, lead_status (insert k S))"
    by (rule lead_code_taken [OF f k S False])
  moreover have "\<not> lead_complete_flag (lead_of ch r ssid pwd S False)" by (simp add: lead_of_def)
  ultimately show ?thesis
    using False nf recv_lead [OF k, of "lead_status S"] by auto
qed

lemma recv_all_append: "recv_all aes p (xs @ ys) = Option.bind (recv_all aes p xs) (\<lambda>q. recv_all aes q ys)"
  by (induction xs arbitrary: p) (auto split: bind_split)

lemma lead_run:
  assumes f: "sc_fits r ssid pwd"
  shows "set ks \<subseteq> {1..4} \<Longrightarrow> S \<subseteq> {1..4} \<Longrightarrow> (fin \<longrightarrow> S = {1..4}) \<Longrightarrow>
    recv_all aes (priv_of (lead_of ch r ssid pwd S fin) (lead_status S) res src) (map (lead_frame ch r ssid pwd) ks) =
    Some (priv_of (lead_of ch r ssid pwd (S \<union> set ks) (if ks = [] then fin else S \<union> set (butlast ks) = {1..4}))
      (lead_status (S \<union> set ks)) res src)"
proof (induction ks arbitrary: S fin)
  case Nil
  then show ?case by simp
next
  case (Cons k ks)
  have k: "k \<in> {1..4}" and S': "insert k S \<subseteq> {1..4}" and full: "(S = {1..4}) \<longrightarrow> insert k S = {1..4}"
    using Cons.prems by auto
  have "recv_all aes (priv_of (lead_of ch r ssid pwd S fin) (lead_status S) res src)
      (map (lead_frame ch r ssid pwd) (k # ks)) =
    recv_all aes (priv_of (lead_of ch r ssid pwd (insert k S) (S = {1..4})) (lead_status (insert k S)) res src)
      (map (lead_frame ch r ssid pwd) ks)"
    by (simp only: list.map recv_all.simps lead_step [OF f k Cons.prems(2,3)] bind.bind_lunit)
  also note Cons.IH [OF _ S' full]
  finally show ?case using Cons.prems(1) by (auto simp: insert_commute)
qed

section \<open>The data packets\<close>

definition data_inv :: "u8 list \<Rightarrow> nat \<Rightarrow> sc_lead_code_t \<Rightarrow> nat set \<Rightarrow> sc_lead_code_t \<Rightarrow> u8 list \<Rightarrow> bool" where
  "data_inv pl tot lc0 S lc src =
     (length src = 128 \<and> length (count_pkt lc) = 16 \<and> S \<subseteq> {..<tot} \<and>
      lc = lc0\<lparr>packet_count := int (card S), count_pkt := count_pkt lc\<rparr> \<and>
      (\<forall>j<128. seen (count_pkt lc) j = (j \<in> S)) \<and>
      (\<forall>i\<in>S. src ! (2 * i) = pl ! (2 * i) \<and> src ! (2 * i + 1) = pl ! (2 * i + 1)))"

lemma put_pair:
  assumes "i < 64" "length src = 128"
  obtains src' where "put (2 * i) [a, b] src = Some src'" "length src' = 128"
    "src' ! (2 * i) = a" "src' ! (2 * i + 1) = b" "\<And>k. k \<noteq> i \<Longrightarrow> k < 64 \<Longrightarrow> src' ! (2 * k) = src ! (2 * k)"
    "\<And>k. k \<noteq> i \<Longrightarrow> k < 64 \<Longrightarrow> src' ! (2 * k + 1) = src ! (2 * k + 1)"
proof
  let ?s = "list_write src (2 * i) [a, b]"
  show "put (2 * i) [a, b] src = Some ?s" "length ?s = 128" using assms by (simp_all add: put_def)
  show "?s ! (2 * i) = a" "?s ! (2 * i + 1) = b" using assms by (simp_all add: list_write_nth_in)
  fix k
  assume k: "k \<noteq> i" "k < 64"
  then show "?s ! (2 * k) = src ! (2 * k)"
    by (intro list_write_nth_out) (use assms in \<open>simp_all, linarith\<close>)
  have "2 * k + 1 < 2 * i \<or> 2 * i + 2 \<le> 2 * k + 1" using k by linarith
  then show "?s ! (2 * k + 1) = src ! (2 * k + 1)"
    by (intro list_write_nth_out) (use assms k in simp_all)
qed

lemma push_keeps:
  assumes inv: "data_inv pl tot lc0 S lc src" and i: "i < tot" and t: "tot \<le> 64" "packet_total lc0 = int tot"
  obtains lc' src' where "dec_push_data lc (of_nat (i + 5)) src (pl ! (2 * i), pl ! (2 * i + 1)) =
      Some (int (card (insert i S)) - int tot, lc', src')" "data_inv pl tot lc0 (insert i S) lc' src'"
proof -
  have i64: "i < 64" "i < 128" using i t by simp_all
  have sub: "of_nat (i + 5) - 5 = (of_nat i :: u8)" by simp
  have un: "unat (of_nat i :: u8) = i" using i64 by (simp add: unat_of_nat)
  from inv have len: "length src = 128" "length (count_pkt lc) = 16" and S: "S \<subseteq> {..<tot}"
    and lc: "lc = lc0\<lparr>packet_count := int (card S), count_pkt := count_pkt lc\<rparr>"
    and sn: "\<And>j. j < 128 \<Longrightarrow> seen (count_pkt lc) j = (j \<in> S)"
    and dt: "\<And>k. k \<in> S \<Longrightarrow> src ! (2 * k) = pl ! (2 * k) \<and> src ! (2 * k + 1) = pl ! (2 * k + 1)"
    by (auto simp: data_inv_def)
  have fin: "finite S" using S finite_subset by blast
  obtain src' where src': "put (2 * i) [pl ! (2 * i), pl ! (2 * i + 1)] src = Some src'" "length src' = 128"
    "src' ! (2 * i) = pl ! (2 * i)" "src' ! (2 * i + 1) = pl ! (2 * i + 1)"
    "\<And>k. k \<noteq> i \<Longrightarrow> k < 64 \<Longrightarrow> src' ! (2 * k) = src ! (2 * k)"
    "\<And>k. k \<noteq> i \<Longrightarrow> k < 64 \<Longrightarrow> src' ! (2 * k + 1) = src ! (2 * k + 1)"
    using put_pair [OF i64(1) len(1), of "pl ! (2 * i)" "pl ! (2 * i + 1)"] by metis
  define cp where "cp = (if i \<in> S then count_pkt lc
    else (count_pkt lc)[i div 8 := count_pkt lc ! (i div 8) OR push_bit (8 - i mod 8 - 1) 1])"
  have vc: "dec_valid_packet_count (count_pkt lc) (of_nat i) = (if i \<in> S then 0 else 1, cp)"
    unfolding count_packet [OF i64(2) len(2)] by (simp add: sn [OF i64(2)] cp_def)
  have cp: "length cp = 16" "\<And>j. j < 128 \<Longrightarrow> seen cp j = (j \<in> insert i S)"
    using len(2) seen_set [OF i64(2) _ len(2)] sn by (auto simp: cp_def)
  let ?lc' = "lc0\<lparr>packet_count := int (card (insert i S)), count_pkt := cp\<rparr>"
  have pc: "packet_count lc = int (card S)" "packet_total lc = int tot"
    by (subst lc; simp add: t(2))+
  have "lc\<lparr>count_pkt := cp, packet_count := (if (if i \<in> S then 0 else 1) = (1 :: int) then packet_count lc + 1 else packet_count lc)\<rparr> = ?lc'"
    (is "?lc1 = _") unfolding pc by (subst lc) (simp add: fin insert_absorb)
  note eq = this
  have "dec_push_data lc (of_nat (i + 5)) src (pl ! (2 * i), pl ! (2 * i + 1)) =
      Some (int (card (insert i S)) - int tot, ?lc', src')"
    unfolding dec_push_data_def sub Let_def vc un fst_conv snd_conv src'(1) eq by (simp add: t(2))
  moreover have "data_inv pl tot lc0 (insert i S) ?lc' src'"
  proof -
    have "src' ! (2 * k) = pl ! (2 * k) \<and> src' ! (2 * k + 1) = pl ! (2 * k + 1)" if "k \<in> insert i S" for k
    proof (cases "k = i")
      case True
      then show ?thesis using src'(3,4) by simp
    next
      case False
      then have k: "k \<in> S" "k < 64" using that S t(1) by auto
      then show ?thesis using src'(5,6) [OF False k(2)] dt [OF k(1)] by simp
    qed
    then show ?thesis using S i cp src'(2) by (simp add: data_inv_def)
  qed
  ultimately show thesis using that by blast
qed

lemma pairs_determine:
  assumes "length pl = 2 * tot" "2 * tot \<le> length src"
    "\<And>i. i < tot \<Longrightarrow> src ! (2 * i) = pl ! (2 * i) \<and> src ! (2 * i + 1) = pl ! (2 * i + 1)"
  shows "take (2 * tot) src = pl"
proof (rule nth_equalityI)
  show "length (take (2 * tot) src) = length pl" using assms(1,2) by simp
  fix k
  assume "k < length (take (2 * tot) src)"
  then have k: "k < 2 * tot" by simp
  then have "k div 2 < tot" by simp
  from assms(3) [OF this] have "src ! k = pl ! k"
    by (cases "even k") (auto elim!: evenE oddE)
  then show "take (2 * tot) src ! k = pl ! k" using k by simp
qed

section \<open>What the decoder makes of the data\<close>

text \<open>The result with name, password and random number, the rest zero.\<close>

definition sc_image :: "u8 list \<Rightarrow> u8 list \<Rightarrow> u8 \<Rightarrow> sc_result_t" where
  "sc_image ssid pwd r = ssid @ replicate (32 - length ssid) 0 @ pwd @ replicate (64 - length pwd) 0 @
     [of_nat (length ssid), of_nat (length pwd), r]"

lemma list_write_mid:
  "length ys = length ws \<Longrightarrow> i = length xs \<Longrightarrow> list_write (xs @ ys @ zs) i ws = xs @ ws @ zs"
  by (simp add: list_write_def)

lemma put_mid:
  "length ys = length ws \<Longrightarrow> i = length xs \<Longrightarrow> put i ws (xs @ ys @ zs) = Some (xs @ ws @ zs)"
  by (simp add: put_def list_write_mid)

lemma get_mid:
  "n = length ys \<Longrightarrow> i = length xs \<Longrightarrow> get i n (xs @ ys @ zs) = Some ys"
  by (simp add: get_def)

lemma replicate_split: "n \<le> m \<Longrightarrow> replicate m x = replicate n x @ replicate (m - n) x"
  by (simp add: replicate_add [symmetric])

lemma put_one: "i < length mem \<Longrightarrow> put i [x] mem = Some (mem[i := x])"
  by (simp add: put_def list_write_def upd_conv_take_nth_drop)

lemma image_parts:
  assumes "length ssid \<le> 32" "length pwd \<le> 63"
  shows "length (sc_image ssid pwd r) = 99" "sc_image ssid pwd r ! 96 = of_nat (length ssid)"
    "sc_image ssid pwd r ! 97 = of_nat (length pwd)" "sc_image ssid pwd r ! (32 + length pwd) = 0"
    "length ssid \<le> 31 \<Longrightarrow> sc_image ssid pwd r ! length ssid = 0"
    "(sc_image ssid pwd 0)[98 := r] = sc_image ssid pwd r"
  using assms by (auto simp: sc_image_def nth_append list_update_append)

lemma image_lens:
  assumes "length ssid \<le> 32" "length pwd \<le> 63"
  shows "unat (sc_image ssid pwd r ! 96) = length ssid" "unat (sc_image ssid pwd r ! 97) = length pwd"
  using assms by (simp_all add: image_parts unat_of_nat)

lemma image_fields:
  assumes "length ssid \<le> 32" "length pwd \<le> 63"
  shows "get 0 (length ssid) (sc_image ssid pwd r) = Some ssid" "get 32 (length pwd) (sc_image ssid pwd r) = Some pwd"
proof -
  show "get 0 (length ssid) (sc_image ssid pwd r) = Some ssid"
    using get_mid [of "length ssid" ssid 0 "[]"] by (simp add: sc_image_def)
  show "get 32 (length pwd) (sc_image ssid pwd r) = Some pwd"
    using get_mid [of "length pwd" pwd 32 "ssid @ replicate (32 - length ssid) 0"] assms by (simp add: sc_image_def)
qed

lemma copy_plain_image:
  assumes l: "length ssid \<le> 32" "length pwd \<le> 63" and src: "length src = 128" "take n src = pwd @ ssid @ rest"
  shows "copy_plain (length pwd) (length ssid) src (replicate 99 0) = Some ((sc_image ssid pwd 0)[length ssid := 0])"
proof -
  let ?a = "of_nat (length ssid) :: u8" and ?b = "of_nat (length pwd) :: u8"
  have z: "(replicate 99 0)[SSID_LEN_AT := ?a, PWD_LEN_AT := ?b] = replicate 32 0 @ replicate 64 0 @ [?a, ?b, 0]"
    using replicate_split [of 32 99 "0 :: u8"] replicate_split [of 64 67 "0 :: u8"]
    by (simp add: SSID_LEN_AT_def PWD_LEN_AT_def list_update_append numeral_3_eq_3)
  have p1: "put SSID_AT ssid (replicate 32 0 @ replicate 64 0 @ [?a, ?b, 0]) =
      Some (ssid @ replicate (32 - length ssid) 0 @ replicate 64 0 @ [?a, ?b, 0])"
    using put_mid [of "replicate (length ssid) 0" ssid 0 "[]"] replicate_split [OF l(1), of "0 :: u8"]
    by (simp add: SSID_AT_def)
  have p2: "put PWD_AT pwd (ssid @ replicate (32 - length ssid) 0 @ replicate 64 0 @ [?a, ?b, 0]) =
      Some (sc_image ssid pwd 0)"
    using put_mid [of "replicate (length pwd) 0" pwd 32 "ssid @ replicate (32 - length ssid) 0"]
      replicate_split [of "length pwd" 64 "0 :: u8"] l by (simp add: PWD_AT_def sc_image_def)
  have e: "src = pwd @ ssid @ (rest @ drop n src)" using src(2) append_take_drop_id [of n src] by (metis append_assoc)
  have g1: "get (length pwd) (length ssid) src = Some ssid" by (subst e, rule get_mid) simp_all
  have g2: "get 0 (length pwd) src = Some pwd"
    by (subst e) (use get_mid [of "length pwd" pwd 0 "[]"] in simp)
  have b: "unat ((ssid @ replicate (32 - length ssid) 0 @ replicate 64 0 @ [?a, ?b, 0]) ! PWD_LEN_AT) = length pwd"
    using l by (auto simp: nth_append PWD_LEN_AT_def unat_of_nat)
  have "put_zeros (sc_image ssid pwd 0) = Some ((sc_image ssid pwd 0)[length ssid := 0])"
  proof -
    have "(sc_image ssid pwd 0)[32 + length pwd := 0] = sc_image ssid pwd 0"
      using image_parts(4) [OF l] by (metis list_update_id)
    then show ?thesis
      using l by (simp add: put_zeros_def PWD_AT_def PWD_LEN_AT_def SSID_AT_def SSID_LEN_AT_def image_lens put_one image_parts(1))
  qed
  then show ?thesis by (simp add: copy_plain_def Let_def z g1 g2 p1 p2 b)
qed

text \<open>
  The terminating zero of a name of 32 bytes is the first byte of the password: what the receiver has
  then as the password.
\<close>

definition sc_got :: "u8 list \<Rightarrow> u8 list \<Rightarrow> u8 list" where
  "sc_got ssid pwd = (if length ssid = 32 \<and> pwd \<noteq> [] then 0 # tl pwd else pwd)"

lemma length_got [simp]: "length (sc_got ssid pwd) = length pwd"
  by (simp add: sc_got_def)

lemma image_zero:
  assumes l: "length ssid \<le> 32" "length pwd \<le> 63"
  shows "(sc_image ssid pwd 0)[length ssid := 0] = sc_image ssid (sc_got ssid pwd) 0"
proof (cases "length ssid = 32 \<and> pwd \<noteq> []")
  case True
  then obtain p ps where "pwd = p # ps" by (cases pwd) auto
  then show ?thesis using True by (simp add: sc_image_def sc_got_def list_update_append)
next
  case False
  have "sc_image ssid pwd 0 ! length ssid = 0"
    using False l by (cases "length ssid = 32") (auto simp: sc_image_def nth_append)
  then show ?thesis using False by (metis list_update_id sc_got_def)
qed

definition lead_done :: "u8 \<Rightarrow> u8 \<Rightarrow> u8 list \<Rightarrow> u8 list \<Rightarrow> sc_lead_code_t" where
  "lead_done ch r ssid pwd = lead_of ch r ssid pwd {1..4} True"

lemma check_payload:
  assumes l: "length ssid \<le> 32" "length pwd \<le> 63"
    and src: "length src = 128" "take (2 * sc_total ssid pwd) src = sc_payload ssid pwd"
    and lc: "ssidpwd_len lc = int (length ssid + length pwd)" "rnd lc = r"
  shows "check_crcs lc src (sc_image ssid (sc_got ssid pwd) 0) =
    Some (if cal_crc8 (sc_got ssid pwd) = cal_crc8 pwd then 0 else -1, sc_image ssid (sc_got ssid pwd) r, src[0 := 0])"
proof -
  let ?n = "length ssid + length pwd" and ?g = "sc_got ssid pwd"
  have at: "nat (int ?n + int ?n mod 2) = ?n + ?n mod 2"
  proof -
    have "int ?n mod 2 = int (?n mod 2)" by (simp add: zmod_int)
    then show ?thesis by (metis nat_int of_nat_add)
  qed
  have e: "src = (pwd @ ssid @ replicate (?n mod 2) 0) @ [cal_crc8 pwd] @ cal_crc8 ssid # drop (2 * sc_total ssid pwd) src"
    using append_take_drop_id [of "2 * sc_total ssid pwd" src] by (simp add: src(2) sc_payload_def)
  have e': "src = ((pwd @ ssid @ replicate (?n mod 2) 0) @ [cal_crc8 pwd]) @ [cal_crc8 ssid] @ drop (2 * sc_total ssid pwd) src"
    by (subst e) simp
  have g1: "get (?n + ?n mod 2) 1 src = Some [cal_crc8 pwd]" by (subst e, rule get_mid) simp_all
  have g2: "get (?n + ?n mod 2 + 1) 1 src = Some [cal_crc8 ssid]" by (subst e', rule get_mid) simp_all
  have l': "length ssid \<le> 32" "length ?g \<le> 63" using l by simp_all
  have u: "unat (sc_image ssid ?g r ! 96) = length ssid" "unat (sc_image ssid ?g r ! 97) = length pwd"
    using image_lens [OF l'] by simp_all
  have f: "get 0 (length ssid) (sc_image ssid ?g r) = Some ssid" "get 32 (length pwd) (sc_image ssid ?g r) = Some ?g"
    using image_fields [OF l'] by simp_all
  have c: "crc_ok (sc_image ssid ?g r) PWD_AT PWD_LEN_AT c = Some (cal_crc8 ?g = c)"
    "crc_ok (sc_image ssid ?g r) SSID_AT SSID_LEN_AT c = Some (cal_crc8 ssid = c)" for c
    by (simp_all add: crc_ok_def PWD_AT_def PWD_LEN_AT_def SSID_AT_def SSID_LEN_AT_def u f)
  show ?thesis
    unfolding check_crcs_def Let_def lc RANDOM_AT_def image_parts(6) [OF l'] at g1 g2
    by (simp add: c)
qed

lemma decode_payload:
  assumes l: "length ssid \<le> 32" "length pwd \<le> 63"
    and src: "length src = 128" "take (2 * sc_total ssid pwd) src = sc_payload ssid pwd"
    and lc: "ssidpwd_len lc = int (length ssid + length pwd)" "pwd_len lc = int (length pwd)" "rnd lc = r"
  shows "dec_data_decode aes (priv_of lc st (replicate 99 0) src) =
    Some (if cal_crc8 (sc_got ssid pwd) = cal_crc8 pwd then 0 else -1, sc_image ssid (sc_got ssid pwd) r, src[0 := 0])"
proof -
  have s: "unat (word_of_int (int (length ssid + length pwd) - int (length pwd)) :: u8) = length ssid"
    "unat (word_of_int (int (length pwd)) :: u8) = length pwd"
    using l by (simp_all add: unat_of_nat)
  have k: "\<not> aes_key (priv_of lc st (replicate 99 0) src) ! 0 \<noteq> 0" by (simp add: priv_of_def)
  have p: "take (2 * sc_total ssid pwd) src =
      pwd @ ssid @ (replicate ((length ssid + length pwd) mod 2) 0 @ [cal_crc8 pwd, cal_crc8 ssid])"
    by (simp add: src(2) sc_payload_def)
  have f: "lead_code (priv_of lc st (replicate 99 0) src) = lc" "src_data_buff (priv_of lc st (replicate 99 0) src) = src"
    "result (priv_of lc st (replicate 99 0) src) = replicate 99 0" by (simp_all add: priv_of_def)
  show ?thesis
    unfolding dec_data_decode_def Let_def if_not_P [OF k] f lc s copy_plain_image [OF l src(1) p] image_zero [OF l]
      bind.bind_lunit by (rule check_payload [OF l src lc(1,3)])
qed

section \<open>A data frame\<close>

lemma recv_data:
  assumes i: "i < 64" and c: "lead_complete_flag lc" "st = SC_STATUS_LOCKED_CHAN \<or> st = SC_STATUS_COMPLETE"
    and d: "dec_push_data lc (of_nat (i + 5)) src (pl ! (2 * i), pl ! (2 * i + 1)) = Some (d, lc', src')"
  shows "smartconfig_recv_rawframe aes (priv_of lc st res src) (data_frame pl i) =
    (if d \<noteq> 0 then Some (priv_of lc' st res src')
     else map_option (\<lambda>(status, priv1).
         if status = SC_STATUS_COMPLETE \<and> status_num (sc_status priv1) < 3 then priv1\<lparr>sc_status := status\<rparr>
         else if status = SC_STATUS_LOCKED_CHAN \<and> sc_status priv1 \<noteq> status then priv1\<lparr>sc_status := status\<rparr>
         else priv1) (try_decode aes (priv_of lc' st res src')))"
proof -
  have u: "unat (of_nat (i + 5) :: u8) = i + 5" using i by (simp only: unat_of_nat) simp
  have n: "\<not> (of_nat (i + 5) :: u8) < 5" "(of_nat (i + 5) :: u8) \<le> 127"
    using i by (simp_all only: word_less_nat_alt word_le_nat_alt u) simp_all
  show ?thesis
    using c d n by (auto simp: smartconfig_recv_rawframe_def sc_dec_packet_decode_def data_frame_def sc_frame_def priv_of_def
      SC_MAGIC_ADD0_def SC_MAGIC_ADD1_def SC_MAGIC_ADD2_def Let_def)
qed

text \<open>The receiver after the last missing packet.\<close>

definition received :: "u8 \<Rightarrow> u8 list \<Rightarrow> u8 list \<Rightarrow> smartconfig_priv_t \<Rightarrow> bool" where
  "received r ssid pwd q =
     (if cal_crc8 (sc_got ssid pwd) = cal_crc8 pwd
      then \<exists>lc src. q = priv_of lc SC_STATUS_COMPLETE (sc_image ssid (sc_got ssid pwd) r) src \<and>
             lead_complete_flag lc \<and> length src = 128
      else \<exists>src. q = priv_of sc_reset_lead_code SC_STATUS_LOCKED_CHAN (sc_image ssid (sc_got ssid pwd) r) src)"

lemma total_small: "sc_fits r ssid pwd \<Longrightarrow> sc_total ssid pwd \<le> 64"
  by (auto simp: sc_fits_def sc_total_def)

lemma last_packet:
  assumes f: "sc_fits r ssid pwd"
    and inv: "data_inv (sc_payload ssid pwd) (sc_total ssid pwd) (lead_done ch r ssid pwd) {..<sc_total ssid pwd} lc src"
  shows "\<exists>q. map_option (\<lambda>(status, priv1).
         if status = SC_STATUS_COMPLETE \<and> status_num (sc_status priv1) < 3 then priv1\<lparr>sc_status := status\<rparr>
         else if status = SC_STATUS_LOCKED_CHAN \<and> sc_status priv1 \<noteq> status then priv1\<lparr>sc_status := status\<rparr>
         else priv1) (try_decode aes (priv_of lc SC_STATUS_LOCKED_CHAN (replicate 99 0) src)) = Some q \<and> received r ssid pwd q"
proof -
  have l: "length ssid \<le> 32" "length pwd \<le> 63" using f by (auto simp: sc_fits_def)
  have src: "length src = 128"
    and lc: "lc = lead_done ch r ssid pwd\<lparr>packet_count := int (sc_total ssid pwd), count_pkt := count_pkt lc\<rparr>"
    and pl: "\<And>i. i < sc_total ssid pwd \<Longrightarrow>
      src ! (2 * i) = sc_payload ssid pwd ! (2 * i) \<and> src ! (2 * i + 1) = sc_payload ssid pwd ! (2 * i + 1)"
    using inv by (auto simp: data_inv_def)
  have p: "take (2 * sc_total ssid pwd) src = sc_payload ssid pwd"
    by (rule pairs_determine [OF payload_length _ pl]) (use src total_small [OF f] in simp_all)
  have lcs: "ssidpwd_len lc = int (length ssid + length pwd)" "pwd_len lc = int (length pwd)" "rnd lc = r"
    "packet_total lc = int (sc_total ssid pwd)" "packet_count lc = int (sc_total ssid pwd)" "lead_complete_flag lc"
    by (subst lc; simp add: lead_done_def lead_of_def)+
  have d: "dec_data_decode aes (priv_of lc SC_STATUS_LOCKED_CHAN (replicate 99 0) src) =
    Some (if cal_crc8 (sc_got ssid pwd) = cal_crc8 pwd then 0 else -1, sc_image ssid (sc_got ssid pwd) r, src[0 := 0])"
    by (rule decode_payload [OF l src p lcs(1-3)])
  have pf: "sc_status (priv_of lc SC_STATUS_LOCKED_CHAN (replicate 99 0) src) = SC_STATUS_LOCKED_CHAN"
    "lead_code (priv_of lc SC_STATUS_LOCKED_CHAN (replicate 99 0) src) = lc" by (simp_all add: priv_of_def)
  show ?thesis
    unfolding try_decode_def pf d lcs(4,5) using lcs(6) src
    by (simp add: received_def priv_of_def)
qed

lemma recv_after:
  assumes q: "received r ssid pwd q" and i: "i < 64"
  shows "\<exists>q'. smartconfig_recv_rawframe aes q (data_frame pl i) = Some q' \<and> received r ssid pwd q'"
proof (cases "cal_crc8 (sc_got ssid pwd) = cal_crc8 pwd")
  case True
  then obtain lc src where q: "q = priv_of lc SC_STATUS_COMPLETE (sc_image ssid (sc_got ssid pwd) r) src"
    "lead_complete_flag lc" "length src = 128" using q by (auto simp: received_def)
  have sub: "of_nat (i + 5) - 5 = (of_nat i :: u8)" by simp
  have un: "unat (of_nat i :: u8) = i" using i by (simp add: unat_of_nat)
  obtain src' where s: "put (2 * i) [pl ! (2 * i), pl ! (2 * i + 1)] src = Some src'" "length src' = 128"
    using put_pair [OF i q(3), of "pl ! (2 * i)" "pl ! (2 * i + 1)"] by metis
  obtain d lc' where d: "dec_push_data lc (of_nat (i + 5)) src (pl ! (2 * i), pl ! (2 * i + 1)) = Some (d, lc', src')"
    "lead_complete_flag lc'"
    unfolding dec_push_data_def sub Let_def un fst_conv snd_conv s(1) using q(2) by simp
  have "try_decode aes (priv_of lc' SC_STATUS_COMPLETE (sc_image ssid (sc_got ssid pwd) r) src') =
      Some (SC_STATUS_COMPLETE, priv_of lc' SC_STATUS_COMPLETE (sc_image ssid (sc_got ssid pwd) r) src')"
    by (simp add: try_decode_def priv_of_def)
  then have "smartconfig_recv_rawframe aes q (data_frame pl i) =
      Some (priv_of lc' SC_STATUS_COMPLETE (sc_image ssid (sc_got ssid pwd) r) src')"
    unfolding q(1) by (subst recv_data [OF i q(2) _ d(1)]) (simp_all add: priv_of_def)
  then show ?thesis using True d(2) s(2) by (auto simp: received_def)
next
  case False
  then obtain src where q: "q = priv_of sc_reset_lead_code SC_STATUS_LOCKED_CHAN (sc_image ssid (sc_got ssid pwd) r) src"
    using q by (auto simp: received_def)
  have "unat (of_nat (i + 5) :: u8) = i + 5" using i by (simp only: unat_of_nat) simp
  then have n: "\<not> (of_nat (i + 5) :: u8) < 5" using i by (simp only: word_less_nat_alt) simp
  have "smartconfig_recv_rawframe aes q (data_frame pl i) = Some q"
    using n by (simp add: q smartconfig_recv_rawframe_def sc_dec_packet_decode_def data_frame_def sc_frame_def priv_of_def
      sc_reset_lead_code_def)
  then show ?thesis using False q by (auto simp: received_def)
qed

lemma recv_all_after:
  "received r ssid pwd q \<Longrightarrow> set js \<subseteq> {..<64} \<Longrightarrow>
    \<exists>q'. recv_all aes q (map (data_frame pl) js) = Some q' \<and> received r ssid pwd q'"
proof (induction js arbitrary: q)
  case Nil
  then show ?case by simp
next
  case (Cons j js)
  obtain q1 where "smartconfig_recv_rawframe aes q (data_frame pl j) = Some q1" "received r ssid pwd q1"
    using recv_after [OF Cons.prems(1)] Cons.prems(2) by force
  then show ?case using Cons.IH [of q1] Cons.prems(2) by simp
qed

lemma data_run:
  assumes f: "sc_fits r ssid pwd"
  defines "tot \<equiv> sc_total ssid pwd" and "pl \<equiv> sc_payload ssid pwd"
  shows "data_inv pl tot (lead_done ch r ssid pwd) S lc src \<Longrightarrow> S \<noteq> {..<tot} \<Longrightarrow> set js \<subseteq> {..<tot} \<Longrightarrow>
    S \<union> set js = {..<tot} \<Longrightarrow>
    \<exists>q. recv_all aes (priv_of lc SC_STATUS_LOCKED_CHAN (replicate 99 0) src) (map (data_frame pl) js) = Some q \<and>
      received r ssid pwd q"
proof (induction js arbitrary: S lc src)
  case Nil
  then show ?case by simp
next
  case (Cons j js)
  have j: "j < tot" "tot \<le> 64" "j < 64" using Cons.prems total_small [OF f] by (auto simp: tot_def)
  have pt: "packet_total (lead_done ch r ssid pwd) = int tot" by (simp add: lead_done_def lead_of_def tot_def)
  obtain lc' src' where p: "dec_push_data lc (of_nat (j + 5)) src (pl ! (2 * j), pl ! (2 * j + 1)) =
      Some (int (card (insert j S)) - int tot, lc', src')" and inv: "data_inv pl tot (lead_done ch r ssid pwd) (insert j S) lc' src'"
    by (rule push_keeps [OF Cons.prems(1) j(1,2) pt])
  have e: "lc = lead_done ch r ssid pwd\<lparr>packet_count := int (card S), count_pkt := count_pkt lc\<rparr>"
    using Cons.prems(1) by (simp add: data_inv_def)
  have c: "lead_complete_flag lc" by (subst e) (simp add: lead_done_def lead_of_def)
  have sub: "insert j S \<subseteq> {..<tot}" using inv by (simp add: data_inv_def)
  note step = recv_data [OF j(3) c disjI1 [OF refl] p, of aes "replicate 99 0"]
  show ?case
  proof (cases "insert j S = {..<tot}")
    case True
    then have "smartconfig_recv_rawframe aes (priv_of lc SC_STATUS_LOCKED_CHAN (replicate 99 0) src) (data_frame pl j) = Some q \<Longrightarrow>
        received r ssid pwd q \<Longrightarrow> ?thesis" for q
      using recv_all_after [of r ssid pwd q js aes pl] Cons.prems(3) j(2) by fastforce
    then show ?thesis
      using last_packet [OF f inv [unfolded True tot_def pl_def], of aes] step True by (auto simp: pl_def)
  next
    case False
    then have "card (insert j S) \<noteq> tot" using sub card_subset_eq [of "{..<tot}" "insert j S"] by auto
    then have s: "smartconfig_recv_rawframe aes (priv_of lc SC_STATUS_LOCKED_CHAN (replicate 99 0) src) (data_frame pl j) =
        Some (priv_of lc' SC_STATUS_LOCKED_CHAN (replicate 99 0) src')" using step by simp
    show ?thesis using Cons.IH [OF inv False] Cons.prems(3,4) s by simp
  qed
qed

section \<open>A whole reception\<close>

lemma reception:
  assumes f: "sc_fits r ssid pwd"
    and ks: "set ks \<subseteq> {1..4}" "set (butlast ks) = {1..4}"
    and js: "set js = {..<sc_total ssid pwd}"
  shows "\<exists>p q. wlan_smart_config_start None = Some p \<and>
    recv_all aes p (map (lead_frame ch r ssid pwd) ks @ map (data_frame (sc_payload ssid pwd)) js) = Some q \<and>
    received r ssid pwd q"
proof -
  have ne: "ks \<noteq> []" using ks(2) by auto
  have full: "set ks = {1..4}" using ks(1) in_set_butlastD [of _ ks] unfolding ks(2) [symmetric] by blast
  have st: "lead_status {1..4} = SC_STATUS_LOCKED_CHAN" "lead_status {} = SC_STATUS_SEARCH_CHAN" by simp_all
  have "recv_all aes (priv_of (lead_of ch r ssid pwd {} False) SC_STATUS_SEARCH_CHAN (replicate 99 0) (replicate 128 0))
      (map (lead_frame ch r ssid pwd) ks) =
    Some (priv_of (lead_done ch r ssid pwd) SC_STATUS_LOCKED_CHAN (replicate 99 0) (replicate 128 0))"
    using lead_run [OF f ks(1), of "{}" False aes ch "replicate 99 0" "replicate 128 0"] ne full ks(2)
    by (simp add: lead_done_def)
  moreover have "data_inv (sc_payload ssid pwd) (sc_total ssid pwd) (lead_done ch r ssid pwd) {}
      (lead_done ch r ssid pwd) (replicate 128 0)"
    by (auto simp: data_inv_def lead_done_def lead_of_def seen_def less_mult_imp_div_less)
  moreover have "{} \<noteq> {..<sc_total ssid pwd}" by (auto simp: sc_total_def)
  ultimately show ?thesis
    using data_run [OF f, of ch "{}" "lead_done ch r ssid pwd" "replicate 128 0" js aes] js
    unfolding start_priv [of ch r ssid pwd] by (simp add: recv_all_append)
qed

lemma read_image:
  assumes l: "length ssid \<le> 31" "length pwd \<le> 63" and o: "length (out_ssid out) = 32" "length (out_passphrase out) = 64"
  shows "fst (smartconfig_read_result (sc_image ssid pwd r) out) = 0"
    "take (length ssid) (out_ssid (snd (smartconfig_read_result (sc_image ssid pwd r) out))) = ssid"
    "unat (out_ssid_len (snd (smartconfig_read_result (sc_image ssid pwd r) out))) = length ssid"
    "take (length pwd + 1) (out_passphrase (snd (smartconfig_read_result (sc_image ssid pwd r) out))) = pwd @ [0]"
    "random_num (snd (smartconfig_read_result (sc_image ssid pwd r) out)) = r"
proof -
  have l': "length ssid \<le> 32" using l(1) by simp
  have n: "unat (sc_image ssid pwd r ! 96) = length ssid" "unat (sc_image ssid pwd r ! 97) = length pwd"
    by (rule image_lens [OF l' l(2)])+
  have m: "sc_image ssid pwd r ! 98 = r" "take (length ssid) (sc_image ssid pwd r) = ssid"
    using l by (auto simp: sc_image_def nth_append)
  have p: "take (length pwd) (drop 32 (sc_image ssid pwd r)) = pwd"
    using image_fields(2) [OF l' l(2), of r] by (simp add: get_def split: if_splits)
  note d = smartconfig_read_result_def Let_def SSID_LEN_AT_def PWD_LEN_AT_def RANDOM_AT_def SSID_AT_def PWD_AT_def
    WLAN_SSID_MAX_LEN_def WLAN_PASSPHRASE_MAX_LEN_def n m p
  show "fst (smartconfig_read_result (sc_image ssid pwd r) out) = 0"
    "take (length ssid) (out_ssid (snd (smartconfig_read_result (sc_image ssid pwd r) out))) = ssid"
    "unat (out_ssid_len (snd (smartconfig_read_result (sc_image ssid pwd r) out))) = length ssid"
    "random_num (snd (smartconfig_read_result (sc_image ssid pwd r) out)) = r"
    using l o by (simp_all add: d list_write_def)
  obtain c cs where c: "drop (length pwd) (out_passphrase out) = c # cs"
    using l(2) o(2) by (cases "drop (length pwd) (out_passphrase out)") auto
  have "list_write (out_passphrase out) 0 pwd = pwd @ c # cs"
    using l o by (simp add: list_write_def c)
  then have "out_passphrase (snd (smartconfig_read_result (sc_image ssid pwd r) out)) =
      (if pwd \<noteq> [] then (pwd @ c # cs)[length pwd := 0] else (out_passphrase out)[0 := 0])"
    using l o by (simp add: d)
  also have "\<dots> = pwd @ 0 # cs" using c by (cases "pwd = []") (simp_all add: list_update_append)
  finally show "take (length pwd + 1) (out_passphrase (snd (smartconfig_read_result (sc_image ssid pwd r) out))) = pwd @ [0]"
    by simp
qed



text \<open>A name of 32 bytes, the longest a network has, is not received with a password: the zero stored
  behind it is the first byte of the password field, so the password check fails (unless the checksum
  takes zero for the first byte as well), the lead codes are reset and the status stays at the locked
  channel.
\<close>

lemma smartconfig_long_name_fails:
  assumes "sc_fits r ssid pwd" "length ssid = 32" "pwd \<noteq> []" "cal_crc8 (0 # tl pwd) \<noteq> cal_crc8 pwd"
    and "set ks \<subseteq> {1..4}" "set (butlast ks) = {1..4}" "set js = {..<sc_total ssid pwd}"
  shows "\<exists>p q. wlan_smart_config_start None = Some p \<and>
    recv_all aes p (map (lead_frame ch r ssid pwd) ks @ map (data_frame (sc_payload ssid pwd)) js) = Some q \<and>
    sc_status q = SC_STATUS_LOCKED_CHAN \<and> lead_code q = sc_reset_lead_code"
proof -
  have "sc_got ssid pwd = 0 # tl pwd" using assms(2,3) by (simp add: sc_got_def)
  then show ?thesis
    using reception [OF assms(1,5-7), of aes ch] assms(4) by (fastforce simp: received_def priv_of_def)
qed

lemma smartconfig_long_name_fails_witness:
  "\<exists>p q. wlan_smart_config_start None = Some p \<and>
    recv_all (\<lambda>k c. None) p
      (map (lead_frame 1 7 (replicate 32 0x61) [0x31]) [1, 2, 3, 4, 1] @
       map (data_frame (sc_payload (replicate 32 0x61) [0x31])) [0..<18]) = Some q \<and>
    sc_status q = SC_STATUS_LOCKED_CHAN \<and> lead_code q = sc_reset_lead_code"
proof -
  have "cal_crc8 (0 # tl [0x31]) \<noteq> cal_crc8 [0x31]"
    by code_simp
  moreover have "{1, 2, 3, 4} = {1..4 :: nat}" by auto
  ultimately show ?thesis
    using smartconfig_long_name_fails [of 7 "replicate 32 0x61" "[0x31]" "[1, 2, 3, 4, 1]" "[0..<18]" "\<lambda>k c. None" 1]
    by (simp add: sc_fits_def sc_total_def atLeast0LessThan del: upt_Suc upt_conv_Cons)
qed

text \<open>Once the lead codes are complete, a frame with packet number 0 or 69 to 127 makes the receiver store
  two bytes outside its 128-byte buffer, at offset 502 or 128 to 244: the number is only tested to be at
  most 127, and 5 is taken off it as an 8-bit number. The numbers 5 to 68 are stored inside.
\<close>

lemma smartconfig_store_bounds:
  assumes "lead_complete_flag (lead_code priv)" "length (src_data_buff priv) = 128" "num \<le> 127" "num = 0 \<or> 5 \<le> num"
  shows "(dec_push_data (lead_code priv) (of_nat num) (src_data_buff priv) (b0, b1) = None) = (num = 0 \<or> 69 \<le> num) \<and>
    (num = 0 \<or> 69 \<le> num \<longrightarrow> smartconfig_recv_rawframe aes priv (sc_frame num b0 b1) = None)"
proof -
  have u: "unat (of_nat num :: u8) = num" using assms(3) by (simp add: unat_of_nat)
  have s: "unat (of_nat num - 5 :: u8) = (if num = 0 then 251 else num - 5)"
  proof (cases "num = 0")
    case False
    then have "of_nat num - 5 = (of_nat (num - 5) :: u8)" using assms(4) by simp
    then show ?thesis using False assms(3) by (simp add: unat_of_nat)
  qed simp
  have p: "(dec_push_data (lead_code priv) (of_nat num) (src_data_buff priv) (b0, b1) = None) = (num = 0 \<or> 69 \<le> num)"
    using assms(2,4) by (auto simp: dec_push_data_def Let_def put_def s)
  have n: "\<not> (of_nat num > (0 :: u8) \<and> of_nat num < (5 :: u8))" "(of_nat num :: u8) \<le> 127"
    using assms(3,4) by (auto simp: word_less_nat_alt word_le_nat_alt u)
  show ?thesis
    using p n assms(1) by (auto simp: smartconfig_recv_rawframe_def sc_dec_packet_decode_def sc_frame_def
      SC_MAGIC_ADD0_def SC_MAGIC_ADD1_def SC_MAGIC_ADD2_def split: option.splits)
qed

lemma smartconfig_store_bounds_witness:
  "smartconfig_recv_rawframe (\<lambda>k c. None)
     \<lparr>aes_key = replicate 16 0, lead_code = sc_reset_lead_code\<lparr>lead_complete_flag := True\<rparr>,
      sc_status = SC_STATUS_LOCKED_CHAN, result = replicate 99 0, src_data_buff = replicate 128 0\<rparr> (sc_frame 69 1 2) = None"
  using smartconfig_store_bounds [of "\<lparr>aes_key = replicate 16 0, lead_code = sc_reset_lead_code\<lparr>lead_complete_flag := True\<rparr>,
      sc_status = SC_STATUS_LOCKED_CHAN, result = replicate 99 0, src_data_buff = replicate 128 0\<rparr>" 69 1 2 "\<lambda>k c. None"]
  by simp

end
