(* ===== verification/Ir_Nec.thy ===== *)
theory Ir_Nec
  imports Prelude
begin

text \<open>
  The NEC infrared protocol, src/driver/chip/ir_nec.c with include/driver/chip/ir_nec.h: a 32-bit code
  is sent as a run of samples (bit 7 is the level, bits 0 to 6 the length in sampling periods), and a
  run of received samples is decoded. The constants depend on the sampling clock. Lengths are natural
  numbers: a sum of less than 2^25 samples does not overflow the 32 bits of the code.
\<close>

unbundle bit_operations_syntax

section \<open>Clocks and constants\<close>

text \<open>The build has the 32K clock or asks for the crystal; \<open>HOSC_OTHER\<close> is a crystal the code has no
  constants for, which leaves them zero.\<close>

datatype ir_clk = IR_CLK_32K | HOSC_CLOCK_26M | HOSC_CLOCK_24M | HOSC_OTHER

record irrx_param =
  active_delay :: nat
  irrx_l1_min :: nat
  irrx_l0_min :: nat
  irrx_pmax :: nat
  irrx_dmid :: nat
  irrx_dmax :: nat

definition irrx_param_of :: "ir_clk \<Rightarrow> irrx_param" where
  "irrx_param_of clk =
     (case clk of
        IR_CLK_32K \<Rightarrow> \<lparr>active_delay = (0 + 1) * 1, irrx_l1_min = 112, irrx_l0_min = 56, irrx_pmax = 36, irrx_dmid = 36, irrx_dmax = 74\<rparr>
      | HOSC_CLOCK_26M \<Rightarrow> \<lparr>active_delay = (0 + 1) * 128, irrx_l1_min = 80, irrx_l0_min = 41, irrx_pmax = 27, irrx_dmid = 27, irrx_dmax = 55\<rparr>
      | HOSC_CLOCK_24M \<Rightarrow> \<lparr>active_delay = (0 + 1) * 128, irrx_l1_min = 70, irrx_l0_min = 40, irrx_pmax = 26, irrx_dmid = 26, irrx_dmax = 53\<rparr>
      | HOSC_OTHER \<Rightarrow> \<lparr>active_delay = 0, irrx_l1_min = 0, irrx_l0_min = 0, irrx_pmax = 0, irrx_dmid = 0, irrx_dmax = 0\<rparr>)"

definition IRTX_TS_US :: "ir_clk \<Rightarrow> nat" where
  "IRTX_TS_US clk = (case clk of IR_CLK_32K \<Rightarrow> 61 | HOSC_CLOCK_26M \<Rightarrow> 39 | HOSC_CLOCK_24M \<Rightarrow> 43 | HOSC_OTHER \<Rightarrow> 1)"

definition IRTX_9MS_NUM2 :: "ir_clk \<Rightarrow> nat" where "IRTX_9MS_NUM2 clk = 9000 div IRTX_TS_US clk - 127"
definition IRTX_4P5MS_NUM1 :: "ir_clk \<Rightarrow> nat" where "IRTX_4P5MS_NUM1 clk = 4500 div IRTX_TS_US clk"

definition irtx_560us_num :: "ir_clk \<Rightarrow> nat" where
  "irtx_560us_num clk = (if clk = HOSC_OTHER then 0 else 560 div IRTX_TS_US clk)"

definition irtx_1680us_num :: "ir_clk \<Rightarrow> nat" where
  "irtx_1680us_num clk = (if clk = HOSC_OTHER then 0 else 1680 div IRTX_TS_US clk)"

section \<open>Decoding\<close>

definition level :: "u8 \<Rightarrow> bool" where "level val = (val AND 0x80 \<noteq> 0)"
definition dur :: "u8 \<Rightarrow> nat" where "dur val = unat (val AND 0x7f)"

text \<open>The loops give the last sample read, the length, and the samples from where they stopped.\<close>

fun find_lead1 :: "nat \<Rightarrow> nat \<Rightarrow> u8 \<Rightarrow> u8 list \<Rightarrow> u8 \<times> nat \<times> u8 list" where
  "find_lead1 l1_min len val [] = (val, len, [])"
| "find_lead1 l1_min len val (v # vs) =
     (if level v then find_lead1 l1_min (len + dur v) v vs
      else if len > l1_min then (v, len, v # vs)
      else find_lead1 l1_min 0 v vs)"

fun find_lead0 :: "nat \<Rightarrow> nat \<Rightarrow> u8 \<Rightarrow> u8 list \<Rightarrow> u8 \<times> nat \<times> u8 list" where
  "find_lead0 l0_min len val [] = (val, len, [])"
| "find_lead0 l0_min len val (v # vs) =
     (if level v then if len > l0_min then (v, len, v # vs) else find_lead0 l0_min 0 v vs
      else find_lead0 l0_min (len + dur v) v vs)"

text \<open>The decoding loop; \<open>None\<close> is error_code.\<close>

fun decode_bits :: "irrx_param \<Rightarrow> bool \<Rightarrow> nat \<Rightarrow> u32 \<Rightarrow> nat \<Rightarrow> u8 list \<Rightarrow> u32 option" where
  "decode_bits p lst len code bitCnt [] = Some code"
| "decode_bits p lst len code bitCnt (v # vs) =
     (if lst
      then if level v then decode_bits p lst (len + dur v) code bitCnt vs
           else if len > irrx_pmax p then None
           else decode_bits p False (dur v) code bitCnt vs
      else if level v
           then if len > irrx_dmax p then None
                else (let code' = (if len > irrx_dmid p then code OR push_bit bitCnt 1 else code)
                      in if bitCnt + 1 = 32 then Some code'
                         else decode_bits p True (dur v) code' (bitCnt + 1) vs)
           else decode_bits p lst (len + dur v) code bitCnt vs)"

definition IRRX_NECPacket_DeCode :: "ir_clk \<Rightarrow> u8 list \<Rightarrow> u32" where
  "IRRX_NECPacket_DeCode clk buf =
     (let p = irrx_param_of clk
      in case find_lead1 (irrx_l1_min p) (active_delay p div 2) 0 buf of
           (v1, len1, vs1) \<Rightarrow>
             if level v1 \<or> len1 \<le> irrx_l1_min p then -1
             else case find_lead0 (irrx_l0_min p) 0 v1 vs1 of
                    (v0, len0, vs0) \<Rightarrow>
                      if \<not> level v0 \<or> len0 \<le> irrx_l0_min p then -1
                      else case decode_bits p True 0 0 0 vs0 of None \<Rightarrow> -1 | Some code \<Rightarrow> code)"

text \<open>The check of a code; the build does not define IRRX_CHECK_ADDR_CODE.\<close>

definition IRRX_NECCode_Valid :: "u32 \<Rightarrow> bool" where
  "IRRX_NECCode_Valid code =
     (let tmp1 = code AND 0x00ff00ff; tmp2 = drop_bit 8 (code AND 0xff00ff00)
      in (tmp1 XOR tmp2) AND 0x00ff0000 = 0x00ff0000)"

section \<open>Encoding\<close>

text \<open>The two samples of a bit.\<close>

definition send_bit :: "ir_clk \<Rightarrow> bool \<Rightarrow> u8 list" where
  "send_bit clk b =
     [0x80 OR of_nat (irtx_560us_num clk), of_nat (if b then irtx_1680us_num clk else irtx_560us_num clk)]"

fun send_byte :: "ir_clk \<Rightarrow> nat \<Rightarrow> u8 \<Rightarrow> u8 list" where
  "send_byte clk 0 b = []"
| "send_byte clk (Suc n) b = send_bit clk (b AND 1 \<noteq> 0) @ send_byte clk n (drop_bit 1 b)"

definition IRTX_NECPacket_Code :: "ir_clk \<Rightarrow> u32 \<Rightarrow> u8 list" where
  "IRTX_NECPacket_Code clk ir_tx_code =
     (let tx_code = [ucast (drop_bit 24 ir_tx_code), ucast (drop_bit 16 ir_tx_code),
                     ucast (drop_bit 8 ir_tx_code), ucast (ir_tx_code AND 0xff)]
      in (if clk = HOSC_OTHER then []
          else [0x80 OR 0x7f, 0x80 OR of_nat (IRTX_9MS_NUM2 clk), of_nat (IRTX_4P5MS_NUM1 clk)]) @
         concat (map (send_byte clk 8) tx_code) @
         [0x80 OR of_nat (irtx_560us_num clk), of_nat (irtx_560us_num clk), 0x7f, 0x7f, 0x7f, 0x7f])"

definition IR_NEC_CODE :: "u8 \<Rightarrow> u8 \<Rightarrow> u32" where
  "IR_NEC_CODE add key =
     (push_bit 24 (ucast add) OR (push_bit 16 (NOT (ucast add)) AND 0x00ff0000) OR
      (push_bit 8 (ucast key)) OR (NOT (ucast key) AND 0x000000ff))"

section \<open>Bits\<close>

fun bits_val :: "nat \<Rightarrow> bool list \<Rightarrow> u32" where
  "bits_val k [] = 0"
| "bits_val k (b # bs) = (if b then push_bit k 1 else 0) OR bits_val (Suc k) bs"

lemma bit_bits_val: "bit (bits_val k bs) i = (k \<le> i \<and> i < k + length bs \<and> i < 32 \<and> bs ! (i - k))"
proof (induction bs arbitrary: k)
  case Nil
  then show ?case by simp
next
  case (Cons b bs)
  have "bit (if b then push_bit k (1 :: u32) else 0) i = (b \<and> i = k \<and> i < 32)"
    by (auto simp: bit_simps)
  then have "bit (bits_val k (b # bs)) i = (b \<and> i = k \<and> i < 32 \<or> Suc k \<le> i \<and> i < Suc k + length bs \<and> i < 32 \<and> bs ! (i - Suc k))"
    using Cons.IH [of "Suc k"] by (simp add: bit_or_iff)
  also have "\<dots> = (k \<le> i \<and> i < k + length (b # bs) \<and> i < 32 \<and> (b # bs) ! (i - k))"
    by (cases "i = k") (auto simp: nth_Cons' le_less Suc_le_eq)
  finally show ?case .
qed

lemma send_byte_bits: "send_byte clk n b = concat (map (send_bit clk) (map (bit b) [0..<n]))"
proof (induction n arbitrary: b)
  case 0
  then show ?case by simp
next
  case (Suc n)
  have "[0..<Suc n] = 0 # map Suc [0..<n]" by (simp add: upt_conv_Cons map_Suc_upt del: upt_Suc)
  moreover have "(b AND 1 \<noteq> 0) = bit b 0" by (simp add: and_one_eq odd_iff_mod_2_eq_one bit_0 mod2_eq_if)
  moreover have "bit (drop_bit 1 b) = (\<lambda>i. bit b (Suc i))" by (auto simp: bit_simps fun_eq_iff)
  ultimately show ?case using Suc.IH [of "drop_bit 1 b"] by (simp add: o_def del: upt_Suc)
qed

section \<open>Decoding what was encoded\<close>

text \<open>The clocks at which sent and received samples have the same length.\<close>

definition crystal :: "ir_clk \<Rightarrow> bool" where "crystal clk = (clk = HOSC_CLOCK_26M \<or> clk = HOSC_CLOCK_24M)"

lemma samples:
  assumes "crystal clk"
  defines "n \<equiv> irtx_560us_num clk" and "w \<equiv> irtx_1680us_num clk" and "p \<equiv> irrx_param_of clk"
  shows "level (0x80 OR of_nat n)" "dur (0x80 OR of_nat n) = n" "\<not> level (of_nat n)" "dur (of_nat n) = n"
    "\<not> level (of_nat w)" "dur (of_nat w) = w" "n \<le> irrx_pmax p" "n \<le> irrx_dmid p" "irrx_dmid p < w" "w \<le> irrx_dmax p"
    "n \<le> irrx_dmax p"
  using assms
  by (auto simp: crystal_def irtx_560us_num_def irtx_1680us_num_def IRTX_TS_US_def irrx_param_of_def level_def dur_def)

lemma lead_samples:
  assumes "crystal clk"
  defines "p \<equiv> irrx_param_of clk"
  shows "level 0xff" "dur 0xff = 127" "level (0x80 OR of_nat (IRTX_9MS_NUM2 clk))" "\<not> level (of_nat (IRTX_4P5MS_NUM1 clk))"
    "irrx_l1_min p < active_delay p div 2 + 127 + dur (0x80 OR of_nat (IRTX_9MS_NUM2 clk))"
    "irrx_l0_min p < dur (of_nat (IRTX_4P5MS_NUM1 clk))"
  using assms
  by (auto simp: crystal_def IRTX_9MS_NUM2_def IRTX_4P5MS_NUM1_def IRTX_TS_US_def irrx_param_of_def level_def dur_def)

lemma decode_tail:
  assumes c: "crystal clk"
  shows "k + length bs < 32 \<Longrightarrow>
    decode_bits (irrx_param_of clk) False (if b then irtx_1680us_num clk else irtx_560us_num clk) code k
      (concat (map (send_bit clk) bs) @ (0x80 OR of_nat (irtx_560us_num clk)) # rest) =
    (if k + length bs = 31 then Some (code OR bits_val k (b # bs))
     else decode_bits (irrx_param_of clk) True (irtx_560us_num clk) (code OR bits_val k (b # bs)) (k + 1 + length bs) rest)"
proof (induction bs arbitrary: b code k)
  case Nil
  then show ?case using samples [OF c] by (auto simp: Let_def)
next
  case (Cons b' bs)
  have step: "decode_bits (irrx_param_of clk) False (if b then irtx_1680us_num clk else irtx_560us_num clk) code k
      (send_bit clk b' @ xs) =
    decode_bits (irrx_param_of clk) False (if b' then irtx_1680us_num clk else irtx_560us_num clk)
      (code OR (if b then push_bit k 1 else 0)) (Suc k) xs" for xs
    using samples [OF c] Cons.prems by (simp add: send_bit_def Let_def)
  show ?case
    using Cons.IH [of "Suc k" b' "code OR (if b then push_bit k 1 else 0)"] Cons.prems step
    by (simp add: or.assoc)
qed

lemma decode_frame:
  assumes c: "crystal clk" and l: "0 < length bs" "length bs \<le> 32"
  shows "IRRX_NECPacket_DeCode clk
      ([0x80 OR 0x7f, 0x80 OR of_nat (IRTX_9MS_NUM2 clk), of_nat (IRTX_4P5MS_NUM1 clk)] @
       concat (map (send_bit clk) bs) @ (0x80 OR of_nat (irtx_560us_num clk)) # (if length bs = 32 then rest else [])) =
    bits_val 0 bs"
proof -
  obtain b cs where bs: "bs = b # cs" using l(1) by (cases bs) auto
  note s = samples [OF c] and le = lead_samples [OF c]
  have first: "decode_bits (irrx_param_of clk) True 0 0 0 (concat (map (send_bit clk) bs) @ xs) =
    decode_bits (irrx_param_of clk) False (if b then irtx_1680us_num clk else irtx_560us_num clk) 0 0
      (concat (map (send_bit clk) cs) @ xs)" for xs
    using s by (simp add: bs send_bit_def)
  have "decode_bits (irrx_param_of clk) True 0 0 0
      (concat (map (send_bit clk) bs) @ (0x80 OR of_nat (irtx_560us_num clk)) # (if length bs = 32 then rest else [])) =
    Some (bits_val 0 bs)"
    unfolding first using decode_tail [OF c, of 0 cs b 0] l by (simp add: bs)
  then show ?thesis
    using s le by (simp add: IRRX_NECPacket_DeCode_def Let_def bs send_bit_def)
qed

text \<open>The code with its bytes in the other order: the first byte sent becomes the lowest.\<close>

definition swap_bytes :: "u32 \<Rightarrow> u32" where
  "swap_bytes c = (drop_bit 24 c) OR (drop_bit 8 c AND 0xff00) OR (push_bit 8 c AND 0xff0000) OR push_bit 24 c"

definition code_bits :: "u32 \<Rightarrow> bool list" where
  "code_bits c = map (\<lambda>i. bit c (24 + i)) [0..<8] @ map (\<lambda>i. bit c (16 + i)) [0..<8] @
     map (\<lambda>i. bit c (8 + i)) [0..<8] @ map (bit c) [0..<8]"

lemma masks: "(0xff :: u32) = mask 8" "(0xff00 :: u32) = push_bit 8 (mask 8)" "(0xff0000 :: u32) = push_bit 16 (mask 8)"
  by (simp_all add: mask_eq_exp_minus_1)

lemma bits_val_swap: "bits_val 0 (code_bits c) = swap_bytes c"
proof (rule bit_word_eqI)
  fix i
  assume "i < LENGTH(32)"
  then have i: "i < 32" by simp
  consider "i < 8" | "8 \<le> i" "i < 16" | "16 \<le> i" "i < 24" | "24 \<le> i" by linarith
  then show "bit (bits_val 0 (code_bits c)) i = bit (swap_bytes c) i"
    using i unfolding bit_bits_val swap_bytes_def masks
    by cases (auto simp: code_bits_def nth_append bit_simps add.commute dest: bit_imp_le_length)
qed

lemma packet_frame:
  assumes "crystal clk"
  shows "IRTX_NECPacket_Code clk c =
    [0x80 OR 0x7f, 0x80 OR of_nat (IRTX_9MS_NUM2 clk), of_nat (IRTX_4P5MS_NUM1 clk)] @
    concat (map (send_bit clk) (code_bits c)) @ (0x80 OR of_nat (irtx_560us_num clk)) #
    [of_nat (irtx_560us_num clk), 0x7f, 0x7f, 0x7f, 0x7f]"
proof -
  have b: "send_byte clk 8 (ucast (drop_bit k c)) = concat (map (send_bit clk) (map (\<lambda>i. bit c (k + i)) [0..<8]))" for k
    unfolding send_byte_bits by (rule arg_cong [of _ _ "\<lambda>x. concat (map _ x)"], rule map_cong) (auto simp: bit_simps add.commute)
  have b0: "send_byte clk 8 (ucast (c AND 0xff)) = concat (map (send_bit clk) (map (bit c) [0..<8]))"
    unfolding send_byte_bits masks by (rule arg_cong [of _ _ "\<lambda>x. concat (map _ x)"], rule map_cong) (auto simp: bit_simps)
  have "clk \<noteq> HOSC_OTHER" using assms by (auto simp: crystal_def)
  then show ?thesis
    by (simp only: IRTX_NECPacket_Code_def Let_def list.map b b0 code_bits_def map_append concat_append) simp
qed

lemma wide_masks: "(0x00ff00ff :: u32) = mask 8 OR push_bit 16 (mask 8)" "(0xff00ff00 :: u32) = push_bit 8 (mask 8) OR push_bit 24 (mask 8)"
  by (simp_all add: mask_eq_exp_minus_1)

lemma valid_if:
  assumes "\<And>i. i < 8 \<Longrightarrow> bit code (16 + i) \<noteq> bit code (24 + i)"
  shows "IRRX_NECCode_Valid code"
proof -
  have "((code AND 0x00ff00ff) XOR drop_bit 8 (code AND 0xff00ff00)) AND 0x00ff0000 = 0x00ff0000"
  proof (rule bit_word_eqI)
    fix i
    assume i: "i < LENGTH(32)"
    show "bit (((code AND 0x00ff00ff) XOR drop_bit 8 (code AND 0xff00ff00)) AND 0x00ff0000) i = bit (0x00ff0000 :: u32) i"
      using i assms [of "i - 16"] unfolding masks wide_masks
      by (cases "16 \<le> i \<and> i < 24") (auto simp: bit_simps)
  qed
  then show ?thesis by (simp add: IRRX_NECCode_Valid_def Let_def)
qed

lemma nec_code_valid: "IRRX_NECCode_Valid (swap_bytes (IR_NEC_CODE add key))"
proof (rule valid_if)
  fix i :: nat
  assume i: "i < 8"
  have s: "bit (swap_bytes c) (16 + i) = bit c (8 + i)" "bit (swap_bytes c) (24 + i) = bit c i" for c
    using i unfolding bits_val_swap [symmetric] bit_bits_val by (simp_all add: code_bits_def nth_append)
  have "bit (IR_NEC_CODE add key) (8 + i) = bit key i" "bit (IR_NEC_CODE add key) i = (\<not> bit key i)"
    using i unfolding IR_NEC_CODE_def masks by (auto simp: bit_simps mask_eq_exp_minus_1 [symmetric])
  then show "bit (swap_bytes (IR_NEC_CODE add key)) (16 + i) \<noteq> bit (swap_bytes (IR_NEC_CODE add key)) (24 + i)"
    by (simp add: s)
qed

text \<open>
  C40: A code sent with IRTX_NECPacket_Code is decoded by IRRX_NECPacket_DeCode to the same code with its
  bytes swapped, at both crystal clocks; a code that IR_NEC_CODE formats for an address and a key passes
  IRRX_NECCode_Valid.
\<close>

theorem nec_roundtrip:
  assumes "crystal clk"
  shows "IRRX_NECPacket_DeCode clk (IRTX_NECPacket_Code clk c) = swap_bytes c \<and>
    IRRX_NECCode_Valid (IRRX_NECPacket_DeCode clk (IRTX_NECPacket_Code clk (IR_NEC_CODE add key)))"
proof -
  have l: "length (code_bits c) = 32" for c by (simp add: code_bits_def)
  have d: "IRRX_NECPacket_DeCode clk (IRTX_NECPacket_Code clk c) = swap_bytes c" for c
    using decode_frame [OF assms, of "code_bits c" "[of_nat (irtx_560us_num clk), 0x7f, 0x7f, 0x7f, 0x7f]"]
    by (simp only: packet_frame [OF assms] l bits_val_swap) simp
  show ?thesis using d nec_code_valid by simp
qed

theorem nec_roundtrip_witness:
  "IRRX_NECPacket_DeCode HOSC_CLOCK_24M (IRTX_NECPacket_Code HOSC_CLOCK_24M 0x12345678) = 0x78563412"
proof -
  have "swap_bytes 0x12345678 = 0x78563412" by (simp add: swap_bytes_def)
  then show ?thesis using nec_roundtrip [of HOSC_CLOCK_24M "0x12345678"] by (simp add: crystal_def)
qed

lemma take_frame:
  assumes "length xs = 2 * n"
  shows "take (3 + 2 * n + 1) ([a, b, c] @ xs @ d # r) = [a, b, c] @ xs @ [d]"
proof -
  have "3 + 2 * n + 1 = Suc (Suc (Suc (Suc (length xs))))" using assms by simp
  then show ?thesis by (simp only:) simp
qed

text \<open>A frame that is cut short after any number of bits (at least one) is not reported as an error:
  DeCode returns the bits it got, in the low bits of the code, and zeros above.
\<close>

lemma nec_truncated_accepted:
  assumes "crystal clk" "0 < n" "n < 32"
  shows "IRRX_NECPacket_DeCode clk (take (3 + 2 * n + 1) (IRTX_NECPacket_Code clk c)) = take_bit n (swap_bytes c)"
proof -
  let ?bs = "take n (code_bits c)"
  have len: "length (code_bits c) = 32" by (simp add: code_bits_def)
  have l: "length ?bs = n" using assms(3) len by simp
  obtain b where b: "code_bits c = ?bs @ b # drop (Suc n) (code_bits c)"
    using assms(3) len by (metis id_take_nth_drop)
  have sb: "concat (map (send_bit clk) (code_bits c)) =
      concat (map (send_bit clk) ?bs) @ send_bit clk b @ concat (map (send_bit clk) (drop (Suc n) (code_bits c)))"
    by (subst b) simp
  have lc: "length (concat (map (send_bit clk) ?bs)) = 2 * n"
    using l by (induction ?bs arbitrary: n) (auto simp: send_bit_def length_concat sum_list_triv comp_def)
  have "take (3 + 2 * n + 1) (IRTX_NECPacket_Code clk c) =
    [0x80 OR 0x7f, 0x80 OR of_nat (IRTX_9MS_NUM2 clk), of_nat (IRTX_4P5MS_NUM1 clk)] @
       concat (map (send_bit clk) ?bs) @ [0x80 OR of_nat (irtx_560us_num clk)]"
    unfolding packet_frame [OF assms(1)] sb send_bit_def append_Cons [of "0x80 OR of_nat (irtx_560us_num clk)"] append_assoc
    by (rule take_frame [OF lc [unfolded send_bit_def]])
  then have "IRRX_NECPacket_DeCode clk (take (3 + 2 * n + 1) (IRTX_NECPacket_Code clk c)) = bits_val 0 ?bs"
    using decode_frame [OF assms(1), of ?bs "[]"] l assms(2,3) by (simp only: if_False) simp
  also have "\<dots> = take_bit n (swap_bytes c)"
    unfolding bits_val_swap [symmetric]
    by (rule bit_word_eqI) (use l len assms(3) in \<open>auto simp: bit_bits_val bit_take_bit_iff\<close>)
  finally show ?thesis .
qed

lemma nec_truncated_accepted_witness:
  "IRRX_NECPacket_DeCode HOSC_CLOCK_26M (take 20 (IRTX_NECPacket_Code HOSC_CLOCK_26M 0x12345678)) = 0x12"
proof -
  have "take_bit 8 (swap_bytes 0x12345678) = 0x12" by (simp add: swap_bytes_def)
  then show ?thesis using nec_truncated_accepted [of HOSC_CLOCK_26M 8 "0x12345678"] by (simp add: crystal_def)
qed

end
