(* ===== verification/Psram_Heap.thy ===== *)
theory Psram_Heap
  imports Prelude "HOL-Library.Multiset"
begin

text \<open>
  The allocator of the external RAM, src/driver/chip/psram/psram_heap_4.c: free blocks are linked in
  address order through a header in front of each block, neighbouring free blocks are merged when a block
  is freed. Addresses and sizes are natural numbers, and the additions and subtractions of size_t wrap at
  2^32. The assertions (configASSERT) and the trace macros are not modelled.
\<close>

unbundle bit_operations_syntax

section \<open>State\<close>

definition add32 :: "nat \<Rightarrow> nat \<Rightarrow> nat" where "add32 a b = (a + b) mod 2 ^ 32"
definition sub32 :: "nat \<Rightarrow> nat \<Rightarrow> nat" where "sub32 a b = (a + (2 ^ 32 - b mod 2 ^ 32)) mod 2 ^ 32"

text \<open>A block header; the address 0 is NULL.\<close>

record psram_BlockLink_t =
  pxNextFreeBlock :: nat
  xBlockSize :: nat

text \<open>What the linker fixes: the address of psram_xStart, the heap's start and its end.\<close>

record psram_layout =
  xStart_at :: nat
  psram_end :: nat
  IDCACHE_END_ADDR :: nat

record psram_heap =
  blk :: "nat \<Rightarrow> psram_BlockLink_t"
  psram_pxEnd :: nat
  psram_xFreeBytesRemaining :: nat
  psram_xMinimumEverFreeBytesRemaining :: nat
  psram_xBlockAllocatedBit :: nat

definition psram_portBYTE_ALIGNMENT :: nat where "psram_portBYTE_ALIGNMENT = 16"
definition psram_portBYTE_ALIGNMENT_MASK :: nat where "psram_portBYTE_ALIGNMENT_MASK = 0xf"
definition psram_xHeapStructSize :: nat where "psram_xHeapStructSize = 16"
definition psram_heapMINIMUM_BLOCK_SIZE :: nat where "psram_heapMINIMUM_BLOCK_SIZE = 2 * psram_xHeapStructSize"

definition set_next :: "nat \<Rightarrow> nat \<Rightarrow> (nat \<Rightarrow> psram_BlockLink_t) \<Rightarrow> nat \<Rightarrow> psram_BlockLink_t" where
  "set_next a q m = m(a := (m a)\<lparr>pxNextFreeBlock := q\<rparr>)"

definition set_size :: "nat \<Rightarrow> nat \<Rightarrow> (nat \<Rightarrow> psram_BlockLink_t) \<Rightarrow> nat \<Rightarrow> psram_BlockLink_t" where
  "set_size a n m = m(a := (m a)\<lparr>xBlockSize := n\<rparr>)"

section \<open>Operations\<close>

text \<open>\<open>x & ~psram_portBYTE_ALIGNMENT_MASK\<close>\<close>

definition align_down :: "nat \<Rightarrow> nat" where
  "align_down x = sub32 x (x AND psram_portBYTE_ALIGNMENT_MASK)"

definition psram_heap_init :: "psram_layout \<Rightarrow> psram_heap \<Rightarrow> psram_heap" where
  "psram_heap_init L h =
     (let total0 = sub32 (IDCACHE_END_ADDR L) (psram_end L);
          unaligned = psram_end L AND psram_portBYTE_ALIGNMENT_MASK \<noteq> 0;
          start = (if unaligned then align_down (add32 (psram_end L) (psram_portBYTE_ALIGNMENT - 1)) else psram_end L);
          total1 = (if unaligned then sub32 total0 (sub32 start (psram_end L)) else total0);
          m1 = (blk h)(xStart_at L := \<lparr>pxNextFreeBlock = start, xBlockSize = 0\<rparr>);
          endp = align_down (sub32 (add32 start total1) psram_xHeapStructSize);
          m2 = m1(endp := \<lparr>pxNextFreeBlock = 0, xBlockSize = 0\<rparr>);
          n = sub32 endp start
      in \<lparr>blk = m2(start := \<lparr>pxNextFreeBlock = endp, xBlockSize = n\<rparr>), psram_pxEnd = endp,
          psram_xFreeBytesRemaining = n, psram_xMinimumEverFreeBytesRemaining = n,
          psram_xBlockAllocatedBit = 2 ^ 31\<rparr>)"

text \<open>The search loop of prvInsertBlockIntoFreeList; a list that never gets there is \<open>None\<close>.\<close>

partial_function (option) find_pos :: "(nat \<Rightarrow> psram_BlockLink_t) \<Rightarrow> nat \<Rightarrow> nat \<Rightarrow> nat option" where
  "find_pos m b it = (if pxNextFreeBlock (m it) < b then find_pos m b (pxNextFreeBlock (m it)) else Some it)"

text \<open>The second merge and the links of the inserted block.\<close>

definition link_right :: "nat \<Rightarrow> nat \<Rightarrow> nat \<Rightarrow> (nat \<Rightarrow> psram_BlockLink_t) \<Rightarrow> nat \<Rightarrow> psram_BlockLink_t" where
  "link_right pxEnd it b m =
     (let q = pxNextFreeBlock (m it)
      in if add32 b (xBlockSize (m b)) = q
         then if q \<noteq> pxEnd
              then set_next b (pxNextFreeBlock (m q)) (set_size b (add32 (xBlockSize (m b)) (xBlockSize (m q))) m)
              else set_next b pxEnd m
         else set_next b q m)"

definition psram_prvInsertBlockIntoFreeList :: "psram_layout \<Rightarrow> nat \<Rightarrow> psram_heap \<Rightarrow> psram_heap option" where
  "psram_prvInsertBlockIntoFreeList L pxBlockToInsert h =
     (case find_pos (blk h) pxBlockToInsert (xStart_at L) of
        None \<Rightarrow> None
      | Some it \<Rightarrow>
          (let m = blk h;
               merge = (add32 it (xBlockSize (m it)) = pxBlockToInsert);
               m1 = (if merge then set_size it (add32 (xBlockSize (m it)) (xBlockSize (m pxBlockToInsert))) m else m);
               b = (if merge then it else pxBlockToInsert);
               m2 = link_right (psram_pxEnd h) it b m1
           in Some (h\<lparr>blk := (if it \<noteq> b then set_next it b m2 else m2)\<rparr>)))"

text \<open>The search loop of psram_malloc: the predecessor and the block.\<close>

partial_function (option) find_fit :: "(nat \<Rightarrow> psram_BlockLink_t) \<Rightarrow> nat \<Rightarrow> nat \<Rightarrow> nat \<Rightarrow> (nat \<times> nat) option" where
  "find_fit m w pxPreviousBlock pxBlock =
     (if xBlockSize (m pxBlock) < w \<and> pxNextFreeBlock (m pxBlock) \<noteq> 0
      then find_fit m w pxBlock (pxNextFreeBlock (m pxBlock)) else Some (pxPreviousBlock, pxBlock))"

text \<open>The request with the header, rounded up.\<close>

definition padded :: "nat \<Rightarrow> nat" where
  "padded xWantedSize =
     (if xWantedSize > 0
      then (let w = add32 xWantedSize psram_xHeapStructSize; r = w AND psram_portBYTE_ALIGNMENT_MASK
            in if r \<noteq> 0 then add32 w (psram_portBYTE_ALIGNMENT - r) else w)
      else xWantedSize)"

text \<open>The block that was found is taken out of the list, split, counted and marked.\<close>

definition take_block :: "psram_layout \<Rightarrow> nat \<Rightarrow> nat \<Rightarrow> nat \<Rightarrow> psram_heap \<Rightarrow> psram_heap option" where
  "take_block L w pxPreviousBlock pxBlock h =
     (let m1 = set_next pxPreviousBlock (pxNextFreeBlock (blk h pxBlock)) (blk h);
          n = xBlockSize (m1 pxBlock);
          split = (if sub32 n w > psram_heapMINIMUM_BLOCK_SIZE
                   then psram_prvInsertBlockIntoFreeList L (add32 pxBlock w)
                          (h\<lparr>blk := set_size pxBlock w (set_size (add32 pxBlock w) (sub32 n w) m1)\<rparr>)
                   else Some (h\<lparr>blk := m1\<rparr>))
      in case split of
           None \<Rightarrow> None
         | Some h1 \<Rightarrow>
             (let k = xBlockSize (blk h1 pxBlock); rest = sub32 (psram_xFreeBytesRemaining h1) k
              in Some (h1\<lparr>psram_xFreeBytesRemaining := rest,
                         psram_xMinimumEverFreeBytesRemaining := min rest (psram_xMinimumEverFreeBytesRemaining h1),
                         blk := set_next pxBlock 0 (set_size pxBlock (k OR psram_xBlockAllocatedBit h1) (blk h1))\<rparr>)))"

definition psram_malloc :: "psram_layout \<Rightarrow> u32 \<Rightarrow> psram_heap \<Rightarrow> (nat \<times> psram_heap) option" where
  "psram_malloc L xWantedSize h0 =
     (let h = (if psram_pxEnd h0 = 0 then psram_heap_init L h0 else h0); w = padded (unat xWantedSize)
      in if unat xWantedSize AND psram_xBlockAllocatedBit h \<noteq> 0 then Some (0, h)
         else if w > 0 \<and> w \<le> psram_xFreeBytesRemaining h
         then case find_fit (blk h) w (xStart_at L) (pxNextFreeBlock (blk h (xStart_at L))) of
                None \<Rightarrow> None
              | Some (prev, b) \<Rightarrow>
                  if b \<noteq> psram_pxEnd h
                  then map_option (\<lambda>h'. (add32 (pxNextFreeBlock (blk h prev)) psram_xHeapStructSize, h'))
                         (take_block L w prev b h)
                  else Some (0, h)
         else Some (0, h))"

definition psram_free :: "psram_layout \<Rightarrow> nat \<Rightarrow> psram_heap \<Rightarrow> psram_heap option" where
  "psram_free L pv h =
     (if pv = 0 then Some h
      else (let b = sub32 pv psram_xHeapStructSize; n = xBlockSize (blk h b)
            in if n AND psram_xBlockAllocatedBit h \<noteq> 0 \<and> pxNextFreeBlock (blk h b) = 0
               then (let k = sub32 n (n AND psram_xBlockAllocatedBit h)
                     in psram_prvInsertBlockIntoFreeList L b
                          (h\<lparr>blk := set_size b k (blk h), psram_xFreeBytesRemaining := add32 (psram_xFreeBytesRemaining h) k\<rparr>))
               else Some h))"

definition psram_GetFreeHeapSize :: "psram_heap \<Rightarrow> nat" where
  "psram_GetFreeHeapSize h = psram_xFreeBytesRemaining h"

definition psram_GetMinimumEverFreeHeapSize :: "psram_heap \<Rightarrow> nat" where
  "psram_GetMinimumEverFreeHeapSize h = psram_xMinimumEverFreeBytesRemaining h"

section \<open>Arithmetic\<close>

lemma add32_small: "a + b < 4294967296 \<Longrightarrow> add32 a b = a + b"
  by (simp add: add32_def)

lemma sub32_small: "b \<le> a \<Longrightarrow> a < 4294967296 \<Longrightarrow> sub32 a b = a - b"
proof -
  assume "b \<le> a" "a < 4294967296"
  then have "a + (2 ^ 32 - b mod 2 ^ 32) = (a - b) + 2 ^ 32" by simp
  then show ?thesis using \<open>a < 4294967296\<close> by (simp only: sub32_def) simp
qed

lemma and_mask: "x AND psram_portBYTE_ALIGNMENT_MASK = x mod 16"
proof -
  have "psram_portBYTE_ALIGNMENT_MASK = mask 4" by (simp add: psram_portBYTE_ALIGNMENT_MASK_def mask_eq_exp_minus_1)
  then have "x AND psram_portBYTE_ALIGNMENT_MASK = take_bit 4 x" by (simp only: take_bit_eq_mask)
  then show ?thesis by (simp add: take_bit_eq_mod)
qed

lemma align_down_small: "x < 4294967296 \<Longrightarrow> align_down x = x - x mod 16"
  by (simp add: align_down_def and_mask sub32_small)

lemma alloc_bit:
  assumes "n < 2147483648"
  shows "n AND 2147483648 = 0" "n OR 2147483648 = n + 2147483648" "(n + 2147483648) AND 2147483648 = (2147483648 :: nat)"
proof -
  have b: "(2147483648 :: nat) = push_bit 31 1" by (simp add: push_bit_eq_mult)
  have t: "take_bit 31 n = n" using assms by (simp add: take_bit_nat_eq_self)
  have hi: "\<not> bit n 31" using t by (metis bit_take_bit_iff less_irrefl)
  have z: "n AND push_bit 31 1 = 0"
    by (rule bit_eqI, unfold bit_and_iff bit_push_bit_iff bit_1_iff) (use hi in auto)
  then have o: "n OR push_bit 31 1 = n + push_bit 31 1"
    by (rule disjunctive_add_eq_or [symmetric])
  have m: "(n OR push_bit 31 1) AND push_bit 31 1 = push_bit 31 (1 :: nat)"
    by (rule bit_eqI, unfold bit_and_iff bit_push_bit_iff bit_1_iff bit_or_iff) auto
  show "n AND 2147483648 = 0" "n OR 2147483648 = n + 2147483648" "(n + 2147483648) AND 2147483648 = (2147483648 :: nat)"
    using z o m by (simp_all only: b)
qed

lemma set_simps [simp]:
  "pxNextFreeBlock (set_next a q m x) = (if x = a then q else pxNextFreeBlock (m x))"
  "xBlockSize (set_next a q m x) = xBlockSize (m x)"
  "pxNextFreeBlock (set_size a n m x) = pxNextFreeBlock (m x)"
  "xBlockSize (set_size a n m x) = (if x = a then n else xBlockSize (m x))"
  by (simp_all add: set_next_def set_size_def)

lemma set_other: "x \<noteq> a \<Longrightarrow> set_next a q m x = m x" "x \<noteq> a \<Longrightarrow> set_size a n m x = m x"
  by (simp_all add: set_next_def set_size_def)

section \<open>The heap as a row of tiles\<close>

text \<open>
  The abstract heap: the blocks from the start to the end marker, each with its size and whether it is
  free. \<open>Taken\<close> is a block whose header is being changed.
\<close>

datatype tile_kind = Free | Used | Taken
type_synonym tiles = "(nat \<times> tile_kind) list"

definition tiles_size :: "tiles \<Rightarrow> nat" where "tiles_size ts = sum_list (map fst ts)"
definition tiles_wf :: "tiles \<Rightarrow> bool" where "tiles_wf ts = (\<forall>(n, k)\<in>set ts. 0 < n \<and> n mod 16 = 0)"

lemma tiles_size_simps [simp]:
  "tiles_size [] = 0" "tiles_size (t # ts) = fst t + tiles_size ts" "tiles_size (ts @ us) = tiles_size ts + tiles_size us"
  by (simp_all add: tiles_size_def)

lemma tiles_wf_simps [simp]:
  "tiles_wf []" "tiles_wf (t # ts) = (0 < fst t \<and> fst t mod 16 = 0 \<and> tiles_wf ts)"
  "tiles_wf (ts @ us) = (tiles_wf ts \<and> tiles_wf us)"
  by (auto simp: tiles_wf_def split: prod.splits)

lemma tiles_size_mod: "tiles_wf ts \<Longrightarrow> tiles_size ts mod 16 = 0"
  by (induction ts) (auto simp: mod_add_eq [symmetric, of "fst _"])

fun frees :: "nat \<Rightarrow> tiles \<Rightarrow> nat list" where
  "frees a [] = []"
| "frees a ((n, k) # ts) = (if k = Free then [a] else []) @ frees (a + n) ts"

fun tiles_ok :: "(nat \<Rightarrow> psram_BlockLink_t) \<Rightarrow> nat \<Rightarrow> tiles \<Rightarrow> bool" where
  "tiles_ok m a [] = True"
| "tiles_ok m a ((n, k) # ts) =
     ((case k of Free \<Rightarrow> xBlockSize (m a) = n
       | Used \<Rightarrow> xBlockSize (m a) = n + 2147483648 \<and> pxNextFreeBlock (m a) = 0
       | Taken \<Rightarrow> True) \<and> tiles_ok m (a + n) ts)"

fun chain :: "(nat \<Rightarrow> psram_BlockLink_t) \<Rightarrow> nat \<Rightarrow> nat list \<Rightarrow> nat \<Rightarrow> bool" where
  "chain m p [] q = (pxNextFreeBlock (m p) = q)"
| "chain m p (x # xs) q = (pxNextFreeBlock (m p) = x \<and> chain m x xs q)"

lemma heap_chain_append: "chain m p (xs @ y # ys) q = (chain m p xs y \<and> chain m y ys q)"
  by (induction xs arbitrary: p) auto

lemma heap_chain_frame: "(\<And>x. x \<in> set (p # xs) \<Longrightarrow> pxNextFreeBlock (m' x) = pxNextFreeBlock (m x)) \<Longrightarrow> chain m' p xs q = chain m p xs q"
  by (induction xs arbitrary: p) auto

lemma chain_last: "chain m p xs q \<Longrightarrow> pxNextFreeBlock (m (last (p # xs))) = q"
  by (induction xs arbitrary: p) auto

lemma chain_relink: "distinct (p # xs) \<Longrightarrow> chain m p xs q \<Longrightarrow> chain (set_next (last (p # xs)) q' m) p xs q'"
proof (induction xs arbitrary: p)
  case Nil
  then show ?case by simp
next
  case (Cons x xs)
  then have "chain (set_next (last (x # xs)) q' m) x xs q'" by auto
  moreover have "last (x # xs) \<noteq> p" using Cons.prems(1) last_in_set [of "x # xs"] by (metis distinct.simps(2) list.discI)
  ultimately show ?case using Cons.prems(2) by simp
qed

lemma frees_append [simp]: "frees a (ts @ us) = frees a ts @ frees (a + tiles_size ts) us"
  by (induction a ts rule: frees.induct) (simp_all add: add.assoc)

lemma tiles_ok_append [simp]: "tiles_ok m a (ts @ us) = (tiles_ok m a ts \<and> tiles_ok m (a + tiles_size ts) us)"
  by (induction m a ts rule: tiles_ok.induct) (simp_all add: add.assoc)

lemma frees_range: "tiles_wf ts \<Longrightarrow> x \<in> set (frees a ts) \<Longrightarrow> a \<le> x \<and> x < a + tiles_size ts"
  by (induction a ts rule: frees.induct) (force split: if_splits)+

lemma frees_mod: "tiles_wf ts \<Longrightarrow> a mod 16 = 0 \<Longrightarrow> x \<in> set (frees a ts) \<Longrightarrow> x mod 16 = 0"
proof (induction a ts rule: frees.induct)
  case (2 a n k ts)
  have "(a + n) mod 16 = 0" using 2 by (simp add: mod_add_eq [symmetric, of a])
  then show ?case using 2 by (auto split: if_splits)
qed simp

lemma frees_sorted: "tiles_wf ts \<Longrightarrow> sorted_wrt (<) (frees a ts)"
  by (induction a ts rule: frees.induct) (auto dest: frees_range)

lemma frees_distinct: "tiles_wf ts \<Longrightarrow> distinct (frees a ts)"
  using frees_sorted strict_sorted_iff by blast

lemma tiles_ok_frame:
  "tiles_wf ts \<Longrightarrow> (\<And>x. a \<le> x \<Longrightarrow> x < a + tiles_size ts \<Longrightarrow> m' x = m x) \<Longrightarrow> tiles_ok m' a ts = tiles_ok m a ts"
proof (induction m a ts rule: tiles_ok.induct)
  case (2 m a n k ts)
  have "tiles_ok m' (a + n) ts = tiles_ok m (a + n) ts" by (rule 2) (use 2(2,3) in auto)
  moreover have "m' a = m a" using 2(2,3) by simp
  ultimately show ?case by (cases k) simp_all
qed simp

lemma tiles_ok_set_next:
  "tiles_wf ts \<Longrightarrow> x \<in> set (frees a ts) \<or> x < a \<or> a + tiles_size ts \<le> x \<Longrightarrow>
    tiles_ok (set_next x q m) a ts = tiles_ok m a ts"
proof (induction m a ts rule: tiles_ok.induct)
  case (2 m a n k ts)
  have "x \<in> set (frees (a + n) ts) \<or> x < a + n \<or> a + n + tiles_size ts \<le> x"
    using 2(2,3) by (auto split: if_splits)
  then have "tiles_ok (set_next x q m) (a + n) ts = tiles_ok m (a + n) ts" using 2(1,2) by simp
  moreover have "x = a \<Longrightarrow> k = Free"
    using 2(2,3) frees_range [of ts x "a + n"] by (auto split: if_splits)
  ultimately show ?case by (cases k) auto
qed simp

section \<open>The searches end\<close>

lemma find_pos_ends:
  "chain m p (xs @ ys) q \<Longrightarrow> (\<And>x. x \<in> set xs \<Longrightarrow> x < b) \<Longrightarrow> b \<le> hd (ys @ [q]) \<Longrightarrow> find_pos m b p = Some (last (p # xs))"
proof (induction xs arbitrary: p)
  case Nil
  then have "pxNextFreeBlock (m p) = hd (ys @ [q])" by (cases ys) auto
  then show ?case using Nil by (simp add: find_pos.simps [of m b p])
next
  case (Cons x xs)
  then show ?case by (simp add: find_pos.simps [of m b p])
qed

lemma find_fit_found:
  "chain m p (xs @ b # ys) q \<Longrightarrow> (\<And>x. x \<in> set xs \<Longrightarrow> xBlockSize (m x) < w) \<Longrightarrow> w \<le> xBlockSize (m b) \<Longrightarrow>
    0 \<notin> set xs \<Longrightarrow> b \<noteq> 0 \<Longrightarrow> find_fit m w p (pxNextFreeBlock (m p)) = Some (last (p # xs), b)"
proof (induction xs arbitrary: p)
  case Nil
  then show ?case by (simp add: find_fit.simps [of m w p])
next
  case (Cons x xs)
  have "pxNextFreeBlock (m x) \<noteq> 0" using Cons.prems by (cases xs) auto
  then show ?case using Cons by (simp add: find_fit.simps [of m w p x])
qed

lemma find_fit_none:
  "chain m p xs q \<Longrightarrow> (\<And>x. x \<in> set xs \<Longrightarrow> xBlockSize (m x) < w) \<Longrightarrow> pxNextFreeBlock (m q) = 0 \<Longrightarrow>
    0 \<notin> set xs \<Longrightarrow> q \<noteq> 0 \<Longrightarrow> find_fit m w p (pxNextFreeBlock (m p)) = Some (last (p # xs), q)"
proof (induction xs arbitrary: p)
  case Nil
  then show ?case by (simp add: find_fit.simps [of m w p])
next
  case (Cons x xs)
  have "pxNextFreeBlock (m x) \<noteq> 0" using Cons.prems by (cases xs) auto
  then show ?case using Cons by (simp add: find_fit.simps [of m w p x])
qed

section \<open>Inserting a block\<close>

text \<open>A new free block of size \<open>n\<close> between \<open>xs\<close> and \<open>ys\<close> is merged with its free neighbours.\<close>

definition join_right :: "nat \<Rightarrow> tiles \<Rightarrow> tiles" where
  "join_right n ys = (case ys of (k, Free) # zs \<Rightarrow> (n + k, Free) # zs | _ \<Rightarrow> (n, Free) # ys)"

definition join :: "tiles \<Rightarrow> nat \<Rightarrow> tiles \<Rightarrow> tiles" where
  "join xs n ys =
     (if xs \<noteq> [] \<and> snd (last xs) = Free then butlast xs @ join_right (fst (last xs) + n) ys else xs @ join_right n ys)"

lemma join_right_cases:
  obtains (free) k zs where "ys = (k, Free) # zs" "join_right n ys = (n + k, Free) # zs"
    | (other) "\<And>k zs. ys \<noteq> (k, Free) # zs" "join_right n ys = (n, Free) # ys"
      "ys = [] \<or> snd (hd ys) \<noteq> Free"
proof (cases ys)
  case Nil
  then show thesis using other by (simp add: join_right_def)
next
  case (Cons t zs)
  obtain k c where "t = (k, c)" by (cases t)
  then show thesis using Cons free other by (cases c) (auto simp: join_right_def)
qed

lemma join_right_size: "tiles_size (join_right n ys) = n + tiles_size ys"
  by (rule join_right_cases [of ys n]) auto

lemma join_right_wf: "0 < n \<Longrightarrow> n mod 16 = 0 \<Longrightarrow> tiles_wf ys \<Longrightarrow> tiles_wf (join_right n ys)"
  by (rule join_right_cases [of ys n]) (auto simp: mod_add_eq [symmetric, of n])

lemma chain_head:
  "chain m p xs q \<Longrightarrow> pxNextFreeBlock (m' p') = pxNextFreeBlock (m p) \<Longrightarrow>
    (\<And>x. x \<in> set xs \<Longrightarrow> pxNextFreeBlock (m' x) = pxNextFreeBlock (m x)) \<Longrightarrow> chain m' p' xs q"
proof (cases xs)
  case (Cons x ys)
  moreover assume "chain m p xs q" "pxNextFreeBlock (m' p') = pxNextFreeBlock (m p)"
    "\<And>x. x \<in> set xs \<Longrightarrow> pxNextFreeBlock (m' x) = pxNextFreeBlock (m x)"
  ultimately show ?thesis using heap_chain_frame [of x ys m' m q] by auto
qed simp

lemma frees_hd_gt: "tiles_wf ys \<Longrightarrow> \<forall>k zs. ys \<noteq> (k, Free) # zs \<Longrightarrow> ys \<noteq> [] \<Longrightarrow> a < hd (frees a ys @ [a + tiles_size ys])"
proof -
  assume w: "tiles_wf ys" and nf: "\<forall>k zs. ys \<noteq> (k, Free) # zs" and ne: "ys \<noteq> []"
  obtain k c zs where ys: "ys = (k, c) # zs" using ne by (cases ys) auto
  then have c: "c \<noteq> Free" and k: "0 < k" and wz: "tiles_wf zs" using nf w by auto
  show ?thesis
  proof (cases "frees (a + k) zs")
    case Nil
    then show ?thesis using c k ys by simp
  next
    case (Cons x xs)
    then have "a + k \<le> x" using frees_range [OF wz, of x "a + k"] by simp
    then show ?thesis using Cons c k ys by simp
  qed
qed

lemma link_right_ok:
  assumes ch: "chain m it (frees (b + n) ys) endp" and ok: "tiles_ok m (b + n) ys" and wf: "tiles_wf ys"
    and n: "xBlockSize (m b) = n" "0 < n" and e: "b + n + tiles_size ys = endp" "endp < 4294967296"
  obtains t where "frees b (join_right n ys) = b # t" "chain (link_right endp it b m) b t endp"
    "tiles_ok (link_right endp it b m) b (join_right n ys)" "\<And>x. x \<noteq> b \<Longrightarrow> link_right endp it b m x = m x"
proof -
  have a: "add32 b n = b + n" using e by (simp add: add32_small)
  have up: "b < x" if "x \<in> set (frees (b + n) ys)" for x using frees_range [OF wf that] n(2) by simp
  consider k zs where "ys = (k, Free) # zs" "join_right n ys = (n + k, Free) # zs" | "ys = []"
    | "\<forall>k zs. ys \<noteq> (k, Free) # zs" "ys \<noteq> []" "join_right n ys = (n, Free) # ys"
    by (rule join_right_cases [of ys n]) blast+
  then show thesis
  proof cases
    case (1 k zs)
    have k: "0 < k" "tiles_wf zs" "xBlockSize (m (b + n)) = k" using wf ok 1(1) by auto
    have q: "pxNextFreeBlock (m it) = b + n" "chain m (b + n) (frees (b + n + k) zs) endp" using ch 1(1) by auto
    let ?m = "set_next b (pxNextFreeBlock (m (b + n))) (set_size b (n + k) m)"
    have s: "add32 n (xBlockSize (m (b + n))) = n + k" using e 1(1) k(3) by (simp add: add32_small)
    have L: "link_right endp it b m = ?m"
      using e 1(1) k(1) q(1) by (simp only: link_right_def Let_def n(1) a s) simp
    have ne: "x \<noteq> b" if "x \<in> set (frees (b + n + k) zs)" for x using frees_range [OF k(2) that] n(2) by simp
    have c: "chain ?m b (frees (b + n + k) zs) endp"
      by (rule chain_head [OF q(2)]) (use ne in auto)
    have "tiles_ok ?m (b + (n + k)) zs = tiles_ok m (b + n + k) zs"
      unfolding add.assoc [symmetric] by (rule tiles_ok_frame [OF k(2)]) (use n(2) in \<open>auto simp: set_other\<close>)
    then have t: "tiles_ok ?m b (join_right n ys)" using ok 1 by simp
    show thesis
      by (rule that [of "frees (b + n + k) zs"]) (use 1 c t in \<open>simp_all add: L set_other add.assoc\<close>)
  next
    case 2
    have q: "pxNextFreeBlock (m it) = endp" and E: "endp = b + n" using ch e 2 by auto
    have L: "link_right endp it b m = set_next b endp m"
      using q E by (simp add: link_right_def Let_def n(1) a)
    show thesis
      by (rule that [of "[]"]) (use 2 n(1) in \<open>simp_all add: L set_other join_right_def\<close>)
  next
    case 3
    have hd: "pxNextFreeBlock (m it) = hd (frees (b + n) ys @ [endp])"
      using ch by (cases "frees (b + n) ys") auto
    then have gt: "b + n < pxNextFreeBlock (m it)"
      using frees_hd_gt [OF wf 3(1,2), of "b + n"] e(1) by simp
    have L: "link_right endp it b m = set_next b (pxNextFreeBlock (m it)) m"
      using gt by (simp add: link_right_def Let_def n(1) a)
    have c: "chain (set_next b (pxNextFreeBlock (m it)) m) b (frees (b + n) ys) endp"
      by (rule chain_head [OF ch]) (use up in auto)
    have "tiles_ok (set_next b (pxNextFreeBlock (m it)) m) (b + n) ys"
      using ok n(2) by (subst tiles_ok_set_next [OF wf]) auto
    then show thesis
      using 3 c n(1) by (intro that [of "frees (b + n) ys"]) (simp_all add: L set_other)
  qed
qed

lemma chain_split: "chain m p (xs @ ys) q \<Longrightarrow> chain m (last (p # xs)) ys q"
  by (induction xs arbitrary: p) auto

lemma chain_prefix: "chain m p (xs @ ys) q \<Longrightarrow> chain m p xs (hd (ys @ [q]))"
  by (induction xs arbitrary: p) (cases ys; auto)+

lemma free_tile_end:
  "tiles_wf xs \<Longrightarrow> tiles_ok m a xs \<Longrightarrow> x \<in> set (frees a xs) \<Longrightarrow> x + xBlockSize (m x) \<le> a + tiles_size xs"
  by (induction m a xs rule: tiles_ok.induct) (fastforce split: if_splits)+

lemma free_before_used:
  assumes "tiles_wf xs" "tiles_ok m a xs" "x \<in> set (frees a xs)" "snd (last xs) \<noteq> Free"
  shows "x + xBlockSize (m x) < a + tiles_size xs"
proof -
  obtain ys k c where xs: "xs = ys @ [(k, c)]" using assms(3) by (cases xs rule: rev_cases) auto
  then have "x + xBlockSize (m x) \<le> a + tiles_size ys" using assms free_tile_end [of ys m a x] by auto
  then show ?thesis using assms(1) xs by simp
qed

lemma insert_ok:
  assumes m: "m = blk h" and ch: "chain m s (frees base xs @ frees (a + n) ys) endp"
    and ok: "tiles_ok m base xs" "tiles_ok m (a + n) ys" and wf: "tiles_wf xs" "tiles_wf ys"
    and n: "xBlockSize (m a) = n" "0 < n" "n mod 16 = 0" and a: "a = base + tiles_size xs"
    and e: "endp = a + n + tiles_size ys" "endp < 4294967296" "psram_pxEnd h = endp"
    and s: "s = xStart_at L" "s < base \<or> endp < s" "s < 4294967296" "xBlockSize (m s) = 0"
  obtains m' where "psram_prvInsertBlockIntoFreeList L a h = Some (h\<lparr>blk := m'\<rparr>)"
    "chain m' s (frees base (join xs n ys)) endp" "tiles_ok m' base (join xs n ys)" "xBlockSize (m' s) = 0"
    "\<And>x. x \<noteq> s \<Longrightarrow> x \<notin> set (frees base xs) \<Longrightarrow> x \<noteq> a \<Longrightarrow> m' x = m x"
proof -
  have below: "x < a" if "x \<in> set (frees base xs)" for x using frees_range [OF wf(1) that] a by simp
  have above: "a + n \<le> x" if "x \<in> set (frees (a + n) ys)" for x using frees_range [OF wf(2) that] by simp
  have sne: "s \<noteq> a" "s \<notin> set (frees base xs)" using s(2) a e(1) frees_range [OF wf(1), of s base] by auto
  have "a \<le> hd (frees (a + n) ys @ [endp])"
  proof (cases "frees (a + n) ys")
    case (Cons x zs)
    then show ?thesis using above [of x] by simp
  qed (use e(1) in simp)
  then have it: "find_pos m a s = Some (last (s # frees base xs))" using find_pos_ends [OF ch below] by simp
  show thesis
  proof (cases "xs \<noteq> [] \<and> snd (last xs) = Free")
    case True
    then obtain xs' k where xs: "xs = xs' @ [(k, Free)]" by (cases xs rule: rev_cases) auto
    define p where "p = base + tiles_size xs'"
    have k: "xBlockSize (m p) = k" "0 < k" "a = p + k" and wf': "tiles_wf xs'" and ok': "tiles_ok m base xs'"
      using ok(1) wf(1) a by (auto simp: xs p_def)
    have fx: "frees base xs = frees base xs' @ [p]" by (simp add: xs p_def)
    have ps: "p \<noteq> s" using sne fx by auto
    have pn: "p \<notin> set (frees base xs')" using frees_range [OF wf', of p base] by (auto simp: p_def)
    have merge: "add32 p (xBlockSize (m p)) = a" using k e by (simp add: add32_small)
    have sum: "add32 (xBlockSize (m p)) (xBlockSize (m a)) = k + n" using k n e by (simp add: add32_small)
    let ?m1 = "set_size p (k + n) m"
    have pk: "p + (k + n) = a + n" using k(3) by simp
    have "chain m p (frees (a + n) ys) endp"
      using chain_split [OF ch] by (simp add: fx)
    then have c1: "chain ?m1 p (frees (p + (k + n)) ys) endp" unfolding pk by (rule chain_head) simp_all
    have "tiles_ok ?m1 (a + n) ys" using ok(2) k n(2) by (subst tiles_ok_frame [OF wf(2)]) (auto simp: set_other)
    then have t1: "tiles_ok ?m1 (p + (k + n)) ys" unfolding pk .
    have s1: "xBlockSize (?m1 p) = k + n" by simp
    have pe: "p + (k + n) + tiles_size ys = endp" using pk e(1) by simp
    obtain t where t: "frees p (join_right (k + n) ys) = p # t" "chain (link_right endp p p ?m1) p t endp"
      "tiles_ok (link_right endp p p ?m1) p (join_right (k + n) ys)"
      "\<And>x. x \<noteq> p \<Longrightarrow> link_right endp p p ?m1 x = ?m1 x"
      by (rule link_right_ok [OF c1 t1 wf(2) s1 _ pe e(2)]) (use k(2) in blast)+
    let ?m = "link_right endp p p ?m1"
    have f: "?m x = m x" if "x \<noteq> p" for x using t(4) [OF that] that by (simp add: set_other)
    have I: "psram_prvInsertBlockIntoFreeList L a h = Some (h\<lparr>blk := ?m\<rparr>)"
      unfolding psram_prvInsertBlockIntoFreeList_def m [symmetric] s(1) [symmetric] it
      by (simp add: fx merge sum Let_def e(3))
    have j: "join xs n ys = xs' @ join_right (k + n) ys" by (simp add: join_def xs)
    have "chain m s (frees base xs') p" using chain_prefix [of m s "frees base xs'" "p # frees (a + n) ys"] ch by (simp add: fx)
    moreover have "pxNextFreeBlock (?m x) = pxNextFreeBlock (m x)" if "x \<in> set (s # frees base xs')" for x
      using that pn ps f [of x] by (cases "x = p") auto
    ultimately have "chain ?m s (frees base xs') p" using heap_chain_frame [of s "frees base xs'" ?m m] by blast
    then have C: "chain ?m s (frees base (join xs n ys)) endp"
      using t(1,2) by (simp add: j p_def [symmetric] heap_chain_append)
    have "\<And>x. base \<le> x \<Longrightarrow> x < base + tiles_size xs' \<Longrightarrow> ?m x = m x" using f by (simp add: p_def)
    then have "tiles_ok ?m base xs'" using ok' tiles_ok_frame [OF wf', of base ?m m] by blast
    then have "tiles_ok ?m base (join xs n ys)" using t(3) by (simp add: j p_def [symmetric])
    then show thesis
      using that [of ?m] I C f s(4) ps fx by auto
  next
    case False
    let ?it = "last (s # frees base xs)"
    have itc: "?it = s \<and> frees base xs = [] \<or> ?it \<in> set (frees base xs)" by auto
    have ita: "?it \<noteq> a" using itc sne(1) below by (metis less_irrefl)
    have nomerge: "add32 ?it (xBlockSize (m ?it)) \<noteq> a"
      using itc
    proof
      assume "?it = s \<and> frees base xs = []"
      then show ?thesis using s(3,4) sne(1) by (simp add: add32_small)
    next
      assume i: "?it \<in> set (frees base xs)"
      then have "snd (last xs) \<noteq> Free" using False by auto
      then show ?thesis using free_before_used [OF wf(1) ok(1) i] a e(1,2) by (simp add: add32_small)
    qed
    obtain t where t: "frees a (join_right n ys) = a # t" "chain (link_right endp ?it a m) a t endp"
      "tiles_ok (link_right endp ?it a m) a (join_right n ys)" "\<And>x. x \<noteq> a \<Longrightarrow> link_right endp ?it a m x = m x"
      by (rule link_right_ok [OF chain_split [OF ch] ok(2) wf(2) n(1,2) e(1) [symmetric] e(2)]) blast
    let ?m2 = "link_right endp ?it a m"
    let ?m = "set_next ?it a ?m2"
    have I: "psram_prvInsertBlockIntoFreeList L a h = Some (h\<lparr>blk := ?m\<rparr>)"
      unfolding psram_prvInsertBlockIntoFreeList_def m [symmetric] s(1) [symmetric] it option.case Let_def
      using nomerge ita by (simp only: if_False e(3)) simp
    have j: "join xs n ys = xs @ join_right n ys" using False by (auto simp: join_def)
    have jw: "tiles_size (join_right n ys) = n + tiles_size ys" by (rule join_right_size)
    have out: "?it < a \<or> a + n + tiles_size ys < ?it"
      using itc
    proof
      assume "?it = s \<and> frees base xs = []"
      then show ?thesis using s(2) a e(1) by auto
    next
      assume "?it \<in> set (frees base xs)"
      then show ?thesis using below by blast
    qed
    have "chain m s (frees base xs) (hd (frees (a + n) ys @ [endp]))" by (rule chain_prefix [OF ch])
    then have "chain (set_next ?it a m) s (frees base xs) a"
      by (rule chain_relink [rotated]) (use sne(2) frees_distinct [OF wf(1)] in simp)
    moreover have "pxNextFreeBlock (?m x) = pxNextFreeBlock (set_next ?it a m x)" if "x \<in> set (s # frees base xs)" for x
      using that sne(1) below [of x] t(4) [of x] by (cases "x = a") auto
    ultimately have c1: "chain ?m s (frees base xs) a"
      using heap_chain_frame [of s "frees base xs" ?m "set_next ?it a m"] by blast
    have wj: "\<And>x. x \<in> set (a # t) \<Longrightarrow> a \<le> x \<and> x < a + tiles_size (join_right n ys)"
    proof -
      fix x
      assume "x \<in> set (a # t)"
      then consider "x = a" | "x \<in> set (frees (a + n) ys)"
        using t(1) by (rule_tac join_right_cases [of ys n]) (auto simp: add.assoc)
      then show "a \<le> x \<and> x < a + tiles_size (join_right n ys)"
        using n(2) frees_range [OF wf(2), of x "a + n"] by cases (auto simp: jw)
    qed
    have c2: "chain ?m a t endp"
      by (subst heap_chain_frame [of a t ?m ?m2]) (use t(2) wj out jw in \<open>fastforce+\<close>)
    have "chain ?m s (frees base (join xs n ys)) endp"
      using c1 c2 t(1) a by (simp add: j heap_chain_append)
    moreover have "tiles_ok ?m base xs"
    proof -
      have "tiles_ok ?m2 base xs" using ok(1) t(4) a by (subst tiles_ok_frame [OF wf(1)]) auto
      then show ?thesis
        using itc s(2) a e(1) by (subst tiles_ok_set_next [OF wf(1)]) auto
    qed
    moreover have "tiles_ok ?m a (join_right n ys)"
    proof -
      have "tiles_ok ?m a (join_right n ys) = tiles_ok ?m2 a (join_right n ys)"
        using out jw by (intro tiles_ok_set_next [OF join_right_wf [OF n(2,3) wf(2)]]) auto
      then show ?thesis using t(3) by simp
    qed
    moreover have "xBlockSize (?m s) = 0" using t(4) [of s] sne s(4) by simp
    moreover have "?m x = m x" if "x \<noteq> s" "x \<notin> set (frees base xs)" "x \<noteq> a" for x
    proof -
      have "x \<noteq> ?it" using that itc by metis
      then show ?thesis using that(3) t(4) [of x] by (simp add: set_other)
    qed
    ultimately show thesis
      using that [of ?m] I a by (simp add: j)
  qed
qed

section \<open>The memory that holds a row of tiles\<close>

definition heap_core :: "psram_layout \<Rightarrow> nat \<Rightarrow> nat \<Rightarrow> (nat \<Rightarrow> psram_BlockLink_t) \<Rightarrow> tiles \<Rightarrow> bool" where
  "heap_core L base endp m ts =
     (tiles_wf ts \<and> 0 < base \<and> base mod 16 = 0 \<and> endp = base + tiles_size ts \<and> endp < 4294967296 \<and>
      (xStart_at L < base \<or> endp < xStart_at L) \<and> xStart_at L < 4294967296 \<and> xBlockSize (m (xStart_at L)) = 0 \<and>
      chain m (xStart_at L) (frees base ts) endp \<and> tiles_ok m base ts \<and>
      xBlockSize (m endp) = 0 \<and> pxNextFreeBlock (m endp) = 0)"

lemma core_start_out: "heap_core L base endp m ts \<Longrightarrow> xStart_at L \<notin> set (frees base ts) \<and> xStart_at L \<noteq> endp"
  using frees_range [of ts "xStart_at L" base] by (auto simp: heap_core_def)

lemma core_insert:
  assumes c: "heap_core L base endp (blk h) (xs @ (n, Taken) # ys)" and a: "a = base + tiles_size xs"
    and n: "xBlockSize (blk h a) = n" and e: "psram_pxEnd h = endp"
  obtains m' where "psram_prvInsertBlockIntoFreeList L a h = Some (h\<lparr>blk := m'\<rparr>)" "heap_core L base endp m' (join xs n ys)"
    "\<And>x. x \<noteq> xStart_at L \<Longrightarrow> x \<notin> set (frees base xs) \<Longrightarrow> x \<noteq> a \<Longrightarrow> m' x = blk h x"
proof -
  from c have w: "tiles_wf xs" "tiles_wf ys" "0 < n" "n mod 16 = 0" and ee: "endp = a + n + tiles_size ys" "endp < 4294967296"
    and s: "xStart_at L < base \<or> endp < xStart_at L" "xStart_at L < 4294967296" "xBlockSize (blk h (xStart_at L)) = 0"
    and ch: "chain (blk h) (xStart_at L) (frees base xs @ frees (a + n) ys) endp"
    and ok: "tiles_ok (blk h) base xs" "tiles_ok (blk h) (a + n) ys"
    by (auto simp: heap_core_def a add.assoc)
  obtain m' where m': "psram_prvInsertBlockIntoFreeList L a h = Some (h\<lparr>blk := m'\<rparr>)"
    "chain m' (xStart_at L) (frees base (join xs n ys)) endp" "tiles_ok m' base (join xs n ys)" "xBlockSize (m' (xStart_at L)) = 0"
    "\<And>x. x \<noteq> xStart_at L \<Longrightarrow> x \<notin> set (frees base xs) \<Longrightarrow> x \<noteq> a \<Longrightarrow> m' x = blk h x"
    using insert_ok [OF refl ch ok w(1,2) n w(3,4) a ee e refl s] by metis
  have sz: "tiles_size (join xs n ys) = tiles_size xs + n + tiles_size ys \<and> tiles_wf (join xs n ys)"
  proof (cases "xs \<noteq> [] \<and> snd (last xs) = Free")
    case True
    then obtain zs k where "xs = zs @ [(k, Free)]" by (cases xs rule: rev_cases) auto
    then show ?thesis using w by (simp add: join_def join_right_size join_right_wf mod_add_eq [symmetric, of k])
  next
    case False
    then show ?thesis using w by (auto simp: join_def join_right_size join_right_wf)
  qed
  have "endp \<notin> set (frees base xs)" "endp \<noteq> a" "endp \<noteq> xStart_at L"
    using frees_range [OF w(1), of endp base] ee(1) w(3) s(1) a by auto
  then have "m' endp = blk h endp" by (intro m'(5)) auto
  then have "heap_core L base endp m' (join xs n ys)"
    using c m'(2-4) sz by (auto simp: heap_core_def)
  then show thesis using that m'(1,5) by blast
qed

text \<open>Headers are changed inside a tile that is not free.\<close>

lemma core_retile:
  assumes c: "heap_core L base endp m (xs @ (n, k) # ys)" and k: "k \<noteq> Free" and b: "b = base + tiles_size xs"
    and mid: "tiles_wf mid" "tiles_size mid = n" "frees b mid = []" "tiles_ok m' b mid"
    and f: "\<And>x. x < b \<or> b + n \<le> x \<Longrightarrow> m' x = m x"
  shows "heap_core L base endp m' (xs @ mid @ ys)"
proof -
  from c have w: "tiles_wf xs" "tiles_wf ys" "0 < n" and e: "endp = b + n + tiles_size ys"
    and s: "xStart_at L < base \<or> endp < xStart_at L" and ok: "tiles_ok m base xs" "tiles_ok m (b + n) ys"
    and ch: "chain m (xStart_at L) (frees base xs @ frees (b + n) ys) endp"
    using k by (auto simp: heap_core_def b add.assoc)
  have sf: "m' (xStart_at L) = m (xStart_at L)" by (rule f) (use s b e in auto)
  have ef: "m' endp = m endp" by (rule f) (use e in auto)
  have "m' x = m x" if "x \<in> set (xStart_at L # frees base xs @ frees (b + n) ys)" for x
  proof -
    from that consider "x = xStart_at L" | "x \<in> set (frees base xs)" | "x \<in> set (frees (b + n) ys)" by auto
    then show ?thesis
      using sf f frees_range [OF w(1), of x base] frees_range [OF w(2), of x "b + n"] b by cases auto
  qed
  then have "chain m' (xStart_at L) (frees base xs @ frees (b + n) ys) endp"
    using ch heap_chain_frame [of "xStart_at L" "frees base xs @ frees (b + n) ys" m' m endp] by simp
  moreover have "tiles_ok m' base xs" using ok(1) by (subst tiles_ok_frame [OF w(1)]) (use f b in auto)
  moreover have "tiles_ok m' (b + n) ys" using ok(2) by (subst tiles_ok_frame [OF w(2)]) (use f in auto)
  ultimately show ?thesis
    using c mid sf ef b by (auto simp: heap_core_def add.assoc)
qed

lemma core_remove:
  assumes c: "heap_core L base endp m (xs @ (n, Free) # ys)" and b: "b = base + tiles_size xs"
  shows "heap_core L base endp (set_next (last (xStart_at L # frees base xs)) (pxNextFreeBlock (m b)) m) (xs @ (n, Taken) # ys)"
proof -
  let ?p = "last (xStart_at L # frees base xs)"
  let ?m = "set_next ?p (pxNextFreeBlock (m b)) m"
  from c have w: "tiles_wf xs" "tiles_wf ys" "0 < n" and e: "endp = b + n + tiles_size ys"
    and s: "xStart_at L < base \<or> endp < xStart_at L" and ok: "tiles_ok m base xs" "tiles_ok m (b + n) ys"
    and ch: "chain m (xStart_at L) (frees base xs @ b # frees (b + n) ys) endp"
    by (auto simp: heap_core_def b add.assoc)
  have sx: "xStart_at L \<notin> set (frees base xs)" using frees_range [OF w(1), of "xStart_at L" base] s b e by auto
  have pc: "?p = xStart_at L \<or> ?p \<in> set (frees base xs)" by auto
  have pout: "?p < b \<or> b + n + tiles_size ys < ?p"
    using pc s e b frees_range [OF w(1), of ?p base] by auto
  have c1: "chain m (xStart_at L) (frees base xs) b" "chain m b (frees (b + n) ys) endp" using ch by (auto simp: heap_chain_append)
  have c2: "chain ?m (xStart_at L) (frees base xs) (pxNextFreeBlock (m b))"
    by (rule chain_relink [OF _ c1(1)]) (use sx frees_distinct [OF w(1)] in simp)
  have c3: "chain ?m ?p (frees (b + n) ys) endp"
    by (rule chain_head [OF c1(2)]) (use pout frees_range [OF w(2)] in \<open>fastforce+\<close>)
  have "chain ?m (xStart_at L) (frees base xs @ frees (b + n) ys) endp"
  proof (cases "frees (b + n) ys")
    case Nil
    then show ?thesis using c1(2) c2 by simp
  next
    case (Cons y zs)
    then show ?thesis using c1(2) c2 c3 by (simp only: heap_chain_append) simp
  qed
  moreover have "tiles_ok ?m base xs"
    using ok(1) pc s e b by (subst tiles_ok_set_next [OF w(1)]) auto
  moreover have "tiles_ok ?m (b + n) ys"
    using ok(2) pout by (subst tiles_ok_set_next [OF w(2)]) auto
  moreover have "?m endp = m endp"
  proof -
    have "endp \<noteq> ?p" using pout e by linarith
    then show ?thesis by (rule set_other)
  qed
  ultimately show ?thesis using c b by (auto simp: heap_core_def add.assoc simp del: last.simps)
qed

section \<open>The abstract allocator\<close>

definition free_total :: "tiles \<Rightarrow> nat" where
  "free_total ts = sum_list (map (\<lambda>(n, k). if k = Free then n else 0) ts)"

definition coalesced :: "tiles \<Rightarrow> bool" where
  "coalesced ts = successively (\<lambda>t u. \<not> (snd t = Free \<and> snd u = Free)) ts"

text \<open>First fit: the offset of the block and the row after it; a rest of at most 32 bytes stays with the block.\<close>

fun a_malloc :: "nat \<Rightarrow> tiles \<Rightarrow> (nat \<times> tiles) option" where
  "a_malloc w [] = None"
| "a_malloc w ((n, k) # ts) =
     (if k = Free \<and> w \<le> n
      then Some (0, (if 32 < n - w then [(w, Used), (n - w, Free)] else [(n, Used)]) @ ts)
      else map_option (\<lambda>(off, ts'). (n + off, (n, k) # ts')) (a_malloc w ts))"

text \<open>The state of an initialised heap.\<close>

definition heap_rel :: "psram_layout \<Rightarrow> nat \<Rightarrow> psram_heap \<Rightarrow> tiles \<Rightarrow> bool" where
  "heap_rel L base h ts =
     (heap_core L base (psram_pxEnd h) (blk h) ts \<and> (\<forall>t\<in>set ts. snd t \<noteq> Taken) \<and> coalesced ts \<and>
      tiles_size ts < 2147483648 \<and> psram_xFreeBytesRemaining h = free_total ts \<and> psram_xBlockAllocatedBit h = 2147483648)"

lemma free_total_simps [simp]:
  "free_total [] = 0" "free_total ((n, k) # ts) = (if k = Free then n else 0) + free_total ts"
  "free_total (ts @ us) = free_total ts + free_total us"
  by (simp_all add: free_total_def)

lemma free_total_le: "free_total ts \<le> tiles_size ts"
  by (induction ts) auto

lemma a_malloc_cases:
  obtains (none) "a_malloc w ts = None" "\<forall>(n, k)\<in>set ts. k = Free \<longrightarrow> n < w"
    | (some) xs n ys where "ts = xs @ (n, Free) # ys" "w \<le> n" "\<forall>(n, k)\<in>set xs. k = Free \<longrightarrow> n < w"
        "a_malloc w ts = Some (tiles_size xs, xs @ (if 32 < n - w then [(w, Used), (n - w, Free)] else [(n, Used)]) @ ys)"
proof (induction ts arbitrary: thesis)
  case Nil
  then show ?case by simp
next
  case (Cons t ts)
  obtain n k where t: "t = (n, k)" by (cases t)
  show ?case
  proof (cases "k = Free \<and> w \<le> n")
    case True
    then show ?thesis using Cons.prems(2) [of "[]" n ts] t by simp
  next
    case False
    then have lt: "k = Free \<longrightarrow> n < w" by auto
    show ?thesis
    proof (rule Cons.IH)
      assume "a_malloc w ts = None" "\<forall>(n, k)\<in>set ts. k = Free \<longrightarrow> n < w"
      then show ?thesis using Cons.prems(1) t False lt by simp
    next
      fix xs n' ys
      assume "ts = xs @ (n', Free) # ys" "w \<le> n'" "\<forall>(n, k)\<in>set xs. k = Free \<longrightarrow> n < w"
        "a_malloc w ts = Some (tiles_size xs, xs @ (if 32 < n' - w then [(w, Used), (n' - w, Free)] else [(n', Used)]) @ ys)"
      then show ?thesis using Cons.prems(2) [of "t # xs" n' ys] t False lt by auto
    qed
  qed
qed

lemma free_sizes:
  "tiles_ok m a ts \<Longrightarrow> \<forall>(n, k)\<in>set ts. k = Free \<longrightarrow> n < w \<Longrightarrow> x \<in> set (frees a ts) \<Longrightarrow> xBlockSize (m x) < w"
  by (induction m a ts rule: tiles_ok.induct) (auto split: if_splits)

lemma coalesced_replace:
  assumes "coalesced (xs @ (n, Free) # ys)"
  shows "coalesced (xs @ (w, Used) # (r, Free) # ys)" "coalesced (xs @ (n', Used) # ys)"
  using assms by (auto simp: coalesced_def successively_append_iff successively_Cons)

lemma not_free_after: "coalesced (xs @ (n, Free) # ys) \<Longrightarrow> join_right k ys = (k, Free) # ys"
  by (rule join_right_cases [of ys k]) (auto simp: coalesced_def successively_append_iff)

lemma coalesced_join:
  assumes "coalesced (xs @ (n, Used) # ys)"
  shows "coalesced (join xs n ys)"
proof -
  have r: "coalesced (xs' @ join_right n' ys)" if "coalesced (xs' @ (n, Used) # ys)" "xs' = [] \<or> snd (last xs') \<noteq> Free" for xs' n'
    using that by (rule_tac join_right_cases [of ys n'])
      (auto simp: coalesced_def successively_append_iff successively_Cons)
  show ?thesis
  proof (cases "xs \<noteq> [] \<and> snd (last xs) = Free")
    case True
    then obtain zs k where xs: "xs = zs @ [(k, Free)]" by (cases xs rule: rev_cases) auto
    have "coalesced (zs @ (n, Used) # ys)" "zs = [] \<or> snd (last zs) \<noteq> Free"
      using assms by (auto simp: xs coalesced_def successively_append_iff successively_Cons)
    then show ?thesis using r [of zs] by (simp add: join_def xs)
  next
    case False
    then show ?thesis using r [of xs] assms by (auto simp: join_def)
  qed
qed

lemma join_free_total: "free_total (join xs n ys) = free_total xs + n + free_total ys"
proof -
  have r: "free_total (join_right k ys) = k + free_total ys" for k
    by (rule join_right_cases [of ys k]) auto
  show ?thesis
  proof (cases "xs \<noteq> [] \<and> snd (last xs) = Free")
    case True
    then obtain zs k where xs: "xs = zs @ [(k, Free)]" by (cases xs rule: rev_cases) auto
    then show ?thesis by (simp add: join_def r)
  next
    case False
    then show ?thesis by (auto simp: join_def r)
  qed
qed

lemma join_size: "tiles_size (join xs n ys) = tiles_size xs + n + tiles_size ys"
proof (cases "xs \<noteq> [] \<and> snd (last xs) = Free")
  case True
  then obtain zs k where "xs = zs @ [(k, Free)]" by (cases xs rule: rev_cases) auto
  then show ?thesis by (simp add: join_def join_right_size)
next
  case False
  then show ?thesis by (auto simp: join_def join_right_size)
qed

lemma join_kinds: "\<forall>t\<in>set (xs @ ys). snd t \<noteq> Taken \<Longrightarrow> \<forall>t\<in>set (join xs n ys). snd t \<noteq> Taken"
proof -
  assume a: "\<forall>t\<in>set (xs @ ys). snd t \<noteq> Taken"
  have "\<forall>t\<in>set (join_right k ys). snd t \<noteq> Taken" for k
    using a by (rule_tac join_right_cases [of ys k]) auto
  then show ?thesis using a by (auto simp: join_def dest: in_set_butlastD)
qed

section \<open>Refinement\<close>

lemma padded_value:
  assumes "x < 2147483648"
  shows "padded x = (if x = 0 then 0 else (x + 31) div 16 * 16)"
proof -
  define q r where "q = x div 16" and "r = x mod 16"
  have x: "x = 16 * q + r" "r < 16" by (simp_all add: q_def r_def)
  have d: "(16 * q + r + 31) div 16 = q + (r + 31) div 16" using div_mult_self4 [of 16 q "r + 31"] by (simp add: add.assoc)
  have "(r + 31) div 16 = (if r = 0 then 1 else 2)"
  proof (cases "r = 0")
    case False
    then show ?thesis using x(2) by (intro div_nat_eqI) auto
  qed simp
  then show ?thesis
    using assms x d by (auto simp: padded_def and_mask psram_xHeapStructSize_def psram_portBYTE_ALIGNMENT_def add32_small Let_def)
qed

lemma core_mark:
  assumes c: "heap_core L base endp m (xs @ (n, Taken) # ys)" and b: "b = base + tiles_size xs" and n: "n < 2147483648"
  shows "heap_core L base endp (set_next b 0 (set_size b (n OR 2147483648) m)) (xs @ (n, Used) # ys)"
proof -
  have "0 < n" "n mod 16 = 0" using c by (auto simp: heap_core_def)
  then have "heap_core L base endp (set_next b 0 (set_size b (n OR 2147483648) m)) (xs @ [(n, Used)] @ ys)"
    by (intro core_retile [OF c _ b]) (auto simp: alloc_bit [OF n] set_other)
  then show ?thesis by simp
qed

definition mid_tiles :: "nat \<Rightarrow> nat \<Rightarrow> tiles" where
  "mid_tiles w n = (if 32 < n - w then [(w, Used), (n - w, Free)] else [(n, Used)])"

lemma mid_tiles_ok:
  assumes "w \<le> n" "coalesced (xs @ (n, Free) # ys)"
  shows "tiles_size (mid_tiles w n) = n" "coalesced (xs @ mid_tiles w n @ ys)" "\<forall>t\<in>set (mid_tiles w n). snd t \<noteq> Taken"
    "free_total (mid_tiles w n) + (if 32 < n - w then w else n) = n"
  using assms coalesced_replace [OF assms(2)] by (auto simp: mid_tiles_def)

lemma take_block_ok:
  assumes r: "heap_rel L base h (xs @ (n, Free) # ys)" and b: "b = base + tiles_size xs"
    and w: "0 < w" "w \<le> n" "w mod 16 = 0"
  obtains h' where "take_block L w (last (xStart_at L # frees base xs)) b h = Some h'"
    "heap_rel L base h' (xs @ mid_tiles w n @ ys)" "psram_pxEnd h' = psram_pxEnd h"
    "psram_xMinimumEverFreeBytesRemaining h' =
      min (free_total (xs @ mid_tiles w n @ ys)) (psram_xMinimumEverFreeBytesRemaining h)"
proof -
  let ?p = "last (xStart_at L # frees base xs)" and ?e = "psram_pxEnd h"
  define m1 where "m1 = set_next ?p (pxNextFreeBlock (blk h b)) (blk h)"
  from r have c: "heap_core L base ?e (blk h) (xs @ (n, Free) # ys)" and co: "coalesced (xs @ (n, Free) # ys)"
    and tk: "\<forall>t\<in>set (xs @ ys). snd t \<noteq> Taken" and sz: "tiles_size xs + (n + tiles_size ys) < 2147483648"
    and fb: "psram_xFreeBytesRemaining h = free_total xs + n + free_total ys" and ab: "psram_xBlockAllocatedBit h = 2147483648"
    by (auto simp: heap_rel_def)
  have wx: "tiles_wf xs" "tiles_wf ys" "n mod 16 = 0" "0 < n" and e: "?e = b + n + tiles_size ys" "?e < 4294967296"
    and st: "xStart_at L < base \<or> ?e < xStart_at L" and nb: "xBlockSize (blk h b) = n"
    using c by (auto simp: heap_core_def b add.assoc)
  have c1: "heap_core L base ?e m1 (xs @ (n, Taken) # ys)" unfolding m1_def by (rule core_remove [OF c b])
  have n1: "xBlockSize (m1 b) = n" using nb by (simp add: m1_def)
  have n31: "n < 2147483648" using sz by simp
  have sn: "sub32 n w = n - w" using w n31 by (simp add: sub32_small)
  note mid = mid_tiles_ok [OF w(2) co]
  have free: "sub32 (psram_xFreeBytesRemaining h) (if 32 < n - w then w else n) = free_total (xs @ mid_tiles w n @ ys)"
    using mid(4) free_total_le [of "xs @ (n, Free) # ys"] sz w by (subst sub32_small) (auto simp: fb split: if_splits)
  let ?F = "free_total (xs @ mid_tiles w n @ ys)"
  have fin: thesis
    if "take_block L w ?p b h = Some (h\<lparr>psram_xFreeBytesRemaining := ?F,
          psram_xMinimumEverFreeBytesRemaining := min ?F (psram_xMinimumEverFreeBytesRemaining h), blk := M\<rparr>)"
      "heap_core L base ?e M (xs @ mid_tiles w n @ ys)" for M
    by (rule \<open>\<And>h'. _ \<Longrightarrow> heap_rel _ _ h' _ \<Longrightarrow> _ \<Longrightarrow> _ \<Longrightarrow> thesis\<close> [OF that(1)])
      (use that(2) mid(1-3) sz tk ab in \<open>auto simp: heap_rel_def\<close>)
  show thesis
  proof (cases "32 < n - w")
    case True
    have bw: "add32 b w = b + w" using w(2) e by (simp add: add32_small)
    let ?m2 = "set_size b w (set_size (b + w) (n - w) m1)"
    have "(n - w) mod 16 = 0" using w(2,3) wx(3) by (simp add: mod_eq_0_iff_dvd dvd_diff_nat)
    then have "heap_core L base ?e ?m2 (xs @ [(w, Taken), (n - w, Taken)] @ ys)"
      using w True by (intro core_retile [OF c1 _ b]) (auto simp: set_other)
    then have c2: "heap_core L base ?e (blk (h\<lparr>blk := ?m2\<rparr>)) ((xs @ [(w, Taken)]) @ (n - w, Taken) # ys)" by simp
    obtain m3 where m3: "psram_prvInsertBlockIntoFreeList L (b + w) (h\<lparr>blk := ?m2\<rparr>) = Some ((h\<lparr>blk := ?m2\<rparr>)\<lparr>blk := m3\<rparr>)"
      "heap_core L base ?e m3 (join (xs @ [(w, Taken)]) (n - w) ys)"
      "\<And>x. x \<noteq> xStart_at L \<Longrightarrow> x \<notin> set (frees base (xs @ [(w, Taken)])) \<Longrightarrow> x \<noteq> b + w \<Longrightarrow> m3 x = blk (h\<lparr>blk := ?m2\<rparr>) x"
      by (rule core_insert [OF c2]) (use b w(1) in \<open>auto simp: add.assoc\<close>)
    have "b \<notin> set (frees base (xs @ [(w, Taken)]))" using frees_range [OF wx(1), of b base] b by auto
    moreover have "b \<noteq> xStart_at L" using st b e(1) by auto
    ultimately have k: "xBlockSize (m3 b) = w" using m3(3) [of b] w(1) by simp
    have "join (xs @ [(w, Taken)]) (n - w) ys = xs @ (w, Taken) # (n - w, Free) # ys"
      by (simp add: join_def not_free_after [OF co])
    then have "heap_core L base ?e (set_next b 0 (set_size b (w OR 2147483648) m3)) (xs @ (w, Used) # (n - w, Free) # ys)"
      using core_mark [of L base ?e m3 xs w "(n - w, Free) # ys" b] m3(2) b w(2) n31 by simp
    then have c4: "heap_core L base ?e (set_next b 0 (set_size b (w OR 2147483648) m3)) (xs @ mid_tiles w n @ ys)"
      using True by (simp add: mid_tiles_def)
    show thesis
      by (rule fin [OF _ c4], unfold take_block_def Let_def m1_def [symmetric] n1 sn bw)
        (use True m3(1) k ab free in \<open>simp add: psram_heapMINIMUM_BLOCK_SIZE_def psram_xHeapStructSize_def\<close>)
  next
    case False
    have c4: "heap_core L base ?e (set_next b 0 (set_size b (n OR 2147483648) m1)) (xs @ mid_tiles w n @ ys)"
      using core_mark [OF c1 b n31] False by (simp add: mid_tiles_def)
    show thesis
      by (rule fin [OF _ c4], unfold take_block_def Let_def m1_def [symmetric] n1 sn)
        (use False n1 ab free in \<open>simp add: psram_heapMINIMUM_BLOCK_SIZE_def psram_xHeapStructSize_def\<close>)
  qed
qed

lemma owner_bit: "unat (x :: u32) AND 2147483648 = 0 \<longleftrightarrow> unat x < 2147483648"
proof (cases "unat x < 2147483648")
  case False
  have "unat x - 2147483648 < 2147483648" using unat_u32 [of x] by simp
  from alloc_bit(3) [OF this] show ?thesis using False by simp
qed (simp add: alloc_bit)

lemma core_chain: "heap_core L base endp m ts \<Longrightarrow> chain m (xStart_at L) (frees base ts) endp \<and> 0 \<notin> set (frees base ts) \<and> endp \<noteq> 0"
  using frees_range [of ts 0 base] by (auto simp: heap_core_def)

lemma malloc_refines:
  assumes r: "heap_rel L base h ts" and w: "w = (unat x + 31) div 16 * 16"
  shows "unat x = 0 \<or> 2147483648 \<le> unat x \<or> a_malloc w ts = None \<Longrightarrow> psram_malloc L x h = Some (0, h)"
    and "0 < unat x \<Longrightarrow> unat x < 2147483648 \<Longrightarrow> a_malloc w ts = Some (off, ts') \<Longrightarrow>
      \<exists>h'. psram_malloc L x h = Some (base + off + 16, h') \<and> heap_rel L base h' ts' \<and> psram_pxEnd h' = psram_pxEnd h \<and>
        psram_xMinimumEverFreeBytesRemaining h' = min (psram_xFreeBytesRemaining h') (psram_xMinimumEverFreeBytesRemaining h)"
proof -
  from r have c: "heap_core L base (psram_pxEnd h) (blk h) ts" and ab: "psram_xBlockAllocatedBit h = 2147483648"
    and fb: "psram_xFreeBytesRemaining h = free_total ts" and sz: "tiles_size ts < 2147483648" by (auto simp: heap_rel_def)
  note ch = core_chain [OF c]
  have ok: "tiles_ok (blk h) base ts" and me: "xBlockSize (blk h (psram_pxEnd h)) = 0" "pxNextFreeBlock (blk h (psram_pxEnd h)) = 0"
    and e: "psram_pxEnd h = base + tiles_size ts" "psram_pxEnd h < 4294967296" "0 < base"
    and wf: "tiles_wf ts" using c by (auto simp: heap_core_def)
  have pad: "padded (unat x) = (if unat x = 0 then 0 else w)" if "unat x < 2147483648" using padded_value [OF that] w by simp
  have w0: "0 < w" "w mod 16 = 0" unfolding w by simp_all
  have md: "psram_malloc L x h =
    (if unat x < 2147483648 \<and> unat x \<noteq> 0 \<and> w \<le> free_total ts
     then case find_fit (blk h) w (xStart_at L) (pxNextFreeBlock (blk h (xStart_at L))) of
                None \<Rightarrow> None
              | Some (prev, b) \<Rightarrow>
                  if b \<noteq> psram_pxEnd h
                  then map_option (\<lambda>h'. (add32 (pxNextFreeBlock (blk h prev)) psram_xHeapStructSize, h'))
                         (take_block L w prev b h)
                  else Some (0, h)
     else Some (0, h))"
    using ch w0 pad unfolding psram_malloc_def Let_def by (auto simp: owner_bit ab fb)
  show "psram_malloc L x h = Some (0, h)" if "unat x = 0 \<or> 2147483648 \<le> unat x \<or> a_malloc w ts = None"
  proof (cases "unat x < 2147483648 \<and> unat x \<noteq> 0 \<and> w \<le> free_total ts")
    case True
    then have "a_malloc w ts = None" using that by simp
    then have "\<forall>(n, k)\<in>set ts. k = Free \<longrightarrow> n < w" by (rule_tac a_malloc_cases [of w ts]) auto
    then have "find_fit (blk h) w (xStart_at L) (pxNextFreeBlock (blk h (xStart_at L))) =
      Some (last (xStart_at L # frees base ts), psram_pxEnd h)"
      using find_fit_none [of "blk h" "xStart_at L" "frees base ts" "psram_pxEnd h" w] ch me free_sizes [OF ok] by simp
    then show ?thesis unfolding md using True by simp
  next
    case False
    then show ?thesis unfolding md by (simp only: if_False)
  qed
  show "\<exists>h'. psram_malloc L x h = Some (base + off + 16, h') \<and> heap_rel L base h' ts' \<and> psram_pxEnd h' = psram_pxEnd h \<and>
        psram_xMinimumEverFreeBytesRemaining h' = min (psram_xFreeBytesRemaining h') (psram_xMinimumEverFreeBytesRemaining h)"
    if x: "0 < unat x" "unat x < 2147483648" and am: "a_malloc w ts = Some (off, ts')"
  proof -
    obtain xs n ys where ts: "ts = xs @ (n, Free) # ys" "w \<le> n" "\<forall>(n, k)\<in>set xs. k = Free \<longrightarrow> n < w"
      and off: "off = tiles_size xs" "ts' = xs @ mid_tiles w n @ ys"
      by (rule a_malloc_cases [of w ts]) (use am in \<open>auto simp: mid_tiles_def\<close>)
    define b where "b = base + tiles_size xs"
    have fx: "frees base ts = frees base xs @ b # frees (b + n) ys" by (simp add: ts(1) b_def add.assoc)
    have bo: "tiles_ok (blk h) base xs" "xBlockSize (blk h b) = n" using ok by (auto simp: ts(1) b_def)
    have bn: "b \<noteq> 0" "b \<noteq> psram_pxEnd h" "b + 16 < 4294967296" "w \<le> free_total ts"
      using e w0 ts(2) wf sz by (auto simp: b_def ts(1))
    have ff: "find_fit (blk h) w (xStart_at L) (pxNextFreeBlock (blk h (xStart_at L))) = Some (last (xStart_at L # frees base xs), b)"
      by (rule find_fit_found [of _ _ _ _ "frees (b + n) ys" "psram_pxEnd h"])
        (use ch fx bo bn(1) ts free_sizes [OF bo(1) ts(3)] in auto)
    have nx: "pxNextFreeBlock (blk h (last (xStart_at L # frees base xs))) = b"
      using ch fx heap_chain_append [of "blk h" "xStart_at L" "frees base xs" b] chain_last by metis
    obtain h' where h': "take_block L w (last (xStart_at L # frees base xs)) b h = Some h'"
      "heap_rel L base h' (xs @ mid_tiles w n @ ys)" "psram_pxEnd h' = psram_pxEnd h"
      "psram_xMinimumEverFreeBytesRemaining h' =
        min (free_total (xs @ mid_tiles w n @ ys)) (psram_xMinimumEverFreeBytesRemaining h)"
      by (rule take_block_ok [OF r [unfolded ts(1)] b_def w0(1) ts(2) w0(2)])
    have a: "add32 b psram_xHeapStructSize = base + off + 16"
      using bn(3) by (simp add: psram_xHeapStructSize_def add32_small off b_def)
    have "psram_malloc L x h = Some (base + off + 16, h')"
      unfolding md ff using x bn(2,4) h'(1) nx a by (simp del: last.simps)
    moreover have "psram_xFreeBytesRemaining h' = free_total (xs @ mid_tiles w n @ ys)"
      using h'(2) by (simp add: heap_rel_def)
    ultimately show ?thesis using h'(2-4) off(2) by auto
  qed
qed

lemma free_refines:
  assumes r: "heap_rel L base h (xs @ (n, Used) # ys)"
  obtains h' where "psram_free L (base + tiles_size xs + 16) h = Some h'" "heap_rel L base h' (join xs n ys)"
    "psram_xMinimumEverFreeBytesRemaining h' = psram_xMinimumEverFreeBytesRemaining h"
proof -
  define b where "b = base + tiles_size xs"
  from r have c: "heap_core L base (psram_pxEnd h) (blk h) (xs @ (n, Used) # ys)" and ab: "psram_xBlockAllocatedBit h = 2147483648"
    and fb: "psram_xFreeBytesRemaining h = free_total xs + free_total ys" and sz: "tiles_size xs + n + tiles_size ys < 2147483648"
    and co: "coalesced (xs @ (n, Used) # ys)" and tk: "\<forall>t\<in>set (xs @ ys). snd t \<noteq> Taken" by (auto simp: heap_rel_def)
  have nb: "xBlockSize (blk h b) = n + 2147483648" "pxNextFreeBlock (blk h b) = 0" "0 < n" "n mod 16 = 0"
    and e: "psram_pxEnd h = b + n + tiles_size ys" "psram_pxEnd h < 4294967296"
    using c by (auto simp: heap_core_def b_def add.assoc)
  have n31: "n < 2147483648" using sz by simp
  have "16 \<le> n" using nb(3,4) by presburger
  then have pb: "sub32 (b + 16) psram_xHeapStructSize = b"
    using e by (simp add: psram_xHeapStructSize_def sub32_small)
  have al: "(n + 2147483648) AND 2147483648 = (2147483648 :: nat)" by (rule alloc_bit(3) [OF n31])
  have sn: "sub32 (n + 2147483648) 2147483648 = n" using n31 by (simp add: sub32_small)
  let ?F = "free_total xs + free_total ys + n"
  have af: "add32 (psram_xFreeBytesRemaining h) n = ?F"
    using free_total_le [of xs] free_total_le [of ys] sz fb by (simp add: add32_small)
  let ?h = "h\<lparr>blk := set_size b n (blk h), psram_xFreeBytesRemaining := ?F\<rparr>"
  have "heap_core L base (psram_pxEnd h) (blk ?h) (xs @ [(n, Taken)] @ ys)"
    using nb by (intro core_retile [OF c _ b_def]) (auto simp: set_other)
  then have c2: "heap_core L base (psram_pxEnd h) (blk ?h) (xs @ (n, Taken) # ys)" by simp
  obtain m' where m': "psram_prvInsertBlockIntoFreeList L b ?h = Some (?h\<lparr>blk := m'\<rparr>)"
    "heap_core L base (psram_pxEnd h) m' (join xs n ys)"
    by (rule core_insert [OF c2 b_def]) simp_all
  have ts: "tiles_size (join xs n ys) = tiles_size xs + n + tiles_size ys"
    using m'(2) c by (auto simp: heap_core_def)
  have "psram_free L (b + 16) h = Some (?h\<lparr>blk := m'\<rparr>)"
    unfolding psram_free_def Let_def pb nb ab al sn af using m'(1) by simp
  moreover have "heap_rel L base (?h\<lparr>blk := m'\<rparr>) (join xs n ys)"
    using m'(2) coalesced_join [OF co] join_kinds [OF tk] ts sz ab by (simp add: heap_rel_def join_free_total)
  ultimately show thesis using that b_def by simp
qed

section \<open>Initialisation\<close>

definition layout_ok :: "psram_layout \<Rightarrow> bool" where
  "layout_ok L =
     (0 < psram_end L \<and> psram_end L + 64 \<le> IDCACHE_END_ADDR L \<and> IDCACHE_END_ADDR L < 4294967296 \<and>
      IDCACHE_END_ADDR L - psram_end L < 2147483648 \<and>
      (xStart_at L < psram_end L \<or> IDCACHE_END_ADDR L < xStart_at L) \<and> xStart_at L < 4294967296)"

definition heap_base :: "psram_layout \<Rightarrow> nat" where "heap_base L = (psram_end L + 15) div 16 * 16"
definition heap_size :: "psram_layout \<Rightarrow> nat" where
  "heap_size L = (IDCACHE_END_ADDR L - 16) div 16 * 16 - heap_base L"

lemma heap_base_bounds: "psram_end L \<le> heap_base L" "heap_base L \<le> psram_end L + 15" "heap_base L mod 16 = 0"
proof -
  have "psram_end L + 15 = heap_base L + (psram_end L + 15) mod 16"
    unfolding heap_base_def by (rule div_mult_mod_eq [symmetric])
  moreover have "(psram_end L + 15) mod 16 \<le> 15" by simp
  ultimately show "psram_end L \<le> heap_base L" "heap_base L \<le> psram_end L + 15" by linarith+
  show "heap_base L mod 16 = 0" by (simp add: heap_base_def)
qed

lemma heap_base_aligned: "psram_end L mod 16 = 0 \<Longrightarrow> heap_base L = psram_end L"
proof -
  assume "psram_end L mod 16 = 0"
  then obtain q where "psram_end L = 16 * q" by blast
  then show ?thesis by (simp add: heap_base_def)
qed

lemma heap_end_bounds:
  assumes "layout_ok L"
  shows "heap_base L + heap_size L = (IDCACHE_END_ADDR L - 16) div 16 * 16" "16 \<le> heap_size L" "heap_size L mod 16 = 0"
    "heap_base L + heap_size L + 16 \<le> IDCACHE_END_ADDR L" "heap_size L \<le> IDCACHE_END_ADDR L - psram_end L"
proof -
  define X R where "X = (IDCACHE_END_ADDR L - 16) div 16 * 16" and "R = (IDCACHE_END_ADDR L - 16) mod 16"
  have d: "IDCACHE_END_ADDR L - 16 = X + R" unfolding X_def R_def by (rule div_mult_mod_eq [symmetric])
  have m: "R \<le> 15" by (simp add: R_def)
  have l: "psram_end L + 64 \<le> IDCACHE_END_ADDR L" using assms by (simp add: layout_ok_def)
  have X: "IDCACHE_END_ADDR L = X + R + 16" using d l by simp
  have h: "heap_size L = X - heap_base L" by (simp add: heap_size_def X_def)
  show "heap_base L + heap_size L = (IDCACHE_END_ADDR L - 16) div 16 * 16"
    unfolding h X_def [symmetric] using X m l heap_base_bounds(2) [of L] by simp
  show "16 \<le> heap_size L" "heap_base L + heap_size L + 16 \<le> IDCACHE_END_ADDR L"
    "heap_size L \<le> IDCACHE_END_ADDR L - psram_end L"
    unfolding h using X m l heap_base_bounds(1,2) [of L] by simp_all
  have "16 dvd heap_base L" using heap_base_bounds(3) [of L] by (simp only: mod_eq_0_iff_dvd)
  then have "16 dvd (IDCACHE_END_ADDR L - 16) div 16 * 16 - heap_base L" by (rule dvd_diff_nat [OF dvd_triv_right])
  then show "heap_size L mod 16 = 0" unfolding heap_size_def by (simp only: mod_eq_0_iff_dvd)
qed

lemma init_ok:
  assumes l: "layout_ok L"
  shows "heap_rel L (heap_base L) (psram_heap_init L h) [(heap_size L, Free)]"
    "psram_pxEnd (psram_heap_init L h) \<noteq> 0"
proof -
  note b = heap_base_bounds [of L] and e = heap_end_bounds [OF l]
  have f: "0 < psram_end L" "psram_end L + 64 \<le> IDCACHE_END_ADDR L" "IDCACHE_END_ADDR L < 4294967296"
    "IDCACHE_END_ADDR L - psram_end L < 2147483648" using l by (auto simp: layout_ok_def)
  have st: "xStart_at L < psram_end L \<or> IDCACHE_END_ADDR L < xStart_at L" "xStart_at L < 4294967296"
    using l by (simp_all add: layout_ok_def)
  have t0: "sub32 (IDCACHE_END_ADDR L) (psram_end L) = IDCACHE_END_ADDR L - psram_end L" using f by (simp add: sub32_small)
  have start: "(if psram_end L mod 16 \<noteq> 0 then align_down (add32 (psram_end L) (psram_portBYTE_ALIGNMENT - 1)) else psram_end L) = heap_base L"
  proof (cases "psram_end L mod 16 = 0")
    case True
    then show ?thesis by (simp add: heap_base_aligned)
  next
    case False
    then show ?thesis using f
      by (simp add: psram_portBYTE_ALIGNMENT_def add32_small align_down_small heap_base_def minus_mod_eq_div_mult)
  qed
  have total: "(if psram_end L mod 16 \<noteq> 0 then sub32 (IDCACHE_END_ADDR L - psram_end L) (sub32 (heap_base L) (psram_end L))
      else IDCACHE_END_ADDR L - psram_end L) = IDCACHE_END_ADDR L - heap_base L"
  proof (cases "psram_end L mod 16 = 0")
    case True
    then show ?thesis by (simp add: heap_base_aligned)
  next
    case False
    then show ?thesis using f(2,3) b(1,2) by (simp add: sub32_small)
  qed
  have endp: "align_down (sub32 (add32 (heap_base L) (IDCACHE_END_ADDR L - heap_base L)) psram_xHeapStructSize) = heap_base L + heap_size L"
    using f b(2) e(1) by (simp add: psram_xHeapStructSize_def add32_small sub32_small align_down_small minus_mod_eq_div_mult)
  have n: "sub32 (heap_base L + heap_size L) (heap_base L) = heap_size L"
    using e(4) f(3) by (simp add: sub32_small)
  have i: "psram_heap_init L h =
    \<lparr>blk = (blk h)(xStart_at L := \<lparr>pxNextFreeBlock = heap_base L, xBlockSize = 0\<rparr>,
       heap_base L + heap_size L := \<lparr>pxNextFreeBlock = 0, xBlockSize = 0\<rparr>,
       heap_base L := \<lparr>pxNextFreeBlock = heap_base L + heap_size L, xBlockSize = heap_size L\<rparr>),
     psram_pxEnd = heap_base L + heap_size L, psram_xFreeBytesRemaining = heap_size L,
     psram_xMinimumEverFreeBytesRemaining = heap_size L, psram_xBlockAllocatedBit = 2147483648\<rparr>"
    unfolding psram_heap_init_def Let_def and_mask t0 start total endp n by simp
  show "psram_pxEnd (psram_heap_init L h) \<noteq> 0" using e(2) by (simp add: i)
  show "heap_rel L (heap_base L) (psram_heap_init L h) [(heap_size L, Free)]"
    using b e f st by (auto simp: i heap_rel_def heap_core_def coalesced_def)
qed

section \<open>Clients\<close>

text \<open>
  The states a client can reach that frees each block it holds once: the heap, and the blocks held, each
  with the size that was asked for.
\<close>

inductive heap_trace :: "psram_layout \<Rightarrow> psram_heap \<Rightarrow> (nat \<times> nat) list \<Rightarrow> bool" for L where
  start: "psram_pxEnd h = 0 \<Longrightarrow> heap_trace L h []"
| fail: "heap_trace L h live \<Longrightarrow> psram_malloc L x h = Some (0, h') \<Longrightarrow> heap_trace L h' live"
| alloc: "heap_trace L h live \<Longrightarrow> psram_malloc L x h = Some (p, h') \<Longrightarrow> p \<noteq> 0 \<Longrightarrow> heap_trace L h' ((p, unat x) # live)"
| free: "heap_trace L h (us @ (p, n) # vs) \<Longrightarrow> psram_free L p h = Some h' \<Longrightarrow> heap_trace L h' (us @ vs)"

fun useds :: "nat \<Rightarrow> tiles \<Rightarrow> (nat \<times> nat) list" where
  "useds a [] = []"
| "useds a ((n, k) # ts) = (if k = Used then [(a, n)] else []) @ useds (a + n) ts"

lemma useds_append [simp]: "useds a (ts @ us) = useds a ts @ useds (a + tiles_size ts) us"
  by (induction a ts rule: useds.induct) (simp_all add: add.assoc)

lemma useds_range: "(x, n) \<in> set (useds a ts) \<Longrightarrow> a \<le> x \<and> x + n \<le> a + tiles_size ts"
  by (induction a ts rule: useds.induct) (force split: if_splits)+

lemma useds_pos: "tiles_wf ts \<Longrightarrow> (x, n) \<in> set (useds a ts) \<Longrightarrow> 0 < n"
  by (induction a ts rule: useds.induct) (auto split: if_splits)

lemma useds_disjoint:
  "tiles_wf ts \<Longrightarrow> (x, n) \<in> set (useds a ts) \<Longrightarrow> (y, k) \<in> set (useds a ts) \<Longrightarrow> (x, n) \<noteq> (y, k) \<Longrightarrow> x + n \<le> y \<or> y + k \<le> x"
  by (induction a ts rule: useds.induct) (force split: if_splits dest: useds_range)+

lemma useds_mod: "tiles_wf ts \<Longrightarrow> a mod 16 = 0 \<Longrightarrow> (x, n) \<in> set (useds a ts) \<Longrightarrow> x mod 16 = 0"
proof (induction a ts rule: useds.induct)
  case (2 a n k ts)
  have "(a + n) mod 16 = 0" using 2 by (simp add: mod_add_eq [symmetric, of a])
  then show ?case using 2 by (auto split: if_splits)
qed simp

lemma useds_distinct: "tiles_wf ts \<Longrightarrow> distinct (map fst (useds a ts))"
  by (induction a ts rule: useds.induct) (force dest: useds_range)+

lemma useds_join: "useds a (join xs n ys) = useds a xs @ useds (a + tiles_size xs + n) ys"
proof -
  have r: "useds b (join_right k ys) = useds (b + k) ys" for b k
    by (rule join_right_cases [of ys k]) (auto simp: add.assoc)
  show ?thesis
  proof (cases "xs \<noteq> [] \<and> snd (last xs) = Free")
    case True
    then obtain zs k where xs: "xs = zs @ [(k, Free)]" by (cases xs rule: rev_cases) auto
    then show ?thesis by (simp add: join_def r add.assoc)
  next
    case False
    then show ?thesis by (auto simp: join_def r)
  qed
qed

lemma useds_at: "(x, n) \<in> set (useds a ts) \<Longrightarrow> \<exists>xs ys. ts = xs @ (n, Used) # ys \<and> x = a + tiles_size xs"
proof (induction a ts rule: useds.induct)
  case (2 a n' k ts)
  show ?case
  proof (cases "k = Used \<and> (x, n) = (a, n')")
    case True
    then show ?thesis by (intro exI [of _ "[]"] exI [of _ ts]) simp
  next
    case False
    then obtain xs ys where "ts = xs @ (n, Used) # ys" "x = a + n' + tiles_size xs" using 2 by (auto split: if_splits)
    then show ?thesis by (intro exI [of _ "(n', k) # xs"] exI [of _ ys]) simp
  qed
qed simp

text \<open>The blocks the client holds are the used tiles, each with room for the header and what was asked for.\<close>

definition holds :: "nat \<Rightarrow> tiles \<Rightarrow> (nat \<times> nat) list \<Rightarrow> bool" where
  "holds base ts live =
     (mset (map fst live) = mset (map (\<lambda>t. fst t + 16) (useds base ts)) \<and>
      (\<forall>(p, k)\<in>set live. \<forall>(x, n)\<in>set (useds base ts). p = x + 16 \<longrightarrow> k + 16 \<le> n))"

lemma holds_set: "holds base ts live \<Longrightarrow> fst ` set live = (\<lambda>t. fst t + 16) ` set (useds base ts)"
  unfolding holds_def by (metis list.set_map mset_eq_setD)

lemma holds_distinct:
  assumes "holds base ts live" "tiles_wf ts"
  shows "distinct (map fst live)"
proof -
  have "map (\<lambda>t. fst t + 16) (useds base ts) = map (\<lambda>x. x + 16) (map fst (useds base ts))" by simp
  then have "distinct (map (\<lambda>t. fst t + 16) (useds base ts))"
    using useds_distinct [OF assms(2), of base] by (simp only: distinct_map) simp
  then show ?thesis using assms(1) unfolding holds_def by (metis mset_eq_imp_distinct_iff)
qed

lemma holds_malloc:
  assumes h: "holds base ts live" and w: "k + 16 \<le> w" and wf: "tiles_wf ts" and am: "a_malloc w ts = Some (off, ts')"
  shows "holds base ts' ((base + off + 16, k) # live)"
proof -
  obtain xs n ys where ts: "ts = xs @ (n, Free) # ys" "w \<le> n" and off: "off = tiles_size xs" "ts' = xs @ mid_tiles w n @ ys"
    by (rule a_malloc_cases [of w ts]) (use am in \<open>auto simp: mid_tiles_def\<close>)
  define b where "b = base + tiles_size xs"
  obtain j where j: "k + 16 \<le> j" "useds base ts' = useds base xs @ (b, j) # useds (b + n) ys"
    using ts(2) w by (cases "32 < n - w") (auto simp: off mid_tiles_def b_def add.assoc)
  have u: "useds base ts = useds base xs @ useds (b + n) ys" by (simp add: ts b_def add.assoc)
  have "0 < n" using wf by (simp add: ts)
  then have nb: "(b, i) \<notin> set (useds base ts)" for i
    using wf ts useds_range [of b i base xs] useds_pos [of xs b i base] useds_range [of b i "b + n" ys]
    unfolding u b_def by auto
  have u': "set (useds base ts') = insert (b, j) (set (useds base ts))" unfolding j(2) u by auto
  have n2: "fst t \<noteq> b + 16" if "t \<in> set live" for t
  proof
    assume "fst t = b + 16"
    then have "b + 16 \<in> (\<lambda>t. fst t + 16) ` set (useds base ts)" using that holds_set [OF h] by (metis imageI)
    then show False using nb by force
  qed
  have "mset (map fst ((b + 16, k) # live)) = mset (map (\<lambda>t. fst t + 16) (useds base ts'))"
    using h unfolding holds_def j(2) u by simp
  moreover have "q + 16 \<le> i" if "(p, q) \<in> set ((b + 16, k) # live)" "(x, i) \<in> set (useds base ts')" "p = x + 16" for p q x i
    using that u' j(1) nb n2 [of "(p, q)"] h by (auto simp: holds_def)
  ultimately show ?thesis by (auto simp: holds_def off(1) b_def [symmetric])
qed

lemma holds_free:
  assumes h: "holds base ts (us @ (p, k) # vs)"
  obtains xs n ys where "ts = xs @ (n, Used) # ys" "p = base + tiles_size xs + 16" "holds base (join xs n ys) (us @ vs)"
proof -
  have "p \<in> (\<lambda>t. fst t + 16) ` set (useds base ts)" using holds_set [OF h] by (metis fst_conv image_eqI in_set_conv_decomp)
  then obtain x n where x: "(x, n) \<in> set (useds base ts)" "p = x + 16" by auto
  obtain xs ys where ts: "ts = xs @ (n, Used) # ys" "x = base + tiles_size xs" using useds_at [OF x(1)] by blast
  have u: "useds base ts = useds base xs @ (x, n) # useds (x + n) ys" by (simp add: ts add.assoc)
  have j: "useds base (join xs n ys) = useds base xs @ useds (x + n) ys" by (simp add: useds_join ts(2))
  have "holds base (join xs n ys) (us @ vs)"
    unfolding holds_def
  proof
    show "mset (map fst (us @ vs)) = mset (map (\<lambda>t. fst t + 16) (useds base (join xs n ys)))"
      using h unfolding holds_def u j by (simp add: x(2))
    have "set (useds base (join xs n ys)) \<subseteq> set (useds base ts)" "set (us @ vs) \<subseteq> set (us @ (p, k) # vs)"
      unfolding u j by auto
    then show "\<forall>(p, k)\<in>set (us @ vs). \<forall>(x, i)\<in>set (useds base (join xs n ys)). p = x + 16 \<longrightarrow> k + 16 \<le> i"
      using h unfolding holds_def by blast
  qed
  then show thesis using that ts x(2) by simp
qed

definition heap_inv :: "psram_layout \<Rightarrow> psram_heap \<Rightarrow> (nat \<times> nat) list \<Rightarrow> bool" where
  "heap_inv L h live =
     (if psram_pxEnd h = 0 then live = []
      else \<exists>ts. heap_rel L (heap_base L) h ts \<and> tiles_size ts = heap_size L \<and> holds (heap_base L) ts live \<and>
             psram_xMinimumEverFreeBytesRemaining h \<le> psram_xFreeBytesRemaining h)"

lemma malloc_uninit:
  "layout_ok L \<Longrightarrow> psram_pxEnd h = 0 \<Longrightarrow> psram_malloc L x h = psram_malloc L x (psram_heap_init L h)"
  using init_ok(2) [of L h] by (simp add: psram_malloc_def)

lemma heap_inv_init:
  assumes "layout_ok L"
  shows "heap_inv L (psram_heap_init L h) []"
proof -
  have "psram_xMinimumEverFreeBytesRemaining (psram_heap_init L h) = psram_xFreeBytesRemaining (psram_heap_init L h)"
    by (simp add: psram_heap_init_def Let_def)
  moreover have "tiles_size [(heap_size L, Free)] = heap_size L" "holds (heap_base L) [(heap_size L, Free)] []"
    by (simp_all add: holds_def)
  ultimately show ?thesis using init_ok [OF assms, of h] unfolding heap_inv_def by (metis order_refl)
qed

text \<open>malloc on an initialised heap answers, and either nothing changes or the client holds a new block.\<close>

lemma malloc_inv:
  assumes i: "heap_inv L h live" and e: "psram_pxEnd h \<noteq> 0"
  obtains (fail) "psram_malloc L x h = Some (0, h)"
    | (ok) p h' where "psram_malloc L x h = Some (p, h')" "p \<noteq> 0" "heap_inv L h' ((p, unat x) # live)"
proof -
  obtain ts where r: "heap_rel L (heap_base L) h ts" and sz: "tiles_size ts = heap_size L" and hd: "holds (heap_base L) ts live"
    using i e by (auto simp: heap_inv_def)
  define w where "w = (unat x + 31) div 16 * 16"
  have wf: "tiles_wf ts" using r by (simp add: heap_rel_def heap_core_def)
  note m = malloc_refines [OF r w_def]
  show thesis
  proof (cases "unat x = 0 \<or> 2147483648 \<le> unat x \<or> a_malloc w ts = None")
    case True
    then show thesis using m(1) fail by blast
  next
    case False
    then obtain off ts' where am: "a_malloc w ts = Some (off, ts')" by auto
    obtain h' where h': "psram_malloc L x h = Some (heap_base L + off + 16, h')" "heap_rel L (heap_base L) h' ts'"
      "psram_pxEnd h' = psram_pxEnd h"
      "psram_xMinimumEverFreeBytesRemaining h' = min (psram_xFreeBytesRemaining h') (psram_xMinimumEverFreeBytesRemaining h)"
      using m(2) [OF _ _ am] False by auto
    have "unat x + 31 = w + (unat x + 31) mod 16" unfolding w_def by (rule div_mult_mod_eq [symmetric])
    moreover have "(unat x + 31) mod 16 \<le> 15" by simp
    ultimately have w: "unat x + 16 \<le> w" by linarith
    have "tiles_size ts' = tiles_size ts"
      using r h'(2,3) by (simp add: heap_rel_def heap_core_def)
    then have "heap_inv L h' ((heap_base L + off + 16, unat x) # live)"
      using h'(2-4) e sz holds_malloc [OF hd w wf am] by (auto simp: heap_inv_def)
    then show thesis using ok h'(1) by simp
  qed
qed

lemma free_inv:
  assumes i: "heap_inv L h (us @ (p, n) # vs)"
  obtains h' where "psram_free L p h = Some h'" "heap_inv L h' (us @ vs)" "psram_pxEnd h' = psram_pxEnd h" "psram_pxEnd h \<noteq> 0"
proof -
  have e: "psram_pxEnd h \<noteq> 0" using i by (auto simp: heap_inv_def split: if_splits)
  obtain ts where r: "heap_rel L (heap_base L) h ts" and sz: "tiles_size ts = heap_size L"
    and hd: "holds (heap_base L) ts (us @ (p, n) # vs)"
    and mn: "psram_xMinimumEverFreeBytesRemaining h \<le> psram_xFreeBytesRemaining h"
    using i e by (auto simp: heap_inv_def)
  have wf: "tiles_wf ts" using r by (simp add: heap_rel_def heap_core_def)
  obtain xs k ys where ts: "ts = xs @ (k, Used) # ys" and p: "p = heap_base L + tiles_size xs + 16"
    and hd': "holds (heap_base L) (join xs k ys) (us @ vs)"
    by (rule holds_free [OF hd])
  obtain h' where h': "psram_free L p h = Some h'" "heap_rel L (heap_base L) h' (join xs k ys)"
    "psram_xMinimumEverFreeBytesRemaining h' = psram_xMinimumEverFreeBytesRemaining h"
    by (rule free_refines [OF r [unfolded ts]]) (use p in blast)
  have sz': "tiles_size (join xs k ys) = heap_size L" using sz by (simp add: ts join_size)
  have e': "psram_pxEnd h' = psram_pxEnd h" using r h'(2) sz sz' by (simp add: heap_rel_def heap_core_def)
  have "psram_xFreeBytesRemaining h \<le> psram_xFreeBytesRemaining h'"
    using r h'(2) by (simp add: heap_rel_def join_free_total ts)
  then have "heap_inv L h' (us @ vs)" using e e' h'(2,3) hd' sz' mn by (auto simp: heap_inv_def)
  then show thesis using that h'(1) e e' by blast
qed

lemma heap_trace_inv:
  assumes l: "layout_ok L" and t: "heap_trace L h live"
  shows "heap_inv L h live"
  using t
proof (induction rule: heap_trace.induct)
  case (start h)
  then show ?case by (simp add: heap_inv_def)
next
  case (fail h live x h')
  define h0 where "h0 = (if psram_pxEnd h = 0 then psram_heap_init L h else h)"
  have i: "heap_inv L h0 live" "psram_pxEnd h0 \<noteq> 0"
    using fail.IH heap_inv_init [OF l] init_ok(2) [OF l] by (auto simp: h0_def heap_inv_def split: if_splits)
  have "psram_malloc L x h0 = Some (0, h')"
    using fail.hyps(2) by (simp add: h0_def malloc_uninit [OF l, symmetric])
  then show ?case using malloc_inv [OF i, of x] i(1) by force
next
  case (alloc h live x p h')
  define h0 where "h0 = (if psram_pxEnd h = 0 then psram_heap_init L h else h)"
  have i: "heap_inv L h0 live" "psram_pxEnd h0 \<noteq> 0"
    using alloc.IH heap_inv_init [OF l] init_ok(2) [OF l] by (auto simp: h0_def heap_inv_def split: if_splits)
  have "psram_malloc L x h0 = Some (p, h')"
    using alloc.hyps(2) by (simp add: h0_def malloc_uninit [OF l, symmetric])
  then show ?case using malloc_inv [OF i, of x] alloc.hyps(3) by force
next
  case (free h us p n vs h')
  then show ?case using free_inv [OF free.IH] by force
qed

lemma held_block:
  assumes "holds (heap_base L) ts live" "(p, k) \<in> set live"
  obtains x n where "(x, n) \<in> set (useds (heap_base L) ts)" "p = x + 16" "k + 16 \<le> n"
proof -
  have "p \<in> (\<lambda>t. fst t + 16) ` set (useds (heap_base L) ts)"
    using holds_set [OF assms(1)] assms(2) by (metis fst_conv image_eqI)
  then obtain x n where "(x, n) \<in> set (useds (heap_base L) ts)" "p = x + 16" by auto
  then show thesis using that assms by (fastforce simp: holds_def)
qed

lemma held_blocks_apart:
  assumes l: "layout_ok L" and t: "heap_trace L h live" and p: "(p, n) \<in> set live"
  shows "p mod 16 = 0" "psram_end L + 16 \<le> p" "p + n + 16 \<le> IDCACHE_END_ADDR L"
    "(q, k) \<in> set live \<Longrightarrow> (q, k) \<noteq> (p, n) \<Longrightarrow> p + n + 16 \<le> q \<or> q + k + 16 \<le> p"
proof -
  have i: "heap_inv L h live" by (rule heap_trace_inv [OF l t])
  then have "psram_pxEnd h \<noteq> 0" using p by (auto simp: heap_inv_def split: if_splits)
  then obtain ts where r: "heap_rel L (heap_base L) h ts" and sz: "tiles_size ts = heap_size L"
    and hd: "holds (heap_base L) ts live" using i by (auto simp: heap_inv_def)
  have wf: "tiles_wf ts" using r by (simp add: heap_rel_def heap_core_def)
  obtain x i where x: "(x, i) \<in> set (useds (heap_base L) ts)" "p = x + 16" "n + 16 \<le> i"
    by (rule held_block [OF hd p])
  show "p mod 16 = 0" using useds_mod [OF wf heap_base_bounds(3) x(1)] x(2) by simp
  show "psram_end L + 16 \<le> p" "p + n + 16 \<le> IDCACHE_END_ADDR L"
    using useds_range [OF x(1)] x(2,3) sz heap_base_bounds(1) [of L] heap_end_bounds(4) [OF l] by linarith+
  show "p + n + 16 \<le> q \<or> q + k + 16 \<le> p" if q: "(q, k) \<in> set live" "(q, k) \<noteq> (p, n)"
  proof -
    obtain y j where y: "(y, j) \<in> set (useds (heap_base L) ts)" "q = y + 16" "k + 16 \<le> j"
      by (rule held_block [OF hd q(1)])
    have "q \<noteq> p" using holds_distinct [OF hd wf] p q by (metis eq_key_imp_eq_value)
    then have "(x, i) \<noteq> (y, j)" using x(2) y(2) by auto
    then show ?thesis using useds_disjoint [OF wf x(1) y(1)] x(2,3) y(2,3) by linarith
  qed
qed

lemma calls_return:
  assumes l: "layout_ok L" and t: "heap_trace L h live"
  shows "\<exists>p h'. psram_malloc L x h = Some (p, h')" "(p, n) \<in> set live \<Longrightarrow> \<exists>h'. psram_free L p h = Some h'"
proof -
  define h0 where "h0 = (if psram_pxEnd h = 0 then psram_heap_init L h else h)"
  have i: "heap_inv L h live" by (rule heap_trace_inv [OF l t])
  then have "heap_inv L h0 live" "psram_pxEnd h0 \<noteq> 0"
    using heap_inv_init [OF l] init_ok(2) [OF l] by (auto simp: h0_def heap_inv_def split: if_splits)
  then have "\<exists>p h'. psram_malloc L x h0 = Some (p, h')" by (rule malloc_inv) blast+
  then show "\<exists>p h'. psram_malloc L x h = Some (p, h')"
    by (cases "psram_pxEnd h = 0") (simp_all add: h0_def malloc_uninit [OF l])
  assume "(p, n) \<in> set live"
  then obtain us vs where "live = us @ (p, n) # vs" by (meson split_list)
  then show "\<exists>h'. psram_free L p h = Some h'" using i free_inv by blast
qed

lemma all_free:
  assumes "coalesced ts" "tiles_wf ts" "useds a ts = []" "\<forall>t\<in>set ts. snd t \<noteq> Taken" "0 < tiles_size ts"
  shows "ts = [(tiles_size ts, Free)]"
proof -
  have f: "snd t = Free" if "t \<in> set ts" for t
  proof -
    have "useds b us = [] \<Longrightarrow> t \<in> set us \<Longrightarrow> snd t \<noteq> Used" for b us
      by (induction b us rule: useds.induct) (auto split: if_splits)
    then show ?thesis using that assms(3,4) by (meson tile_kind.exhaust)
  qed
  obtain n k us where ts: "ts = (n, k) # us" using assms(5) by (cases ts) auto
  have "us = []"
  proof (rule ccontr)
    assume "us \<noteq> []"
    then obtain u vs where "us = u # vs" by (cases us) auto
    moreover have "snd (n, k) = Free" "snd u = Free" using f [of "(n, k)"] f [of u] ts calculation by auto
    ultimately show False using assms(1) ts by (simp add: coalesced_def)
  qed
  then show ?thesis using ts f by simp
qed

section \<open>Properties\<close>

text \<open>
  C2: For a client that frees what it holds once, the blocks it holds are aligned to 16 bytes, lie in the
  heap and do not overlap, and there is always room for a header between two of them; every call of malloc
  and free returns (the list searches end).
\<close>

theorem psram_clients_safe:
  assumes "layout_ok L" "heap_trace L h live"
  shows "(\<forall>(p, n)\<in>set live. p mod 16 = 0 \<and> psram_end L + 16 \<le> p \<and> p + n + 16 \<le> IDCACHE_END_ADDR L \<and>
      (\<forall>(q, k)\<in>set live. (q, k) \<noteq> (p, n) \<longrightarrow> p + n + 16 \<le> q \<or> q + k + 16 \<le> p)) \<and>
    (\<exists>p h'. psram_malloc L x h = Some (p, h')) \<and> (\<forall>(p, n)\<in>set live. \<exists>h'. psram_free L p h = Some h')"
proof (intro conjI)
  show "\<exists>p h'. psram_malloc L x h = Some (p, h')" by (rule calls_return(1) [OF assms])
  show "\<forall>(p, n)\<in>set live. \<exists>h'. psram_free L p h = Some h'" using calls_return(2) [OF assms] by blast
  show "\<forall>(p, n)\<in>set live. p mod 16 = 0 \<and> psram_end L + 16 \<le> p \<and> p + n + 16 \<le> IDCACHE_END_ADDR L \<and>
      (\<forall>(q, k)\<in>set live. (q, k) \<noteq> (p, n) \<longrightarrow> p + n + 16 \<le> q \<or> q + k + 16 \<le> p)"
    using held_blocks_apart [OF assms] by blast
qed

text \<open>
  C30: When a client has freed all it held, all memory is one free block again: the count of free bytes is
  that of the fresh heap, and a request for any size up to the heap's size less the header is met, at the
  start of the heap.
\<close>

theorem psram_all_merged:
  assumes "layout_ok L" "heap_trace L h []" "psram_pxEnd h \<noteq> 0" "0 < unat x" "unat x + 16 \<le> heap_size L"
  shows "psram_GetFreeHeapSize h = heap_size L \<and> (\<exists>h'. psram_malloc L x h = Some (heap_base L + 16, h'))"
proof -
  obtain ts where r: "heap_rel L (heap_base L) h ts" and sz: "tiles_size ts = heap_size L"
    and hd: "holds (heap_base L) ts []" using heap_trace_inv [OF assms(1,2)] assms(3) by (auto simp: heap_inv_def)
  have wf: "tiles_wf ts" using r by (simp add: heap_rel_def heap_core_def)
  have ts: "ts = [(heap_size L, Free)]"
    using all_free [OF _ wf, of "heap_base L"] r hd sz heap_end_bounds(2) [OF assms(1)]
    by (simp add: heap_rel_def holds_def)
  define w where "w = (unat x + 31) div 16 * 16"
  have "w \<le> heap_size L"
  proof -
    obtain q where q: "heap_size L = 16 * q" using heap_end_bounds(3) [OF assms(1)] by blast
    then have "unat x + 31 < 16 * (q + 1)" using assms(5) by simp
    then have "(unat x + 31) div 16 < q + 1" by (simp add: less_mult_imp_div_less mult.commute)
    then show ?thesis by (simp add: w_def q)
  qed
  then have "\<exists>ts'. a_malloc w ts = Some (0, ts')" by (simp add: ts)
  moreover have "unat x < 2147483648" using assms(5) r sz by (simp add: heap_rel_def)
  ultimately obtain h' where "psram_malloc L x h = Some (heap_base L + 0 + 16, h')"
    using malloc_refines(2) [OF r w_def assms(4)] by blast
  then show ?thesis using r by (simp add: heap_rel_def psram_GetFreeHeapSize_def ts)
qed

text \<open>
  C20: The allocator implements first fit on the row of blocks. malloc of a size between 1 and 2^31 - 1,
  rounded up with the header to a multiple of 16, takes the first free block that is large enough, splits
  off what is more than 32 bytes too much, and answers the address behind the header; it answers NULL and
  leaves the heap alone when no block is large enough and for all other sizes. free turns the block to a
  free one and merges it with its free neighbours.
\<close>

theorem psram_first_fit:
  assumes "heap_rel L base h ts"
  shows "(case if unat x = 0 \<or> 2147483648 \<le> unat x then None else a_malloc ((unat x + 31) div 16 * 16) ts of
      None \<Rightarrow> psram_malloc L x h = Some (0, h)
    | Some (off, ts') \<Rightarrow> \<exists>h'. psram_malloc L x h = Some (base + off + 16, h') \<and> heap_rel L base h' ts') \<and>
    (\<forall>xs n ys. ts = xs @ (n, Used) # ys \<longrightarrow>
      (\<exists>h'. psram_free L (base + tiles_size xs + 16) h = Some h' \<and> heap_rel L base h' (join xs n ys)))"
proof (intro conjI allI impI)
  note m = malloc_refines [OF assms refl]
  show "case if unat x = 0 \<or> 2147483648 \<le> unat x then None else a_malloc ((unat x + 31) div 16 * 16) ts of
      None \<Rightarrow> psram_malloc L x h = Some (0, h)
    | Some (off, ts') \<Rightarrow> \<exists>h'. psram_malloc L x h = Some (base + off + 16, h') \<and> heap_rel L base h' ts'"
  proof (cases "unat x = 0 \<or> 2147483648 \<le> unat x \<or> a_malloc ((unat x + 31) div 16 * 16) ts = None")
    case True
    then show ?thesis using m(1) by auto
  next
    case False
    then obtain off ts' where "a_malloc ((unat x + 31) div 16 * 16) ts = Some (off, ts')" by auto
    then show ?thesis using m(2) [of x off ts'] False by auto
  qed
  fix xs n ys
  assume "ts = xs @ (n, Used) # ys"
  then show "\<exists>h'. psram_free L (base + tiles_size xs + 16) h = Some h' \<and> heap_rel L base h' (join xs n ys)"
    using free_refines [of L base h xs n ys] assms by metis
qed

definition demo_layout :: psram_layout where
  "demo_layout = \<lparr>xStart_at = 64, psram_end = 1000, IDCACHE_END_ADDR = 2000\<rparr>"

definition demo_heap :: psram_heap where
  "demo_heap = \<lparr>blk = (\<lambda>x. \<lparr>pxNextFreeBlock = 7, xBlockSize = 7\<rparr>), psram_pxEnd = 0, psram_xFreeBytesRemaining = 0,
     psram_xMinimumEverFreeBytesRemaining = 0, psram_xBlockAllocatedBit = 0\<rparr>"

lemma demo_layout_facts: "layout_ok demo_layout" "heap_base demo_layout = 1008" "heap_size demo_layout = 976"
  by (simp_all add: demo_layout_def layout_ok_def heap_base_def heap_size_def)

lemma demo_rel: "heap_rel demo_layout 1008 (psram_heap_init demo_layout demo_heap) [(976, Free)]"
  using init_ok(1) [OF demo_layout_facts(1), of demo_heap] by (simp add: demo_layout_facts)

lemma demo_malloc: "\<exists>h'. psram_malloc demo_layout 100 demo_heap = Some (1024, h') \<and> heap_trace demo_layout h' [(1024, 100)]"
proof -
  obtain h' where "psram_malloc demo_layout 100 (psram_heap_init demo_layout demo_heap) = Some (1024, h')"
    using malloc_refines(2) [OF demo_rel refl, of 100 0] by (auto simp: mid_tiles_def)
  then have m: "psram_malloc demo_layout 100 demo_heap = Some (1024, h')"
    by (simp add: malloc_uninit [OF demo_layout_facts(1)] demo_heap_def)
  have "heap_trace demo_layout demo_heap []" by (rule heap_trace.start) (simp add: demo_heap_def)
  from heap_trace.alloc [OF this m] show ?thesis using m by simp
qed

theorem psram_clients_safe_witness:
  "\<exists>h. heap_trace demo_layout h [(1024, 100)] \<and> psram_end demo_layout + 16 \<le> 1024 \<and>
     (\<exists>p h'. psram_malloc demo_layout 50 h = Some (p, h')) \<and> (\<exists>h'. psram_free demo_layout 1024 h = Some h')"
proof -
  obtain h where h: "heap_trace demo_layout h [(1024, 100)]" using demo_malloc by blast
  then show ?thesis using psram_clients_safe [OF demo_layout_facts(1) h, of 50] by auto
qed

theorem psram_all_merged_witness:
  "\<exists>h h'. heap_trace demo_layout h [] \<and> psram_malloc demo_layout 960 h = Some (1024, h')"
proof -
  obtain h1 where h1: "heap_trace demo_layout h1 [(1024, 100)]" using demo_malloc by blast
  have "heap_inv demo_layout h1 ([] @ (1024, 100) # [])" using heap_trace_inv [OF demo_layout_facts(1) h1] by simp
  then obtain h2 where f: "psram_free demo_layout 1024 h1 = Some h2" "psram_pxEnd h2 \<noteq> 0"
    by (rule free_inv) auto
  have t: "heap_trace demo_layout h2 []"
    using heap_trace.free [of demo_layout h1 "[]" 1024 100 "[]"] h1 f(1) by simp
  show ?thesis
    using psram_all_merged [OF demo_layout_facts(1) t f(2), of 960] t by (auto simp: demo_layout_facts)
qed

theorem psram_first_fit_witness:
  "\<exists>h'. psram_malloc demo_layout 100 (psram_heap_init demo_layout demo_heap) = Some (1024, h') \<and>
     heap_rel demo_layout 1008 h' [(128, Used), (848, Free)]"
  using psram_first_fit [OF demo_rel, of 100] by simp

end
