(* ===== verification/Console.thy ===== *)
theory Console
  imports Os
begin

text \<open>
  The serial console, src/console/console.c: the receive callback collects characters to command lines in
  two buffers, a thread executes the lines. The options are those of the build: new line mode 1, empty
  commands supported, no echo. The bytes the UART has ready are a list; a store outside a buffer is
  \<open>None\<close>. The thread's round is two steps, so that the callback can come while a command is executed.
\<close>

section \<open>State\<close>

datatype console_state = CONSOLE_STATE_STOP | CONSOLE_STATE_START | CONSOLE_STATE_TERMINATE

definition CONSOLE_CMD_LINE_MAX_LEN :: nat where "CONSOLE_CMD_LINE_MAX_LEN = 256"
definition CONSOLE_CMD_LINE_BUF_NUM :: nat where "CONSOLE_CMD_LINE_BUF_NUM = 2"
definition CONSOLE_INVALID_BUF_IDX :: nat where "CONSOLE_INVALID_BUF_IDX = CONSOLE_CMD_LINE_BUF_NUM"

text \<open>
  \<open>uart_rx\<close>: the bytes the UART holds; \<open>cmd_running\<close>: the buffer whose command is being executed;
  \<open>cmd_log\<close>: the commands cmd_exec was called with; \<open>cmd_lines\<close>: a history of the complete lines.
\<close>

record console_priv =
  con_state :: console_state
  free_buf_bitmap :: "bool list"
  ready_buf_bitmap :: "bool list"
  last_cmd_buf_idx :: nat
  rx_buf_idx :: nat
  rx_data_cnt :: nat
  con_buf :: "u8 list list"
  cmd_sem :: semaphore
  rx_enabled :: bool
  con_thread :: bool
  g_console_rx_data :: int
  uart_rx :: "u8 list"
  cmd_running :: "nat option"
  cmd_log :: "u8 list list"
  cmd_lines :: "u8 list list"

section \<open>Receiving\<close>

definition console_is_rx_ready :: "console_priv \<Rightarrow> bool" where
  "console_is_rx_ready c = (g_console_rx_data c \<ge> 0 \<or> uart_rx c \<noteq> [])"

definition console_get_rx_data :: "console_priv \<Rightarrow> u8 \<times> console_priv" where
  "console_get_rx_data c =
     (if g_console_rx_data c \<ge> 0 then (word_of_int (g_console_rx_data c), c\<lparr>g_console_rx_data := -1\<rparr>)
      else (hd (uart_rx c), c\<lparr>uart_rx := tl (uart_rx c)\<rparr>))"

fun valid_buf_loop :: "nat \<Rightarrow> bool list \<Rightarrow> nat \<Rightarrow> nat \<times> bool list" where
  "valid_buf_loop 0 bitmap idx = (CONSOLE_INVALID_BUF_IDX, bitmap)"
| "valid_buf_loop (Suc n) bitmap idx =
     (let i = (idx + 1) mod CONSOLE_CMD_LINE_BUF_NUM
      in if bitmap ! i then (i, bitmap[i := False]) else valid_buf_loop n bitmap i)"

definition console_get_valid_buf_idx :: "bool list \<Rightarrow> nat \<Rightarrow> nat \<times> bool list" where
  "console_get_valid_buf_idx bitmap last_idx = valid_buf_loop CONSOLE_CMD_LINE_BUF_NUM bitmap last_idx"

text \<open>The C string at the start of a buffer.\<close>

definition c_string :: "u8 list \<Rightarrow> u8 list" where "c_string bs = takeWhile (\<lambda>b. b \<noteq> 0) bs"

definition console_rx_cmdline :: "console_priv \<Rightarrow> console_priv" where
  "console_rx_cmdline c =
     (case console_get_valid_buf_idx (free_buf_bitmap c) (rx_buf_idx c) of
        (idx, free) \<Rightarrow>
          c\<lparr>ready_buf_bitmap := (ready_buf_bitmap c)[rx_buf_idx c := True], free_buf_bitmap := free,
            rx_buf_idx := idx, rx_data_cnt := 0, cmd_sem := snd (OS_SemaphoreRelease (cmd_sem c)),
            cmd_lines := cmd_lines c @ [c_string (con_buf c ! rx_buf_idx c)]\<rparr>)"

definition isprint :: "u8 \<Rightarrow> bool" where "isprint d = (0x20 \<le> d \<and> d \<le> 0x7e)"

definition rx_store :: "nat \<Rightarrow> u8 \<Rightarrow> console_priv \<Rightarrow> console_priv option" where
  "rx_store cnt d c =
     (if rx_buf_idx c < length (con_buf c) \<and> cnt < length (con_buf c ! rx_buf_idx c)
      then Some (c\<lparr>con_buf := (con_buf c)[rx_buf_idx c := (con_buf c ! rx_buf_idx c)[cnt := d]]\<rparr>) else None)"

text \<open>After a carriage return one more byte is read: a line feed is skipped, another byte is kept for later.\<close>

definition after_cr :: "u8 \<Rightarrow> console_priv \<Rightarrow> bool \<times> console_priv" where
  "after_cr d c =
     (if d = 13 \<and> uart_rx c \<noteq> []
      then (let e = hd (uart_rx c); c' = c\<lparr>uart_rx := tl (uart_rx c)\<rparr>
            in if e \<noteq> 10 then (True, c'\<lparr>g_console_rx_data := uint e\<rparr>) else (False, c'))
      else (False, c))"

text \<open>Without a buffer all data is discarded.\<close>

definition rx_discard :: "console_priv \<Rightarrow> console_priv" where
  "rx_discard c = c\<lparr>g_console_rx_data := -1, uart_rx := []\<rparr>"

text \<open>The bytes still to come.\<close>

definition rx_avail :: "console_priv \<Rightarrow> nat" where
  "rx_avail c = length (uart_rx c) + (if g_console_rx_data c \<ge> 0 then 1 else 0)"

lemma rx_avail_simps [simp]:
  "rx_avail (c\<lparr>rx_data_cnt := n\<rparr>) = rx_avail c"
  "rx_store cnt d c = Some c' \<Longrightarrow> rx_avail c' = rx_avail c"
  "rx_avail (console_rx_cmdline c) = rx_avail c"
  by (auto simp: rx_avail_def rx_store_def console_rx_cmdline_def split: if_splits prod.splits)

lemma rx_avail_get: "console_is_rx_ready c \<Longrightarrow> rx_avail (snd (console_get_rx_data c)) < rx_avail c"
  by (auto simp: rx_avail_def console_get_rx_data_def console_is_rx_ready_def)

lemma rx_avail_cr: "rx_avail (snd (after_cr d (snd (console_get_rx_data c)))) \<le> rx_avail (snd (console_get_rx_data c))"
  by (auto simp: rx_avail_def after_cr_def console_get_rx_data_def Let_def)

text \<open>The loop with its \<open>retry\<close> and \<open>restart\<close>: \<open>cnt\<close> characters are in the buffer.\<close>

function rx_loop :: "nat \<Rightarrow> console_priv \<Rightarrow> console_priv option" where
  "rx_loop cnt c =
     (if cnt \<ge> CONSOLE_CMD_LINE_MAX_LEN then rx_loop 0 (c\<lparr>rx_data_cnt := 0\<rparr>)
      else if \<not> console_is_rx_ready c then Some (c\<lparr>rx_data_cnt := cnt\<rparr>)
      else (let d = fst (console_get_rx_data c); c1 = snd (console_get_rx_data c)
            in if d = 10 \<or> d = 13
               then (case rx_store cnt 0 (snd (after_cr d c1)) of
                       None \<Rightarrow> None
                     | Some c3 \<Rightarrow>
                         (if fst (after_cr d c1)
                          then if rx_buf_idx (console_rx_cmdline c3) \<noteq> CONSOLE_INVALID_BUF_IDX
                               then rx_loop (rx_data_cnt (console_rx_cmdline c3)) (console_rx_cmdline c3)
                               else Some (rx_discard (console_rx_cmdline c3))
                          else Some (console_rx_cmdline c3)))
               else if isprint d
               then (case rx_store cnt d c1 of None \<Rightarrow> None | Some c2 \<Rightarrow> rx_loop (Suc cnt) c2)
               else rx_loop 0 (c1\<lparr>rx_data_cnt := 0\<rparr>)))"
  by pat_completeness auto

termination
proof (relation "measures [\<lambda>(cnt, c). rx_avail c, \<lambda>(cnt, c). cnt]", goal_cases)
  case (3 cnt c d c1 c3)
  then show ?case using rx_avail_get [of c] rx_avail_cr [of d c] by force
next
  case (4 cnt c d c1 c2)
  then show ?case using rx_avail_get [of c] by force
next
  case (5 cnt c d c1)
  then show ?case using rx_avail_get [of c] by force
qed (auto simp: CONSOLE_CMD_LINE_MAX_LEN_def)

declare rx_loop.simps [simp del]

definition console_rx_callback :: "console_priv \<Rightarrow> console_priv option" where
  "console_rx_callback c =
     (if rx_buf_idx c \<noteq> CONSOLE_INVALID_BUF_IDX then rx_loop (rx_data_cnt c) c else Some (rx_discard c))"

section \<open>The thread\<close>

text \<open>From the wait to the call of cmd_exec, and from its return to the end of the round.\<close>

definition console_task_begin :: "console_priv \<Rightarrow> console_priv" where
  "console_task_begin c =
     (case OS_SemaphoreWait False (cmd_sem c) 0xFFFFFFFF of
        (ret, sem) \<Rightarrow>
          if ret \<noteq> OS_OK then c
          else if con_state c \<noteq> CONSOLE_STATE_START then c\<lparr>cmd_sem := sem, con_thread := False\<rparr>
          else (case console_get_valid_buf_idx (ready_buf_bitmap c) (last_cmd_buf_idx c) of
                  (idx, ready) \<Rightarrow>
                    if idx \<noteq> CONSOLE_INVALID_BUF_IDX
                    then c\<lparr>cmd_sem := sem, ready_buf_bitmap := ready, cmd_running := Some idx,
                           cmd_log := cmd_log c @ [c_string (con_buf c ! idx)]\<rparr>
                    else c\<lparr>cmd_sem := sem\<rparr>))"

definition console_task_end :: "console_priv \<Rightarrow> console_priv" where
  "console_task_end c =
     (case cmd_running c of
        None \<Rightarrow> c
      | Some idx \<Rightarrow>
          (let c1 = c\<lparr>last_cmd_buf_idx := idx, cmd_running := None\<rparr>
           in if rx_buf_idx c = CONSOLE_INVALID_BUF_IDX then c1\<lparr>rx_buf_idx := idx, rx_data_cnt := 0\<rparr>
              else c1\<lparr>free_buf_bitmap := (free_buf_bitmap c)[idx := True]\<rparr>))"

section \<open>Start and stop\<close>

text \<open>\<open>sem_ok\<close>, \<open>thread_ok\<close>: the kernel could create the semaphore, the thread. The answer is 0 or -1.\<close>

definition console_start :: "bool \<Rightarrow> bool \<Rightarrow> console_priv \<Rightarrow> int \<times> console_priv" where
  "console_start sem_ok thread_ok c =
     (if con_state c \<noteq> CONSOLE_STATE_STOP then (-1, c)
      else (let c1 = c\<lparr>con_state := CONSOLE_STATE_STOP,
                       free_buf_bitmap := (replicate CONSOLE_CMD_LINE_BUF_NUM True)[0 := False],
                       ready_buf_bitmap := replicate CONSOLE_CMD_LINE_BUF_NUM False,
                       last_cmd_buf_idx := CONSOLE_CMD_LINE_BUF_NUM - 1, rx_buf_idx := 0, rx_data_cnt := 0\<rparr>
            in case OS_SemaphoreCreate sem_ok 0 0xFFFFFFFF of
                 (ret, None) \<Rightarrow> (-1, c1)
               | (ret, Some sem) \<Rightarrow>
                   if \<not> thread_ok then (-1, c1\<lparr>cmd_sem := sem\<rparr>)
                   else (0, c1\<lparr>cmd_sem := sem, con_thread := True, rx_enabled := True, con_state := CONSOLE_STATE_START\<rparr>)))"

text \<open>console_stop up to the loop that waits for the thread, and after it.\<close>

definition console_stop_begin :: "console_priv \<Rightarrow> console_priv" where
  "console_stop_begin c =
     c\<lparr>rx_enabled := False, con_state := CONSOLE_STATE_TERMINATE, cmd_sem := snd (OS_SemaphoreRelease (cmd_sem c))\<rparr>"

definition console_stop_end :: "console_priv \<Rightarrow> console_priv" where
  "console_stop_end c = (if con_thread c then c else c\<lparr>con_state := CONSOLE_STATE_STOP\<rparr>)"

definition console_disable :: "console_priv \<Rightarrow> console_priv" where
  "console_disable c = (if con_state c = CONSOLE_STATE_START then c\<lparr>rx_enabled := False\<rparr> else c)"

definition console_enable :: "console_priv \<Rightarrow> console_priv" where
  "console_enable c = (if con_state c = CONSOLE_STATE_START then c\<lparr>rx_enabled := True\<rparr> else c)"

section \<open>Who owns the buffers\<close>

text \<open>
  Each buffer is free, ready, being filled or being executed; the order in which the thread looks at the
  buffers is the order in which they were filled.
\<close>

fun ctl :: "bool list \<Rightarrow> bool list \<Rightarrow> nat \<Rightarrow> nat \<Rightarrow> nat option \<Rightarrow> bool" where
  "ctl [f0, f1] [r0, r1] rx lst run =
     (rx \<le> 2 \<and> lst < 2 \<and> (run = None \<or> run = Some 0 \<or> run = Some 1) \<and>
      (if f0 then \<not> r0 \<and> rx \<noteq> 0 \<and> run \<noteq> Some 0 else if r0 then rx \<noteq> 0 \<and> run \<noteq> Some 0 else (rx = 0) = (run \<noteq> Some 0)) \<and>
      (if f1 then \<not> r1 \<and> rx \<noteq> 1 \<and> run \<noteq> Some 1 else if r1 then rx \<noteq> 1 \<and> run \<noteq> Some 1 else (rx = 1) = (run \<noteq> Some 1)) \<and>
      (rx = 0 \<and> run = None \<longrightarrow> (r1 \<longrightarrow> lst = 0) \<and> (f1 \<longrightarrow> lst = 1)) \<and>
      (rx = 1 \<and> run = None \<longrightarrow> (r0 \<longrightarrow> lst = 1) \<and> (f0 \<longrightarrow> lst = 0)) \<and>
      (rx = 2 \<longrightarrow> \<not> f0 \<and> \<not> f1))"
| "ctl _ _ rx lst run = False"

definition pending :: "bool list \<Rightarrow> nat \<Rightarrow> nat option \<Rightarrow> nat list" where
  "pending ready lst run =
     filter (\<lambda>i. ready ! i) (case run of None \<Rightarrow> [(lst + 1) mod 2, lst] | Some i \<Rightarrow> [(i + 1) mod 2])"

definition con_inv :: "console_priv \<Rightarrow> bool" where
  "con_inv c =
     (con_state c = CONSOLE_STATE_START \<and>
      ctl (free_buf_bitmap c) (ready_buf_bitmap c) (rx_buf_idx c) (last_cmd_buf_idx c) (cmd_running c) \<and>
      length (con_buf c) = 2 \<and> (\<forall>b\<in>set (con_buf c). length b = 256) \<and> rx_data_cnt c < 256 \<and>
      cmd_sem c = \<lparr>sem_count = length (pending (ready_buf_bitmap c) (last_cmd_buf_idx c) (cmd_running c)), sem_max = 0xFFFFFFFF\<rparr> \<and>
      cmd_lines c = cmd_log c @ map (\<lambda>i. c_string (con_buf c ! i))
        (pending (ready_buf_bitmap c) (last_cmd_buf_idx c) (cmd_running c)) \<and>
      (case cmd_running c of None \<Rightarrow> True
       | Some i \<Rightarrow> cmd_log c \<noteq> [] \<and> c_string (con_buf c ! i) = last (cmd_log c)))"

lemma ctl_lists:
  assumes "ctl f r rx lst run"
  obtains f0 f1 r0 r1 where "f = [f0, f1]" "r = [r0, r1]"
  using assms by (cases "(f, r, rx, lst, run)" rule: ctl.cases) auto

lemmas con_idx = CONSOLE_INVALID_BUF_IDX_def CONSOLE_CMD_LINE_BUF_NUM_def

lemma valid_idx:
  "console_get_valid_buf_idx [a, b] 0 = (if b then (1, [a, False]) else if a then (0, [False, b]) else (2, [a, b]))"
  "console_get_valid_buf_idx [a, b] (Suc 0) = (if a then (0, [False, b]) else if b then (1, [a, False]) else (2, [a, b]))"
  by (simp_all add: console_get_valid_buf_idx_def con_idx eval_nat_numeral Let_def)

lemma pending_simps:
  "pending [a, b] 0 None = (if b then [1] else []) @ (if a then [0] else [])"
  "pending [a, b] (Suc 0) None = (if a then [0] else []) @ (if b then [1] else [])"
  "pending [a, b] l (Some 0) = (if b then [1] else [])"
  "pending [a, b] l (Some (Suc 0)) = (if a then [0] else [])"
  by (simp_all add: pending_def)

lemma ctl_cases:
  assumes "ctl f r rx lst run"
  obtains f0 f1 r0 r1 where "f = [f0, f1]" "r = [r0, r1]" "rx = 0 \<or> rx = Suc 0 \<or> rx = 2" "lst = 0 \<or> lst = Suc 0"
    "run = None \<or> run = Some 0 \<or> run = Some (Suc 0)"
proof -
  obtain f0 f1 r0 r1 where l: "f = [f0, f1]" "r = [r0, r1]" by (rule ctl_lists [OF assms])
  have "rx = 0 \<or> rx = Suc 0 \<or> rx = 2" using assms l by auto
  moreover have "lst = 0 \<or> lst = Suc 0" using assms l by auto
  moreover have "run = None \<or> run = Some 0 \<or> run = Some (Suc 0)" using assms l by auto
  ultimately show ?thesis using l that by blast
qed

lemma ctl_rx_line:
  assumes "ctl f r rx lst run" "rx \<noteq> 2"
  shows "ctl (snd (console_get_valid_buf_idx f rx)) (r[rx := True]) (fst (console_get_valid_buf_idx f rx)) lst run \<and>
    pending (r[rx := True]) lst run = pending r lst run @ [rx]"
proof -
  obtain f0 f1 r0 r1 where l: "f = [f0, f1]" "r = [r0, r1]" "rx = 0 \<or> rx = Suc 0" "lst = 0 \<or> lst = Suc 0"
    "run = None \<or> run = Some 0 \<or> run = Some (Suc 0)"
    using assms by (elim ctl_cases) blast
  show ?thesis using l(3-5) assms(1) unfolding l(1,2)
    by (elim disjE; hypsubst; cases f0; cases f1; cases r0; cases r1) (simp_all add: valid_idx pending_simps)
qed

lemma ctl_begin:
  assumes "ctl f r rx lst None" "pending r lst None \<noteq> []"
  shows "fst (console_get_valid_buf_idx r lst) < 2 \<and>
    ctl f (snd (console_get_valid_buf_idx r lst)) rx lst (Some (fst (console_get_valid_buf_idx r lst))) \<and>
    pending r lst None = fst (console_get_valid_buf_idx r lst) #
      pending (snd (console_get_valid_buf_idx r lst)) lst (Some (fst (console_get_valid_buf_idx r lst)))"
proof -
  obtain f0 f1 r0 r1 where l: "f = [f0, f1]" "r = [r0, r1]" "rx = 0 \<or> rx = Suc 0 \<or> rx = 2" "lst = 0 \<or> lst = Suc 0"
    using assms by (elim ctl_cases) blast
  show ?thesis using l(3,4) assms unfolding l(1,2)
    by (elim disjE; hypsubst; cases f0; cases f1; cases r0; cases r1) (simp_all add: valid_idx pending_simps)
qed

lemma ctl_end:
  assumes "ctl f r rx lst (Some i)"
  shows "(if rx = 2 then ctl f r i i None else ctl (f[i := True]) r rx i None) \<and>
    pending r i None = pending r lst (Some i) \<and> i < 2"
proof -
  obtain f0 f1 r0 r1 where l: "f = [f0, f1]" "r = [r0, r1]" "rx = 0 \<or> rx = Suc 0 \<or> rx = 2" "i = 0 \<or> i = Suc 0"
    using assms by (elim ctl_cases) blast
  show ?thesis using l(3,4) assms unfolding l(1,2)
    by (elim disjE; hypsubst; cases f0; cases f1; cases r0; cases r1) (simp_all add: pending_simps)
qed

lemma ctl_facts:
  assumes "ctl f r rx lst run"
  shows "rx \<le> 2 \<and> lst < 2 \<and> rx \<notin> set (pending r lst run) \<and> set (pending r lst run) \<subseteq> {0, 1} \<and>
    length (pending r lst run) \<le> 2 \<and> length f = 2 \<and> length r = 2"
proof -
  obtain f0 f1 r0 r1 where l: "f = [f0, f1]" "r = [r0, r1]" "rx = 0 \<or> rx = Suc 0 \<or> rx = 2" "lst = 0 \<or> lst = Suc 0"
    "run = None \<or> run = Some 0 \<or> run = Some (Suc 0)"
    using assms by (elim ctl_cases) blast
  show ?thesis using l(3-5) assms(1) unfolding l(1,2)
    by (elim disjE; hypsubst; cases f0; cases f1; cases r0; cases r1) (simp_all add: pending_simps)
qed

section \<open>The callback keeps the invariant\<close>

lemma ctl_not_running:
  assumes "ctl f r rx lst (Some i)"
  shows "rx \<noteq> i"
proof -
  obtain f0 f1 r0 r1 where "f = [f0, f1]" "r = [r0, r1]" by (rule ctl_lists [OF assms])
  then show ?thesis using assms by (auto split: if_splits)
qed

lemma con_inv_store:
  assumes "con_inv c" "rx_buf_idx c \<noteq> 2" "cnt < 256"
  shows "\<exists>c'. rx_store cnt d c = Some c' \<and> con_inv c' \<and> rx_buf_idx c' = rx_buf_idx c"
proof -
  define rx where "rx = rx_buf_idx c"
  have ct: "ctl (free_buf_bitmap c) (ready_buf_bitmap c) rx (last_cmd_buf_idx c) (cmd_running c)"
    using assms(1) by (simp add: con_inv_def rx_def)
  have rx: "rx < 2" using ctl_facts [OF ct] assms(2) by (simp add: rx_def)
  define b where "b = (con_buf c ! rx)[cnt := d]"
  have len: "length (con_buf c) = 2" "length (con_buf c ! rx) = 256"
    using assms(1) rx by (auto simp: con_inv_def)
  have st: "rx_store cnt d c = Some (c\<lparr>con_buf := (con_buf c)[rx := b]\<rparr>)"
    using len rx assms(3) by (simp add: rx_store_def rx_def b_def)
  have pend: "map (\<lambda>i. c_string ((con_buf c)[rx := b] ! i)) (pending (ready_buf_bitmap c) (last_cmd_buf_idx c) (cmd_running c))
    = map (\<lambda>i. c_string (con_buf c ! i)) (pending (ready_buf_bitmap c) (last_cmd_buf_idx c) (cmd_running c))"
  proof (intro map_cong refl)
    fix i assume "i \<in> set (pending (ready_buf_bitmap c) (last_cmd_buf_idx c) (cmd_running c))"
    then have "i \<noteq> rx" using ctl_facts [OF ct] by blast
    then show "c_string ((con_buf c)[rx := b] ! i) = c_string (con_buf c ! i)" by simp
  qed
  have run: "(con_buf c)[rx := b] ! i = con_buf c ! i" if "cmd_running c = Some i" for i
    using ctl_not_running [of "free_buf_bitmap c" "ready_buf_bitmap c" rx "last_cmd_buf_idx c" i] ct that by simp
  have bl: "\<forall>x\<in>set ((con_buf c)[rx := b]). length x = 256"
    using assms(1) len set_update_subset_insert [of "con_buf c" rx b] by (auto simp: con_inv_def b_def)
  show ?thesis unfolding st
    using assms(1) ct pend run bl by (auto simp: con_inv_def rx_def [symmetric] split: option.splits)
qed

lemma con_inv_cmdline:
  assumes "con_inv c" "rx_buf_idx c \<noteq> 2"
  shows "con_inv (console_rx_cmdline c)"
proof -
  have ct: "ctl (free_buf_bitmap c) (ready_buf_bitmap c) (rx_buf_idx c) (last_cmd_buf_idx c) (cmd_running c)"
    using assms(1) by (simp add: con_inv_def)
  note l = ctl_rx_line [OF ct assms(2)] and f = ctl_facts [OF ct]
  show ?thesis
    using assms(1) l f by (auto simp: con_inv_def console_rx_cmdline_def OS_SemaphoreRelease_def
        split: prod.splits option.splits)
qed

lemma con_inv_frame [simp]:
  "con_inv (c\<lparr>g_console_rx_data := g\<rparr>) = con_inv c"
  "con_inv (c\<lparr>uart_rx := u\<rparr>) = con_inv c"
  "con_inv (c\<lparr>rx_enabled := e\<rparr>) = con_inv c"
  by (auto simp: con_inv_def cong: option.case_cong)

lemma con_inv_cnt: "con_inv c \<Longrightarrow> n < 256 \<Longrightarrow> con_inv (c\<lparr>rx_data_cnt := n\<rparr>)"
  by (simp add: con_inv_def cong: option.case_cong)

lemma con_inv_get: "con_inv (snd (console_get_rx_data c)) = con_inv c"
  by (simp add: console_get_rx_data_def)

lemma con_inv_after_cr: "con_inv (snd (after_cr d c)) = con_inv c"
  by (simp add: after_cr_def Let_def)

lemma rx_buf_idx_frame [simp]:
  "rx_buf_idx (snd (console_get_rx_data c)) = rx_buf_idx c"
  "rx_buf_idx (snd (after_cr d c)) = rx_buf_idx c"
  by (simp_all add: console_get_rx_data_def after_cr_def Let_def)

lemma rx_loop_inv:
  "con_inv c \<Longrightarrow> rx_buf_idx c \<noteq> 2 \<Longrightarrow> \<exists>c'. rx_loop cnt c = Some c' \<and> con_inv c'"
proof (induction cnt c rule: rx_loop.induct)
  case (1 cnt c)
  define d where "d = fst (console_get_rx_data c)"
  define c1 where "c1 = snd (console_get_rx_data c)"
  have c1: "con_inv c1" "rx_buf_idx c1 \<noteq> 2" using "1.prems" by (simp_all add: c1_def con_inv_get)
  consider (full) "cnt \<ge> 256" | (idle) "cnt < 256" "\<not> console_is_rx_ready c"
    | (eol) "cnt < 256" "console_is_rx_ready c" "d = 10 \<or> d = 13"
    | (char) "cnt < 256" "console_is_rx_ready c" "\<not> (d = 10 \<or> d = 13)" "isprint d"
    | (other) "cnt < 256" "console_is_rx_ready c" "\<not> (d = 10 \<or> d = 13)" "\<not> isprint d"
    by fastforce
  then show ?case
  proof cases
    case full
    then show ?thesis using "1.IH"(1) "1.prems" con_inv_cnt [of c 0]
      by (subst rx_loop.simps) (simp add: CONSOLE_CMD_LINE_MAX_LEN_def)
  next
    case idle
    then show ?thesis using "1.prems" con_inv_cnt [of c cnt]
      by (subst rx_loop.simps) (simp add: CONSOLE_CMD_LINE_MAX_LEN_def)
  next
    case eol
    have "con_inv (snd (after_cr d c1))" "rx_buf_idx (snd (after_cr d c1)) \<noteq> 2"
      using c1 by (simp_all add: con_inv_after_cr)
    then obtain c3 where c3: "rx_store cnt 0 (snd (after_cr d c1)) = Some c3" "con_inv c3" "rx_buf_idx c3 \<noteq> 2"
      using con_inv_store [of "snd (after_cr d c1)" cnt 0] eol(1) by auto
    have c4: "con_inv (console_rx_cmdline c3)" by (rule con_inv_cmdline [OF c3(2,3)])
    then have "con_inv (rx_discard (console_rx_cmdline c3))" by (simp add: rx_discard_def)
    then show ?thesis using eol c3(1) c4 "1.IH"(2) [of d c1 c3]
      by (subst rx_loop.simps)
        (simp add: CONSOLE_CMD_LINE_MAX_LEN_def con_idx Let_def flip: d_def c1_def)
  next
    case char
    obtain c2 where "rx_store cnt d c1 = Some c2" "con_inv c2" "rx_buf_idx c2 \<noteq> 2"
      using con_inv_store [OF c1 char(1), of d] c1(2) by auto
    then show ?thesis using char "1.IH"(3) [of d c1 c2]
      by (subst rx_loop.simps) (simp add: CONSOLE_CMD_LINE_MAX_LEN_def Let_def flip: d_def c1_def)
  next
    case other
    then show ?thesis using c1 con_inv_cnt [of c1 0] "1.IH"(4) [of d c1]
      by (subst rx_loop.simps) (simp add: CONSOLE_CMD_LINE_MAX_LEN_def Let_def flip: d_def c1_def)
  qed
qed

lemma callback_inv: "con_inv c \<Longrightarrow> \<exists>c'. console_rx_callback c = Some c' \<and> con_inv c'"
  using rx_loop_inv [of c "rx_data_cnt c"] by (auto simp: console_rx_callback_def con_idx rx_discard_def)

section \<open>Every reachable state\<close>

lemma task_begin_inv:
  assumes "con_inv c" "cmd_running c = None"
  shows "con_inv (console_task_begin c)"
proof (cases "pending (ready_buf_bitmap c) (last_cmd_buf_idx c) None = []")
  case True
  then show ?thesis using assms by (simp add: console_task_begin_def con_inv_def OS_SemaphoreWait_def)
next
  case False
  have "ctl (free_buf_bitmap c) (ready_buf_bitmap c) (rx_buf_idx c) (last_cmd_buf_idx c) None"
    using assms by (simp add: con_inv_def)
  note b = ctl_begin [OF this False]
  show ?thesis using assms b
    by (auto simp: console_task_begin_def con_inv_def OS_SemaphoreWait_def con_idx split: prod.splits)
qed

lemma task_end_inv:
  assumes "con_inv c"
  shows "con_inv (console_task_end c)"
proof (cases "cmd_running c")
  case None
  then show ?thesis using assms by (simp add: console_task_end_def)
next
  case (Some i)
  have "ctl (free_buf_bitmap c) (ready_buf_bitmap c) (rx_buf_idx c) (last_cmd_buf_idx c) (Some i)"
    using assms Some by (simp add: con_inv_def)
  note e = ctl_end [OF this]
  show ?thesis using assms Some e
    by (auto simp: console_task_end_def con_inv_def con_idx Let_def split: if_splits)
qed

text \<open>
  What happens while the console runs: bytes arrive, the receive interrupt comes, the thread starts and ends
  a command, another thread switches the interrupt off and on. \<open>bufs\<close>: what the static buffers hold.
\<close>

definition con_start_state :: "u8 list list \<Rightarrow> console_priv" where
  "con_start_state bufs =
     \<lparr>con_state = CONSOLE_STATE_STOP, free_buf_bitmap = [], ready_buf_bitmap = [], last_cmd_buf_idx = 0, rx_buf_idx = 0,
      rx_data_cnt = 0, con_buf = bufs, cmd_sem = \<lparr>sem_count = 0, sem_max = 0\<rparr>, rx_enabled = False, con_thread = False,
      g_console_rx_data = 0, uart_rx = [], cmd_running = None, cmd_log = [], cmd_lines = []\<rparr>"

inductive con_reach :: "console_priv \<Rightarrow> bool" where
  start: "length bufs = 2 \<Longrightarrow> \<forall>b\<in>set bufs. length b = 256 \<Longrightarrow>
    con_reach (snd (console_start True True (con_start_state bufs)))"
| bytes: "con_reach c \<Longrightarrow> con_reach (c\<lparr>uart_rx := uart_rx c @ bs\<rparr>)"
| irq: "con_reach c \<Longrightarrow> rx_enabled c \<Longrightarrow> console_rx_callback c = Some c' \<Longrightarrow> con_reach c'"
| beg: "con_reach c \<Longrightarrow> cmd_running c = None \<Longrightarrow> con_reach (console_task_begin c)"
| fin: "con_reach c \<Longrightarrow> con_reach (console_task_end c)"
| off: "con_reach c \<Longrightarrow> con_reach (console_disable c)"
| on: "con_reach c \<Longrightarrow> con_reach (console_enable c)"

lemma start_inv:
  assumes "length bufs = 2" "\<forall>b\<in>set bufs. length b = 256"
  shows "con_inv (snd (console_start True True (con_start_state bufs)))"
proof -
  have r: "(replicate 2 True)[0 := False] = [False, True]" "replicate 2 False = [False, False]" "(2::nat) - 1 = Suc 0"
    by (simp_all add: numeral_2_eq_2)
  show ?thesis
    using assms by (simp add: console_start_def con_start_state_def con_inv_def con_idx OS_SemaphoreCreate_def
        r pending_simps)
qed

lemma con_reach_inv: "con_reach c \<Longrightarrow> con_inv c"
proof (induction rule: con_reach.induct)
  case (irq c c')
  then show ?case using callback_inv by fastforce
qed (simp_all add: start_inv task_begin_inv task_end_inv console_disable_def console_enable_def)

section \<open>A whole line in one interrupt\<close>

definition line_ok :: "u8 list \<Rightarrow> bool" where
  "line_ok line = (length line < 256 \<and> (\<forall>d\<in>set line. isprint d))"

definition eol_ok :: "u8 list \<Rightarrow> bool" where
  "eol_ok eol = (eol = [10] \<or> eol = [13] \<or> eol = [13, 10])"

lemma isprint_not_eol: "isprint d \<Longrightarrow> d \<noteq> 10 \<and> d \<noteq> 13 \<and> d \<noteq> 0"
  by (auto simp: isprint_def)

definition filled :: "nat \<Rightarrow> u8 list \<Rightarrow> console_priv \<Rightarrow> console_priv" where
  "filled cnt line c =
     c\<lparr>con_buf := (con_buf c)[rx_buf_idx c := take cnt (con_buf c ! rx_buf_idx c) @ line @
          drop (cnt + length line) (con_buf c ! rx_buf_idx c)]\<rparr>"

lemma filled_simps [simp]:
  "rx_buf_idx (filled n l c) = rx_buf_idx c" "g_console_rx_data (filled n l c) = g_console_rx_data c"
  "uart_rx (filled n l c) = uart_rx c" "length (con_buf (filled n l c)) = length (con_buf c)"
  "filled n l (c\<lparr>uart_rx := u\<rparr>) = (filled n l c)\<lparr>uart_rx := u\<rparr>"
  by (simp_all add: filled_def)

lemma filled_nth:
  "rx_buf_idx c < length (con_buf c) \<Longrightarrow> con_buf (filled n l c) ! rx_buf_idx c =
     take n (con_buf c ! rx_buf_idx c) @ l @ drop (n + length l) (con_buf c ! rx_buf_idx c)"
  by (simp add: filled_def)

lemma filled_step:
  assumes "rx_buf_idx c < length (con_buf c)" "cnt < length (con_buf c ! rx_buf_idx c)"
  shows "rx_store cnt d c = Some (filled cnt [d] c)"
    "filled (Suc cnt) l (filled cnt [d] c) = filled cnt (d # l) c"
proof -
  define b where "b = con_buf c ! rx_buf_idx c"
  have u: "take cnt b @ d # drop (Suc cnt) b = b[cnt := d]"
    using assms(2) by (simp add: b_def upd_conv_take_nth_drop)
  show "rx_store cnt d c = Some (filled cnt [d] c)"
    using assms u by (simp add: rx_store_def filled_def flip: b_def)
  show "filled (Suc cnt) l (filled cnt [d] c) = filled cnt (d # l) c"
    using assms u by (simp add: filled_def take_Suc_conv_app_nth flip: b_def)
qed

lemma filled_none [simp]: "filled cnt [] c = c"
  by (simp add: filled_def)

lemma rx_loop_text:
  assumes "rx_buf_idx c < length (con_buf c)" "length (con_buf c ! rx_buf_idx c) = 256" "g_console_rx_data c < 0"
    "uart_rx c = line @ rest" "\<forall>d\<in>set line. isprint d" "cnt + length line \<le> 256"
  shows "rx_loop cnt c = rx_loop (cnt + length line) ((filled cnt line c)\<lparr>uart_rx := rest\<rparr>)"
  using assms
proof (induction line arbitrary: cnt c)
  case (Cons d line)
  have g: "console_get_rx_data c = (d, c\<lparr>uart_rx := line @ rest\<rparr>)" "console_is_rx_ready c"
    using Cons.prems(3,4) by (simp_all add: console_get_rx_data_def console_is_rx_ready_def)
  define c1 where "c1 = c\<lparr>uart_rx := line @ rest\<rparr>"
  have "rx_buf_idx c1 < length (con_buf c1)" "cnt < length (con_buf c1 ! rx_buf_idx c1)"
    using Cons.prems by (simp_all add: c1_def)
  note st = filled_step [OF this]
  have "rx_loop cnt c = rx_loop (Suc cnt) (filled cnt [d] c1)"
    using Cons.prems(5,6) g st(1) isprint_not_eol [of d]
    by (subst rx_loop.simps) (simp add: CONSOLE_CMD_LINE_MAX_LEN_def flip: c1_def)
  also have "\<dots> = rx_loop (Suc cnt + length line) ((filled (Suc cnt) line (filled cnt [d] c1))\<lparr>uart_rx := rest\<rparr>)"
    using Cons.prems by (intro Cons.IH) (auto simp: c1_def filled_nth)
  also have "filled (Suc cnt) line (filled cnt [d] c) = filled cnt (d # line) c"
    using Cons.prems by (intro filled_step(2)) simp_all
  then have "(filled (Suc cnt) line (filled cnt [d] c1))\<lparr>uart_rx := rest\<rparr> = (filled cnt (d # line) c)\<lparr>uart_rx := rest\<rparr>"
    by (simp add: c1_def)
  finally show ?case by simp
next
  case Nil
  then have "c\<lparr>uart_rx := rest\<rparr> = c" by (cases c) simp
  then show ?case by simp
qed

lemma rx_loop_eol:
  assumes "rx_buf_idx c < length (con_buf c)" "length (con_buf c ! rx_buf_idx c) = 256" "g_console_rx_data c < 0"
    "uart_rx c = eol" "eol_ok eol" "cnt < 256"
  shows "rx_loop cnt c = Some (console_rx_cmdline ((filled cnt [0] c)\<lparr>uart_rx := []\<rparr>))"
proof -
  have g: "console_is_rx_ready c" using assms(3-5) by (auto simp: console_is_rx_ready_def eol_ok_def)
  have d: "fst (console_get_rx_data c) = 10 \<or> fst (console_get_rx_data c) = 13"
    and a: "after_cr (fst (console_get_rx_data c)) (snd (console_get_rx_data c)) = (False, c\<lparr>uart_rx := []\<rparr>)"
    using assms(3-5) by (auto simp: console_get_rx_data_def after_cr_def eol_ok_def Let_def)
  have "rx_store cnt 0 (c\<lparr>uart_rx := []\<rparr>) = Some ((filled cnt [0] c)\<lparr>uart_rx := []\<rparr>)"
    using assms filled_step(1) [of "c\<lparr>uart_rx := []\<rparr>" cnt 0] by simp
  then show ?thesis using g d a assms(6) by (subst rx_loop.simps) (simp add: CONSOLE_CMD_LINE_MAX_LEN_def Let_def)
qed

lemma c_string_line: "\<forall>d\<in>set line. isprint d \<Longrightarrow> c_string (line @ 0 # rest) = line"
  using isprint_not_eol by (induction line) (auto simp: c_string_def)

text \<open>The byte that the static variable holds at the start is zero and drops nothing.\<close>

lemma rx_loop_first:
  assumes "g_console_rx_data c = 0"
  shows "rx_loop 0 c = rx_loop 0 (c\<lparr>g_console_rx_data := -1, rx_data_cnt := 0\<rparr>)"
  using assms
  by (subst rx_loop.simps) (simp add: CONSOLE_CMD_LINE_MAX_LEN_def console_is_rx_ready_def console_get_rx_data_def isprint_def Let_def)

definition con_ready :: "console_priv \<Rightarrow> bool" where
  "con_ready c = (con_inv c \<and> rx_buf_idx c \<noteq> 2 \<and> rx_data_cnt c = 0 \<and> uart_rx c = [] \<and>
     (g_console_rx_data c = 0 \<or> g_console_rx_data c = -1))"

lemma con_inv_rx:
  assumes "con_inv c" "rx_buf_idx c \<noteq> 2"
  shows "rx_buf_idx c < length (con_buf c)" "length (con_buf c ! rx_buf_idx c) = 256"
proof -
  have "ctl (free_buf_bitmap c) (ready_buf_bitmap c) (rx_buf_idx c) (last_cmd_buf_idx c) (cmd_running c)"
    using assms(1) by (simp add: con_inv_def)
  then have "rx_buf_idx c < 2" using ctl_facts assms(2) by fastforce
  then show "rx_buf_idx c < length (con_buf c)" "length (con_buf c ! rx_buf_idx c) = 256"
    using assms(1) by (auto simp: con_inv_def)
qed

definition line_read :: "u8 list \<Rightarrow> console_priv \<Rightarrow> console_priv" where
  "line_read line c =
     console_rx_cmdline ((filled (length line) [0] (filled 0 line (c\<lparr>g_console_rx_data := -1\<rparr>)))\<lparr>uart_rx := []\<rparr>)"

lemma rx_loop_line:
  assumes "con_ready c" "line_ok line" "eol_ok eol"
  shows "rx_loop 0 (c\<lparr>uart_rx := line @ eol, g_console_rx_data := -1\<rparr>) = Some (line_read line c)"
proof -
  define c0 where "c0 = c\<lparr>uart_rx := line @ eol, g_console_rx_data := -1\<rparr>"
  define c1 where "c1 = (filled 0 line c0)\<lparr>uart_rx := eol\<rparr>"
  have b: "rx_buf_idx c0 < length (con_buf c0)" "length (con_buf c0 ! rx_buf_idx c0) = 256"
    using assms(1) con_inv_rx [of c] by (auto simp: con_ready_def c0_def)
  have l: "length line < 256" "\<forall>d\<in>set line. isprint d" using assms(2) by (auto simp: line_ok_def)
  have "rx_loop 0 c0 = rx_loop (length line) c1"
    using rx_loop_text [OF b, of line eol 0] l by (simp add: c1_def) (simp add: c0_def)
  also have "\<dots> = Some (console_rx_cmdline ((filled (length line) [0] c1)\<lparr>uart_rx := []\<rparr>))"
  proof (rule rx_loop_eol [OF _ _ _ _ assms(3) l(1)])
    show "rx_buf_idx c1 < length (con_buf c1)" "length (con_buf c1 ! rx_buf_idx c1) = 256"
      using b l filled_nth [of c0 0 line] by (simp_all add: c1_def)
  qed (simp_all add: c1_def c0_def)
  also have "(filled (length line) [0] c1)\<lparr>uart_rx := []\<rparr> =
      (filled (length line) [0] (filled 0 line (c\<lparr>g_console_rx_data := -1\<rparr>)))\<lparr>uart_rx := []\<rparr>"
    by (simp add: c1_def c0_def filled_def)
  finally show ?thesis by (simp add: line_read_def c0_def)
qed

lemma callback_line:
  assumes "con_ready c" "line_ok line" "eol_ok eol"
  shows "console_rx_callback (c\<lparr>uart_rx := line @ eol\<rparr>) = Some (line_read line c)"
proof -
  have "rx_loop 0 (c\<lparr>uart_rx := line @ eol\<rparr>) = rx_loop 0 (c\<lparr>uart_rx := line @ eol, g_console_rx_data := -1\<rparr>)"
  proof (cases "g_console_rx_data c = 0")
    case True
    have "c\<lparr>uart_rx := line @ eol, g_console_rx_data := -1, rx_data_cnt := 0\<rparr> = c\<lparr>uart_rx := line @ eol, g_console_rx_data := -1\<rparr>"
      using assms(1) by (simp add: con_ready_def)
    then show ?thesis using rx_loop_first [of "c\<lparr>uart_rx := line @ eol\<rparr>"] True by simp
  next
    case False
    then have "g_console_rx_data c = -1" using assms(1) by (simp add: con_ready_def)
    then have "c\<lparr>uart_rx := line @ eol\<rparr> = c\<lparr>uart_rx := line @ eol, g_console_rx_data := -1\<rparr>" by (cases c) simp
    then show ?thesis by simp
  qed
  then show ?thesis using rx_loop_line [OF assms] assms(1) by (simp add: console_rx_callback_def con_ready_def con_idx)
qed

section \<open>Commands are executed as they are typed\<close>

lemma line_read_frame [simp]:
  "uart_rx (line_read line c) = []" "rx_data_cnt (line_read line c) = 0" "g_console_rx_data (line_read line c) = -1"
  "cmd_running (line_read line c) = cmd_running c" "cmd_log (line_read line c) = cmd_log c"
  "ready_buf_bitmap (line_read line c) = (ready_buf_bitmap c)[rx_buf_idx c := True]"
  "last_cmd_buf_idx (line_read line c) = last_cmd_buf_idx c"
  "rx_buf_idx (line_read line c) = fst (console_get_valid_buf_idx (free_buf_bitmap c) (rx_buf_idx c))"
  "rx_enabled (line_read line c) = rx_enabled c"
  by (simp_all add: line_read_def console_rx_cmdline_def filled_def split: prod.splits)

lemma line_read_lines:
  assumes "con_ready c" "line_ok line"
  shows "cmd_lines (line_read line c) = cmd_lines c @ [line]"
proof -
  define b where "b = con_buf c ! rx_buf_idx c"
  have r: "rx_buf_idx c < length (con_buf c)" "length b = 256"
    using assms(1) con_inv_rx [of c] by (auto simp: con_ready_def b_def)
  have l: "length line < 256" "\<forall>d\<in>set line. isprint d" using assms(2) by (auto simp: line_ok_def)
  define c1 where "c1 = filled (length line) [0] (filled 0 line (c\<lparr>g_console_rx_data := -1\<rparr>))"
  have "con_buf c1 ! rx_buf_idx c = line @ 0 # drop (Suc (length line)) b"
    using r l by (simp add: c1_def filled_def flip: b_def)
  then have "c_string (con_buf c1 ! rx_buf_idx c1) = line"
    using c_string_line [OF l(2)] by (simp add: c1_def)
  then show ?thesis
    by (simp add: line_read_def console_rx_cmdline_def split: prod.splits) (simp add: c1_def filled_def)
qed

lemma line_read_inv:
  assumes "con_ready c" "line_ok line"
  shows "con_inv (line_read line c)"
proof -
  have "con_inv (c\<lparr>uart_rx := line @ [10]\<rparr>)" using assms by (simp add: con_ready_def)
  then show ?thesis using callback_inv callback_line [OF assms, of "[10]"] by (fastforce simp: eol_ok_def)
qed

lemma line_read_pending:
  assumes "con_ready c"
  shows "pending (ready_buf_bitmap (line_read line c)) (last_cmd_buf_idx c) (cmd_running c) =
    pending (ready_buf_bitmap c) (last_cmd_buf_idx c) (cmd_running c) @ [rx_buf_idx c]"
proof -
  have "ctl (free_buf_bitmap c) (ready_buf_bitmap c) (rx_buf_idx c) (last_cmd_buf_idx c) (cmd_running c)"
    using assms by (simp add: con_ready_def con_inv_def)
  then show ?thesis using ctl_rx_line assms by (simp add: con_ready_def)
qed

text \<open>At rest: nothing is running and nothing waits.\<close>

definition con_rest :: "console_priv \<Rightarrow> bool" where
  "con_rest c = (con_ready c \<and> cmd_running c = None \<and> pending (ready_buf_bitmap c) (last_cmd_buf_idx c) None = [])"

lemma con_rest_log: "con_rest c \<Longrightarrow> cmd_log c = cmd_lines c"
  by (simp add: con_rest_def con_ready_def con_inv_def)

definition con_round :: "u8 list \<Rightarrow> console_priv \<Rightarrow> console_priv option" where
  "con_round bs c =
     map_option (\<lambda>c'. console_task_end (console_task_begin c')) (console_rx_callback (c\<lparr>uart_rx := uart_rx c @ bs\<rparr>))"

lemma thread_round:
  assumes "con_inv c" "cmd_running c = None" "pending (ready_buf_bitmap c) (last_cmd_buf_idx c) None = [i]"
    "rx_data_cnt c = 0" "uart_rx c = []" "g_console_rx_data c = -1"
  shows "con_rest (console_task_end (console_task_begin c))"
    "cmd_lines (console_task_end (console_task_begin c)) = cmd_lines c"
proof -
  define c1 where "c1 = console_task_begin c"
  have ct: "ctl (free_buf_bitmap c) (ready_buf_bitmap c) (rx_buf_idx c) (last_cmd_buf_idx c) None"
    using assms by (simp add: con_inv_def)
  have b: "cmd_running c1 = Some i" "pending (ready_buf_bitmap c1) (last_cmd_buf_idx c1) (Some i) = []"
    "rx_data_cnt c1 = 0" "uart_rx c1 = []" "g_console_rx_data c1 = -1" "cmd_lines c1 = cmd_lines c"
    using assms ctl_begin [OF ct]
    by (auto simp: c1_def console_task_begin_def con_inv_def OS_SemaphoreWait_def con_idx split: prod.splits)
  have i1: "con_inv c1" unfolding c1_def by (rule task_begin_inv [OF assms(1,2)])
  then have ct1: "ctl (free_buf_bitmap c1) (ready_buf_bitmap c1) (rx_buf_idx c1) (last_cmd_buf_idx c1) (Some i)"
    using b(1) by (simp add: con_inv_def)
  have i2: "con_inv (console_task_end c1)" by (rule task_end_inv [OF i1])
  show "con_rest (console_task_end (console_task_begin c))" unfolding c1_def [symmetric]
    using i2 b ctl_end [OF ct1]
    by (auto simp: con_rest_def con_ready_def console_task_end_def con_idx Let_def)
  show "cmd_lines (console_task_end (console_task_begin c)) = cmd_lines c" unfolding c1_def [symmetric]
    using b by (simp add: console_task_end_def Let_def)
qed

lemma round_executes:
  assumes "con_rest c" "line_ok line" "eol_ok eol"
  shows "\<exists>c'. con_round (line @ eol) c = Some c' \<and> con_rest c' \<and> cmd_log c' = cmd_log c @ [line]"
proof -
  have q: "con_ready c" "uart_rx c = []" "cmd_running c = None" using assms(1) by (auto simp: con_rest_def con_ready_def)
  define c1 where "c1 = line_read line c"
  have cb: "con_round (line @ eol) c = Some (console_task_end (console_task_begin c1))"
    using callback_line [OF q(1) assms(2,3)] q(2) by (simp add: con_round_def c1_def)
  have p: "pending (ready_buf_bitmap c1) (last_cmd_buf_idx c1) None = [rx_buf_idx c]"
    using line_read_pending [OF q(1), of line] assms(1) by (simp add: c1_def con_rest_def)
  have r: "con_rest (console_task_end (console_task_begin c1))"
    "cmd_lines (console_task_end (console_task_begin c1)) = cmd_lines c1"
    using p q(3) line_read_inv [OF q(1) assms(2)] by (auto intro!: thread_round simp: c1_def)
  have "cmd_log (console_task_end (console_task_begin c1)) = cmd_log c @ [line]"
    using con_rest_log [OF r(1)] con_rest_log [OF assms(1)] r(2) line_read_lines [OF q(1) assms(2)] by (simp add: c1_def)
  then show ?thesis using cb r(1) by blast
qed

fun con_rounds :: "u8 list list \<Rightarrow> console_priv \<Rightarrow> console_priv option" where
  "con_rounds [] c = Some c"
| "con_rounds (bs # bss) c = (case con_round bs c of None \<Rightarrow> None | Some c' \<Rightarrow> con_rounds bss c')"

lemma rounds_execute:
  assumes "con_rest c" "\<forall>(line, eol)\<in>set ls. line_ok line \<and> eol_ok eol"
  shows "\<exists>c'. con_rounds (map (\<lambda>(l, e). l @ e) ls) c = Some c' \<and> con_rest c' \<and> cmd_log c' = cmd_log c @ map fst ls"
  using assms
proof (induction ls arbitrary: c)
  case (Cons a ls)
  obtain l e where a: "a = (l, e)" by (cases a)
  obtain c1 where c1: "con_round (l @ e) c = Some c1" "con_rest c1" "cmd_log c1 = cmd_log c @ [l]"
    using round_executes [of c l e] Cons.prems a by auto
  obtain c2 where "con_rounds (map (\<lambda>(l, e). l @ e) ls) c1 = Some c2" "con_rest c2" "cmd_log c2 = cmd_log c1 @ map fst ls"
    using Cons.IH [OF c1(2)] Cons.prems by auto
  then show ?case using c1 a by simp
qed simp

lemma start_rest:
  assumes "length bufs = 2" "\<forall>b\<in>set bufs. length b = 256"
  shows "con_rest (snd (console_start True True (con_start_state bufs)))"
    "cmd_log (snd (console_start True True (con_start_state bufs))) = []"
proof -
  have r: "(replicate 2 True)[0 := False] = [False, True]" "replicate 2 False = [False, False]" "(2::nat) - 1 = Suc 0"
    by (simp_all add: numeral_2_eq_2)
  show "con_rest (snd (console_start True True (con_start_state bufs)))"
    using start_inv [OF assms]
    by (simp add: con_rest_def con_ready_def console_start_def con_start_state_def con_idx OS_SemaphoreCreate_def r pending_simps)
  show "cmd_log (snd (console_start True True (con_start_state bufs))) = []"
    by (simp add: console_start_def con_start_state_def OS_SemaphoreCreate_def)
qed

section \<open>What the typed text does\<close>

lemma free_buffer:
  assumes "con_rest c"
  shows "fst (console_get_valid_buf_idx (free_buf_bitmap c) (rx_buf_idx c)) \<noteq> 2"
proof -
  have ct: "ctl (free_buf_bitmap c) (ready_buf_bitmap c) (rx_buf_idx c) (last_cmd_buf_idx c) None"
    and p: "pending (ready_buf_bitmap c) (last_cmd_buf_idx c) None = []" and rx: "rx_buf_idx c \<noteq> 2"
    using assms by (auto simp: con_rest_def con_ready_def con_inv_def)
  obtain f0 f1 r0 r1 where l: "free_buf_bitmap c = [f0, f1]" "ready_buf_bitmap c = [r0, r1]"
    "rx_buf_idx c = 0 \<or> rx_buf_idx c = Suc 0" "last_cmd_buf_idx c = 0 \<or> last_cmd_buf_idx c = Suc 0"
    using ct rx by (elim ctl_cases) blast
  show ?thesis using l(3,4) ct p unfolding l(1,2)
    by (elim disjE; simp add: valid_idx pending_simps split: if_splits)
qed

lemma second_line_ready:
  assumes "con_rest c" "line_ok line"
  shows "con_ready (line_read line c)"
  using free_buffer [OF assms(1)] line_read_inv [of c line] assms by (simp add: con_ready_def con_rest_def)

lemma rx_loop_overlong:
  assumes "con_ready c" "length a = 256" "\<forall>d\<in>set a. isprint d"
  shows "\<exists>bufs. con_inv (c\<lparr>con_buf := bufs\<rparr>) \<and>
    rx_loop 0 (c\<lparr>uart_rx := a @ rest, g_console_rx_data := -1\<rparr>) =
    rx_loop 0 (c\<lparr>uart_rx := rest, g_console_rx_data := -1, con_buf := bufs\<rparr>)"
proof -
  define c0 where "c0 = c\<lparr>uart_rx := a @ rest, g_console_rx_data := -1\<rparr>"
  define c1 where "c1 = (filled 0 a c0)\<lparr>uart_rx := rest\<rparr>"
  have b: "rx_buf_idx c0 < length (con_buf c0)" "length (con_buf c0 ! rx_buf_idx c0) = 256"
    using assms(1) con_inv_rx [of c] by (auto simp: con_ready_def c0_def)
  have "rx_loop 0 c0 = rx_loop 256 c1"
    using rx_loop_text [OF b, of a rest 0] assms(2,3) by (simp add: c1_def) (simp add: c0_def)
  also have "\<dots> = rx_loop 0 (c1\<lparr>rx_data_cnt := 0\<rparr>)"
    by (subst rx_loop.simps) (simp add: CONSOLE_CMD_LINE_MAX_LEN_def)
  also have "c1\<lparr>rx_data_cnt := 0\<rparr> = c\<lparr>uart_rx := rest, g_console_rx_data := -1, con_buf := con_buf (filled 0 a c0)\<rparr>"
    using assms(1) by (simp add: c1_def c0_def filled_def con_ready_def)
  finally have e: "rx_loop 0 c0 = rx_loop 0 (c\<lparr>uart_rx := rest, g_console_rx_data := -1, con_buf := con_buf (filled 0 a c0)\<rparr>)" .
  have ct: "ctl (free_buf_bitmap c) (ready_buf_bitmap c) (rx_buf_idx c) (last_cmd_buf_idx c) (cmd_running c)"
    using assms(1) by (simp add: con_ready_def con_inv_def)
  define bufs where "bufs = con_buf (filled 0 a c0)"
  have bufs: "bufs = (con_buf c)[rx_buf_idx c := a]"
    using assms(2) b by (simp add: bufs_def filled_def c0_def)
  have "map (\<lambda>i. c_string (bufs ! i)) (pending (ready_buf_bitmap c) (last_cmd_buf_idx c) (cmd_running c))
    = map (\<lambda>i. c_string (con_buf c ! i)) (pending (ready_buf_bitmap c) (last_cmd_buf_idx c) (cmd_running c))"
  proof (intro map_cong refl)
    fix i assume "i \<in> set (pending (ready_buf_bitmap c) (last_cmd_buf_idx c) (cmd_running c))"
    then have "i \<noteq> rx_buf_idx c" using ctl_facts [OF ct] by blast
    then show "c_string (bufs ! i) = c_string (con_buf c ! i)" by (simp add: bufs)
  qed
  moreover have "bufs ! i = con_buf c ! i" if "cmd_running c = Some i" for i
    using ctl_not_running [of "free_buf_bitmap c" "ready_buf_bitmap c" "rx_buf_idx c" "last_cmd_buf_idx c" i] ct that
    by (simp add: bufs)
  moreover have "\<forall>x\<in>set bufs. length x = 256"
    using assms(1,2) set_update_subset_insert [of "con_buf c" "rx_buf_idx c" a] by (auto simp: con_ready_def con_inv_def bufs)
  ultimately have "con_inv (c\<lparr>con_buf := bufs\<rparr>)"
    using assms(1) ct by (auto simp: con_ready_def con_inv_def bufs split: option.splits)
  then show ?thesis using e by (auto simp: c0_def bufs_def)
qed

lemma rest_cut:
  assumes "con_rest c" "length a = 256" "\<forall>d\<in>set a. isprint d" "line_ok line" "eol_ok eol"
  shows "\<exists>c'. con_round (a @ line @ eol) c = Some c' \<and> con_rest c' \<and> cmd_log c' = cmd_log c @ [line]"
proof -
  have q: "con_ready c" "uart_rx c = []" using assms(1) by (auto simp: con_rest_def con_ready_def)
  obtain bufs where bufs: "con_inv (c\<lparr>con_buf := bufs\<rparr>)"
    "rx_loop 0 (c\<lparr>uart_rx := a @ line @ eol, g_console_rx_data := -1\<rparr>) =
     rx_loop 0 (c\<lparr>uart_rx := line @ eol, g_console_rx_data := -1, con_buf := bufs\<rparr>)"
    using rx_loop_overlong [OF q(1) assms(2,3), of "line @ eol"] by blast
  define c1 where "c1 = c\<lparr>con_buf := bufs, g_console_rx_data := -1\<rparr>"
  have r1: "con_rest c1" using assms(1) bufs(1) by (simp add: con_rest_def con_ready_def c1_def)
  have "rx_loop 0 (c\<lparr>uart_rx := a @ line @ eol\<rparr>) = rx_loop 0 (c\<lparr>uart_rx := a @ line @ eol, g_console_rx_data := -1\<rparr>)"
  proof (cases "g_console_rx_data c = 0")
    case True
    have "c\<lparr>uart_rx := a @ line @ eol, g_console_rx_data := -1, rx_data_cnt := 0\<rparr> =
      c\<lparr>uart_rx := a @ line @ eol, g_console_rx_data := -1\<rparr>"
      using q(1) by (simp add: con_ready_def)
    then show ?thesis using rx_loop_first [of "c\<lparr>uart_rx := a @ line @ eol\<rparr>"] True by simp
  next
    case False
    then have "g_console_rx_data c = -1" using q(1) by (simp add: con_ready_def)
    then have "c\<lparr>uart_rx := a @ line @ eol\<rparr> = c\<lparr>uart_rx := a @ line @ eol, g_console_rx_data := -1\<rparr>" by (cases c) simp
    then show ?thesis by simp
  qed
  moreover have "c\<lparr>uart_rx := line @ eol, g_console_rx_data := -1, con_buf := bufs\<rparr> = c1\<lparr>uart_rx := line @ eol\<rparr>"
    by (cases c) (simp add: c1_def)
  ultimately have "rx_loop 0 (c\<lparr>uart_rx := a @ line @ eol\<rparr>) = rx_loop 0 (c1\<lparr>uart_rx := line @ eol\<rparr>)"
    using bufs(2) by simp
  moreover have "rx_buf_idx c1 = rx_buf_idx c" "rx_data_cnt c1 = 0" "rx_data_cnt c = 0" "rx_buf_idx c \<noteq> 2"
    using q(1) by (simp_all add: c1_def con_ready_def)
  ultimately have "console_rx_callback (c\<lparr>uart_rx := a @ line @ eol\<rparr>) = console_rx_callback (c1\<lparr>uart_rx := line @ eol\<rparr>)"
    by (simp add: console_rx_callback_def con_idx)
  then have "con_round (a @ line @ eol) c = con_round (line @ eol) c1"
    using q(2) by (simp add: con_round_def) (simp add: c1_def)
  moreover have "cmd_log c1 = cmd_log c" by (simp add: c1_def)
  ultimately show ?thesis using round_executes [OF r1 assms(4,5)] by simp
qed

lemma split_crlf:
  assumes "con_rest c" "line_ok line"
  shows "\<exists>c1 c2. console_rx_callback (c\<lparr>uart_rx := line @ [13]\<rparr>) = Some c1 \<and>
    console_rx_callback (c1\<lparr>uart_rx := [10]\<rparr>) = Some c2 \<and> cmd_lines c2 = cmd_lines c @ [line, []]"
proof -
  have q: "con_ready c" using assms(1) by (simp add: con_rest_def)
  have l: "line_ok []" "eol_ok [13]" "eol_ok [10]" by (simp_all add: line_ok_def eol_ok_def)
  have r: "con_ready (line_read line c)" by (rule second_line_ready [OF assms])
  have "console_rx_callback ((line_read line c)\<lparr>uart_rx := [10]\<rparr>) = Some (line_read [] (line_read line c))"
    using callback_line [OF r l(1) l(3)] by simp
  then show ?thesis using callback_line [OF q assms(2) l(2)] line_read_lines [OF r l(1)] line_read_lines [OF q assms(2)]
    by simp
qed

section \<open>Properties\<close>

lemma reach_safe:
  assumes "con_reach c"
  shows "(\<exists>c'. console_rx_callback c = Some c') \<and>
    cmd_lines c = cmd_log c @ map (\<lambda>i. c_string (con_buf c ! i))
      (pending (ready_buf_bitmap c) (last_cmd_buf_idx c) (cmd_running c)) \<and>
    sem_count (cmd_sem c) = length (pending (ready_buf_bitmap c) (last_cmd_buf_idx c) (cmd_running c)) \<and>
    (\<forall>i. cmd_running c = Some i \<longrightarrow> rx_buf_idx c \<noteq> i \<and> c_string (con_buf c ! i) = last (cmd_log c))"
proof -
  have i: "con_inv c" by (rule con_reach_inv [OF assms])
  have "rx_buf_idx c \<noteq> j" if "cmd_running c = Some j" for j
    using i that ctl_not_running [of "free_buf_bitmap c" "ready_buf_bitmap c" "rx_buf_idx c" "last_cmd_buf_idx c" j]
    by (simp add: con_inv_def)
  then show ?thesis using i callback_inv [OF i] by (auto simp: con_inv_def split: option.splits)
qed

text \<open>C7: However the arrival of bytes, the receive interrupt, the thread's rounds and the switching of the
  interrupt interleave, the callback returns without a store outside the buffers, the complete lines are exactly
  the commands executed followed by those in the ready buffers, in their order, the semaphore counts the ready
  buffers, and the text of a command does not change while it is executed.\<close>

theorem console_safe:
  assumes "con_reach c"
  shows "(\<exists>c'. console_rx_callback c = Some c') \<and>
    cmd_lines c = cmd_log c @ map (\<lambda>i. c_string (con_buf c ! i))
      (pending (ready_buf_bitmap c) (last_cmd_buf_idx c) (cmd_running c)) \<and>
    sem_count (cmd_sem c) = length (pending (ready_buf_bitmap c) (last_cmd_buf_idx c) (cmd_running c)) \<and>
    (\<forall>i. cmd_running c = Some i \<longrightarrow> rx_buf_idx c \<noteq> i \<and> c_string (con_buf c ! i) = last (cmd_log c))"
  by (rule reach_safe [OF assms])

definition zero_bufs :: "u8 list list" where "zero_bufs = [replicate 256 0, replicate 256 0]"

lemma zero_bufs_ok: "length zero_bufs = 2" "\<forall>b\<in>set zero_bufs. length b = 256"
  by (simp_all add: zero_bufs_def)

theorem console_safe_witness:
  "\<exists>c'. console_rx_callback ((snd (console_start True True (con_start_state zero_bufs)))\<lparr>uart_rx := [104, 105, 10]\<rparr>) = Some c'"
proof -
  have "con_reach (snd (console_start True True (con_start_state zero_bufs)))"
    by (rule con_reach.start) (rule zero_bufs_ok)+
  moreover have "uart_rx (snd (console_start True True (con_start_state zero_bufs))) = []"
    by (simp add: console_start_def con_start_state_def OS_SemaphoreCreate_def)
  ultimately have "con_reach ((snd (console_start True True (con_start_state zero_bufs)))\<lparr>uart_rx := [104, 105, 10]\<rparr>)"
    using con_reach.bytes [of "snd (console_start True True (con_start_state zero_bufs))" "[104, 105, 10]"] by simp
  from console_safe [OF this] show ?thesis by blast
qed

text \<open>Printable lines of at most 255 characters, each ended by LF, CR or CR LF and each followed by a
  round of the thread, are executed exactly as they were typed, in order.\<close>

lemma console_commands:
  assumes "length bufs = 2" "\<forall>b\<in>set bufs. length b = 256"
    and "\<forall>(line, eol)\<in>set ls. line_ok line \<and> eol_ok eol"
  shows "\<exists>c'. con_rounds (map (\<lambda>(l, e). l @ e) ls) (snd (console_start True True (con_start_state bufs))) = Some c' \<and>
    cmd_log c' = map fst ls"
  using rounds_execute [OF start_rest(1) [OF assms(1,2)] assms(3)] start_rest(2) [OF assms(1,2)] by auto

lemma console_commands_witness:
  "\<exists>c'. con_rounds [[104, 105, 13, 10], [111, 107, 10]] (snd (console_start True True (con_start_state zero_bufs))) = Some c' \<and>
    cmd_log c' = [[104, 105], [111, 107]]"
  using console_commands [OF zero_bufs_ok, of "[([104, 105], [13, 10]), ([111, 107], [10])]"]
  by (simp add: line_ok_def eol_ok_def isprint_def)

text \<open>Of a longer line the first 256 characters are dropped and the rest is executed as a command of its own,
  and a CR LF that is split over two interrupts makes a second, empty command.\<close>

lemma console_line_limits:
  assumes "con_rest c" "line_ok line" "eol_ok eol" "length a = 256" "\<forall>d\<in>set a. isprint d"
  shows "(\<exists>c'. con_round (a @ line @ eol) c = Some c' \<and> cmd_log c' = cmd_log c @ [line]) \<and>
    (\<exists>c1 c2. console_rx_callback (c\<lparr>uart_rx := line @ [13]\<rparr>) = Some c1 \<and>
       console_rx_callback (c1\<lparr>uart_rx := [10]\<rparr>) = Some c2 \<and> cmd_lines c2 = cmd_lines c @ [line, []])"
  using rest_cut [OF assms(1,4,5,2,3)] split_crlf [OF assms(1,2)] by blast

lemma console_line_limits_witness:
  "\<exists>c'. con_round (replicate 256 97 @ [104, 105] @ [10]) (snd (console_start True True (con_start_state zero_bufs))) = Some c' \<and>
    cmd_log c' = [[104, 105]]"
  using console_line_limits [OF start_rest(1) [OF zero_bufs_ok], of "[104, 105]" "[10]" "replicate 256 97"]
    start_rest(2) [OF zero_bufs_ok]
  by (simp add: line_ok_def eol_ok_def isprint_def)

end
