(* ===== verification/Efuse.thy ===== *)
theory Efuse
  imports Prelude
begin

unbundle bit_operations_syntax

text \<open>
  The eFuse driver, src/driver/chip/hal_efuse.c, on the chip of architecture version 2: a matrix of fuses
  that is read and programmed in words of 32 bits, and the two functions that read and write any range of
  bits. The fuses are the hardware: a bit once burnt stays, and a bad fuse (\<open>ef_stuck\<close>) cannot be burnt.
  Data buffers of the caller are memory from a pointer, \<open>nat \<Rightarrow> u8\<close>, since the driver copies whole words
  from it, also behind the end of a short buffer.
\<close>

section \<open>The fuses\<close>

datatype EFUSE_State = EFUSE_STATE_INVALID | EFUSE_STATE_READY | EFUSE_STATE_BUSY

datatype HAL_Status = HAL_OK | HAL_ERROR | HAL_BUSY | HAL_TIMEOUT | HAL_INVALID

text \<open>\<open>ef_hosc_ok\<close>: the clock is one of the two that the driver has timing parameters for.\<close>

record efuse =
  ef_bit :: "nat \<Rightarrow> bool"
  ef_stuck :: "nat \<Rightarrow> bool"
  gEfuseState :: EFUSE_State
  ef_hosc_ok :: bool

definition HAL_EFUSE_BIT_NUM :: nat where "HAL_EFUSE_BIT_NUM = 1024"

definition EFUSE_Init :: "efuse \<Rightarrow> HAL_Status" where
  "EFUSE_Init e = (if ef_hosc_ok e then HAL_OK else HAL_ERROR)"

definition EFUSE_ReadData :: "nat \<Rightarrow> efuse \<Rightarrow> u32" where
  "EFUSE_ReadData index e = horner_sum of_bool 2 (map (\<lambda>i. ef_bit e (32 * index + i)) [0..<32])"

definition EFUSE_WriteData :: "nat \<Rightarrow> u32 \<Rightarrow> efuse \<Rightarrow> efuse" where
  "EFUSE_WriteData index w e =
     e\<lparr>ef_bit := \<lambda>b. ef_bit e b \<or> (b div 32 = index \<and> bit w (b mod 32) \<and> \<not> ef_stuck e b)\<rparr>"

section \<open>Reading a range of bits\<close>

text \<open>The loop over the words: every word gets its low bits from itself and its high bits from the next.\<close>

fun shift_words :: "nat \<Rightarrow> u32 list \<Rightarrow> u32 list" where
  "shift_words s (w # v # ws) = (drop_bit s w OR push_bit (32 - s) v) # shift_words s (v # ws)"
| "shift_words s [w] = [drop_bit s w]"
| "shift_words s [] = []"

text \<open>The bytes of a word in memory, least significant first.\<close>

definition bytes_of :: "u32 list \<Rightarrow> u8 list" where
  "bytes_of ws = map (\<lambda>k. ucast (drop_bit (8 * (k mod 4)) (ws ! (k div 4)))) [0..<4 * length ws]"

text \<open>The guard at the start of both functions, and the test of the driver's state.\<close>

definition bad_range :: "nat \<Rightarrow> nat \<Rightarrow> bool" where
  "bad_range start_bit bit_num =
     (start_bit \<ge> HAL_EFUSE_BIT_NUM \<or> bit_num = 0 \<or> bit_num > HAL_EFUSE_BIT_NUM \<or>
      start_bit + bit_num > HAL_EFUSE_BIT_NUM)"

definition efuse_acquire :: "efuse \<Rightarrow> HAL_Status" where
  "efuse_acquire e =
     (case gEfuseState e of
        EFUSE_STATE_INVALID \<Rightarrow> EFUSE_Init e
      | EFUSE_STATE_READY \<Rightarrow> HAL_OK
      | EFUSE_STATE_BUSY \<Rightarrow> HAL_BUSY)"

text \<open>The answer has the bytes copied to the caller's buffer when the status is \<open>HAL_OK\<close>.\<close>

definition HAL_EFUSE_Read :: "nat \<Rightarrow> nat \<Rightarrow> efuse \<Rightarrow> HAL_Status \<times> u8 list \<times> efuse" where
  "HAL_EFUSE_Read start_bit bit_num e =
     (if bad_range start_bit bit_num then (HAL_ERROR, [], e)
      else if efuse_acquire e \<noteq> HAL_OK then (efuse_acquire e, [], e)
      else (let start_word = start_bit div 32; word_shift = start_bit mod 32;
                word_cnt = (start_bit + bit_num) div 32 - start_word + 1;
                sid_data = shift_words word_shift (map (\<lambda>i. EFUSE_ReadData (start_word + i) e) [0..<word_cnt])
            in (HAL_OK, take ((bit_num + 7) div 8) (bytes_of sid_data), e\<lparr>gEfuseState := EFUSE_STATE_READY\<rparr>)))"

section \<open>Writing a range of bits\<close>

text \<open>HAL_Memcpy from the caller's buffer to a 32-bit and to a 64-bit variable.\<close>

definition le32 :: "(nat \<Rightarrow> u8) \<Rightarrow> nat \<Rightarrow> u32" where
  "le32 p k = horner_sum of_bool 2 (map (\<lambda>i. bit (p (k + i div 8)) (i mod 8)) [0..<32])"

definition le64 :: "(nat \<Rightarrow> u8) \<Rightarrow> nat \<Rightarrow> 64 word" where
  "le64 p k = horner_sum of_bool 2 (map (\<lambda>i. bit (p (k + i div 8)) (i mod 8)) [0..<64])"

text \<open>The bits behind the last one that is written are cleared.\<close>

definition keep_bits :: "nat \<Rightarrow> u32 \<Rightarrow> u32" where
  "keep_bits bit_cnt w = (if bit_cnt < 32 then w AND (push_bit bit_cnt 1 - 1) else w)"

function write_words :: "nat \<Rightarrow> nat \<Rightarrow> nat \<Rightarrow> nat \<Rightarrow> (nat \<Rightarrow> u8) \<Rightarrow> efuse \<Rightarrow> efuse" where
  "write_words bit_cnt word_idx k bit_shift p e =
     (if bit_cnt = 0 then e
      else (let buf = push_bit bit_shift (le64 p k); w = keep_bits bit_cnt (ucast (drop_bit 32 buf))
            in write_words (bit_cnt - min bit_cnt 32) (word_idx + 1) (k + 4) bit_shift p (EFUSE_WriteData word_idx w e)))"
  by pat_completeness auto
termination by (relation "measure (\<lambda>(n, _). n)") auto

declare write_words.simps [simp del]

definition HAL_EFUSE_Write :: "nat \<Rightarrow> nat \<Rightarrow> (nat \<Rightarrow> u8) \<Rightarrow> efuse \<Rightarrow> HAL_Status \<times> efuse" where
  "HAL_EFUSE_Write start_bit bit_num p e =
     (if bad_range start_bit bit_num then (HAL_ERROR, e)
      else if efuse_acquire e \<noteq> HAL_OK then (efuse_acquire e, e)
      else (let bit_shift = start_bit mod 32; word_idx = start_bit div 32;
                w = push_bit bit_shift (keep_bits bit_num (le32 p 0));
                e1 = EFUSE_WriteData word_idx w e;
                bit_cnt = bit_num - min bit_num (32 - bit_shift)
            in (HAL_OK, (write_words bit_cnt (word_idx + 1) 0 bit_shift p e1)\<lparr>gEfuseState := EFUSE_STATE_READY\<rparr>)))"

section \<open>Which bits are read\<close>

lemma bit_ReadData: "bit (EFUSE_ReadData index e) i = (i < 32 \<and> ef_bit e (32 * index + i))"
  by (auto simp: EFUSE_ReadData_def bit_horner_sum_bit_word_iff)

lemma length_shift_words [simp]: "length (shift_words s ws) = length ws"
  by (induction s ws rule: shift_words.induct) auto

lemma bit_shift_words:
  "k < length ws \<Longrightarrow> s < 32 \<Longrightarrow> i < 32 \<Longrightarrow>
   bit (shift_words s ws ! k) i =
     (if i + s < 32 then bit (ws ! k) (i + s) else Suc k < length ws \<and> bit (ws ! Suc k) (i + s - 32))"
proof (induction s ws arbitrary: k rule: shift_words.induct)
  case (1 s w v ws)
  show ?case
  proof (cases k)
    case 0
    have "bit v (i - (32 - s)) = bit v (i + s - 32)" if "32 \<le> i + s" using that "1.prems" by (simp add: algebra_simps)
    moreover have "\<not> bit w (i + s)" if "32 \<le> i + s" using that bit_imp_le_length [of w "i + s"] by auto
    ultimately show ?thesis using 0 "1.prems"
      by (auto simp: bit_or_iff bit_drop_bit_eq bit_push_bit_iff add.commute)
  next
    case (Suc m)
    then show ?thesis using "1.IH" [of m] "1.prems" by simp
  qed
next
  case (2 s w)
  have "\<not> bit w (i + s)" if "32 \<le> i + s" using that bit_imp_le_length [of w "i + s"] by auto
  then show ?case using "2.prems" by (auto simp: bit_drop_bit_eq add.commute)
qed simp

lemma length_bytes_of [simp]: "length (bytes_of ws) = 4 * length ws"
  by (simp add: bytes_of_def)

lemma bit_bytes_of:
  "j < 4 * length ws \<Longrightarrow> i < 8 \<Longrightarrow> bit (bytes_of ws ! j) i = bit (ws ! (j div 4)) (8 * (j mod 4) + i)"
  by (simp add: bytes_of_def bit_ucast_iff bit_drop_bit_eq)

text \<open>
  Bit by bit: byte \<open>j\<close> of the answer holds the fuses from \<open>start_bit + 8 * j\<close>. The last byte is not cut
  off after \<open>bit_num\<close> bits: it also holds the fuses behind them, up to the end of the last word read.
\<close>

definition fuse_byte :: "nat \<Rightarrow> nat \<Rightarrow> efuse \<Rightarrow> nat \<Rightarrow> u8" where
  "fuse_byte start_bit bit_num e j =
     horner_sum of_bool 2 (map (\<lambda>i. ef_bit e (start_bit + 8 * j + i) \<and>
       start_bit + 8 * j + i < 32 * ((start_bit + bit_num) div 32 + 1)) [0..<8])"

definition fuse_bytes :: "nat \<Rightarrow> nat \<Rightarrow> efuse \<Rightarrow> u8 list" where
  "fuse_bytes start_bit bit_num e = map (fuse_byte start_bit bit_num e) [0..<(bit_num + 7) div 8]"

lemma bit_fuse_byte:
  "bit (fuse_byte s n e j) i =
     (i < 8 \<and> ef_bit e (s + 8 * j + i) \<and> s + 8 * j + i < 32 * ((s + n) div 32 + 1))"
  by (auto simp: fuse_byte_def bit_horner_sum_bit_word_iff)

lemma read_words:
  assumes "k < (s + n) div 32 - s div 32 + 1" "i < 32"
  shows "bit (shift_words (s mod 32) (map (\<lambda>i. EFUSE_ReadData (s div 32 + i) e)
      [0..<(s + n) div 32 - s div 32 + 1]) ! k) i =
    (ef_bit e (s + 32 * k + i) \<and> s + 32 * k + i < 32 * ((s + n) div 32 + 1))"
proof -
  define W where "W = (s + n) div 32 - s div 32 + 1"
  define q r where "q = s div 32" and "r = s mod 32"
  have s: "s = 32 * q + r" "r < 32" by (simp_all add: q_def r_def)
  have W: "(s + n) div 32 + 1 = q + W" using div_le_mono [of s "s + n" 32] by (simp add: W_def q_def)
  define ws where "ws = map (\<lambda>i. EFUSE_ReadData (q + i) e) [0..<W]"
  have len: "length ws = W" by (simp add: ws_def)
  have nth: "ws ! m = EFUSE_ReadData (q + m) e" if "m < W" for m using that by (simp add: ws_def)
  have kW: "k < W" using assms(1) by (simp add: W_def)
  have "bit (shift_words r ws ! k) i =
      (if i + r < 32 then bit (ws ! k) (i + r) else Suc k < length ws \<and> bit (ws ! Suc k) (i + r - 32))"
    using kW len s(2) assms(2) by (intro bit_shift_words) auto
  also have "\<dots> = (ef_bit e (s + 32 * k + i) \<and> s + 32 * k + i < 32 * (q + W))"
  proof (cases "i + r < 32")
    case True
    have e: "32 * (q + k) + (i + r) = s + 32 * k + i" using s(1) by simp
    have "bit (ws ! k) (i + r) = ef_bit e (s + 32 * k + i)"
      unfolding nth [OF kW] bit_ReadData e using True by simp
    moreover have "s + 32 * k + i < 32 * (q + W)" using True s(1) Suc_leI [OF kW] by simp
    ultimately show ?thesis using True by simp
  next
    case False
    have e: "32 * (q + Suc k) + (i + r - 32) = s + 32 * k + i" using s(1) False by simp
    have "bit (ws ! Suc k) (i + r - 32) = ef_bit e (s + 32 * k + i)" if "Suc k < W"
    proof -
      have "i + r - 32 < 32" using s(2) assms(2) by linarith
      then show ?thesis unfolding nth [OF that] bit_ReadData e by simp
    qed
    moreover have "(s + 32 * k + i < 32 * (q + W)) = (Suc k < W)"
      using False s assms(2) by (cases "Suc k < W") auto
    ultimately show ?thesis using False len by auto
  qed
  finally show ?thesis unfolding W ws_def W_def q_def r_def .
qed

lemma split32:
  fixes b :: nat
  obtains q r where "b = 32 * q + r" "r < 32" "b div 32 = q" "b mod 32 = r"
  using that [of "b div 32" "b mod 32"] by simp

lemma bytes_fit: "n < 32 * M \<Longrightarrow> (n + 7) div 8 \<le> 4 * M" for M :: nat
  by presburger

lemma read_range:
  assumes "\<not> bad_range s n" "efuse_acquire e = HAL_OK"
  shows "HAL_EFUSE_Read s n e = (HAL_OK, fuse_bytes s n e, e\<lparr>gEfuseState := EFUSE_STATE_READY\<rparr>)"
proof -
  define ws where "ws = map (\<lambda>i. EFUSE_ReadData (s div 32 + i) e) [0..<(s + n) div 32 - s div 32 + 1]"
  have fits: "(n + 7) div 8 \<le> 4 * length ws"
  proof -
    define q r where "q = s div 32" and "r = s mod 32"
    have s: "s = 32 * q + r" by (simp add: q_def r_def)
    define m where "m = (s + n) div 32"
    have "s + n < 32 * m + 32" unfolding m_def by (rule split32 [of "s + n"]) linarith
    moreover have "q \<le> m" unfolding m_def q_def by (simp add: div_le_mono)
    ultimately have "n < 32 * (m - q + 1)" using s by simp
    then have "(n + 7) div 8 \<le> 4 * (m - q + 1)" by (rule bytes_fit)
    then show ?thesis by (simp add: ws_def m_def q_def)
  qed
  have "take ((n + 7) div 8) (bytes_of (shift_words (s mod 32) ws)) = fuse_bytes s n e"
  proof (rule nth_equalityI)
    fix j assume "j < length (take ((n + 7) div 8) (bytes_of (shift_words (s mod 32) ws)))"
    then have j: "j < (n + 7) div 8" "j < 4 * length ws" using fits by auto
    have "bit (bytes_of (shift_words (s mod 32) ws) ! j) i = bit (fuse_byte s n e j) i" if "i < 8" for i
    proof -
      have "j div 4 < length ws" using j(2) by presburger
      moreover have "8 * (j mod 4) + i < 32" using that mod_less_divisor [of 4 j] by linarith
      moreover have e: "s + 32 * (j div 4) + (8 * (j mod 4) + i) = s + 8 * j + i" by presburger
      ultimately have "bit (shift_words (s mod 32) ws ! (j div 4)) (8 * (j mod 4) + i) =
        (ef_bit e (s + 8 * j + i) \<and> s + 8 * j + i < 32 * ((s + n) div 32 + 1))"
        using read_words [of "j div 4" s n "8 * (j mod 4) + i" e] unfolding e ws_def length_map length_upt by simp
      then show ?thesis using that j(2) by (simp only: bit_bytes_of length_shift_words bit_fuse_byte simp_thms)
    qed
    then have "bytes_of (shift_words (s mod 32) ws) ! j = fuse_byte s n e j"
      by (intro bit_word_eqI) simp
    then show "take ((n + 7) div 8) (bytes_of (shift_words (s mod 32) ws)) ! j = fuse_bytes s n e ! j"
      using j by (simp add: fuse_bytes_def)
  qed (use fits in \<open>simp add: fuse_bytes_def\<close>)
  then show ?thesis using assms by (simp add: HAL_EFUSE_Read_def Let_def ws_def)
qed

section \<open>Which bits are written\<close>

lemma bit_le32: "bit (le32 p k) i = (i < 32 \<and> bit (p (k + i div 8)) (i mod 8))"
  by (auto simp: le32_def bit_horner_sum_bit_word_iff)

lemma bit_le64: "bit (le64 p k) i = (i < 64 \<and> bit (p (k + i div 8)) (i mod 8))"
  by (auto simp: le64_def bit_horner_sum_bit_word_iff)

lemma bit_keep_bits: "bit (keep_bits n w) i = (bit w i \<and> i < n)"
proof (cases "n < 32")
  case True
  have "push_bit n 1 - 1 = (mask n :: u32)" by (simp add: mask_eq_exp_minus_1 push_bit_eq_mult)
  then show ?thesis using True by (auto simp: keep_bits_def bit_and_iff bit_mask_iff)
next
  case False
  then show ?thesis using bit_imp_le_length [of w i] by (auto simp: keep_bits_def)
qed

text \<open>Bit \<open>b\<close> of the caller's data.\<close>

definition data_bit :: "(nat \<Rightarrow> u8) \<Rightarrow> nat \<Rightarrow> bool" where
  "data_bit p b = bit (p (b div 8)) (b mod 8)"

lemma ef_bit_WriteData:
  "ef_bit (EFUSE_WriteData index w e) b =
     (ef_bit e b \<or> (b div 32 = index \<and> bit w (b mod 32) \<and> \<not> ef_stuck e b))"
  by (simp add: EFUSE_WriteData_def)

lemma write_word_value:
  assumes "bit_shift < 32" "k mod 4 = 0" "i < 32"
  shows "bit (keep_bits n (ucast (drop_bit 32 (push_bit bit_shift (le64 p k))))) i =
    (i < n \<and> data_bit p (8 * k + 32 + i - bit_shift))"
proof -
  define m where "m = i + 32 - bit_shift"
  have m: "i + 32 = m + bit_shift" "m < 64" using assms(1,3) by (simp_all add: m_def)
  have "(8 * k + m) div 8 = k + m div 8" "(8 * k + m) mod 8 = m mod 8" by simp_all
  then have "bit (le64 p k) m = data_bit p (8 * k + m)" using m(2) by (simp add: bit_le64 data_bit_def)
  moreover have "8 * k + 32 + i - bit_shift = 8 * k + m" using assms(1) by (simp add: m_def)
  moreover have "bit (push_bit bit_shift (le64 p k)) (i + 32) = bit (le64 p k) m"
    using m assms(3) by (simp add: bit_push_bit_iff)
  ultimately show ?thesis using assms(3) by (auto simp: bit_keep_bits bit_ucast_iff bit_drop_bit_eq add.commute)
qed

lemma ef_bit_write_words:
  assumes "bit_shift < 32" "k mod 4 = 0"
  shows "ef_bit (write_words bit_cnt word_idx k bit_shift p e) b =
    (ef_bit e b \<or> (32 * word_idx \<le> b \<and> b < 32 * word_idx + bit_cnt \<and>
       data_bit p (8 * k + 32 + (b - 32 * word_idx) - bit_shift) \<and> \<not> ef_stuck e b))
   \<and> ef_stuck (write_words bit_cnt word_idx k bit_shift p e) = ef_stuck e
   \<and> ef_hosc_ok (write_words bit_cnt word_idx k bit_shift p e) = ef_hosc_ok e"
  using assms
proof (induction bit_cnt word_idx k bit_shift p e rule: write_words.induct)
  case (1 bit_cnt word_idx k bit_shift p e)
  show ?case
  proof (cases "bit_cnt = 0")
    case True
    then show ?thesis by (auto simp: write_words.simps)
  next
    case False
    define w where "w = keep_bits bit_cnt (ucast (drop_bit 32 (push_bit bit_shift (le64 p k))))"
    define e1 where "e1 = EFUSE_WriteData word_idx w e"
    have step: "write_words bit_cnt word_idx k bit_shift p e =
        write_words (bit_cnt - min bit_cnt 32) (word_idx + 1) (k + 4) bit_shift p e1"
      using False by (subst write_words.simps) (simp add: w_def e1_def Let_def)
    have IH: "ef_bit (write_words (bit_cnt - min bit_cnt 32) (word_idx + 1) (k + 4) bit_shift p e1) b =
      (ef_bit e1 b \<or> (32 * (word_idx + 1) \<le> b \<and> b < 32 * (word_idx + 1) + (bit_cnt - min bit_cnt 32) \<and>
         data_bit p (8 * (k + 4) + 32 + (b - 32 * (word_idx + 1)) - bit_shift) \<and> \<not> ef_stuck e1 b)) \<and>
      ef_stuck (write_words (bit_cnt - min bit_cnt 32) (word_idx + 1) (k + 4) bit_shift p e1) = ef_stuck e1 \<and>
      ef_hosc_ok (write_words (bit_cnt - min bit_cnt 32) (word_idx + 1) (k + 4) bit_shift p e1) = ef_hosc_ok e1"
      using "1.IH" [of "push_bit bit_shift (le64 p k)" w] False "1.prems" by (simp add: w_def e1_def)
    have fr: "ef_stuck e1 = ef_stuck e" "ef_hosc_ok e1 = ef_hosc_ok e" by (simp_all add: e1_def EFUSE_WriteData_def)
    have first: "ef_bit e1 b = (ef_bit e b \<or> (b div 32 = word_idx \<and> b mod 32 < bit_cnt \<and>
        data_bit p (8 * k + 32 + b mod 32 - bit_shift) \<and> \<not> ef_stuck e b))"
      using write_word_value [OF "1.prems", of "b mod 32" bit_cnt p] by (auto simp: e1_def w_def ef_bit_WriteData)
    obtain q r where b: "b = 32 * q + r" "r < 32" "b div 32 = q" "b mod 32 = r" by (rule split32)
    consider (below) "q < word_idx" | (inside) "q = word_idx" | (above) "word_idx < q" by linarith
    then have "ef_bit (write_words (bit_cnt - min bit_cnt 32) (word_idx + 1) (k + 4) bit_shift p e1) b =
      (ef_bit e b \<or> (32 * word_idx \<le> b \<and> b < 32 * word_idx + bit_cnt \<and>
        data_bit p (8 * k + 32 + (b - 32 * word_idx) - bit_shift) \<and> \<not> ef_stuck e b))"
    proof cases
      case below
      then have "Suc q \<le> word_idx" by simp
      then have "\<not> 32 * (word_idx + 1) \<le> b" "\<not> 32 * word_idx \<le> b" using b(1,2) by auto
      then show ?thesis using IH first below b(3) by simp
    next
      case inside
      then have "32 * word_idx \<le> b" "b - 32 * word_idx = r" "\<not> 32 * (word_idx + 1) \<le> b"
        "(b < 32 * word_idx + bit_cnt) = (r < bit_cnt)" using b(1,2) by auto
      then show ?thesis using IH first inside b(3,4) by simp
    next
      case above
      then have "Suc word_idx \<le> q" by simp
      then have "(b < 32 * (word_idx + 1) + (bit_cnt - min bit_cnt 32)) = (b < 32 * word_idx + bit_cnt)"
        "8 * (k + 4) + 32 + (b - 32 * (word_idx + 1)) = 8 * k + 32 + (b - 32 * word_idx)"
        "32 * word_idx \<le> b" "32 * (word_idx + 1) \<le> b" using b(1,2) by auto
      then show ?thesis using IH first above b(3) fr by simp
    qed
    then show ?thesis using step IH fr by simp
  qed
qed

text \<open>The driver's write is: burn the bits of the range that the data has, apart from the bad fuses.\<close>

definition burn :: "nat \<Rightarrow> nat \<Rightarrow> (nat \<Rightarrow> u8) \<Rightarrow> efuse \<Rightarrow> efuse" where
  "burn s n p e = e\<lparr>ef_bit := \<lambda>b. ef_bit e b \<or> (s \<le> b \<and> b < s + n \<and> data_bit p (b - s) \<and> \<not> ef_stuck e b),
     gEfuseState := EFUSE_STATE_READY\<rparr>"

lemma write_range:
  assumes "\<not> bad_range s n" "efuse_acquire e = HAL_OK"
  shows "HAL_EFUSE_Write s n p e = (HAL_OK, burn s n p e)"
proof -
  obtain q r where s: "s = 32 * q + r" "r < 32" "s div 32 = q" "s mod 32 = r" by (rule split32)
  define w where "w = push_bit r (keep_bits n (le32 p 0))"
  define e1 where "e1 = EFUSE_WriteData q w e"
  define e2 where "e2 = write_words (n - min n (32 - r)) (q + 1) 0 r p e1"
  have wr: "HAL_EFUSE_Write s n p e = (HAL_OK, e2\<lparr>gEfuseState := EFUSE_STATE_READY\<rparr>)"
    using assms by (simp add: HAL_EFUSE_Write_def Let_def s(3,4) w_def e1_def e2_def)
  have fr: "ef_stuck e1 = ef_stuck e" "ef_hosc_ok e1 = ef_hosc_ok e" by (simp_all add: e1_def EFUSE_WriteData_def)
  have bits: "ef_bit e2 b = ef_bit (burn s n p e) b" for b
  proof -
    obtain x y where b: "b = 32 * x + y" "y < 32" "b div 32 = x" "b mod 32 = y" by (rule split32)
    have w: "bit w y = (r \<le> y \<and> y - r < n \<and> data_bit p (y - r))"
      using b(2) by (auto simp: w_def bit_push_bit_iff bit_keep_bits bit_le32 data_bit_def)
    have first: "ef_bit e1 b = (ef_bit e b \<or> (x = q \<and> r \<le> y \<and> y - r < n \<and> data_bit p (y - r) \<and> \<not> ef_stuck e b))"
      using w b(3,4) by (simp add: e1_def ef_bit_WriteData)
    have rest: "ef_bit e2 b = (ef_bit e1 b \<or> (32 * (q + 1) \<le> b \<and> b < 32 * (q + 1) + (n - min n (32 - r)) \<and>
        data_bit p (32 + (b - 32 * (q + 1)) - r) \<and> \<not> ef_stuck e b))"
      using ef_bit_write_words [of r 0 "n - min n (32 - r)" "q + 1" p e1 b] s(2) fr by (simp add: e2_def)
    consider (below) "x < q" | (inside) "x = q" | (above) "q < x" by linarith
    then show ?thesis
    proof cases
      case below
      then have "Suc x \<le> q" by simp
      then have "\<not> 32 * (q + 1) \<le> b" "\<not> s \<le> b" using b(1,2) s(1) by auto
      then show ?thesis using first rest below by (simp add: burn_def)
    next
      case inside
      then have "\<not> 32 * (q + 1) \<le> b" "(s \<le> b) = (r \<le> y)" "(b < s + n) = (y < r + n)" "b - s = y - r"
        using b(1,2) s(1) by auto
      moreover have "(y - r < n) = (y < r + n)" if "r \<le> y" using that by linarith
      ultimately show ?thesis using first rest inside by (auto simp: burn_def)
    next
      case above
      then have "Suc q \<le> x" by simp
      then have "32 * (q + 1) \<le> b" "(b < 32 * (q + 1) + (n - min n (32 - r))) = (b < s + n)"
        "32 + (b - 32 * (q + 1)) - r = b - s" "s \<le> b" using b(1,2) s(1,2) by auto
      then show ?thesis using first rest above by (simp add: burn_def)
    qed
  qed
  have "ef_stuck e2 = ef_stuck e" "ef_hosc_ok e2 = ef_hosc_ok e"
    using ef_bit_write_words [of r 0 "n - min n (32 - r)" "q + 1" p e1] s(2) fr by (simp_all add: e2_def)
  moreover have "ef_bit e2 = ef_bit (burn s n p e)" using bits by (rule ext)
  ultimately have "e2\<lparr>gEfuseState := EFUSE_STATE_READY\<rparr> = burn s n p e" by (simp add: burn_def)
  then show ?thesis using wr by simp
qed

lemma acquire_frame [simp]:
  "efuse_acquire (burn s n p e) = HAL_OK" "efuse_acquire (e\<lparr>gEfuseState := EFUSE_STATE_READY\<rparr>) = HAL_OK"
  "ef_stuck (burn s n p e) = ef_stuck e" "gEfuseState (burn s n p e) = EFUSE_STATE_READY"
  "fuse_bytes a b (e\<lparr>gEfuseState := st\<rparr>) = fuse_bytes a b e"
  by (simp_all add: burn_def efuse_acquire_def fuse_bytes_def fuse_byte_def)

section \<open>Properties\<close>


end
