(* ===== verification/Efpg.thy ===== *)
theory Efpg
  imports Efuse
begin

text \<open>
  The fields on the eFuse, src/efpg/efpg_efuse.c and the two reading functions of efpg.c: oscillator type, hash
  of the boot loader with the correction of up to two bad fuses, MAC address in three slots, chip id, and the
  user area. The functions answer with an acknowledge code, and the reading ones with the bytes read.
\<close>

section \<open>Codes and positions\<close>

definition EFPG_ACK_OK :: u16 where "EFPG_ACK_OK = 200"
definition EFPG_ACK_RW_ERR :: u16 where "EFPG_ACK_RW_ERR = 403"
definition EFPG_ACK_DI_ERR :: u16 where "EFPG_ACK_DI_ERR = 404"
definition EFPG_ACK_NODATA_ERR :: u16 where "EFPG_ACK_NODATA_ERR = 405"

lemmas ack_defs = EFPG_ACK_OK_def EFPG_ACK_RW_ERR_def EFPG_ACK_DI_ERR_def EFPG_ACK_NODATA_ERR_def

definition EFPG_HOSC_TYPE_START :: nat where "EFPG_HOSC_TYPE_START = 242"
definition EFPG_HOSC_TYPE_NUM :: nat where "EFPG_HOSC_TYPE_NUM = 4"
definition EFPG_BOOT_FLAG_START :: nat where "EFPG_BOOT_FLAG_START = 246"
definition EFPG_BOOT_FLAG_NUM :: nat where "EFPG_BOOT_FLAG_NUM = 2"
definition EFPG_BOOT_1ST_EN_START :: nat where "EFPG_BOOT_1ST_EN_START = 248"
definition EFPG_BOOT_1ST_EN_NUM :: nat where "EFPG_BOOT_1ST_EN_NUM = 1"
definition EFPG_BOOT_1ST_NO_START :: nat where "EFPG_BOOT_1ST_NO_START = 249"
definition EFPG_BOOT_1ST_NO_NUM :: nat where "EFPG_BOOT_1ST_NO_NUM = 8"
definition EFPG_BOOT_2ND_EN_START :: nat where "EFPG_BOOT_2ND_EN_START = 257"
definition EFPG_BOOT_2ND_EN_NUM :: nat where "EFPG_BOOT_2ND_EN_NUM = 1"
definition EFPG_BOOT_2ND_NO_START :: nat where "EFPG_BOOT_2ND_NO_START = 258"
definition EFPG_BOOT_2ND_NO_NUM :: nat where "EFPG_BOOT_2ND_NO_NUM = 8"
definition EFPG_BOOT_HASH_START :: nat where "EFPG_BOOT_HASH_START = 266"
definition EFPG_BOOT_HASH_NUM :: nat where "EFPG_BOOT_HASH_NUM = 256"
definition EFPG_MAC_FLAG_START :: nat where "EFPG_MAC_FLAG_START = 522"
definition EFPG_MAC_FLAG_NUM :: nat where "EFPG_MAC_FLAG_NUM = 6"
definition EFPG_MAC_ADDR_START :: nat where "EFPG_MAC_ADDR_START = 528"
definition EFPG_MAC_ADDR_NUM :: nat where "EFPG_MAC_ADDR_NUM = 48"
definition EFPG_CHIPID_1ST_START :: nat where "EFPG_CHIPID_1ST_START = 114"
definition EFPG_CHIPID_1ST_NUM :: nat where "EFPG_CHIPID_1ST_NUM = 128"
definition EFPG_USER_AREA_START :: nat where "EFPG_USER_AREA_START = 672"
definition EFPG_USER_AREA_NUM :: nat where "EFPG_USER_AREA_NUM = 352"

lemmas efpg_pos =
  EFPG_HOSC_TYPE_START_def EFPG_HOSC_TYPE_NUM_def EFPG_BOOT_FLAG_START_def EFPG_BOOT_FLAG_NUM_def
  EFPG_BOOT_1ST_EN_START_def EFPG_BOOT_1ST_EN_NUM_def EFPG_BOOT_1ST_NO_START_def EFPG_BOOT_1ST_NO_NUM_def
  EFPG_BOOT_2ND_EN_START_def EFPG_BOOT_2ND_EN_NUM_def EFPG_BOOT_2ND_NO_START_def EFPG_BOOT_2ND_NO_NUM_def
  EFPG_BOOT_HASH_START_def EFPG_BOOT_HASH_NUM_def EFPG_MAC_FLAG_START_def EFPG_MAC_FLAG_NUM_def
  EFPG_MAC_ADDR_START_def EFPG_MAC_ADDR_NUM_def EFPG_CHIPID_1ST_START_def EFPG_CHIPID_1ST_NUM_def
  EFPG_USER_AREA_START_def EFPG_USER_AREA_NUM_def

datatype efpg_field = EFPG_FIELD_HOSC | EFPG_FIELD_BOOT | EFPG_FIELD_MAC | EFPG_FIELD_CHIPID | EFPG_FIELD_UA | EFPG_FIELD_NUM

section \<open>Access\<close>

text \<open>Memory with a buffer at its start; what is behind the buffer does not matter.\<close>

definition mem_at :: "u8 list \<Rightarrow> nat \<Rightarrow> u8" where
  "mem_at bs k = (if k < length bs then bs ! k else 0)"

text \<open>A write followed by reading the range back: nothing when either fails.\<close>

definition write_read :: "nat \<Rightarrow> nat \<Rightarrow> u8 list \<Rightarrow> efuse \<Rightarrow> u8 list option \<times> efuse" where
  "write_read s n bs e =
     (case HAL_EFUSE_Write s n (mem_at bs) e of
        (st, e1) \<Rightarrow>
          if st \<noteq> HAL_OK then (None, e1)
          else (case HAL_EFUSE_Read s n e1 of
                  (st2, buf, e2) \<Rightarrow> if st2 \<noteq> HAL_OK then (None, e2) else (Some buf, e2)))"

section \<open>Regions with slots\<close>

record efpg_region_info =
  flag_start :: nat
  flag_bits :: nat
  data_start :: nat
  data_bits :: nat

definition EFPG_REGION_ATOMIC_FLAG_MASK :: u32 where "EFPG_REGION_ATOMIC_FLAG_MASK = 3"
definition EFPG_REGION_ATOMIC_FLAG_BITS :: nat where "EFPG_REGION_ATOMIC_FLAG_BITS = 2"

lemmas region_defs = EFPG_REGION_ATOMIC_FLAG_MASK_def EFPG_REGION_ATOMIC_FLAG_BITS_def

text \<open>efpg_bit_cmp, whose result is only compared to 0: do the first \<open>n\<close> bits differ?\<close>

definition efpg_bit_cmp :: "u8 list \<Rightarrow> u8 list \<Rightarrow> nat \<Rightarrow> bool" where
  "efpg_bit_cmp b1 b2 n =
     (take (n div 8) b1 \<noteq> take (n div 8) b2 \<or>
      (n mod 8 > 0 \<and> b1 ! (n div 8) AND (push_bit (n mod 8) 1 - 1) \<noteq> b2 ! (n div 8) AND (push_bit (n mod 8) 1 - 1)))"

text \<open>The search of the first slot whose flag is set; the flag is not 0 when it is called.\<close>

function first_flag :: "u32 \<Rightarrow> nat" where
  "first_flag flag =
     (if flag = 0 then 0
      else if flag AND EFPG_REGION_ATOMIC_FLAG_MASK = 0 then Suc (first_flag (drop_bit EFPG_REGION_ATOMIC_FLAG_BITS flag))
      else 0)"
  by pat_completeness auto
termination
proof (relation "measure unat")
  fix flag :: u32
  assume "flag \<noteq> 0"
  then have "0 < unat flag" by (simp add: unat_gt_0)
  then show "(drop_bit EFPG_REGION_ATOMIC_FLAG_BITS flag, flag) \<in> measure unat"
    by (simp add: region_defs drop_bit_eq_div unat_div)
qed simp

declare first_flag.simps [simp del]

definition efpg_read_region :: "efpg_region_info \<Rightarrow> efuse \<Rightarrow> u16 \<times> u8 list \<times> efuse" where
  "efpg_read_region info e =
     (case HAL_EFUSE_Read (flag_start info) (flag_bits info) e of
        (st, fb, e1) \<Rightarrow>
          if st \<noteq> HAL_OK then (EFPG_ACK_RW_ERR, [], e1)
          else (let flag = le32 (mem_at fb) 0
                in if flag = 0 then (EFPG_ACK_NODATA_ERR, [], e1)
                   else (case HAL_EFUSE_Read (data_start info + first_flag flag * data_bits info) (data_bits info) e1 of
                           (st2, bs, e2) \<Rightarrow>
                             if st2 \<noteq> HAL_OK then (EFPG_ACK_RW_ERR, [], e2) else (EFPG_ACK_OK, bs, e2))))"

text \<open>The slots whose flag is not set, counted from the first; \<open>n\<close> slots are left to look at.\<close>

fun skip_flags :: "nat \<Rightarrow> u32 \<Rightarrow> nat \<Rightarrow> nat" where
  "skip_flags (Suc n) flag idx =
     (if flag AND EFPG_REGION_ATOMIC_FLAG_MASK = 0
      then skip_flags n (drop_bit EFPG_REGION_ATOMIC_FLAG_BITS flag) (Suc idx) else idx)"
| "skip_flags 0 flag idx = idx"

text \<open>The loop over the free slots, from the last one down.\<close>

fun write_slots :: "efpg_region_info \<Rightarrow> u8 list \<Rightarrow> nat \<Rightarrow> efuse \<Rightarrow> u16 \<times> efuse" where
  "write_slots info data 0 e = (EFPG_ACK_DI_ERR, e)"
| "write_slots info data (Suc idx) e =
     (case write_read (flag_start info + idx * EFPG_REGION_ATOMIC_FLAG_BITS) EFPG_REGION_ATOMIC_FLAG_BITS [3] e of
        (None, e1) \<Rightarrow> (EFPG_ACK_RW_ERR, e1)
      | (Some tmp, e1) \<Rightarrow>
          if hd tmp = 0 then write_slots info data idx e1
          else (case write_read (data_start info + idx * data_bits info) (data_bits info) data e1 of
                  (None, e2) \<Rightarrow> (EFPG_ACK_RW_ERR, e2)
                | (Some buf, e2) \<Rightarrow>
                    if efpg_bit_cmp data buf (data_bits info) then write_slots info data idx e2 else (EFPG_ACK_OK, e2)))"

definition efpg_write_region :: "efpg_region_info \<Rightarrow> u8 list \<Rightarrow> efuse \<Rightarrow> u16 \<times> efuse" where
  "efpg_write_region info data e =
     (case HAL_EFUSE_Read (flag_start info) (flag_bits info) e of
        (st, fb, e1) \<Rightarrow>
          if st \<noteq> HAL_OK then (EFPG_ACK_RW_ERR, e1)
          else write_slots info data
            (skip_flags (flag_bits info div EFPG_REGION_ATOMIC_FLAG_BITS) (le32 (mem_at fb) 0) 0) e1)"

definition mac_info :: efpg_region_info where
  "mac_info = \<lparr>flag_start = EFPG_MAC_FLAG_START, flag_bits = EFPG_MAC_FLAG_NUM,
     data_start = EFPG_MAC_ADDR_START, data_bits = EFPG_MAC_ADDR_NUM\<rparr>"

definition efpg_read_mac :: "efuse \<Rightarrow> u16 \<times> u8 list \<times> efuse" where
  "efpg_read_mac e = efpg_read_region mac_info e"

definition efpg_write_mac :: "u8 list \<Rightarrow> efuse \<Rightarrow> u16 \<times> efuse" where
  "efpg_write_mac data e = efpg_write_region mac_info data e"

section \<open>The hash of the boot loader\<close>

text \<open>The bit positions the comparison looks at: equal bytes are skipped.\<close>

definition hash_positions :: "u8 list \<Rightarrow> u8 list \<Rightarrow> nat list" where
  "hash_positions data buf =
     concat (map (\<lambda>byte. if data ! byte = buf ! byte then [] else map (\<lambda>b. 8 * byte + b) [0..<8]) [0..<32])"

text \<open>Number of wrong bits, and the first and second one; nothing when there are three.\<close>

fun hash_cmp_bits :: "nat list \<Rightarrow> u8 list \<Rightarrow> u8 list \<Rightarrow> nat \<times> u8 \<times> u8 \<Rightarrow> (nat \<times> u8 \<times> u8) option" where
  "hash_cmp_bits [] data buf r = Some r"
| "hash_cmp_bits (i # is) data buf (cnt, no1, no2) =
     (if bit (data ! (i div 8)) (i mod 8) = bit (buf ! (i div 8)) (i mod 8) then hash_cmp_bits is data buf (cnt, no1, no2)
      else if cnt = 0 then hash_cmp_bits is data buf (1, of_nat i, no2)
      else if cnt = 1 then hash_cmp_bits is data buf (2, no1, of_nat i)
      else None)"

definition EFPG_BOOT_BUF_LEN :: nat where "EFPG_BOOT_BUF_LEN = 32"

definition efpg_boot_hash_cmp :: "u8 list \<Rightarrow> u8 list \<Rightarrow> (nat \<times> u8 \<times> u8) option" where
  "efpg_boot_hash_cmp data buf =
     (if take EFPG_BOOT_BUF_LEN data = take EFPG_BOOT_BUF_LEN buf then Some (0, 0, 0) else hash_cmp_bits (hash_positions data buf) data buf (0, 0, 0))"

text \<open>The enable bit and the number of one wrong bit.\<close>

definition write_error_bit :: "nat \<Rightarrow> nat \<Rightarrow> nat \<Rightarrow> nat \<Rightarrow> u8 \<Rightarrow> efuse \<Rightarrow> u16 \<times> efuse" where
  "write_error_bit en_start en_num no_start no_num no e =
     (case write_read en_start en_num [1] e of
        (None, e1) \<Rightarrow> (EFPG_ACK_RW_ERR, e1)
      | (Some tmp, e1) \<Rightarrow>
          if hd tmp \<noteq> 1 then (EFPG_ACK_DI_ERR, e1)
          else (case write_read no_start no_num [no] e1 of
                  (None, e2) \<Rightarrow> (EFPG_ACK_RW_ERR, e2)
                | (Some tmp2, e2) \<Rightarrow> if no \<noteq> hd tmp2 then (EFPG_ACK_DI_ERR, e2) else (EFPG_ACK_OK, e2)))"

definition write_boot_flag :: "efuse \<Rightarrow> u16 \<times> efuse" where
  "write_boot_flag e =
     (case write_read EFPG_BOOT_FLAG_START EFPG_BOOT_FLAG_NUM [3] e of
        (None, e1) \<Rightarrow> (EFPG_ACK_RW_ERR, e1)
      | (Some tmp, e1) \<Rightarrow> if hd tmp = 0 then (EFPG_ACK_DI_ERR, e1) else (EFPG_ACK_OK, e1))"

definition efpg_write_boot :: "u8 list \<Rightarrow> efuse \<Rightarrow> u16 \<times> efuse" where
  "efpg_write_boot data e =
     (case write_read EFPG_BOOT_HASH_START EFPG_BOOT_HASH_NUM data e of
        (None, e1) \<Rightarrow> (EFPG_ACK_RW_ERR, e1)
      | (Some buf, e1) \<Rightarrow>
          (case efpg_boot_hash_cmp data buf of
             None \<Rightarrow> (EFPG_ACK_DI_ERR, e1)
           | Some (err_cnt, no1, no2) \<Rightarrow>
               if err_cnt = 0 then write_boot_flag e1
               else (case write_error_bit EFPG_BOOT_1ST_EN_START EFPG_BOOT_1ST_EN_NUM EFPG_BOOT_1ST_NO_START
                            EFPG_BOOT_1ST_NO_NUM no1 e1 of
                       (ack, e2) \<Rightarrow>
                         if ack \<noteq> EFPG_ACK_OK then (ack, e2)
                         else if err_cnt \<noteq> 2 then write_boot_flag e2
                         else (case write_error_bit EFPG_BOOT_2ND_EN_START EFPG_BOOT_2ND_EN_NUM EFPG_BOOT_2ND_NO_START
                                      EFPG_BOOT_2ND_NO_NUM no2 e2 of
                                 (ack2, e3) \<Rightarrow> if ack2 \<noteq> EFPG_ACK_OK then (ack2, e3) else write_boot_flag e3))))"

definition flip_bit_at :: "u8 list \<Rightarrow> u8 \<Rightarrow> u8 list" where
  "flip_bit_at data no =
     (let byte_cnt = unat (drop_bit 3 no); bit_cnt = unat (no AND 7)
      in data[byte_cnt := data ! byte_cnt XOR push_bit bit_cnt 1])"

text \<open>A read whose bytes the caller goes on with.\<close>

definition read_then :: "nat \<Rightarrow> nat \<Rightarrow> efuse \<Rightarrow> (u8 list \<Rightarrow> efuse \<Rightarrow> u16 \<times> u8 list \<times> efuse) \<Rightarrow> u16 \<times> u8 list \<times> efuse" where
  "read_then s n e f =
     (case HAL_EFUSE_Read s n e of
        (st, bs, e1) \<Rightarrow> if st \<noteq> HAL_OK then (EFPG_ACK_RW_ERR, [], e1) else f bs e1)"

definition efpg_read_boot :: "efuse \<Rightarrow> u16 \<times> u8 list \<times> efuse" where
  "efpg_read_boot e =
     read_then EFPG_BOOT_FLAG_START EFPG_BOOT_FLAG_NUM e (\<lambda>tmp e.
       if hd tmp = 0 then (EFPG_ACK_NODATA_ERR, [], e)
       else read_then EFPG_BOOT_HASH_START EFPG_BOOT_HASH_NUM e (\<lambda>data e.
         read_then EFPG_BOOT_1ST_EN_START EFPG_BOOT_1ST_EN_NUM e (\<lambda>tmp e.
           if hd tmp = 0 then (EFPG_ACK_OK, data, e)
           else read_then EFPG_BOOT_1ST_NO_START EFPG_BOOT_1ST_NO_NUM e (\<lambda>tmp e.
             (let data = flip_bit_at data (hd tmp)
              in read_then EFPG_BOOT_2ND_EN_START EFPG_BOOT_2ND_EN_NUM e (\<lambda>tmp e.
                   if hd tmp = 0 then (EFPG_ACK_OK, data, e)
                   else read_then EFPG_BOOT_2ND_NO_START EFPG_BOOT_2ND_NO_NUM e (\<lambda>tmp e.
                     (EFPG_ACK_OK, flip_bit_at data (hd tmp), e))))))))"

section \<open>The other fields\<close>

definition efpg_read_hosc :: "efuse \<Rightarrow> u16 \<times> u8 list \<times> efuse" where
  "efpg_read_hosc e = read_then EFPG_HOSC_TYPE_START EFPG_HOSC_TYPE_NUM e (\<lambda>bs e. (EFPG_ACK_OK, bs, e))"

definition efpg_write_hosc :: "u8 list \<Rightarrow> efuse \<Rightarrow> u16 \<times> efuse" where
  "efpg_write_hosc data e =
     (case write_read EFPG_HOSC_TYPE_START EFPG_HOSC_TYPE_NUM data e of
        (None, e1) \<Rightarrow> (EFPG_ACK_RW_ERR, e1)
      | (Some buf, e1) \<Rightarrow> if hd data \<noteq> hd buf then (EFPG_ACK_DI_ERR, e1) else (EFPG_ACK_OK, e1))"

definition efpg_read_chipid :: "efuse \<Rightarrow> u16 \<times> u8 list \<times> efuse" where
  "efpg_read_chipid e = read_then EFPG_CHIPID_1ST_START EFPG_CHIPID_1ST_NUM e (\<lambda>bs e. (EFPG_ACK_OK, bs, e))"

definition efpg_write_chipid :: "u8 list \<Rightarrow> efuse \<Rightarrow> u16 \<times> efuse" where
  "efpg_write_chipid data e =
     (case write_read EFPG_CHIPID_1ST_START EFPG_CHIPID_1ST_NUM data e of
        (None, e1) \<Rightarrow> (EFPG_ACK_RW_ERR, e1)
      | (Some buf, e1) \<Rightarrow> if take 16 data = take 16 buf then (EFPG_ACK_OK, e1) else (EFPG_ACK_DI_ERR, e1))"

definition bad_user_range :: "nat \<Rightarrow> nat \<Rightarrow> bool" where
  "bad_user_range start num =
     (start \<ge> EFPG_USER_AREA_NUM \<or> num = 0 \<or> num > EFPG_USER_AREA_NUM \<or> start + num > EFPG_USER_AREA_NUM)"

definition efpg_read_user_area :: "nat \<Rightarrow> nat \<Rightarrow> efuse \<Rightarrow> u16 \<times> u8 list \<times> efuse" where
  "efpg_read_user_area start num e =
     (if bad_user_range start num then (EFPG_ACK_RW_ERR, [], e)
      else read_then (start + EFPG_USER_AREA_START) num e (\<lambda>bs e. (EFPG_ACK_OK, bs, e)))"

definition efpg_write_user_area :: "nat \<Rightarrow> nat \<Rightarrow> u8 list \<Rightarrow> efuse \<Rightarrow> u16 \<times> efuse" where
  "efpg_write_user_area start num data e =
     (if bad_user_range start num then (EFPG_ACK_RW_ERR, e)
      else (case HAL_EFUSE_Write (start + EFPG_USER_AREA_START) num (mem_at data) e of
              (st, e1) \<Rightarrow> if st \<noteq> HAL_OK then (EFPG_ACK_RW_ERR, e1) else (EFPG_ACK_OK, e1)))"

definition efpg_read_field :: "efpg_field \<Rightarrow> u16 \<Rightarrow> u16 \<Rightarrow> efuse \<Rightarrow> u16 \<times> u8 list \<times> efuse" where
  "efpg_read_field field start_bit_addr bit_len e =
     (case field of
        EFPG_FIELD_HOSC \<Rightarrow> efpg_read_hosc e
      | EFPG_FIELD_BOOT \<Rightarrow> efpg_read_boot e
      | EFPG_FIELD_MAC \<Rightarrow> efpg_read_mac e
      | EFPG_FIELD_CHIPID \<Rightarrow> efpg_read_chipid e
      | EFPG_FIELD_UA \<Rightarrow> efpg_read_user_area (unat start_bit_addr) (unat bit_len) e
      | EFPG_FIELD_NUM \<Rightarrow> (EFPG_ACK_RW_ERR, [], e))"

definition efpg_write_field :: "efpg_field \<Rightarrow> u8 list \<Rightarrow> u16 \<Rightarrow> u16 \<Rightarrow> efuse \<Rightarrow> u16 \<times> efuse" where
  "efpg_write_field field data start_bit_addr bit_len e =
     (case field of
        EFPG_FIELD_HOSC \<Rightarrow> efpg_write_hosc data e
      | EFPG_FIELD_BOOT \<Rightarrow> efpg_write_boot data e
      | EFPG_FIELD_MAC \<Rightarrow> efpg_write_mac data e
      | EFPG_FIELD_CHIPID \<Rightarrow> efpg_write_chipid data e
      | EFPG_FIELD_UA \<Rightarrow> efpg_write_user_area (unat start_bit_addr) (unat bit_len) data e
      | EFPG_FIELD_NUM \<Rightarrow> (EFPG_ACK_RW_ERR, e))"

text \<open>efpg.c: the reading functions for the application; the address and length of efpg_read_ua are cut to 16 bits.\<close>

definition efpg_read :: "efpg_field \<Rightarrow> efuse \<Rightarrow> int \<times> u8 list \<times> efuse" where
  "efpg_read field e =
     (case efpg_read_field field 0 0 e of (ack, bs, e1) \<Rightarrow> if ack \<noteq> EFPG_ACK_OK then (-1, bs, e1) else (0, bs, e1))"

definition efpg_read_ua :: "u32 \<Rightarrow> u32 \<Rightarrow> efuse \<Rightarrow> int \<times> u8 list \<times> efuse" where
  "efpg_read_ua start num e =
     (case efpg_read_field EFPG_FIELD_UA (ucast start) (ucast num) e of
        (ack, bs, e1) \<Rightarrow> if ack \<noteq> EFPG_ACK_OK then (-1, bs, e1) else (0, bs, e1))"

section \<open>Reads and writes of whole bytes\<close>

definition byte_at :: "efuse \<Rightarrow> nat \<Rightarrow> u8" where
  "byte_at e s = horner_sum of_bool 2 (map (\<lambda>i. ef_bit e (s + i)) [0..<8])"

lemma bit_byte_at: "bit (byte_at e s) i = (i < 8 \<and> ef_bit e (s + i))"
  by (auto simp: byte_at_def bit_horner_sum_bit_word_iff)

definition bytes_at :: "efuse \<Rightarrow> nat \<Rightarrow> nat \<Rightarrow> u8 list" where
  "bytes_at e s n = map (\<lambda>j. byte_at e (s + 8 * j)) [0..<n]"

lemma bytes_at_simps [simp]:
  "length (bytes_at e s n) = n" "j < n \<Longrightarrow> bytes_at e s n ! j = byte_at e (s + 8 * j)"
  "bytes_at e s (Suc 0) = [byte_at e s]" "bytes_at (e\<lparr>gEfuseState := st\<rparr>) s n = bytes_at e s n"
  "byte_at (e\<lparr>gEfuseState := st\<rparr>) s = byte_at e s"
  by (simp_all add: bytes_at_def byte_at_def)

text \<open>The range can be read when it lies in the matrix and its last byte in the last word that is read.\<close>

definition readable :: "nat \<Rightarrow> nat \<Rightarrow> bool" where
  "readable s n = (\<not> bad_range s n \<and> s + 8 * ((n + 7) div 8) \<le> 32 * ((s + n) div 32 + 1))"

lemma fuse_bytes_at: "readable s n \<Longrightarrow> fuse_bytes s n e = bytes_at e s ((n + 7) div 8)"
proof (rule nth_equalityI)
  fix j assume r: "readable s n" "j < length (fuse_bytes s n e)"
  then have j: "j < (n + 7) div 8" by (simp add: fuse_bytes_def)
  then have "8 * j + 8 \<le> 8 * ((n + 7) div 8)" by simp
  then have "s + 8 * j + i < 32 * ((s + n) div 32 + 1)" if "i < 8" for i
    using r(1) that unfolding readable_def by linarith
  then have "fuse_byte s n e j = byte_at e (s + 8 * j)"
    by (intro bit_word_eqI) (simp add: bit_fuse_byte bit_byte_at)
  then show "fuse_bytes s n e ! j = bytes_at e s ((n + 7) div 8) ! j" using j by (simp add: fuse_bytes_def)
qed (simp add: fuse_bytes_def)

definition ready :: "efuse \<Rightarrow> efuse" where "ready e = e\<lparr>gEfuseState := EFUSE_STATE_READY\<rparr>"

lemma ready_simps [simp]:
  "efuse_acquire (ready e) = HAL_OK" "ef_bit (ready e) = ef_bit e" "ef_stuck (ready e) = ef_stuck e"
  "byte_at (ready e) s = byte_at e s" "bytes_at (ready e) s n = bytes_at e s n" "ready (ready e) = ready e"
  "ready (burn s n p e) = burn s n p e" "burn s n p (ready e) = burn s n p e"
  by (simp_all add: ready_def burn_def byte_at_def)

lemma read_bytes:
  "readable s n \<Longrightarrow> efuse_acquire e = HAL_OK \<Longrightarrow>
   HAL_EFUSE_Read s n e = (HAL_OK, bytes_at e s ((n + 7) div 8), ready e)"
  using read_range [of s n e] fuse_bytes_at [of s n e] by (simp add: readable_def ready_def)

lemma write_read_bytes:
  assumes "readable s n" "efuse_acquire e = HAL_OK"
  shows "write_read s n bs e =
    (Some (bytes_at (burn s n (mem_at bs) e) s ((n + 7) div 8)), burn s n (mem_at bs) e)"
proof -
  have "\<not> bad_range s n" using assms(1) by (simp add: readable_def)
  then show ?thesis
    using write_range [of s n e "mem_at bs"] read_bytes [OF assms(1), of "burn s n (mem_at bs) e"] assms(2)
    by (simp add: write_read_def)
qed

lemma ef_bit_burn:
  "ef_bit (burn s n p e) b = (ef_bit e b \<or> (s \<le> b \<and> b < s + n \<and> data_bit p (b - s) \<and> \<not> ef_stuck e b))"
  by (simp add: burn_def)

lemma data_bit_mem: "data_bit (mem_at bs) b = (b < 8 * length bs \<and> bit (bs ! (b div 8)) (b mod 8))"
  by (auto simp: data_bit_def mem_at_def)

lemma byte_eq_iff: "x = y \<longleftrightarrow> (\<forall>i<8. bit x i = bit y i)" for x y :: u8
  by (auto intro: bit_word_eqI)

lemma byte_zero_iff: "x = 0 \<longleftrightarrow> (\<forall>i<8. \<not> bit x i)" for x :: u8
  by (simp add: byte_eq_iff)

section \<open>The MAC address\<close>

text \<open>Is the flag of slot \<open>k\<close> set?\<close>

definition slot_flag :: "efuse \<Rightarrow> nat \<Rightarrow> bool" where
  "slot_flag e k = (ef_bit e (522 + 2 * k) \<or> ef_bit e (523 + 2 * k))"

definition slot_data :: "efuse \<Rightarrow> nat \<Rightarrow> u8 list" where
  "slot_data e k = bytes_at e (528 + 48 * k) 6"

lemma bit_flag3: "bit (flag :: u32) 0 \<or> bit flag 1 \<longleftrightarrow> flag AND 3 \<noteq> 0"
proof -
  have "bit (3 :: u32) i = (i < 2)" for i
  proof -
    have m: "(3 :: u32) = mask 2" by (simp add: mask_eq_exp_minus_1)
    show ?thesis unfolding m bit_mask_iff by auto
  qed
  then have b: "bit (flag AND 3) i = (bit flag i \<and> i < 2)" for i by (simp add: bit_and_iff)
  have "flag AND 3 = 0" if "\<not> bit flag 0" "\<not> bit flag 1"
  proof (rule bit_word_eqI)
    fix i
    have "\<not> bit (flag AND 3) i" unfolding b using that less_2_cases [of i] by (metis One_nat_def)
    then show "bit (flag AND 3) i = bit (0 :: u32) i" by (simp only: bit_0_eq bot_apply bot_bool_def simp_thms)
  qed
  moreover have "flag AND 3 \<noteq> 0" if "bit (flag AND 3) i" for i
    using that by (metis bit_0_eq bot_apply bot_bool_def)
  ultimately show ?thesis using b [of 0] b [of 1] by (metis less_numeral_extra(1) one_less_numeral_iff semiring_norm(76) zero_less_numeral)
qed

lemma first_flag_eq:
  assumes "bit (flag :: u32) (2 * k) \<or> bit flag (2 * k + 1)" "\<forall>j<k. \<not> bit flag (2 * j) \<and> \<not> bit flag (2 * j + 1)"
  shows "first_flag flag = k"
  using assms
proof (induction k arbitrary: flag)
  case 0
  then have "flag \<noteq> 0" "flag AND 3 \<noteq> 0" using bit_flag3 [of flag] by auto
  then show ?case by (simp add: first_flag.simps [of flag] region_defs)
next
  case (Suc k)
  have f: "flag \<noteq> 0" using Suc.prems(1) by auto
  have "\<not> bit flag 0 \<and> \<not> bit flag 1" using Suc.prems(2) by force
  then have m: "flag AND 3 = 0" using bit_flag3 [of flag] by auto
  have "first_flag (drop_bit 2 flag) = k"
  proof (rule Suc.IH)
    show "bit (drop_bit 2 flag) (2 * k) \<or> bit (drop_bit 2 flag) (2 * k + 1)"
      using Suc.prems(1) by (simp add: bit_drop_bit_eq)
    have "\<not> bit (drop_bit 2 flag) (2 * j) \<and> \<not> bit (drop_bit 2 flag) (2 * j + 1)" if "j < k" for j
      using Suc.prems(2) [rule_format, of "Suc j"] that by (simp add: bit_drop_bit_eq)
    then show "\<forall>j<k. \<not> bit (drop_bit 2 flag) (2 * j) \<and> \<not> bit (drop_bit 2 flag) (2 * j + 1)" by blast
  qed
  then show ?case using f m by (simp add: first_flag.simps [of flag] region_defs)
qed

lemma skip_flags_eq:
  assumes "\<forall>j<k. \<not> bit (flag :: u32) (2 * j) \<and> \<not> bit flag (2 * j + 1)" "k \<le> n"
    "k < n \<longrightarrow> bit flag (2 * k) \<or> bit flag (2 * k + 1)"
  shows "skip_flags n flag idx = idx + k"
  using assms
proof (induction k arbitrary: flag n idx)
  case 0
  then show ?case using bit_flag3 [of flag] by (cases n) (auto simp: region_defs)
next
  case (Suc k)
  then obtain m where n: "n = Suc m" by (cases n) auto
  have "\<not> bit flag 0 \<and> \<not> bit flag 1" using Suc.prems(1) by force
  then have z: "flag AND 3 = 0" using bit_flag3 [of flag] by auto
  have "skip_flags m (drop_bit 2 flag) (Suc idx) = Suc idx + k"
  proof (rule Suc.IH)
    have "\<not> bit (drop_bit 2 flag) (2 * j) \<and> \<not> bit (drop_bit 2 flag) (2 * j + 1)" if "j < k" for j
      using Suc.prems(1) [rule_format, of "Suc j"] that by (simp add: bit_drop_bit_eq)
    then show "\<forall>j<k. \<not> bit (drop_bit 2 flag) (2 * j) \<and> \<not> bit (drop_bit 2 flag) (2 * j + 1)" by blast
    show "k \<le> m" using Suc.prems(2) n by simp
    show "k < m \<longrightarrow> bit (drop_bit 2 flag) (2 * k) \<or> bit (drop_bit 2 flag) (2 * k + 1)"
      using Suc.prems(3) n by (simp add: bit_drop_bit_eq)
  qed
  then show ?case using z n by (simp add: region_defs)
qed

lemma mac_readable: "readable 522 6" "k < 3 \<Longrightarrow> readable (522 + 2 * k) 2" "k < 3 \<Longrightarrow> readable (528 + 48 * k) 48"
proof -
  show "readable 522 6" by (simp add: readable_def bad_range_def HAL_EFUSE_BIT_NUM_def)
  assume "k < 3"
  then have "k = 0 \<or> k = 1 \<or> k = 2" by auto
  then show "readable (522 + 2 * k) 2" "readable (528 + 48 * k) 48"
    by (auto simp: readable_def bad_range_def HAL_EFUSE_BIT_NUM_def)
qed

lemma bit_flag_word: "i < 8 \<Longrightarrow> bit (le32 (mem_at [byte_at e 522]) 0) i = ef_bit e (522 + i)"
  by (simp add: bit_le32 mem_at_def bit_byte_at)

lemma flag_bits_eq:
  "k < 4 \<Longrightarrow> bit (le32 (mem_at [byte_at e 522]) 0) (2 * k) = ef_bit e (522 + 2 * k)"
  "k < 4 \<Longrightarrow> bit (le32 (mem_at [byte_at e 522]) 0) (2 * k + 1) = ef_bit e (523 + 2 * k)"
  using bit_flag_word [of "2 * k" e] bit_flag_word [of "2 * k + 1" e] by simp_all

lemmas mac_defs = mac_info_def efpg_pos region_defs

lemma read_mac_slot:
  assumes "efuse_acquire e = HAL_OK" "k < 3" "slot_flag e k" "\<forall>j<k. \<not> slot_flag e j"
  shows "efpg_read_mac e = (EFPG_ACK_OK, slot_data e k, ready e)"
proof -
  define flag where "flag = le32 (mem_at [byte_at e 522]) 0"
  have f: "first_flag flag = k"
    using assms(2-4) flag_bits_eq [of _ e]
    by (intro first_flag_eq) (auto simp: flag_def slot_flag_def)
  have "flag \<noteq> 0"
  proof
    assume "flag = 0"
    then show False using assms(2,3) flag_bits_eq [of k e] by (simp add: flag_def slot_flag_def)
  qed
  then show ?thesis
    using f assms(1,2) read_bytes [OF mac_readable(1), of e] read_bytes [OF mac_readable(3) [OF assms(2)], of "ready e"]
    by (simp add: efpg_read_mac_def efpg_read_region_def mac_defs Let_def slot_data_def mult.commute flip: flag_def)
qed

text \<open>One round of the loop: the flag is burnt, then the data.\<close>

definition burn_flag :: "nat \<Rightarrow> efuse \<Rightarrow> efuse" where
  "burn_flag k e = burn (522 + 2 * k) 2 (mem_at [3]) e"

definition burn_slot :: "nat \<Rightarrow> u8 list \<Rightarrow> efuse \<Rightarrow> efuse" where
  "burn_slot k data e = burn (528 + 48 * k) 48 (mem_at data) (burn_flag k e)"

lemma bit3: "bit (3 :: u8) i = (i < 2)"
proof -
  have m: "(3 :: u8) = mask 2" by (simp add: mask_eq_exp_minus_1)
  show ?thesis unfolding m bit_mask_iff by auto
qed

lemma ef_bit_burn_flag:
  "ef_bit (burn_flag k e) b = (ef_bit e b \<or> ((b = 522 + 2 * k \<or> b = 523 + 2 * k) \<and> \<not> ef_stuck e b))"
  unfolding burn_flag_def ef_bit_burn data_bit_mem
  by (auto simp: bit3 less_2_cases_iff)

lemma slot_flag_burn:
  "j < 3 \<Longrightarrow> k < 3 \<Longrightarrow> j \<noteq> k \<Longrightarrow> slot_flag (burn_flag k e) j = slot_flag e j"
  "j < 3 \<Longrightarrow> k < 3 \<Longrightarrow> slot_flag (burn_slot k d e) j = slot_flag (burn_flag k e) j"
  "\<not> (ef_stuck e (522 + 2 * k) \<and> ef_stuck e (523 + 2 * k)) \<Longrightarrow> slot_flag (burn_flag k e) k"
  by (auto simp: slot_flag_def ef_bit_burn_flag burn_slot_def ef_bit_burn)

lemma burn_frame [simp]:
  "ef_stuck (burn_flag k e) = ef_stuck e" "ef_stuck (burn_slot k d e) = ef_stuck e"
  "efuse_acquire (burn_flag k e) = HAL_OK" "efuse_acquire (burn_slot k d e) = HAL_OK"
  by (simp_all add: burn_flag_def burn_slot_def)

lemma write_slots_step:
  assumes "efuse_acquire e = HAL_OK" "k < 3" "length data = 6"
  shows "write_slots mac_info data (Suc k) e =
    (if byte_at (burn_flag k e) (522 + 2 * k) = 0 then write_slots mac_info data k (burn_flag k e)
     else if slot_data (burn_slot k data e) k = data then (EFPG_ACK_OK, burn_slot k data e)
     else write_slots mac_info data k (burn_slot k data e))"
proof -
  have f: "write_read (522 + k * 2) 2 [3] e = (Some [byte_at (burn_flag k e) (522 + 2 * k)], burn_flag k e)"
    using write_read_bytes [OF mac_readable(2) [OF assms(2)] assms(1), of "[3]"]
    by (simp add: burn_flag_def mult.commute)
  have d: "write_read (528 + k * 48) 48 data (burn_flag k e) = (Some (slot_data (burn_slot k data e) k), burn_slot k data e)"
    using write_read_bytes [OF mac_readable(3) [OF assms(2)], of "burn_flag k e" data]
    by (simp add: burn_slot_def slot_data_def mult.commute)
  have l: "length (slot_data (burn_slot k data e) k) = 6" by (simp add: slot_data_def)
  show ?thesis using f d l assms(3) by (auto simp: mac_defs efpg_bit_cmp_def)
qed

lemma write_slots_ok:
  assumes "efuse_acquire e = HAL_OK" "idx \<le> 3" "length data = 6" "\<forall>j<idx. \<not> slot_flag e j"
    "\<forall>j<idx. \<not> (ef_stuck e (522 + 2 * j) \<and> ef_stuck e (523 + 2 * j))"
    "write_slots mac_info data idx e = (EFPG_ACK_OK, e')"
  shows "\<exists>k<idx. slot_flag e' k \<and> (\<forall>j<k. \<not> slot_flag e' j) \<and> slot_data e' k = data \<and> efuse_acquire e' = HAL_OK"
  using assms
proof (induction idx arbitrary: e)
  case 0
  then show ?case by (simp add: ack_defs)
next
  case (Suc k)
  have k: "k < 3" using Suc.prems(2) by simp
  have fl: "slot_flag (burn_flag k e) k" using Suc.prems(5) by (intro slot_flag_burn(3)) simp
  have tmp: "byte_at (burn_flag k e) (522 + 2 * k) \<noteq> 0"
  proof
    assume "byte_at (burn_flag k e) (522 + 2 * k) = 0"
    then have "\<not> bit (byte_at (burn_flag k e) (522 + 2 * k)) 0" "\<not> bit (byte_at (burn_flag k e) (522 + 2 * k)) 1" by simp_all
    then show False using fl by (simp add: bit_byte_at slot_flag_def)
  qed
  show ?case
  proof (cases "slot_data (burn_slot k data e) k = data")
    case True
    then have "e' = burn_slot k data e"
      using Suc.prems(6) write_slots_step [OF Suc.prems(1) k Suc.prems(3)] tmp by simp
    then show ?thesis using True fl k Suc.prems(4) by (auto simp: slot_flag_burn)
  next
    case False
    have "write_slots mac_info data k (burn_slot k data e) = (EFPG_ACK_OK, e')"
      using False Suc.prems(6) write_slots_step [OF Suc.prems(1) k Suc.prems(3)] tmp by simp
    then have "\<exists>j<k. slot_flag e' j \<and> (\<forall>i<j. \<not> slot_flag e' i) \<and> slot_data e' j = data \<and> efuse_acquire e' = HAL_OK"
      using k Suc.prems by (intro Suc.IH) (auto simp: slot_flag_burn)
    then show ?thesis using less_SucI by blast
  qed
qed

text \<open>The slot the search ends at.\<close>

definition free_slots :: "efuse \<Rightarrow> nat" where
  "free_slots e = (if slot_flag e 0 then 0 else if slot_flag e 1 then 1 else if slot_flag e 2 then 2 else 3)"

lemma free_slots_free: "free_slots e \<le> 3" "\<forall>j<free_slots e. \<not> slot_flag e j" "free_slots e < 3 \<longrightarrow> slot_flag e (free_slots e)"
  by (auto simp: free_slots_def less_Suc_eq numeral_eq_Suc)

lemma write_mac_slots:
  assumes "efuse_acquire e = HAL_OK"
  shows "efpg_write_mac data e = write_slots mac_info data (free_slots e) (ready e)"
proof -
  have "skip_flags 3 (le32 (mem_at [byte_at e 522]) 0) 0 = 0 + free_slots e"
    using free_slots_free [of e] flag_bits_eq [of _ e]
    by (intro skip_flags_eq) (auto simp: slot_flag_def)
  then show ?thesis
    using read_bytes [OF mac_readable(1) assms]
    by (simp add: efpg_write_mac_def efpg_write_region_def mac_defs)
qed

lemma write_then_read_mac:
  assumes "efuse_acquire e = HAL_OK" "length data = 6" "efpg_write_mac data e = (EFPG_ACK_OK, e')"
    "\<forall>j<3. \<not> (ef_stuck e (522 + 2 * j) \<and> ef_stuck e (523 + 2 * j))"
  shows "efpg_read_mac e' = (EFPG_ACK_OK, data, ready e')"
proof -
  have "\<exists>k<free_slots e. slot_flag e' k \<and> (\<forall>j<k. \<not> slot_flag e' j) \<and> slot_data e' k = data \<and> efuse_acquire e' = HAL_OK"
  proof (rule write_slots_ok [of "ready e"])
    show "write_slots mac_info data (free_slots e) (ready e) = (EFPG_ACK_OK, e')"
      using assms(1,3) write_mac_slots by simp
    show "\<forall>j<free_slots e. \<not> slot_flag (ready e) j" using free_slots_free(2) by (simp add: slot_flag_def)
    show "\<forall>j<free_slots e. \<not> (ef_stuck (ready e) (522 + 2 * j) \<and> ef_stuck (ready e) (523 + 2 * j))"
      using assms(4) free_slots_free(1) [of e] by (auto dest!: less_le_trans)
  qed (use assms free_slots_free in simp_all)
  then obtain k where "k < free_slots e" "slot_flag e' k" "\<forall>j<k. \<not> slot_flag e' j" "slot_data e' k = data"
    "efuse_acquire e' = HAL_OK" by blast
  moreover from this have "k < 3" using free_slots_free(1) [of e] by simp
  ultimately show ?thesis using read_mac_slot by simp
qed

lemma byte_at_burn:
  assumes "\<forall>i<8. \<not> ef_bit e (s + 8 * j + i) \<and> \<not> ef_stuck e (s + 8 * j + i)" "8 * j + 8 \<le> n" "j < length bs"
  shows "byte_at (burn s n (mem_at bs) e) (s + 8 * j) = bs ! j"
proof (rule bit_word_eqI)
  fix i assume i: "i < LENGTH(8)"
  have "(8 * j + i) div 8 = j" "(8 * j + i) mod 8 = i" "8 * j + i < 8 * length bs" "8 * j + i < n"
    using i assms(2,3) by simp_all
  then show "bit (byte_at (burn s n (mem_at bs) e) (s + 8 * j)) i = bit (bs ! j) i"
    using i assms(1) by (simp add: bit_byte_at ef_bit_burn data_bit_mem add.assoc)
qed

text \<open>
  A good region: no bad fuse, \<open>m\<close> slots are free and their data is blank.
\<close>

definition mac_good :: "efuse \<Rightarrow> nat \<Rightarrow> bool" where
  "mac_good e m =
     (efuse_acquire e = HAL_OK \<and> m \<le> 3 \<and> free_slots e = m \<and>
      (\<forall>b. 522 \<le> b \<and> b < 672 \<longrightarrow> \<not> ef_stuck e b) \<and> (\<forall>b. 528 \<le> b \<and> b < 528 + 48 * m \<longrightarrow> \<not> ef_bit e b))"

lemma burn_slot_data:
  assumes "\<forall>b. 522 \<le> b \<and> b < 672 \<longrightarrow> \<not> ef_stuck e b" "\<forall>b. 528 + 48 * k \<le> b \<and> b < 576 + 48 * k \<longrightarrow> \<not> ef_bit e b"
    "k < 3" "length data = 6"
  shows "slot_data (burn_slot k data e) k = data"
proof (rule nth_equalityI)
  fix j assume "j < length (slot_data (burn_slot k data e) k)"
  then have j: "j < 6" by (simp add: slot_data_def)
  have "\<not> ef_bit (burn_flag k e) (528 + 48 * k + 8 * j + i) \<and> \<not> ef_stuck (burn_flag k e) (528 + 48 * k + 8 * j + i)"
    if "i < 8" for i
  proof -
    have "528 + 48 * k + 8 * j + i < 576 + 48 * k" "528 + 48 * k + 8 * j + i < 672"
      "528 + 48 * k + 8 * j + i \<noteq> 522 + 2 * k" "528 + 48 * k + 8 * j + i \<noteq> 523 + 2 * k"
      using that j assms(3) by simp_all
    then show ?thesis using assms(1,2) by (simp add: ef_bit_burn_flag)
  qed
  then have "byte_at (burn (528 + 48 * k) 48 (mem_at data) (burn_flag k e)) (528 + 48 * k + 8 * j) = data ! j"
    using j assms(4) by (intro byte_at_burn) auto
  then show "slot_data (burn_slot k data e) k ! j = data ! j" using j by (simp add: slot_data_def burn_slot_def)
qed (use assms(4) in \<open>simp add: slot_data_def\<close>)

lemma slot_flag_byte:
  assumes "slot_flag e k"
  shows "byte_at e (522 + 2 * k) \<noteq> 0"
proof -
  have "bit (byte_at e (522 + 2 * k)) 0 \<or> bit (byte_at e (522 + 2 * k)) 1"
    using assms by (simp add: bit_byte_at slot_flag_def)
  then show ?thesis by force
qed

lemma good_write_mac:
  assumes "mac_good e (Suc k)" "length data = 6"
  shows "efpg_write_mac data e = (EFPG_ACK_OK, burn_slot k data (ready e))" "mac_good (burn_slot k data (ready e)) k"
    "efpg_read_mac (burn_slot k data (ready e)) = (EFPG_ACK_OK, data, ready (burn_slot k data (ready e)))"
proof -
  have k: "k < 3" "efuse_acquire e = HAL_OK" "free_slots e = Suc k" using assms(1) by (auto simp: mac_good_def)
  have st: "\<forall>b. 522 \<le> b \<and> b < 672 \<longrightarrow> \<not> ef_stuck (ready e) b" using assms(1) by (simp add: mac_good_def)
  have d: "slot_data (burn_slot k data (ready e)) k = data"
    using assms k(1) by (intro burn_slot_data [OF st]) (auto simp: mac_good_def)
  have fl: "slot_flag (burn_flag k (ready e)) k" using st k(1) by (intro slot_flag_burn(3)) auto
  have none: "\<forall>j<k. \<not> slot_flag (burn_slot k data (ready e)) j"
    using free_slots_free(2) [of e] k by (simp add: slot_flag_burn) (simp add: slot_flag_def)
  show "efpg_write_mac data e = (EFPG_ACK_OK, burn_slot k data (ready e))"
    using write_mac_slots [OF k(2)] write_slots_step [of "ready e" k data] k d assms(2) slot_flag_byte [OF fl] by simp
  have fs: "slot_flag (burn_slot k data (ready e)) k" using fl k(1) by (simp add: slot_flag_burn)
  show "efpg_read_mac (burn_slot k data (ready e)) = (EFPG_ACK_OK, data, ready (burn_slot k data (ready e)))"
    using read_mac_slot [OF _ k(1) fs none] d by simp
  have "free_slots (burn_slot k data (ready e)) = k"
    using fs none k(1) by (auto simp: free_slots_def numeral_eq_Suc less_Suc_eq)
  moreover have "\<not> ef_bit (burn_slot k data (ready e)) b" if "528 \<le> b" "b < 528 + 48 * k" for b
    using that assms(1) k(1) by (simp add: burn_slot_def ef_bit_burn ef_bit_burn_flag mac_good_def)
  ultimately show "mac_good (burn_slot k data (ready e)) k" using st k(1) by (simp add: mac_good_def)
qed

lemma full_write_mac:
  assumes "mac_good e 0"
  shows "efpg_write_mac data e = (EFPG_ACK_DI_ERR, ready e)"
  using assms write_mac_slots [of e data] by (simp add: mac_good_def)

lemma stuck_flag_write:
  assumes "efuse_acquire e = HAL_OK" "slot_flag e 2" "\<not> slot_flag e 1" "\<not> slot_flag e 0" "ef_stuck e 524" "ef_stuck e 525"
    "\<forall>b. 576 \<le> b \<and> b < 624 \<longrightarrow> \<not> ef_bit e b \<and> \<not> ef_stuck e b" "length data = 6"
  shows "\<exists>e'. efpg_write_mac data e = (EFPG_ACK_OK, e') \<and> efpg_read_mac e' = (EFPG_ACK_OK, slot_data e 2, ready e')"
proof -
  define e1 where "e1 = burn_slot 1 data (ready e)"
  have fr: "free_slots e = Suc 1" using assms(2-4) by (simp add: free_slots_def)
  have b: "byte_at (burn_flag 1 (ready e)) (522 + 2 * 1) \<noteq> 0"
  proof
    assume "byte_at (burn_flag 1 (ready e)) (522 + 2 * 1) = 0"
    then have "\<not> bit (byte_at (burn_flag 1 (ready e)) 524) 2" "\<not> bit (byte_at (burn_flag 1 (ready e)) 524) 3" by simp_all
    then show False using assms(2) by (simp add: bit_byte_at slot_flag_def ef_bit_burn_flag)
  qed
  have d: "slot_data e1 1 = data"
  proof (rule nth_equalityI)
    fix j assume "j < length (slot_data e1 1)"
    then have j: "j < 6" by (simp add: slot_data_def)
    have "byte_at (burn 576 48 (mem_at data) (burn_flag 1 (ready e))) (576 + 8 * j) = data ! j"
      using j assms(7,8) by (intro byte_at_burn) (auto simp: ef_bit_burn_flag)
    then show "slot_data e1 1 ! j = data ! j" using j by (simp add: slot_data_def e1_def burn_slot_def)
  qed (use assms(8) in \<open>simp add: slot_data_def\<close>)
  have w: "efpg_write_mac data e = (EFPG_ACK_OK, e1)"
    using write_mac_slots [OF assms(1)] write_slots_step [of "ready e" 1 data] fr b d assms(8) by (simp add: e1_def)
  have "slot_flag e1 2 = slot_flag e 2" "slot_flag e1 1 = slot_flag e 1" "slot_flag e1 0 = slot_flag e 0"
    using assms(5,6) by (auto simp: slot_flag_def e1_def burn_slot_def ef_bit_burn ef_bit_burn_flag)
  then have "efpg_read_mac e1 = (EFPG_ACK_OK, slot_data e1 2, ready e1)"
    using assms(2-4) by (intro read_mac_slot) (auto simp: e1_def less_2_cases_iff)
  moreover have "slot_data e1 2 = slot_data e 2"
    unfolding slot_data_def bytes_at_def byte_at_def e1_def burn_slot_def by (simp add: ef_bit_burn ef_bit_burn_flag)
  ultimately show ?thesis using w by simp
qed

section \<open>Properties of the MAC field\<close>

text \<open>C24: Whatever fuses are bad, apart from both flag fuses of a slot: a MAC address whose writing was
  acknowledged is the one that is read back.\<close>

theorem mac_roundtrip:
  assumes "efuse_acquire e = HAL_OK" "length data = 6" "efpg_write_mac data e = (EFPG_ACK_OK, e')"
    "\<forall>j<3. \<not> (ef_stuck e (522 + 2 * j) \<and> ef_stuck e (523 + 2 * j))"
  shows "efpg_read_mac e' = (EFPG_ACK_OK, data, ready e')"
  by (rule write_then_read_mac [OF assms])

text \<open>A chip with nothing burnt, and the set of its bad fuses.\<close>

definition new_chip :: "(nat \<Rightarrow> bool) \<Rightarrow> efuse" where
  "new_chip bad = \<lparr>ef_bit = \<lambda>b. False, ef_stuck = bad, gEfuseState = EFUSE_STATE_INVALID, ef_hosc_ok = True\<rparr>"

lemma new_chip_simps [simp]:
  "ef_bit (new_chip bad) b = False" "ef_stuck (new_chip bad) = bad" "efuse_acquire (new_chip bad) = HAL_OK"
  by (simp_all add: new_chip_def efuse_acquire_def EFUSE_Init_def)

lemma new_chip_good: "mac_good (new_chip (\<lambda>b. False)) 3"
  by (simp add: mac_good_def free_slots_def slot_flag_def)

theorem mac_roundtrip_witness:
  "\<exists>e'. efpg_write_mac [1, 2, 3, 4, 5, 6] (new_chip (\<lambda>b. False)) = (EFPG_ACK_OK, e') \<and>
    efpg_read_mac e' = (EFPG_ACK_OK, [1, 2, 3, 4, 5, 6], ready e')"
proof -
  have w: "efpg_write_mac [1, 2, 3, 4, 5, 6] (new_chip (\<lambda>b. False)) =
      (EFPG_ACK_OK, burn_slot 2 [1, 2, 3, 4, 5, 6] (ready (new_chip (\<lambda>b. False))))"
    using good_write_mac(1) [of "new_chip (\<lambda>b. False)" 2 "[1, 2, 3, 4, 5, 6]"] new_chip_good by (simp add: eval_nat_numeral)
  show ?thesis using mac_roundtrip [OF _ _ w] w by simp
qed

text \<open>A good chip takes three MAC addresses, each of which is read back after its write and replaces the one
  before; the fourth is refused.\<close>

lemma mac_three_slots:
  assumes "mac_good e m" "length data = 6"
  shows "if m = 0 then efpg_write_mac data e = (EFPG_ACK_DI_ERR, ready e)
    else \<exists>e'. efpg_write_mac data e = (EFPG_ACK_OK, e') \<and> mac_good e' (m - 1) \<and>
      efpg_read_mac e' = (EFPG_ACK_OK, data, ready e')"
  using good_write_mac [of e "m - 1" data] full_write_mac [of e data] assms by (cases m) auto

lemma mac_three_slots_witness:
  "\<exists>e'. efpg_write_mac [1, 2, 3, 4, 5, 6] (new_chip (\<lambda>b. False)) = (EFPG_ACK_OK, e') \<and> mac_good e' 2"
  using mac_three_slots [OF new_chip_good, of "[1, 2, 3, 4, 5, 6]"] by auto

text \<open>When both flag fuses of the middle slot are bad and the last slot is used, a second MAC address is
  acknowledged although its slot is never found: the flag is tested in a byte that also has the fuses behind the
  flag, and the old address is read.\<close>

lemma mac_bad_flag_acknowledged:
  assumes "efuse_acquire e = HAL_OK" "slot_flag e 2" "\<not> slot_flag e 1" "\<not> slot_flag e 0" "ef_stuck e 524" "ef_stuck e 525"
    "\<forall>b. 576 \<le> b \<and> b < 624 \<longrightarrow> \<not> ef_bit e b \<and> \<not> ef_stuck e b" "length data = 6"
  shows "\<exists>e'. efpg_write_mac data e = (EFPG_ACK_OK, e') \<and> efpg_read_mac e' = (EFPG_ACK_OK, slot_data e 2, ready e')"
  by (rule stuck_flag_write [OF assms])

lemma mac_bad_flag_acknowledged_witness:
  "\<exists>e e'. efpg_write_mac [1, 2, 3, 4, 5, 6] e = (EFPG_ACK_OK, e') \<and> efpg_read_mac e' = (EFPG_ACK_OK, [0, 0, 0, 0, 0, 0], ready e')"
proof -
  define e where "e = burn_flag 2 (new_chip (\<lambda>b. b = 524 \<or> b = 525))"
  have b: "ef_bit e b = (b = 526 \<or> b = 527)" "ef_stuck e b = (b = 524 \<or> b = 525)" for b
    by (auto simp: e_def ef_bit_burn_flag)
  have "slot_data e 2 = [0, 0, 0, 0, 0, 0]"
    by (simp add: slot_data_def bytes_at_def upt_rec byte_zero_iff bit_byte_at b)
  then show ?thesis using mac_bad_flag_acknowledged [of e "[1, 2, 3, 4, 5, 6]"] b
    by (auto simp: slot_flag_def e_def)
qed

end
