(* ===== verification/Efpg_Boot.thy ===== *)
theory Efpg_Boot
  imports Efpg
begin

text \<open>
  What the fields of Efpg hold after they were written: the boot hash with its correction of two bad fuses,
  the oscillator type beside it, and the user area.
\<close>

section \<open>Which bits of the hash differ\<close>

definition wrong_bit :: "u8 list \<Rightarrow> u8 list \<Rightarrow> nat \<Rightarrow> bool" where
  "wrong_bit data buf i = (bit (data ! (i div 8)) (i mod 8) \<noteq> bit (buf ! (i div 8)) (i mod 8))"

lemma hash_cmp_step:
  "hash_cmp_bits (i # is) data buf (cnt, no1, no2) =
     (if \<not> wrong_bit data buf i then hash_cmp_bits is data buf (cnt, no1, no2)
      else if cnt = 0 then hash_cmp_bits is data buf (1, of_nat i, no2)
      else if cnt = 1 then hash_cmp_bits is data buf (2, no1, of_nat i)
      else None)"
  by (simp add: wrong_bit_def)

lemma hash_cmp_two:
  "hash_cmp_bits is data buf (2, no1, no2) =
     (if filter (wrong_bit data buf) is = [] then Some (2, no1, no2) else None)"
  by (induction "is") (auto simp: hash_cmp_step simp del: hash_cmp_bits.simps(2))

lemma hash_cmp_one:
  "hash_cmp_bits is data buf (1, no1, no2) =
     (case filter (wrong_bit data buf) is of [] \<Rightarrow> Some (1, no1, no2) | [b] \<Rightarrow> Some (2, no1, of_nat b) | _ \<Rightarrow> None)"
  by (induction "is") (auto simp: hash_cmp_two hash_cmp_step simp del: hash_cmp_bits.simps(2) split: list.splits)

lemma hash_cmp_none:
  "hash_cmp_bits is data buf (0, no1, no2) =
     (case filter (wrong_bit data buf) is of [] \<Rightarrow> Some (0, no1, no2) | [a] \<Rightarrow> Some (1, of_nat a, no2)
      | [a, b] \<Rightarrow> Some (2, of_nat a, of_nat b) | _ \<Rightarrow> None)"
  by (induction "is") (auto simp: hash_cmp_one [unfolded One_nat_def] hash_cmp_step simp del: hash_cmp_bits.simps(2) split: list.splits)

lemma distinct_concat_map:
  assumes "distinct ns" "\<And>n. distinct (f n)" "\<And>n m. n \<noteq> m \<Longrightarrow> set (f n) \<inter> set (f m) = {}"
  shows "distinct (concat (map f ns))"
  using assms(1)
proof (induction ns)
  case (Cons n ns)
  have "set (f n) \<inter> set (f m) = {}" if "m \<in> set ns" for m
    using Cons.prems that by (intro assms(3)) auto
  then show ?case using Cons assms(2) by auto
qed simp

lemma distinct_positions: "distinct (hash_positions data buf)"
  unfolding hash_positions_def by (rule distinct_concat_map) (auto simp: distinct_map inj_on_def)

lemma wrong_positions:
  "set (filter (wrong_bit data buf) (hash_positions data buf)) = {i. i < 256 \<and> wrong_bit data buf i}"
proof (intro equalityI subsetI)
  fix i assume "i \<in> set (filter (wrong_bit data buf) (hash_positions data buf))"
  then show "i \<in> {i. i < 256 \<and> wrong_bit data buf i}"
    by (auto simp: hash_positions_def split: if_splits)
next
  fix i assume i: "i \<in> {i. i < 256 \<and> wrong_bit data buf i}"
  then have "data ! (i div 8) \<noteq> buf ! (i div 8)" by (auto simp: wrong_bit_def)
  moreover have "i div 8 < 32" "i = 8 * (i div 8) + i mod 8" "i mod 8 < 8" using i by auto
  ultimately show "i \<in> set (filter (wrong_bit data buf) (hash_positions data buf))"
    using i unfolding hash_positions_def by (auto intro!: bexI [of _ "i div 8"])
qed

lemma same_bytes:
  assumes "length data = 32" "length buf = 32" "\<forall>i<256. \<not> wrong_bit data buf i"
  shows "data = buf"
proof (rule nth_equalityI)
  fix j assume "j < length data"
  then have j: "j < 32" using assms(1) by simp
  have "bit (data ! j) i = bit (buf ! j) i" if "i < 8" for i
    using assms(3) [rule_format, of "8 * j + i"] j that by (simp add: wrong_bit_def)
  then show "data ! j = buf ! j" by (simp add: byte_eq_iff)
qed (use assms in simp)

lemma bit_flip:
  assumes "length buf = 32" "j < 32" "i < 8"
  shows "bit (flip_bit_at buf (of_nat a) ! j) i = (bit (buf ! j) i \<noteq> (8 * j + i = a mod 256))"
proof -
  define x where "x = a mod 256"
  have x: "x < 256" "unat (of_nat a :: u8) = x" by (simp_all add: x_def unat_of_nat)
  have "unat (drop_bit 3 (of_nat a :: u8)) = x div 8" using x by (simp add: drop_bit_eq_div unat_div)
  moreover have "unat ((of_nat a :: u8) AND 7) = x mod 8"
  proof -
    have "(7 :: u8) = mask 3" by (simp add: mask_eq_exp_minus_1)
    then have "unat ((of_nat a :: u8) AND 7) = take_bit 3 (unat (of_nat a :: u8))"
      by (simp only: unsigned_take_bit_eq flip: take_bit_eq_mask)
    then show ?thesis using x by (simp add: take_bit_eq_mod)
  qed
  ultimately have f: "flip_bit_at buf (of_nat a) = buf[x div 8 := buf ! (x div 8) XOR push_bit (x mod 8) 1]"
    by (simp only: flip_bit_at_def Let_def)
  have "bit (buf ! j XOR push_bit (x mod 8) 1) i = (bit (buf ! j) i \<noteq> (i = x mod 8))"
    using assms(3) by (auto simp: bit_xor_iff bit_exp_iff)
  moreover have "(8 * j + i = x) = (j = x div 8 \<and> i = x mod 8)" using assms(3) by auto
  ultimately show ?thesis unfolding f x_def [symmetric] using assms(1,2)
    by (cases "j = x div 8") simp_all
qed

lemma hash_cmp_32:
  "length data = 32 \<Longrightarrow> length buf = 32 \<Longrightarrow> efpg_boot_hash_cmp data buf =
     (if data = buf then Some (0, 0, 0) else hash_cmp_bits (hash_positions data buf) data buf (0, 0, 0))"
  by (simp add: efpg_boot_hash_cmp_def EFPG_BOOT_BUF_LEN_def)

section \<open>The boot hash\<close>

lemma boot_readable:
  "readable 242 4" "readable 246 2" "readable 248 1" "readable 249 8" "readable 257 1" "readable 258 8" "readable 266 256"
  by (simp_all add: readable_def bad_range_def HAL_EFUSE_BIT_NUM_def)

lemma byte_at_frame:
  assumes "t + 8 \<le> s \<or> s + n \<le> t"
  shows "byte_at (burn s n p e) t = byte_at e t"
  using assms by (intro bit_word_eqI) (auto simp: bit_byte_at ef_bit_burn)

lemma bytes_at_frame:
  assumes "t + 8 * m \<le> s \<or> s + n \<le> t"
  shows "bytes_at (burn s n p e) t m = bytes_at e t m"
proof (rule nth_equalityI)
  fix j assume "j < length (bytes_at (burn s n p e) t m)"
  then have j: "j < m" by simp
  then have "8 * j + 8 \<le> 8 * m" by simp
  then have "t + 8 * j + 8 \<le> s \<or> s + n \<le> t + 8 * j" using assms by linarith
  then show "bytes_at (burn s n p e) t m ! j = bytes_at e t m ! j" using j byte_at_frame by simp
qed simp

text \<open>An acknowledged error bit: the enable byte is 1 and the number is there.\<close>

definition burn_en :: "nat \<Rightarrow> efuse \<Rightarrow> efuse" where "burn_en s e = burn s 1 (mem_at [1]) e"
definition burn_no :: "nat \<Rightarrow> u8 \<Rightarrow> efuse \<Rightarrow> efuse" where "burn_no s no e = burn s 8 (mem_at [no]) e"

lemma error_bit_eq:
  assumes "efuse_acquire e = HAL_OK" "readable en 1" "readable ns 8"
  shows "write_error_bit en 1 ns 8 no e =
    (if byte_at (burn_en en e) en \<noteq> 1 then (EFPG_ACK_DI_ERR, burn_en en e)
     else if no \<noteq> byte_at (burn_no ns no (burn_en en e)) ns then (EFPG_ACK_DI_ERR, burn_no ns no (burn_en en e))
     else (EFPG_ACK_OK, burn_no ns no (burn_en en e)))"
  using write_read_bytes [OF assms(2,1), of "[1]"] write_read_bytes [OF assms(3), of "burn_en en e" "[no]"]
  by (simp add: write_error_bit_def burn_en_def burn_no_def)

definition burn_boot_flag :: "efuse \<Rightarrow> efuse" where "burn_boot_flag e = burn 246 2 (mem_at [3]) e"

lemma boot_flag_eq:
  "efuse_acquire e = HAL_OK \<Longrightarrow> write_boot_flag e =
     (if byte_at (burn_boot_flag e) 246 = 0 then (EFPG_ACK_DI_ERR, burn_boot_flag e) else (EFPG_ACK_OK, burn_boot_flag e))"
  using write_read_bytes [OF boot_readable(2), of e "[3]"]
  by (simp add: write_boot_flag_def efpg_pos burn_boot_flag_def)

definition burn_hash :: "u8 list \<Rightarrow> efuse \<Rightarrow> efuse" where "burn_hash data e = burn 266 256 (mem_at data) e"

definition hash_at :: "efuse \<Rightarrow> u8 list" where "hash_at e = bytes_at e 266 32"

lemma burn_acquire [simp]:
  "efuse_acquire (burn_en s e) = HAL_OK" "efuse_acquire (burn_no s no e) = HAL_OK"
  "efuse_acquire (burn_hash d e) = HAL_OK" "efuse_acquire (burn_boot_flag e) = HAL_OK"
  "ready (burn_boot_flag e) = burn_boot_flag e"
  by (simp_all add: burn_en_def burn_no_def burn_hash_def burn_boot_flag_def)

lemma write_boot_eq:
  assumes "efuse_acquire e = HAL_OK"
  shows "efpg_write_boot data e =
    (case efpg_boot_hash_cmp data (hash_at (burn_hash data e)) of
       None \<Rightarrow> (EFPG_ACK_DI_ERR, burn_hash data e)
     | Some (err_cnt, no1, no2) \<Rightarrow>
         if err_cnt = 0 then write_boot_flag (burn_hash data e)
         else (case write_error_bit 248 1 249 8 no1 (burn_hash data e) of
                 (ack, e2) \<Rightarrow>
                   if ack \<noteq> EFPG_ACK_OK then (ack, e2) else if err_cnt \<noteq> 2 then write_boot_flag e2
                   else (case write_error_bit 257 1 258 8 no2 e2 of
                           (ack2, e3) \<Rightarrow> if ack2 \<noteq> EFPG_ACK_OK then (ack2, e3) else write_boot_flag e3)))"
proof -
  have "write_read 266 256 data e = (Some (hash_at (burn_hash data e)), burn_hash data e)"
    using write_read_bytes [OF boot_readable(7) assms, of data] by (simp add: burn_hash_def hash_at_def)
  then show ?thesis unfolding efpg_write_boot_def efpg_pos by simp
qed

lemma read_then_bytes:
  "readable s n \<Longrightarrow> efuse_acquire e = HAL_OK \<Longrightarrow> read_then s n e f = f (bytes_at e s ((n + 7) div 8)) (ready e)"
  by (simp add: read_then_def read_bytes)

lemma read_boot_eq:
  assumes "efuse_acquire e = HAL_OK" "byte_at e 246 \<noteq> 0"
  shows "efpg_read_boot e =
    (EFPG_ACK_OK,
     if byte_at e 248 = 0 then hash_at e
     else if byte_at e 257 = 0 then flip_bit_at (hash_at e) (byte_at e 249)
     else flip_bit_at (flip_bit_at (hash_at e) (byte_at e 249)) (byte_at e 258), ready e)"
  using assms boot_readable
  by (simp add: efpg_read_boot_def efpg_pos read_then_bytes hash_at_def Let_def)

lemma length_hash_at [simp]: "length (hash_at e) = 32"
  by (simp add: hash_at_def)

lemma length_flip [simp]: "length (flip_bit_at d no) = length d"
  by (simp add: flip_bit_at_def Let_def)

text \<open>The comparison describes how to get from the hash read back to the hash wanted.\<close>

lemma hash_cmp_correct:
  assumes "length data = 32" "length buf = 32" "efpg_boot_hash_cmp data buf = Some (cnt, no1, no2)"
  shows "cnt \<le> 2" "cnt = 0 \<Longrightarrow> buf = data" "cnt = 1 \<Longrightarrow> flip_bit_at buf no1 = data"
    "cnt = 2 \<Longrightarrow> flip_bit_at (flip_bit_at buf no1) no2 = data"
proof -
  define ws where "ws = filter (wrong_bit data buf) (hash_positions data buf)"
  have set_ws: "set ws = {i. i < 256 \<and> wrong_bit data buf i}" unfolding ws_def by (rule wrong_positions)
  have flip: "bit (flip_bit_at b (of_nat a) ! j) i = (bit (b ! j) i \<noteq> (8 * j + i = a))"
    if "length b = 32" "j < 32" "i < 8" "a < 256" for a b i j
    using bit_flip [OF that(1-3), of a] that(4) by simp
  have ext: "b = data" if "length b = 32" "\<And>j i. j < 32 \<Longrightarrow> i < 8 \<Longrightarrow> bit (b ! j) i = bit (data ! j) i" for b
    using that assms(1) by (intro nth_equalityI) (auto simp: byte_eq_iff)
  have w: "wrong_bit data buf (8 * j + i) = (bit (data ! j) i \<noteq> bit (buf ! j) i)" if "i < 8" for i j
    using that by (simp add: wrong_bit_def)
  have inset: "(8 * j + i \<in> set ws) = (bit (data ! j) i \<noteq> bit (buf ! j) i)" if "j < 32" "i < 8" for i j
    using w [OF that(2)] that by (simp add: set_ws)
  have small: "a < 256" if "a \<in> set ws" for a using that by (simp add: set_ws)
  have dist: "distinct ws" by (simp add: ws_def distinct_positions)
  consider "ws = []" | a where "ws = [a]" | a b where "ws = [a, b]" | a b c r where "ws = a # b # c # r"
    by (metis list.exhaust)
  then have "(cnt = 0 \<and> buf = data) \<or> (cnt = 1 \<and> flip_bit_at buf no1 = data) \<or>
    (cnt = 2 \<and> flip_bit_at (flip_bit_at buf no1) no2 = data)"
  proof cases
    case 1
    then have "buf = data" using inset by (intro ext [OF assms(2)]) auto
    then show ?thesis using assms by (simp add: hash_cmp_32)
  next
    case (2 a)
    have "data \<noteq> buf" using 2 set_ws by (auto simp: wrong_bit_def)
    then have r: "cnt = 1" "no1 = of_nat a"
      using assms 2 hash_cmp_none [of "hash_positions data buf" data buf 0 0]
      by (auto simp: hash_cmp_32 simp flip: ws_def)
    have "flip_bit_at buf (of_nat a) = data"
    proof (rule ext)
      fix j i :: nat assume ji: "j < 32" "i < 8"
      show "bit (flip_bit_at buf (of_nat a) ! j) i = bit (data ! j) i"
        using flip [OF assms(2) ji, of a] inset [OF ji] small [of a] 2 by auto
    qed (simp add: assms(2))
    then show ?thesis using r by simp
  next
    case (3 a b)
    have "data \<noteq> buf" using 3 set_ws by (auto simp: wrong_bit_def)
    then have r: "cnt = 2" "no1 = of_nat a" "no2 = of_nat b"
      using assms 3 hash_cmp_none [of "hash_positions data buf" data buf 0 0]
      by (auto simp: hash_cmp_32 simp flip: ws_def)
    have "flip_bit_at (flip_bit_at buf (of_nat a)) (of_nat b) = data"
    proof (rule ext)
      fix j i :: nat assume ji: "j < 32" "i < 8"
      have "bit (flip_bit_at (flip_bit_at buf (of_nat a)) (of_nat b) ! j) i =
          (bit (flip_bit_at buf (of_nat a) ! j) i \<noteq> (8 * j + i = b))"
        using flip [OF _ ji, of "flip_bit_at buf (of_nat a)" b] small [of b] 3 assms(2) by simp
      then show "bit (flip_bit_at (flip_bit_at buf (of_nat a)) (of_nat b) ! j) i = bit (data ! j) i"
        using flip [OF assms(2) ji, of a] inset [OF ji] small [of a] 3 dist by auto
    qed (simp add: assms(2))
    then show ?thesis using r by simp
  next
    case (4 a b c r)
    have "data \<noteq> buf" using 4 set_ws by (auto simp: wrong_bit_def)
    then show ?thesis
      using assms 4 hash_cmp_none [of "hash_positions data buf" data buf 0 0]
      by (auto simp: hash_cmp_32 simp flip: ws_def)
  qed
  then show "cnt \<le> 2" "cnt = 0 \<Longrightarrow> buf = data" "cnt = 1 \<Longrightarrow> flip_bit_at buf no1 = data"
    "cnt = 2 \<Longrightarrow> flip_bit_at (flip_bit_at buf no1) no2 = data"
    by auto
qed

lemma error_bit_ok:
  assumes "efuse_acquire e = HAL_OK" "readable en 1" "readable ns 8" "write_error_bit en 1 ns 8 no e = (EFPG_ACK_OK, e')"
  shows "e' = burn_no ns no (burn_en en e)" "byte_at (burn_en en e) en = 1" "byte_at e' ns = no"
  using assms(4) unfolding error_bit_eq [OF assms(1-3)] by (auto simp: ack_defs split: if_splits)

lemma boot_flag_ok:
  assumes "efuse_acquire e = HAL_OK" "write_boot_flag e = (EFPG_ACK_OK, e')"
  shows "e' = burn_boot_flag e" "byte_at e' 246 \<noteq> 0"
  using assms(2) unfolding boot_flag_eq [OF assms(1)] by (auto simp: ack_defs split: if_splits)

text \<open>The fields that describe the wrong bits are blank before the write.\<close>

definition error_fields_blank :: "efuse \<Rightarrow> bool" where
  "error_fields_blank e = (\<forall>b. 248 \<le> b \<and> b < 266 \<longrightarrow> \<not> ef_bit e b)"

lemma blank_byte: "error_fields_blank e \<Longrightarrow> 248 \<le> s \<Longrightarrow> s + 8 \<le> 266 \<Longrightarrow> byte_at e s = 0"
  by (auto simp: byte_zero_iff bit_byte_at error_fields_blank_def)

lemma bit0_nonzero: "ef_bit e s \<Longrightarrow> byte_at e s \<noteq> 0"
  using bit_byte_at [of e s 0] by force

lemma write_boot_cases:
  assumes "efuse_acquire e = HAL_OK" "length data = 32" "error_fields_blank e" "efpg_write_boot data e = (EFPG_ACK_OK, e')"
  shows "efpg_read_boot e' = (EFPG_ACK_OK, data, e') \<and> efuse_acquire e' = HAL_OK \<and>
    (ef_bit e' 246 \<or> ef_bit e' 247 \<or> ef_bit e' 248)"
proof -
  define e1 where "e1 = burn_hash data e"
  have a1: "efuse_acquire e1 = HAL_OK" by (simp add: e1_def)
  have blank1: "byte_at e1 s = 0" if "248 \<le> s" "s + 8 \<le> 266" for s
    using that blank_byte [OF assms(3)] byte_at_frame [of s 266] by (simp add: e1_def burn_hash_def)
  obtain cnt no1 no2 where cmp: "efpg_boot_hash_cmp data (hash_at e1) = Some (cnt, no1, no2)"
    using assms(4) unfolding write_boot_eq [OF assms(1)] by (auto simp: ack_defs e1_def split: option.splits)
  note cc = hash_cmp_correct [OF assms(2) length_hash_at cmp]
  have w: "efpg_write_boot data e =
    (if cnt = 0 then write_boot_flag e1
     else (case write_error_bit 248 1 249 8 no1 e1 of
             (ack, e2) \<Rightarrow> if ack \<noteq> EFPG_ACK_OK then (ack, e2) else if cnt \<noteq> 2 then write_boot_flag e2
               else (case write_error_bit 257 1 258 8 no2 e2 of
                       (ack2, e3) \<Rightarrow> if ack2 \<noteq> EFPG_ACK_OK then (ack2, e3) else write_boot_flag e3)))"
    using cmp unfolding write_boot_eq [OF assms(1)] by (simp add: e1_def)
  have flag_frame: "byte_at (burn_boot_flag f) s = byte_at f s" "hash_at (burn_boot_flag f) = hash_at f" if "248 \<le> s" for f s
    using that byte_at_frame [of s 246 2] bytes_at_frame [of 266 32 246 2] by (simp_all add: burn_boot_flag_def hash_at_def)
  have hash_frame: "hash_at (burn_no ns no (burn_en en f)) = hash_at f" if "en < 258" "ns < 259" for en ns no f
    using that by (simp add: hash_at_def burn_no_def burn_en_def bytes_at_frame)
  show ?thesis
  proof (cases "cnt = 0")
    case True
    then have "write_boot_flag e1 = (EFPG_ACK_OK, e')" using w assms(4) by simp
    note f = boot_flag_ok [OF a1 this]
    have "byte_at e' 248 = 0" "hash_at e' = hash_at e1" using f(1) blank1 [of 248] flag_frame [of 248 e1] by simp_all
    moreover have "ef_bit e' 246 \<or> ef_bit e' 247"
    proof (rule ccontr)
      assume n: "\<not> (ef_bit e' 246 \<or> ef_bit e' 247)"
      have "\<not> ef_bit e' (246 + i)" if "i < 8" for i
      proof (cases "i < 2")
        case True
        then show ?thesis using n by (auto simp: less_2_cases_iff)
      next
        case False
        then show ?thesis using \<open>byte_at e' 248 = 0\<close> that bit_byte_at [of e' 248 "i - 2"] by simp
      qed
      then show False using f(2) by (simp add: byte_zero_iff bit_byte_at)
    qed
    ultimately show ?thesis using read_boot_eq [of e'] f cc(2) True by auto
  next
    case False
    obtain ack e2 where eb: "write_error_bit 248 1 249 8 no1 e1 = (ack, e2)" by force
    have ack: "ack = EFPG_ACK_OK" using w False assms(4) eb by (auto split: if_splits)
    note b1 = error_bit_ok [OF a1 boot_readable(3,4) eb [unfolded ack]]
    have a2: "efuse_acquire e2 = HAL_OK" using b1(1) by simp
    have bit248: "ef_bit e2 248"
    proof -
      have "bit (byte_at (burn_en 248 e1) 248) 0" using b1(2) by simp
      then show ?thesis by (simp add: bit_byte_at b1(1) burn_no_def ef_bit_burn)
    qed
    have blank2: "byte_at e2 257 = 0"
      using blank1 [of 257] byte_at_frame [of 257 249 8] byte_at_frame [of 257 248 1]
      by (simp add: b1(1) burn_no_def burn_en_def)
    have h2: "hash_at e2 = hash_at e1" using hash_frame [of 248 249] b1(1) by simp
    show ?thesis
    proof (cases "cnt = 2")
      case False
      then have "cnt = 1" using cc(1) \<open>cnt \<noteq> 0\<close> by simp
      have "write_boot_flag e2 = (EFPG_ACK_OK, e')" using w False \<open>cnt \<noteq> 0\<close> assms(4) eb ack by simp
      note f = boot_flag_ok [OF a2 this]
      have "byte_at e' 248 \<noteq> 0" "byte_at e' 249 = no1" "byte_at e' 257 = 0" "hash_at e' = hash_at e1"
        using f(1) flag_frame [of 248 e2] flag_frame [of 249 e2] flag_frame [of 257 e2] b1(3) blank2 h2 bit0_nonzero [OF bit248]
        by simp_all
      moreover have "ef_bit e' 248" using bit248 by (simp add: f(1) burn_boot_flag_def ef_bit_burn)
      ultimately show ?thesis using read_boot_eq [of e'] f cc(3) \<open>cnt = 1\<close> by simp
    next
      case True
      obtain ack2 e3 where eb2: "write_error_bit 257 1 258 8 no2 e2 = (ack2, e3)" by force
      have ack2: "ack2 = EFPG_ACK_OK" using w True assms(4) eb ack eb2 by (auto split: if_splits)
      note b2 = error_bit_ok [OF a2 boot_readable(5,6) eb2 [unfolded ack2]]
      have a3: "efuse_acquire e3 = HAL_OK" using b2(1) by simp
      have "write_boot_flag e3 = (EFPG_ACK_OK, e')" using w True assms(4) eb ack eb2 ack2 by simp
      note f = boot_flag_ok [OF a3 this]
      have bit257: "ef_bit e3 257"
      proof -
        have "bit (byte_at (burn_en 257 e2) 257) 0" using b2(2) by simp
        then show ?thesis by (simp add: bit_byte_at b2(1) burn_no_def ef_bit_burn)
      qed
      have "byte_at e3 249 = no1"
        using b1(3) byte_at_frame [of 249 258 8] byte_at_frame [of 249 257 1] by (simp add: b2(1) burn_no_def burn_en_def)
      moreover have b3: "ef_bit e3 248" using bit248 by (simp add: b2(1) burn_no_def burn_en_def ef_bit_burn)
      ultimately have "byte_at e' 248 \<noteq> 0" "byte_at e' 249 = no1" "byte_at e' 257 \<noteq> 0" "byte_at e' 258 = no2"
        "hash_at e' = hash_at e1"
        using f(1) flag_frame [of 248 e3] flag_frame [of 249 e3] flag_frame [of 257 e3] flag_frame [of 258 e3] b2(3)
          h2 hash_frame [of 257 258 no2 e2] bit0_nonzero [OF bit257] bit0_nonzero [of e3 248] b2(1)
        by simp_all
      moreover have "ef_bit e' 248" using b3 by (simp add: f(1) burn_boot_flag_def ef_bit_burn)
      ultimately show ?thesis using read_boot_eq [of e'] f cc(4) True by simp
    qed
  qed
qed

text \<open>One bad fuse in the hash and one in the number of the wrong bit.\<close>

lemma boot_one_bad:
  assumes "efuse_acquire e = HAL_OK" "length data = 32" "error_fields_blank e"
    "\<forall>b. 266 \<le> b \<and> b < 522 \<longrightarrow> \<not> ef_bit e b" "n < 256" "k < 8"
    "bit (data ! (n div 8)) (n mod 8)" "bit (of_nat n :: u8) k" "\<forall>b. ef_stuck e b = (b = 266 + n \<or> b = 249 + k)"
  shows "\<exists>e' data'. efpg_write_boot data e = (EFPG_ACK_DI_ERR, e') \<and> efpg_read_boot e' = (EFPG_ACK_OK, data', ready e') \<and>
    data' \<noteq> data"
proof -
  define e1 where "e1 = burn_hash data e"
  define no where "no = (of_nat n :: u8)"
  have st: "ef_stuck e1 b = (b = 266 + n \<or> b = 249 + k)" for b
    using assms(9) by (simp add: e1_def burn_hash_def)
  have hash: "bit (hash_at e1 ! j) i = (bit (data ! j) i \<and> 8 * j + i \<noteq> n)" if "j < 32" "i < 8" for j i
  proof -
    have "(8 * j + i) div 8 = j" "(8 * j + i) mod 8 = i" "8 * j + i < 256" using that by simp_all
    then show ?thesis using that assms(2,4,9) \<open>k < 8\<close>
      by (auto simp: hash_at_def bit_byte_at e1_def burn_hash_def ef_bit_burn data_bit_mem add.assoc)
  qed
  have wrong: "(i < 256 \<and> wrong_bit data (hash_at e1) i) = (i = n)" for i
  proof (cases "i < 256")
    case True
    then have "i div 8 < 32" "i mod 8 < 8" by auto
    from hash [OF this] show ?thesis using True assms(7) by (auto simp: wrong_bit_def)
  qed (use assms(5) in auto)
  define ws where "ws = filter (wrong_bit data (hash_at e1)) (hash_positions data (hash_at e1))"
  have "set ws = {n}" using wrong by (simp add: ws_def wrong_positions del: set_filter)
  moreover have "distinct ws" by (simp add: ws_def distinct_positions)
  ultimately have ws: "ws = [n]"
  proof (cases ws)
    case (Cons a r)
    then have "a = n" "set r \<subseteq> {n}" "n \<notin> set r" using \<open>set ws = {n}\<close> \<open>distinct ws\<close> by auto
    then have "r = []" by (cases r) auto
    then show ?thesis using Cons \<open>a = n\<close> by simp
  qed simp
  have "data \<noteq> hash_at e1" using wrong [of n] by (auto simp: wrong_bit_def)
  then have cmp: "efpg_boot_hash_cmp data (hash_at e1) = Some (1, no, 0)"
    using hash_cmp_none [of "hash_positions data (hash_at e1)" data "hash_at e1" 0 0] ws assms(2)
    by (simp add: hash_cmp_32 no_def flip: ws_def)
  define e2 where "e2 = burn_en 248 e1"
  define e3 where "e3 = burn_no 249 no e2"
  have bits1: "\<not> ef_bit e1 b" if "248 \<le> b" "b < 266" for b
    using that assms(3) by (simp add: e1_def burn_hash_def ef_bit_burn error_fields_blank_def)
  have en: "byte_at e2 248 = 1"
  proof (rule bit_word_eqI)
    fix i assume "i < LENGTH(8)"
    then show "bit (byte_at e2 248) i = bit (1 :: u8) i"
      using bits1 [of "248 + i"] st [of 248] by (auto simp: bit_byte_at e2_def burn_en_def ef_bit_burn data_bit_mem bit_1_iff)
  qed
  have e3k: "\<not> ef_bit e3 (249 + k)"
    using bits1 [of "249 + k"] st [of "249 + k"] assms(6)
    by (simp add: e3_def burn_no_def ef_bit_burn e2_def burn_en_def)
  then have "bit (byte_at e3 249) k \<noteq> bit no k" using assms(6,8) by (simp add: bit_byte_at no_def)
  then have ne: "byte_at e3 249 \<noteq> no" by auto
  have "write_error_bit 248 1 249 8 no e1 = (EFPG_ACK_DI_ERR, e3)"
    using error_bit_eq [of e1 248 249 no] boot_readable(3,4) en ne by (simp add: e1_def e2_def e3_def)
  then have w: "efpg_write_boot data e = (EFPG_ACK_DI_ERR, e3)"
    using write_boot_eq [OF assms(1), of data] cmp by (simp add: ack_defs flip: e1_def)
  have b248: "ef_bit e3 248" "ef_bit e2 248"
    using st [of 248] by (simp_all add: e3_def burn_no_def e2_def burn_en_def ef_bit_burn data_bit_mem bit_1_iff)
  have "byte_at e3 246 \<noteq> 0" using b248(1) bit_byte_at [of e3 246 2] by force
  moreover have "byte_at e3 257 = 0"
    using bits1 by (auto simp: byte_zero_iff bit_byte_at e3_def burn_no_def e2_def burn_en_def ef_bit_burn)
  moreover have "hash_at e3 = hash_at e1"
    by (simp add: e3_def e2_def hash_at_def burn_no_def burn_en_def bytes_at_frame)
  ultimately have r: "efpg_read_boot e3 = (EFPG_ACK_OK, flip_bit_at (hash_at e1) (byte_at e3 249), ready e3)"
    using read_boot_eq [of e3] bit0_nonzero [OF b248(1)] by (simp add: e3_def)
  have "flip_bit_at (hash_at e1) (byte_at e3 249) \<noteq> data"
  proof
    assume d: "flip_bit_at (hash_at e1) (byte_at e3 249) = data"
    have "unat (byte_at e3 249) \<noteq> n"
    proof
      assume u: "unat (byte_at e3 249) = n"
      show False using ne by (simp add: no_def flip: u)
    qed
    then have "bit (flip_bit_at (hash_at e1) (byte_at e3 249) ! (n div 8)) (n mod 8) = bit (hash_at e1 ! (n div 8)) (n mod 8)"
      using bit_flip [of "hash_at e1" "n div 8" "n mod 8" "unat (byte_at e3 249)"] assms(5) unat_u8 [of "byte_at e3 249"] by auto
    then show False using d hash [of "n div 8" "n mod 8"] assms(5,7) by simp
  qed
  then show ?thesis using w r by blast
qed

section \<open>Oscillator type and user area\<close>

lemma hosc_marked:
  assumes "efuse_acquire e = HAL_OK" "ef_bit e 246 \<or> ef_bit e 247 \<or> ef_bit e 248" "v < 16"
  shows "(\<exists>x. efpg_read_hosc e = (EFPG_ACK_OK, [x], ready e) \<and> \<not> x < 16) \<and> fst (efpg_write_hosc [v] e) = EFPG_ACK_DI_ERR"
proof -
  have big: "\<not> byte_at f 242 < 16" if "ef_bit f 246 \<or> ef_bit f 247 \<or> ef_bit f 248" for f
  proof
    assume "byte_at f 242 < 16"
    then have l: "unat (byte_at f 242) < 16" by (simp add: word_less_nat_alt)
    have z: "\<not> bit (byte_at f 242) i" if "4 \<le> i" for i
    proof
      assume "bit (byte_at f 242) i"
      then have "odd (unat (byte_at f 242) div 2 ^ i)"
        by (simp add: bit_unsigned_iff flip: bit_iff_odd)
      moreover have "(16 :: nat) \<le> 2 ^ i" using that power_increasing [of 4 i "2 :: nat"] by simp
      then have "unat (byte_at f 242) < 2 ^ i" using l by linarith
      ultimately show False by simp
    qed
    show False using that z [of 4] z [of 5] z [of 6] by (auto simp: bit_byte_at)
  qed
  have r: "efpg_read_hosc e = (EFPG_ACK_OK, [byte_at e 242], ready e)"
    using assms(1) boot_readable(1) by (simp add: efpg_read_hosc_def efpg_pos read_then_bytes)
  define e1 where "e1 = burn 242 4 (mem_at [v]) e"
  have "\<not> byte_at e1 242 < 16" using assms(2) by (intro big) (auto simp: e1_def ef_bit_burn)
  then have "byte_at e1 242 \<noteq> v" using assms(3) by auto
  then have "fst (efpg_write_hosc [v] e) = EFPG_ACK_DI_ERR"
    using write_read_bytes [OF boot_readable(1) assms(1), of "[v]"] by (auto simp: efpg_write_hosc_def efpg_pos e1_def)
  then show ?thesis using r big [OF assms(2)] by blast
qed

lemma user_area_write_read:
  assumes "efuse_acquire e = HAL_OK" "\<not> bad_user_range start num"
    "\<forall>b. 672 + start \<le> b \<and> b < 672 + start + num \<longrightarrow> \<not> ef_bit e b \<and> \<not> ef_stuck e b" "num \<le> 8 * length data"
  shows "\<exists>e' bs. efpg_write_user_area start num data e = (EFPG_ACK_OK, e') \<and>
    efpg_read_user_area start num e' = (EFPG_ACK_OK, bs, e') \<and>
    (\<forall>i<num. bit (bs ! (i div 8)) (i mod 8) = bit (data ! (i div 8)) (i mod 8))"
proof -
  define s where "s = start + 672"
  have r: "\<not> bad_range s num"
    using assms(2) by (auto simp: bad_user_range_def bad_range_def HAL_EFUSE_BIT_NUM_def efpg_pos s_def)
  define e1 where "e1 = burn s num (mem_at data) e"
  have w: "efpg_write_user_area start num data e = (EFPG_ACK_OK, e1)"
    using assms(2) write_range [OF r assms(1)] by (simp add: efpg_write_user_area_def efpg_pos e1_def s_def)
  have rd: "efpg_read_user_area start num e1 = (EFPG_ACK_OK, fuse_bytes s num e1, e1)"
    using assms(2) read_range [OF r, of e1]
    by (simp add: efpg_read_user_area_def read_then_def efpg_pos s_def e1_def)
  have "bit (fuse_bytes s num e1 ! (i div 8)) (i mod 8) = bit (data ! (i div 8)) (i mod 8)" if "i < num" for i
  proof -
    have "(i + 8) div 8 \<le> (num + 7) div 8" by (rule div_le_mono) (use that in simp)
    then have "i div 8 < (num + 7) div 8" by simp
    moreover have "8 * (i div 8) + i mod 8 = i" by simp
    moreover have "s + i < 32 * ((s + num) div 32 + 1)" using that by (rule_tac split32 [of "s + num"]) auto
    moreover have "i < 8 * length data" using that assms(4) by simp
    ultimately show ?thesis using that assms(3)
      by (simp add: fuse_bytes_def bit_fuse_byte e1_def ef_bit_burn data_bit_mem s_def add.assoc add.commute [of start 672])
  qed
  then show ?thesis using w rd by blast
qed

lemma ua_cut: "ucast (start + 65536 :: u32) = (ucast start :: u16)"
proof -
  have "unat (start + 65536) = (unat start + 65536) mod 4294967296" by (simp add: unat_word_ariths)
  then have "unat (start + 65536) mod 65536 = unat start mod 65536" by (simp add: mod_mod_cancel)
  then show ?thesis by (simp add: word_unat_eq_iff unsigned_ucast_eq take_bit_eq_mod)
qed

section \<open>Properties\<close>

text \<open>C19: When the writing of a boot hash is acknowledged, on a chip with any bad fuses and blank correction
  fields, the hash that is read is the hash written: up to two bad fuses are corrected.\<close>

theorem boot_hash_corrected:
  assumes "efuse_acquire e = HAL_OK" "length data = 32" "error_fields_blank e" "efpg_write_boot data e = (EFPG_ACK_OK, e')"
  shows "efpg_read_boot e' = (EFPG_ACK_OK, data, e')"
  using write_boot_cases [OF assms] by blast

lemma new_chip_blank: "error_fields_blank (new_chip bad)"
  by (simp add: error_fields_blank_def)

text \<open>A chip on which nothing of the zero hash is wrong.\<close>

lemma zero_hash_write:
  "\<exists>e'. efpg_write_boot (replicate 32 0) (new_chip bad_in_hash) = (EFPG_ACK_OK, e')"
  if "\<not> bad_in_hash 246" for bad_in_hash
proof -
  define e1 where "e1 = burn_hash (replicate 32 0) (new_chip bad_in_hash)"
  have "\<not> data_bit (mem_at (replicate 32 0)) i" for i by (simp add: data_bit_def mem_at_def)
  then have z: "\<not> ef_bit e1 b" for b by (simp add: e1_def burn_hash_def ef_bit_burn)
  have "hash_at e1 = replicate 32 0"
    by (intro nth_equalityI) (auto simp: hash_at_def byte_zero_iff bit_byte_at z)
  then have "efpg_boot_hash_cmp (replicate 32 0) (hash_at e1) = Some (0, 0, 0)" by (simp add: efpg_boot_hash_cmp_def)
  moreover have "bit (byte_at (burn_boot_flag e1) 246) 0"
    using that by (simp add: bit_byte_at burn_boot_flag_def ef_bit_burn data_bit_mem e1_def burn_hash_def)
  then have "byte_at (burn_boot_flag e1) 246 \<noteq> 0" by force
  ultimately show ?thesis
    using write_boot_eq [of "new_chip bad_in_hash" "replicate 32 0"] boot_flag_eq [of e1] by (simp add: e1_def)
qed

theorem boot_hash_corrected_witness:
  "\<exists>e'. efpg_write_boot (replicate 32 0) (new_chip (\<lambda>b. b = 300)) = (EFPG_ACK_OK, e') \<and>
    efpg_read_boot e' = (EFPG_ACK_OK, replicate 32 0, e')"
proof -
  obtain e' where w: "efpg_write_boot (replicate 32 0) (new_chip (\<lambda>b. b = 300)) = (EFPG_ACK_OK, e')"
    using zero_hash_write [of "\<lambda>b. b = 300"] by auto
  from boot_hash_corrected [OF _ _ new_chip_blank w] show ?thesis using w by simp
qed

text \<open>A boot hash whose writing failed can be read as good: with one bad fuse in the hash and one in the number
  that should describe it the write ends with a data error and without the flag, yet the read takes the enable bit
  behind the flag for the flag and acknowledges another hash.\<close>

lemma boot_failed_write_reads_ok:
  assumes "efuse_acquire e = HAL_OK" "length data = 32" "error_fields_blank e"
    "\<forall>b. 266 \<le> b \<and> b < 522 \<longrightarrow> \<not> ef_bit e b" "n < 256" "k < 8"
    "bit (data ! (n div 8)) (n mod 8)" "bit (of_nat n :: u8) k" "\<forall>b. ef_stuck e b = (b = 266 + n \<or> b = 249 + k)"
  shows "\<exists>e' data'. efpg_write_boot data e = (EFPG_ACK_DI_ERR, e') \<and>
    efpg_read_boot e' = (EFPG_ACK_OK, data', ready e') \<and> data' \<noteq> data"
  by (rule boot_one_bad [OF assms])

lemma boot_failed_write_reads_ok_witness:
  "\<exists>e' data'. efpg_write_boot (2 # replicate 31 0) (new_chip (\<lambda>b. b = 267 \<or> b = 249)) = (EFPG_ACK_DI_ERR, e') \<and>
    efpg_read_boot e' = (EFPG_ACK_OK, data', ready e') \<and> data' \<noteq> 2 # replicate 31 0"
  using boot_failed_write_reads_ok [OF new_chip_simps(3) _ new_chip_blank, of "2 # replicate 31 0" "\<lambda>b. b = 267 \<or> b = 249" 1 0]
  by auto

text \<open>Once a boot hash was written with success, the oscillator type is read with bits of the boot fields in its
  upper half, and writing any oscillator type is reported as a data error.\<close>

lemma hosc_after_boot:
  assumes "efuse_acquire e = HAL_OK" "length data = 32" "error_fields_blank e" "efpg_write_boot data e = (EFPG_ACK_OK, e')"
    and "v < 16"
  shows "(\<exists>x. efpg_read_hosc e' = (EFPG_ACK_OK, [x], ready e') \<and> \<not> x < 16) \<and>
    fst (efpg_write_hosc [v] e') = EFPG_ACK_DI_ERR"
  using write_boot_cases [OF assms(1-4)] hosc_marked [OF _ _ assms(5), of e'] by blast

lemma hosc_after_boot_witness:
  "\<exists>e'. efpg_write_boot (replicate 32 0) (new_chip (\<lambda>b. False)) = (EFPG_ACK_OK, e') \<and>
    fst (efpg_write_hosc [6] e') = EFPG_ACK_DI_ERR"
proof -
  obtain e' where w: "efpg_write_boot (replicate 32 0) (new_chip (\<lambda>b. False)) = (EFPG_ACK_OK, e')"
    using zero_hash_write [of "\<lambda>b. False"] by auto
  have "(6 :: u8) < 16" by simp
  from hosc_after_boot [OF _ _ new_chip_blank w this] show ?thesis using w by simp
qed

text \<open>The user area: a range outside it is refused without a change, what is written to good blank fuses is
  read back bit for bit, and the address that efpg_read_ua is given is cut to 16 bits, so that an address far outside
  reads the start of the area.\<close>

lemma user_area:
  assumes "efuse_acquire e = HAL_OK"
  shows "(bad_user_range start num \<longrightarrow> efpg_write_user_area start num data e = (EFPG_ACK_RW_ERR, e) \<and>
      efpg_read_user_area start num e = (EFPG_ACK_RW_ERR, [], e)) \<and>
    (\<not> bad_user_range start num \<and> num \<le> 8 * length data \<and>
      (\<forall>b. 672 + start \<le> b \<and> b < 672 + start + num \<longrightarrow> \<not> ef_bit e b \<and> \<not> ef_stuck e b) \<longrightarrow>
      (\<exists>e' bs. efpg_write_user_area start num data e = (EFPG_ACK_OK, e') \<and>
        efpg_read_user_area start num e' = (EFPG_ACK_OK, bs, e') \<and>
        (\<forall>i<num. bit (bs ! (i div 8)) (i mod 8) = bit (data ! (i div 8)) (i mod 8)))) \<and>
    efpg_read_ua (a + 65536) l e = efpg_read_ua a l e"
  using user_area_write_read [OF assms, of start num data]
  by (simp add: efpg_write_user_area_def efpg_read_user_area_def efpg_read_ua_def ua_cut)

lemma user_area_witness:
  "efpg_read_ua (0 + 65536) 8 (new_chip (\<lambda>b. False)) = efpg_read_ua 0 8 (new_chip (\<lambda>b. False)) \<and>
   (\<exists>e' bs. efpg_write_user_area 340 12 [0xAB, 0x0C] (new_chip (\<lambda>b. False)) = (EFPG_ACK_OK, e') \<and>
     efpg_read_user_area 340 12 e' = (EFPG_ACK_OK, bs, e'))"
proof -
  have "\<not> bad_user_range 340 12" by (simp add: bad_user_range_def efpg_pos)
  then show ?thesis
    using user_area [of "new_chip (\<lambda>b. False)" 340 12 "[0xAB, 0x0C]" 0 8] by auto
qed

end
