(* ===== verification/Efpg_Frame.thy ===== *)
theory Efpg_Frame
  imports Efpg_Boot
begin

text \<open>
  The dialogue with the programming tool, src/efpg/efpg_frame.c and the thread of src/efpg/efpg.c: command
  frames with a checksum, the extended command of the user area, data frames with a digest over command, data
  and key. The hash function SHA-256 (crypto engine and mbedtls) is the argument \<open>sha\<close>; what the kernel and
  the UART answer comes with each frame (\<open>efpg_ev\<close>). A frame received into a buffer that is too short for it
  is \<open>None\<close>.
\<close>

section \<open>Frames and codes\<close>

definition EFPG_CMD_FRAME_LEN :: u16 where "EFPG_CMD_FRAME_LEN = 8"
definition EFPG_MSG_DGST_LEN :: u16 where "EFPG_MSG_DGST_LEN = 32"
definition EFPG_HOSC_FRAME_LEN :: u16 where "EFPG_HOSC_FRAME_LEN = 33"
definition EFPG_BOOT_FRAME_LEN :: u16 where "EFPG_BOOT_FRAME_LEN = 64"
definition EFPG_MAC_FRAME_LEN :: u16 where "EFPG_MAC_FRAME_LEN = 38"
definition EFPG_CHIPID_FRAME_LEN :: u16 where "EFPG_CHIPID_FRAME_LEN = 48"
definition EFPG_UAER_AREA_EXT_LEN :: u16 where "EFPG_UAER_AREA_EXT_LEN = 13"
definition EFPG_DATA_FRAME_LEN_MAX :: nat where "EFPG_DATA_FRAME_LEN_MAX = 108"

definition EFPG_ACK_CS_ERR :: u16 where "EFPG_ACK_CS_ERR = 400"
definition EFPG_ACK_MD_ERR :: u16 where "EFPG_ACK_MD_ERR = 401"
definition EFPG_ACK_PARSE_ERR :: u16 where "EFPG_ACK_PARSE_ERR = 402"

definition EFPG_OP_CODE_READ :: u16 where "EFPG_OP_CODE_READ = 0x0FF0"
definition EFPG_OP_CODE_WRITE :: u16 where "EFPG_OP_CODE_WRITE = 0xF00F"
definition EFPG_OP_CODE_EXIT :: u16 where "EFPG_OP_CODE_EXIT = 0xFFFF"
definition EFPG_TYPE_HOSC :: u16 where "EFPG_TYPE_HOSC = 0xFF00"
definition EFPG_TYPE_BOOT :: u16 where "EFPG_TYPE_BOOT = 0xFE01"
definition EFPG_TYPE_MAC :: u16 where "EFPG_TYPE_MAC = 0xFB04"
definition EFPG_TYPE_USER_AREA :: u16 where "EFPG_TYPE_USER_AREA = 0xFA05"
definition EFPG_TYPE_CHIPID :: u16 where "EFPG_TYPE_CHIPID = 0xF906"

lemmas frame_consts =
  EFPG_CMD_FRAME_LEN_def EFPG_MSG_DGST_LEN_def EFPG_HOSC_FRAME_LEN_def EFPG_BOOT_FRAME_LEN_def EFPG_MAC_FRAME_LEN_def
  EFPG_CHIPID_FRAME_LEN_def EFPG_UAER_AREA_EXT_LEN_def EFPG_DATA_FRAME_LEN_MAX_def EFPG_OP_CODE_READ_def
  EFPG_OP_CODE_WRITE_def EFPG_OP_CODE_EXIT_def EFPG_TYPE_HOSC_def EFPG_TYPE_BOOT_def EFPG_TYPE_MAC_def
  EFPG_TYPE_USER_AREA_def EFPG_TYPE_CHIPID_def

datatype efpg_op = EFPG_OP_READ | EFPG_OP_WRITE | EFPG_OP_EXIT | EFPG_OP_NUM
datatype efpg_state = EFPG_STATE_CONTINUE | EFPG_STATE_RESET | EFPG_STATE_STOP

text \<open>\<open>ext_cmd\<close> is true for EFPG_EXT_CMD; \<open>fuses\<close> is the chip, \<open>sent\<close> what went out on the UART.\<close>

record efpg_priv =
  is_cmd :: bool
  ext_cmd :: bool
  cmd_frame :: "u8 list"
  data_frame :: "u8 list"
  ext_cmd_frame :: "u8 list"
  key :: "u8 list"
  expt_len :: u16
  recv_len :: u16
  protocol_version :: u16
  start_bit_addr :: u16
  bit_length :: u16
  efpg_op_of :: efpg_op
  efpg_fld :: efpg_field
  fuses :: efuse
  sent :: "u8 list list"

text \<open>Whether the acknowledge frame could be allocated and was transmitted, the data frame could be allocated, and
  the crypto engine worked.\<close>

record efpg_ev =
  ev_ack_alloc :: bool
  ev_ack_sent :: bool
  ev_frame_alloc :: bool
  ev_ce_ok :: bool

definition join16 :: "u8 \<Rightarrow> u8 \<Rightarrow> u16" where "join16 lo hi = ucast lo OR push_bit 8 (ucast hi)"

definition get16 :: "u8 list \<Rightarrow> nat \<Rightarrow> u16" where "get16 p k = join16 (p ! k) (p ! Suc k)"

definition put16 :: "u16 \<Rightarrow> u8 list" where
  "put16 v = [ucast v, ucast (drop_bit 8 v)]"

fun efpg_checksum8 :: "u8 list \<Rightarrow> u8" where
  "efpg_checksum8 [] = 0"
| "efpg_checksum8 (b # bs) = b + efpg_checksum8 bs"

definition ack_frame :: "u16 \<Rightarrow> u8 list" where
  "ack_frame status = put16 status @ [0, 0xFF - efpg_checksum8 (put16 status @ [0, 0])]"

definition efpg_send_ack :: "efpg_ev \<Rightarrow> u16 \<Rightarrow> efpg_priv \<Rightarrow> int \<times> efpg_priv" where
  "efpg_send_ack ev status s =
     (if \<not> ev_ack_alloc ev then (-1, s)
      else if \<not> ev_ack_sent ev then (-1, s)
      else (0, s\<lparr>sent := sent s @ [ack_frame status]\<rparr>))"

section \<open>Command frames\<close>

definition parse_op :: "u16 \<Rightarrow> efpg_op option" where
  "parse_op op_code =
     (if op_code = EFPG_OP_CODE_READ then Some EFPG_OP_READ
      else if op_code = EFPG_OP_CODE_WRITE then Some EFPG_OP_WRITE
      else if op_code = EFPG_OP_CODE_EXIT then Some EFPG_OP_EXIT
      else None)"

text \<open>The user area: the first frame announces the extended command, the second has address and length.\<close>

definition parse_user_area :: "u8 list \<Rightarrow> u16 \<Rightarrow> efpg_priv \<Rightarrow> (u16 \<times> efpg_priv) option" where
  "parse_user_area p len s =
     (if \<not> ext_cmd s
      then if p ! 6 \<noteq> 1 then None
           else Some (len, s\<lparr>ext_cmd := True, efpg_fld := EFPG_FIELD_UA, expt_len := EFPG_UAER_AREA_EXT_LEN\<rparr>)
      else (let bits = get16 p 10;
                el = bits div 8 + EFPG_MSG_DGST_LEN + (if bits mod 8 \<noteq> 0 then 1 else 0)
            in Some (el, s\<lparr>protocol_version := get16 p 6, start_bit_addr := get16 p 8, bit_length := bits,
                          ext_cmd := False, efpg_fld := EFPG_FIELD_UA, expt_len := el\<rparr>)))"

text \<open>The answer is the length to be compared, and the new state; nothing for a bad type.\<close>

definition parse_type :: "u8 list \<Rightarrow> u16 \<Rightarrow> u16 \<Rightarrow> efpg_priv \<Rightarrow> (u16 \<times> efpg_priv) option" where
  "parse_type p type len s =
     (if type = EFPG_TYPE_HOSC then Some (len, s\<lparr>efpg_fld := EFPG_FIELD_HOSC, expt_len := EFPG_HOSC_FRAME_LEN\<rparr>)
      else if type = EFPG_TYPE_BOOT then Some (len, s\<lparr>efpg_fld := EFPG_FIELD_BOOT, expt_len := EFPG_BOOT_FRAME_LEN\<rparr>)
      else if type = EFPG_TYPE_MAC then Some (len, s\<lparr>efpg_fld := EFPG_FIELD_MAC, expt_len := EFPG_MAC_FRAME_LEN\<rparr>)
      else if type = EFPG_TYPE_USER_AREA then parse_user_area p len s
      else if type = EFPG_TYPE_CHIPID then Some (len, s\<lparr>efpg_fld := EFPG_FIELD_CHIPID, expt_len := EFPG_CHIPID_FRAME_LEN\<rparr>)
      else None)"

definition efpg_parse_cmd :: "efpg_priv \<Rightarrow> int \<times> efpg_priv" where
  "efpg_parse_cmd s =
     (let p = (if ext_cmd s then ext_cmd_frame s else cmd_frame s); len = get16 p 4
      in case parse_op (get16 p 0) of
           None \<Rightarrow> (-1, s)
         | Some op \<Rightarrow>
             (let s1 = s\<lparr>efpg_op_of := op\<rparr>
              in if op = EFPG_OP_EXIT then (0, s1)
                 else case parse_type p (get16 p 2) len s1 of
                        None \<Rightarrow> (-1, s1)
                      | Some (len', s2) \<Rightarrow> if len' \<noteq> expt_len s2 then (-1, s2) else (0, s2)))"

definition efpg_ext_cmd_process :: "efpg_ev \<Rightarrow> efpg_priv \<Rightarrow> efpg_state \<times> efpg_priv" where
  "efpg_ext_cmd_process ev s =
     (let (r, s1) = efpg_send_ack ev EFPG_ACK_OK (s\<lparr>is_cmd := True, recv_len := 0\<rparr>)
      in (if r < 0 then EFPG_STATE_RESET else EFPG_STATE_CONTINUE, s1))"

text \<open>The frame of an answer: the data, and the digest over command, data and key.\<close>

definition answer_frame :: "(u8 list \<Rightarrow> u8 list) \<Rightarrow> u8 list \<Rightarrow> efpg_priv \<Rightarrow> u8 list" where
  "answer_frame sha bs s =
     (let payload = list_write (replicate (unat (expt_len s - EFPG_MSG_DGST_LEN)) 0) 0 bs
      in payload @ sha (cmd_frame s @ payload @ key s))"

definition efpg_read_process :: "(u8 list \<Rightarrow> u8 list) \<Rightarrow> efpg_ev \<Rightarrow> efpg_priv \<Rightarrow> efpg_state \<times> efpg_priv" where
  "efpg_read_process sha ev s =
     (if \<not> ev_frame_alloc ev then (EFPG_STATE_RESET, s)
      else (case efpg_read_field (efpg_fld s) (start_bit_addr s) (bit_length s) (fuses s) of
              (status, bs, e) \<Rightarrow>
                (let s1 = s\<lparr>fuses := e\<rparr>
                 in if status \<noteq> EFPG_ACK_OK then (EFPG_STATE_RESET, snd (efpg_send_ack ev status s1))
                    else (case efpg_send_ack ev EFPG_ACK_OK s1 of
                            (r, s2) \<Rightarrow>
                              if r < 0 then (EFPG_STATE_RESET, s2)
                              else (EFPG_STATE_RESET, s2\<lparr>sent := sent s2 @ [answer_frame sha bs s1]\<rparr>)))))"

definition efpg_write_process :: "efpg_ev \<Rightarrow> efpg_priv \<Rightarrow> efpg_state \<times> efpg_priv" where
  "efpg_write_process ev s =
     (let (r, s1) = efpg_send_ack ev EFPG_ACK_OK (s\<lparr>is_cmd := False, recv_len := 0\<rparr>)
      in (if r < 0 then EFPG_STATE_RESET else EFPG_STATE_CONTINUE, s1))"

definition efpg_stop_process :: "efpg_ev \<Rightarrow> efpg_priv \<Rightarrow> efpg_state \<times> efpg_priv" where
  "efpg_stop_process ev s =
     (let (r, s1) = efpg_send_ack ev EFPG_ACK_OK s in (if r < 0 then EFPG_STATE_RESET else EFPG_STATE_STOP, s1))"

definition efpg_cmd_frame_process :: "(u8 list \<Rightarrow> u8 list) \<Rightarrow> efpg_ev \<Rightarrow> efpg_priv \<Rightarrow> efpg_state \<times> efpg_priv" where
  "efpg_cmd_frame_process sha ev s =
     (let frame = (if ext_cmd s then ext_cmd_frame s else cmd_frame s)
      in if efpg_checksum8 (take (unat (recv_len s)) frame) \<noteq> 0xFF
         then (EFPG_STATE_RESET, snd (efpg_send_ack ev EFPG_ACK_CS_ERR s))
         else (case efpg_parse_cmd s of
                 (r, s1) \<Rightarrow>
                   if r < 0 then (EFPG_STATE_RESET, snd (efpg_send_ack ev EFPG_ACK_PARSE_ERR s1))
                   else if ext_cmd s1 then efpg_ext_cmd_process ev s1
                   else (case efpg_op_of s1 of
                           EFPG_OP_READ \<Rightarrow> efpg_read_process sha ev s1
                         | EFPG_OP_WRITE \<Rightarrow> efpg_write_process ev s1
                         | EFPG_OP_EXIT \<Rightarrow> efpg_stop_process ev s1
                         | EFPG_OP_NUM \<Rightarrow> (EFPG_STATE_STOP, s1))))"

section \<open>Data frames\<close>

text \<open>The bytes before the digest; the write functions of the fields get them as their buffer.\<close>

definition payload :: "efpg_priv \<Rightarrow> u8 list" where
  "payload s = take (unat (recv_len s) - 32) (data_frame s)"

definition efpg_check_msg_dgst :: "(u8 list \<Rightarrow> u8 list) \<Rightarrow> efpg_ev \<Rightarrow> efpg_priv \<Rightarrow> int" where
  "efpg_check_msg_dgst sha ev s =
     (let msg_dgst = take 32 (drop (unat (recv_len s) - 32) (data_frame s))
      in if \<not> ev_ce_ok ev then -1
         else if msg_dgst \<noteq> take 32 (sha (cmd_frame s @ payload s @ key s)) then -1 else 0)"

definition efpg_data_frame_process :: "(u8 list \<Rightarrow> u8 list) \<Rightarrow> efpg_ev \<Rightarrow> efpg_priv \<Rightarrow> efpg_state \<times> efpg_priv" where
  "efpg_data_frame_process sha ev s =
     (if efpg_check_msg_dgst sha ev s < 0
      then (EFPG_STATE_RESET, snd (efpg_send_ack ev EFPG_ACK_MD_ERR s))
      else (case efpg_write_field (efpg_fld s) (payload s) (start_bit_addr s) (bit_length s) (fuses s) of
              (status, e) \<Rightarrow> (EFPG_STATE_RESET, snd (efpg_send_ack ev status (s\<lparr>fuses := e\<rparr>)))))"

section \<open>The thread\<close>

definition efpg_reset :: "efpg_priv \<Rightarrow> efpg_priv" where
  "efpg_reset s =
     s\<lparr>is_cmd := True, ext_cmd := False, expt_len := EFPG_CMD_FRAME_LEN, recv_len := 0, efpg_op_of := EFPG_OP_NUM,
       efpg_fld := EFPG_FIELD_NUM, start_bit_addr := 0, bit_length := 0\<rparr>"

text \<open>The buffer of the next frame, and the frame stored in it when it fits.\<close>

definition frame_buf :: "efpg_priv \<Rightarrow> u8 list" where
  "frame_buf s = (if is_cmd s then if ext_cmd s then ext_cmd_frame s else cmd_frame s else data_frame s)"

definition store_frame :: "u8 list \<Rightarrow> efpg_priv \<Rightarrow> efpg_priv" where
  "store_frame bs s =
     (if is_cmd s then if ext_cmd s then s\<lparr>ext_cmd_frame := list_write (ext_cmd_frame s) 0 bs\<rparr>
                       else s\<lparr>cmd_frame := list_write (cmd_frame s) 0 bs\<rparr>
      else s\<lparr>data_frame := list_write (data_frame s) 0 bs\<rparr>)"

text \<open>
  One round: \<open>None\<close> is a failure of the UART, \<open>Some bs\<close> the bytes that arrived, of which at most \<open>expt_len\<close> are
  taken. The answer tells whether the thread goes on.
\<close>

definition efpg_round :: "(u8 list \<Rightarrow> u8 list) \<Rightarrow> efpg_ev \<Rightarrow> u8 list option \<Rightarrow> efpg_priv \<Rightarrow> (bool \<times> efpg_priv) option" where
  "efpg_round sha ev rx s =
     (case rx of
        None \<Rightarrow> Some (False, s)
      | Some arrived \<Rightarrow>
          (let bs = take (unat (expt_len s)) arrived
           in if bs = [] then Some (True, s)
              else if length bs > length (frame_buf s) then None
              else (let s1 = store_frame bs s
                    in if of_nat (length bs) \<noteq> expt_len s then Some (True, efpg_reset s1)
                       else (let s2 = s1\<lparr>recv_len := of_nat (length bs)\<rparr>
                             in case (if is_cmd s then efpg_cmd_frame_process sha ev s2
                                      else efpg_data_frame_process sha ev s2) of
                                  (EFPG_STATE_CONTINUE, s3) \<Rightarrow> Some (True, s3)
                                | (EFPG_STATE_RESET, s3) \<Rightarrow> Some (True, efpg_reset s3)
                                | (EFPG_STATE_STOP, s3) \<Rightarrow> Some (False, s3)))))"

text \<open>efpg_start: the key of 1 to 64 bytes. \<open>created\<close>: memory and thread were there.\<close>

definition efpg_start :: "u8 list \<Rightarrow> bool \<Rightarrow> efuse \<Rightarrow> efpg_priv option" where
  "efpg_start k created e =
     (if length k = 0 \<or> length k > 64 \<or> \<not> created then None
      else Some (efpg_reset
        \<lparr>is_cmd = True, ext_cmd = False, cmd_frame = replicate 8 0, data_frame = replicate 108 0,
         ext_cmd_frame = replicate 13 0, key = k, expt_len = 0, recv_len = 0, protocol_version = 0, start_bit_addr = 0,
         bit_length = 0, efpg_op_of = EFPG_OP_NUM, efpg_fld = EFPG_FIELD_NUM, fuses = e, sent = []\<rparr>))"

text \<open>A dialogue of several frames; it ends when the thread stops.\<close>

fun efpg_dialogue :: "(u8 list \<Rightarrow> u8 list) \<Rightarrow> (efpg_ev \<times> u8 list option) list \<Rightarrow> efpg_priv \<Rightarrow> efpg_priv option" where
  "efpg_dialogue sha [] s = Some s"
| "efpg_dialogue sha ((ev, rx) # rxs) s =
     (case efpg_round sha ev rx s of
        None \<Rightarrow> None
      | Some (True, s1) \<Rightarrow> efpg_dialogue sha rxs s1
      | Some (False, s1) \<Rightarrow> Some s1)"

section \<open>Reading does not burn\<close>

lemma ef_bit_read: "ef_bit (snd (snd (HAL_EFUSE_Read s n e))) = ef_bit e"
  by (simp add: HAL_EFUSE_Read_def Let_def)

lemma ef_bit_read_then:
  assumes "\<And>bs e'. ef_bit e' = ef_bit e \<Longrightarrow> ef_bit (snd (snd (f bs e'))) = ef_bit e"
  shows "ef_bit (snd (snd (read_then s n e f))) = ef_bit e"
  using assms ef_bit_read [of s n e] by (auto simp: read_then_def split: prod.splits)

lemma ef_bit_read_region: "ef_bit (snd (snd (efpg_read_region info e))) = ef_bit e"
  using ef_bit_read [of "flag_start info" "flag_bits info" e] ef_bit_read
  by (auto simp: efpg_read_region_def Let_def split: prod.splits) (metis snd_conv)+

lemma ef_bit_read_field: "ef_bit (snd (snd (efpg_read_field fld st l e))) = ef_bit e"
proof (cases fld)
  case EFPG_FIELD_BOOT
  have "ef_bit (snd (snd (efpg_read_boot e))) = ef_bit e"
    unfolding efpg_read_boot_def
    by (rule ef_bit_read_then, simp, intro impI, rule trans [OF ef_bit_read_then], rule trans [OF ef_bit_read_then],
        simp, intro impI, rule trans [OF ef_bit_read_then])
      (auto simp: Let_def intro!: trans [OF ef_bit_read_then])
  then show ?thesis using EFPG_FIELD_BOOT by (simp add: efpg_read_field_def)
qed (simp_all add: efpg_read_field_def efpg_read_hosc_def efpg_read_chipid_def efpg_read_user_area_def ef_bit_read_then
    efpg_read_mac_def ef_bit_read_region)

section \<open>What a round leaves alone\<close>

lemma send_ack_frame [simp]:
  "fuses (snd (efpg_send_ack ev st s)) = fuses s" "key (snd (efpg_send_ack ev st s)) = key s"
  "cmd_frame (snd (efpg_send_ack ev st s)) = cmd_frame s" "data_frame (snd (efpg_send_ack ev st s)) = data_frame s"
  "ext_cmd_frame (snd (efpg_send_ack ev st s)) = ext_cmd_frame s" "is_cmd (snd (efpg_send_ack ev st s)) = is_cmd s"
  "ext_cmd (snd (efpg_send_ack ev st s)) = ext_cmd s" "expt_len (snd (efpg_send_ack ev st s)) = expt_len s"
  "efpg_fld (snd (efpg_send_ack ev st s)) = efpg_fld s" "bit_length (snd (efpg_send_ack ev st s)) = bit_length s"
  by (simp_all add: efpg_send_ack_def)

definition same_base :: "efpg_priv \<Rightarrow> efpg_priv \<Rightarrow> bool" where
  "same_base s s' = (key s' = key s \<and> cmd_frame s' = cmd_frame s \<and> data_frame s' = data_frame s \<and>
     ext_cmd_frame s' = ext_cmd_frame s)"

lemma parse_type_frame:
  assumes "parse_type p t len s = Some (l, s2)"
  shows "same_base s s2 \<and> fuses s2 = fuses s \<and> is_cmd s2 = is_cmd s"
  using assms by (auto simp: parse_type_def parse_user_area_def Let_def same_base_def split: if_split_asm)

lemma parse_frame: "same_base s (snd (efpg_parse_cmd s)) \<and> fuses (snd (efpg_parse_cmd s)) = fuses s \<and>
    is_cmd (snd (efpg_parse_cmd s)) = is_cmd s"
proof -
  define p where "p = (if ext_cmd s then ext_cmd_frame s else cmd_frame s)"
  have "same_base (s\<lparr>efpg_op_of := op\<rparr>) s2 \<and> fuses s2 = fuses s \<and> is_cmd s2 = is_cmd s"
    if "parse_type p (get16 p 2) (get16 p 4) (s\<lparr>efpg_op_of := op\<rparr>) = Some (l, s2)" for op l s2
    using parse_type_frame [OF that] by simp
  then show ?thesis unfolding efpg_parse_cmd_def Let_def p_def [symmetric]
    by (auto simp: same_base_def split: option.splits)
qed

lemma cmd_process_frame:
  "same_base s (snd (efpg_cmd_frame_process sha ev s)) \<and>
   ef_bit (fuses (snd (efpg_cmd_frame_process sha ev s))) = ef_bit (fuses s)"
proof -
  obtain r s1 where p: "efpg_parse_cmd s = (r, s1)" by force
  then have b: "same_base s s1" "fuses s1 = fuses s" using parse_frame [of s] by simp_all
  have a: "same_base s (snd (efpg_send_ack ev st s1))" for st using b(1) by (simp add: same_base_def)
  have a0: "same_base s (snd (efpg_send_ack ev st s))" for st by (simp add: same_base_def)
  have x: "same_base s (snd (efpg_ext_cmd_process ev s1)) \<and> fuses (snd (efpg_ext_cmd_process ev s1)) = fuses s"
    using b by (simp add: efpg_ext_cmd_process_def efpg_send_ack_def same_base_def Let_def)
  have w: "same_base s (snd (efpg_write_process ev s1)) \<and> fuses (snd (efpg_write_process ev s1)) = fuses s"
    using b by (simp add: efpg_write_process_def efpg_send_ack_def same_base_def Let_def)
  have t: "same_base s (snd (efpg_stop_process ev s1)) \<and> fuses (snd (efpg_stop_process ev s1)) = fuses s"
    using b by (simp add: efpg_stop_process_def efpg_send_ack_def same_base_def Let_def)
  have r: "same_base s (snd (efpg_read_process sha ev s1)) \<and> ef_bit (fuses (snd (efpg_read_process sha ev s1))) = ef_bit (fuses s)"
  proof -
    obtain st bs e where f: "efpg_read_field (efpg_fld s1) (start_bit_addr s1) (bit_length s1) (fuses s1) = (st, bs, e)"
      by (metis prod.exhaust)
    then have "ef_bit e = ef_bit (fuses s)" using b ef_bit_read_field by (metis snd_conv)
    then show ?thesis using b f by (simp add: efpg_read_process_def efpg_send_ack_def same_base_def Let_def)
  qed
  show ?thesis unfolding efpg_cmd_frame_process_def p Let_def
    using a a0 x w t r b by (simp split: efpg_op.splits)
qed

section \<open>Which frame is expected\<close>

definition frame_inv :: "efpg_priv \<Rightarrow> bool" where
  "frame_inv s =
     (length (cmd_frame s) = 8 \<and> length (data_frame s) = 108 \<and> length (ext_cmd_frame s) = 13 \<and>
      (if is_cmd s then if ext_cmd s then expt_len s \<in> {13, 33, 64, 38, 48} else expt_len s = 8
       else if efpg_fld s = EFPG_FIELD_UA then unat (expt_len s) = (unat (bit_length s) + 7) div 8 + 32
       else expt_len s \<in> {33, 64, 38, 48}))"

lemma ua_frame_len:
  "unat (bits div 8 + 32 + (if bits mod 8 \<noteq> 0 then 1 else 0) :: u16) = (unat bits + 7) div 8 + 32" for bits :: u16
proof -
  define n where "n = unat bits"
  have n: "n < 65536" unfolding n_def by (rule unat_u16)
  have m: "(bits mod 8 \<noteq> 0) = (n mod 8 \<noteq> 0)" by (simp add: n_def unat_mod flip: unat_eq_0)
  have "n div 8 + 33 < 65536" using n by linarith
  then have "unat (bits div 8 + 32 + (if bits mod 8 \<noteq> 0 then 1 else 0) :: u16) = n div 8 + 32 + (if n mod 8 \<noteq> 0 then 1 else 0)"
    unfolding m by (simp add: unat_word_ariths unat_div n_def)
  also have "\<dots> = (n + 7) div 8 + 32" by (simp, presburger)
  finally show ?thesis by (simp add: n_def)
qed

lemma parse_type_expt:
  assumes "parse_type p t len s = Some (l, s2)"
  shows "if ext_cmd s2 then expt_len s2 \<in> {13, 33, 64, 38, 48}
    else if efpg_fld s2 = EFPG_FIELD_UA then unat (expt_len s2) = (unat (bit_length s2) + 7) div 8 + 32
    else expt_len s2 \<in> {33, 64, 38, 48}"
  using assms ua_frame_len [of "get16 p 10"]
  by (auto simp: parse_type_def parse_user_area_def Let_def EFPG_HOSC_FRAME_LEN_def EFPG_BOOT_FRAME_LEN_def
      EFPG_MAC_FRAME_LEN_def EFPG_CHIPID_FRAME_LEN_def EFPG_UAER_AREA_EXT_LEN_def EFPG_MSG_DGST_LEN_def split: if_split_asm)

lemma reset_inv: "length (cmd_frame s) = 8 \<Longrightarrow> length (data_frame s) = 108 \<Longrightarrow> length (ext_cmd_frame s) = 13 \<Longrightarrow>
    frame_inv (efpg_reset s)"
  by (simp add: efpg_reset_def frame_inv_def EFPG_CMD_FRAME_LEN_def)

lemma cmd_process_continue:
  assumes "frame_inv s" "is_cmd s" "efpg_cmd_frame_process sha ev s = (EFPG_STATE_CONTINUE, s')"
  shows "frame_inv s'"
proof -
  obtain r s1 where p: "efpg_parse_cmd s = (r, s1)" by force
  then have b: "same_base s s1" "is_cmd s1" using parse_frame [of s] assms(2) by simp_all
  then have len: "length (cmd_frame s1) = 8" "length (data_frame s1) = 108" "length (ext_cmd_frame s1) = 13"
    using assms(1) by (simp_all add: same_base_def frame_inv_def)
  have nxt: "r \<ge> 0" "(if ext_cmd s1 then efpg_ext_cmd_process ev s1
      else (case efpg_op_of s1 of
              EFPG_OP_READ \<Rightarrow> efpg_read_process sha ev s1
            | EFPG_OP_WRITE \<Rightarrow> efpg_write_process ev s1
            | EFPG_OP_EXIT \<Rightarrow> efpg_stop_process ev s1
            | EFPG_OP_NUM \<Rightarrow> (EFPG_STATE_STOP, s1))) = (EFPG_STATE_CONTINUE, s')"
    using assms(3) unfolding efpg_cmd_frame_process_def p Let_def by (auto split: if_split_asm)
  define q where "q = (if ext_cmd s then ext_cmd_frame s else cmd_frame s)"
  have ex: "s1 = s\<lparr>efpg_op_of := EFPG_OP_EXIT\<rparr> \<or> (\<exists>op l. parse_type q (get16 q 2) (get16 q 4) (s\<lparr>efpg_op_of := op\<rparr>) = Some (l, s1))"
    using p nxt(1) unfolding efpg_parse_cmd_def Let_def q_def [symmetric]
    by (auto split: option.splits if_split_asm prod.splits)
  have rp: "fst (efpg_read_process sha ev s1) \<noteq> EFPG_STATE_CONTINUE"
    by (simp add: efpg_read_process_def Let_def split: prod.splits)
  have sp: "fst (efpg_stop_process ev s1) \<noteq> EFPG_STATE_CONTINUE"
    by (simp add: efpg_stop_process_def Let_def split: prod.splits)
  show ?thesis
  proof (cases "ext_cmd s1")
    case True
    have "expt_len s1 \<in> {13, 33, 64, 38, 48}"
      using ex assms(1,2) True parse_type_expt by (fastforce simp: frame_inv_def)
    moreover have "s' = snd (efpg_send_ack ev EFPG_ACK_OK (s1\<lparr>is_cmd := True, recv_len := 0\<rparr>))"
      using nxt(2) True by (simp add: efpg_ext_cmd_process_def Let_def split: prod.splits)
    ultimately show ?thesis using len True by (simp add: frame_inv_def)
  next
    case False
    have w: "efpg_op_of s1 = EFPG_OP_WRITE" "efpg_write_process ev s1 = (EFPG_STATE_CONTINUE, s')"
      using nxt(2) False rp sp by (auto split: efpg_op.splits simp: prod_eq_iff)
    then have "s1 \<noteq> s\<lparr>efpg_op_of := EFPG_OP_EXIT\<rparr>" by auto
    then obtain op l where "parse_type q (get16 q 2) (get16 q 4) (s\<lparr>efpg_op_of := op\<rparr>) = Some (l, s1)" using ex by blast
    note e = parse_type_expt [OF this]
    have "s' = snd (efpg_send_ack ev EFPG_ACK_OK (s1\<lparr>is_cmd := False, recv_len := 0\<rparr>))"
      using w(2) by (simp add: efpg_write_process_def Let_def split: prod.splits)
    then show ?thesis using e False len by (auto simp: frame_inv_def split: if_split_asm)
  qed
qed

lemma store_frame_simps [simp]:
  "length (cmd_frame (store_frame bs s)) = length (cmd_frame s)" "length (data_frame (store_frame bs s)) = length (data_frame s)"
  "length (ext_cmd_frame (store_frame bs s)) = length (ext_cmd_frame s)" "fuses (store_frame bs s) = fuses s"
  "key (store_frame bs s) = key s" "is_cmd (store_frame bs s) = is_cmd s" "ext_cmd (store_frame bs s) = ext_cmd s"
  "expt_len (store_frame bs s) = expt_len s" "efpg_fld (store_frame bs s) = efpg_fld s"
  "bit_length (store_frame bs s) = bit_length s"
  by (simp_all add: store_frame_def)

lemma reset_simps [simp]: "fuses (efpg_reset s) = fuses s" "key (efpg_reset s) = key s"
  by (simp_all add: efpg_reset_def)

lemma data_process_state:
  "fst (efpg_data_frame_process sha ev s) = EFPG_STATE_RESET \<and> same_base s (snd (efpg_data_frame_process sha ev s))"
  by (simp add: efpg_data_frame_process_def same_base_def split: prod.splits)

lemma same_base_len:
  "same_base s s' \<Longrightarrow> length (cmd_frame s') = length (cmd_frame s) \<and> length (data_frame s') = length (data_frame s) \<and>
    length (ext_cmd_frame s') = length (ext_cmd_frame s) \<and> key s' = key s"
  by (simp add: same_base_def)

text \<open>A full frame that fits is processed.\<close>

definition full_frame :: "u8 list \<Rightarrow> efpg_priv \<Rightarrow> efpg_priv" where
  "full_frame bs s = (store_frame bs s)\<lparr>recv_len := of_nat (length bs)\<rparr>"

lemma full_frame_simps [simp]:
  "length (cmd_frame (full_frame bs s)) = length (cmd_frame s)" "length (data_frame (full_frame bs s)) = length (data_frame s)"
  "length (ext_cmd_frame (full_frame bs s)) = length (ext_cmd_frame s)" "fuses (full_frame bs s) = fuses s"
  "key (full_frame bs s) = key s" "is_cmd (full_frame bs s) = is_cmd s" "ext_cmd (full_frame bs s) = ext_cmd s"
  "expt_len (full_frame bs s) = expt_len s" "efpg_fld (full_frame bs s) = efpg_fld s"
  "bit_length (full_frame bs s) = bit_length s" "recv_len (full_frame bs s) = of_nat (length bs)"
  by (simp_all add: full_frame_def)

lemma full_frame_inv [simp]: "frame_inv (full_frame bs s) = frame_inv s"
  by (simp add: frame_inv_def)

lemma round_cases:
  assumes "efpg_round sha ev rx s = Some (go, s')"
  obtains (same) "s' = s"
  | (short) bs where "s' = efpg_reset (store_frame bs s)"
  | (cmd) arrived bs st s3 where "rx = Some arrived" "bs = take (unat (expt_len s)) arrived" "is_cmd s"
      "efpg_cmd_frame_process sha ev (full_frame bs s) = (st, s3)"
      "s' = (if st = EFPG_STATE_RESET then efpg_reset s3 else s3)" "go = (st \<noteq> EFPG_STATE_STOP)"
  | (data) arrived bs s3 where "rx = Some arrived" "bs = take (unat (expt_len s)) arrived" "\<not> is_cmd s"
      "length bs \<le> length (frame_buf s)" "of_nat (length bs) = expt_len s"
      "efpg_data_frame_process sha ev (full_frame bs s) = (EFPG_STATE_RESET, s3)" "s' = efpg_reset s3"
proof (cases rx)
  case None
  then show ?thesis using assms same by (simp add: efpg_round_def)
next
  case (Some arrived)
  define bs where "bs = take (unat (expt_len s)) arrived"
  have r: "(if bs = [] then Some (True, s) else if length bs > length (frame_buf s) then None
      else if of_nat (length bs) \<noteq> expt_len s then Some (True, efpg_reset (store_frame bs s))
      else (case (if is_cmd s then efpg_cmd_frame_process sha ev (full_frame bs s)
                  else efpg_data_frame_process sha ev (full_frame bs s)) of
              (EFPG_STATE_CONTINUE, s3) \<Rightarrow> Some (True, s3) | (EFPG_STATE_RESET, s3) \<Rightarrow> Some (True, efpg_reset s3)
            | (EFPG_STATE_STOP, s3) \<Rightarrow> Some (False, s3))) = Some (go, s')"
    using assms by (simp only: efpg_round_def Some option.case Let_def full_frame_def bs_def [symmetric])
  consider "bs = []" | "bs \<noteq> []" "length bs \<le> length (frame_buf s)" "of_nat (length bs) \<noteq> expt_len s"
    | "bs \<noteq> []" "length bs \<le> length (frame_buf s)" "of_nat (length bs) = expt_len s" "is_cmd s"
    | "bs \<noteq> []" "length bs \<le> length (frame_buf s)" "of_nat (length bs) = expt_len s" "\<not> is_cmd s"
    using r by (auto split: if_split_asm)
  then show ?thesis
  proof cases
    case 1
    then show ?thesis using r same by simp
  next
    case 2
    then show ?thesis using r short [of bs] by simp
  next
    case 3
    obtain st s3 where p: "efpg_cmd_frame_process sha ev (full_frame bs s) = (st, s3)" by force
    have "s' = (if st = EFPG_STATE_RESET then efpg_reset s3 else s3)" "go = (st \<noteq> EFPG_STATE_STOP)"
      using r 3 p by (cases st; simp)+
    then show ?thesis using cmd [OF Some bs_def 3(4) p] by blast
  next
    case 4
    obtain st s3 where p: "efpg_data_frame_process sha ev (full_frame bs s) = (st, s3)" by force
    have "st = EFPG_STATE_RESET" using data_process_state [of sha ev "full_frame bs s"] p by simp
    then show ?thesis using data [OF Some bs_def 4(4,2,3)] p r 4 by simp
  qed
qed

lemma frame_lens:
  "frame_inv s \<Longrightarrow> length (cmd_frame s) = 8 \<and> length (data_frame s) = 108 \<and> length (ext_cmd_frame s) = 13"
  by (simp add: frame_inv_def)

lemma round_inv:
  assumes "frame_inv s" "efpg_round sha ev rx s = Some (True, s')"
  shows "frame_inv s'"
  using assms(2)
proof (cases rule: round_cases)
  case same
  then show ?thesis using assms(1) by simp
next
  case (short bs)
  then show ?thesis using frame_lens [OF assms(1)] by (simp add: reset_inv)
next
  case (cmd arrived bs st s3)
  have b: "same_base (full_frame bs s) s3" using cmd_process_frame [of "full_frame bs s" sha ev] cmd(4) by simp
  show ?thesis
  proof (cases st)
    case EFPG_STATE_CONTINUE
    then show ?thesis using cmd_process_continue [of "full_frame bs s" sha ev s3] cmd assms(1) by simp
  next
    case EFPG_STATE_RESET
    then show ?thesis using cmd(5) same_base_len [OF b] frame_lens [OF assms(1)] by (simp add: reset_inv)
  next
    case EFPG_STATE_STOP
    then show ?thesis using cmd(6) by simp
  qed
next
  case (data arrived bs s3)
  have b: "same_base (full_frame bs s) s3" using data_process_state [of sha ev "full_frame bs s"] data(6) by simp
  then show ?thesis using data(7) same_base_len [OF b] frame_lens [OF assms(1)] by (simp add: reset_inv)
qed

lemma round_key: "efpg_round sha ev rx s = Some (go, s') \<Longrightarrow> key s' = key s"
proof (erule round_cases)
  fix arrived bs st s3
  assume "efpg_cmd_frame_process sha ev (full_frame bs s) = (st, s3)" "s' = (if st = EFPG_STATE_RESET then efpg_reset s3 else s3)"
  then show "key s' = key s" using cmd_process_frame [of "full_frame bs s" sha ev] by (simp add: same_base_def)
next
  fix arrived bs s3
  assume "efpg_data_frame_process sha ev (full_frame bs s) = (EFPG_STATE_RESET, s3)" "s' = efpg_reset s3"
  then show "key s' = key s" using data_process_state [of sha ev "full_frame bs s"] by (simp add: same_base_def)
qed auto

section \<open>Only a signed data frame burns\<close>

text \<open>Some command, the bytes before the digest and the key give the digest.\<close>

definition signed_frame :: "(u8 list \<Rightarrow> u8 list) \<Rightarrow> u8 list \<Rightarrow> u8 list \<Rightarrow> bool" where
  "signed_frame sha k bs =
     (\<exists>c n. length c = 8 \<and> n + 32 \<le> length bs \<and> take 32 (drop n bs) = take 32 (sha (c @ take n bs @ k)))"

lemma round_burns:
  assumes "frame_inv s" "efpg_round sha ev rx s = Some (go, s')" "ef_bit (fuses s') \<noteq> ef_bit (fuses s)"
  shows "\<exists>arrived. rx = Some arrived \<and> signed_frame sha (key s) arrived"
  using assms(2)
proof (cases rule: round_cases)
  case (cmd arrived bs st s3)
  then show ?thesis using cmd_process_frame [of "full_frame bs s" sha ev] assms(3) by (auto split: if_split_asm)
next
  case (data arrived bs s3)
  define f where "f = full_frame bs s"
  have ck: "\<not> efpg_check_msg_dgst sha ev f < 0"
  proof
    assume "efpg_check_msg_dgst sha ev f < 0"
    then have "fuses s3 = fuses s" using data(6) by (auto simp: efpg_data_frame_process_def f_def)
    then show False using data(7) assms(3) by simp
  qed
  define n where "n = unat (expt_len s) - 32"
  have big: "32 \<le> unat (expt_len s)" using assms(1) data(3) by (auto simp: frame_inv_def split: if_split_asm)
  have lb: "length bs = unat (expt_len s)"
  proof -
    have "length bs \<le> 108" using data(3,4) assms(1) by (simp add: frame_buf_def frame_inv_def)
    then show ?thesis using arg_cong [OF data(5), of unat] by (simp add: unat_of_nat)
  qed
  have df: "data_frame f = bs @ drop (length bs) (data_frame s)"
    using data(3,4) by (simp add: f_def full_frame_def store_frame_def list_write_def frame_buf_def)
  have rl: "unat (recv_len f) = length bs" using lb data(5) by (simp add: f_def)
  have pre: "take n bs = take n arrived" "take 32 (drop n bs) = take 32 (drop n arrived)" "n + 32 \<le> length arrived"
    using lb big data(2) by (simp_all add: n_def drop_take)
  have "take 32 (drop n (data_frame f)) = take 32 (sha (cmd_frame f @ take n (data_frame f) @ key f))"
    using ck rl lb by (auto simp: efpg_check_msg_dgst_def payload_def n_def Let_def split: if_split_asm)
  moreover have "take n (data_frame f) = take n bs" "take 32 (drop n (data_frame f)) = take 32 (drop n bs)"
    using lb big by (simp_all add: df n_def)
  moreover have "length (cmd_frame f) = 8" using assms(1) by (simp add: f_def frame_inv_def)
  ultimately have "signed_frame sha (key s) arrived"
    unfolding signed_frame_def using pre
    by (intro exI [of _ "cmd_frame f"] exI [of _ n]) (simp add: f_def)
  then show ?thesis using data(1) by blast
qed (use assms(3) in simp_all)

lemma dialogue_unsigned:
  assumes "frame_inv s" "efpg_dialogue sha rxs s = Some s'"
    "\<forall>(ev, rx)\<in>set rxs. \<forall>bs. rx = Some bs \<longrightarrow> \<not> signed_frame sha (key s) bs"
  shows "ef_bit (fuses s') = ef_bit (fuses s)"
  using assms
proof (induction rxs arbitrary: s)
  case (Cons x rxs)
  obtain ev rx where x: "x = (ev, rx)" by (cases x)
  obtain go s1 where r: "efpg_round sha ev rx s = Some (go, s1)"
    using Cons.prems(2) x by (auto split: option.splits)
  have f: "ef_bit (fuses s1) = ef_bit (fuses s)"
    using round_burns [OF Cons.prems(1) r] Cons.prems(3) x by auto
  show ?case
  proof (cases go)
    case True
    have "efpg_dialogue sha rxs s1 = Some s'" using Cons.prems(2) x r True by simp
    moreover have "\<forall>(ev, rx)\<in>set rxs. \<forall>bs. rx = Some bs \<longrightarrow> \<not> signed_frame sha (key s1) bs"
      using Cons.prems(3) round_key [OF r] by auto
    moreover have "frame_inv s1" using round_inv [OF Cons.prems(1)] r True by simp
    ultimately show ?thesis using Cons.IH [of s1] f by simp
  next
    case False
    then show ?thesis using Cons.prems(2) x r f by simp
  qed
qed simp

lemma start_inv_frame: "efpg_start k created e = Some s \<Longrightarrow> frame_inv s \<and> fuses s = e \<and> key s = k"
  by (auto simp: efpg_start_def efpg_reset_def frame_inv_def EFPG_CMD_FRAME_LEN_def split: if_split_asm)

lemma round_none:
  assumes "frame_inv s"
  shows "efpg_round sha ev rx s = None \<longleftrightarrow>
    (\<exists>arrived. rx = Some arrived \<and>
      ((is_cmd s \<and> ext_cmd s \<and> expt_len s \<noteq> 13 \<and> 13 < length arrived) \<or>
       (\<not> is_cmd s \<and> efpg_fld s = EFPG_FIELD_UA \<and> 608 < unat (bit_length s) \<and> 108 < length arrived)))"
proof (cases rx)
  case None
  then show ?thesis by (simp add: efpg_round_def)
next
  case (Some arrived)
  define n where "n = unat (expt_len s)"
  have none: "efpg_round sha ev rx s = None \<longleftrightarrow> length (frame_buf s) < n \<and> length (frame_buf s) < length arrived"
  proof -
    have "efpg_round sha ev rx s = None \<longleftrightarrow> take n arrived \<noteq> [] \<and> length (take n arrived) > length (frame_buf s)"
      using Some unfolding efpg_round_def n_def
      by (auto simp: Let_def split: prod.splits efpg_state.splits)
    then show ?thesis by auto
  qed
  have sizes: "unat (13 :: u16) = 13" "unat (33 :: u16) = 33" "unat (64 :: u16) = 64" "unat (38 :: u16) = 38"
    "unat (48 :: u16) = 48" "unat (8 :: u16) = 8" by simp_all
  show ?thesis
  proof (cases "is_cmd s")
    case True
    then show ?thesis
      using Some none assms sizes by (cases "ext_cmd s") (auto simp: frame_buf_def frame_inv_def n_def)
  next
    case False
    show ?thesis
    proof (cases "efpg_fld s = EFPG_FIELD_UA")
      case True
      then have "n = (unat (bit_length s) + 7) div 8 + 32" using assms False by (simp add: frame_inv_def n_def)
      then have "(108 < n) = (608 < unat (bit_length s))" by presburger
      then show ?thesis using Some none assms False True by (auto simp: frame_buf_def frame_inv_def)
    next
      case False': False
      then have "n \<le> 108" using assms False sizes by (auto simp: frame_inv_def n_def)
      then show ?thesis using Some none assms False False' by (auto simp: frame_buf_def frame_inv_def)
    qed
  qed
qed

inductive frame_reach :: "(u8 list \<Rightarrow> u8 list) \<Rightarrow> efpg_priv \<Rightarrow> bool" for sha where
  start: "efpg_start k created e = Some s \<Longrightarrow> frame_reach sha s"
| round: "frame_reach sha s \<Longrightarrow> efpg_round sha ev rx s = Some (True, s') \<Longrightarrow> frame_reach sha s'"

lemma frame_reach_inv: "frame_reach sha s \<Longrightarrow> frame_inv s"
  by (induction rule: frame_reach.induct) (use start_inv_frame round_inv in blast)+

section \<open>Frames a tool sends\<close>

definition all_ok :: efpg_ev where
  "all_ok = \<lparr>ev_ack_alloc = True, ev_ack_sent = True, ev_frame_alloc = True, ev_ce_ok = True\<rparr>"

definition with_checksum :: "u8 list \<Rightarrow> u8 list" where
  "with_checksum bs = bs @ [0xFF - efpg_checksum8 bs]"

definition mk_cmd :: "u16 \<Rightarrow> u16 \<Rightarrow> u16 \<Rightarrow> u8 \<Rightarrow> u8 list" where
  "mk_cmd op type len ext = with_checksum (put16 op @ put16 type @ put16 len @ [ext])"

definition mk_ext :: "u16 \<Rightarrow> u16 \<Rightarrow> u16 \<Rightarrow> u16 \<Rightarrow> u16 \<Rightarrow> u16 \<Rightarrow> u8 list" where
  "mk_ext op type len version start bits =
     with_checksum (put16 op @ put16 type @ put16 len @ put16 version @ put16 start @ put16 bits)"

lemma checksum_append: "efpg_checksum8 (xs @ ys) = efpg_checksum8 xs + efpg_checksum8 ys"
  by (induction xs) auto

lemma checksum_ok: "efpg_checksum8 (with_checksum bs) = 0xFF"
  by (simp add: with_checksum_def checksum_append)

lemma length_put16 [simp]: "length (put16 v) = 2"
  by (simp add: put16_def)

lemma join_split [simp]: "join16 (ucast v) (ucast (drop_bit 8 v)) = v"
proof (rule bit_word_eqI)
  fix i assume i: "i < LENGTH(16)"
  show "bit (join16 (ucast v) (ucast (drop_bit 8 v))) i = bit v i"
  proof (cases "i < 8")
    case False
    then have "i - 8 < 8" "i - 8 < 16" "8 + (i - 8) = i" using i by auto
    then show ?thesis using i False by (simp add: join16_def bit_or_iff bit_ucast_iff bit_push_bit_iff bit_drop_bit_eq)
  qed (simp add: join16_def bit_or_iff bit_ucast_iff bit_push_bit_iff)
qed

lemma mk_cmd_parts:
  "length (mk_cmd op type len ext) = 8" "get16 (mk_cmd op type len ext) 0 = op" "get16 (mk_cmd op type len ext) 2 = type"
  "get16 (mk_cmd op type len ext) 4 = len" "mk_cmd op type len ext ! 6 = ext"
  by (simp_all add: mk_cmd_def with_checksum_def put16_def get16_def nth_append)

lemma mk_ext_parts:
  "length (mk_ext op type len version start bits) = 13" "get16 (mk_ext op type len version start bits) 0 = op"
  "get16 (mk_ext op type len version start bits) 2 = type" "get16 (mk_ext op type len version start bits) 10 = bits"
  "get16 (mk_ext op type len version start bits) 8 = start"
  by (simp_all add: mk_ext_def with_checksum_def put16_def get16_def nth_append)

lemma round_full:
  assumes "0 < length f" "length f = unat (expt_len s)" "length f \<le> length (frame_buf s)"
  shows "efpg_round sha ev (Some f) s =
    (case (if is_cmd s then efpg_cmd_frame_process sha ev (full_frame f s)
           else efpg_data_frame_process sha ev (full_frame f s)) of
       (EFPG_STATE_CONTINUE, s3) \<Rightarrow> Some (True, s3)
     | (EFPG_STATE_RESET, s3) \<Rightarrow> Some (True, efpg_reset s3)
     | (EFPG_STATE_STOP, s3) \<Rightarrow> Some (False, s3))"
proof -
  have t: "take (unat (expt_len s)) f = f" using assms(2) by simp
  have l: "of_nat (length f) = expt_len s" by (simp add: assms(2))
  have ff: "(store_frame f s)\<lparr>recv_len := of_nat (length f)\<rparr> = full_frame f s" by (simp add: full_frame_def)
  have g: "f \<noteq> []" "\<not> length f > length (frame_buf s)" using assms(1,3) by auto
  show ?thesis unfolding efpg_round_def option.case Let_def t ff
    using g l by (simp only: if_False not_not simp_thms)
qed

text \<open>The state in which a command is expected.\<close>

definition at_start :: "efpg_priv \<Rightarrow> bool" where
  "at_start s = (frame_inv s \<and> is_cmd s \<and> \<not> ext_cmd s)"

lemma at_start_facts:
  "at_start s \<Longrightarrow> expt_len s = 8 \<and> length (cmd_frame s) = 8 \<and> is_cmd s \<and> \<not> ext_cmd s \<and> length (data_frame s) = 108"
  by (simp add: at_start_def frame_inv_def)

lemma at_start_reset: "frame_inv s \<Longrightarrow> at_start (efpg_reset s)"
  using frame_lens [of s] by (simp add: at_start_def reset_inv) (simp add: efpg_reset_def)

lemma list_write_all: "length f = length b \<Longrightarrow> list_write b 0 f = f"
  by (simp add: list_write_def)

lemma start_command:
  assumes "at_start s" "length f = 8" "efpg_checksum8 f = 0xFF"
  shows "efpg_round sha ev (Some f) s =
    (case (case efpg_parse_cmd (s\<lparr>cmd_frame := f, recv_len := 8\<rparr>) of
             (r, s1) \<Rightarrow>
               if r < 0 then (EFPG_STATE_RESET, snd (efpg_send_ack ev EFPG_ACK_PARSE_ERR s1))
               else if ext_cmd s1 then efpg_ext_cmd_process ev s1
               else (case efpg_op_of s1 of
                       EFPG_OP_READ \<Rightarrow> efpg_read_process sha ev s1
                     | EFPG_OP_WRITE \<Rightarrow> efpg_write_process ev s1
                     | EFPG_OP_EXIT \<Rightarrow> efpg_stop_process ev s1
                     | EFPG_OP_NUM \<Rightarrow> (EFPG_STATE_STOP, s1))) of
       (EFPG_STATE_CONTINUE, s3) \<Rightarrow> Some (True, s3)
     | (EFPG_STATE_RESET, s3) \<Rightarrow> Some (True, efpg_reset s3)
     | (EFPG_STATE_STOP, s3) \<Rightarrow> Some (False, s3))"
proof -
  have f: "full_frame f s = s\<lparr>cmd_frame := f, recv_len := 8\<rparr>"
    using at_start_facts [OF assms(1)] assms(2) by (simp add: full_frame_def store_frame_def list_write_all)
  have "efpg_round sha ev (Some f) s =
    (case efpg_cmd_frame_process sha ev (s\<lparr>cmd_frame := f, recv_len := 8\<rparr>) of
       (EFPG_STATE_CONTINUE, s3) \<Rightarrow> Some (True, s3)
     | (EFPG_STATE_RESET, s3) \<Rightarrow> Some (True, efpg_reset s3)
     | (EFPG_STATE_STOP, s3) \<Rightarrow> Some (False, s3))"
    using at_start_facts [OF assms(1)] assms(2) round_full [of f s sha ev] by (simp add: frame_buf_def f)
  then show ?thesis
    using at_start_facts [OF assms(1)] assms(2,3) by (simp add: efpg_cmd_frame_process_def)
qed

lemmas codes = EFPG_OP_CODE_READ_def EFPG_OP_CODE_WRITE_def EFPG_OP_CODE_EXIT_def EFPG_TYPE_HOSC_def EFPG_TYPE_BOOT_def
  EFPG_TYPE_MAC_def EFPG_TYPE_USER_AREA_def EFPG_TYPE_CHIPID_def EFPG_MAC_FRAME_LEN_def EFPG_UAER_AREA_EXT_LEN_def

lemma parse_mac:
  assumes "\<not> ext_cmd s" "f = mk_cmd op EFPG_TYPE_MAC 38 0" "op = EFPG_OP_CODE_READ \<or> op = EFPG_OP_CODE_WRITE"
  shows "efpg_parse_cmd (s\<lparr>cmd_frame := f, recv_len := 8\<rparr>) =
    (0, s\<lparr>cmd_frame := f, recv_len := 8, efpg_op_of := (if op = EFPG_OP_CODE_READ then EFPG_OP_READ else EFPG_OP_WRITE),
       efpg_fld := EFPG_FIELD_MAC, expt_len := 38\<rparr>)"
  using assms by (auto simp: efpg_parse_cmd_def mk_cmd_parts parse_op_def parse_type_def codes Let_def)

lemma mk_cmd_frame: "length (mk_cmd op type len ext) = 8" "efpg_checksum8 (mk_cmd op type len ext) = 0xFF"
  using mk_cmd_parts(1) checksum_ok by (simp_all add: mk_cmd_def)

lemma write_mac_command:
  assumes "at_start s" "f = mk_cmd EFPG_OP_CODE_WRITE EFPG_TYPE_MAC 38 0"
  shows "efpg_round sha all_ok (Some f) s =
    Some (True, s\<lparr>cmd_frame := f, efpg_op_of := EFPG_OP_WRITE, efpg_fld := EFPG_FIELD_MAC, expt_len := 38, is_cmd := False,
      recv_len := 0, sent := sent s @ [ack_frame EFPG_ACK_OK]\<rparr>)"
proof -
  have p: "efpg_parse_cmd (s\<lparr>cmd_frame := f, recv_len := 8\<rparr>) =
    (0, s\<lparr>cmd_frame := f, recv_len := 8, efpg_op_of := EFPG_OP_WRITE, efpg_fld := EFPG_FIELD_MAC, expt_len := 38\<rparr>)"
    using parse_mac [of s f EFPG_OP_CODE_WRITE] at_start_facts [OF assms(1)] assms(2) by (simp add: codes)
  have "length f = 8" "efpg_checksum8 f = 0xFF" using assms(2) mk_cmd_frame by simp_all
  then show ?thesis
    using start_command [OF assms(1), of f sha all_ok] at_start_facts [OF assms(1)]
    by (simp add: p efpg_write_process_def efpg_send_ack_def all_ok_def Let_def)
qed

lemma mac_data_frame:
  assumes "frame_inv s" "\<not> is_cmd s" "efpg_fld s = EFPG_FIELD_MAC" "expt_len s = 38" "length mac = 6"
    "length (sha (cmd_frame s @ mac @ key s)) = 32" "efpg_write_mac mac (fuses s) = (EFPG_ACK_OK, e)"
  shows "\<exists>s'. efpg_round sha all_ok (Some (mac @ sha (cmd_frame s @ mac @ key s))) s = Some (True, s') \<and> at_start s' \<and>
    fuses s' = e \<and> key s' = key s \<and> sent s' = sent s @ [ack_frame EFPG_ACK_OK]"
proof -
  define d where "d = sha (cmd_frame s @ mac @ key s)"
  define f where "f = full_frame (mac @ d) s"
  have ld: "length d = 32" using assms(6) by (simp add: d_def)
  have ldf: "length (data_frame s) = 108" using frame_lens [OF assms(1)] by simp
  have df: "data_frame f = mac @ d @ drop 38 (data_frame s)" "cmd_frame f = cmd_frame s" "recv_len f = 38"
    using assms(2,5) ld ldf by (simp_all add: f_def full_frame_def store_frame_def list_write_def)
  have ck: "efpg_check_msg_dgst sha all_ok f = 0" and pl: "payload f = mac"
    using df assms(5) ld by (simp_all add: efpg_check_msg_dgst_def payload_def all_ok_def f_def d_def)
  have "efpg_data_frame_process sha all_ok f =
    (EFPG_STATE_RESET, snd (efpg_send_ack all_ok EFPG_ACK_OK (f\<lparr>fuses := e\<rparr>)))"
    using ck pl assms(3,7) by (simp add: efpg_data_frame_process_def efpg_write_field_def f_def)
  then have r: "efpg_round sha all_ok (Some (mac @ d)) s =
    Some (True, efpg_reset (snd (efpg_send_ack all_ok EFPG_ACK_OK (f\<lparr>fuses := e\<rparr>))))"
    using round_full [of "mac @ d" s sha all_ok] assms(2,4,5) ld ldf by (simp add: frame_buf_def f_def)
  have "frame_inv (f\<lparr>fuses := e, sent := x\<rparr>) = frame_inv f" for x by (simp add: frame_inv_def)
  then have "frame_inv (f\<lparr>fuses := e, sent := x\<rparr>)" for x using assms(1) by (simp add: f_def)
  then have "at_start (efpg_reset (f\<lparr>fuses := e, sent := sent s @ [ack_frame EFPG_ACK_OK]\<rparr>))" by (rule at_start_reset)
  moreover have "sent f = sent s" "key f = key s" by (simp_all add: f_def full_frame_def store_frame_def)
  ultimately show ?thesis using r
    by (simp add: efpg_send_ack_def all_ok_def flip: d_def) (simp add: efpg_reset_def)
qed

lemma read_mac_command:
  assumes "at_start s" "f = mk_cmd EFPG_OP_CODE_READ EFPG_TYPE_MAC 38 0" "efpg_read_mac (fuses s) = (EFPG_ACK_OK, mac, e)"
    "length mac = 6"
  shows "\<exists>s'. efpg_round sha all_ok (Some f) s = Some (True, s') \<and> at_start s' \<and>
    sent s' = sent s @ [ack_frame EFPG_ACK_OK, mac @ sha (f @ mac @ key s)]"
proof -
  define s1 where "s1 = s\<lparr>cmd_frame := f, recv_len := 8, efpg_op_of := EFPG_OP_READ, efpg_fld := EFPG_FIELD_MAC, expt_len := 38\<rparr>"
  have p: "efpg_parse_cmd (s\<lparr>cmd_frame := f, recv_len := 8\<rparr>) = (0, s1)"
    using parse_mac [of s f EFPG_OP_CODE_READ] at_start_facts [OF assms(1)] assms(2) by (simp add: s1_def)
  have len: "length f = 8" "efpg_checksum8 f = 0xFF" using assms(2) mk_cmd_frame by simp_all
  define s2 where "s2 = s1\<lparr>fuses := e, sent := sent s @ [ack_frame EFPG_ACK_OK, mac @ sha (f @ mac @ key s)]\<rparr>"
  have "list_write (replicate 6 0) 0 mac = mac" using assms(4) by (simp add: list_write_all)
  then have a: "answer_frame sha mac (s1\<lparr>fuses := e\<rparr>) = mac @ sha (f @ mac @ key s)"
    by (simp add: answer_frame_def s1_def EFPG_MSG_DGST_LEN_def)
  have "efpg_read_process sha all_ok s1 = (EFPG_STATE_RESET, s2)"
    using assms(3) a by (simp add: efpg_read_process_def efpg_read_field_def efpg_send_ack_def all_ok_def s1_def s2_def Let_def)
  then have r: "efpg_round sha all_ok (Some f) s = Some (True, efpg_reset s2)"
    using start_command [OF assms(1) len, of sha all_ok] at_start_facts [OF assms(1)] p by (simp add: s1_def)
  have "length (cmd_frame s2) = 8" "length (data_frame s2) = 108" "length (ext_cmd_frame s2) = 13"
    using assms(1) len by (simp_all add: s2_def s1_def at_start_def frame_inv_def)
  then have "at_start (efpg_reset s2)" by (simp add: at_start_def reset_inv) (simp add: efpg_reset_def)
  then show ?thesis using r by (simp add: efpg_reset_def s2_def)
qed

lemma mac_session:
  assumes "efpg_start k True e = Some s" "mac_good e (Suc m)" "length mac = 6" "\<forall>x. length (sha x) = 32"
    "w = mk_cmd EFPG_OP_CODE_WRITE EFPG_TYPE_MAC 38 0" "r = mk_cmd EFPG_OP_CODE_READ EFPG_TYPE_MAC 38 0"
  shows "\<exists>s'. efpg_dialogue sha [(all_ok, Some w), (all_ok, Some (mac @ sha (w @ mac @ k))), (all_ok, Some r)] s = Some s' \<and>
    sent s' = [ack_frame EFPG_ACK_OK, ack_frame EFPG_ACK_OK, ack_frame EFPG_ACK_OK, mac @ sha (r @ mac @ k)]"
proof -
  have "at_start s \<and> sent s = []"
    using assms(1) unfolding efpg_start_def
    by (auto simp: at_start_def frame_inv_def efpg_reset_def EFPG_CMD_FRAME_LEN_def split: if_split_asm)
  then have s: "at_start s" "fuses s = e" "key s = k" "sent s = []" using start_inv_frame [OF assms(1)] by auto
  define s1 where "s1 = s\<lparr>cmd_frame := w, efpg_op_of := EFPG_OP_WRITE, efpg_fld := EFPG_FIELD_MAC, expt_len := 38, is_cmd := False,
      recv_len := 0, sent := sent s @ [ack_frame EFPG_ACK_OK]\<rparr>"
  have r1: "efpg_round sha all_ok (Some w) s = Some (True, s1)"
    unfolding s1_def by (rule write_mac_command [OF s(1) assms(5)])
  have i1: "frame_inv s1" using round_inv [OF _ r1] s(1) by (simp add: at_start_def)
  note gw = good_write_mac [OF assms(2,3)]
  obtain s2 where r2: "efpg_round sha all_ok (Some (mac @ sha (w @ mac @ k))) s1 = Some (True, s2)" "at_start s2"
    "fuses s2 = burn_slot m mac (ready e)" "key s2 = k" "sent s2 = [ack_frame EFPG_ACK_OK, ack_frame EFPG_ACK_OK]"
    using mac_data_frame [OF i1, of mac sha "burn_slot m mac (ready e)"] assms(3,4) gw(1) s by (auto simp: s1_def)
  obtain s3 where "efpg_round sha all_ok (Some r) s2 = Some (True, s3)"
    "sent s3 = sent s2 @ [ack_frame EFPG_ACK_OK, mac @ sha (r @ mac @ k)]"
    using read_mac_command [OF r2(2) assms(6), of mac _ sha] gw(3) r2(3,4) assms(3) by auto
  then show ?thesis using r1 r2 by simp
qed

section \<open>The extended command\<close>

lemma ua_first_frame:
  assumes "at_start s" "op = EFPG_OP_CODE_READ \<or> op = EFPG_OP_CODE_WRITE"
  shows "\<exists>s'. efpg_round sha all_ok (Some (mk_cmd op EFPG_TYPE_USER_AREA 13 1)) s = Some (True, s') \<and>
    frame_inv s' \<and> is_cmd s' \<and> ext_cmd s' \<and> expt_len s' = 13 \<and> key s' = key s"
proof -
  define f where "f = mk_cmd op EFPG_TYPE_USER_AREA 13 1"
  have len: "length f = 8" "efpg_checksum8 f = 0xFF" by (simp_all add: f_def mk_cmd_frame)
  define s1 where "s1 = s\<lparr>cmd_frame := f, recv_len := 8,
      efpg_op_of := (if op = EFPG_OP_CODE_READ then EFPG_OP_READ else EFPG_OP_WRITE),
      ext_cmd := True, efpg_fld := EFPG_FIELD_UA, expt_len := 13\<rparr>"
  have p: "efpg_parse_cmd (s\<lparr>cmd_frame := f, recv_len := 8\<rparr>) = (0, s1)"
    using at_start_facts [OF assms(1)] assms(2)
    by (auto simp: f_def s1_def efpg_parse_cmd_def mk_cmd_parts parse_op_def parse_type_def parse_user_area_def codes Let_def)
  define s2 where "s2 = s1\<lparr>is_cmd := True, recv_len := 0, sent := sent s @ [ack_frame EFPG_ACK_OK]\<rparr>"
  have r: "efpg_round sha all_ok (Some f) s = Some (True, s2)"
    using start_command [OF assms(1) len, of sha all_ok] p
    by (simp add: s1_def s2_def efpg_ext_cmd_process_def efpg_send_ack_def all_ok_def Let_def)
  have "frame_inv s2" using round_inv [OF _ r] assms(1) by (simp add: at_start_def)
  then show ?thesis using r by (simp add: s1_def s2_def flip: f_def)
qed

lemma ext_command:
  assumes "frame_inv s" "is_cmd s" "ext_cmd s" "expt_len s = 13" "length f = 13" "efpg_checksum8 f = 0xFF"
    "efpg_parse_cmd (s\<lparr>ext_cmd_frame := f, recv_len := 13\<rparr>) = (0, s1)"
  shows "efpg_round sha ev (Some f) s =
    (case (if ext_cmd s1 then efpg_ext_cmd_process ev s1
           else (case efpg_op_of s1 of
                   EFPG_OP_READ \<Rightarrow> efpg_read_process sha ev s1
                 | EFPG_OP_WRITE \<Rightarrow> efpg_write_process ev s1
                 | EFPG_OP_EXIT \<Rightarrow> efpg_stop_process ev s1
                 | EFPG_OP_NUM \<Rightarrow> (EFPG_STATE_STOP, s1))) of
       (EFPG_STATE_CONTINUE, s3) \<Rightarrow> Some (True, s3)
     | (EFPG_STATE_RESET, s3) \<Rightarrow> Some (True, efpg_reset s3)
     | (EFPG_STATE_STOP, s3) \<Rightarrow> Some (False, s3))"
proof -
  have f: "full_frame f s = s\<lparr>ext_cmd_frame := f, recv_len := 13\<rparr>"
    using assms frame_lens [OF assms(1)] by (simp add: full_frame_def store_frame_def list_write_all)
  have "efpg_round sha ev (Some f) s =
    (case efpg_cmd_frame_process sha ev (s\<lparr>ext_cmd_frame := f, recv_len := 13\<rparr>) of
       (EFPG_STATE_CONTINUE, s3) \<Rightarrow> Some (True, s3)
     | (EFPG_STATE_RESET, s3) \<Rightarrow> Some (True, efpg_reset s3)
     | (EFPG_STATE_STOP, s3) \<Rightarrow> Some (False, s3))"
    using assms frame_lens [OF assms(1)] round_full [of f s sha ev] by (simp add: frame_buf_def f)
  then show ?thesis using assms by (simp add: efpg_cmd_frame_process_def)
qed

lemma mk_ext_frame: "efpg_checksum8 (mk_ext op type len v start bits) = 0xFF"
  by (simp add: mk_ext_def checksum_ok)

lemma ua_second_frame:
  assumes "frame_inv s" "is_cmd s" "ext_cmd s" "expt_len s = 13"
  shows "\<exists>s'. efpg_round sha all_ok (Some (mk_ext EFPG_OP_CODE_WRITE EFPG_TYPE_USER_AREA len v start bits)) s = Some (True, s') \<and>
    frame_inv s' \<and> \<not> is_cmd s' \<and> efpg_fld s' = EFPG_FIELD_UA \<and> bit_length s' = bits"
proof -
  define f where "f = mk_ext EFPG_OP_CODE_WRITE EFPG_TYPE_USER_AREA len v start bits"
  have len: "length f = 13" "efpg_checksum8 f = 0xFF" by (simp_all add: f_def mk_ext_frame mk_ext_parts)
  define el where "el = bits div 8 + EFPG_MSG_DGST_LEN + (if bits mod 8 \<noteq> 0 then 1 else 0)"
  define s1 where "s1 = s\<lparr>ext_cmd_frame := f, recv_len := 13, efpg_op_of := EFPG_OP_WRITE, protocol_version := get16 f 6,
      start_bit_addr := start, bit_length := bits, ext_cmd := False, efpg_fld := EFPG_FIELD_UA, expt_len := el\<rparr>"
  have g: "get16 f 0 = EFPG_OP_CODE_WRITE" "get16 f 2 = EFPG_TYPE_USER_AREA" "get16 f 10 = bits" "get16 f 8 = start"
    by (simp_all add: f_def mk_ext_parts)
  have t: "EFPG_TYPE_USER_AREA \<noteq> EFPG_TYPE_HOSC" "EFPG_TYPE_USER_AREA \<noteq> EFPG_TYPE_BOOT" "EFPG_TYPE_USER_AREA \<noteq> EFPG_TYPE_MAC"
    "EFPG_OP_CODE_WRITE \<noteq> EFPG_OP_CODE_READ" by (simp_all add: codes)
  have p: "efpg_parse_cmd (s\<lparr>ext_cmd_frame := f, recv_len := 13\<rparr>) = (0, s1)"
    using assms(3) t
    by (simp add: s1_def efpg_parse_cmd_def g parse_op_def parse_type_def parse_user_area_def Let_def flip: el_def)
  define s2 where "s2 = s1\<lparr>is_cmd := False, recv_len := 0, sent := sent s @ [ack_frame EFPG_ACK_OK]\<rparr>"
  have r: "efpg_round sha all_ok (Some f) s = Some (True, s2)"
    using ext_command [OF assms len p, of sha all_ok]
    by (simp add: s1_def s2_def efpg_write_process_def efpg_send_ack_def all_ok_def Let_def)
  show ?thesis using r round_inv [OF assms(1) r] by (simp add: s1_def s2_def flip: f_def)
qed

lemma ext_boot_frame:
  assumes "frame_inv s" "is_cmd s" "ext_cmd s" "expt_len s = 13"
  shows "\<exists>s'. efpg_round sha all_ok (Some (mk_ext EFPG_OP_CODE_WRITE EFPG_TYPE_BOOT 64 v start bits)) s = Some (True, s') \<and>
    frame_inv s' \<and> is_cmd s' \<and> ext_cmd s' \<and> expt_len s' = 64"
proof -
  define f where "f = mk_ext EFPG_OP_CODE_WRITE EFPG_TYPE_BOOT 64 v start bits"
  have len: "length f = 13" "efpg_checksum8 f = 0xFF" by (simp_all add: f_def mk_ext_frame mk_ext_parts)
  define s1 where "s1 = s\<lparr>ext_cmd_frame := f, recv_len := 13, efpg_op_of := EFPG_OP_WRITE, efpg_fld := EFPG_FIELD_BOOT, expt_len := 64\<rparr>"
  have g: "get16 f 0 = EFPG_OP_CODE_WRITE" "get16 f 2 = EFPG_TYPE_BOOT" "get16 f 4 = 64"
    by (simp_all add: f_def mk_ext_parts) (simp add: mk_ext_def with_checksum_def put16_def get16_def nth_append join16_def)
  have p: "efpg_parse_cmd (s\<lparr>ext_cmd_frame := f, recv_len := 13\<rparr>) = (0, s1)"
    using assms(3)
    by (simp add: s1_def efpg_parse_cmd_def g parse_op_def parse_type_def codes EFPG_BOOT_FRAME_LEN_def Let_def)
  define s2 where "s2 = s1\<lparr>is_cmd := True, recv_len := 0, sent := sent s @ [ack_frame EFPG_ACK_OK]\<rparr>"
  have r: "efpg_round sha all_ok (Some f) s = Some (True, s2)"
    using ext_command [OF assms len p, of sha all_ok] assms(3)
    by (simp add: s1_def s2_def efpg_ext_cmd_process_def efpg_send_ack_def all_ok_def Let_def)
  show ?thesis using r round_inv [OF assms(1) r] assms(3) by (simp add: s1_def s2_def flip: f_def)
qed

lemma overflow_dialogues:
  assumes "efpg_start k True e = Some s"
  shows "608 < unat bits \<Longrightarrow> 108 < length d \<Longrightarrow>
      efpg_dialogue sha [(all_ok, Some (mk_cmd EFPG_OP_CODE_WRITE EFPG_TYPE_USER_AREA 13 1)),
        (all_ok, Some (mk_ext EFPG_OP_CODE_WRITE EFPG_TYPE_USER_AREA len v start bits)), (all_ok, Some d)] s = None"
    "13 < length d \<Longrightarrow>
      efpg_dialogue sha [(all_ok, Some (mk_cmd EFPG_OP_CODE_WRITE EFPG_TYPE_USER_AREA 13 1)),
        (all_ok, Some (mk_ext EFPG_OP_CODE_WRITE EFPG_TYPE_BOOT 64 v start bits)), (all_ok, Some d)] s = None"
proof -
  have "at_start s"
    using assms unfolding efpg_start_def
    by (auto simp: at_start_def frame_inv_def efpg_reset_def EFPG_CMD_FRAME_LEN_def split: if_split_asm)
  then obtain s1 where r1: "efpg_round sha all_ok (Some (mk_cmd EFPG_OP_CODE_WRITE EFPG_TYPE_USER_AREA 13 1)) s = Some (True, s1)"
    "frame_inv s1" "is_cmd s1" "ext_cmd s1" "expt_len s1 = 13"
    using ua_first_frame by blast
  { assume "608 < unat bits" "108 < length d"
    moreover obtain s2 where "efpg_round sha all_ok (Some (mk_ext EFPG_OP_CODE_WRITE EFPG_TYPE_USER_AREA len v start bits)) s1 = Some (True, s2)"
      "frame_inv s2" "\<not> is_cmd s2" "efpg_fld s2 = EFPG_FIELD_UA" "bit_length s2 = bits"
      using ua_second_frame [OF r1(2-5)] by blast
    ultimately show "efpg_dialogue sha [(all_ok, Some (mk_cmd EFPG_OP_CODE_WRITE EFPG_TYPE_USER_AREA 13 1)),
        (all_ok, Some (mk_ext EFPG_OP_CODE_WRITE EFPG_TYPE_USER_AREA len v start bits)), (all_ok, Some d)] s = None"
      using r1(1) round_none [of s2 sha all_ok "Some d"] by simp }
  { assume "13 < length d"
    moreover obtain s2 where "efpg_round sha all_ok (Some (mk_ext EFPG_OP_CODE_WRITE EFPG_TYPE_BOOT 64 v start bits)) s1 = Some (True, s2)"
      "frame_inv s2" "is_cmd s2" "ext_cmd s2" "expt_len s2 = 64"
      using ext_boot_frame [OF r1(2-5)] by blast
    ultimately show "efpg_dialogue sha [(all_ok, Some (mk_cmd EFPG_OP_CODE_WRITE EFPG_TYPE_USER_AREA 13 1)),
        (all_ok, Some (mk_ext EFPG_OP_CODE_WRITE EFPG_TYPE_BOOT 64 v start bits)), (all_ok, Some d)] s = None"
      using r1(1) round_none [of s2 sha all_ok "Some d"] by simp }
qed

text \<open>While the second frame of an extended command is expected, the command to exit is acknowledged and ignored.\<close>

lemma exit_ignored:
  assumes "frame_inv s" "is_cmd s" "ext_cmd s" "expt_len s = 13"
  shows "\<exists>s'. efpg_round sha all_ok (Some (mk_ext EFPG_OP_CODE_EXIT t len v start bits)) s = Some (True, s') \<and>
    is_cmd s' \<and> ext_cmd s' \<and> expt_len s' = 13"
proof -
  define f where "f = mk_ext EFPG_OP_CODE_EXIT t len v start bits"
  have f: "length f = 13" "efpg_checksum8 f = 0xFF" "get16 f 0 = EFPG_OP_CODE_EXIT"
    by (simp_all add: f_def mk_ext_frame mk_ext_parts)
  have p: "efpg_parse_cmd (s\<lparr>ext_cmd_frame := f, recv_len := 13\<rparr>) =
      (0, s\<lparr>ext_cmd_frame := f, recv_len := 13, efpg_op_of := EFPG_OP_EXIT\<rparr>)"
    using assms(3) by (simp add: efpg_parse_cmd_def f(3) parse_op_def codes Let_def)
  show ?thesis
    using ext_command [OF assms f(1,2) p, of sha all_ok] assms
    by (simp add: efpg_ext_cmd_process_def efpg_send_ack_def all_ok_def Let_def flip: f_def)
qed

section \<open>Properties\<close>



text \<open>C25: In every reachable state a frame overruns its buffer in exactly two cases: the second frame of an extended
  command was of another type than the user area and announced more than 13 bytes, or a user area of more than 608
  bits is written; in both the length comes from a frame that carries no digest.\<close>

theorem efpg_frame_bounds:
  assumes "frame_reach sha s"
  shows "efpg_round sha ev rx s = None \<longleftrightarrow>
    (\<exists>arrived. rx = Some arrived \<and>
      ((is_cmd s \<and> ext_cmd s \<and> expt_len s \<noteq> 13 \<and> 13 < length arrived) \<or>
       (\<not> is_cmd s \<and> efpg_fld s = EFPG_FIELD_UA \<and> 608 < unat (bit_length s) \<and> 108 < length arrived)))"
  by (rule round_none [OF frame_reach_inv [OF assms]])

theorem efpg_frame_bounds_witness:
  "\<exists>s. efpg_start [1] True (new_chip (\<lambda>b. False)) = Some s \<and>
    efpg_round (\<lambda>x. replicate 32 7) all_ok (Some (replicate 200 1)) s \<noteq> None"
proof -
  obtain s where s: "efpg_start [1] True (new_chip (\<lambda>b. False)) = Some s" by (simp add: efpg_start_def)
  then have "is_cmd s" "\<not> ext_cmd s" by (auto simp: efpg_start_def efpg_reset_def)
  then show ?thesis using efpg_frame_bounds [OF frame_reach.start [OF s]] s by auto
qed

text \<open>C34: Both cases can be brought about from the start without the key: a user area of more than 608 bits, or a
  boot hash command as second frame, and then any longer frame.\<close>

theorem efpg_frame_overflows:
  assumes "efpg_start k True e = Some s" "608 < unat bits" "108 < length d"
  shows "efpg_dialogue sha [(all_ok, Some (mk_cmd EFPG_OP_CODE_WRITE EFPG_TYPE_USER_AREA 13 1)),
        (all_ok, Some (mk_ext EFPG_OP_CODE_WRITE EFPG_TYPE_USER_AREA len v start bits)), (all_ok, Some d)] s = None \<and>
    efpg_dialogue sha [(all_ok, Some (mk_cmd EFPG_OP_CODE_WRITE EFPG_TYPE_USER_AREA 13 1)),
        (all_ok, Some (mk_ext EFPG_OP_CODE_WRITE EFPG_TYPE_BOOT 64 v start bits)), (all_ok, Some d)] s = None"
  using overflow_dialogues [OF assms(1)] assms(2,3) by simp

theorem efpg_frame_overflows_witness:
  "\<exists>s. efpg_start [1] True (new_chip (\<lambda>b. False)) = Some s \<and>
    efpg_dialogue (\<lambda>x. replicate 32 7) [(all_ok, Some (mk_cmd EFPG_OP_CODE_WRITE EFPG_TYPE_USER_AREA 13 1)),
      (all_ok, Some (mk_ext EFPG_OP_CODE_WRITE EFPG_TYPE_USER_AREA 0 0 0 1000)), (all_ok, Some (replicate 109 0))] s = None"
proof -
  obtain s where s: "efpg_start [1] True (new_chip (\<lambda>b. False)) = Some s" by (simp add: efpg_start_def)
  have "608 < unat (1000 :: u16)" "108 < length (replicate 109 (0 :: u8))" by simp_all
  from efpg_frame_overflows [OF s this] show ?thesis using s by blast
qed

text \<open>C31: A tool that knows the key writes a MAC address and reads it back: three frames, answered by three
  acknowledges and the address with the digest over command, address and key.\<close>

theorem efpg_mac_session:
  assumes "efpg_start k True e = Some s" "mac_good e (Suc m)" "length mac = 6" "\<forall>x. length (sha x) = 32"
    "w = mk_cmd EFPG_OP_CODE_WRITE EFPG_TYPE_MAC 38 0" "r = mk_cmd EFPG_OP_CODE_READ EFPG_TYPE_MAC 38 0"
  shows "\<exists>s'. efpg_dialogue sha [(all_ok, Some w), (all_ok, Some (mac @ sha (w @ mac @ k))), (all_ok, Some r)] s = Some s' \<and>
    sent s' = [ack_frame EFPG_ACK_OK, ack_frame EFPG_ACK_OK, ack_frame EFPG_ACK_OK, mac @ sha (r @ mac @ k)]"
  by (rule mac_session [OF assms])

theorem efpg_mac_session_witness:
  "\<exists>s s'. efpg_start [1] True (new_chip (\<lambda>b. False)) = Some s \<and>
    efpg_dialogue (\<lambda>x. replicate 32 7) [(all_ok, Some (mk_cmd EFPG_OP_CODE_WRITE EFPG_TYPE_MAC 38 0)),
      (all_ok, Some ([1, 2, 3, 4, 5, 6] @ replicate 32 7)), (all_ok, Some (mk_cmd EFPG_OP_CODE_READ EFPG_TYPE_MAC 38 0))] s = Some s' \<and>
    sent s' = [ack_frame EFPG_ACK_OK, ack_frame EFPG_ACK_OK, ack_frame EFPG_ACK_OK, [1, 2, 3, 4, 5, 6] @ replicate 32 7]"
proof -
  obtain s where s: "efpg_start [1] True (new_chip (\<lambda>b. False)) = Some s" by (simp add: efpg_start_def)
  have "mac_good (new_chip (\<lambda>b. False)) (Suc 2)" using new_chip_good by (simp add: eval_nat_numeral)
  from efpg_mac_session [OF s this, of "[1, 2, 3, 4, 5, 6]" "\<lambda>x. replicate 32 7"] show ?thesis using s by simp
qed

end
