(* ===== verification/Flash.thy ===== *)
theory Flash
  imports Efuse
begin

text \<open>
  Writing and reading the flash memory, src/driver/chip/hal_flash.c. The chip behind the driver is the hardware:
  a page program clears bits only, and an access that runs over the end of a page goes on at its start. That a
  page program is refused by the bus or not completed in time depends on its address (\<open>fl_pp_fails\<close>,
  \<open>fl_late\<close>).
\<close>

section \<open>The chip\<close>

record flash_dev =
  fl_mem :: "nat \<Rightarrow> u8"
  fl_size :: nat
  fl_page :: nat
  fl_pp_fails :: "nat \<Rightarrow> bool"
  fl_late :: "nat \<Rightarrow> bool"

definition cell :: "nat \<Rightarrow> nat \<Rightarrow> nat \<Rightarrow> nat" where
  "cell page address i = address - address mod page + (address mod page + i) mod page"

fun program_cells :: "nat \<Rightarrow> nat \<Rightarrow> nat \<Rightarrow> u8 list \<Rightarrow> (nat \<Rightarrow> u8) \<Rightarrow> nat \<Rightarrow> u8" where
  "program_cells page address i [] m = m"
| "program_cells page address i (b # bs) m =
     program_cells page address (Suc i) bs (m(cell page address i := m (cell page address i) AND b))"

definition pageProgram :: "nat \<Rightarrow> u8 list \<Rightarrow> flash_dev \<Rightarrow> HAL_Status \<times> flash_dev" where
  "pageProgram address bs dev =
     (if fl_pp_fails dev address then (HAL_ERROR, dev)
      else (HAL_OK, dev\<lparr>fl_mem := program_cells (fl_page dev) address 0 bs (fl_mem dev)\<rparr>))"

definition HAL_Flash_WaitCompl :: "nat \<Rightarrow> flash_dev \<Rightarrow> HAL_Status" where
  "HAL_Flash_WaitCompl address dev = (if fl_late dev address then HAL_TIMEOUT else HAL_OK)"

section \<open>The driver\<close>

text \<open>The parts of a page; a page size of 0 (a division by zero) is left out.\<close>

function write_pages :: "HAL_Status \<Rightarrow> nat \<Rightarrow> u8 list \<Rightarrow> flash_dev \<Rightarrow> HAL_Status \<times> flash_dev" where
  "write_pages ret address bs dev =
     (if bs = [] \<or> fl_page dev = 0 then (ret, dev)
      else (let pp_size = min (length bs) (fl_page dev - address mod fl_page dev)
            in case pageProgram address (take pp_size bs) dev of
                 (st, dev1) \<Rightarrow>
                   if st \<noteq> HAL_OK then (st, dev1)
                   else write_pages (HAL_Flash_WaitCompl address dev1) (address + pp_size) (drop pp_size bs) dev1))"
  by pat_completeness auto
termination
  by (relation "measure (\<lambda>(_, _, bs, _). length bs)") (auto simp: Let_def)

declare write_pages.simps [simp del]

text \<open>The sum of address and size is a sum of 32-bit numbers. \<open>found\<close>: the device number exists.\<close>

definition bad_access :: "bool \<Rightarrow> u32 \<Rightarrow> u32 \<Rightarrow> flash_dev \<Rightarrow> bool" where
  "bad_access found addr num dev = (\<not> found \<or> num = 0 \<or> unat (addr + num) > fl_size dev)"

definition HAL_Flash_Write :: "bool \<Rightarrow> u32 \<Rightarrow> u8 list \<Rightarrow> flash_dev \<Rightarrow> HAL_Status \<times> flash_dev" where
  "HAL_Flash_Write found addr bs dev =
     (if bad_access found addr (of_nat (length bs)) dev then (HAL_INVALID, dev)
      else write_pages HAL_ERROR (unat addr) bs dev)"

definition HAL_Flash_Read :: "bool \<Rightarrow> u32 \<Rightarrow> u32 \<Rightarrow> flash_dev \<Rightarrow> HAL_Status \<times> u8 list" where
  "HAL_Flash_Read found addr num dev =
     (if bad_access found addr num dev then (HAL_INVALID, [])
      else (HAL_OK, map (\<lambda>i. fl_mem dev (unat addr + i)) [0..<unat num]))"

section \<open>Pages make up the whole\<close>

lemma cell_inside: "address mod page + i < page \<Longrightarrow> cell page address i = address + i"
  by (simp add: cell_def)

lemma program_cells_inside:
  assumes "address mod page + i + length bs \<le> page"
  shows "program_cells page address i bs m =
    (\<lambda>x. if address + i \<le> x \<and> x < address + i + length bs then m x AND bs ! (x - (address + i)) else m x)"
  using assms
proof (induction bs arbitrary: i m)
  case (Cons b bs)
  have c: "cell page address i = address + i" using Cons.prems by (intro cell_inside) simp
  have IH: "program_cells page address (Suc i) bs m' = (\<lambda>x. if address + Suc i \<le> x \<and> x < address + Suc i + length bs
      then m' x AND bs ! (x - (address + Suc i)) else m' x)" for m'
    using Cons.prems by (intro Cons.IH) simp
  show ?case
  proof
    fix x
    consider "x < address + i" | "x = address + i" | "address + Suc i \<le> x" by linarith
    then show "program_cells page address i (b # bs) m x =
      (if address + i \<le> x \<and> x < address + i + length (b # bs) then m x AND (b # bs) ! (x - (address + i)) else m x)"
    proof cases
      case 3
      then have "x - (address + i) = Suc (x - (address + Suc i))" by simp
      then show ?thesis using 3 by (simp add: c IH)
    qed (simp_all add: c IH)
  qed
qed (auto simp: fun_eq_iff)

text \<open>The specification of a write: every byte of the range is combined with the one in the flash.\<close>

definition and_range :: "nat \<Rightarrow> u8 list \<Rightarrow> (nat \<Rightarrow> u8) \<Rightarrow> nat \<Rightarrow> u8" where
  "and_range a bs m x = (if a \<le> x \<and> x < a + length bs then m x AND bs ! (x - a) else m x)"

lemma and_range_append: "and_range (a + length xs) ys (and_range a xs m) = and_range a (xs @ ys) m"
proof
  fix x
  have "x - a - length xs = x - (a + length xs)" by simp
  then show "and_range (a + length xs) ys (and_range a xs m) x = and_range a (xs @ ys) m x"
    by (auto simp: and_range_def nth_append)
qed

lemma page_fits: "0 < page \<Longrightarrow> n \<le> page - address mod page \<Longrightarrow> address mod page + 0 + n \<le> page" for page :: nat
  using mod_less_divisor [of page address] by linarith

lemma write_pages_whole:
  assumes "\<forall>a. address \<le> a \<and> a < address + length bs \<longrightarrow> \<not> fl_pp_fails dev a \<and> \<not> fl_late dev a" "0 < fl_page dev"
    "bs = [] \<longrightarrow> ret = HAL_OK"
  shows "write_pages ret address bs dev = (HAL_OK, dev\<lparr>fl_mem := and_range address bs (fl_mem dev)\<rparr>)"
  using assms
proof (induction ret address bs dev rule: write_pages.induct)
  case (1 ret address bs dev)
  show ?case
  proof (cases "bs = []")
    case True
    have "and_range address [] (fl_mem dev) = fl_mem dev" by (auto simp: and_range_def fun_eq_iff)
    then show ?thesis using True "1.prems"(3) by (simp add: write_pages.simps)
  next
    case False
    define pp where "pp = min (length bs) (fl_page dev - address mod fl_page dev)"
    have pp: "0 < pp" "pp \<le> length bs" "pp \<le> fl_page dev - address mod fl_page dev"
      using False "1.prems"(2) by (auto simp: pp_def)
    define dev1 where "dev1 = dev\<lparr>fl_mem := and_range address (take pp bs) (fl_mem dev)\<rparr>"
    have "program_cells (fl_page dev) address 0 (take pp bs) (fl_mem dev) = and_range address (take pp bs) (fl_mem dev)"
      using program_cells_inside [of address "fl_page dev" 0 "take pp bs" "fl_mem dev"] page_fits [OF "1.prems"(2) pp(3)] pp(2)
      by (auto simp: and_range_def)
    then have prog: "pageProgram address (take pp bs) dev = (HAL_OK, dev1)"
      using "1.prems"(1) False by (simp add: pageProgram_def dev1_def)
    have wait: "HAL_Flash_WaitCompl address dev1 = HAL_OK"
      using "1.prems"(1) False by (simp add: HAL_Flash_WaitCompl_def dev1_def)
    have step: "write_pages ret address bs dev = write_pages HAL_OK (address + pp) (drop pp bs) dev1"
      using False "1.prems"(2) prog wait by (subst write_pages.simps) (simp add: pp_def [symmetric] Let_def)
    have "write_pages HAL_OK (address + pp) (drop pp bs) dev1 =
      (HAL_OK, dev1\<lparr>fl_mem := and_range (address + pp) (drop pp bs) (fl_mem dev1)\<rparr>)"
    proof (rule "1.IH" [of pp HAL_OK dev1, unfolded wait])
    qed (use False "1.prems" pp prog in \<open>auto simp: dev1_def pp_def [symmetric]\<close>)
    moreover have "and_range (address + pp) (drop pp bs) (fl_mem dev1) = and_range address bs (fl_mem dev)"
    proof -
      have "length (take pp bs) = pp" using pp(2) by simp
      then show ?thesis using and_range_append [of address "take pp bs" "drop pp bs" "fl_mem dev"]
        by (simp only: append_take_drop_id dev1_def) simp
    qed
    ultimately show ?thesis using step by (simp add: dev1_def)
  qed
qed

section \<open>Whatever happens, a write stays in its range\<close>

definition same_outside :: "nat \<Rightarrow> nat \<Rightarrow> flash_dev \<Rightarrow> flash_dev \<Rightarrow> bool" where
  "same_outside a n dev dev' \<longleftrightarrow>
     (\<forall>x. \<not> (a \<le> x \<and> x < a + n) \<longrightarrow> fl_mem dev' x = fl_mem dev x) \<and> fl_page dev' = fl_page dev \<and> fl_size dev' = fl_size dev"

lemma same_outside_refl [simp]: "same_outside a n dev dev"
  by (simp add: same_outside_def)

lemma same_outside_trans:
  assumes "same_outside a n d d1" "same_outside a' n' d1 d2" "a \<le> a'" "a' + n' \<le> a + n"
  shows "same_outside a n d d2"
  using assms by (auto simp: same_outside_def)

lemma same_outside_mono: "same_outside a' n' d d1 \<Longrightarrow> a \<le> a' \<Longrightarrow> a' + n' \<le> a + n \<Longrightarrow> same_outside a n d d1"
  by (rule same_outside_trans [OF same_outside_refl])

lemma write_pages_outside:
  "write_pages ret address bs dev = (st, dev') \<Longrightarrow> same_outside address (length bs) dev dev'"
proof (induction ret address bs dev rule: write_pages.induct)
  case (1 ret address bs dev)
  show ?case
  proof (cases "bs = [] \<or> fl_page dev = 0")
    case True
    then show ?thesis using "1.prems" by (subst (asm) write_pages.simps) auto
  next
    case False
    define pp where "pp = min (length bs) (fl_page dev - address mod fl_page dev)"
    obtain st1 dev1 where p: "pageProgram address (take pp bs) dev = (st1, dev1)" by (cases "pageProgram address (take pp bs) dev")
    have pl: "pp \<le> length bs" by (simp add: pp_def)
    have pf: "address mod fl_page dev + 0 + length (take pp bs) \<le> fl_page dev"
      using page_fits [of "fl_page dev" pp address] False by (simp add: pp_def)
    have o1: "same_outside address pp dev dev1"
      using p program_cells_inside [OF pf, of "fl_mem dev"] pl
      by (auto simp: pageProgram_def same_outside_def split: if_split_asm)
    show ?thesis
    proof (cases "st1 = HAL_OK")
      case True
      have "write_pages (HAL_Flash_WaitCompl address dev1) (address + pp) (drop pp bs) dev1 = (st, dev')"
        using "1.prems" False True p by (subst (asm) write_pages.simps) (simp add: Let_def pp_def)
      then have "same_outside (address + pp) (length (drop pp bs)) dev1 dev'"
        using "1.IH" [of pp st1 dev1] False True p by (simp add: pp_def)
      then show ?thesis using o1 pl
        by (intro same_outside_trans [OF same_outside_mono [OF o1] _]) auto
    next
      case F: False
      have "dev' = dev1" using "1.prems" False F p by (subst (asm) write_pages.simps) (simp add: Let_def pp_def)
      then show ?thesis using same_outside_mono [OF o1] pl by simp
    qed
  qed
qed

lemma flash_write_outside:
  "HAL_Flash_Write found addr bs dev = (st, dev') \<Longrightarrow> same_outside (unat addr) (length bs) dev dev'"
  by (auto simp: HAL_Flash_Write_def split: if_split_asm intro: write_pages_outside)

section \<open>What is written can be read\<close>

definition flash_good :: "flash_dev \<Rightarrow> bool" where
  "flash_good dev = (0 < fl_page dev \<and> (\<forall>a. \<not> fl_pp_fails dev a \<and> \<not> fl_late dev a))"

lemma flash_write_good:
  assumes "flash_good dev" "bs \<noteq> []" "length bs < 2 ^ 32" "unat addr + length bs \<le> fl_size dev" "fl_size dev < 2 ^ 32"
  shows "HAL_Flash_Write True addr bs dev = (HAL_OK, dev\<lparr>fl_mem := and_range (unat addr) bs (fl_mem dev)\<rparr>)"
proof -
  have "unat (of_nat (length bs) :: u32) = length bs" using assms(3) by (simp add: unat_of_nat)
  moreover from this have "unat (addr + of_nat (length bs)) = unat addr + length bs"
    using assms(4,5) by (simp add: unat_word_ariths)
  moreover have "(of_nat (length bs) :: u32) \<noteq> 0" using assms(2) calculation(1) by auto
  ultimately have "\<not> bad_access True addr (of_nat (length bs)) dev" using assms(4) by (simp add: bad_access_def)
  then show ?thesis using assms(1,2) write_pages_whole [of "unat addr" bs dev HAL_ERROR]
    by (simp add: HAL_Flash_Write_def flash_good_def)
qed

lemma flash_read_good:
  assumes "0 < n" "n < 2 ^ 32" "unat addr + n \<le> fl_size dev" "fl_size dev < 2 ^ 32"
  shows "HAL_Flash_Read True addr (of_nat n) dev = (HAL_OK, map (\<lambda>i. fl_mem dev (unat addr + i)) [0..<n])"
proof -
  have n: "unat (of_nat n :: u32) = n" using assms(2) by (simp add: unat_of_nat)
  then have "unat (addr + of_nat n) = unat addr + n" using assms(3,4) by (simp add: unat_word_ariths)
  moreover have "(of_nat n :: u32) \<noteq> 0" using assms(1) n by auto
  ultimately show ?thesis using assms(3) n by (simp add: HAL_Flash_Read_def bad_access_def)
qed

lemma unat_u32_of_nat: "n < 2 ^ 32 \<Longrightarrow> unat (of_nat n :: u32) = n"
  by (simp add: unat_of_nat)

section \<open>A store that is written piece by piece\<close>

text \<open>
  What the users of the flash rely on: a piece that fits is written as the specification says, and the store
  is as good as before. Pieces that follow each other make up the whole.
\<close>

locale chunk_store =
  fixes wr :: "nat \<Rightarrow> u8 list \<Rightarrow> 'd \<Rightarrow> 'd option"
    and cells :: "'d \<Rightarrow> nat \<Rightarrow> u8"
    and good :: "'d \<Rightarrow> bool"
    and limit :: "'d \<Rightarrow> nat"
  assumes wr_good: "good d \<Longrightarrow> bs \<noteq> [] \<Longrightarrow> a + length bs \<le> limit d \<Longrightarrow>
      \<exists>d'. wr a bs d = Some d' \<and> cells d' = and_range a bs (cells d) \<and> good d' \<and> limit d' = limit d"
begin

fun wr_all :: "nat \<Rightarrow> u8 list list \<Rightarrow> 'd \<Rightarrow> 'd option" where
  "wr_all a [] d = Some d"
| "wr_all a (c # cs) d = (case wr a c d of None \<Rightarrow> None | Some d1 \<Rightarrow> wr_all (a + length c) cs d1)"

lemma wr_all_whole:
  assumes "good d" "\<forall>c\<in>set cs. c \<noteq> []" "a + length (concat cs) \<le> limit d"
  shows "\<exists>d'. wr_all a cs d = Some d' \<and> cells d' = and_range a (concat cs) (cells d) \<and> good d' \<and> limit d' = limit d"
  using assms
proof (induction cs arbitrary: a d)
  case Nil
  then show ?case by (auto simp: and_range_def fun_eq_iff)
next
  case (Cons c cs)
  obtain d1 where d1: "wr a c d = Some d1" "cells d1 = and_range a c (cells d)" "good d1" "limit d1 = limit d"
    using wr_good [of d c a] Cons.prems by auto
  obtain d2 where "wr_all (a + length c) cs d1 = Some d2" "cells d2 = and_range (a + length c) (concat cs) (cells d1)"
    "good d2" "limit d2 = limit d1"
    using Cons.IH [of d1 "a + length c"] Cons.prems d1 by (auto simp: add.assoc)
  then show ?case using d1 and_range_append [of a c "concat cs" "cells d"] by simp
qed

end

text \<open>The driver is such a store.\<close>

definition flash_wr :: "nat \<Rightarrow> u8 list \<Rightarrow> flash_dev \<Rightarrow> flash_dev option" where
  "flash_wr a bs dev =
     (case HAL_Flash_Write True (of_nat a) bs dev of (st, dev1) \<Rightarrow> if st = HAL_OK then Some dev1 else None)"

definition flash_ok :: "flash_dev \<Rightarrow> bool" where
  "flash_ok dev = (flash_good dev \<and> fl_size dev < 2 ^ 32)"

interpretation fl: chunk_store flash_wr fl_mem flash_ok fl_size
proof
  fix d :: flash_dev and bs :: "u8 list" and a :: nat
  assume d: "flash_ok d" "bs \<noteq> []" "a + length bs \<le> fl_size d"
  then have l: "a < 2 ^ 32" "length bs < 2 ^ 32" by (auto simp: flash_ok_def)
  have "unat (of_nat a :: u32) = a" using l(1) unat_u32_of_nat by simp
  then have "HAL_Flash_Write True (of_nat a) bs d = (HAL_OK, d\<lparr>fl_mem := and_range a bs (fl_mem d)\<rparr>)"
    using flash_write_good [of d bs "of_nat a"] d l by (simp add: flash_ok_def)
  then show "\<exists>d'. flash_wr a bs d = Some d' \<and> fl_mem d' = and_range a bs (fl_mem d) \<and> flash_ok d' \<and> fl_size d' = fl_size d"
    using d(1) by (simp add: flash_wr_def flash_ok_def flash_good_def)
qed

text \<open>A page that is not completed in time is not reported when a later page of the same write is.\<close>

lemma late_page_lost:
  assumes "0 < fl_page dev" "\<forall>a. \<not> fl_pp_fails dev a" "fl_late dev 0" "\<not> fl_late dev (fl_page dev)"
    "length bs = 2 * fl_page dev" "2 * fl_page dev \<le> fl_size dev" "fl_size dev < 2 ^ 32"
  shows "fst (HAL_Flash_Write True 0 bs dev) = HAL_OK"
proof -
  define p where "p = fl_page dev"
  define d1 where "d1 = snd (pageProgram 0 (take p bs) dev)"
  have p1: "pageProgram 0 (take p bs) dev = (HAL_OK, d1)" using assms(2) by (simp add: d1_def pageProgram_def)
  have fr: "fl_page d1 = p" "fl_pp_fails d1 = fl_pp_fails dev" "fl_late d1 = fl_late dev"
    using p1 by (auto simp: pageProgram_def p_def split: if_split_asm)
  define d2 where "d2 = snd (pageProgram p (drop p bs) d1)"
  have p2: "pageProgram p (drop p bs) d1 = (HAL_OK, d2)" using assms(2) fr by (simp add: d2_def pageProgram_def)
  have fr2: "fl_late d2 = fl_late dev" using p2 fr by (auto simp: pageProgram_def split: if_split_asm)
  have l: "bs \<noteq> []" "drop p bs \<noteq> []" "length (drop p bs) = p" "0 < p" using assms(1,5) by (auto simp: p_def)
  have m1: "min (length bs) (p - 0 mod p) = p" using assms(5) by (simp add: p_def)
  have m2: "min (length (drop p bs)) (p - p mod p) = p" using l by simp
  have "write_pages HAL_ERROR 0 bs dev = write_pages (HAL_Flash_WaitCompl 0 d1) (0 + p) (drop p bs) d1"
    using l p1 m1 by (subst write_pages.simps) (simp add: Let_def p_def [symmetric])
  also have "\<dots> = write_pages (HAL_Flash_WaitCompl p d2) (p + p) [] d2"
    using l p2 m2 fr by (subst write_pages.simps) (simp add: Let_def)
  also have "\<dots> = (HAL_OK, d2)"
    using assms(4) fr2 by (simp add: write_pages.simps HAL_Flash_WaitCompl_def p_def)
  finally have w: "write_pages HAL_ERROR 0 bs dev = (HAL_OK, d2)" .
  have "length bs < 2 ^ 32" using assms(5-7) by simp
  then have "unat (of_nat (length bs) :: u32) = length bs" using unat_u32_of_nat by simp
  moreover from this have "(of_nat (length bs) :: u32) \<noteq> 0" using l by auto
  ultimately have "\<not> bad_access True 0 (of_nat (length bs)) dev" using assms(5,6) by (simp add: bad_access_def)
  then show ?thesis using w by (simp add: HAL_Flash_Write_def)
qed

section \<open>Properties\<close>

text \<open>The page by page write is the write of the whole range: on a good chip every byte of the range is combined
  with the byte in the flash and no other byte changes, wherever the range starts in a page; on erased flash the
  data is read back.\<close>

lemma flash_write_whole:
  assumes "flash_good dev" "bs \<noteq> []" "length bs < 2 ^ 32" "unat addr + length bs \<le> fl_size dev" "fl_size dev < 2 ^ 32"
  shows "\<exists>dev'. HAL_Flash_Write True addr bs dev = (HAL_OK, dev') \<and> fl_mem dev' = and_range (unat addr) bs (fl_mem dev) \<and>
    ((\<forall>i<length bs. fl_mem dev (unat addr + i) = -1) \<longrightarrow>
      HAL_Flash_Read True addr (of_nat (length bs)) dev' = (HAL_OK, bs))"
proof -
  define dev' where "dev' = dev\<lparr>fl_mem := and_range (unat addr) bs (fl_mem dev)\<rparr>"
  have r: "HAL_Flash_Read True addr (of_nat (length bs)) dev' =
      (HAL_OK, map (\<lambda>i. fl_mem dev' (unat addr + i)) [0..<length bs])"
    using assms by (intro flash_read_good) (simp_all add: dev'_def)
  have "map (\<lambda>i. fl_mem dev' (unat addr + i)) [0..<length bs] = bs" if "\<forall>i<length bs. fl_mem dev (unat addr + i) = -1"
    using that by (intro nth_equalityI) (simp_all add: dev'_def and_range_def)
  then show ?thesis using flash_write_good [OF assms] r by (auto simp: dev'_def)
qed

definition erased_flash :: flash_dev where
  "erased_flash = \<lparr>fl_mem = \<lambda>a. -1, fl_size = 65536, fl_page = 256, fl_pp_fails = \<lambda>a. False, fl_late = \<lambda>a. False\<rparr>"

lemma flash_write_whole_witness:
  "\<exists>dev'. HAL_Flash_Write True 250 (replicate 20 7) erased_flash = (HAL_OK, dev') \<and>
    HAL_Flash_Read True 250 20 dev' = (HAL_OK, replicate 20 7)"
  using flash_write_whole [of erased_flash "replicate 20 7" 250]
  by (auto simp: erased_flash_def flash_good_def)

end
