(* ===== verification/Ota.thy ===== *)
theory Ota
  imports Flash
begin

text \<open>
  The update over the air, src/ota/ota.c with its sources ota_file.c and ota_http.c: the new image is taken from
  a source past its boot loader, written to the area of the image that does not run, and made the one to boot
  once its digest is checked. The functions of the ROM that are not in the repository (erasing, checking the
  sections, storing the configuration) are the record \<open>ota_rom\<close>, the hash engines the record \<open>ota_ce\<close>. A loop
  whose source may never end is a partial function: \<open>None\<close> is not to return.
\<close>

section \<open>State\<close>

datatype ota_status = OTA_STATUS_OK | OTA_STATUS_ERROR
datatype image_state = IMAGE_STATE_UNVERIFIED | IMAGE_STATE_VERIFIED | IMAGE_STATE_UNDEFINED
datatype ota_verify = OTA_VERIFY_NONE | OTA_VERIFY_CRC32 | OTA_VERIFY_MD5 | OTA_VERIFY_SHA1 | OTA_VERIFY_SHA256

record image_ota_param =
  img_max_size :: nat
  bl_size :: u32
  running_seq :: nat
  img_flash :: "nat list"
  img_addr :: "u32 list"

record ota_priv =
  iop :: "image_ota_param option"
  get_size :: u32

text \<open>The devices by number, and the stored configuration: image and state.\<close>

record ota_dev =
  flashes :: "nat \<Rightarrow> flash_dev"
  image_cfg :: "nat \<times> image_state"

record ota_rom =
  rom_erase :: "nat \<Rightarrow> u32 \<Rightarrow> nat \<Rightarrow> flash_dev \<Rightarrow> flash_dev option"
  rom_flash_open :: "nat \<Rightarrow> bool"
  rom_check_header :: "u8 list \<Rightarrow> bool"
  rom_check_sections :: "nat \<Rightarrow> ota_dev \<Rightarrow> bool"
  rom_set_cfg :: "nat \<times> image_state \<Rightarrow> bool"
  rom_ota_param :: image_ota_param

definition IMAGE_SEQ_NUM :: nat where "IMAGE_SEQ_NUM = 2"
definition OTA_BUF_SIZE :: nat where "OTA_BUF_SIZE = 2048"
definition ota_update_seq_policy :: "nat list" where "ota_update_seq_policy = [1, 0]"

definition ota_get_update_seq :: "ota_priv \<Rightarrow> nat" where
  "ota_get_update_seq p =
     (case iop p of
        None \<Rightarrow> IMAGE_SEQ_NUM
      | Some i \<Rightarrow>
          if img_max_size i = 0 \<or> bl_size i = 0 \<or> running_seq i \<ge> IMAGE_SEQ_NUM then IMAGE_SEQ_NUM
          else ota_update_seq_policy ! running_seq i)"

definition ota_init :: "ota_rom \<Rightarrow> ota_priv" where
  "ota_init rom = \<lparr>iop = Some (rom_ota_param rom), get_size = 0\<rparr>"

definition ota_deinit :: ota_priv where "ota_deinit = \<lparr>iop = None, get_size = 0\<rparr>"

section \<open>Sources\<close>

text \<open>ota_file.c: the file from the read position on; \<open>ff_open_ok\<close>, \<open>ff_read_ok\<close>: what f_open and f_read say.\<close>

record ota_fs_param =
  ff_rest :: "u8 list"
  ff_open_ok :: bool
  ff_read_ok :: bool

definition ota_update_file_init :: "ota_fs_param \<Rightarrow> ota_fs_param option" where
  "ota_update_file_init f = (if ff_open_ok f then Some f else None)"

text \<open>The answer: the bytes received, the end-of-file flag and the source; nothing is \<open>OTA_STATUS_ERROR\<close>.\<close>

definition ota_update_file_get :: "ota_fs_param \<Rightarrow> nat \<Rightarrow> (u8 list \<times> bool \<times> ota_fs_param) option" where
  "ota_update_file_get f buf_size =
     (if \<not> ff_read_ok f then None
      else (let bs = take buf_size (ff_rest f)
            in Some (bs, length bs < buf_size, f\<lparr>ff_rest := drop buf_size (ff_rest f)\<rparr>)))"

text \<open>ota_http.c; the HTTP client is the argument \<open>httpc\<close>.\<close>

datatype http_result = HTTP_CLIENT_SUCCESS | HTTP_CLIENT_EOS | HTTP_CLIENT_ERROR

definition ota_update_http_init :: "bool \<Rightarrow> 's \<Rightarrow> 's option" where
  "ota_update_http_init mem s = (if mem then Some s else None)"

definition ota_update_http_get ::
  "('s \<Rightarrow> nat \<Rightarrow> http_result \<times> u8 list \<times> 's) \<Rightarrow> 's \<Rightarrow> nat \<Rightarrow> (u8 list \<times> bool \<times> 's) option" where
  "ota_update_http_get httpc s buf_size =
     (case httpc s buf_size of
        (HTTP_CLIENT_SUCCESS, bs, s1) \<Rightarrow> Some (bs, False, s1)
      | (HTTP_CLIENT_EOS, bs, s1) \<Rightarrow> Some (bs, True, s1)
      | (HTTP_CLIENT_ERROR, _, _) \<Rightarrow> None)"

section \<open>Getting the image\<close>

text \<open>The loop that skips the boot loader: went well, bytes so far, source.\<close>

partial_function (option) ota_skip ::
  "('s \<Rightarrow> nat \<Rightarrow> (u8 list \<times> bool \<times> 's) option) \<Rightarrow> nat \<Rightarrow> u32 \<Rightarrow> 's \<Rightarrow> (bool \<times> u32 \<times> 's) option" where
  "ota_skip get_cb bl got s =
     (if bl = 0 then Some (True, got, s)
      else (case get_cb s (min bl OTA_BUF_SIZE) of
              None \<Rightarrow> Some (False, got, s)
            | Some (bs, eof, s1) \<Rightarrow>
                if eof then Some (False, got, s1)
                else ota_skip get_cb (bl - length bs) (got + of_nat (length bs)) s1))"

text \<open>The loop that writes: ended at the end of the file, what is left of the maximum, bytes so far, flash.\<close>

partial_function (option) ota_write ::
  "('s \<Rightarrow> nat \<Rightarrow> (u8 list \<times> bool \<times> 's) option) \<Rightarrow> nat \<Rightarrow> u32 \<Rightarrow> u32 \<Rightarrow> 's \<Rightarrow> flash_dev \<Rightarrow>
     (bool \<times> nat \<times> u32 \<times> flash_dev) option" where
  "ota_write get_cb left got addr s dev =
     (if left = 0 then Some (False, left, got, dev)
      else (case get_cb s (min left OTA_BUF_SIZE) of
              None \<Rightarrow> Some (False, left, got, dev)
            | Some (bs, eof, s1) \<Rightarrow>
                (case HAL_Flash_Write True addr bs dev of
                   (st, dev1) \<Rightarrow>
                     if st \<noteq> HAL_OK then Some (False, left - length bs, got + of_nat (length bs), dev1)
                     else if eof then Some (True, left - length bs, got + of_nat (length bs), dev1)
                     else ota_write get_cb (left - length bs) (got + of_nat (length bs)) (addr + of_nat (length bs)) s1 dev1)))"

text \<open>From the label \<open>ota_err\<close> on: the sections are checked also when the maximum was reached.\<close>

definition ota_finish :: "ota_rom \<Rightarrow> nat \<Rightarrow> bool \<Rightarrow> nat \<Rightarrow> ota_dev \<Rightarrow> ota_status" where
  "ota_finish rom seq done left d =
     (if \<not> done \<and> left \<noteq> 0 then OTA_STATUS_ERROR
      else if rom_check_sections rom seq d then OTA_STATUS_OK else OTA_STATUS_ERROR)"

text \<open>\<open>mem\<close>: the buffer could be allocated.\<close>

definition ota_update_image_process ::
  "ota_rom \<Rightarrow> bool \<Rightarrow> nat \<Rightarrow> ('s \<Rightarrow> 's option) \<Rightarrow> ('s \<Rightarrow> nat \<Rightarrow> (u8 list \<times> bool \<times> 's) option) \<Rightarrow> 's \<Rightarrow>
     image_ota_param \<Rightarrow> ota_priv \<Rightarrow> ota_dev \<Rightarrow> (ota_status \<times> ota_priv \<times> ota_dev) option" where
  "ota_update_image_process rom mem seq init_cb get_cb url i p d =
     (let fl = img_flash i ! seq; addr = img_addr i ! seq; max_size = img_max_size i
      in case rom_erase rom fl addr max_size (flashes d fl) of
           None \<Rightarrow> Some (OTA_STATUS_ERROR, p, d)
         | Some dev0 \<Rightarrow>
             (let d0 = d\<lparr>flashes := (flashes d)(fl := dev0)\<rparr>
              in if \<not> mem then Some (OTA_STATUS_ERROR, p, d0)
                 else (case init_cb url of
                         None \<Rightarrow> Some (ota_finish rom seq False max_size d0, p, d0)
                       | Some s0 \<Rightarrow>
                           (case ota_skip get_cb (unat (bl_size i)) 0 s0 of
                              None \<Rightarrow> None
                            | Some (ok, got, s1) \<Rightarrow>
                                if \<not> ok \<or> \<not> rom_flash_open rom fl
                                then Some (ota_finish rom seq False max_size d0, p\<lparr>get_size := got\<rparr>, d0)
                                else (case ota_write get_cb max_size got addr s1 dev0 of
                                        None \<Rightarrow> None
                                      | Some (done, left, got', dev1) \<Rightarrow>
                                          (let d1 = d0\<lparr>flashes := (flashes d0)(fl := dev1)\<rparr>
                                           in Some (ota_finish rom seq done left d1, p\<lparr>get_size := got'\<rparr>, d1)))))))"

definition ota_update_image ::
  "ota_rom \<Rightarrow> bool \<Rightarrow> ('s \<Rightarrow> 's option) \<Rightarrow> ('s \<Rightarrow> nat \<Rightarrow> (u8 list \<times> bool \<times> 's) option) \<Rightarrow> 's \<Rightarrow>
     ota_priv \<Rightarrow> ota_dev \<Rightarrow> (ota_status \<times> ota_priv \<times> ota_dev) option" where
  "ota_update_image rom mem init_cb get_cb url p d =
     (let seq = ota_get_update_seq p
      in if seq < IMAGE_SEQ_NUM then ota_update_image_process rom mem seq init_cb get_cb url (the (iop p)) p d
         else Some (OTA_STATUS_ERROR, p, d))"

text \<open>ota_get_image with the two protocols; the url is given as the source it opens.\<close>

definition ota_get_image_file ::
  "ota_rom \<Rightarrow> bool \<Rightarrow> ota_fs_param option \<Rightarrow> ota_priv \<Rightarrow> ota_dev \<Rightarrow> (ota_status \<times> ota_priv \<times> ota_dev) option" where
  "ota_get_image_file rom mem url p d =
     (case url of
        None \<Rightarrow> Some (OTA_STATUS_ERROR, p, d)
      | Some f \<Rightarrow> ota_update_image rom mem ota_update_file_init ota_update_file_get f (ota_init rom) d)"

definition ota_get_image_http ::
  "('s \<Rightarrow> nat \<Rightarrow> http_result \<times> u8 list \<times> 's) \<Rightarrow> ota_rom \<Rightarrow> bool \<Rightarrow> 's option \<Rightarrow> ota_priv \<Rightarrow> ota_dev \<Rightarrow>
     (ota_status \<times> ota_priv \<times> ota_dev) option" where
  "ota_get_image_http httpc rom mem url p d =
     (case url of
        None \<Rightarrow> Some (OTA_STATUS_ERROR, p, d)
      | Some s \<Rightarrow> ota_update_image rom mem (ota_update_http_init mem) (ota_update_http_get httpc) s (ota_init rom) d)"

section \<open>The data for the check at the end of the image\<close>

text \<open>A 32-bit field of a section header.\<close>

definition header_word :: "u8 list \<Rightarrow> nat \<Rightarrow> u32" where
  "header_word sh k = le32 (\<lambda>j. if j < length sh then sh ! j else 0) k"

definition IMAGE_HEADER_SIZE :: u32 where "IMAGE_HEADER_SIZE = 64"
definition IMAGE_INVALID_ADDR :: u32 where "IMAGE_INVALID_ADDR = 0xFFFFFFFF"

text \<open>The loop over the sections; a chain of sections that comes back to itself never ends.\<close>

partial_function (option) verify_data_loop ::
  "ota_rom \<Rightarrow> image_ota_param \<Rightarrow> nat \<Rightarrow> ota_dev \<Rightarrow> nat \<Rightarrow> u32 \<Rightarrow> u32 option" where
  "verify_data_loop rom i seq d fl addr =
     (case HAL_Flash_Read True addr IMAGE_HEADER_SIZE (flashes d fl) of
        (st, sh) \<Rightarrow>
          if st \<noteq> HAL_OK then Some 0
          else if \<not> rom_check_header rom sh then Some 0
          else if header_word sh 32 = IMAGE_INVALID_ADDR then Some (addr + IMAGE_HEADER_SIZE + header_word sh 12)
          else verify_data_loop rom i seq d (img_flash i ! seq) (img_addr i ! seq + header_word sh 32 - bl_size i))"

definition ota_get_verify_data_pos :: "ota_rom \<Rightarrow> image_ota_param \<Rightarrow> nat \<Rightarrow> ota_dev \<Rightarrow> u32 option" where
  "ota_get_verify_data_pos rom i seq d =
     (if seq \<ge> IMAGE_SEQ_NUM then Some 0
      else if \<not> rom_flash_open rom (img_flash i ! 0) then Some 0
      else verify_data_loop rom i seq d (img_flash i ! 0) (img_addr i ! 0 - bl_size i))"

definition OTA_VERIFY_MAGIC :: u32 where "OTA_VERIFY_MAGIC = 0x0055AAFF"
definition sizeof_ota_verify_data :: u32 where "sizeof_ota_verify_data = 44"

definition ota_get_verify_data :: "ota_rom \<Rightarrow> ota_priv \<Rightarrow> ota_dev \<Rightarrow> (ota_status \<times> u8 list) option" where
  "ota_get_verify_data rom p d =
     (let seq = ota_get_update_seq p; i = the (iop p)
      in if seq \<ge> IMAGE_SEQ_NUM \<or> get_size p = 0 then Some (OTA_STATUS_ERROR, [])
         else (case ota_get_verify_data_pos rom i seq d of
                 None \<Rightarrow> None
               | Some addr \<Rightarrow>
                   if addr = 0 \<or> \<not> rom_flash_open rom (img_flash i ! seq) then Some (OTA_STATUS_ERROR, [])
                   else (case HAL_Flash_Read True addr sizeof_ota_verify_data (flashes d (img_flash i ! seq)) of
                           (st, bs) \<Rightarrow>
                             if st \<noteq> HAL_OK \<or> header_word bs 0 \<noteq> OTA_VERIFY_MAGIC then Some (OTA_STATUS_ERROR, bs)
                             else Some (OTA_STATUS_OK, bs))))"

section \<open>Checking the image\<close>

text \<open>A hash engine: init (given a length), append, finish; each may fail.\<close>

record 'h ota_ce =
  ce_init :: "u32 \<Rightarrow> 'h option"
  ce_append :: "'h \<Rightarrow> u8 list \<Rightarrow> 'h option"
  ce_finish :: "'h \<Rightarrow> u8 list option"

fun append_loop :: "nat \<Rightarrow> 'h ota_ce \<Rightarrow> flash_dev \<Rightarrow> u32 \<Rightarrow> nat \<Rightarrow> 'h \<Rightarrow> ota_status \<times> 'h" where
  "append_loop 0 ce dev addr n h = (if n = 0 then OTA_STATUS_OK else OTA_STATUS_ERROR, h)"
| "append_loop (Suc fuel) ce dev addr n h =
     (if n = 0 then (OTA_STATUS_OK, h)
      else (let read_size = min n OTA_BUF_SIZE
            in case HAL_Flash_Read True addr (of_nat read_size) dev of
                 (st, buf) \<Rightarrow>
                   if st \<noteq> HAL_OK then (OTA_STATUS_ERROR, h)
                   else (case ce_append ce h buf of
                           None \<Rightarrow> (OTA_STATUS_ERROR, h)
                         | Some h1 \<Rightarrow> append_loop fuel ce dev (addr + of_nat read_size) (n - read_size) h1)))"

text \<open>Every round takes at least one byte, so \<open>size\<close> rounds are enough.\<close>

definition ota_verify_image_append_process ::
  "ota_rom \<Rightarrow> bool \<Rightarrow> 'h ota_ce \<Rightarrow> nat \<Rightarrow> u32 \<Rightarrow> u32 \<Rightarrow> ota_dev \<Rightarrow> 'h \<Rightarrow> ota_status \<times> 'h" where
  "ota_verify_image_append_process rom mem ce fl addr len d h =
     (if \<not> rom_flash_open rom fl \<or> \<not> mem then (OTA_STATUS_ERROR, h)
      else append_loop (unat len) ce (flashes d fl) addr (unat len) h)"

definition ota_verify_image_append ::
  "ota_rom \<Rightarrow> bool \<Rightarrow> 'h ota_ce \<Rightarrow> nat \<Rightarrow> ota_priv \<Rightarrow> ota_dev \<Rightarrow> 'h \<Rightarrow> ota_status \<times> 'h" where
  "ota_verify_image_append rom mem ce seq p d h =
     (let i = the (iop p)
      in ota_verify_image_append_process rom mem ce (img_flash i ! seq) (img_addr i ! seq)
           (get_size p - bl_size i - sizeof_ota_verify_data) d h)"

text \<open>ota_verify_image_crc32, _md5, _sha1 and _sha256 differ in the engine and in the length of the digest.\<close>

definition digest_len :: "ota_verify \<Rightarrow> nat" where
  "digest_len v =
     (case v of OTA_VERIFY_NONE \<Rightarrow> 0 | OTA_VERIFY_CRC32 \<Rightarrow> 4 | OTA_VERIFY_MD5 \<Rightarrow> 16 | OTA_VERIFY_SHA1 \<Rightarrow> 20
      | OTA_VERIFY_SHA256 \<Rightarrow> 32)"

definition ota_verify_image_digest ::
  "ota_rom \<Rightarrow> bool \<Rightarrow> 'h ota_ce \<Rightarrow> nat \<Rightarrow> u8 list \<Rightarrow> nat \<Rightarrow> ota_priv \<Rightarrow> ota_dev \<Rightarrow> ota_status" where
  "ota_verify_image_digest rom mem ce n val seq p d =
     (case ce_init ce (get_size p) of
        None \<Rightarrow> OTA_STATUS_ERROR
      | Some h \<Rightarrow>
          (case ota_verify_image_append rom mem ce seq p d h of
             (st, h1) \<Rightarrow>
               if st \<noteq> OTA_STATUS_OK then OTA_STATUS_ERROR
               else (case ce_finish ce h1 of
                       None \<Rightarrow> OTA_STATUS_ERROR
                     | Some digest \<Rightarrow> if take n val = take n digest then OTA_STATUS_OK else OTA_STATUS_ERROR)))"

definition ota_verify_image ::
  "ota_rom \<Rightarrow> bool \<Rightarrow> (ota_verify \<Rightarrow> 'h ota_ce) \<Rightarrow> ota_verify \<Rightarrow> u8 list option \<Rightarrow> ota_priv \<Rightarrow> ota_dev \<Rightarrow>
     ota_status \<times> ota_dev" where
  "ota_verify_image rom mem ces verify val p d =
     (if verify \<noteq> OTA_VERIFY_NONE \<and> val = None then (OTA_STATUS_ERROR, d)
      else if ota_get_update_seq p \<ge> IMAGE_SEQ_NUM \<or> get_size p = 0 then (OTA_STATUS_ERROR, d)
      else (let seq = ota_get_update_seq p;
                st = (if verify = OTA_VERIFY_NONE then OTA_STATUS_OK
                      else ota_verify_image_digest rom mem (ces verify) (digest_len verify) (the val) seq p d)
            in if st \<noteq> OTA_STATUS_OK then (OTA_STATUS_ERROR, d)
               else if rom_set_cfg rom (seq, IMAGE_STATE_VERIFIED)
               then (OTA_STATUS_OK, d\<lparr>image_cfg := (seq, IMAGE_STATE_VERIFIED)\<rparr>)
               else (OTA_STATUS_ERROR, d)))"

section \<open>Whatever the source sends, an update stays in its area\<close>

definition gives_at_most :: "('s \<Rightarrow> nat \<Rightarrow> (u8 list \<times> bool \<times> 's) option) \<Rightarrow> bool" where
  "gives_at_most get_cb \<longleftrightarrow> (\<forall>s n bs eof s1. get_cb s n = Some (bs, eof, s1) \<longrightarrow> length bs \<le> n)"

definition erases_inside :: "ota_rom \<Rightarrow> bool" where
  "erases_inside rom \<longleftrightarrow>
     (\<forall>fl a n dev dev'. rom_erase rom fl a n dev = Some dev' \<longrightarrow> same_outside (unat a) n dev dev')"

lemma ota_write_outside:
  assumes "ota_write get_cb left got addr s dev = Some r"
  shows "gives_at_most get_cb \<longrightarrow> unat addr + left < 2 ^ 32 \<longrightarrow> same_outside (unat addr) left dev (snd (snd (snd r)))"
proof (rule ota_write.raw_induct [where P = "\<lambda>get_cb left got addr s dev r. gives_at_most get_cb \<longrightarrow>
    unat addr + left < 2 ^ 32 \<longrightarrow> same_outside (unat addr) left dev (snd (snd (snd r)))", OF _ assms], intro impI)
  fix ow and get_cb :: "'a \<Rightarrow> nat \<Rightarrow> (u8 list \<times> bool \<times> 'a) option" and left got addr s dev y
  assume IH: "\<And>get_cb left got addr s dev y. ow get_cb left got addr s dev = Some y \<Longrightarrow> gives_at_most get_cb \<longrightarrow>
      unat addr + left < 2 ^ 32 \<longrightarrow> same_outside (unat addr) left dev (snd (snd (snd y)))"
    and body: "(if left = 0 then Some (False, left, got, dev)
      else (case get_cb s (min left OTA_BUF_SIZE) of
              None \<Rightarrow> Some (False, left, got, dev)
            | Some (bs, eof, s1) \<Rightarrow>
                (case HAL_Flash_Write True addr bs dev of
                   (st, dev1) \<Rightarrow>
                     if st \<noteq> HAL_OK then Some (False, left - length bs, got + of_nat (length bs), dev1)
                     else if eof then Some (True, left - length bs, got + of_nat (length bs), dev1)
                     else ow get_cb (left - length bs) (got + of_nat (length bs)) (addr + of_nat (length bs)) s1 dev1))) = Some y"
    and cb: "gives_at_most get_cb" and room: "unat addr + left < 2 ^ 32"
  show "same_outside (unat addr) left dev (snd (snd (snd y)))"
  proof (cases "left = 0 \<or> get_cb s (min left OTA_BUF_SIZE) = None")
    case True
    then show ?thesis using body by (auto split: if_split_asm)
  next
    case False
    then obtain bs eof s1 where g: "get_cb s (min left OTA_BUF_SIZE) = Some (bs, eof, s1)" by auto
    obtain st dev1 where w: "HAL_Flash_Write True addr bs dev = (st, dev1)" by (cases "HAL_Flash_Write True addr bs dev")
    have "length bs \<le> min left OTA_BUF_SIZE" using cb g unfolding gives_at_most_def by blast
    then have l: "length bs \<le> left" by simp
    have "unat (of_nat (length bs) :: u32) = length bs" using l room by (intro unat_u32_of_nat) linarith
    then have a: "unat (addr + of_nat (length bs)) = unat addr + length bs"
      using l room by (simp add: unat_word_ariths)
    have o1: "same_outside (unat addr) left dev dev1"
      by (rule same_outside_mono [OF flash_write_outside [OF w]]) (use l in simp_all)
    show ?thesis
    proof (cases "st = HAL_OK \<and> \<not> eof")
      case True
      then have "same_outside (unat addr + length bs) (left - length bs) dev1 (snd (snd (snd y)))"
        using IH [of get_cb "left - length bs" _ "addr + of_nat (length bs)"] body False g w cb room a l
        by (auto simp: add.assoc)
      then show ?thesis by (rule same_outside_trans [OF o1]) (use l in simp_all)
    next
      case F: False
      then show ?thesis using body False g w o1 by (auto split: if_split_asm)
    qed
  qed
qed

text \<open>What an update may change, whatever its end.\<close>

lemma update_image_outside:
  assumes "ota_update_image rom mem init_cb get_cb url p d = Some (st, p', d')" "iop p = Some i"
    "gives_at_most get_cb" "erases_inside rom" "seq = ota_get_update_seq p" "unat (img_addr i ! seq) + img_max_size i < 2 ^ 32"
  shows "image_cfg d' = image_cfg d \<and> iop p' = iop p \<and> (\<forall>fl. fl \<noteq> img_flash i ! seq \<longrightarrow> flashes d' fl = flashes d fl) \<and>
    same_outside (unat (img_addr i ! seq)) (img_max_size i) (flashes d (img_flash i ! seq)) (flashes d' (img_flash i ! seq))"
proof -
  define fl a mx where "fl = img_flash i ! seq" and "a = img_addr i ! seq" and "mx = img_max_size i"
  have er: "same_outside (unat a) mx dev dev0" if "rom_erase rom fl a mx dev = Some dev0" for dev dev0
    using assms(4) that unfolding erases_inside_def by blast
  have wr: "same_outside (unat a) mx dev dev1"
    if "ota_write get_cb mx got a s1 dev0 = Some (dn, l, g, dev1)" "same_outside (unat a) mx dev dev0" for got s1 dev0 dn l g dev1 dev
    using ota_write_outside [OF that(1)] assms(3,6) same_outside_trans [OF that(2)] by (simp add: a_def mx_def)
  show ?thesis
  proof (cases "seq < IMAGE_SEQ_NUM")
    case False
    then show ?thesis using assms(1,5) by (simp add: ota_update_image_def)
  next
    case True
    then have "ota_update_image_process rom mem seq init_cb get_cb url i p d = Some (st, p', d')"
      using assms(1,2,5) by (simp add: ota_update_image_def)
    then show ?thesis
      unfolding ota_update_image_process_def Let_def fl_def [symmetric] a_def [symmetric] mx_def [symmetric]
      by (auto split: option.splits if_split_asm prod.splits dest: er wr)
  qed
qed

section \<open>From a file\<close>

lemma file_get:
  "ff_read_ok f \<Longrightarrow> ota_update_file_get f n =
     Some (take n (ff_rest f), length (ff_rest f) < n, f\<lparr>ff_rest := drop n (ff_rest f)\<rparr>)"
  by (auto simp: ota_update_file_get_def Let_def)

lemma file_skip:
  assumes "ff_read_ok f" "bl \<le> length (ff_rest f)"
  shows "ota_skip ota_update_file_get bl got f =
    Some (True, got + of_nat bl, f\<lparr>ff_rest := drop bl (ff_rest f)\<rparr>)"
  using assms
proof (induction bl arbitrary: got f rule: less_induct)
  case (less bl)
  show ?case
  proof (cases "bl = 0")
    case True
    then show ?thesis by (subst ota_skip.simps) simp
  next
    case False
    define n where "n = min bl OTA_BUF_SIZE"
    have n: "0 < n" "n \<le> bl" using False by (auto simp: n_def OTA_BUF_SIZE_def)
    define f1 where "f1 = f\<lparr>ff_rest := drop n (ff_rest f)\<rparr>"
    have g: "ota_update_file_get f n = Some (take n (ff_rest f), False, f1)"
      using file_get [OF less.prems(1)] less.prems(2) n by (simp add: f1_def)
    have l: "length (take n (ff_rest f)) = n" using n less.prems(2) by simp
    have "ota_skip ota_update_file_get bl got f = ota_skip ota_update_file_get (bl - n) (got + of_nat n) f1"
      using False g l by (subst ota_skip.simps) (simp add: n_def [symmetric])
    also have "\<dots> = Some (True, got + of_nat n + of_nat (bl - n), f1\<lparr>ff_rest := drop (bl - n) (ff_rest f1)\<rparr>)"
      using n less.prems by (intro less.IH) (auto simp: f1_def)
    also have "got + of_nat n + of_nat (bl - n) = got + (of_nat bl :: u32)"
    proof -
      have "(of_nat n :: u32) + of_nat (bl - n) = of_nat (n + (bl - n))" by (rule of_nat_add [symmetric])
      then show ?thesis using n by (simp add: add.assoc)
    qed
    also have "f1\<lparr>ff_rest := drop (bl - n) (ff_rest f1)\<rparr> = f\<lparr>ff_rest := drop bl (ff_rest f)\<rparr>"
      using n by (simp add: f1_def)
    finally show ?thesis .
  qed
qed

lemma addr_step:
  assumes "unat addr + n < 2 ^ 32"
  shows "unat (addr + of_nat n :: u32) = unat addr + n"
proof -
  have "n < 2 ^ 32" using assms by simp
  then have "unat (of_nat n :: u32) = n" by (rule unat_u32_of_nat)
  then show ?thesis using assms by (simp add: unat_word_ariths)
qed

text \<open>
  The rest of the file fits into what is left: the file is written to the flash, and the end is noticed when
  the last piece is short. A last piece that fills the buffer is followed by an empty one, which cannot be written.
\<close>

lemma file_write:
  assumes "ff_read_ok f" "length (ff_rest f) < left" "flash_ok dev" "unat addr + length (ff_rest f) \<le> fl_size dev"
  shows "\<exists>dev'. ota_write ota_update_file_get left got addr f dev =
      Some (length (ff_rest f) mod OTA_BUF_SIZE \<noteq> 0, left - length (ff_rest f), got + of_nat (length (ff_rest f)), dev') \<and>
    fl_mem dev' = and_range (unat addr) (ff_rest f) (fl_mem dev) \<and> fl_size dev' = fl_size dev"
  using assms
proof (induction left arbitrary: got addr f dev rule: less_induct)
  case (less left)
  define rest where "rest = ff_rest f"
  define n where "n = min left OTA_BUF_SIZE"
  have n: "0 < n" "n \<le> OTA_BUF_SIZE" using less.prems(2) by (auto simp: n_def OTA_BUF_SIZE_def)
  define f1 where "f1 = f\<lparr>ff_rest := drop n rest\<rparr>"
  have g: "ota_update_file_get f n = Some (take n rest, length rest < n, f1)"
    using file_get [OF less.prems(1)] by (simp add: f1_def rest_def)
  have sz: "fl_size dev < 2 ^ 32" using less.prems(3) by (simp add: flash_ok_def)
  show ?case
  proof (cases "rest = []")
    case True
    have "HAL_Flash_Write True addr [] dev = (HAL_INVALID, dev)" by (simp add: HAL_Flash_Write_def bad_access_def)
    moreover have "and_range (unat addr) [] (fl_mem dev) = fl_mem dev" by (auto simp: and_range_def fun_eq_iff)
    ultimately show ?thesis using True g less.prems(2)
      by (subst ota_write.simps) (simp add: n_def [symmetric] rest_def)
  next
    case False
    have fit: "unat addr + length (take n rest) \<le> fl_size dev" using less.prems(4) by (simp add: rest_def)
    obtain dev1 where d1: "flash_wr (unat addr) (take n rest) dev = Some dev1"
      "fl_mem dev1 = and_range (unat addr) (take n rest) (fl_mem dev)" "flash_ok dev1" "fl_size dev1 = fl_size dev"
      using fl.wr_good [OF less.prems(3) _ fit] False n by auto
    have w: "HAL_Flash_Write True addr (take n rest) dev = (HAL_OK, dev1)"
      using d1(1) by (auto simp: flash_wr_def split: prod.splits if_split_asm)
    show ?thesis
    proof (cases "length rest < n")
      case True
      then have t: "take n rest = rest" by simp
      have "length rest mod OTA_BUF_SIZE \<noteq> 0" using True n False by simp
      then show ?thesis using less.prems(2) g w d1 True t
        by (subst ota_write.simps) (simp add: n_def [symmetric] rest_def)
    next
      case False': False
      then have l: "length (take n rest) = n" by simp
      have "left \<noteq> n" using False' less.prems(2) by (auto simp: rest_def)
      then have nb: "n = OTA_BUF_SIZE" by (auto simp: n_def)
      have step: "ota_write ota_update_file_get left got addr f dev =
          ota_write ota_update_file_get (left - n) (got + of_nat n) (addr + of_nat n) f1 dev1"
        using less.prems(2) g w False' l by (subst ota_write.simps) (simp add: n_def [symmetric])
      have a: "unat (addr + of_nat n) = unat addr + n"
        using fit l sz by (intro addr_step) simp
      obtain dev' where dev': "ota_write ota_update_file_get (left - n) (got + of_nat n) (addr + of_nat n) f1 dev1 =
          Some (length (drop n rest) mod OTA_BUF_SIZE \<noteq> 0, left - n - length (drop n rest),
            got + of_nat n + of_nat (length (drop n rest)), dev')"
        "fl_mem dev' = and_range (unat addr + n) (drop n rest) (fl_mem dev1)" "fl_size dev' = fl_size dev1"
      proof -
        have "length (ff_rest f1) < left - n" using less.prems(2) False' by (simp add: f1_def rest_def diff_less_mono)
        moreover have "left - n < left" "ff_read_ok f1" using n less.prems(1,2) by (auto simp: f1_def)
        moreover have "unat (addr + of_nat n) + length (ff_rest f1) \<le> fl_size dev1"
          using a d1(4) less.prems(4) False' by (simp add: f1_def rest_def)
        ultimately show ?thesis
          using less.IH [of "left - n" f1 dev1 "addr + of_nat n" "got + of_nat n"] d1(3) a that by (auto simp: f1_def)
      qed
      have "length (drop n rest) mod OTA_BUF_SIZE = length rest mod OTA_BUF_SIZE"
        using nb False' by (simp add: mod_if [of "length rest"] le_mod_geq)
      moreover have "(of_nat n :: u32) + of_nat (length (drop n rest)) = of_nat (length rest)"
        using False' by (simp flip: of_nat_add)
      moreover have "fl_mem dev' = and_range (unat addr) rest (fl_mem dev)"
        using dev'(2) d1(2) and_range_append [of "unat addr" "take n rest" "drop n rest" "fl_mem dev"] l by simp
      ultimately show ?thesis using step dev'(1,3) d1(4) False' by (simp add: rest_def add.assoc)
    qed
  qed
qed

section \<open>A whole update from a file\<close>

text \<open>Erasing sets all bits of the range.\<close>

definition erased :: "nat \<Rightarrow> nat \<Rightarrow> flash_dev \<Rightarrow> flash_dev" where
  "erased a n dev = dev\<lparr>fl_mem := \<lambda>x. if a \<le> x \<and> x < a + n then -1 else fl_mem dev x\<rparr>"

definition erases :: "ota_rom \<Rightarrow> bool" where
  "erases rom = (\<forall>fl a n dev. rom_erase rom fl a n dev = Some (erased (unat a) n dev))"

text \<open>The flash of a device after the image was written to its area.\<close>

definition with_image :: "nat \<Rightarrow> nat \<Rightarrow> u8 list \<Rightarrow> (nat \<Rightarrow> u8) \<Rightarrow> nat \<Rightarrow> u8" where
  "with_image a n img m x =
     (if a \<le> x \<and> x < a + length img then img ! (x - a) else if a \<le> x \<and> x < a + n then -1 else m x)"

lemma and_erased:
  assumes "length img \<le> n"
  shows "and_range a img (fl_mem (erased a n dev)) = with_image a n img (fl_mem dev)"
  using assms by (auto simp: fun_eq_iff and_range_def erased_def with_image_def)

text \<open>The configuration of the device and the file: boot loader, then an image smaller than its area.\<close>

definition update_ok :: "ota_rom \<Rightarrow> u8 list \<Rightarrow> u8 list \<Rightarrow> ota_dev \<Rightarrow> bool" where
  "update_ok rom bl img d =
     (let i = rom_ota_param rom; seq = 1 - running_seq i; dev = flashes d (img_flash i ! seq)
      in running_seq i < 2 \<and> length bl = unat (bl_size i) \<and> bl \<noteq> [] \<and> length img < img_max_size i \<and> erases rom \<and>
         rom_flash_open rom (img_flash i ! seq) \<and> flash_ok dev \<and>
         unat (img_addr i ! seq) + img_max_size i \<le> fl_size dev)"

lemma file_update:
  assumes "update_ok rom bl img d" "i = rom_ota_param rom" "seq = 1 - running_seq i"
  shows "\<exists>dev'. let d' = d\<lparr>flashes := (flashes d)(img_flash i ! seq := dev')\<rparr> in
    fl_mem dev' = with_image (unat (img_addr i ! seq)) (img_max_size i) img (fl_mem (flashes d (img_flash i ! seq))) \<and>
    fl_size dev' = fl_size (flashes d (img_flash i ! seq)) \<and>
    ota_get_image_file rom True (Some \<lparr>ff_rest = bl @ img, ff_open_ok = True, ff_read_ok = True\<rparr>) p d =
      Some (if length img mod OTA_BUF_SIZE \<noteq> 0 \<and> rom_check_sections rom seq d' then OTA_STATUS_OK else OTA_STATUS_ERROR,
            \<lparr>iop = Some i, get_size = of_nat (length bl + length img)\<rparr>, d')"
proof -
  define fl a mx where "fl = img_flash i ! seq" and "a = img_addr i ! seq" and "mx = img_max_size i"
  define f where "f = \<lparr>ff_rest = bl @ img, ff_open_ok = True, ff_read_ok = True\<rparr>"
  define dev0 where "dev0 = erased (unat a) mx (flashes d fl)"
  have u: "running_seq i < 2" "length bl = unat (bl_size i)" "bl \<noteq> []" "length img < mx" "erases rom" "rom_flash_open rom fl"
    "flash_ok (flashes d fl)" "unat a + mx \<le> fl_size (flashes d fl)"
    using assms by (auto simp: update_ok_def Let_def fl_def a_def mx_def)
  have seq: "ota_get_update_seq (ota_init rom) = seq" "seq < IMAGE_SEQ_NUM"
  proof -
    have "bl_size i \<noteq> 0" using u(2,3) by auto
    moreover have "running_seq i = 0 \<or> running_seq i = 1" using u(1) by auto
    ultimately show "ota_get_update_seq (ota_init rom) = seq" "seq < IMAGE_SEQ_NUM"
      using u(4) assms(2,3)
      by (auto simp: ota_get_update_seq_def ota_init_def IMAGE_SEQ_NUM_def ota_update_seq_policy_def mx_def)
  qed
  have er: "rom_erase rom fl a mx (flashes d fl) = Some dev0" using u(5) by (simp add: erases_def dev0_def)
  define f1 where "f1 = f\<lparr>ff_rest := img\<rparr>"
  have sk: "ota_skip ota_update_file_get (unat (bl_size i)) 0 f = Some (True, of_nat (length bl), f1)"
    using file_skip [of f "unat (bl_size i)" 0] u(2) by (simp add: f_def f1_def)
  have ok0: "flash_ok dev0" using u(7) by (simp add: dev0_def erased_def flash_ok_def flash_good_def)
  have "length (ff_rest f1) < mx" "unat a + length (ff_rest f1) \<le> fl_size dev0"
    using u(4,8) by (simp_all add: f1_def dev0_def erased_def)
  then obtain dev' where w: "ota_write ota_update_file_get mx (of_nat (length bl)) a f1 dev0 =
      Some (length img mod OTA_BUF_SIZE \<noteq> 0, mx - length img, of_nat (length bl) + of_nat (length img), dev')"
    "fl_mem dev' = and_range (unat a) img (fl_mem dev0)" "fl_size dev' = fl_size dev0"
    using file_write [of f1 mx dev0 a "of_nat (length bl)"] ok0 by (auto simp: f1_def f_def)
  have m: "fl_mem dev' = with_image (unat a) mx img (fl_mem (flashes d fl))"
    using w(2) and_erased [of img mx "unat a" "flashes d fl"] u(4) by (simp add: dev0_def)
  have init: "ota_update_file_init f = Some f" by (simp add: ota_update_file_init_def f_def)
  have iopi: "iop (ota_init rom) = Some i" using assms(2) by (simp add: ota_init_def)
  have "ota_update_image_process rom True seq ota_update_file_init ota_update_file_get f i (ota_init rom) d =
      Some (ota_finish rom seq (length img mod OTA_BUF_SIZE \<noteq> 0) (mx - length img) (d\<lparr>flashes := (flashes d)(fl := dev')\<rparr>),
            (ota_init rom)\<lparr>get_size := of_nat (length bl) + of_nat (length img)\<rparr>, d\<lparr>flashes := (flashes d)(fl := dev')\<rparr>)"
    unfolding ota_update_image_process_def Let_def fl_def [symmetric] a_def [symmetric] mx_def [symmetric]
    by (simp add: er init sk u(6) w(1))
  then have "ota_get_image_file rom True (Some f) p d =
      Some (if length img mod OTA_BUF_SIZE \<noteq> 0 \<and> rom_check_sections rom seq (d\<lparr>flashes := (flashes d)(fl := dev')\<rparr>)
              then OTA_STATUS_OK else OTA_STATUS_ERROR,
            \<lparr>iop = Some i, get_size = of_nat (length bl + length img)\<rparr>, d\<lparr>flashes := (flashes d)(fl := dev')\<rparr>)"
    using seq u(4) iopi by (simp add: ota_get_image_file_def ota_update_image_def Let_def ota_finish_def ota_init_def)
  moreover have "fl_size dev' = fl_size (flashes d fl)" using w(3) by (simp add: dev0_def erased_def)
  ultimately show ?thesis using m by (auto simp: Let_def fl_def a_def mx_def f_def)
qed

section \<open>The digest of the whole image\<close>

text \<open>An engine that works and takes data in pieces of any length.\<close>

definition streaming :: "'h ota_ce \<Rightarrow> bool" where
  "streaming ce =
     (\<forall>h. ce_append ce h [] = Some h \<and>
       (\<forall>xs. \<exists>h1. ce_append ce h xs = Some h1 \<and> (\<forall>ys. ce_append ce h1 ys = ce_append ce h (xs @ ys))))"

definition flash_bytes :: "flash_dev \<Rightarrow> nat \<Rightarrow> nat \<Rightarrow> u8 list" where
  "flash_bytes dev a n = map (\<lambda>i. fl_mem dev (a + i)) [0..<n]"

lemma flash_bytes_add: "flash_bytes dev a (m + n) = flash_bytes dev a m @ flash_bytes dev (a + m) n"
  by (rule nth_equalityI) (auto simp: flash_bytes_def nth_append)

lemma append_loop_whole:
  assumes "streaming ce" "unat addr + n \<le> fl_size dev" "fl_size dev < 2 ^ 32" "n \<le> fuel"
  shows "append_loop fuel ce dev addr n h = (OTA_STATUS_OK, the (ce_append ce h (flash_bytes dev (unat addr) n)))"
  using assms
proof (induction fuel arbitrary: addr n h)
  case 0
  then show ?case by (simp add: flash_bytes_def streaming_def)
next
  case (Suc fuel)
  show ?case
  proof (cases "n = 0")
    case True
    then show ?thesis using Suc.prems(1) by (simp add: flash_bytes_def streaming_def)
  next
    case False
    define r where "r = min n OTA_BUF_SIZE"
    have r: "0 < r" "r \<le> n" using False by (auto simp: r_def OTA_BUF_SIZE_def)
    have rd: "HAL_Flash_Read True addr (of_nat r) dev = (HAL_OK, flash_bytes dev (unat addr) r)"
      using flash_read_good [of r addr dev] r Suc.prems by (simp add: flash_bytes_def)
    obtain h1 where h1: "ce_append ce h (flash_bytes dev (unat addr) r) = Some h1"
      "\<And>ys. ce_append ce h1 ys = ce_append ce h (flash_bytes dev (unat addr) r @ ys)"
      using Suc.prems(1) unfolding streaming_def by metis
    have a: "unat (addr + of_nat r) = unat addr + r" using Suc.prems r by (intro addr_step) simp
    have "append_loop (Suc fuel) ce dev addr n h = append_loop fuel ce dev (addr + of_nat r) (n - r) h1"
      using False rd h1(1) by (simp add: r_def [symmetric])
    also have "\<dots> = (OTA_STATUS_OK, the (ce_append ce h1 (flash_bytes dev (unat addr + r) (n - r))))"
      using Suc.IH [of "addr + of_nat r" "n - r" h1] Suc.prems r a by simp
    also have "ce_append ce h1 (flash_bytes dev (unat addr + r) (n - r)) = ce_append ce h (flash_bytes dev (unat addr) n)"
      using h1(2) flash_bytes_add [of dev "unat addr" r "n - r"] r by simp
    finally show ?thesis .
  qed
qed

lemma verify_cases:
  assumes "ota_verify_image rom mem ces v val p d = (st, d')"
  shows "(d' = d \<and> st = OTA_STATUS_ERROR) \<or>
    (st = OTA_STATUS_OK \<and> d' = d\<lparr>image_cfg := (ota_get_update_seq p, IMAGE_STATE_VERIFIED)\<rparr> \<and>
     ota_get_update_seq p < IMAGE_SEQ_NUM \<and> get_size p \<noteq> 0 \<and>
     (v = OTA_VERIFY_NONE \<or> (\<exists>w h h1 dg. val = Some w \<and> ce_init (ces v) (get_size p) = Some h \<and>
       ota_verify_image_append rom mem (ces v) (ota_get_update_seq p) p d h = (OTA_STATUS_OK, h1) \<and>
       ce_finish (ces v) h1 = Some dg \<and> take (digest_len v) w = take (digest_len v) dg)))"
proof -
  have dig: "\<exists>h h1 dg. ce_init ce (get_size p) = Some h \<and> ota_verify_image_append rom mem ce sq p d h = (OTA_STATUS_OK, h1) \<and>
      ce_finish ce h1 = Some dg \<and> take n w = take n dg"
    if "ota_verify_image_digest rom mem ce n w sq p d = OTA_STATUS_OK" for ce n w sq
    using that by (auto simp: ota_verify_image_digest_def split: option.splits prod.splits if_split_asm)
  show ?thesis
    using assms dig [of "ces v" "digest_len v" "the val" "ota_get_update_seq p"]
    by (cases "v = OTA_VERIFY_NONE"; cases val)
      (auto simp: ota_verify_image_def Let_def not_le split: if_split_asm)
qed

lemma policy_other:
  assumes "ota_get_update_seq p < IMAGE_SEQ_NUM"
  shows "ota_get_update_seq p \<noteq> running_seq (the (iop p)) \<and> running_seq (the (iop p)) < IMAGE_SEQ_NUM"
proof -
  obtain i where i: "iop p = Some i" "running_seq i < 2" "ota_get_update_seq p = [1, 0] ! running_seq i"
    using assms by (auto simp: ota_get_update_seq_def IMAGE_SEQ_NUM_def ota_update_seq_policy_def split: option.splits if_split_asm)
  have "running_seq i = 0 \<or> running_seq i = 1" using i(2) by auto
  then show ?thesis using i by (auto simp: IMAGE_SEQ_NUM_def)
qed

lemma verified_update:
  assumes "update_ok rom bl (body @ vd) d" "length vd = 44" "length (body @ vd) mod OTA_BUF_SIZE \<noteq> 0"
    "\<forall>d. rom_check_sections rom seq d" "rom_set_cfg rom (seq, IMAGE_STATE_VERIFIED)"
    "i = rom_ota_param rom" "seq = 1 - running_seq i" "v \<noteq> OTA_VERIFY_NONE" "streaming (ces v)"
    "ce_init (ces v) (of_nat (length (bl @ body @ vd))) = Some h"
    "ce_finish (ces v) (the (ce_append (ces v) h body)) = Some dg" "length (bl @ body @ vd) < 2 ^ 32"
  shows "\<exists>p' d'. ota_get_image_file rom True (Some \<lparr>ff_rest = bl @ body @ vd, ff_open_ok = True, ff_read_ok = True\<rparr>) p d =
      Some (OTA_STATUS_OK, p', d') \<and>
    ota_verify_image rom True ces v (Some val) p' d' =
      (if take (digest_len v) val = take (digest_len v) dg
       then (OTA_STATUS_OK, d'\<lparr>image_cfg := (seq, IMAGE_STATE_VERIFIED)\<rparr>) else (OTA_STATUS_ERROR, d'))"
proof -
  define fl a mx img where "fl = img_flash i ! seq" and "a = img_addr i ! seq" and "mx = img_max_size i" and "img = body @ vd"
  have u: "running_seq i < 2" "length bl = unat (bl_size i)" "bl \<noteq> []" "length img < mx" "rom_flash_open rom fl"
    "flash_ok (flashes d fl)" "unat a + mx \<le> fl_size (flashes d fl)"
    using assms(1,6,7) by (auto simp: update_ok_def Let_def fl_def a_def mx_def img_def)
  obtain dev' where f: "let d' = d\<lparr>flashes := (flashes d)(fl := dev')\<rparr> in
    fl_mem dev' = with_image (unat a) mx img (fl_mem (flashes d fl)) \<and> fl_size dev' = fl_size (flashes d fl) \<and>
    ota_get_image_file rom True (Some \<lparr>ff_rest = bl @ img, ff_open_ok = True, ff_read_ok = True\<rparr>) p d =
      Some (if length img mod OTA_BUF_SIZE \<noteq> 0 \<and> rom_check_sections rom seq d' then OTA_STATUS_OK else OTA_STATUS_ERROR,
            \<lparr>iop = Some i, get_size = of_nat (length bl + length img)\<rparr>, d')"
    using file_update [OF assms(1,6,7), of p] unfolding fl_def a_def mx_def img_def by blast
  define d' where "d' = d\<lparr>flashes := (flashes d)(fl := dev')\<rparr>"
  define p' where "p' = \<lparr>iop = Some i, get_size = of_nat (length bl + length img)\<rparr>"
  have got: "ota_get_image_file rom True (Some \<lparr>ff_rest = bl @ img, ff_open_ok = True, ff_read_ok = True\<rparr>) p d =
      Some (OTA_STATUS_OK, p', d')"
    using f assms(3,4) by (simp add: Let_def d'_def p'_def img_def)
  have mem: "fl_mem dev' = with_image (unat a) mx img (fl_mem (flashes d fl))" "fl_size dev' = fl_size (flashes d fl)"
    using f by (simp_all add: Let_def)
  have lb: "length body < mx" "length img = length body + 44" using u(4) assms(2) by (simp_all add: img_def)
  have body: "flash_bytes dev' (unat a) (length body) = body"
    using lb by (intro nth_equalityI) (auto simp: flash_bytes_def mem(1) with_image_def img_def nth_append)
  have sz: "fl_size dev' < 2 ^ 32" "unat a + length body \<le> fl_size dev'"
    using u(6,7) lb mem(2) by (simp_all add: flash_ok_def)
  have blw: "(of_nat (length bl) :: u32) = bl_size i" using u(2) by simp
  have "get_size p' - bl_size i - sizeof_ota_verify_data = of_nat (length body)"
    by (simp add: p'_def lb(2) sizeof_ota_verify_data_def flip: blw)
  moreover have "unat (of_nat (length body) :: u32) = length body"
    using sz by (intro unat_u32_of_nat) linarith
  ultimately have ln: "unat (get_size p' - bl_size i - sizeof_ota_verify_data) = length body" by simp
  have app: "ota_verify_image_append rom True (ces v) seq p' d' h = (OTA_STATUS_OK, the (ce_append (ces v) h body))"
    using append_loop_whole [OF assms(9) sz(2,1), of "length body" h] u(5) body ln
    by (simp add: ota_verify_image_append_def ota_verify_image_append_process_def Let_def p'_def d'_def
        fl_def [symmetric] a_def [symmetric])
  have gs: "get_size p' = of_nat (length (bl @ body @ vd))" by (simp add: p'_def img_def)
  have "unat (get_size p') = length (bl @ body @ vd)" unfolding gs by (rule unat_u32_of_nat [OF assms(12)])
  then have nz: "get_size p' \<noteq> 0" using u(3) by auto
  have "bl_size i \<noteq> 0" using u(2,3) by auto
  moreover have "running_seq i = 0 \<or> running_seq i = 1" using u(1) by auto
  ultimately have seq: "ota_get_update_seq p' = seq" "seq < IMAGE_SEQ_NUM"
    using u(4) assms(7) by (auto simp: ota_get_update_seq_def p'_def IMAGE_SEQ_NUM_def ota_update_seq_policy_def mx_def)
  have dg: "ota_verify_image_digest rom True (ces v) (digest_len v) val seq p' d' =
      (if take (digest_len v) val = take (digest_len v) dg then OTA_STATUS_OK else OTA_STATUS_ERROR)"
    using assms(10,11) app gs by (simp add: ota_verify_image_digest_def)
  have "ota_verify_image rom True ces v (Some val) p' d' =
      (if take (digest_len v) val = take (digest_len v) dg
       then (OTA_STATUS_OK, d'\<lparr>image_cfg := (seq, IMAGE_STATE_VERIFIED)\<rparr>) else (OTA_STATUS_ERROR, d'))"
    using seq nz assms(5,8) dg by (simp add: ota_verify_image_def Let_def)
  then show ?thesis using got by (auto simp: img_def)
qed

section \<open>Properties\<close>

text \<open>C28: An update from a file whose image is smaller than its area and no multiple of the buffer size: the area of
  the image that does not run holds the image and is erased behind it, everything else in the flash is unchanged,
  and the answer is that of the check of the sections.\<close>

theorem ota_file_update:
  assumes "update_ok rom bl img d" "i = rom_ota_param rom" "seq = 1 - running_seq i" "length img mod OTA_BUF_SIZE \<noteq> 0"
  shows "\<exists>dev'. let d' = d\<lparr>flashes := (flashes d)(img_flash i ! seq := dev')\<rparr> in
    fl_mem dev' = with_image (unat (img_addr i ! seq)) (img_max_size i) img (fl_mem (flashes d (img_flash i ! seq))) \<and>
    ota_get_image_file rom True (Some \<lparr>ff_rest = bl @ img, ff_open_ok = True, ff_read_ok = True\<rparr>) p d =
      Some (if rom_check_sections rom seq d' then OTA_STATUS_OK else OTA_STATUS_ERROR,
            \<lparr>iop = Some i, get_size = of_nat (length bl + length img)\<rparr>, d')"
  using file_update [OF assms(1-3), of p] assms(4) by (auto simp: Let_def)

definition some_param :: image_ota_param where
  "some_param = \<lparr>img_max_size = 4096, bl_size = 1, running_seq = 0, img_flash = [0, 0], img_addr = [0, 8192]\<rparr>"

definition some_rom :: ota_rom where
  "some_rom = \<lparr>rom_erase = (\<lambda>fl a n dev. Some (erased (unat a) n dev)), rom_flash_open = \<lambda>fl. True,
     rom_check_header = \<lambda>sh. True, rom_check_sections = \<lambda>seq d. True, rom_set_cfg = \<lambda>c. True, rom_ota_param = some_param\<rparr>"

definition some_dev :: ota_dev where
  "some_dev = \<lparr>flashes = \<lambda>fl. erased_flash, image_cfg = (0, IMAGE_STATE_VERIFIED)\<rparr>"

lemma some_update: "length img < 4096 \<Longrightarrow> update_ok some_rom [9] img some_dev"
  by (simp add: update_ok_def some_rom_def some_param_def some_dev_def erases_def flash_ok_def flash_good_def erased_flash_def)

lemma some_seq: "1 - running_seq (rom_ota_param some_rom) = 1"
  by (simp add: some_rom_def some_param_def)

theorem ota_file_update_witness:
  "\<exists>p' d'. ota_get_image_file some_rom True (Some \<lparr>ff_rest = [9] @ [5, 6, 7], ff_open_ok = True, ff_read_ok = True\<rparr>)
     ota_deinit some_dev = Some (OTA_STATUS_OK, p', d')"
proof -
  have "length [5, 6, 7 :: u8] mod OTA_BUF_SIZE \<noteq> 0" by (simp add: OTA_BUF_SIZE_def)
  from ota_file_update [OF some_update refl refl this, of ota_deinit] show ?thesis
    by (auto simp: Let_def some_rom_def)
qed

text \<open>When the image is a multiple of the buffer size the update always fails, although the whole image is in the
  flash: the end of the file comes with an empty piece, which the flash driver refuses to write.\<close>

lemma ota_full_buffer_fails:
  assumes "update_ok rom bl img d" "i = rom_ota_param rom" "seq = 1 - running_seq i" "length img mod OTA_BUF_SIZE = 0"
  shows "\<exists>p' dev'. ota_get_image_file rom True (Some \<lparr>ff_rest = bl @ img, ff_open_ok = True, ff_read_ok = True\<rparr>) p d =
      Some (OTA_STATUS_ERROR, p', d\<lparr>flashes := (flashes d)(img_flash i ! seq := dev')\<rparr>) \<and>
    fl_mem dev' = with_image (unat (img_addr i ! seq)) (img_max_size i) img (fl_mem (flashes d (img_flash i ! seq)))"
  using file_update [OF assms(1-3), of p] assms(4) by (auto simp: Let_def)

lemma ota_full_buffer_fails_witness:
  "\<exists>p' d'. ota_get_image_file some_rom True (Some \<lparr>ff_rest = [9] @ replicate 2048 5, ff_open_ok = True, ff_read_ok = True\<rparr>)
     ota_deinit some_dev = Some (OTA_STATUS_ERROR, p', d')"
proof -
  have "length (replicate 2048 (5 :: u8)) mod OTA_BUF_SIZE = 0" "length (replicate 2048 (5 :: u8)) < 4096"
    by (simp_all add: OTA_BUF_SIZE_def)
  from ota_full_buffer_fails [OF some_update [OF this(2)] refl refl this(1), of ota_deinit] show ?thesis by blast
qed


text \<open>An engine for examples: the sum of the bytes.\<close>

definition sum_ce :: "u8 ota_ce" where
  "sum_ce = \<lparr>ce_init = \<lambda>n. Some 0, ce_append = \<lambda>h bs. Some (h + sum_list bs), ce_finish = \<lambda>h. Some [h, 0, 0, 0]\<rparr>"

lemma sum_streaming: "streaming sum_ce"
  by (simp add: streaming_def sum_ce_def add.assoc)


text \<open>The stored configuration changes only to the image that does not run, as verified, after an image was
  received, and, unless no verification is asked for, only when the digest of the flash agrees with the one given.\<close>

lemma ota_verify_safe:
  assumes "ota_verify_image rom mem ces v val p d = (st, d')" "d' \<noteq> d"
  shows "st = OTA_STATUS_OK \<and> image_cfg d' = (ota_get_update_seq p, IMAGE_STATE_VERIFIED) \<and> flashes d' = flashes d \<and>
    ota_get_update_seq p \<noteq> running_seq (the (iop p)) \<and> get_size p \<noteq> 0 \<and>
    (v = OTA_VERIFY_NONE \<or> (\<exists>w h h1 dg. val = Some w \<and> ce_init (ces v) (get_size p) = Some h \<and>
       ota_verify_image_append rom mem (ces v) (ota_get_update_seq p) p d h = (OTA_STATUS_OK, h1) \<and>
       ce_finish (ces v) h1 = Some dg \<and> take (digest_len v) w = take (digest_len v) dg))"
  using verify_cases [OF assms(1)] policy_other [of p] assms(2) by auto

lemma ota_verify_safe_witness:
  "\<exists>st d'. ota_verify_image some_rom True (\<lambda>v. sum_ce) OTA_VERIFY_NONE None \<lparr>iop = Some some_param, get_size = 1\<rparr> some_dev = (st, d') \<and>
    image_cfg d' = (1, IMAGE_STATE_VERIFIED)"
proof -
  define p where "p = \<lparr>iop = Some some_param, get_size = 1\<rparr>"
  define d' where "d' = some_dev\<lparr>image_cfg := (1, IMAGE_STATE_VERIFIED)\<rparr>"
  have s: "ota_get_update_seq p = 1"
    by (simp add: p_def ota_get_update_seq_def some_param_def IMAGE_SEQ_NUM_def ota_update_seq_policy_def)
  have v: "ota_verify_image some_rom True (\<lambda>v. sum_ce) OTA_VERIFY_NONE None p some_dev = (OTA_STATUS_OK, d')"
    using s by (simp add: ota_verify_image_def IMAGE_SEQ_NUM_def some_rom_def d'_def) (simp add: p_def)
  have "d' \<noteq> some_dev"
  proof
    assume "d' = some_dev"
    then have "image_cfg d' = image_cfg some_dev" by simp
    then show False by (simp add: d'_def some_dev_def)
  qed
  from ota_verify_safe [OF v this] show ?thesis using v s by (simp add: p_def)
qed

end
