(* ===== verification/Boot.thy ===== *)
theory Boot
  imports Ota
begin

text \<open>
  The boot loader, project/bootloader/main.c: it chooses an image by the stored configuration, loads its application
  section into the memory below itself, as it is or through the XZ decoder, falls back to the other image when
  that fails, and jumps to the entry. The image library of the ROM is the record \<open>bl_rom\<close> beside \<open>ota_rom\<close>, the XZ
  decoder the record \<open>xz_lib\<close>. The loop of the decompression is partial: \<open>None\<close> is not to return.
\<close>

section \<open>State\<close>

datatype image_seg = IMAGE_SEG_HEADER | IMAGE_SEG_BODY | IMAGE_SEG_TAILER

datatype xz_ret = XZ_OK | XZ_STREAM_END | XZ_UNSUPPORTED_CHECK | XZ_MEM_ERROR | XZ_MEMLIMIT_ERROR | XZ_FORMAT_ERROR
  | XZ_OPTIONS_ERROR | XZ_DATA_ERROR | XZ_BUF_ERROR

text \<open>\<open>xz_dec_run s ins space\<close>: the result, how many bytes of \<open>ins\<close> were taken, the bytes put out, the new state.\<close>

record 'x xz_lib =
  xz_dec_init :: "'x option"
  xz_dec_run :: "'x \<Rightarrow> u8 list \<Rightarrow> nat \<Rightarrow> xz_ret \<times> nat \<times> u8 list \<times> 'x"

text \<open>\<open>image_read\<close> is given the device and the running image; \<open>bl_mem_ok\<close>: the input buffer could be allocated;
  \<open>RAM_BASE\<close>: where the memory of the boot loader begins.\<close>

record bl_rom =
  image_init_ok :: bool
  ota_addr :: u32
  image_get_cfg :: "ota_dev \<Rightarrow> (nat \<times> image_state) option"
  image_read :: "ota_dev \<Rightarrow> nat \<Rightarrow> u32 \<Rightarrow> image_seg \<Rightarrow> u32 \<Rightarrow> u32 \<Rightarrow> u8 list"
  image_check_data :: "u8 list \<Rightarrow> u8 list \<Rightarrow> bool"
  image_get_checksum :: "u8 list \<Rightarrow> u16"
  bl_mem_ok :: bool
  RAM_BASE :: u32

record bl_state =
  bl_ram :: "u32 \<Rightarrow> u8"
  bl_dev :: ota_dev
  bl_seq :: nat

record section_header =
  sh_magic_number :: u32
  sh_version :: u32
  sh_header_chksum :: u16
  sh_data_chksum :: u16
  sh_data_size :: u32
  sh_load_addr :: u32
  sh_entry :: u32
  sh_body_len :: u32
  sh_attribute :: u32
  sh_next_addr :: u32
  sh_id :: u32
  sh_priv :: "u32 list"

definition header_of :: "u8 list \<Rightarrow> section_header" where
  "header_of bs =
     \<lparr>sh_magic_number = header_word bs 0, sh_version = header_word bs 4,
      sh_header_chksum = ucast (header_word bs 8), sh_data_chksum = ucast (drop_bit 16 (header_word bs 8)),
      sh_data_size = header_word bs 12, sh_load_addr = header_word bs 16, sh_entry = header_word bs 20,
      sh_body_len = header_word bs 24, sh_attribute = header_word bs 28, sh_next_addr = header_word bs 32,
      sh_id = header_word bs 36, sh_priv = map (header_word bs) [40, 44, 48, 52, 56, 60]\<rparr>"

definition IMAGE_ATTR_FLAG_COMPRESS :: u32 where "IMAGE_ATTR_FLAG_COMPRESS = push_bit 4 1"
definition IMAGE_APP_ID :: u32 where "IMAGE_APP_ID = 0xA5FE5A01"
definition BL_INVALID_APP_ENTRY :: u32 where "BL_INVALID_APP_ENTRY = 0xFFFFFFFF"
definition BL_DEC_BIN_INBUF_SIZE :: u32 where "BL_DEC_BIN_INBUF_SIZE = 4 * 1024"

text \<open>A store of bytes from an address on; addresses wrap as on the machine.\<close>

definition ram_store :: "u32 \<Rightarrow> u8 list \<Rightarrow> (u32 \<Rightarrow> u8) \<Rightarrow> u32 \<Rightarrow> u8" where
  "ram_store a bs m = (\<lambda>x. if unat (x - a) < length bs then bs ! unat (x - a) else m x)"

definition ram_bytes :: "u32 \<Rightarrow> nat \<Rightarrow> (u32 \<Rightarrow> u8) \<Rightarrow> u8 list" where
  "ram_bytes a n m = map (\<lambda>k. m (a + of_nat k)) [0..<n]"

section \<open>Decompression\<close>

text \<open>The input of the next round: what is left in the buffer, or the next piece of the body.\<close>

definition fill_input ::
  "bl_rom \<Rightarrow> (u32 \<Rightarrow> u32 \<Rightarrow> u8 list) \<Rightarrow> u8 list \<Rightarrow> u32 \<Rightarrow> u32 \<Rightarrow> u16 \<Rightarrow> (u8 list \<times> u32 \<times> u32 \<times> u16) option" where
  "fill_input b rd rest offset left chksum =
     (if rest \<noteq> [] then Some (rest, offset, left, chksum)
      else if left = 0 then None
      else (let read_size = if left > BL_DEC_BIN_INBUF_SIZE then BL_DEC_BIN_INBUF_SIZE else left;
                bs = rd offset read_size
            in if length bs \<noteq> unat read_size then None
               else Some (bs, offset + read_size, left - read_size, chksum + image_get_checksum b bs)))"

partial_function (option) dec_loop ::
  "bl_rom \<Rightarrow> 'x xz_lib \<Rightarrow> (u32 \<Rightarrow> u32 \<Rightarrow> u8 list) \<Rightarrow> u32 \<Rightarrow> u32 \<Rightarrow> 'x \<Rightarrow> u8 list \<Rightarrow> u32 \<Rightarrow> u32 \<Rightarrow> u16 \<Rightarrow> u32 \<Rightarrow>
     (u32 \<Rightarrow> u8) \<Rightarrow> (bool \<times> (u32 \<Rightarrow> u8)) option" where
  "dec_loop b xz rd out out_size s rest offset left chksum out_pos m =
     (case fill_input b rd rest offset left chksum of
        None \<Rightarrow> Some (False, m)
      | Some (ins, offset1, left1, chksum1) \<Rightarrow>
          (case xz_dec_run xz s ins (unat (out_size - out_pos)) of
             (xzret, n, bs, s1) \<Rightarrow>
               if out_pos + of_nat (length bs) = out_size then Some (False, ram_store (out + out_pos) bs m)
               else if xzret = XZ_OK
               then dec_loop b xz rd out out_size s1 (drop n ins) offset1 left1 chksum1 (out_pos + of_nat (length bs))
                      (ram_store (out + out_pos) bs m)
               else Some (xzret = XZ_STREAM_END \<and> chksum1 = 0xFFFF, ram_store (out + out_pos) bs m)))"

definition bl_decompress_bin ::
  "bl_rom \<Rightarrow> 'x xz_lib \<Rightarrow> section_header \<Rightarrow> u32 \<Rightarrow> bl_state \<Rightarrow> (bool \<times> bl_state) option" where
  "bl_decompress_bin b xz sh max_size st =
     (if \<not> bl_mem_ok b then Some (False, st)
      else (case xz_dec_init xz of
              None \<Rightarrow> Some (False, st)
            | Some s \<Rightarrow>
                map_option (\<lambda>(ok, m). (ok, st\<lparr>bl_ram := m\<rparr>))
                  (dec_loop b xz (image_read b (bl_dev st) (bl_seq st) (sh_id sh) IMAGE_SEG_BODY) (sh_load_addr sh)
                     max_size s [] 0 (sh_body_len sh) (sh_data_chksum sh) 0 (bl_ram st))))"

section \<open>Loading\<close>

datatype bl_load = BL_LOAD_BIN_OK u32 | BL_LOAD_BIN_NO_SEC | BL_LOAD_BIN_INVALID | BL_LOAD_BIN_TOOBIG

text \<open>A body that is stored as it is.\<close>

definition load_plain :: "bl_rom \<Rightarrow> u8 list \<Rightarrow> u32 \<Rightarrow> u32 \<Rightarrow> bl_state \<Rightarrow> bl_load \<times> bl_state" where
  "load_plain b hdr sid max_addr st =
     (let sh = header_of hdr
      in if sh_body_len sh = 0 then (BL_LOAD_BIN_NO_SEC, st)
         else if sh_load_addr sh + sh_body_len sh > max_addr then (BL_LOAD_BIN_TOOBIG, st)
         else (let body = image_read b (bl_dev st) (bl_seq st) sid IMAGE_SEG_BODY 0 (sh_body_len sh);
                   st1 = st\<lparr>bl_ram := ram_store (sh_load_addr sh) body (bl_ram st)\<rparr>
               in if length body \<noteq> unat (sh_body_len sh) then (BL_LOAD_BIN_INVALID, st1)
                  else if \<not> image_check_data b hdr (ram_bytes (sh_load_addr sh) (unat (sh_body_len sh)) (bl_ram st1))
                  then (BL_LOAD_BIN_INVALID, st1)
                  else (BL_LOAD_BIN_OK (sh_entry sh), st1)))"

definition bl_load_bin_by_id ::
  "ota_rom \<Rightarrow> bl_rom \<Rightarrow> 'x xz_lib \<Rightarrow> u32 \<Rightarrow> u32 \<Rightarrow> bl_state \<Rightarrow> (bl_load \<times> bl_state) option" where
  "bl_load_bin_by_id rom b xz sid max_addr st =
     (let hdr = image_read b (bl_dev st) (bl_seq st) sid IMAGE_SEG_HEADER 0 IMAGE_HEADER_SIZE; sh = header_of hdr
      in if length hdr \<noteq> unat IMAGE_HEADER_SIZE then Some (BL_LOAD_BIN_NO_SEC, st)
         else if \<not> rom_check_header rom hdr then Some (BL_LOAD_BIN_INVALID, st)
         else if and (sh_attribute sh) IMAGE_ATTR_FLAG_COMPRESS \<noteq> 0
         then map_option (\<lambda>(ok, st1). (if ok then BL_LOAD_BIN_OK (sh_entry sh) else BL_LOAD_BIN_INVALID, st1))
                (bl_decompress_bin b xz sh (max_addr - sh_load_addr sh) st)
         else Some (load_plain b hdr sid max_addr st))"

definition bl_load_app_bin :: "ota_rom \<Rightarrow> bl_rom \<Rightarrow> 'x xz_lib \<Rightarrow> bl_state \<Rightarrow> (u32 \<times> bl_state) option" where
  "bl_load_app_bin rom b xz st =
     map_option (\<lambda>(r, st1). (case r of BL_LOAD_BIN_OK e \<Rightarrow> e | _ \<Rightarrow> BL_INVALID_APP_ENTRY, st1))
       (bl_load_bin_by_id rom b xz IMAGE_APP_ID (RAM_BASE b) st)"

text \<open>The configuration is written only for an image it does not name; the result of the writing is only logged.\<close>

definition settle_cfg :: "ota_rom \<Rightarrow> nat \<Rightarrow> nat \<Rightarrow> bl_state \<Rightarrow> bl_state" where
  "settle_cfg rom load_seq cfg_seq st =
     (if load_seq \<noteq> cfg_seq \<and> rom_set_cfg rom (load_seq, IMAGE_STATE_VERIFIED)
      then st\<lparr>bl_dev := (bl_dev st)\<lparr>image_cfg := (load_seq, IMAGE_STATE_VERIFIED)\<rparr>\<rparr> else st)"

text \<open>The loop over the images; the first argument counts the rounds that are left.\<close>

fun load_images ::
  "nat \<Rightarrow> ota_rom \<Rightarrow> bl_rom \<Rightarrow> 'x xz_lib \<Rightarrow> nat \<Rightarrow> nat \<Rightarrow> bl_state \<Rightarrow> (u32 \<times> bl_state) option" where
  "load_images 0 rom b xz load_seq cfg_seq st = Some (BL_INVALID_APP_ENTRY, st)"
| "load_images (Suc i) rom b xz load_seq cfg_seq st =
     (case bl_load_app_bin rom b xz (st\<lparr>bl_seq := load_seq\<rparr>) of
        None \<Rightarrow> None
      | Some (entry, st1) \<Rightarrow>
          if entry \<noteq> BL_INVALID_APP_ENTRY then Some (entry, settle_cfg rom load_seq cfg_seq st1)
          else load_images i rom b xz ((load_seq + 1) mod IMAGE_SEQ_NUM) cfg_seq st1)"

definition cfg_seq_of :: "(nat \<times> image_state) option \<Rightarrow> nat" where
  "cfg_seq_of cfg = (case cfg of Some (seq, IMAGE_STATE_VERIFIED) \<Rightarrow> seq | _ \<Rightarrow> IMAGE_SEQ_NUM)"

definition bl_load_bin :: "ota_rom \<Rightarrow> bl_rom \<Rightarrow> 'x xz_lib \<Rightarrow> bl_state \<Rightarrow> (u32 \<times> bl_state) option" where
  "bl_load_bin rom b xz st =
     (if \<not> image_init_ok b then Some (BL_INVALID_APP_ENTRY, st)
      else if ota_addr b = IMAGE_INVALID_ADDR then bl_load_app_bin rom b xz (st\<lparr>bl_seq := 0\<rparr>)
      else (let cfg_seq = cfg_seq_of (image_get_cfg b (bl_dev st))
            in load_images IMAGE_SEQ_NUM rom b xz (if cfg_seq = IMAGE_SEQ_NUM then 0 else cfg_seq) cfg_seq st))"

section \<open>The main program\<close>

datatype boot_flag = PRCM_CPUA_BOOT_FROM_COLD_RESET | PRCM_CPUA_BOOT_FROM_DEEPSLEEP | PRCM_CPUA_BOOT_FROM_SYS_UPDATE

text \<open>How it ends: by a jump, by a restart with the flag for the upgrade mode, or by the abort loop.\<close>

datatype boot_end = Jump u32 | Upgrade boot_flag | Abort

definition bl_upgrade :: boot_end where "bl_upgrade = Upgrade PRCM_CPUA_BOOT_FROM_SYS_UPDATE"

definition boot_main :: "ota_rom \<Rightarrow> bl_rom \<Rightarrow> 'x xz_lib \<Rightarrow> boot_flag \<Rightarrow> bl_state \<Rightarrow> (boot_end \<times> bl_state) option" where
  "boot_main rom b xz flag st =
     (if flag = PRCM_CPUA_BOOT_FROM_COLD_RESET
      then map_option (\<lambda>(entry, st1). (if entry = BL_INVALID_APP_ENTRY then bl_upgrade else Jump (or entry 1), st1))
             (bl_load_bin rom b xz st)
      else Some (Abort, st))"

section \<open>The decompression ends and stays in its space\<close>

text \<open>What xz.h documents: no more input is taken and no more put out than there is room for, and not two calls in a
  row go on without any progress.\<close>

definition xz_moves :: "'x xz_lib \<Rightarrow> ('x \<Rightarrow> bool) \<Rightarrow> bool" where
  "xz_moves xz stalled \<longleftrightarrow>
     (\<forall>s ins space xzret n bs s1. xz_dec_run xz s ins space = (xzret, n, bs, s1) \<longrightarrow>
        n \<le> length ins \<and> length bs \<le> space \<and> (xzret = XZ_OK \<and> n = 0 \<and> bs = [] \<longrightarrow> \<not> stalled s \<and> stalled s1))"

definition xz_live :: "'x xz_lib \<Rightarrow> bool" where
  "xz_live xz \<longleftrightarrow> (\<exists>stalled. xz_moves xz stalled)"

lemma ram_store_inside:
  assumes "length bs \<le> unat (n - pos)" "unat pos \<le> unat n" "\<not> unat (x - a) < unat n"
  shows "ram_store (a + pos) bs m x = m x"
proof -
  have n: "unat (n - pos) = unat n - unat pos" using assms(2) by (simp add: unat_sub word_le_nat_alt)
  have le: "pos \<le> x - a" using assms(2,3) by (simp add: word_le_nat_alt)
  have "unat (x - (a + pos)) = unat (x - a - pos)" by (simp only: diff_diff_add)
  also have "unat (x - a - pos) = unat (x - a) - unat pos" by (rule unat_sub [OF le])
  finally have "unat (x - (a + pos)) = unat (x - a) - unat pos" .
  then have "\<not> unat (x - (a + pos)) < length bs" using assms n by linarith
  then show ?thesis by (simp add: ram_store_def)
qed

lemma fill_input_cases:
  assumes "fill_input b rd rest offset left chksum = Some (ins, offset1, left1, chksum1)"
  shows "ins \<noteq> [] \<and> unat left1 + length ins = unat left + length rest"
proof (cases "rest = []")
  case True
  define r where "r = (if left > BL_DEC_BIN_INBUF_SIZE then BL_DEC_BIN_INBUF_SIZE else left)"
  have f: "left \<noteq> 0" "ins = rd offset r" "length ins = unat r" "left1 = left - r"
    using assms True by (auto simp: fill_input_def Let_def r_def split: if_split_asm)
  have "r \<le> left" "r \<noteq> 0" using f(1) by (auto simp: r_def BL_DEC_BIN_INBUF_SIZE_def)
  then have "unat left1 + unat r = unat left" "unat r \<noteq> 0"
    using f(4) unat_sub [of r left] by (auto simp: word_le_nat_alt unat_eq_0)
  then show ?thesis using f(3) True by auto
next
  case False
  then show ?thesis using assms by (auto simp: fill_input_def)
qed

lemma space_left:
  assumes "length bs \<le> unat (n - pos)" "unat pos \<le> unat (n :: u32)"
  shows "unat (n - (pos + of_nat (length bs))) = unat (n - pos) - length bs \<and> unat (pos + of_nat (length bs)) \<le> unat n"
proof -
  have n: "unat (n - pos) = unat n - unat pos" using assms(2) by (simp add: unat_sub word_le_nat_alt)
  have l: "length bs < 2 ^ 32" using assms(1) unat_u32 [of "n - pos"] by simp
  have lb: "unat (of_nat (length bs) :: u32) = length bs" by (rule unat_u32_of_nat [OF l])
  have "unat pos + length bs < 2 ^ 32" using assms n unat_u32 [of n] by simp
  then have p: "unat (pos + of_nat (length bs)) = unat pos + length bs"
    using lb by (simp add: unat_add_lem [THEN iffD1])
  then show ?thesis using assms n by (simp add: unat_sub word_le_nat_alt)
qed

lemma dec_measure:
  assumes "n \<le> (i :: nat)" "k \<le> sp" "l1 + i = l + r" "n = 0 \<and> k = 0 \<longrightarrow> \<not> P \<and> Q"
  shows "2 * (l1 + (i - n) + (sp - k)) + (if Q then 0 else 1) < 2 * (l + r + sp) + (if P then 0 else 1)"
  using assms by (cases P; cases Q; simp; arith)

text \<open>The loop ends, its verdict does not depend on the memory, and it stores only in its space.\<close>

lemma dec_loop_ends:
  assumes "xz_moves xz stalled" "unat out_pos \<le> unat out_size"
  shows "\<exists>ok. \<forall>m. \<exists>m'. dec_loop b xz rd out out_size s rest offset left chksum out_pos m = Some (ok, m') \<and>
    (\<forall>x. \<not> unat (x - out) < unat out_size \<longrightarrow> m' x = m x)"
  using assms(2)
proof (induction "2 * (unat left + length rest + unat (out_size - out_pos)) + (if stalled s then 0 else 1)"
    arbitrary: s rest offset left chksum out_pos rule: less_induct)
  case less
  show ?case
  proof (cases "fill_input b rd rest offset left chksum")
    case None
    then show ?thesis by (auto simp: dec_loop.simps)
  next
    case (Some f)
    obtain ins offset1 left1 chksum1 where f: "f = (ins, offset1, left1, chksum1)" by (cases f)
    obtain xzret n bs s1 where r: "xz_dec_run xz s ins (unat (out_size - out_pos)) = (xzret, n, bs, s1)"
      by (cases "xz_dec_run xz s ins (unat (out_size - out_pos))")
    have b: "n \<le> length ins" "length bs \<le> unat (out_size - out_pos)"
      "xzret = XZ_OK \<and> n = 0 \<and> bs = [] \<longrightarrow> \<not> stalled s \<and> stalled s1"
      using assms(1) r by (auto simp: xz_moves_def)
    have fc: "unat left1 + length ins = unat left + length rest"
      using fill_input_cases Some f by blast
    note sp = space_left [OF b(2) less.prems]
    note frame = ram_store_inside [OF b(2) less.prems]
    define pos1 where "pos1 = out_pos + of_nat (length bs)"
    note unf = dec_loop.simps [of b xz rd out out_size s rest offset left chksum out_pos]
    show ?thesis
    proof (cases "xzret = XZ_OK \<and> pos1 \<noteq> out_size")
      case True
      have "2 * (unat left1 + length (drop n ins) + unat (out_size - pos1)) + (if stalled s1 then 0 else 1)
          < 2 * (unat left + length rest + unat (out_size - out_pos)) + (if stalled s then 0 else 1)"
        using dec_measure [OF b(1,2) fc, of "stalled s" "stalled s1"] b(3) sp True by (simp add: pos1_def)
      from less.hyps [OF this, of offset1 chksum1] obtain ok where
        "\<forall>m. \<exists>m'. dec_loop b xz rd out out_size s1 (drop n ins) offset1 left1 chksum1 pos1 m = Some (ok, m') \<and>
          (\<forall>x. \<not> unat (x - out) < unat out_size \<longrightarrow> m' x = m x)"
        using sp by (auto simp: pos1_def)
      then have "\<forall>m. \<exists>m'. dec_loop b xz rd out out_size s rest offset left chksum out_pos m = Some (ok, m') \<and>
          (\<forall>x. \<not> unat (x - out) < unat out_size \<longrightarrow> m' x = m x)"
        using True Some f r frame by (simp add: unf pos1_def [symmetric]) metis
      then show ?thesis by blast
    next
      case False
      then show ?thesis using Some f r frame by (auto simp: unf pos1_def [symmetric])
    qed
  qed
qed

section \<open>What decompression stores\<close>

text \<open>A decoder of streams: \<open>D s ins out\<close> says that from the state \<open>s\<close> the input \<open>ins\<close> decodes to \<open>out\<close>. It may take and
  put out any part of them in a call, and says that the stream ends with its last byte.\<close>

definition xz_decodes :: "'x xz_lib \<Rightarrow> ('x \<Rightarrow> u8 list \<Rightarrow> u8 list \<Rightarrow> bool) \<Rightarrow> bool" where
  "xz_decodes xz D \<longleftrightarrow>
     (\<forall>s ins later out space xzret n bs s1. D s (ins @ later) out \<and> ins \<noteq> [] \<and> 0 < space \<and> xz_dec_run xz s ins space = (xzret, n, bs, s1) \<longrightarrow>
        xzret = XZ_STREAM_END \<and> bs = out \<and> n = length ins \<and> later = [] \<or>
        xzret = XZ_OK \<and> drop n ins @ later \<noteq> [] \<and> (\<exists>out1. out = bs @ out1 \<and> D s1 (drop n ins @ later) out1))"

definition sums_up :: "(u8 list \<Rightarrow> u16) \<Rightarrow> bool" where
  "sums_up cks \<longleftrightarrow> (\<forall>xs ys. even (length xs) \<longrightarrow> cks (xs @ ys) = cks xs + cks ys)"

lemma sums_up_Nil: "sums_up cks \<Longrightarrow> cks [] = 0"
  unfolding sums_up_def by (metis add_cancel_right_right append_Nil even_zero list.size(3))

lemma ram_store_append:
  assumes "length xs + length ys < 2 ^ 32"
  shows "ram_store (a + of_nat (length xs)) ys (ram_store a xs m) = ram_store a (xs @ ys) m"
proof
  fix x
  have l: "unat (of_nat (length xs) :: u32) = length xs" using assms by (intro unat_u32_of_nat) simp
  define y where "y = x - a"
  have y: "x - (a + of_nat (length xs)) = y - of_nat (length xs)" by (simp add: y_def)
  show "ram_store (a + of_nat (length xs)) ys (ram_store a xs m) x = ram_store a (xs @ ys) m x"
  proof (cases "unat y < length xs")
    case True
    then have "unat (y - of_nat (length xs)) = 2 ^ 32 + unat y - length xs"
      using l by (simp add: unat_sub_if')
    then have "\<not> unat (y - of_nat (length xs)) < length ys" using assms by linarith
    then show ?thesis using True by (simp add: ram_store_def y y_def [symmetric] nth_append)
  next
    case False
    then have "unat (y - of_nat (length xs)) = unat y - length xs" using l by (simp add: unat_sub_if')
    then show ?thesis using False by (auto simp: ram_store_def y y_def [symmetric] nth_append)
  qed
qed

text \<open>One refill keeps the input that is left together, and the check sum of what was read.\<close>

lemma fill_input_reads:
  assumes "\<forall>off n. unat off + unat n \<le> length body \<longrightarrow> rd off n = take (unat n) (drop (unat off) body)"
    "sums_up (image_get_checksum b)" "unat off + unat left = length body" "unat off mod 2 = 0 \<or> left = 0" "length body < 2 ^ 32"
    "rest @ drop (unat off) body \<noteq> []"
  shows "\<exists>ins off1 left1 ck1. fill_input b rd rest off left ck = Some (ins, off1, left1, ck1) \<and> ins \<noteq> [] \<and>
    ins @ drop (unat off1) body = rest @ drop (unat off) body \<and> unat off1 + unat left1 = length body \<and>
    (unat off1 mod 2 = 0 \<or> left1 = 0) \<and>
    ck1 + image_get_checksum b (drop (unat off1) body) = ck + image_get_checksum b (drop (unat off) body)"
proof (cases "rest = []")
  case False
  then show ?thesis using assms by (auto simp: fill_input_def)
next
  case True
  define n where "n = (if left > BL_DEC_BIN_INBUF_SIZE then BL_DEC_BIN_INBUF_SIZE else left)"
  have left: "left \<noteq> 0" using assms(3,6) True by auto
  have n: "n \<le> left" "n \<noteq> 0" "unat n mod 2 = 0 \<or> n = left"
    using left by (auto simp: n_def BL_DEC_BIN_INBUF_SIZE_def)
  have un: "unat n \<le> unat left" "unat (left - n) = unat left - unat n" "0 < unat n"
    using n unat_sub [of n left] by (auto simp: word_le_nat_alt unat_gt_0)
  have uo: "unat (off + n) = unat off + unat n" using un(1) assms(3,5) by (simp add: unat_word_ariths)
  define xs where "xs = take (unat n) (drop (unat off) body)"
  have xs: "rd off n = xs" "length xs = unat n" using assms(1,3) un(1) by (simp_all add: xs_def)
  have split: "xs @ drop (unat (off + n)) body = drop (unat off) body"
  proof -
    have "drop (unat (off + n)) body = drop (unat n) (drop (unat off) body)" unfolding uo drop_drop by (simp only: add.commute)
    then show ?thesis by (simp add: xs_def del: drop_drop)
  qed
  have ck: "image_get_checksum b xs + image_get_checksum b (drop (unat (off + n)) body) = image_get_checksum b (drop (unat off) body)"
  proof (cases "even (length xs)")
    case True
    then show ?thesis using assms(2) split unfolding sums_up_def by metis
  next
    case False
    then have "n = left" using n(3) xs(2) by auto
    then have "drop (unat (off + n)) body = []" using uo assms(3) by simp
    then show ?thesis using split sums_up_Nil [OF assms(2)] by simp
  qed
  have f: "fill_input b rd rest off left ck = Some (xs, off + n, left - n, ck + image_get_checksum b xs)"
    using True left xs by (simp add: fill_input_def Let_def n_def [symmetric])
  have "unat (off + n) mod 2 = 0 \<or> left - n = 0"
    using n(3) assms(4) left uo by (auto simp: mod_add_eq [symmetric] dvd_eq_mod_eq_0 [symmetric])
  then show ?thesis using f xs un uo split ck True assms(3) by (auto simp: add.assoc)
qed

lemma dec_loop_decodes:
  assumes "xz_moves xz stalled" "xz_decodes xz D" "sums_up (image_get_checksum b)" "length body < 2 ^ 32"
    "\<forall>off n. unat off + unat n \<le> length body \<longrightarrow> rd off n = take (unat n) (drop (unat off) body)"
    "D s (rest @ drop (unat off) body) o2" "rest @ drop (unat off) body \<noteq> []" "unat off + unat left = length body"
    "unat off mod 2 = 0 \<or> left = 0" "unat pos < unat out_size"
  shows "\<exists>m'. dec_loop b xz rd out out_size s rest off left ck pos m = Some
      (unat pos + length o2 < unat out_size \<and> ck + image_get_checksum b (drop (unat off) body) = 0xFFFF, m') \<and>
    (unat pos + length o2 < unat out_size \<longrightarrow> m' = ram_store (out + pos) o2 m)"
  using assms(6-)
proof (induction "2 * (unat left + length rest + unat (out_size - pos)) + (if stalled s then 0 else 1)"
    arbitrary: s rest off left ck pos o2 m rule: less_induct)
  case less
  obtain ins off1 left1 ck1 where f: "fill_input b rd rest off left ck = Some (ins, off1, left1, ck1)" "ins \<noteq> []"
      "ins @ drop (unat off1) body = rest @ drop (unat off) body" "unat off1 + unat left1 = length body"
      "unat off1 mod 2 = 0 \<or> left1 = 0"
      "ck1 + image_get_checksum b (drop (unat off1) body) = ck + image_get_checksum b (drop (unat off) body)"
    using fill_input_reads [OF assms(5,3) less.prems(3,4) assms(4) less.prems(2), of ck] by (elim exE conjE) rule
  have fc: "unat left1 + length ins = unat left + length rest" using fill_input_cases f(1) by blast
  obtain xzret n bs s1 where r: "xz_dec_run xz s ins (unat (out_size - pos)) = (xzret, n, bs, s1)"
    by (cases "xz_dec_run xz s ins (unat (out_size - pos))")
  have b: "n \<le> length ins" "length bs \<le> unat (out_size - pos)" "xzret = XZ_OK \<and> n = 0 \<and> bs = [] \<longrightarrow> \<not> stalled s \<and> stalled s1"
    using assms(1) r by (auto simp: xz_moves_def)
  have us: "unat (out_size - pos) = unat out_size - unat pos" using less.prems(5) by (simp add: unat_sub word_le_nat_alt)
  define pos1 where "pos1 = pos + of_nat (length bs)"
  note sp = space_left [OF b(2), folded pos1_def]
  have p1: "unat pos1 = unat pos + length bs"
    using b(2) us unat_u32 [of out_size] less.prems(5) by (simp add: pos1_def unat_word_ariths unat_of_nat)
  have eq: "pos1 = out_size \<longleftrightarrow> unat pos + length bs = unat out_size" using p1 by (simp add: word_unat_eq_iff)
  note unf = dec_loop.simps [of b xz rd out out_size s rest off left ck pos]
  have "0 < unat (out_size - pos)" using us less.prems(5) by simp
  then consider (e) "xzret = XZ_STREAM_END" "bs = o2" "n = length ins" "drop (unat off1) body = []"
    | (go) o3 where "xzret = XZ_OK" "drop n ins @ drop (unat off1) body \<noteq> []" "o2 = bs @ o3" "D s1 (drop n ins @ drop (unat off1) body) o3"
    using assms(2) less.prems(1) f(2,3) r unfolding xz_decodes_def by metis
  then show ?case
  proof cases
    case e
    then have "ck1 = ck + image_get_checksum b (drop (unat off) body)" using f(6) sums_up_Nil [OF assms(3)] by simp
    moreover have "unat pos + length o2 < unat out_size \<longleftrightarrow> pos1 \<noteq> out_size"
      using eq e(2) b(2) us less.prems(5) by (cases "pos1 = out_size") auto
    ultimately show ?thesis using f(1) r e(1,2)
      by (cases "pos1 = out_size") (simp_all add: unf pos1_def)
  next
    case (go o3)
    show ?thesis
    proof (cases "pos1 = out_size")
      case True
      then show ?thesis using f(1) r go(1,3) eq by (auto simp: unf pos1_def [symmetric])
    next
      case False
      then have lt: "unat pos1 < unat out_size" using sp less.prems(5) eq p1 by linarith
      have "2 * (unat left1 + length (drop n ins) + unat (out_size - pos1)) + (if stalled s1 then 0 else 1)
          < 2 * (unat left + length rest + unat (out_size - pos)) + (if stalled s then 0 else 1)"
        using dec_measure [OF b(1,2) fc, of "stalled s" "stalled s1"] b(3) sp less.prems(5) go(1) by simp
      from less.hyps [OF this go(4,2) f(4,5) lt, of ck1 "ram_store (out + pos) bs m"] obtain m' where m':
        "dec_loop b xz rd out out_size s1 (drop n ins) off1 left1 ck1 pos1 (ram_store (out + pos) bs m) = Some
          (unat pos1 + length o3 < unat out_size \<and> ck1 + image_get_checksum b (drop (unat off1) body) = 0xFFFF, m')"
        "unat pos1 + length o3 < unat out_size \<longrightarrow> m' = ram_store (out + pos1) o3 (ram_store (out + pos) bs m)"
        by blast
      have st: "ram_store (out + pos1) o3 (ram_store (out + pos) bs m) = ram_store (out + pos) o2 m"
        if "unat pos1 + length o3 < unat out_size"
        using ram_store_append [of bs o3 "out + pos" m] that p1 unat_u32 [of out_size] go(3)
        by (simp add: pos1_def add.assoc)
      show ?thesis
        using m' st f(1,6) r False go(1,3) p1 by (intro exI [of _ m']) (simp add: unf pos1_def [symmetric] add.assoc)
    qed
  qed
qed

section \<open>Loading ends\<close>

text \<open>A header whose load address lies below the boot loader and, if the body is not compressed, whose end does
  not wrap around.\<close>

definition loads_below :: "u32 \<Rightarrow> section_header \<Rightarrow> bool" where
  "loads_below max_addr sh \<longleftrightarrow>
     (if and (sh_attribute sh) IMAGE_ATTR_FLAG_COMPRESS \<noteq> 0 then sh_load_addr sh \<le> max_addr
      else unat (sh_load_addr sh) + unat (sh_body_len sh) < 2 ^ 32)"

definition reads_at_most :: "bl_rom \<Rightarrow> bool" where
  "reads_at_most b \<longleftrightarrow> (\<forall>d seq sid seg off n. length (image_read b d seq sid seg off n) \<le> unat n)"

definition header_at :: "bl_rom \<Rightarrow> ota_dev \<Rightarrow> nat \<Rightarrow> u32 \<Rightarrow> section_header" where
  "header_at b d seq sid = header_of (image_read b d seq sid IMAGE_SEG_HEADER 0 IMAGE_HEADER_SIZE)"

lemma ram_bytes_store:
  assumes "length bs = unat (n :: u32)"
  shows "ram_bytes a (unat n) (ram_store a bs m) = bs"
proof (rule nth_equalityI)
  fix k assume k: "k < length (ram_bytes a (unat n) (ram_store a bs m))"
  then have "k < unat n" by (simp add: ram_bytes_def)
  then have "unat (of_nat k :: u32) = k" using unat_u32 [of n] by (intro unat_u32_of_nat) simp
  then show "ram_bytes a (unat n) (ram_store a bs m) ! k = bs ! k"
    using k assms by (simp add: ram_bytes_def ram_store_def)
qed (simp add: ram_bytes_def assms)

lemma unat_diff_less:
  assumes "(a :: u32) \<le> n" "n \<le> x"
  shows "\<not> unat (x - a) < unat (n - a)"
  using assms by (simp add: unat_sub word_le_nat_alt)

lemma load_plain_ends:
  "\<exists>r. \<forall>m. \<exists>m'. load_plain b hdr sid max_addr (st\<lparr>bl_ram := m\<rparr>) = (r, st\<lparr>bl_ram := m'\<rparr>) \<and>
     (reads_at_most b \<and> unat (sh_load_addr (header_of hdr)) + unat (sh_body_len (header_of hdr)) < 2 ^ 32 \<longrightarrow>
       (\<forall>x\<ge>max_addr. m' x = m x))"
proof -
  define a n where "a = sh_load_addr (header_of hdr)" and "n = sh_body_len (header_of hdr)"
  define body where "body = image_read b (bl_dev st) (bl_seq st) sid IMAGE_SEG_BODY 0 n"
  have frame: "ram_store a body m x = m x"
    if "reads_at_most b" "unat a + unat n < 2 ^ 32" "a + n \<le> max_addr" "max_addr \<le> x" for m x
  proof -
    have "unat (a + n) = unat a + unat n" using that(2) by (simp add: unat_word_ariths)
    then have x: "unat a + unat n \<le> unat x" using that(3,4) by (simp add: word_le_nat_alt)
    then have "unat (x - a) = unat x - unat a" by (intro unat_sub) (simp add: word_le_nat_alt)
    moreover have "length body \<le> unat n" using that(1) by (simp add: body_def reads_at_most_def)
    ultimately have "\<not> unat (x - a) < length body" using x by linarith
    then show ?thesis by (simp add: ram_store_def)
  qed
  note d = load_plain_def Let_def a_def [symmetric] n_def [symmetric]
  show ?thesis
  proof (cases "n = 0 \<or> \<not> a + n \<le> max_addr")
    case True
    then show ?thesis by (cases "n = 0") (auto simp: d not_le)
  next
    case False
    define r where "r = (if length body = unat n \<and> image_check_data b hdr body
      then BL_LOAD_BIN_OK (sh_entry (header_of hdr)) else BL_LOAD_BIN_INVALID)"
    have "load_plain b hdr sid max_addr (st\<lparr>bl_ram := m\<rparr>) = (r, st\<lparr>bl_ram := ram_store a body m\<rparr>)" for m
      using False ram_bytes_store [of body n a m] by (auto simp: d not_le r_def body_def [symmetric])
    moreover have "\<forall>x\<ge>max_addr. ram_store a body m x = m x" if "reads_at_most b \<and> unat a + unat n < 2 ^ 32" for m
      using frame that False by blast
    ultimately show ?thesis unfolding a_def n_def by blast
  qed
qed

lemma load_ends:
  assumes "xz_live xz"
  shows "\<exists>r. \<forall>m. \<exists>m'. bl_load_bin_by_id rom b xz sid max_addr (st\<lparr>bl_ram := m\<rparr>) = Some (r, st\<lparr>bl_ram := m'\<rparr>) \<and>
    (reads_at_most b \<and> loads_below max_addr (header_at b (bl_dev st) (bl_seq st) sid) \<longrightarrow> (\<forall>x\<ge>max_addr. m' x = m x))"
proof -
  obtain stalled where mv: "xz_moves xz stalled" using assms by (auto simp: xz_live_def)
  define hdr where "hdr = image_read b (bl_dev st) (bl_seq st) sid IMAGE_SEG_HEADER 0 IMAGE_HEADER_SIZE"
  define sh where "sh = header_of hdr"
  note d = bl_load_bin_by_id_def Let_def hdr_def [symmetric] sh_def [symmetric]
  have hat: "header_at b (bl_dev st) (bl_seq st) sid = sh" by (simp add: header_at_def sh_def hdr_def)
  consider (hdr) "length hdr \<noteq> unat IMAGE_HEADER_SIZE" | (check) "length hdr = unat IMAGE_HEADER_SIZE" "\<not> rom_check_header rom hdr"
    | (xz) "length hdr = unat IMAGE_HEADER_SIZE" "rom_check_header rom hdr" "and (sh_attribute sh) IMAGE_ATTR_FLAG_COMPRESS \<noteq> 0"
    | (plain) "length hdr = unat IMAGE_HEADER_SIZE" "rom_check_header rom hdr" "and (sh_attribute sh) IMAGE_ATTR_FLAG_COMPRESS = 0"
    by blast
  then show ?thesis
  proof cases
    case xz
    show ?thesis
    proof (cases "bl_mem_ok b \<and> xz_dec_init xz \<noteq> None")
      case True
      then obtain s where s: "xz_dec_init xz = Some s" by auto
      obtain ok F where F: "dec_loop b xz (image_read b (bl_dev st) (bl_seq st) (sh_id sh) IMAGE_SEG_BODY)
          (sh_load_addr sh) (max_addr - sh_load_addr sh) s [] 0 (sh_body_len sh) (sh_data_chksum sh) 0 m = Some (ok, F m)"
          "\<not> unat (x - sh_load_addr sh) < unat (max_addr - sh_load_addr sh) \<Longrightarrow> F m x = m x" for m x
        using dec_loop_ends [OF mv, of 0 "max_addr - sh_load_addr sh" b "image_read b (bl_dev st) (bl_seq st) (sh_id sh) IMAGE_SEG_BODY"
            "sh_load_addr sh" s "[]" 0 "sh_body_len sh" "sh_data_chksum sh"] by (auto dest!: choice)
      have "bl_load_bin_by_id rom b xz sid max_addr (st\<lparr>bl_ram := m\<rparr>) =
          Some (if ok then BL_LOAD_BIN_OK (sh_entry sh) else BL_LOAD_BIN_INVALID, st\<lparr>bl_ram := F m\<rparr>)" for m
        using xz True s F(1) [of m] by (simp add: d bl_decompress_bin_def)
      moreover have "loads_below max_addr sh \<longleftrightarrow> sh_load_addr sh \<le> max_addr" using xz(3) by (simp add: loads_below_def)
      ultimately show ?thesis using unat_diff_less F(2) unfolding hat by blast
    next
      case False
      have "bl_load_bin_by_id rom b xz sid max_addr (st\<lparr>bl_ram := m\<rparr>) = Some (BL_LOAD_BIN_INVALID, st\<lparr>bl_ram := m\<rparr>)" for m
        using xz False by (auto simp: d bl_decompress_bin_def)
      then show ?thesis by auto
    qed
  next
    case plain
    then have "bl_load_bin_by_id rom b xz sid max_addr (st\<lparr>bl_ram := m\<rparr>) = Some (load_plain b hdr sid max_addr (st\<lparr>bl_ram := m\<rparr>))" for m
      by (simp add: d)
    moreover have "loads_below max_addr sh \<longleftrightarrow> unat (sh_load_addr sh) + unat (sh_body_len sh) < 2 ^ 32"
      using plain(3) by (simp add: loads_below_def)
    ultimately show ?thesis
      using load_plain_ends [of b hdr sid max_addr st] by (simp only: hat option.inject sh_def)
  qed (auto simp: d)
qed

text \<open>The entry of an image: it depends on the device and the number of the image only.\<close>

definition app_entry :: "ota_rom \<Rightarrow> bl_rom \<Rightarrow> 'x xz_lib \<Rightarrow> ota_dev \<Rightarrow> nat \<Rightarrow> u32" where
  "app_entry rom b xz d seq = fst (the (bl_load_app_bin rom b xz \<lparr>bl_ram = \<lambda>x. 0, bl_dev = d, bl_seq = seq\<rparr>))"

lemma app_loads:
  assumes "xz_live xz"
  shows "\<exists>m'. bl_load_app_bin rom b xz st = Some (app_entry rom b xz (bl_dev st) (bl_seq st), st\<lparr>bl_ram := m'\<rparr>) \<and>
    (reads_at_most b \<and> loads_below (RAM_BASE b) (header_at b (bl_dev st) (bl_seq st) IMAGE_APP_ID) \<longrightarrow>
      (\<forall>x\<ge>RAM_BASE b. m' x = bl_ram st x))"
proof -
  obtain r where r: "\<And>m. \<exists>m'. bl_load_bin_by_id rom b xz IMAGE_APP_ID (RAM_BASE b) (st\<lparr>bl_ram := m\<rparr>) =
      Some (r, st\<lparr>bl_ram := m'\<rparr>) \<and>
    (reads_at_most b \<and> loads_below (RAM_BASE b) (header_at b (bl_dev st) (bl_seq st) IMAGE_APP_ID) \<longrightarrow>
      (\<forall>x\<ge>RAM_BASE b. m' x = m x))"
    using load_ends [OF assms, of rom b IMAGE_APP_ID "RAM_BASE b" st] by blast
  have "st\<lparr>bl_ram := \<lambda>x. 0\<rparr> = \<lparr>bl_ram = \<lambda>x. 0, bl_dev = bl_dev st, bl_seq = bl_seq st\<rparr>" "st\<lparr>bl_ram := bl_ram st\<rparr> = st"
    by simp_all
  with r [of "\<lambda>x. 0"] r [of "bl_ram st"] show ?thesis by (auto simp: bl_load_app_bin_def app_entry_def)
qed

section \<open>Which image is booted\<close>

text \<open>The order in which the images are tried, and the first of them that loads.\<close>

definition boot_order :: "(nat \<times> image_state) option \<Rightarrow> nat list" where
  "boot_order cfg = (let s = (if cfg_seq_of cfg = IMAGE_SEQ_NUM then 0 else cfg_seq_of cfg) in [s, (s + 1) mod IMAGE_SEQ_NUM])"

definition boot_choice :: "ota_rom \<Rightarrow> bl_rom \<Rightarrow> 'x xz_lib \<Rightarrow> ota_dev \<Rightarrow> nat option" where
  "boot_choice rom b xz d = find (\<lambda>seq. app_entry rom b xz d seq \<noteq> BL_INVALID_APP_ENTRY) (boot_order (image_get_cfg b d))"

lemma settle_cfg_simps [simp]:
  "bl_ram (settle_cfg rom l c st) = bl_ram st" "bl_seq (settle_cfg rom l c st) = bl_seq st"
  "flashes (bl_dev (settle_cfg rom l c st)) = flashes (bl_dev st)"
  by (simp_all add: settle_cfg_def)

abbreviation ram_kept :: "bl_rom \<Rightarrow> ota_dev \<Rightarrow> nat list \<Rightarrow> (u32 \<Rightarrow> u8) \<Rightarrow> (u32 \<Rightarrow> u8) \<Rightarrow> bool" where
  "ram_kept b d seqs m m' \<equiv>
     reads_at_most b \<and> (\<forall>seq\<in>set seqs. loads_below (RAM_BASE b) (header_at b d seq IMAGE_APP_ID)) \<longrightarrow> (\<forall>x\<ge>RAM_BASE b. m' x = m x)"

lemma app_loads_at:
  fixes st :: bl_state
  assumes "xz_live xz"
  shows "\<exists>m'. bl_load_app_bin rom b xz (st\<lparr>bl_ram := m, bl_seq := seq\<rparr>) =
      Some (app_entry rom b xz (bl_dev st) seq, st\<lparr>bl_ram := m', bl_seq := seq\<rparr>) \<and> ram_kept b (bl_dev st) [seq] m m'"
proof -
  obtain m' where "bl_load_app_bin rom b xz (st\<lparr>bl_ram := m, bl_seq := seq\<rparr>) =
      Some (app_entry rom b xz (bl_dev st) seq, st\<lparr>bl_ram := m, bl_seq := seq\<rparr>\<lparr>bl_ram := m'\<rparr>)"
    "ram_kept b (bl_dev st) [seq] m m'"
    using app_loads [OF assms, of rom b "st\<lparr>bl_ram := m, bl_seq := seq\<rparr>"]
    by (simp del: bl_state.update_convs) (elim exE conjE, blast)
  moreover have "st\<lparr>bl_ram := m, bl_seq := seq\<rparr>\<lparr>bl_ram := m'\<rparr> = st\<lparr>bl_ram := m', bl_seq := seq\<rparr>" for m' by simp
  ultimately show ?thesis by (intro exI conjI) simp_all
qed

lemma load_bin_chooses:
  assumes "xz_live xz" "image_init_ok b" "ota_addr b \<noteq> IMAGE_INVALID_ADDR" "cfg = image_get_cfg b (bl_dev st)"
  shows "\<exists>m'. bl_load_bin rom b xz st =
      Some (case boot_choice rom b xz (bl_dev st) of
              Some seq \<Rightarrow> (app_entry rom b xz (bl_dev st) seq, settle_cfg rom seq (cfg_seq_of cfg) (st\<lparr>bl_ram := m', bl_seq := seq\<rparr>))
            | None \<Rightarrow> (BL_INVALID_APP_ENTRY, st\<lparr>bl_ram := m', bl_seq := last (boot_order cfg)\<rparr>)) \<and>
    ram_kept b (bl_dev st) (boot_order cfg) (bl_ram st) m'"
proof -
  define d s1 s2 where "d = bl_dev st" and "s1 = (if cfg_seq_of cfg = IMAGE_SEQ_NUM then 0 else cfg_seq_of cfg)"
    and "s2 = (s1 + 1) mod IMAGE_SEQ_NUM"
  have order: "boot_order cfg = [s1, s2]" by (simp add: boot_order_def Let_def s1_def s2_def)
  have ram_same: "st\<lparr>bl_ram := bl_ram st, bl_seq := s1\<rparr> = st\<lparr>bl_seq := s1\<rparr>" by simp
  obtain m1 where m1: "bl_load_app_bin rom b xz (st\<lparr>bl_seq := s1\<rparr>) = Some (app_entry rom b xz d s1, st\<lparr>bl_ram := m1, bl_seq := s1\<rparr>)"
      "ram_kept b d [s1] (bl_ram st) m1"
    using app_loads_at [where rom = rom and b = b and st = st and m = "bl_ram st" and seq = s1, OF assms(1)] unfolding d_def ram_same by blast
  obtain m2 where m2: "bl_load_app_bin rom b xz (st\<lparr>bl_ram := m1, bl_seq := s2\<rparr>) =
        Some (app_entry rom b xz d s2, st\<lparr>bl_ram := m2, bl_seq := s2\<rparr>)" "ram_kept b d [s2] m1 m2"
    using app_loads_at [where rom = rom and b = b and st = st and m = m1 and seq = s2, OF assms(1)] unfolding d_def by blast
  have run: "bl_load_bin rom b xz st =
      (if app_entry rom b xz d s1 \<noteq> BL_INVALID_APP_ENTRY
       then Some (app_entry rom b xz d s1, settle_cfg rom s1 (cfg_seq_of cfg) (st\<lparr>bl_ram := m1, bl_seq := s1\<rparr>))
       else if app_entry rom b xz d s2 \<noteq> BL_INVALID_APP_ENTRY
       then Some (app_entry rom b xz d s2, settle_cfg rom s2 (cfg_seq_of cfg) (st\<lparr>bl_ram := m2, bl_seq := s2\<rparr>))
       else Some (BL_INVALID_APP_ENTRY, st\<lparr>bl_ram := m2, bl_seq := s2\<rparr>))"
  proof -
    have two: "IMAGE_SEQ_NUM = Suc (Suc 0)" by (simp add: IMAGE_SEQ_NUM_def)
    have "bl_load_bin rom b xz st = load_images IMAGE_SEQ_NUM rom b xz s1 (cfg_seq_of cfg) st"
      using assms(2,3) by (simp add: bl_load_bin_def Let_def assms(4) s1_def)
    also have "\<dots> = load_images (Suc (Suc 0)) rom b xz s1 (cfg_seq_of cfg) st" by (simp only: two)
    finally show ?thesis using m1(1) m2(1) by (simp add: s2_def)
  qed
  show ?thesis
  proof (cases "app_entry rom b xz d s1 \<noteq> BL_INVALID_APP_ENTRY")
    case True
    then show ?thesis using run m1(2) order
      by (intro exI [of _ m1]) (simp add: boot_choice_def assms(4) d_def)
  next
    case False
    then show ?thesis using run m1(2) m2(2) order
      by (intro exI [of _ m2]) (simp add: boot_choice_def assms(4) d_def)
  qed
qed

section \<open>After an update\<close>

text \<open>What the image library documents: an image is read from its own area only, and the configuration read is the
  one stored.\<close>

definition same_area :: "image_ota_param \<Rightarrow> nat \<Rightarrow> ota_dev \<Rightarrow> ota_dev \<Rightarrow> bool" where
  "same_area i seq d d' \<longleftrightarrow>
     (\<forall>x. unat (img_addr i ! seq) \<le> x \<and> x < unat (img_addr i ! seq) + img_max_size i \<longrightarrow>
       fl_mem (flashes d' (img_flash i ! seq)) x = fl_mem (flashes d (img_flash i ! seq)) x)"

definition image_lib_ok :: "ota_rom \<Rightarrow> bl_rom \<Rightarrow> bool" where
  "image_lib_ok rom b \<longleftrightarrow>
     (\<forall>d d' seq. seq < IMAGE_SEQ_NUM \<and> same_area (rom_ota_param rom) seq d d' \<longrightarrow> image_read b d' seq = image_read b d seq) \<and>
     (\<forall>d. image_get_cfg b d = Some (image_cfg d)) \<and> (\<forall>c. rom_set_cfg rom c) \<and>
     image_init_ok b \<and> ota_addr b \<noteq> IMAGE_INVALID_ADDR \<and> erases_inside rom"

text \<open>The two areas do not overlap and end below 4 GB.\<close>

definition areas_apart :: "image_ota_param \<Rightarrow> bool" where
  "areas_apart i \<longleftrightarrow>
     running_seq i < IMAGE_SEQ_NUM \<and> (\<forall>seq<IMAGE_SEQ_NUM. unat (img_addr i ! seq) + img_max_size i < 2 ^ 32) \<and>
     (img_flash i ! 0 \<noteq> img_flash i ! 1 \<or> unat (img_addr i ! 0) + img_max_size i \<le> unat (img_addr i ! 1) \<or>
      unat (img_addr i ! 1) + img_max_size i \<le> unat (img_addr i ! 0))"

lemma app_entry_same:
  assumes "image_read b d' seq = image_read b d seq" "xz_live xz"
  shows "app_entry rom b xz d' seq = app_entry rom b xz d seq"
proof -
  have by_id: "map_option fst (bl_load_bin_by_id rom b xz sid mx \<lparr>bl_ram = m, bl_dev = d', bl_seq = seq\<rparr>) =
      map_option fst (bl_load_bin_by_id rom b xz sid mx \<lparr>bl_ram = m, bl_dev = d, bl_seq = seq\<rparr>)" for sid mx m
    using assms(1)
    by (simp add: bl_load_bin_by_id_def bl_decompress_bin_def load_plain_def Let_def option.map_comp comp_def split_beta
        split: option.split)
  have fst_the: "fst (the (map_option (\<lambda>(r, y). (f r, y)) o1)) = fst (the (map_option (\<lambda>(r, y). (f r, y)) o2))"
    if "map_option fst o1 = map_option fst o2" "o1 \<noteq> None" for f :: "bl_load \<Rightarrow> u32" and o1 o2 :: "(bl_load \<times> bl_state) option"
    using that by (cases o1; cases o2) (auto simp: split_beta)
  have "bl_load_bin_by_id rom b xz sid mx \<lparr>bl_ram = m, bl_dev = d', bl_seq = seq\<rparr> \<noteq> None" for sid mx m
    using load_ends [OF assms(2), of rom b sid mx "\<lparr>bl_ram = m, bl_dev = d', bl_seq = seq\<rparr>"]
    by (auto dest: spec [of _ m])
  then show ?thesis unfolding app_entry_def bl_load_app_bin_def by (intro fst_the by_id)
qed

lemma boot_main_chooses:
  assumes "xz_live xz" "image_init_ok b" "ota_addr b \<noteq> IMAGE_INVALID_ADDR" "d = bl_dev st" "cfg = image_get_cfg b d"
  shows "\<exists>m' seq'. boot_main rom b xz PRCM_CPUA_BOOT_FROM_COLD_RESET st =
      Some (case boot_choice rom b xz d of
              Some seq \<Rightarrow> (Jump (or (app_entry rom b xz d seq) 1), settle_cfg rom seq (cfg_seq_of cfg) (st\<lparr>bl_ram := m', bl_seq := seq\<rparr>))
            | None \<Rightarrow> (bl_upgrade, st\<lparr>bl_ram := m', bl_seq := seq'\<rparr>)) \<and>
    ram_kept b d (boot_order cfg) (bl_ram st) m'"
proof -
  have "app_entry rom b xz d seq \<noteq> BL_INVALID_APP_ENTRY" if "boot_choice rom b xz d = Some seq" for seq
    using that by (auto simp: boot_choice_def find_Some_iff)
  moreover obtain m' where "bl_load_bin rom b xz st =
      Some (case boot_choice rom b xz d of
              Some seq \<Rightarrow> (app_entry rom b xz d seq, settle_cfg rom seq (cfg_seq_of cfg) (st\<lparr>bl_ram := m', bl_seq := seq\<rparr>))
            | None \<Rightarrow> (BL_INVALID_APP_ENTRY, st\<lparr>bl_ram := m', bl_seq := last (boot_order cfg)\<rparr>))"
      "ram_kept b d (boot_order cfg) (bl_ram st) m'"
    using load_bin_chooses [OF assms(1-3), of cfg st rom] assms(4,5) by blast
  ultimately show ?thesis
    by (intro exI [of _ m'] exI [of _ "last (boot_order cfg)"]) (cases "boot_choice rom b xz d"; simp add: boot_main_def)
qed

text \<open>With a verified configuration the image it names is tried first, then the other.\<close>

lemma boot_choice_verified:
  assumes "image_get_cfg b d = Some (r, IMAGE_STATE_VERIFIED)" "r < IMAGE_SEQ_NUM"
  shows "boot_choice rom b xz d =
    (if app_entry rom b xz d r \<noteq> BL_INVALID_APP_ENTRY then Some r
     else if app_entry rom b xz d (1 - r) \<noteq> BL_INVALID_APP_ENTRY then Some (1 - r) else None)"
proof -
  have "r = 0 \<or> r = 1" using assms(2) by (auto simp: IMAGE_SEQ_NUM_def)
  then show ?thesis
    using assms(1) by (auto simp: boot_choice_def boot_order_def cfg_seq_of_def IMAGE_SEQ_NUM_def)
qed

lemma boot_verified:
  assumes "xz_live xz" "image_lib_ok rom b" "image_cfg d = (r, IMAGE_STATE_VERIFIED)" "r < IMAGE_SEQ_NUM"
    "app_entry rom b xz d r \<noteq> BL_INVALID_APP_ENTRY \<or> app_entry rom b xz d (1 - r) \<noteq> BL_INVALID_APP_ENTRY"
    "s = (if app_entry rom b xz d r \<noteq> BL_INVALID_APP_ENTRY then r else 1 - r)"
  shows "\<exists>m'. boot_main rom b xz PRCM_CPUA_BOOT_FROM_COLD_RESET \<lparr>bl_ram = m, bl_dev = d, bl_seq = q\<rparr> =
    Some (Jump (or (app_entry rom b xz d s) 1), \<lparr>bl_ram = m', bl_dev = d\<lparr>image_cfg := (s, IMAGE_STATE_VERIFIED)\<rparr>, bl_seq = s\<rparr>)"
proof -
  have lib: "image_init_ok b" "ota_addr b \<noteq> IMAGE_INVALID_ADDR" "image_get_cfg b d = Some (r, IMAGE_STATE_VERIFIED)"
    "\<forall>c. rom_set_cfg rom c"
    using assms(2,3) by (simp_all add: image_lib_ok_def)
  have same: "d\<lparr>image_cfg := (r, IMAGE_STATE_VERIFIED)\<rparr> = d" using assms(3) by (cases d) simp
  have c: "boot_choice rom b xz d = Some s" using boot_choice_verified [where rom = rom and xz = xz, OF lib(3) assms(4)] assms(5,6) by auto
  have cs: "cfg_seq_of (image_get_cfg b d) = r" using lib(3) by (simp add: cfg_seq_of_def)
  show ?thesis
    using boot_main_chooses [where rom = rom and st = "\<lparr>bl_ram = m, bl_dev = d, bl_seq = q\<rparr>", OF assms(1) lib(1,2) refl refl]
      c cs same lib(4)
    by (cases "s = r") (auto simp: settle_cfg_def)
qed

text \<open>An update leaves the running image as it is.\<close>

lemma update_keeps_running:
  assumes "ota_update_image rom mem init_cb get_cb url (ota_init rom) d = Some (st, p', d')" "i = rom_ota_param rom"
    "areas_apart i" "gives_at_most get_cb" "erases_inside rom"
  shows "same_area i (running_seq i) d d' \<and> image_cfg d' = image_cfg d \<and> iop p' = Some i"
proof (cases "ota_get_update_seq (ota_init rom) < IMAGE_SEQ_NUM")
  case False
  then have "d' = d \<and> p' = ota_init rom" using assms(1) by (simp add: ota_update_image_def)
  then show ?thesis using assms(2) by (simp add: same_area_def ota_init_def)
next
  case True
  define r where "r = running_seq i"
  have r: "r = 0 \<or> r = 1" using assms(3) by (auto simp: r_def areas_apart_def IMAGE_SEQ_NUM_def)
  have seq: "ota_get_update_seq (ota_init rom) = 1 - r"
    using True r assms(2)
    by (auto simp: ota_get_update_seq_def ota_init_def IMAGE_SEQ_NUM_def ota_update_seq_policy_def r_def split: if_split_asm)
  have lim: "unat (img_addr i ! (1 - r)) + img_max_size i < 2 ^ 32"
    using assms(3) r by (auto simp: areas_apart_def IMAGE_SEQ_NUM_def)
  have io: "iop (ota_init rom) = Some i" using assms(2) by (simp add: ota_init_def)
  note out = update_image_outside [OF assms(1) io assms(4,5) seq [symmetric] lim]
  have "same_area i r d d'"
    using out assms(3) r unfolding same_area_def same_outside_def areas_apart_def
    by (cases "img_flash i ! 0 = img_flash i ! 1") (elim disjE; auto)+
  then show ?thesis using out io by (simp add: r_def)
qed

section \<open>An example\<close>

text \<open>A decoder of stored data, whose state is the number of bytes still to come.\<close>

definition copy_xz :: "nat xz_lib" where
  "copy_xz =
     \<lparr>xz_dec_init = Some 4, xz_dec_run = \<lambda>k ins space.
        (let n = min k (min (length ins) space)
         in (if n = k then XZ_STREAM_END else if n = 0 then XZ_BUF_ERROR else XZ_OK, n, take n ins, k - n))\<rparr>"

lemma copy_live: "xz_live copy_xz"
  unfolding xz_live_def xz_moves_def copy_xz_def
  by (intro exI [of _ "\<lambda>s. False"]) (auto simp: Let_def split: if_split_asm)

text \<open>A library that reads the areas of \<open>some_param\<close>, and a flash whose first image has a body of one byte and the
  entry 4.\<close>

definition some_read :: "ota_dev \<Rightarrow> nat \<Rightarrow> u32 \<Rightarrow> image_seg \<Rightarrow> u32 \<Rightarrow> u32 \<Rightarrow> u8 list" where
  "some_read d seq sid seg off n =
     (let a = (if seg = IMAGE_SEG_HEADER then 0 else 64) + unat off
      in if a + unat n \<le> 4096 then map (\<lambda>k. fl_mem (flashes d (img_flash some_param ! seq)) (unat (img_addr some_param ! seq) + a + k)) [0..<unat n]
         else [])"

definition some_bl_rom :: bl_rom where
  "some_bl_rom =
     \<lparr>image_init_ok = True, ota_addr = 4096, image_get_cfg = \<lambda>d. Some (image_cfg d), image_read = some_read,
      image_check_data = \<lambda>h bs. True, image_get_checksum = \<lambda>bs. 0, bl_mem_ok = True, RAM_BASE = 4096\<rparr>"

definition boot_flash :: flash_dev where
  "boot_flash = erased_flash\<lparr>fl_mem := \<lambda>a. if a = 20 then 4 else if a = 24 then 1 else if a < 4096 then 0 else -1\<rparr>"

definition boot_dev :: ota_dev where
  "boot_dev = \<lparr>flashes = \<lambda>fl. boot_flash, image_cfg = (0, IMAGE_STATE_VERIFIED)\<rparr>"

lemma some_lib: "image_lib_ok some_rom some_bl_rom"
proof -
  have "some_read d' seq = some_read d seq" if "seq < IMAGE_SEQ_NUM" "same_area some_param seq d d'" for d d' seq
    using that(2) by (auto simp: some_read_def fun_eq_iff Let_def same_area_def some_param_def)
  moreover have "erases_inside some_rom"
    by (auto simp: erases_inside_def some_rom_def same_outside_def erased_def)
  ultimately show ?thesis
    by (auto simp: image_lib_ok_def some_rom_def some_bl_rom_def IMAGE_INVALID_ADDR_def)
qed

lemma some_apart: "areas_apart some_param"
proof -
  have "seq < 2 \<Longrightarrow> seq = 0 \<or> seq = 1" for seq :: nat by auto
  then show ?thesis by (fastforce simp: areas_apart_def some_param_def IMAGE_SEQ_NUM_def)
qed

lemma some_header: "some_read boot_dev 0 sid IMAGE_SEG_HEADER 0 64 = map (\<lambda>k. if k = 20 then 4 else if k = 24 then 1 else 0) [0..<64]"
  by (auto simp: some_read_def boot_dev_def boot_flash_def some_param_def)

lemma some_rom_fields [simp]:
  "image_get_cfg some_bl_rom boot_dev = Some (0, IMAGE_STATE_VERIFIED)" "RAM_BASE some_bl_rom = 4096"
  "image_init_ok some_bl_rom" "ota_addr some_bl_rom \<noteq> IMAGE_INVALID_ADDR"
  by (simp_all add: some_bl_rom_def boot_dev_def IMAGE_INVALID_ADDR_def)

lemma boot_dev_entry: "app_entry some_rom some_bl_rom copy_xz boot_dev 0 = 4"
proof -
  define hdr where "hdr = map (\<lambda>k :: nat. if k = 20 then 4 else if k = 24 then 1 else 0 :: u8) [0..<64]"
  have h: "sh_attribute (header_of hdr) = 0" "sh_body_len (header_of hdr) = 1" "sh_load_addr (header_of hdr) = 0"
    "sh_entry (header_of hdr) = 4" "length hdr = 64"
    unfolding hdr_def by code_simp+
  have l: "length (some_read boot_dev 0 sid IMAGE_SEG_BODY 0 1) = 1" for sid by (simp add: some_read_def)
  have "bl_load_bin_by_id some_rom some_bl_rom copy_xz sid 4096 \<lparr>bl_ram = m, bl_dev = boot_dev, bl_seq = 0\<rparr> =
      Some (load_plain some_bl_rom hdr sid 4096 \<lparr>bl_ram = m, bl_dev = boot_dev, bl_seq = 0\<rparr>)" for sid m
    using h some_header [of sid]
    by (simp add: bl_load_bin_by_id_def some_bl_rom_def some_rom_def IMAGE_HEADER_SIZE_def hdr_def [symmetric])
  moreover have "fst (load_plain some_bl_rom hdr sid 4096 \<lparr>bl_ram = m, bl_dev = boot_dev, bl_seq = 0\<rparr>) = BL_LOAD_BIN_OK 4" for sid m
    using h l [of sid] by (simp add: load_plain_def Let_def some_bl_rom_def)
  ultimately show ?thesis
    by (simp add: app_entry_def bl_load_app_bin_def split_beta)
qed

lemma file_gives_at_most: "gives_at_most ota_update_file_get"
  by (auto simp: gives_at_most_def ota_update_file_get_def Let_def split: if_split_asm)

section \<open>Properties\<close>





text \<open>C5: A compressed application is loaded as the whole that its pieces make up: whatever parts the decoder takes and
  puts out, the memory from the load address on holds the decoded stream if that is smaller than the space below
  the boot loader and the check sum over all pieces agrees, and else the section is refused.\<close>

theorem compressed_section_loaded:
  assumes "xz_moves xz stalled" "xz_decodes xz D" "sums_up (image_get_checksum b)" "bl_mem_ok b" "xz_dec_init xz = Some s0"
    "hdr = image_read b (bl_dev st) (bl_seq st) sid IMAGE_SEG_HEADER 0 IMAGE_HEADER_SIZE" "length hdr = unat IMAGE_HEADER_SIZE"
    "rom_check_header rom hdr" "sh = header_of hdr" "and (sh_attribute sh) IMAGE_ATTR_FLAG_COMPRESS \<noteq> 0"
    "\<forall>off n. unat off + unat n \<le> length body \<longrightarrow>
       image_read b (bl_dev st) (bl_seq st) (sh_id sh) IMAGE_SEG_BODY off n = take (unat n) (drop (unat off) body)"
    "length body = unat (sh_body_len sh)" "body \<noteq> []" "D s0 body out" "sh_load_addr sh \<noteq> max_addr"
  shows "\<exists>st'. bl_load_bin_by_id rom b xz sid max_addr st =
      Some (if length out < unat (max_addr - sh_load_addr sh) \<and> sh_data_chksum sh + image_get_checksum b body = 0xFFFF
            then BL_LOAD_BIN_OK (sh_entry sh) else BL_LOAD_BIN_INVALID, st') \<and>
    (length out < unat (max_addr - sh_load_addr sh) \<longrightarrow> st' = st\<lparr>bl_ram := ram_store (sh_load_addr sh) out (bl_ram st)\<rparr>)"
proof -
  define mx where "mx = max_addr - sh_load_addr sh"
  have mx: "unat (0 :: u32) < unat mx" using assms(15) by (simp add: mx_def unat_gt_0)
  have lb: "length body < 2 ^ 32" using assms(12) unat_u32 [of "sh_body_len sh"] by simp
  obtain m' where m': "dec_loop b xz (image_read b (bl_dev st) (bl_seq st) (sh_id sh) IMAGE_SEG_BODY) (sh_load_addr sh) mx s0 [] 0
        (sh_body_len sh) (sh_data_chksum sh) 0 (bl_ram st) =
      Some (length out < unat mx \<and> sh_data_chksum sh + image_get_checksum b body = 0xFFFF, m')"
      "length out < unat mx \<longrightarrow> m' = ram_store (sh_load_addr sh) out (bl_ram st)"
    using dec_loop_decodes [where rest = "[]" and off = 0 and pos = 0 and out_size = mx and left = "sh_body_len sh" and
        ck = "sh_data_chksum sh" and m = "bl_ram st" and out = "sh_load_addr sh" and s = s0 and ?o2.0 = out,
        OF assms(1-3) lb assms(11) _ _ _ _ mx] assms(12-14) by auto
  have "bl_load_bin_by_id rom b xz sid max_addr st =
      Some (if length out < unat mx \<and> sh_data_chksum sh + image_get_checksum b body = 0xFFFF
        then BL_LOAD_BIN_OK (sh_entry sh) else BL_LOAD_BIN_INVALID, st\<lparr>bl_ram := m'\<rparr>)"
    using assms(4,5,7,8,10) m'(1)
    by (simp add: bl_load_bin_by_id_def Let_def assms(6) [symmetric] assms(9) [symmetric] bl_decompress_bin_def mx_def [symmetric])
  then show ?thesis using m'(2) by (auto simp: mx_def)
qed

definition packed_header :: "u8 list" where
  "packed_header = map (\<lambda>k. if k = 10 \<or> k = 11 then 255 else if k = 24 then 4 else if k = 28 then 16 else if k = 20 then 8 else 0) [0..<64]"

definition packed_rom :: bl_rom where
  "packed_rom = some_bl_rom\<lparr>image_read := \<lambda>d seq sid seg off n.
     if seg = IMAGE_SEG_HEADER then packed_header else take (unat n) (drop (unat off) [1, 2, 3, 4])\<rparr>"

lemma copy_decodes: "xz_decodes copy_xz (\<lambda>k ins out. k = length ins \<and> out = ins)"
proof -
  have "xzret = XZ_STREAM_END \<and> bs = ins @ later \<and> n = length ins \<and> later = [] \<or>
      xzret = XZ_OK \<and> drop n ins @ later \<noteq> [] \<and> (\<exists>out1. ins @ later = bs @ out1 \<and> s1 = length (drop n ins @ later) \<and> out1 = drop n ins @ later)"
    if "ins \<noteq> []" "0 < space" "xz_dec_run copy_xz (length (ins @ later)) ins space = (xzret, n, bs, s1)"
    for ins later space xzret n bs s1
  proof -
    define k where "k = min (length ins) space"
    have k: "0 < k" "k \<le> length ins" "min (length ins + length later) k = k" using that(1,2) by (auto simp: k_def)
    have r: "n = k" "bs = take k ins" "s1 = length ins + length later - k"
      "xzret = (if k = length ins + length later then XZ_STREAM_END else XZ_OK)"
      using that(3) k by (auto simp: copy_xz_def Let_def k_def [symmetric] split: if_split_asm)
    show ?thesis using r k by (cases "k = length ins + length later") auto
  qed
  then show ?thesis unfolding xz_decodes_def by blast
qed

theorem compressed_section_loaded_witness:
  "\<exists>st'. bl_load_bin_by_id some_rom packed_rom copy_xz IMAGE_APP_ID 4096 \<lparr>bl_ram = \<lambda>x. 0, bl_dev = boot_dev, bl_seq = 0\<rparr> =
     Some (BL_LOAD_BIN_OK 8, st') \<and> bl_ram st' 2 = 3"
proof -
  have h: "length packed_header = 64" "sh_attribute (header_of packed_header) = 16" "sh_body_len (header_of packed_header) = 4"
    "sh_load_addr (header_of packed_header) = 0" "sh_entry (header_of packed_header) = 8" "sh_data_chksum (header_of packed_header) = 0xFFFF"
    unfolding packed_header_def by code_simp+
  have mv: "xz_moves copy_xz (\<lambda>s. False)"
    unfolding xz_moves_def copy_xz_def by (auto simp: Let_def split: if_split_asm)
  have f: "image_read packed_rom d q sid IMAGE_SEG_HEADER off n = packed_header"
    "image_read packed_rom d q sid IMAGE_SEG_BODY off n = take (unat n) (drop (unat off) [1, 2, 3, 4])"
    "bl_mem_ok packed_rom" "image_get_checksum packed_rom = (\<lambda>bs. 0)" "xz_dec_init copy_xz = Some 4" "rom_check_header some_rom bs"
    for d q sid off n bs
    by (simp_all add: packed_rom_def some_bl_rom_def copy_xz_def some_rom_def)
  have r: "ram_store 0 [1, 2, 3, 4] (\<lambda>x. 0) 2 = 3" by (simp add: ram_store_def)
  have n: "length packed_header = unat IMAGE_HEADER_SIZE" "length [1, 2, 3, 4 :: u8] = unat (sh_body_len (header_of packed_header))"
    "and (sh_attribute (header_of packed_header)) IMAGE_ATTR_FLAG_COMPRESS \<noteq> 0" "length [1, 2, 3, 4 :: u8] < unat (4096 - 0 :: u32)"
    using h by (simp_all add: IMAGE_HEADER_SIZE_def IMAGE_ATTR_FLAG_COMPRESS_def)
  define st where "st = \<lparr>bl_ram = \<lambda>x. 0, bl_dev = boot_dev, bl_seq = 0\<rparr>"
  have su: "sums_up (image_get_checksum packed_rom)" by (simp add: f(4) sums_up_def)
  have hd: "packed_header = image_read packed_rom (bl_dev st) (bl_seq st) IMAGE_APP_ID IMAGE_SEG_HEADER 0 IMAGE_HEADER_SIZE" by (simp only: f)
  have body: "\<forall>off n. unat off + unat n \<le> length [1, 2, 3, 4 :: u8] \<longrightarrow> image_read packed_rom (bl_dev st) (bl_seq st)
      (sh_id (header_of packed_header)) IMAGE_SEG_BODY off n = take (unat n) (drop (unat off) [1, 2, 3, 4])" by (simp only: f) blast
  obtain st' where "bl_load_bin_by_id some_rom packed_rom copy_xz IMAGE_APP_ID 4096 st = Some (BL_LOAD_BIN_OK 8, st')"
      "st' = st\<lparr>bl_ram := ram_store 0 [1, 2, 3, 4] (bl_ram st)\<rparr>"
    using compressed_section_loaded [OF mv copy_decodes su f(3,5) hd n(1) f(6) refl n(3) body n(2), of "[1, 2, 3, 4]" 4096] n(4)
    by (auto simp only: h f(4)) auto
  then show ?thesis using r by (auto simp: st_def)
qed

end
