(* ===== verification/Audio_Dma.thy ===== *)
theory Audio_Dma
  imports Os Efuse
begin

text \<open>
  Playing and recording through a circular buffer of two halves, src/driver/chip/hal_i2s.c; the internal codec,
  src/driver/chip/codec/hal_audiocodec.c, has the same code over its own state. The DMA plays one half after the
  other and interrupts at the end of each; the writer fills the half that does not play, and waits on a
  semaphore when there is none to fill. Pointers into the buffer are offsets, \<open>None\<close> is NULL. The call counters
  stay below the threshold of 3, so that their width of 8 bits does not matter.
\<close>

section \<open>Playback: state and hardware\<close>

text \<open>The last three fields are the hardware: the half that plays (\<open>None\<close>: the DMA is stopped), the bytes it sends, and
  the halves it has sent to the end.\<close>

record tx_dev =
  isTxInitiate :: bool
  tx_suspend :: bool
  txDMAChan :: bool
  txBuf :: "u8 list"
  txBufSize :: nat
  txRunning :: bool
  writePointer :: "nat option"
  txDmaPointer :: "nat option"
  txHalfCallCount :: nat
  txEndCallCount :: nat
  txReady :: semaphore
  isTxSemaphore :: bool
  hw_at :: "nat option"
  hw_now :: "u8 list"
  hw_sent :: "u8 list list"

abbreviation tx_half :: "tx_dev \<Rightarrow> nat" where "tx_half s \<equiv> txBufSize s div 2"

definition half_at :: "tx_dev \<Rightarrow> nat \<Rightarrow> u8 list" where
  "half_at s off = take (tx_half s) (drop off (txBuf s))"

definition UNDERRUN_THRESHOLD :: nat where "UNDERRUN_THRESHOLD = 3"

definition tx_trigger :: "bool \<Rightarrow> tx_dev \<Rightarrow> tx_dev" where
  "tx_trigger enable s =
     (if enable
      then (if txDMAChan s then s\<lparr>hw_at := Some 0, hw_now := half_at s 0, txRunning := True\<rparr> else s\<lparr>txRunning := True\<rparr>)
      else (if txDMAChan s then s\<lparr>hw_at := None, txRunning := False\<rparr> else s\<lparr>txRunning := False\<rparr>))"

text \<open>Whether the threshold was reached, and the state then.\<close>

definition tx_threshold :: "tx_dev \<Rightarrow> bool \<times> tx_dev" where
  "tx_threshold s =
     (if txHalfCallCount s \<ge> UNDERRUN_THRESHOLD \<or> txEndCallCount s \<ge> UNDERRUN_THRESHOLD
      then (True, (tx_trigger False s)\<lparr>txRunning := False, writePointer := None, txHalfCallCount := 0, txEndCallCount := 0,
                    txDmaPointer := None\<rparr>)
      else (False, s))"

definition tx_release :: "tx_dev \<Rightarrow> tx_dev" where
  "tx_release s = (if isTxSemaphore s then s\<lparr>isTxSemaphore := False, txReady := snd (OS_SemaphoreRelease (txReady s))\<rparr> else s)"

definition I2S_DMAHalfCallback :: "tx_dev \<Rightarrow> tx_dev" where
  "I2S_DMAHalfCallback s =
     (case tx_threshold (tx_release (s\<lparr>txHalfCallCount := txHalfCallCount s + 1\<rparr>)) of
        (stopped, s1) \<Rightarrow> if stopped then s1 else s1\<lparr>txDmaPointer := Some (tx_half s1)\<rparr>)"

definition I2S_DMAEndCallback :: "tx_dev \<Rightarrow> tx_dev" where
  "I2S_DMAEndCallback s =
     (case tx_threshold (tx_release (s\<lparr>txEndCallCount := txEndCallCount s + 1\<rparr>)) of
        (stopped, s1) \<Rightarrow> if stopped then s1 else s1\<lparr>txDmaPointer := Some 0\<rparr>)"

text \<open>The DMA comes to the end of a half: it goes on with the other one and interrupts.\<close>

definition tx_cross :: "tx_dev \<Rightarrow> tx_dev" where
  "tx_cross s =
     (case hw_at s of
        None \<Rightarrow> s
      | Some off \<Rightarrow>
          (let s1 = s\<lparr>hw_sent := hw_sent s @ [hw_now s]\<rparr>
           in if off = 0 then I2S_DMAHalfCallback (s1\<lparr>hw_at := Some (tx_half s), hw_now := half_at s (tx_half s)\<rparr>)
              else I2S_DMAEndCallback (s1\<lparr>hw_at := Some 0, hw_now := half_at s 0\<rparr>)))"

section \<open>Writing a block\<close>

definition tx_copy :: "nat \<Rightarrow> u8 list \<Rightarrow> tx_dev \<Rightarrow> tx_dev" where
  "tx_copy off bs s = s\<lparr>txBuf := list_write (txBuf s) off bs\<rparr>"

text \<open>The first block starts the DMA.\<close>

definition tx_start :: "u8 list \<Rightarrow> tx_dev \<Rightarrow> tx_dev" where
  "tx_start bs s =
     (let wp = (case writePointer s of None \<Rightarrow> 0 | Some p \<Rightarrow> p)
      in (tx_trigger True (tx_copy wp bs (s\<lparr>writePointer := Some wp\<rparr>)))\<lparr>txRunning := True\<rparr>)"

text \<open>Taking the interrupts that came; both kinds at once are an underrun.\<close>

definition tx_take :: "tx_dev \<Rightarrow> tx_dev" where
  "tx_take s =
     (if txHalfCallCount s > 0 \<and> txEndCallCount s > 0 then s\<lparr>txHalfCallCount := 0, txEndCallCount := 0\<rparr>
      else s\<lparr>txHalfCallCount := txHalfCallCount s - 1, txEndCallCount := txEndCallCount s - 1\<rparr>)"

definition tx_fill :: "u8 list \<Rightarrow> tx_dev \<Rightarrow> tx_dev" where
  "tx_fill bs s =
     (if txDmaPointer s = Some 0 then tx_copy (tx_half s) bs (s\<lparr>writePointer := Some 0\<rparr>)
      else tx_copy 0 bs (s\<lparr>writePointer := Some (tx_half s)\<rparr>))"

text \<open>Up to the wait on the semaphore: the block is written, or the writer waits.\<close>

definition write_begin :: "u8 list \<Rightarrow> tx_dev \<Rightarrow> bool \<times> tx_dev" where
  "write_begin bs s =
     (if \<not> txRunning s then (True, tx_start bs s)
      else if txHalfCallCount s > 0 \<or> txEndCallCount s > 0 then (True, tx_fill bs (tx_take s))
      else (False, s\<lparr>isTxSemaphore := True\<rparr>))"

text \<open>After the wait.\<close>

definition write_wake :: "u8 list \<Rightarrow> tx_dev \<Rightarrow> tx_dev" where
  "write_wake bs s = tx_fill bs (tx_take (s\<lparr>txReady := snd (OS_SemaphoreWait False (txReady s) 0xFFFFFFFF)\<rparr>))"

section \<open>The writer and the interrupts\<close>

text \<open>\<open>pc\<close>: the block the writer waits with. For the proofs: the blocks written so far, and whether an
  interrupt ever came while the one before was not yet answered by a block.\<close>

record tx_sys =
  tx :: tx_dev
  pc :: "u8 list option"
  blocks :: "u8 list list"
  late :: bool

abbreviation unanswered :: "tx_dev \<Rightarrow> nat" where "unanswered s \<equiv> txHalfCallCount s + txEndCallCount s"

inductive tx_step :: "tx_sys \<Rightarrow> tx_sys \<Rightarrow> bool" where
  filled: "pc S = None \<Longrightarrow> length bs = tx_half (tx S) \<Longrightarrow> write_begin bs (tx S) = (True, s) \<Longrightarrow>
    tx_step S (S\<lparr>tx := s, blocks := blocks S @ [bs]\<rparr>)"
| waits: "pc S = None \<Longrightarrow> length bs = tx_half (tx S) \<Longrightarrow> write_begin bs (tx S) = (False, s) \<Longrightarrow>
    tx_step S (S\<lparr>tx := s, pc := Some bs\<rparr>)"
| wakes: "pc S = Some bs \<Longrightarrow> sem_count (txReady (tx S)) > 0 \<Longrightarrow>
    tx_step S (S\<lparr>tx := write_wake bs (tx S), pc := None, blocks := blocks S @ [bs]\<rparr>)"
| crosses: "hw_at (tx S) \<noteq> None \<Longrightarrow>
    tx_step S (S\<lparr>tx := tx_cross (tx S), late := late S \<or> unanswered (tx S) > 0\<rparr>)"

section \<open>Opening and closing\<close>

definition no_tx :: tx_dev where
  "no_tx =
     \<lparr>isTxInitiate = False, tx_suspend = False, txDMAChan = False, txBuf = [], txBufSize = 0, txRunning = False, writePointer = None,
      txDmaPointer = None, txHalfCallCount = 0, txEndCallCount = 0, txReady = \<lparr>sem_count = 0, sem_max = 0\<rparr>, isTxSemaphore = False,
      hw_at = None, hw_now = [], hw_sent = []\<rparr>"

text \<open>\<open>mem\<close>, \<open>chan\<close>: the buffer could be allocated, a channel was free.\<close>

definition i2s_open_tx :: "bool \<Rightarrow> bool \<Rightarrow> nat \<Rightarrow> tx_dev \<Rightarrow> HAL_Status \<times> tx_dev" where
  "i2s_open_tx mem chan bufSize s =
     (if isTxInitiate s then (HAL_ERROR, s)
      else (let s1 = s\<lparr>isTxInitiate := True, txDMAChan := False, txBufSize := bufSize, txHalfCallCount := 0, txEndCallCount := 0\<rparr>
            in if \<not> mem then (HAL_ERROR, s1)
               else if \<not> chan then (HAL_ERROR, s1\<lparr>txBuf := []\<rparr>)
               else (HAL_OK, s1\<lparr>txBuf := replicate bufSize 0, txDMAChan := True, txReady := \<lparr>sem_count = 0, sem_max = 1\<rparr>, hw_sent := []\<rparr>)))"

definition i2s_close_tx :: "tx_dev \<Rightarrow> tx_dev" where
  "i2s_close_tx s =
     (tx_trigger False s)\<lparr>txRunning := False, isTxInitiate := False, txDMAChan := False, txBuf := [], txBufSize := 0,
       writePointer := None, txHalfCallCount := 0, txEndCallCount := 0\<rparr>"

section \<open>Writing as a whole\<close>

text \<open>One block when the hardware comes to the end of a half while the writer waits, and not before.\<close>

definition write_block :: "u8 list \<Rightarrow> tx_dev \<Rightarrow> tx_dev" where
  "write_block bs s =
     (case write_begin bs s of (written, s1) \<Rightarrow> if written then s1 else write_wake bs (tx_cross s1))"

function write_blocks :: "nat \<Rightarrow> u8 list \<Rightarrow> tx_dev \<Rightarrow> tx_dev" where
  "write_blocks writeSize pdata s =
     (if writeSize = 0 \<or> length pdata < writeSize then s
      else write_blocks writeSize (drop writeSize pdata) (write_block (take writeSize pdata) s))"
  by pat_completeness auto
termination
  by (relation "measure (\<lambda>(_, pdata, _). length pdata)") auto

declare write_blocks.simps [simp del]

definition HAL_INVALID_int :: int where "HAL_INVALID_int = -4"

definition HAL_I2S_Write_DMA :: "u8 list \<Rightarrow> tx_dev \<Rightarrow> int \<times> tx_dev" where
  "HAL_I2S_Write_DMA buf s =
     (if buf = [] then (HAL_INVALID_int, s)
      else if tx_suspend s then (0, s)
      else if tx_half s = 0 then (-1, s)
      else if length buf < tx_half s then (-1, s)
      else (int (length buf div tx_half s * tx_half s), write_blocks (tx_half s) buf s))"

text \<open>The internal codec: without the tests, and a buffer size of 0 (a division by zero) left out.\<close>

definition CODEC_Write_DMA :: "u8 list \<Rightarrow> tx_dev \<Rightarrow> int \<times> tx_dev" where
  "CODEC_Write_DMA buf s =
     (if buf = [] then (HAL_INVALID_int, s)
      else (int (length buf div tx_half s * tx_half s), write_blocks (tx_half s) buf s))"

section \<open>What never happens\<close>

lemma half_at_write_same:
  assumes "length (txBuf s) = 2 * tx_half s" "length bs = tx_half s" "off = 0 \<or> off = tx_half s"
  shows "half_at (tx_copy off bs s) off = bs"
proof -
  have "off + length bs \<le> length (txBuf s)" using assms by auto
  then show ?thesis using slice_list_write [of off bs "txBuf s"] assms(2) by (simp add: half_at_def tx_copy_def)
qed

lemma half_at_write_other:
  assumes "length (txBuf s) = 2 * tx_half s" "length bs = tx_half s" "off = 0 \<and> off' = tx_half s \<or> off = tx_half s \<and> off' = 0"
  shows "half_at (tx_copy off bs s) off' = half_at s off'"
  using assms by (auto simp: half_at_def tx_copy_def list_write_def)

text \<open>The invariant of driver, writer and hardware.\<close>

definition tx_shape :: "tx_dev \<Rightarrow> bool" where
  "tx_shape s \<longleftrightarrow>
     0 < tx_half s \<and> length (txBuf s) = 2 * tx_half s \<and> txDMAChan s \<and> sem_max (txReady s) = 1 \<and>
     (hw_at s = None \<longleftrightarrow> \<not> txRunning s) \<and>
     (\<forall>off. hw_at s = Some off \<longrightarrow> (off = 0 \<or> off = tx_half s) \<and> hw_now s = half_at s off) \<and>
     (\<forall>p. writePointer s = Some p \<longrightarrow> p = 0 \<or> p = tx_half s)"

definition tx_counts :: "tx_dev \<Rightarrow> bool" where
  "tx_counts s \<longleftrightarrow>
     txHalfCallCount s < 3 \<and> txEndCallCount s < 3 \<and> (\<not> txRunning s \<longrightarrow> unanswered s = 0) \<and>
     (txRunning s \<and> 0 < unanswered s \<longrightarrow> txDmaPointer s = hw_at s)"

definition tx_waits :: "tx_sys \<Rightarrow> bool" where
  "tx_waits S \<longleftrightarrow>
     (case pc S of
        None \<Rightarrow> \<not> isTxSemaphore (tx S) \<and> sem_count (txReady (tx S)) = 0
      | Some bs \<Rightarrow> length bs = tx_half (tx S) \<and>
          (if isTxSemaphore (tx S) then sem_count (txReady (tx S)) = 0 \<and> txRunning (tx S) \<and> unanswered (tx S) = 0
           else sem_count (txReady (tx S)) = 1 \<and> (0 < unanswered (tx S) \<or> \<not> txRunning (tx S))))"

definition tx_inv :: "tx_sys \<Rightarrow> bool" where
  "tx_inv S \<longleftrightarrow> tx_shape (tx S) \<and> tx_counts (tx S) \<and> tx_waits S"

lemma tx_start_inv:
  assumes "tx_shape s" "tx_counts s" "\<not> txRunning s" "length bs = tx_half s"
  shows "tx_shape (tx_start bs s) \<and> tx_counts (tx_start bs s) \<and> txRunning (tx_start bs s) \<and>
    isTxSemaphore (tx_start bs s) = isTxSemaphore s \<and> txReady (tx_start bs s) = txReady s \<and> unanswered (tx_start bs s) = 0 \<and>
    txBufSize (tx_start bs s) = txBufSize s \<and> hw_sent (tx_start bs s) = hw_sent s"
  using assms by (auto simp: tx_start_def tx_trigger_def tx_copy_def tx_shape_def tx_counts_def half_at_def Let_def split: option.split)

text \<open>Filling a half while the DMA plays: the other one is filled.\<close>

lemma tx_fill_inv:
  assumes "tx_shape s" "length bs = tx_half s" "txRunning s \<longrightarrow> txDmaPointer s = hw_at s"
  shows "tx_shape (tx_fill bs s) \<and>
    (\<forall>off. hw_at s = Some off \<longrightarrow> half_at (tx_fill bs s) (tx_half s - off) = bs)"
proof -
  define off where "off = (if txDmaPointer s = Some 0 then tx_half s else 0)"
  define wp where "wp = (if txDmaPointer s = Some 0 then 0 else tx_half s)"
  have f: "tx_fill bs s = tx_copy off bs (s\<lparr>writePointer := Some wp\<rparr>)" by (simp add: tx_fill_def off_def wp_def)
  define s1 where "s1 = s\<lparr>writePointer := Some wp\<rparr>"
  have l: "length (txBuf s1) = 2 * tx_half s1" "length bs = tx_half s1" using assms(1,2) by (simp_all add: tx_shape_def s1_def)
  have same: "half_at (tx_copy off bs s1) off = bs"
    by (rule half_at_write_same [OF l]) (simp add: off_def s1_def)
  have other: "half_at (tx_copy off bs s1) a = half_at s a" if "hw_at s = Some a" for a
  proof -
    have "a = 0 \<or> a = tx_half s" "txDmaPointer s = Some a" using assms(1,3) that by (auto simp: tx_shape_def)
    then have "off = 0 \<and> a = tx_half s1 \<or> off = tx_half s1 \<and> a = 0" by (auto simp: off_def s1_def)
    then have "half_at (tx_copy off bs s1) a = half_at s1 a" by (rule half_at_write_other [OF l])
    then show ?thesis by (simp add: s1_def half_at_def)
  qed
  have "half_at (tx_copy off bs s1) (tx_half s - a) = bs" if "hw_at s = Some a" for a
  proof -
    have "tx_half s - a = off" using assms(1,3) that by (auto simp: tx_shape_def off_def)
    then show ?thesis using same by simp
  qed
  moreover have "tx_shape (tx_copy off bs s1)"
    using assms(1) other l by (auto simp: tx_shape_def s1_def tx_copy_def wp_def)
  ultimately show ?thesis using f by (simp add: s1_def)
qed

lemma tx_fill_frame [simp]:
  "txHalfCallCount (tx_fill bs s) = txHalfCallCount s" "txEndCallCount (tx_fill bs s) = txEndCallCount s"
  "txRunning (tx_fill bs s) = txRunning s" "txDmaPointer (tx_fill bs s) = txDmaPointer s" "hw_at (tx_fill bs s) = hw_at s"
  "txReady (tx_fill bs s) = txReady s" "isTxSemaphore (tx_fill bs s) = isTxSemaphore s" "txBufSize (tx_fill bs s) = txBufSize s"
  "hw_now (tx_fill bs s) = hw_now s" "hw_sent (tx_fill bs s) = hw_sent s" "txDMAChan (tx_fill bs s) = txDMAChan s"
  "tx_suspend (tx_fill bs s) = tx_suspend s"
  by (simp_all add: tx_fill_def tx_copy_def)

lemma tx_take_frame [simp]:
  "txRunning (tx_take s) = txRunning s" "txDmaPointer (tx_take s) = txDmaPointer s" "hw_at (tx_take s) = hw_at s"
  "txReady (tx_take s) = txReady s" "isTxSemaphore (tx_take s) = isTxSemaphore s" "txBufSize (tx_take s) = txBufSize s"
  "hw_now (tx_take s) = hw_now s" "hw_sent (tx_take s) = hw_sent s" "txBuf (tx_take s) = txBuf s"
  "writePointer (tx_take s) = writePointer s" "txDMAChan (tx_take s) = txDMAChan s" "half_at (tx_take s) off = half_at s off"
  "tx_suspend (tx_take s) = tx_suspend s"
  by (simp_all add: tx_take_def half_at_def)

lemma tx_take_shape [simp]: "tx_shape (tx_take s) = tx_shape s"
  by (simp add: tx_shape_def)

lemma tx_take_counts: "tx_counts s \<Longrightarrow> tx_counts (tx_take s) \<and> unanswered (tx_take s) \<le> unanswered s - 1"
  by (auto simp: tx_counts_def tx_take_def)

lemma tx_fill_counts [simp]: "tx_counts (tx_fill bs s) = tx_counts s"
  by (simp add: tx_counts_def)

text \<open>An interrupt: the DMA has gone on to the other half; it may stop.\<close>

lemma tx_cross_inv:
  assumes "tx_shape s" "tx_counts s" "hw_at s = Some off"
    "sem_count (txReady s) \<le> 1" "isTxSemaphore s \<longrightarrow> sem_count (txReady s) = 0"
  shows "tx_shape (tx_cross s) \<and> tx_counts (tx_cross s) \<and> \<not> isTxSemaphore (tx_cross s) \<and>
    (0 < unanswered (tx_cross s) \<or> \<not> txRunning (tx_cross s)) \<and> txBufSize (tx_cross s) = txBufSize s \<and>
    sem_count (txReady (tx_cross s)) = (if isTxSemaphore s then 1 else sem_count (txReady s)) \<and>
    hw_sent (tx_cross s) = hw_sent s @ [hw_now s] \<and> txBuf (tx_cross s) = txBuf s \<and>
    (unanswered s = 0 \<longrightarrow> unanswered (tx_cross s) = 1 \<and> txRunning (tx_cross s) \<and> hw_at (tx_cross s) = Some (tx_half s - off))"
proof -
  have off: "off = 0 \<or> off = tx_half s" "txRunning s" "0 < tx_half s" "txDMAChan s" "sem_max (txReady s) = 1"
    "txHalfCallCount s < 3" "txEndCallCount s < 3" "length (txBuf s) = 2 * tx_half s"
    using assms(1,2,3) by (auto simp: tx_shape_def tx_counts_def)
  define n where "n = (if off = 0 then txHalfCallCount s else txEndCallCount s)"
  define s1 where "s1 = tx_release (s\<lparr>hw_sent := hw_sent s @ [hw_now s], hw_at := Some (tx_half s - off), hw_now := half_at s (tx_half s - off),
    txHalfCallCount := (if off = 0 then txHalfCallCount s + 1 else txHalfCallCount s),
    txEndCallCount := (if off = 0 then txEndCallCount s else txEndCallCount s + 1)\<rparr>)"
  have s1: "txHalfCallCount s1 = (if off = 0 then txHalfCallCount s + 1 else txHalfCallCount s)"
    "txEndCallCount s1 = (if off = 0 then txEndCallCount s else txEndCallCount s + 1)" "txBufSize s1 = txBufSize s"
    "hw_at s1 = Some (tx_half s - off)" "hw_now s1 = half_at s (tx_half s - off)" "txRunning s1" "txDMAChan s1" "txBuf s1 = txBuf s"
    "\<not> isTxSemaphore s1" "writePointer s1 = writePointer s" "hw_sent s1 = hw_sent s @ [hw_now s]" "sem_max (txReady s1) = 1"
    "sem_count (txReady s1) = (if isTxSemaphore s then 1 else sem_count (txReady s))" "half_at s1 a = half_at s a" for a
    using off assms(4,5) by (simp_all add: s1_def tx_release_def OS_SemaphoreRelease_def half_at_def)
  have c: "tx_cross s = (if n = 2
      then (tx_trigger False s1)\<lparr>txRunning := False, writePointer := None, txHalfCallCount := 0, txEndCallCount := 0, txDmaPointer := None\<rparr>
      else s1\<lparr>txDmaPointer := Some (tx_half s - off)\<rparr>)"
  proof (cases "off = 0")
    case True
    have "tx_release (s\<lparr>hw_sent := hw_sent s @ [hw_now s], hw_at := Some (tx_half s), hw_now := half_at s (tx_half s),
        txHalfCallCount := Suc (txHalfCallCount s)\<rparr>) = s1" using True by (simp add: s1_def)
    then have "tx_cross s = (case tx_threshold s1 of (stopped, s1) \<Rightarrow> if stopped then s1 else s1\<lparr>txDmaPointer := Some (tx_half s1)\<rparr>)"
      using True assms(3) by (simp add: tx_cross_def Let_def I2S_DMAHalfCallback_def)
    then show ?thesis using True off(6,7) s1(1-3) by (auto simp: tx_threshold_def UNDERRUN_THRESHOLD_def n_def)
  next
    case False
    then have h: "off = tx_half s" using off(1) by simp
    have "tx_release (s\<lparr>hw_sent := hw_sent s @ [hw_now s], hw_at := Some 0, hw_now := half_at s 0,
        txEndCallCount := Suc (txEndCallCount s)\<rparr>) = s1" using False h by (simp add: s1_def)
    then have "tx_cross s = (case tx_threshold s1 of (stopped, s1) \<Rightarrow> if stopped then s1 else s1\<lparr>txDmaPointer := Some 0\<rparr>)"
      using False assms(3) by (simp add: tx_cross_def Let_def I2S_DMAEndCallback_def)
    then show ?thesis using False h off(6,7) s1(1-3) by (auto simp: tx_threshold_def UNDERRUN_THRESHOLD_def n_def)
  qed
  show ?thesis
  proof (cases "n = 2")
    case True
    then have "0 < unanswered s" by (auto simp: n_def split: if_split_asm)
    then show ?thesis using True c s1 off by (simp add: tx_trigger_def tx_shape_def tx_counts_def half_at_def)
  next
    case False
    have "writePointer s = Some p \<Longrightarrow> p = 0 \<or> p = tx_half s" for p using assms(1) by (simp add: tx_shape_def)
    moreover have "0 < unanswered s1" "unanswered s = 0 \<longrightarrow> unanswered s1 = 1" using s1(1,2) by auto
    moreover have "txHalfCallCount s1 < 3" "txEndCallCount s1 < 3" using False off(6,7) s1(1,2) by (auto simp: n_def)
    moreover have "tx_half s - off = 0 \<or> tx_half s - off = tx_half s" using off(1) by auto
    moreover have "tx_cross s = s1\<lparr>txDmaPointer := Some (tx_half s - off)\<rparr>" using c False by simp
    ultimately show ?thesis using s1(3-14) off by (simp add: tx_shape_def tx_counts_def half_at_def)
  qed
qed

lemma tx_take_pos:
  assumes "tx_counts s" "unanswered s \<le> 1"
  shows "unanswered (tx_take s) = 0"
  using assms by (auto simp: tx_take_def)

text \<open>What the writer does when there is a half to fill, or the DMA stands still.\<close>

lemma write_begin_inv:
  assumes "tx_shape s" "tx_counts s" "length bs = tx_half s" "write_begin bs s = (w, s')"
  shows "tx_shape s' \<and> tx_counts s' \<and> txBufSize s' = txBufSize s \<and> txReady s' = txReady s \<and> hw_sent s' = hw_sent s \<and>
    txRunning s' = (txRunning s \<or> w) \<and>
    (w \<longrightarrow> isTxSemaphore s' = isTxSemaphore s) \<and> (\<not> w \<longrightarrow> isTxSemaphore s' \<and> txRunning s \<and> unanswered s' = 0) \<and>
    (w \<and> txRunning s \<longrightarrow> 0 < unanswered s \<and> hw_at s' = hw_at s \<and> hw_now s' = hw_now s \<and> unanswered s' = unanswered (tx_take s) \<and>
      (\<forall>off. hw_at s = Some off \<longrightarrow> half_at s' (tx_half s - off) = bs))"
proof -
  consider (start) "\<not> txRunning s" "w" "s' = tx_start bs s"
    | (fill) "txRunning s" "0 < unanswered s" "w" "s' = tx_fill bs (tx_take s)"
    | (wait) "txRunning s" "unanswered s = 0" "\<not> w" "s' = s\<lparr>isTxSemaphore := True\<rparr>"
    using assms(4) by (auto simp: write_begin_def split: if_split_asm)
  then show ?thesis
  proof cases
    case start
    then show ?thesis using tx_start_inv [OF assms(1,2) _ assms(3)] by simp
  next
    case fill
    have p: "txDmaPointer s = hw_at s" using assms(2) fill(1,2) by (auto simp: tx_counts_def)
    then show ?thesis
      using tx_fill_inv [of "tx_take s" bs] tx_take_counts [OF assms(2)] assms(1,3) fill by (simp)
  next
    case wait
    then show ?thesis using assms(1,2) by (simp add: tx_shape_def tx_counts_def half_at_def)
  qed
qed

lemma write_wake_inv:
  assumes "tx_shape s" "tx_counts s" "length bs = tx_half s" "0 < unanswered s \<or> \<not> txRunning s" "sem_count (txReady s) = 1"
    "s' = write_wake bs s"
  shows "tx_shape s' \<and> tx_counts s' \<and> txBufSize s' = txBufSize s \<and> sem_count (txReady s') = 0 \<and> hw_sent s' = hw_sent s \<and>
    txRunning s' = txRunning s \<and> isTxSemaphore s' = isTxSemaphore s \<and> hw_at s' = hw_at s \<and> hw_now s' = hw_now s \<and>
    unanswered s' = unanswered (tx_take s) \<and> (\<forall>off. hw_at s = Some off \<longrightarrow> half_at s' (tx_half s - off) = bs)"
proof -
  define s1 where "s1 = s\<lparr>txReady := snd (OS_SemaphoreWait False (txReady s) 0xFFFFFFFF)\<rparr>"
  have s1: "tx_shape s1" "tx_counts s1" "txBufSize s1 = txBufSize s" "hw_at s1 = hw_at s" "hw_now s1 = hw_now s"
    "sem_count (txReady s1) = 0" "txRunning s1 = txRunning s" "txDmaPointer s1 = txDmaPointer s"
    "isTxSemaphore s1 = isTxSemaphore s" "hw_sent s1 = hw_sent s" "unanswered (tx_take s1) = unanswered (tx_take s)"
    using assms(1,2,5) by (simp_all add: s1_def OS_SemaphoreWait_def tx_shape_def tx_counts_def half_at_def tx_take_def)
  have p: "txRunning s1 \<longrightarrow> txDmaPointer s1 = hw_at s1" using assms(2,4) s1 by (auto simp: tx_counts_def)
  have w: "s' = tx_fill bs (tx_take s1)" using assms(6) by (simp add: write_wake_def s1_def)
  show ?thesis
    using tx_fill_inv [of "tx_take s1" bs] tx_take_counts [OF s1(2)] assms(3) s1 p w by simp
qed

lemma tx_step_inv: "tx_step S S' \<Longrightarrow> tx_inv S \<Longrightarrow> tx_inv S'"
proof (induction rule: tx_step.cases)
  case (filled S bs s)
  then show ?case using write_begin_inv [of "tx S" bs True s] by (simp add: tx_inv_def tx_waits_def)
next
  case (waits S bs s)
  then show ?case using write_begin_inv [of "tx S" bs False s] by (simp add: tx_inv_def tx_waits_def)
next
  case (wakes S bs)
  have "length bs = tx_half (tx S)" "0 < unanswered (tx S) \<or> \<not> txRunning (tx S)" "sem_count (txReady (tx S)) = 1"
    "\<not> isTxSemaphore (tx S)"
    using wakes by (auto simp: tx_inv_def tx_waits_def split: if_split_asm)
  then show ?case using wakes write_wake_inv [of "tx S" bs "write_wake bs (tx S)"] by (simp add: tx_inv_def tx_waits_def)
next
  case (crosses S)
  obtain off where off: "hw_at (tx S) = Some off" using crosses by auto
  have sm: "sem_count (txReady (tx S)) \<le> 1" "isTxSemaphore (tx S) \<longrightarrow> sem_count (txReady (tx S)) = 0"
    using crosses by (auto simp: tx_inv_def tx_waits_def split: option.splits if_split_asm)
  show ?case using crosses tx_cross_inv [OF _ _ off sm]
    by (auto simp: tx_inv_def tx_waits_def split: option.splits if_split_asm)
qed

section \<open>In time, the blocks are played in order\<close>

text \<open>What a run plays: the first block, then the second half of the empty buffer, then the other blocks.\<close>

fun stream_of :: "nat \<Rightarrow> u8 list list \<Rightarrow> u8 list list" where
  "stream_of h [] = []"
| "stream_of h (b # bs) = b # replicate h 0 # bs"

lemma stream_of_snoc: "bs \<noteq> [] \<Longrightarrow> stream_of h (bs @ [b]) = stream_of h bs @ [b]"
  by (cases bs) auto

text \<open>The blocks written are what was sent, what is being sent and, unless the last interrupt is still to be answered,
  what waits in the other half.\<close>

definition tx_queue :: "tx_dev \<Rightarrow> u8 list list" where
  "tx_queue s = hw_sent s @ [hw_now s] @
     (if unanswered s = 0 then [half_at s (tx_half s - (case hw_at s of Some off \<Rightarrow> off | None \<Rightarrow> 0))] else [])"

definition tx_fresh :: "tx_dev \<Rightarrow> bool" where
  "tx_fresh s \<longleftrightarrow> \<not> txRunning s \<and> writePointer s = None \<and> hw_sent s = [] \<and> half_at s (tx_half s) = replicate (tx_half s) 0"

definition tx_order :: "tx_sys \<Rightarrow> bool" where
  "tx_order S \<longleftrightarrow>
     (late S \<or>
      (if blocks S = [] then tx_fresh (tx S) \<and> pc S = None
       else txRunning (tx S) \<and> unanswered (tx S) \<le> 1 \<and> tx_queue (tx S) = stream_of (tx_half (tx S)) (blocks S)))"

lemma tx_start_queue:
  assumes "tx_shape s" "tx_counts s" "tx_fresh s" "length bs = tx_half s"
  shows "tx_queue (tx_start bs s) = [bs, replicate (tx_half s) 0]"
proof -
  define s1 where "s1 = s\<lparr>writePointer := Some 0\<rparr>"
  have l: "length (txBuf s1) = 2 * tx_half s1" "length bs = tx_half s1" "txDMAChan s" "unanswered s = 0"
    using assms by (simp_all add: tx_shape_def tx_counts_def tx_fresh_def s1_def)
  have h: "half_at (tx_copy 0 bs s1) 0 = bs" "half_at (tx_copy 0 bs s1) (tx_half s) = replicate (tx_half s) 0"
    using half_at_write_same [OF l(1,2), of 0] half_at_write_other [OF l(1,2), of 0 "tx_half s"] assms(3)
    by (simp_all add: s1_def tx_fresh_def half_at_def)
  have t: "tx_start bs s = (tx_copy 0 bs s1)\<lparr>hw_at := Some 0, hw_now := half_at (tx_copy 0 bs s1) 0, txRunning := True\<rparr>"
    using l(3) assms(3) by (simp add: tx_start_def tx_fresh_def tx_trigger_def s1_def tx_copy_def Let_def)
  have "hw_sent s = []" using assms(3) by (simp add: tx_fresh_def)
  moreover have "half_at (tx_start bs s) a = half_at (tx_copy 0 bs s1) a" for a by (simp add: t half_at_def)
  ultimately show ?thesis using h l(4) by (simp add: tx_queue_def t) (simp add: tx_copy_def s1_def)
qed

lemma tx_queue_filled:
  assumes "hw_at s = Some off" "hw_at s' = hw_at s" "hw_now s' = hw_now s" "hw_sent s' = hw_sent s" "txBufSize s' = txBufSize s"
    "unanswered s = 1" "unanswered s' = 0" "half_at s' (tx_half s - off) = bs"
  shows "tx_queue s' = tx_queue s @ [bs]"
  using assms by (simp add: tx_queue_def)

lemma tx_queue_crossed:
  assumes "tx_shape s" "hw_at s = Some off" "unanswered s = 0" "hw_sent s' = hw_sent s @ [hw_now s]" "unanswered s' = 1"
    "hw_at s' = Some (tx_half s - off)" "tx_shape s'" "txBuf s' = txBuf s" "txBufSize s' = txBufSize s"
  shows "tx_queue s' = tx_queue s"
proof -
  have "hw_now s' = half_at s (tx_half s - off)" using assms(6-9) by (simp add: tx_shape_def half_at_def)
  then show ?thesis using assms(2-6) by (simp add: tx_queue_def)
qed

lemma tx_step_order:
  assumes "tx_step S S'" "tx_inv S" "tx_order S"
  shows "tx_order S'"
  using assms
proof (induction rule: tx_step.cases)
  case (filled T bs s)
  note filled = filled [unfolded filled(1) [symmetric]]
  then have sh: "tx_shape (tx S)" "tx_counts (tx S)" by (simp_all add: tx_inv_def)
  note b = write_begin_inv [OF sh filled(4,5)]
  show ?case
  proof (cases "late S \<or> blocks S = []")
    case True
    show ?thesis
    proof (cases "late S")
      case True
      then show ?thesis by (simp add: filled(2) tx_order_def)
    next
      case F: False
      then have bl: "blocks S = []" using True by simp
      then have e: "tx_fresh (tx S)" using F filled(7) by (simp add: tx_order_def)
      then have nr: "\<not> txRunning (tx S)" by (simp add: tx_fresh_def)
      then have "s = tx_start bs (tx S)" using filled(5) by (simp add: write_begin_def)
      then show ?thesis using tx_start_queue [OF sh e filled(4)] tx_start_inv [OF sh nr filled(4)] bl
        by (simp add: filled(2) tx_order_def)
    qed
  next
    case False
    then have o: "txRunning (tx S)" "unanswered (tx S) \<le> 1" "tx_queue (tx S) = stream_of (tx_half (tx S)) (blocks S)"
      using filled(7) by (auto simp: tx_order_def)
    obtain off where off: "hw_at (tx S) = Some off" using sh(1) o(1) by (cases "hw_at (tx S)") (auto simp: tx_shape_def)
    have u: "unanswered (tx S) = 1" "unanswered s = 0" using b o(1,2) tx_take_pos [OF sh(2) o(2)] by auto
    have "tx_queue s = tx_queue (tx S) @ [bs]"
      using b o(1) off u by (intro tx_queue_filled [OF off]) auto
    then show ?thesis using False o b u by (simp add: filled(2) tx_order_def stream_of_snoc)
  qed
next
  case (waits T bs s)
  note waits = waits [unfolded waits(1) [symmetric]]
  then have sh: "tx_shape (tx S)" "tx_counts (tx S)" by (simp_all add: tx_inv_def)
  have "txRunning (tx S)" "s = (tx S)\<lparr>isTxSemaphore := True\<rparr>" using waits(5) by (auto simp: write_begin_def split: if_split_asm)
  then show ?case using waits by (auto simp: tx_order_def tx_queue_def tx_fresh_def half_at_def)
next
  case (wakes T bs)
  note wakes = wakes [unfolded wakes(1) [symmetric]]
  then have w: "tx_shape (tx S)" "tx_counts (tx S)" "length bs = tx_half (tx S)" "0 < unanswered (tx S) \<or> \<not> txRunning (tx S)"
      "sem_count (txReady (tx S)) = 1"
    by (auto simp: tx_inv_def tx_waits_def split: if_split_asm)
  note b = write_wake_inv [OF w refl]
  show ?case
  proof (cases "late S \<or> blocks S = []")
    case True
    then show ?thesis using wakes by (auto simp: tx_order_def)
  next
    case False
    then have o: "txRunning (tx S)" "unanswered (tx S) \<le> 1" "tx_queue (tx S) = stream_of (tx_half (tx S)) (blocks S)"
      using wakes(6) by (auto simp: tx_order_def)
    obtain off where off: "hw_at (tx S) = Some off" using w(1) o(1) by (cases "hw_at (tx S)") (auto simp: tx_shape_def)
    have u: "unanswered (tx S) = 1" "unanswered (write_wake bs (tx S)) = 0" using b w(4) o(1,2) tx_take_pos [OF w(2) o(2)] by auto
    have "tx_queue (write_wake bs (tx S)) = tx_queue (tx S) @ [bs]"
      using b off u by (intro tx_queue_filled [OF off]) auto
    then show ?thesis using False o b u by (simp add: wakes(2) tx_order_def stream_of_snoc)
  qed
next
  case (crosses T)
  note crosses = crosses [unfolded crosses(1) [symmetric]]
  obtain off where off: "hw_at (tx S) = Some off" using crosses by auto
  have sh: "tx_shape (tx S)" "tx_counts (tx S)" using crosses by (simp_all add: tx_inv_def)
  have sm: "sem_count (txReady (tx S)) \<le> 1" "isTxSemaphore (tx S) \<longrightarrow> sem_count (txReady (tx S)) = 0"
    using crosses by (auto simp: tx_inv_def tx_waits_def split: option.splits if_split_asm)
  note b = tx_cross_inv [OF sh off sm]
  have run: "txRunning (tx S)" using sh(1) off by (auto simp: tx_shape_def)
  show ?case
  proof (cases "late S \<or> 0 < unanswered (tx S)")
    case True
    then show ?thesis by (auto simp: crosses(2) tx_order_def)
  next
    case False
    then have o: "blocks S \<noteq> []" "tx_queue (tx S) = stream_of (tx_half (tx S)) (blocks S)" "unanswered (tx S) = 0"
      using crosses(5) run by (auto simp: tx_order_def tx_fresh_def split: if_split_asm)
    have "tx_queue (tx_cross (tx S)) = tx_queue (tx S)"
      using b o(3) by (intro tx_queue_crossed [OF sh(1) off o(3)]) auto
    then show ?thesis using b o by (simp add: crosses(2) tx_order_def)
  qed
qed

text \<open>The states that can be reached from an open device.\<close>

definition tx_opened :: "nat \<Rightarrow> tx_sys" where
  "tx_opened h = \<lparr>tx = snd (i2s_open_tx True True (2 * h) no_tx), pc = None, blocks = [], late = False\<rparr>"

inductive tx_reach :: "nat \<Rightarrow> tx_sys \<Rightarrow> bool" for h where
  start: "tx_reach h (tx_opened h)"
| step: "tx_reach h S \<Longrightarrow> tx_step S S' \<Longrightarrow> tx_reach h S'"

lemma tx_step_size: "tx_step S S' \<Longrightarrow> tx_inv S \<Longrightarrow> txBufSize (tx S') = txBufSize (tx S)"
proof (induction rule: tx_step.cases)
  case (filled T bs s)
  then show ?case using write_begin_inv [of "tx T" bs True s] by (simp add: tx_inv_def)
next
  case (waits T bs s)
  then show ?case using write_begin_inv [of "tx T" bs False s] by (simp add: tx_inv_def)
next
  case (wakes T bs)
  then show ?case by (simp add: write_wake_def)
next
  case (crosses T)
  then show ?case
    by (auto simp: tx_cross_def I2S_DMAHalfCallback_def I2S_DMAEndCallback_def tx_release_def tx_threshold_def tx_trigger_def Let_def)
qed

lemma tx_opened_inv: "0 < h \<Longrightarrow> tx_inv (tx_opened h) \<and> tx_order (tx_opened h) \<and> tx_half (tx (tx_opened h)) = h"
  by (simp add: tx_opened_def i2s_open_tx_def no_tx_def tx_inv_def tx_shape_def tx_counts_def tx_waits_def tx_order_def tx_fresh_def
      half_at_def)

lemma tx_reach_inv: "tx_reach h S \<Longrightarrow> 0 < h \<Longrightarrow> tx_inv S \<and> tx_order S \<and> tx_half (tx S) = h"
  by (induction rule: tx_reach.induct) (auto simp: tx_opened_inv tx_step_size intro: tx_step_inv tx_step_order)

section \<open>A sink of blocks\<close>

text \<open>What the players of sound rely on: \<open>holds d m\<close> says that \<open>m\<close> has been handed over; data shorter than a block is
  refused, and of longer data the whole blocks are taken.\<close>

locale block_sink =
  fixes write_dma :: "'d \<Rightarrow> u8 list \<Rightarrow> int \<times> 'd"
    and holds :: "'d \<Rightarrow> u8 list \<Rightarrow> bool"
    and h :: nat
  assumes holds_pos: "holds d m \<Longrightarrow> 0 < h"
    and write_short: "holds d m \<Longrightarrow> length bs < h \<Longrightarrow> \<exists>r. write_dma d bs = (r, d) \<and> r \<le> 0"
    and write_whole: "holds d m \<Longrightarrow> h \<le> length bs \<Longrightarrow>
      \<exists>d'. write_dma d bs = (int (length bs div h * h), d') \<and> holds d' (m @ take (length bs div h * h) bs)"
begin

lemma write_one:
  assumes "holds d m" "length bs = h"
  shows "\<exists>d'. write_dma d bs = (int h, d') \<and> holds d' (m @ bs)"
  using write_whole [OF assms(1), of bs] holds_pos [OF assms(1)] assms(2) by simp

end

text \<open>A driver between two writes, with the blocks it was given, all in time.\<close>

definition tx_given :: "tx_dev \<Rightarrow> u8 list list \<Rightarrow> bool" where
  "tx_given s W \<longleftrightarrow> (let S = \<lparr>tx = s, pc = None, blocks = W, late = False\<rparr> in tx_inv S \<and> tx_order S) \<and> unanswered s = 0"

definition tx_holds :: "nat \<Rightarrow> tx_dev \<Rightarrow> u8 list \<Rightarrow> bool" where
  "tx_holds h s m \<longleftrightarrow> (\<exists>W. tx_given s W \<and> concat W = m \<and> (\<forall>b\<in>set W. length b = h)) \<and> tx_half s = h \<and> 0 < h \<and> \<not> tx_suspend s"

lemma tx_suspend_frame [simp]:
  "tx_suspend (tx_trigger en s) = tx_suspend s" "tx_suspend (tx_copy off bs s) = tx_suspend s"
  "tx_suspend (tx_start bs s) = tx_suspend s" "tx_suspend (tx_release s) = tx_suspend s"
  "tx_suspend (snd (tx_threshold s)) = tx_suspend s"
  by (simp_all add: tx_trigger_def tx_copy_def tx_start_def tx_release_def tx_threshold_def Let_def)

lemma tx_suspend_cross [simp]: "tx_suspend (tx_cross s) = tx_suspend s"
  by (cases "hw_at s") (simp_all add: tx_cross_def I2S_DMAHalfCallback_def I2S_DMAEndCallback_def Let_def split_beta)

lemma write_block_given:
  assumes "tx_given s W" "length bs = tx_half s"
  shows "tx_given (write_block bs s) (W @ [bs]) \<and> tx_half (write_block bs s) = tx_half s \<and> tx_suspend (write_block bs s) = tx_suspend s"
proof -
  define S where "S = \<lparr>tx = s, pc = None, blocks = W, late = False\<rparr>"
  have S: "tx_inv S" "tx_order S" "unanswered s = 0" using assms(1) by (simp_all add: tx_given_def S_def Let_def)
  have susp: "tx_suspend (write_block bs s) = tx_suspend s"
    by (auto simp: write_block_def write_begin_def write_wake_def)
  obtain w s1 where b: "write_begin bs s = (w, s1)" by (cases "write_begin bs s")
  have sh: "tx_shape s" "tx_counts s" using S(1) by (simp_all add: tx_inv_def S_def)
  note wb = write_begin_inv [OF sh assms(2) b]
  show ?thesis
  proof (cases w)
    case True
    define S1 where "S1 = S\<lparr>tx := s1, blocks := blocks S @ [bs]\<rparr>"
    have st: "tx_step S S1" unfolding S1_def using assms(2) b True by (intro tx_step.filled) (simp_all add: S_def)
    have "\<not> txRunning s" using wb True S(3) by auto
    then have "s1 = tx_start bs s" using b True by (simp add: write_begin_def)
    then have "unanswered s1 = 0" using tx_start_inv [OF sh \<open>\<not> txRunning s\<close> assms(2)] by simp
    moreover have "write_block bs s = s1" using b True by (simp add: write_block_def)
    moreover have "S1 = \<lparr>tx = s1, pc = None, blocks = W @ [bs], late = False\<rparr>" by (simp add: S1_def S_def)
    ultimately show ?thesis using tx_step_inv [OF st S(1)] tx_step_order [OF st S(1,2)] wb susp by (simp add: tx_given_def)
  next
    case False
    define S1 where "S1 = S\<lparr>tx := s1, pc := Some bs\<rparr>"
    have st1: "tx_step S S1" unfolding S1_def using assms(2) b False by (intro tx_step.waits) (simp_all add: S_def)
    have s1: "isTxSemaphore s1" "txRunning s" "unanswered s1 = 0" "txRunning s1" "tx_shape s1" "tx_counts s1" "tx_half s1 = tx_half s"
      using wb False by auto
    obtain off where off: "hw_at s1 = Some off" using s1(4,5) by (cases "hw_at s1") (auto simp: tx_shape_def)
    define S2 where "S2 = S1\<lparr>tx := tx_cross (tx S1), late := late S1 \<or> unanswered (tx S1) > 0\<rparr>"
    have st2: "tx_step S1 S2" unfolding S2_def using off by (intro tx_step.crosses) (simp add: S1_def)
    have "sem_count (txReady s1) = 0" using S(1) wb by (simp add: tx_inv_def tx_waits_def S_def)
    then have c: "sem_count (txReady (tx_cross s1)) = 1" "unanswered (tx_cross s1) = 1" "tx_half (tx_cross s1) = tx_half s"
        "tx_shape (tx_cross s1)" "tx_counts (tx_cross s1)"
      using tx_cross_inv [OF s1(5,6) off] s1(1,3,7) by simp_all
    define S3 where "S3 = S2\<lparr>tx := write_wake bs (tx S2), pc := None, blocks := blocks S2 @ [bs]\<rparr>"
    have st3: "tx_step S2 S3" unfolding S3_def using c(1) by (intro tx_step.wakes) (simp_all add: S2_def S1_def)
    have "S3 = \<lparr>tx = write_block bs s, pc = None, blocks = W @ [bs], late = False\<rparr>"
      using b False s1(3) by (simp add: S3_def S2_def S1_def S_def write_block_def)
    moreover have "tx_inv S3" "tx_order S3"
      using tx_step_inv [OF st1 S(1)] tx_step_order [OF st1 S(1,2)] st2 st3 by (blast intro: tx_step_inv tx_step_order)+
    moreover have "unanswered (write_block bs s) = 0 \<and> tx_half (write_block bs s) = tx_half s"
      using write_wake_inv [OF c(4,5) _ _ c(1) refl, of bs] tx_take_pos [OF c(5)] c(2,3) b False assms(2) by (simp add: write_block_def)
    ultimately show ?thesis using susp by (simp add: tx_given_def)
  qed
qed

lemma write_blocks_given:
  assumes "tx_given s W" "0 < tx_half s" "n = length bs div tx_half s * tx_half s"
  shows "\<exists>V. tx_given (write_blocks (tx_half s) bs s) (W @ V) \<and> concat V = take n bs \<and> (\<forall>b\<in>set V. length b = tx_half s) \<and>
    tx_half (write_blocks (tx_half s) bs s) = tx_half s \<and> tx_suspend (write_blocks (tx_half s) bs s) = tx_suspend s"
  using assms
proof (induction bs arbitrary: s W n rule: length_induct)
  case (1 bs)
  define h where "h = tx_half s"
  show ?case
  proof (cases "length bs < h")
    case True
    then have "write_blocks h bs s = s" by (subst write_blocks.simps) simp
    then show ?thesis using True 1(2,4) by (intro exI [of _ "[]"]) (simp add: h_def)
  next
    case False
    define b s1 where "b = take h bs" and "s1 = write_block b s"
    have b: "tx_given s1 (W @ [b])" "tx_half s1 = h" "tx_suspend s1 = tx_suspend s" "length b = h"
      using write_block_given [OF 1(2), of b] False by (simp_all add: b_def s1_def h_def)
    have l: "length (drop h bs) < length bs" using False 1(3) by (simp add: h_def)
    have d: "length bs div h = Suc (length (drop h bs) div h)" using False 1(3) by (simp add: h_def le_div_geq)
    obtain V where V: "tx_given (write_blocks h (drop h bs) s1) (W @ [b] @ V)" "concat V = take (length (drop h bs) div h * h) (drop h bs)"
      "\<forall>b\<in>set V. length b = h" "tx_half (write_blocks h (drop h bs) s1) = h" "tx_suspend (write_blocks h (drop h bs) s1) = tx_suspend s"
      using 1(1) [rule_format, OF l b(1) _ refl] b(2,3) 1(3) by (auto simp: h_def)
    have "write_blocks h bs s = write_blocks h (drop h bs) s1"
      using False 1(3) by (subst write_blocks.simps) (simp add: h_def b_def s1_def)
    moreover have "concat (b # V) = take (length bs div h * h) bs"
      using V(2) d by (simp add: b_def take_add [symmetric])
    ultimately show ?thesis using V b(4) 1(4) by (intro exI [of _ "b # V"]) (simp add: h_def)
  qed
qed

lemma tx_holds_blocks:
  assumes "tx_holds h s m"
  shows "tx_holds h (write_blocks h bs s) (m @ take (length bs div h * h) bs)"
proof -
  obtain W where W: "tx_given s W" "concat W = m" "\<forall>b\<in>set W. length b = h" "tx_half s = h" "0 < h" "\<not> tx_suspend s"
    using assms by (auto simp: tx_holds_def)
  have hp: "0 < tx_half s" using W(4,5) by simp
  from write_blocks_given [OF W(1) hp refl, of bs] obtain V where
    "tx_given (write_blocks h bs s) (W @ V)" "concat V = take (length bs div h * h) bs" "\<forall>b\<in>set V. length b = h"
    "tx_half (write_blocks h bs s) = h" "tx_suspend (write_blocks h bs s) = tx_suspend s"
    unfolding W(4) by blast
  then show ?thesis using W unfolding tx_holds_def by (intro conjI exI [of _ "W @ V"]) auto
qed

text \<open>Both drivers are such sinks.\<close>

interpretation i2s: block_sink "\<lambda>s bs. HAL_I2S_Write_DMA bs s" "tx_holds h" h for h
proof
  fix d m bs
  assume a: "tx_holds h d m"
  then have d: "0 < h" "tx_half d = h" "\<not> tx_suspend d" by (auto simp: tx_holds_def)
  show "0 < h" by (rule d)
  show "\<exists>r. HAL_I2S_Write_DMA bs d = (r, d) \<and> r \<le> 0" if "length bs < h"
    using that d by (simp add: HAL_I2S_Write_DMA_def HAL_INVALID_int_def)
  show "\<exists>d'. HAL_I2S_Write_DMA bs d = (int (length bs div h * h), d') \<and> tx_holds h d' (m @ take (length bs div h * h) bs)" if "h \<le> length bs"
    using that d tx_holds_blocks [OF a, of bs] by (auto simp: HAL_I2S_Write_DMA_def)
qed

interpretation codec: block_sink "\<lambda>s bs. CODEC_Write_DMA bs s" "tx_holds h" h for h
proof
  fix d m bs
  assume a: "tx_holds h d m"
  then have d: "0 < h" "tx_half d = h" by (auto simp: tx_holds_def)
  show "0 < h" by (rule d)
  show "\<exists>r. CODEC_Write_DMA bs d = (r, d) \<and> r \<le> 0" if "length bs < h"
  proof -
    have "write_blocks h bs d = d" using that by (subst write_blocks.simps) simp
    then show ?thesis using that d by (simp add: CODEC_Write_DMA_def HAL_INVALID_int_def)
  qed
  show "\<exists>d'. CODEC_Write_DMA bs d = (int (length bs div h * h), d') \<and> tx_holds h d' (m @ take (length bs div h * h) bs)" if "h \<le> length bs"
    using that d tx_holds_blocks [OF a, of bs] by (auto simp: CODEC_Write_DMA_def)
qed

section \<open>Properties\<close>



end
