(* ===== verification/Pcm.thy ===== *)
theory Pcm
  imports Audio_Dma
begin

text \<open>
  The PCM layer, src/audio/pcm/audio_pcm.c: writing data of any size to a driver that takes whole blocks only, by
  way of a cache of one block. The driver is an argument, and what the layer relies on is the locale
  \<open>block_sink\<close>, of which both drivers of \<open>Audio_Dma\<close> are models. \<open>None\<close> is a store outside the cache.
\<close>

section \<open>Configuration\<close>

datatype pcm_format = PCM_FORMAT_S16_LE | PCM_FORMAT_S32_LE | PCM_FORMAT_S8 | PCM_FORMAT_S24_LE | PCM_FORMAT_MAX

record pcm_config =
  channels :: u32
  rate :: u32
  period_size :: u32
  period_count :: u32
  pcm_fmt :: pcm_format
  mix_mode :: u32

datatype audio_card = SOUND_CARD_INTERNAL_AUDIOCODEC | SOUND_CARD_INTERNAL_DMIC | SOUND_CARD_EXTERNAL_AUDIOCODEC

definition pcm_get_buffer_size :: "pcm_config \<Rightarrow> u32" where
  "pcm_get_buffer_size cfg = period_count cfg * period_size cfg"

fun pcm_format_to_bits :: "pcm_format \<Rightarrow> u32" where
  "pcm_format_to_bits PCM_FORMAT_S32_LE = 32"
| "pcm_format_to_bits PCM_FORMAT_S24_LE = 32"
| "pcm_format_to_bits PCM_FORMAT_S16_LE = 16"
| "pcm_format_to_bits _ = 0"

definition pcm_frames_to_bytes :: "pcm_config \<Rightarrow> u32 \<Rightarrow> u32" where
  "pcm_frames_to_bytes cfg frames = frames * channels cfg * drop_bit 3 (pcm_format_to_bits (pcm_fmt cfg))"

text \<open>\<open>buf_size\<close>: half of the buffer.\<close>

definition pcm_half :: "pcm_config \<Rightarrow> nat" where
  "pcm_half cfg = unat (pcm_frames_to_bytes cfg (pcm_get_buffer_size cfg) div 2)"

section \<open>Writing\<close>

record play_priv =
  pcache :: "u8 list option"
  plength :: nat

text \<open>A copy to the cache at an offset.\<close>

definition cache_copy :: "nat \<Rightarrow> u8 list \<Rightarrow> play_priv \<Rightarrow> play_priv option" where
  "cache_copy off bs p =
     (if bs = [] then Some p
      else (case pcache p of
              None \<Rightarrow> None
            | Some c \<Rightarrow> if off + length bs \<le> length c then Some (p\<lparr>pcache := Some (list_write c off bs)\<rparr>) else None))"

text \<open>The part after the cache: the driver takes what it takes, the rest is cached.\<close>

definition write_rest ::
  "('d \<Rightarrow> u8 list \<Rightarrow> int \<times> 'd) \<Rightarrow> u8 list \<Rightarrow> int \<Rightarrow> play_priv \<Rightarrow> 'd \<Rightarrow> (int \<times> play_priv \<times> 'd) option" where
  "write_rest hal data count p d =
     (case hal d data of
        (ret, d1) \<Rightarrow>
          if ret > 0 \<and> ret \<noteq> int (length data)
          then map_option (\<lambda>p1. (count, p1\<lparr>plength := length data - nat ret\<rparr>, d1)) (cache_copy 0 (drop (nat ret) data) p)
          else if ret = int (length data) then Some (count, p\<lparr>plength := 0\<rparr>, d1)
          else map_option (\<lambda>p1. (count, p1\<lparr>plength := length data\<rparr>, d1)) (cache_copy 0 data p))"

definition snd_pcm_write ::
  "('d \<Rightarrow> u8 list \<Rightarrow> int \<times> 'd) \<Rightarrow> pcm_config \<Rightarrow> audio_card \<Rightarrow> u8 list \<Rightarrow> play_priv \<Rightarrow> 'd \<Rightarrow> (int \<times> play_priv \<times> 'd) option" where
  "snd_pcm_write hal cfg acard data p d =
     (if acard = SOUND_CARD_INTERNAL_DMIC then Some (-1, p, d)
      else (let buf_size = pcm_half cfg; len = int buf_size - int (plength p)
            in if plength p = 0 then write_rest hal data (int (length data)) p d
               else if pcache p = None then Some (-1, p, d)
               else if len > int (length data)
               then map_option (\<lambda>p1. (int (length data), p1\<lparr>plength := plength p + length data\<rparr>, d)) (cache_copy (plength p) data p)
               else if len < 0 then None
               else (case cache_copy (plength p) (take (nat len) data) p of
                       None \<Rightarrow> None
                     | Some p1 \<Rightarrow>
                         (case hal d (take buf_size (the (pcache p1))) of
                            (_, d1) \<Rightarrow> write_rest hal (drop (nat len) data) (int (length data)) (p1\<lparr>plength := 0\<rparr>) d1))))"

text \<open>Flushing: the cache is filled up with zeros and written, then two blocks of zeros.\<close>

definition snd_pcm_flush ::
  "('d \<Rightarrow> u8 list \<Rightarrow> int \<times> 'd) \<Rightarrow> pcm_config \<Rightarrow> audio_card \<Rightarrow> play_priv \<Rightarrow> 'd \<Rightarrow> (int \<times> play_priv \<times> 'd) option" where
  "snd_pcm_flush hal cfg acard p d =
     (if acard = SOUND_CARD_INTERNAL_DMIC \<or> pcache p = None then Some (-1, p, d)
      else (let buf_size = pcm_half cfg; zeros = replicate buf_size 0
            in if buf_size < plength p then None
               else (case (if plength p \<noteq> 0
                           then map_option (\<lambda>p1. (p1\<lparr>plength := 0\<rparr>, snd (hal d (take buf_size (the (pcache p1))))))
                                  (cache_copy (plength p) (replicate (buf_size - plength p) 0) p)
                           else Some (p, d)) of
                       None \<Rightarrow> None
                     | Some (p1, d1) \<Rightarrow>
                         map_option (\<lambda>p2. (0, p2, snd (hal (snd (hal d1 zeros)) zeros))) (cache_copy 0 zeros p1))))"

section \<open>Reading\<close>

text \<open>The number of bytes asked of the driver; a buffer size of 0 (a division by zero) gives 0 here.\<close>

definition snd_pcm_read ::
  "('d \<Rightarrow> nat \<Rightarrow> int \<times> u8 list \<times> 'd) \<Rightarrow> pcm_config \<Rightarrow> audio_card \<Rightarrow> nat \<Rightarrow> 'd \<Rightarrow> int \<times> u8 list \<times> 'd" where
  "snd_pcm_read hal_read cfg acard count d =
     (let buf_size = pcm_half cfg
      in if buf_size > count then (-1, [], d)
         else if acard \<noteq> SOUND_CARD_INTERNAL_DMIC then hal_read d (count div buf_size * buf_size)
         else (-1, [], d))"

section \<open>Opening and closing\<close>

definition AUDIO_IN_DEV_ALL :: u16 where "AUDIO_IN_DEV_ALL = push_bit 0 0x07"
definition AUDIO_OUT_DEV_ALL :: u16 where "AUDIO_OUT_DEV_ALL = push_bit 8 0x03"
definition AUDIO_IN_DEV_MAINMIC :: u16 where "AUDIO_IN_DEV_MAINMIC = push_bit 0 1"
definition AUDIO_IN_DEV_HEADPHONEMIC :: u16 where "AUDIO_IN_DEV_HEADPHONEMIC = push_bit 1 1"
definition AUDIO_OUT_DEV_SPEAKER :: u16 where "AUDIO_OUT_DEV_SPEAKER = push_bit 9 1"

record mgrctl_ctx =
  is_initialize :: bool
  playback :: bool
  mgr_record :: bool
  current_dev :: u16

text \<open>The locks are held from open to close.\<close>

record pcm_sys =
  mgr :: mgrctl_ctx
  play :: play_priv
  play_lock :: bool
  cap_lock :: bool

text \<open>\<open>hopen\<close>: the codec driver's open, given the size of the buffer; the answer \<open>None\<close> is to wait for a lock for ever.\<close>

definition snd_pcm_open ::
  "(nat \<Rightarrow> 'd \<Rightarrow> bool \<times> 'd) \<Rightarrow> bool \<Rightarrow> pcm_config \<Rightarrow> audio_card \<Rightarrow> bool \<Rightarrow> pcm_sys \<Rightarrow> 'd \<Rightarrow> (int \<times> pcm_sys \<times> 'd) option" where
  "snd_pcm_open hopen mem cfg acard out s d =
     (if acard = SOUND_CARD_INTERNAL_DMIC
      then (if out then Some (-1, s, d)
            else if cap_lock s then None
            else Some (0, s\<lparr>cap_lock := True, mgr := (mgr s)\<lparr>mgr_record := True\<rparr>\<rparr>, d))
      else (let dev = (if out then AUDIO_OUT_DEV_SPEAKER else AUDIO_IN_DEV_MAINMIC);
                isDevEnable = is_initialize (mgr s) \<and> and (current_dev (mgr s)) (if out then AUDIO_OUT_DEV_ALL else AUDIO_IN_DEV_ALL) \<noteq> 0;
                bufSize = unat (pcm_frames_to_bytes cfg (pcm_get_buffer_size cfg))
            in case hopen bufSize d of
                 (ok, d1) \<Rightarrow>
                   if \<not> ok then Some (-1, s, d1)
                   else (let s1 = (if isDevEnable then s else s\<lparr>mgr := (mgr s)\<lparr>current_dev := or (current_dev (mgr s)) dev\<rparr>\<rparr>)
                         in if out
                            then (if play_lock s1 then None
                                  else if \<not> mem then Some (-1, s1\<lparr>play := (play s1)\<lparr>pcache := None\<rparr>\<rparr>, d1)
                                  else Some (0, s1\<lparr>play_lock := True, play := \<lparr>pcache = Some (replicate (bufSize div 2) 0), plength = 0\<rparr>,
                                               mgr := (mgr s1)\<lparr>playback := True\<rparr>\<rparr>, d1))
                            else if cap_lock s1 then None
                            else Some (0, s1\<lparr>cap_lock := True, mgr := (mgr s1)\<lparr>mgr_record := True\<rparr>\<rparr>, d1))))"

definition snd_pcm_close :: "('d \<Rightarrow> 'd) \<Rightarrow> audio_card \<Rightarrow> bool \<Rightarrow> pcm_sys \<Rightarrow> 'd \<Rightarrow> int \<times> pcm_sys \<times> 'd" where
  "snd_pcm_close hclose acard out s d =
     (if acard = SOUND_CARD_INTERNAL_DMIC
      then (if out then (-1, s, d) else (0, s\<lparr>cap_lock := False, mgr := (mgr s)\<lparr>mgr_record := False\<rparr>\<rparr>, d))
      else if out
      then (0, s\<lparr>play := \<lparr>pcache = None, plength = 0\<rparr>, play_lock := False,
                 mgr := (mgr s)\<lparr>playback := False, current_dev := and (current_dev (mgr s)) (not AUDIO_OUT_DEV_ALL)\<rparr>\<rparr>, hclose d)
      else (0, s\<lparr>cap_lock := False, mgr := (mgr s)\<lparr>mgr_record := False,
                 current_dev := and (current_dev (mgr s)) (not (or AUDIO_IN_DEV_MAINMIC AUDIO_IN_DEV_HEADPHONEMIC))\<rparr>\<rparr>, hclose d))"

section \<open>Nothing is lost\<close>

text \<open>The cache has the size of a block and holds less than one.\<close>

definition cache_ok :: "nat \<Rightarrow> play_priv \<Rightarrow> bool" where
  "cache_ok h p \<longleftrightarrow> (\<exists>c. pcache p = Some c \<and> length c = h) \<and> plength p < h"

definition cached :: "play_priv \<Rightarrow> u8 list" where
  "cached p = take (plength p) (the (pcache p))"

lemma cache_copy_ok:
  assumes "cache_ok h p" "off + length bs \<le> h"
  shows "\<exists>c'. cache_copy off bs p = Some (p\<lparr>pcache := Some c'\<rparr>) \<and> length c' = h \<and>
    take (off + length bs) c' = take off (the (pcache p)) @ bs"
proof -
  obtain c where c: "pcache p = Some c" "length c = h" using assms(1) by (auto simp: cache_ok_def)
  have same: "p\<lparr>pcache := Some c\<rparr> = p" using c(1) by (cases p) simp
  show ?thesis
  proof (cases "bs = []")
    case True
    then show ?thesis using c same by (intro exI [of _ c]) (simp add: cache_copy_def)
  next
    case False
    have "take (off + length bs) (list_write c off bs) = take off c @ bs"
      using assms(2) c(2) by (simp add: list_write_def)
    then show ?thesis using False c assms(2) by (intro exI [of _ "list_write c off bs"]) (simp add: cache_copy_def)
  qed
qed

lemma cache_ok_upd: "length c = h \<Longrightarrow> n < h \<Longrightarrow> cache_ok h (p\<lparr>pcache := Some c, plength := n\<rparr>)"
  by (simp add: cache_ok_def)

context block_sink
begin

lemma write_rest_keeps:
  assumes "holds d m" "cache_ok h p"
  shows "\<exists>p' d' m'. write_rest write_dma data count p d = Some (count, p', d') \<and> holds d' m' \<and> cache_ok h p' \<and>
    m' @ cached p' = m @ data"
proof (cases "length data < h")
  case True
  obtain r where r: "write_dma d data = (r, d)" "r \<le> 0" using write_short [OF assms(1) True] by blast
  obtain c where c: "cache_copy 0 data p = Some (p\<lparr>pcache := Some c\<rparr>)" "length c = h" "take (length data) c = data"
    using cache_copy_ok [OF assms(2), of 0 data] True by auto
  show ?thesis
  proof (cases "data = []")
    case True
    then show ?thesis using r c assms
      by (cases "r = 0") (auto simp: write_rest_def cache_ok_def cached_def intro!: exI [of _ m])
  next
    case False
    then have "r \<noteq> int (length data)" using r(2) by auto
    then show ?thesis using r c assms(1) True
      by (intro exI [of _ "p\<lparr>pcache := Some c, plength := length data\<rparr>"] exI [of _ d] exI [of _ m])
        (simp add: write_rest_def cache_ok_def cached_def)
  qed
next
  case False
  define n where "n = length data div h * h"
  have hp: "0 < h" by (rule holds_pos [OF assms(1)])
  have n: "0 < n" "n \<le> length data" "length data - n < h"
    using False hp by (auto simp: n_def div_greater_zero_iff div_times_less_eq_dividend) (metis mod_less_divisor modulo_nat_def)
  obtain d' where d': "write_dma d data = (int n, d')" "holds d' (m @ take n data)"
    using write_whole [OF assms(1), of data] False unfolding n_def by auto
  show ?thesis
  proof (cases "n = length data")
    case True
    then show ?thesis using d' assms(2) hp
      by (intro exI [of _ "p\<lparr>plength := 0\<rparr>"] exI [of _ d'] exI [of _ "m @ data"]) (simp add: write_rest_def cache_ok_def cached_def)
  next
    case False
    obtain c where c: "cache_copy 0 (drop n data) p = Some (p\<lparr>pcache := Some c\<rparr>)" "length c = h" "take (length data - n) c = drop n data"
      using cache_copy_ok [OF assms(2), of 0 "drop n data"] n(3) by auto
    show ?thesis using d' c n False
      by (intro exI [of _ "p\<lparr>pcache := Some c, plength := length data - n\<rparr>"] exI [of _ d'] exI [of _ "m @ take n data"])
        (simp add: write_rest_def cache_ok_def cached_def)
  qed
qed

lemma pcm_write_keeps:
  assumes "holds d m" "cache_ok h p" "pcm_half cfg = h" "acard \<noteq> SOUND_CARD_INTERNAL_DMIC"
  shows "\<exists>p' d' m'. snd_pcm_write write_dma cfg acard data p d = Some (int (length data), p', d') \<and> holds d' m' \<and> cache_ok h p' \<and>
    m' @ cached p' = m @ cached p @ data"
proof (cases "plength p = 0")
  case True
  then show ?thesis using write_rest_keeps [OF assms(1,2), of data "int (length data)"] assms(3,4)
    by (simp add: snd_pcm_write_def Let_def cached_def)
next
  case False
  obtain c where c: "pcache p = Some c" "length c = h" "plength p < h" using assms(2) by (auto simp: cache_ok_def)
  define len where "len = h - plength p"
  have il: "int h - int (plength p) = int len" using c(3) by (simp add: len_def)
  show ?thesis
  proof (cases "length data < len")
    case True
    have "plength p + length data \<le> h" using True c(3) by (simp add: len_def)
    then obtain c' where c': "cache_copy (plength p) data p = Some (p\<lparr>pcache := Some c'\<rparr>)" "length c' = h"
        "take (plength p + length data) c' = take (plength p) c @ data"
      using cache_copy_ok [OF assms(2), of "plength p" data] c(1) by auto
    show ?thesis using True False c c' il assms(1,3,4)
      by (intro exI [of _ "p\<lparr>pcache := Some c', plength := plength p + length data\<rparr>"] exI [of _ d] exI [of _ m])
        (simp add: snd_pcm_write_def Let_def cache_ok_def cached_def len_def)
  next
    case F: False
    have "plength p + length (take len data) = h" using F c(3) by (simp add: len_def)
    then obtain c' where c': "cache_copy (plength p) (take len data) p = Some (p\<lparr>pcache := Some c'\<rparr>)" "length c' = h"
        "c' = take (plength p) c @ take len data"
      using cache_copy_ok [OF assms(2), of "plength p" "take len data"] c(1) by auto
    obtain d1 where d1: "write_dma d c' = (int h, d1)" "holds d1 (m @ c')" using write_one [OF assms(1) c'(2)] by blast
    define p1 where "p1 = p\<lparr>pcache := Some c', plength := 0\<rparr>"
    have p1: "cache_ok h p1" using c'(2) c(3) by (simp add: p1_def cache_ok_def)
    obtain p' d' m' where r: "write_rest write_dma (drop len data) (int (length data)) p1 d1 = Some (int (length data), p', d')"
        "holds d' m'" "cache_ok h p'" "m' @ cached p' = (m @ c') @ drop len data"
      using write_rest_keeps [OF d1(2) p1, of "drop len data" "int (length data)"] by blast
    have "snd_pcm_write write_dma cfg acard data p d = write_rest write_dma (drop len data) (int (length data)) p1 d1"
      using False F c(1) c'(1,2) d1(1) il assms(3,4) by (simp add: snd_pcm_write_def Let_def p1_def)
    moreover have "m' @ cached p' = m @ cached p @ data" using r(4) c'(3) c(1) by (simp add: cached_def)
    ultimately show ?thesis using r by auto
  qed
qed

lemma pcm_flush_keeps:
  assumes "holds d m" "cache_ok h p" "pcm_half cfg = h" "acard \<noteq> SOUND_CARD_INTERNAL_DMIC"
  shows "\<exists>p' d'. snd_pcm_flush write_dma cfg acard p d = Some (0, p', d') \<and> cache_ok h p' \<and> plength p' = 0 \<and>
    holds d' (m @ cached p @ replicate (if plength p = 0 then 0 else h - plength p) 0 @ replicate (2 * h) 0)"
proof -
  obtain c where c: "pcache p = Some c" "length c = h" "plength p < h" using assms(2) by (auto simp: cache_ok_def)
  define fill where "fill = (if plength p = 0 then [] else replicate (h - plength p) (0 :: u8))"
  have "\<exists>p1 d1. (if plength p \<noteq> 0
      then map_option (\<lambda>p1. (p1\<lparr>plength := 0\<rparr>, snd (write_dma d (take h (the (pcache p1))))))
             (cache_copy (plength p) (replicate (h - plength p) 0) p)
      else Some (p, d)) = Some (p1, d1) \<and> holds d1 (m @ cached p @ fill) \<and> cache_ok h p1 \<and> plength p1 = 0"
  proof (cases "plength p = 0")
    case True
    then show ?thesis using assms(1,2) by (simp add: fill_def cached_def)
  next
    case False
    obtain c' where c': "cache_copy (plength p) (replicate (h - plength p) 0) p = Some (p\<lparr>pcache := Some c'\<rparr>)" "length c' = h"
        "c' = take (plength p) c @ replicate (h - plength p) 0"
      using cache_copy_ok [OF assms(2), of "plength p" "replicate (h - plength p) 0"] c by auto
    obtain d1 where "write_dma d c' = (int h, d1)" "holds d1 (m @ c')" using write_one [OF assms(1) c'(2)] by blast
    then show ?thesis using False c c' by (simp add: fill_def cached_def cache_ok_def)
  qed
  then obtain p1 d1 where p1: "(if plength p \<noteq> 0
      then map_option (\<lambda>p1. (p1\<lparr>plength := 0\<rparr>, snd (write_dma d (take h (the (pcache p1))))))
             (cache_copy (plength p) (replicate (h - plength p) 0) p)
      else Some (p, d)) = Some (p1, d1)" "holds d1 (m @ cached p @ fill)" "cache_ok h p1" "plength p1 = 0" by blast
  define z where "z = replicate h (0 :: u8)"
  obtain c2 where c2: "cache_copy 0 z p1 = Some (p1\<lparr>pcache := Some c2\<rparr>)" "length c2 = h"
    using cache_copy_ok [OF p1(3), of 0 z] by (auto simp: z_def)
  obtain d2 where d2: "write_dma d1 z = (int h, d2)" "holds d2 ((m @ cached p @ fill) @ z)" using write_one [OF p1(2), of z] by (auto simp: z_def)
  obtain d3 where d3: "write_dma d2 z = (int h, d3)" "holds d3 (((m @ cached p @ fill) @ z) @ z)" using write_one [OF d2(2), of z] by (auto simp: z_def)
  have "snd_pcm_flush write_dma cfg acard p d = Some (0, p1\<lparr>pcache := Some c2\<rparr>, d3)"
    using p1(1) c c2(1) d2(1) d3(1) assms(3,4) by (simp add: snd_pcm_flush_def Let_def z_def [symmetric])
  moreover have "z @ z = replicate (2 * h) 0" by (simp add: z_def mult_2 replicate_add)
  moreover have "fill = replicate (if plength p = 0 then 0 else h - plength p) 0" by (simp add: fill_def)
  ultimately show ?thesis using d3(2) c2(2) p1(4) c(3) by (intro exI [of _ "p1\<lparr>pcache := Some c2\<rparr>"] exI [of _ d3]) (simp add: cache_ok_def)
qed

end

text \<open>Several writes.\<close>

fun pcm_writes ::
  "('d \<Rightarrow> u8 list \<Rightarrow> int \<times> 'd) \<Rightarrow> pcm_config \<Rightarrow> audio_card \<Rightarrow> u8 list list \<Rightarrow> play_priv \<Rightarrow> 'd \<Rightarrow> (play_priv \<times> 'd) option" where
  "pcm_writes hal cfg acard [] p d = Some (p, d)"
| "pcm_writes hal cfg acard (x # xs) p d =
     (case snd_pcm_write hal cfg acard x p d of None \<Rightarrow> None | Some (_, p1, d1) \<Rightarrow> pcm_writes hal cfg acard xs p1 d1)"

context block_sink
begin

lemma pcm_writes_keep:
  assumes "holds d m" "cache_ok h p" "pcm_half cfg = h" "acard \<noteq> SOUND_CARD_INTERNAL_DMIC"
  shows "\<exists>p' d' m'. pcm_writes write_dma cfg acard xs p d = Some (p', d') \<and> holds d' m' \<and> cache_ok h p' \<and>
    m' @ cached p' = m @ cached p @ concat xs"
  using assms(1,2)
proof (induction xs arbitrary: d m p)
  case (Cons x xs)
  obtain p1 d1 m1 where w: "snd_pcm_write write_dma cfg acard x p d = Some (int (length x), p1, d1)" "holds d1 m1" "cache_ok h p1"
      "m1 @ cached p1 = m @ cached p @ x"
    using pcm_write_keeps [OF Cons.prems assms(3,4), of x] by blast
  obtain p' d' m' where r: "pcm_writes write_dma cfg acard xs p1 d1 = Some (p', d')" "holds d' m'" "cache_ok h p'"
      "m' @ cached p' = m1 @ cached p1 @ concat xs"
    using Cons.IH [OF w(2,3)] by blast
  have "m1 @ cached p1 @ concat xs = m @ cached p @ x @ concat xs" using w(4) by (metis append.assoc)
  then show ?case using w(1) r by auto
qed auto

end

section \<open>Properties\<close>

lemma tx_holds_plays:
  assumes "tx_holds h s m" "m \<noteq> []"
  shows "\<exists>W. concat W = m \<and> (\<forall>b\<in>set W. length b = h) \<and> stream_of h W = tx_queue s"
proof -
  obtain W where W: "tx_given s W" "concat W = m" "\<forall>b\<in>set W. length b = h" "tx_half s = h"
    using assms(1) by (auto simp: tx_holds_def)
  have "W \<noteq> []" using W(2) assms(2) by auto
  then have "tx_queue s = stream_of h W" using W(1,4) by (simp add: tx_given_def tx_order_def Let_def)
  then show ?thesis using W by auto
qed

lemma opened_holds:
  assumes "0 < h"
  shows "tx_holds h (snd (i2s_open_tx True True (2 * h) no_tx)) []"
proof -
  have "tx_inv (tx_opened h)" "tx_order (tx_opened h)" using tx_opened_inv [OF assms] by simp_all
  moreover have "unanswered (tx (tx_opened h)) = 0" "\<not> tx_suspend (tx (tx_opened h))"
    by (simp_all add: tx_opened_def i2s_open_tx_def no_tx_def)
  ultimately show ?thesis using tx_opened_inv [OF assms] assms
    by (auto simp: tx_holds_def tx_given_def tx_opened_def intro!: exI [of _ "[]"])
qed

lemma open_playback:
  assumes "hopen (unat (pcm_frames_to_bytes cfg (pcm_get_buffer_size cfg))) d = (True, d1)" "\<not> play_lock s"
    "acard \<noteq> SOUND_CARD_INTERNAL_DMIC"
  shows "\<exists>s1. snd_pcm_open hopen True cfg acard True s d = Some (0, s1, d1) \<and>
    play s1 = \<lparr>pcache = Some (replicate (unat (pcm_frames_to_bytes cfg (pcm_get_buffer_size cfg)) div 2) 0), plength = 0\<rparr>"
  using assms
  by (cases "is_initialize (mgr s) \<and> and (current_dev (mgr s)) AUDIO_OUT_DEV_ALL \<noteq> 0")
    (simp_all only: snd_pcm_open_def Let_def, simp_all)

definition i2s_open :: "nat \<Rightarrow> tx_dev \<Rightarrow> bool \<times> tx_dev" where
  "i2s_open n d = (case i2s_open_tx True True n d of (st, d1) \<Rightarrow> (st = HAL_OK, d1))"

abbreviation i2s_write :: "tx_dev \<Rightarrow> u8 list \<Rightarrow> int \<times> tx_dev" where
  "i2s_write d bs \<equiv> HAL_I2S_Write_DMA bs d"


definition small_cfg :: pcm_config where
  "small_cfg = \<lparr>channels = 1, rate = 8000, period_size = 1, period_count = 2, pcm_fmt = PCM_FORMAT_S16_LE, mix_mode = 0\<rparr>"

definition idle_pcm :: pcm_sys where
  "idle_pcm = \<lparr>mgr = \<lparr>is_initialize = False, playback = False, mgr_record = False, current_dev = 0\<rparr>,
     play = \<lparr>pcache = None, plength = 0\<rparr>, play_lock = False, cap_lock = False\<rparr>"

lemma small_cfg_half: "unat (pcm_frames_to_bytes small_cfg (pcm_get_buffer_size small_cfg)) = 2 * 2"
  by (simp add: small_cfg_def pcm_frames_to_bytes_def pcm_get_buffer_size_def drop_bit_eq_div)


text \<open>While the driver is suspended a write that does not fit the cache stores behind it: the driver takes nothing
  and the data is copied whatever its size.\<close>

lemma pcm_suspended_overrun:
  assumes "tx_suspend d" "plength p = 0" "pcache p = Some c" "length c < length data" "acard = SOUND_CARD_EXTERNAL_AUDIOCODEC"
  shows "snd_pcm_write i2s_write cfg acard data p d = None"
proof -
  have "i2s_write d data = (0, d)" using assms(1,4) by (auto simp: HAL_I2S_Write_DMA_def)
  moreover have "data \<noteq> []" using assms(4) by auto
  ultimately show ?thesis using assms by (simp add: snd_pcm_write_def Let_def write_rest_def cache_copy_def)
qed

lemma pcm_suspended_overrun_witness:
  "snd_pcm_write i2s_write small_cfg SOUND_CARD_EXTERNAL_AUDIOCODEC [1, 2, 3] \<lparr>pcache = Some [0, 0], plength = 0\<rparr>
     (no_tx\<lparr>tx_suspend := True\<rparr>) = None"
  by (rule pcm_suspended_overrun [where c = "[0, 0]", OF _ _ _ _ refl]) simp_all

end
