(* ===== verification/Audio_Rec.thy ===== *)
theory Audio_Rec
  imports Pcm
begin

text \<open>
  Recording through the circular buffer, the receiving half of src/driver/chip/hal_i2s.c and
  src/driver/chip/codec/hal_audiocodec.c. \<open>mic k\<close> is what the hardware stores in the k-th half it fills; the
  reader waits for the end of a half and copies the one that is not being filled.
\<close>

section \<open>State and interrupts\<close>

record rx_dev =
  isRxInitiate :: bool
  rx_suspend :: bool
  rxDMAChan :: bool
  rxBuf :: "u8 list"
  rxBufSize :: nat
  rxRunning :: bool
  readPointer :: "nat option"
  rxDmaPointer :: "nat option"
  rxHalfCallCount :: nat
  rxEndCallCount :: nat
  rxReady :: semaphore
  isRxSemaphore :: bool
  rx_at :: "nat option"
  rx_taken :: nat

abbreviation rx_half :: "rx_dev \<Rightarrow> nat" where "rx_half s \<equiv> rxBufSize s div 2"

definition OVERRUN_THRESHOLD :: nat where "OVERRUN_THRESHOLD = 3"

definition rx_trigger :: "bool \<Rightarrow> rx_dev \<Rightarrow> rx_dev" where
  "rx_trigger enable s =
     (if enable then (if rxDMAChan s then s\<lparr>rx_at := Some 0, rxRunning := True\<rparr> else s\<lparr>rxRunning := True\<rparr>)
      else (if rxDMAChan s then s\<lparr>rx_at := None, rxRunning := False\<rparr> else s\<lparr>rxRunning := False\<rparr>))"

definition rx_threshold :: "rx_dev \<Rightarrow> bool \<times> rx_dev" where
  "rx_threshold s =
     (if rxHalfCallCount s \<ge> OVERRUN_THRESHOLD \<or> rxEndCallCount s \<ge> OVERRUN_THRESHOLD
      then (True, (rx_trigger False s)\<lparr>rxRunning := False, rxHalfCallCount := 0, rxEndCallCount := 0, readPointer := None,
                    rxDmaPointer := None\<rparr>)
      else (False, s))"

definition rx_release :: "rx_dev \<Rightarrow> rx_dev" where
  "rx_release s = (if isRxSemaphore s then s\<lparr>isRxSemaphore := False, rxReady := snd (OS_SemaphoreRelease (rxReady s))\<rparr> else s)"

definition rx_half_callback :: "rx_dev \<Rightarrow> rx_dev" where
  "rx_half_callback s =
     (case rx_threshold (rx_release (s\<lparr>rxHalfCallCount := rxHalfCallCount s + 1\<rparr>)) of
        (stopped, s1) \<Rightarrow> if stopped then s1 else s1\<lparr>rxDmaPointer := Some (rx_half s1)\<rparr>)"

definition rx_end_callback :: "rx_dev \<Rightarrow> rx_dev" where
  "rx_end_callback s =
     (case rx_threshold (rx_release (s\<lparr>rxEndCallCount := rxEndCallCount s + 1\<rparr>)) of
        (stopped, s1) \<Rightarrow> if stopped then s1 else s1\<lparr>rxDmaPointer := Some 0\<rparr>)"

definition rx_cross :: "(nat \<Rightarrow> u8 list) \<Rightarrow> rx_dev \<Rightarrow> rx_dev" where
  "rx_cross mic s =
     (case rx_at s of
        None \<Rightarrow> s
      | Some off \<Rightarrow>
          (let s1 = s\<lparr>rxBuf := list_write (rxBuf s) off (mic (rx_taken s)), rx_taken := rx_taken s + 1\<rparr>
           in if off = 0 then rx_half_callback (s1\<lparr>rx_at := Some (rx_half s)\<rparr>) else rx_end_callback (s1\<lparr>rx_at := Some 0\<rparr>)))"

section \<open>Reading\<close>

definition rx_take :: "rx_dev \<Rightarrow> rx_dev" where
  "rx_take s =
     (if rxHalfCallCount s > 0 \<and> rxEndCallCount s > 0 then s\<lparr>rxHalfCallCount := 0, rxEndCallCount := 0\<rparr>
      else s\<lparr>rxHalfCallCount := rxHalfCallCount s - 1, rxEndCallCount := rxEndCallCount s - 1\<rparr>)"

text \<open>One block of a running device; the hardware comes to the end of a half while the reader waits, and not before.\<close>

definition read_block :: "(nat \<Rightarrow> u8 list) \<Rightarrow> rx_dev \<Rightarrow> u8 list \<times> rx_dev" where
  "read_block mic s =
     (let s1 = (if rxHalfCallCount s > 0 \<or> rxEndCallCount s > 0 then rx_take s
                else (let s2 = rx_cross mic (s\<lparr>isRxSemaphore := True\<rparr>)
                      in rx_take (s2\<lparr>rxReady := snd (OS_SemaphoreWait False (rxReady s2) 0xFFFFFFFF)\<rparr>)));
          off = (if rxDmaPointer s1 = Some 0 then rx_half s1 else 0)
      in (take (rx_half s1) (drop off (rxBuf s1)), s1))"

text \<open>The loop of the I2S driver over the reader's buffer: starting the device takes no data.\<close>

function i2s_read_loop :: "(nat \<Rightarrow> u8 list) \<Rightarrow> nat \<Rightarrow> u8 list \<Rightarrow> rx_dev \<Rightarrow> u8 list \<times> rx_dev" where
  "i2s_read_loop mic readSize buf s =
     (if readSize = 0 \<or> length buf < readSize then (buf, s)
      else (let s0 = (if rxRunning s then s else rx_trigger True s)
            in case read_block mic s0 of
                 (bs, s1) \<Rightarrow> (case i2s_read_loop mic readSize (drop readSize buf) s1 of (rest, s2) \<Rightarrow> (bs @ rest, s2))))"
  by pat_completeness auto
termination
  by (relation "measure (\<lambda>(_, _, buf, _). length buf)") auto

text \<open>The loop of the internal codec: starting the device counts as a block.\<close>

function codec_read_loop :: "(nat \<Rightarrow> u8 list) \<Rightarrow> nat \<Rightarrow> u8 list \<Rightarrow> rx_dev \<Rightarrow> u8 list \<times> rx_dev" where
  "codec_read_loop mic readSize buf s =
     (if readSize = 0 \<or> length buf < readSize then (buf, s)
      else (case (if rxRunning s then read_block mic s else (take readSize buf, rx_trigger True s)) of
              (bs, s1) \<Rightarrow> (case codec_read_loop mic readSize (drop readSize buf) s1 of (rest, s2) \<Rightarrow> (bs @ rest, s2))))"
  by pat_completeness auto
termination
  by (relation "measure (\<lambda>(_, _, buf, _). length buf)") auto

declare i2s_read_loop.simps [simp del] codec_read_loop.simps [simp del]

text \<open>The reader's buffer before and after; the result is the number of bytes reported.\<close>

definition HAL_I2S_Read_DMA :: "(nat \<Rightarrow> u8 list) \<Rightarrow> u8 list \<Rightarrow> rx_dev \<Rightarrow> int \<times> u8 list \<times> rx_dev" where
  "HAL_I2S_Read_DMA mic buf s =
     (if buf = [] then (HAL_INVALID_int, buf, s)
      else if rx_suspend s then (0, buf, s)
      else if rx_half s = 0 then (-1, buf, s)
      else if length buf < rx_half s then (-1, buf, s)
      else (int (length buf div rx_half s * rx_half s), i2s_read_loop mic (rx_half s) buf s))"

definition CODEC_Read_DMA :: "(nat \<Rightarrow> u8 list) \<Rightarrow> u8 list \<Rightarrow> rx_dev \<Rightarrow> int \<times> u8 list \<times> rx_dev" where
  "CODEC_Read_DMA mic buf s =
     (if buf = [] then (HAL_INVALID_int, buf, s)
      else (int (length buf div rx_half s * rx_half s), codec_read_loop mic (rx_half s) buf s))"

definition i2s_open_rx :: "bool \<Rightarrow> bool \<Rightarrow> nat \<Rightarrow> rx_dev \<Rightarrow> HAL_Status \<times> rx_dev" where
  "i2s_open_rx mem chan bufSize s =
     (if isRxInitiate s then (HAL_ERROR, s)
      else (let s1 = s\<lparr>isRxInitiate := True, rxDMAChan := False, rxBufSize := bufSize, rxHalfCallCount := 0, rxEndCallCount := 0\<rparr>
            in if \<not> mem then (HAL_ERROR, s1)
               else if \<not> chan then (HAL_ERROR, s1\<lparr>rxBuf := []\<rparr>)
               else (HAL_OK, s1\<lparr>rxBuf := replicate bufSize 0, rxDMAChan := True, rxReady := \<lparr>sem_count = 0, sem_max = 1\<rparr>\<rparr>)))"

definition i2s_close_rx :: "rx_dev \<Rightarrow> rx_dev" where
  "i2s_close_rx s =
     (rx_trigger False s)\<lparr>isRxInitiate := False, rxRunning := False, rxDMAChan := False, rxBuf := [], rxBufSize := 0,
       readPointer := None, rxHalfCallCount := 0, rxEndCallCount := 0\<rparr>"

section \<open>The halves are read as they are filled\<close>

text \<open>A device between two reads, all in time.\<close>

definition rx_good :: "nat \<Rightarrow> rx_dev \<Rightarrow> bool" where
  "rx_good h s \<longleftrightarrow>
     0 < h \<and> rxBufSize s = 2 * h \<and> length (rxBuf s) = 2 * h \<and> rxDMAChan s \<and> \<not> isRxSemaphore s \<and>
     rxReady s = \<lparr>sem_count = 0, sem_max = 1\<rparr> \<and> rxHalfCallCount s = 0 \<and> rxEndCallCount s = 0 \<and>
     (rxRunning s \<longrightarrow> rx_at s = Some 0 \<or> rx_at s = Some h)"

lemma read_block_good:
  assumes "rx_good h s" "rxRunning s" "length (mic (rx_taken s)) = h"
  shows "\<exists>s'. read_block mic s = (mic (rx_taken s), s') \<and> rx_good h s' \<and> rxRunning s' \<and> rx_taken s' = rx_taken s + 1"
proof -
  define b where "b = mic (rx_taken s)"
  have g: "0 < h" "rx_half s = h" "length (rxBuf s) = 2 * h" "length b = h" using assms by (auto simp: rx_good_def b_def)
  have at: "rx_at s = Some 0 \<or> rx_at s = Some h" using assms(1,2) by (simp add: rx_good_def)
  define s1 where "s1 = s\<lparr>rxBuf := list_write (rxBuf s) (the (rx_at s)) b, rx_taken := rx_taken s + 1, rxReady := \<lparr>sem_count = 0, sem_max = 1\<rparr>,
    rx_at := Some (h - the (rx_at s)), rxDmaPointer := Some (h - the (rx_at s))\<rparr>"
  have "the (rx_at s) + length b \<le> length (rxBuf s)" using at g by auto
  then have rd: "take h (drop (the (rx_at s)) (rxBuf s1)) = b" using slice_list_write [of "the (rx_at s)" b "rxBuf s"] g(4) by (simp add: s1_def)
  have eq: "read_block mic s = (take h (drop (the (rx_at s)) (rxBuf s1)), s1)"
    using at
  proof
    assume "rx_at s = Some 0"
    then show ?thesis using assms(1,2) g
      by (simp add: read_block_def rx_cross_def rx_half_callback_def rx_release_def rx_threshold_def OVERRUN_THRESHOLD_def rx_take_def
          OS_SemaphoreRelease_def OS_SemaphoreWait_def rx_good_def Let_def s1_def b_def)
  next
    assume "rx_at s = Some h"
    then show ?thesis using assms(1,2) g
      by (simp add: read_block_def rx_cross_def rx_end_callback_def rx_release_def rx_threshold_def OVERRUN_THRESHOLD_def rx_take_def
          OS_SemaphoreRelease_def OS_SemaphoreWait_def rx_good_def Let_def s1_def b_def)
  qed
  have "rx_good h s1" "rxRunning s1" "rx_taken s1 = rx_taken s + 1" using assms(1,2) at by (auto simp: rx_good_def s1_def)
  then show ?thesis using eq rd by (simp add: b_def)
qed

lemma i2s_loop_good:
  assumes "rx_good h s" "rxRunning s" "\<forall>k. length (mic k) = h"
  shows "\<exists>s'. i2s_read_loop mic h buf s =
      (concat (map mic [rx_taken s..<rx_taken s + length buf div h]) @ drop (length buf div h * h) buf, s') \<and>
    rx_good h s' \<and> rxRunning s' \<and> rx_taken s' = rx_taken s + length buf div h"
  using assms(1,2)
proof (induction buf arbitrary: s rule: length_induct)
  case (1 buf)
  have hp: "0 < h" using 1(2) by (simp add: rx_good_def)
  show ?case
  proof (cases "length buf < h")
    case True
    then show ?thesis using 1(2,3) by (subst i2s_read_loop.simps) simp
  next
    case False
    obtain s1 where s1: "read_block mic s = (mic (rx_taken s), s1)" "rx_good h s1" "rxRunning s1" "rx_taken s1 = rx_taken s + 1"
      using read_block_good [OF 1(2,3)] assms(3) by blast
    have l: "length (drop h buf) < length buf" using False hp by simp
    define n where "n = length (drop h buf) div h"
    have d: "length buf div h = Suc n" using False hp by (simp add: n_def le_div_geq)
    obtain s2 where s2: "i2s_read_loop mic h (drop h buf) s1 = (concat (map mic [rx_taken s1..<rx_taken s1 + n]) @ drop (n * h) (drop h buf), s2)"
        "rx_good h s2" "rxRunning s2" "rx_taken s2 = rx_taken s1 + n"
      using 1(1) [rule_format, OF l s1(2,3)] unfolding n_def by blast
    have "[rx_taken s..<rx_taken s + Suc n] = rx_taken s # [Suc (rx_taken s)..<Suc (rx_taken s) + n]" by (simp add: upt_conv_Cons)
    moreover have "drop (n * h) (drop h buf) = drop (Suc n * h) buf" by (simp add: add.commute)
    ultimately have "i2s_read_loop mic h buf s = (concat (map mic [rx_taken s..<rx_taken s + Suc n]) @ drop (Suc n * h) buf, s2)"
      using False hp s1 s2(1) 1(3) by (subst i2s_read_loop.simps) (simp add: Let_def)
    then show ?thesis using s2 s1(4) d by simp
  qed
qed

lemma codec_loop_good:
  assumes "rx_good h s" "rxRunning s" "\<forall>k. length (mic k) = h"
  shows "codec_read_loop mic h buf s = i2s_read_loop mic h buf s"
  using assms(1,2)
proof (induction buf arbitrary: s rule: length_induct)
  case (1 buf)
  have hp: "0 < h" using 1(2) by (simp add: rx_good_def)
  show ?case
  proof (cases "length buf < h")
    case True
    then show ?thesis by (subst i2s_read_loop.simps, subst codec_read_loop.simps) simp
  next
    case False
    obtain s1 where s1: "read_block mic s = (mic (rx_taken s), s1)" "rx_good h s1" "rxRunning s1"
      using read_block_good [OF 1(2,3)] assms(3) by blast
    have l: "length (drop h buf) < length buf" using False hp by simp
    have "codec_read_loop mic h (drop h buf) s1 = i2s_read_loop mic h (drop h buf) s1" using 1(1) l s1(2,3) by blast
    then show ?thesis using False hp s1 1(3) by (subst i2s_read_loop.simps, subst codec_read_loop.simps) (simp add: Let_def)
  qed
qed

lemma rx_start_good: "rx_good h s \<Longrightarrow> rx_good h (rx_trigger True s) \<and> rxRunning (rx_trigger True s) \<and> rx_taken (rx_trigger True s) = rx_taken s"
  by (simp add: rx_good_def rx_trigger_def)

section \<open>Properties\<close>

text \<open>On a device that does not run yet, reading through the I2S driver gives the halves the hardware fills, in
  order. The internal codec counts the start of the device as a block: the first block of the result is
  whatever the reader's buffer held before, and the recorded halves follow one block late.\<close>

lemma first_block_of_a_recording:
  assumes "rx_good h s" "\<not> rxRunning s" "\<not> rx_suspend s" "rx_taken s = 0" "\<forall>k. length (mic k) = h" "length buf = n * h" "0 < n"
  shows "\<exists>s1 s2. HAL_I2S_Read_DMA mic buf s = (int (n * h), concat (map mic [0..<n]), s1) \<and>
    CODEC_Read_DMA mic buf s = (int (n * h), take h buf @ concat (map mic [0..<n - 1]), s2)"
proof -
  have g: "0 < h" "rx_half s = h" using assms(1) by (auto simp: rx_good_def)
  have l: "buf \<noteq> []" "\<not> length buf < h" "length buf div h = n" using assms(6,7) g(1) by auto
  define s0 where "s0 = rx_trigger True s"
  have s0: "rx_good h s0" "rxRunning s0" "rx_taken s0 = 0" using rx_start_good [OF assms(1)] assms(4) by (simp_all add: s0_def)
  have i: "i2s_read_loop mic h buf s = i2s_read_loop mic h buf s0"
    using l g(1) assms(2) s0(2) by (subst (1 2) i2s_read_loop.simps) (simp add: s0_def)
  obtain s1 where s1: "i2s_read_loop mic h buf s0 = (concat (map mic [0..<n]), s1)"
    using i2s_loop_good [OF s0(1,2) assms(5), of buf] s0(3) l assms(6) by auto
  have c: "codec_read_loop mic h buf s = (case i2s_read_loop mic h (drop h buf) s0 of (rest, s2) \<Rightarrow> (take h buf @ rest, s2))"
    using l g(1) assms(2) codec_loop_good [OF s0(1,2) assms(5)] by (subst codec_read_loop.simps) (simp add: s0_def)
  have ld: "length (drop h buf) = (n - 1) * h" using assms(6) by (simp add: diff_mult_distrib)
  obtain s2 where s2: "i2s_read_loop mic h (drop h buf) s0 = (concat (map mic [0..<n - 1]), s2)"
    using i2s_loop_good [OF s0(1,2) assms(5), of "drop h buf"] s0(3) ld g(1) by auto
  show ?thesis using i s1 c s2 l g assms(3,6) by (simp add: HAL_I2S_Read_DMA_def CODEC_Read_DMA_def)
qed

definition rx_ready :: rx_dev where
  "rx_ready =
     \<lparr>isRxInitiate = True, rx_suspend = False, rxDMAChan = True, rxBuf = [0, 0], rxBufSize = 2, rxRunning = False, readPointer = None,
      rxDmaPointer = None, rxHalfCallCount = 0, rxEndCallCount = 0, rxReady = \<lparr>sem_count = 0, sem_max = 1\<rparr>, isRxSemaphore = False,
      rx_at = None, rx_taken = 0\<rparr>"

lemma first_block_of_a_recording_witness:
  "\<exists>s1 s2. HAL_I2S_Read_DMA (\<lambda>k. [of_nat k + 5]) [9, 9] rx_ready = (2, [5, 6], s1) \<and>
    CODEC_Read_DMA (\<lambda>k. [of_nat k + 5]) [9, 9] rx_ready = (2, [9, 5], s2)"
  using first_block_of_a_recording [of 1 rx_ready "\<lambda>k. [of_nat k + 5]" "[9, 9]" 2]
  by (simp add: rx_ready_def rx_good_def upt_rec numeral_2_eq_2)

end
