(* ===== verification/At_Config.thy ===== *)
theory At_Config
  imports At_Parameter
begin

text \<open>
  The configuration and status variables of the AT commands: src/atcmd/at_config.c, src/atcmd/at_status.c
  and the structures of include/atcmd/at_config.h and include/atcmd/at_status.h. A structure is the list
  of its bytes, laid out as the compiler does; the tables of variables hold the offset of each variable,
  so that a store that runs over the end of a variable changes the variables behind it, as in the code.
  C strings end at their first zero. Integers are little endian.
\<close>

unbundle bit_operations_syntax

section \<open>Layout of the structures\<close>

text \<open>A field has a name, an alignment and a size.\<close>

type_synonym field = "string \<times> nat \<times> nat"

definition text_field :: "string \<Rightarrow> nat \<Rightarrow> field" where "text_field name n = (name, 1, n)"
definition word_field :: "string \<Rightarrow> field" where "word_field name = (name, 4, 4)"

definition at_config_t :: "field list" where
  "at_config_t =
    [text_field ''nv_manuf'' 32, text_field ''nv_model'' 32, text_field ''nv_serial'' 32,
     text_field ''nv_wifi_macaddr'' 6, word_field ''blink_led'', word_field ''wind_off_low'',
     word_field ''wind_off_medium'', word_field ''wind_off_high'', text_field ''user_desc'' 64,
     text_field ''escape_seq'' 8, word_field ''localecho1'', word_field ''console1_speed'',
     word_field ''console1_hwfc'', word_field ''console1_enabled'', word_field ''sleep_enabled'',
     word_field ''standby_enabled'', word_field ''standby_time'', word_field ''wifi_tx_msdu_lifetime'',
     word_field ''wifi_rx_msdu_lifetime'', word_field ''wifi_operational_mode'',
     word_field ''wifi_beacon_wakeup'', word_field ''wifi_beacon_interval'',
     word_field ''wifi_listen_interval'', word_field ''wifi_rts_threshold'', text_field ''wifi_ssid'' 32,
     word_field ''wifi_ssid_len'', word_field ''wifi_channelnum'', word_field ''wifi_opr_rate_mask'',
     word_field ''wifi_bas_rate_mask'', word_field ''wifi_mode'', word_field ''wifi_auth_type'',
     word_field ''wifi_powersave'', word_field ''wifi_tx_power'', word_field ''wifi_rssi_thresh'',
     word_field ''wifi_rssi_hyst'', word_field ''wifi_ap_idle_timeout'',
     word_field ''wifi_beacon_loss_thresh'', word_field ''wifi_priv_mode'', text_field ''wifi_wep_keys'' 64,
     text_field ''wifi_wep_key_lens'' 4, word_field ''wifi_wep_default_key'',
     text_field ''wifi_wpa_psk_raw'' 32, text_field ''wifi_wpa_psk_text'' 64, word_field ''ip_use_dhcp'',
     word_field ''ip_use_httpd'', word_field ''ip_mtu'', text_field ''ip_hostname'' 32,
     text_field ''ip_apdomainname'' 32, text_field ''ip_ipaddr'' 4, text_field ''ip_netmask'' 4,
     text_field ''ip_gw'' 4, text_field ''ip_dns'' 4, word_field ''ip_http_get_recv_timeout'',
     word_field ''ip_dhcp_timeout'', word_field ''ip_sockd_timeout'']"

definition at_status_t :: "field list" where
  "at_status_t =
    [text_field ''version'' 32, word_field ''reset_reason'', word_field ''conf_flag'',
     word_field ''system_uptime'', word_field ''system_sleeptime'', word_field ''gpio_enable'',
     word_field ''captiveportal'', word_field ''wifi_state'', text_field ''wifi_bssid'' 6,
     word_field ''wifi_aid'', word_field ''wifi_channelnum'', word_field ''wifi_sup_rate_mask'',
     word_field ''wifi_bas_rate_mask'', word_field ''wifi_chan_activity2'', word_field ''wifi_max_tx_power'',
     word_field ''wifi_reg_country'', word_field ''wifi_dtim_period'', word_field ''wifi_sleeping'',
     word_field ''wifi_num_assoc'', text_field ''ip_ipaddr'' 4, text_field ''ip_netmask'' 4,
     text_field ''ip_gw'' 4, text_field ''ip_dns'' 4, word_field ''ip_sock_open'',
     word_field ''ip_sockd_port'', word_field ''free_heap'', word_field ''min_heap'',
     word_field ''current_time'']"

fun place :: "nat \<Rightarrow> field list \<Rightarrow> (string \<times> nat \<times> nat) list" where
  "place off [] = []"
| "place off ((name, align, sz) # fs) =
     (let o1 = (off + align - 1) div align * align in (name, o1, sz) # place (o1 + sz) fs)"

definition offsetof :: "field list \<Rightarrow> string \<Rightarrow> nat" where
  "offsetof fs name = (case map_of (place 0 fs) name of Some (off, _) \<Rightarrow> off | None \<Rightarrow> 0)"

definition size_of :: "field list \<Rightarrow> string \<Rightarrow> nat" where
  "size_of fs name = (case map_of (place 0 fs) name of Some (_, sz) \<Rightarrow> sz | None \<Rightarrow> 0)"

definition struct_size :: "field list \<Rightarrow> nat" where
  "struct_size fs = (case rev (place 0 fs) of [] \<Rightarrow> 0 | (_, off, sz) # _ \<Rightarrow> off + sz)"

section \<open>Variables\<close>

datatype AT_PARA_OPTION = APO_RO | APO_RW

record at_var_descriptor_t =
  v_key :: string
  v_pt :: AT_PARA_TYPE
  v_po :: AT_PARA_OPTION
  v_pvar :: nat
  v_vsize :: nat
  v_verify :: "(int \<Rightarrow> bool) option"

definition localecho1_verify :: "int \<Rightarrow> bool" where "localecho1_verify di = (di \<ge> 0 \<and> di \<le> 1)"
definition console1_speed_verify :: "int \<Rightarrow> bool" where
  "console1_speed_verify di = (di \<in> set [9600, 19200, 38400, 115200, 921600])"
definition console1_hwfc_verify :: "int \<Rightarrow> bool" where "console1_hwfc_verify di = (di \<ge> 0 \<and> di \<le> 1)"
definition wifi_ssid_len_verify :: "int \<Rightarrow> bool" where "wifi_ssid_len_verify di = (di \<ge> 0 \<and> di \<le> 32)"
definition wifi_mode_verify :: "int \<Rightarrow> bool" where "wifi_mode_verify di = (di \<ge> 0 \<and> di \<le> 3)"
definition ip_use_dhcp_verify :: "int \<Rightarrow> bool" where "ip_use_dhcp_verify di = (di \<ge> 0 \<and> di \<le> 2)"

definition cfg_var :: "string \<Rightarrow> AT_PARA_TYPE \<Rightarrow> AT_PARA_OPTION \<Rightarrow> (int \<Rightarrow> bool) option \<Rightarrow> at_var_descriptor_t" where
  "cfg_var name t o1 ver =
     \<lparr>v_key = name, v_pt = t, v_po = o1, v_pvar = offsetof at_config_t name,
      v_vsize = size_of at_config_t name, v_verify = ver\<rparr>"

definition at_cfg_table :: "at_var_descriptor_t list" where
  "at_cfg_table =
    [cfg_var ''nv_manuf'' APT_TEXT APO_RO None,
     cfg_var ''nv_model'' APT_TEXT APO_RO None,
     cfg_var ''nv_serial'' APT_TEXT APO_RO None,
     cfg_var ''nv_wifi_macaddr'' APT_HEX APO_RO None,
     cfg_var ''wind_off_low'' APT_HI APO_RW None,
     cfg_var ''wind_off_medium'' APT_HI APO_RW None,
     cfg_var ''wind_off_high'' APT_HI APO_RW None,
     cfg_var ''user_desc'' APT_TEXT APO_RW None,
     cfg_var ''escape_seq'' APT_TEXT APO_RW None,
     cfg_var ''localecho1'' APT_DI APO_RW (Some localecho1_verify),
     cfg_var ''console1_speed'' APT_DI APO_RW (Some console1_speed_verify),
     cfg_var ''console1_hwfc'' APT_DI APO_RW (Some console1_hwfc_verify),
     cfg_var ''wifi_channelnum'' APT_DI APO_RW None,
     cfg_var ''wifi_mode'' APT_DI APO_RW (Some wifi_mode_verify),
     cfg_var ''wifi_ssid'' APT_HEX APO_RW None,
     cfg_var ''wifi_ssid_len'' APT_DI APO_RW (Some wifi_ssid_len_verify),
     cfg_var ''wifi_wpa_psk_text'' APT_TEXT APO_RW None,
     cfg_var ''ip_use_dhcp'' APT_DI APO_RW (Some ip_use_dhcp_verify),
     cfg_var ''ip_ipaddr'' APT_IP APO_RW None,
     cfg_var ''ip_netmask'' APT_IP APO_RW None,
     cfg_var ''ip_gw'' APT_IP APO_RW None,
     cfg_var ''ip_dns'' APT_IP APO_RW None]"

definition sts_var :: "string \<Rightarrow> AT_PARA_TYPE \<Rightarrow> at_var_descriptor_t" where
  "sts_var name t =
     \<lparr>v_key = name, v_pt = t, v_po = APO_RO, v_pvar = offsetof at_status_t name,
      v_vsize = size_of at_status_t name, v_verify = None\<rparr>"

definition at_sts_table :: "at_var_descriptor_t list" where
  "at_sts_table =
    [sts_var ''wifi_num_assoc'' APT_DI, sts_var ''ip_ipaddr'' APT_IP, sts_var ''ip_netmask'' APT_IP,
     sts_var ''ip_gw'' APT_IP, sts_var ''ip_dns'' APT_IP, sts_var ''ip_sock_open'' APT_DI,
     sts_var ''ip_sockd_port'' APT_DI]"

section \<open>Reading and writing variables\<close>

definition cstr :: "string \<Rightarrow> string" where "cstr s = takeWhile (\<lambda>c. c \<noteq> CHR 0x00) s"

definition byte_of :: "char \<Rightarrow> u8" where "byte_of c = of_nat (code c)"
definition char_at :: "u8 \<Rightarrow> char" where "char_at b = char_of (unat b)"

definition word_of_bytes :: "u8 list \<Rightarrow> u32" where
  "word_of_bytes bs = of_nat (foldr (\<lambda>b n. unat b + 256 * n) bs 0)"

definition bytes_of_word :: "u32 \<Rightarrow> u8 list" where
  "bytes_of_word w = map (\<lambda>i. of_nat (unat w div 256 ^ i)) [0..<4]"

text \<open>The value of a variable as \<open>at_get_value\<close> reads it: a text runs to the next zero, wherever that is.\<close>

definition var_value :: "at_var_descriptor_t \<Rightarrow> u8 list \<Rightarrow> at_value_t" where
  "var_value d mem =
     (let bs = drop (v_pvar d) mem
      in case v_pt d of
           APT_TEXT \<Rightarrow> V_text (map char_at (takeWhile (\<lambda>b. b \<noteq> 0) bs))
         | APT_HEX \<Rightarrow> V_hex (take (v_vsize d) bs)
         | APT_DI \<Rightarrow> V_di (sint (word_of_bytes (take 4 bs)))
         | APT_HI \<Rightarrow> V_hi (word_of_bytes (take 4 bs))
         | APT_IP \<Rightarrow> V_ip (take (v_vsize d) bs))"

text \<open>The bytes that \<open>at_set_value\<close> stores, and the store.\<close>

definition value_bytes :: "at_value_t \<Rightarrow> u8 list" where
  "value_bytes v =
     (case v of
        V_text s \<Rightarrow> map byte_of (cstr s) @ [0]
      | V_hex bs \<Rightarrow> bs
      | V_di i \<Rightarrow> bytes_of_word (word_of_int i)
      | V_hi w \<Rightarrow> bytes_of_word w
      | V_ip bs \<Rightarrow> bs)"

definition poke :: "nat \<Rightarrow> u8 list \<Rightarrow> u8 list \<Rightarrow> u8 list" where
  "poke off bs mem = take off mem @ take (length mem - off) bs @ drop (off + length bs) mem"

definition set_var :: "at_var_descriptor_t \<Rightarrow> at_value_t \<Rightarrow> u8 list \<Rightarrow> u8 list" where
  "set_var d v mem = poke (v_pvar d) (value_bytes (at_set_value (v_vsize d) v)) mem"

definition find_var :: "string \<Rightarrow> at_var_descriptor_t list \<Rightarrow> at_var_descriptor_t option" where
  "find_var key table = find (\<lambda>d. v_key d = cstr key) table"

text \<open>The member \<open>di\<close> of the union that holds a value, whatever was stored in it.\<close>

definition di_member :: "at_value_t \<Rightarrow> int" where
  "di_member v = sint (word_of_bytes (take 4 (value_bytes v @ [0, 0, 0, 0])))"

section \<open>Operations\<close>

text \<open>What is printed is given back as the text for \<open>at_dump\<close>.\<close>

definition var_line :: "at_var_descriptor_t \<Rightarrow> u8 list \<Rightarrow> string" where
  "var_line d mem = ''# '' @ v_key d @ '' = '' @ at_get_value (var_value d mem) @ [AT_CR, AT_LF]"

definition at_getcfg :: "string \<Rightarrow> u8 list \<Rightarrow> AT_ERROR_CODE \<times> string list" where
  "at_getcfg key mem =
     (case find_var key at_cfg_table of
        Some d \<Rightarrow> (AEC_OK, [var_line d mem])
      | None \<Rightarrow> (AEC_NOT_FOUND, []))"

text \<open>Its result is a parameter type or an error code; as the types are the numbers 0 to 4 and the error is
  6, the two cannot be confused.\<close>

definition at_typecfg :: "string \<Rightarrow> AT_PARA_TYPE option" where
  "at_typecfg key = map_option v_pt (find_var key at_cfg_table)"

definition at_setcfg :: "string \<Rightarrow> at_value_t \<Rightarrow> u8 list \<Rightarrow> AT_ERROR_CODE \<times> u8 list" where
  "at_setcfg key v mem =
     (case find_var key at_cfg_table of
        None \<Rightarrow> (AEC_NOT_FOUND, mem)
      | Some d \<Rightarrow>
          if v_po d \<noteq> APO_RW then (AEC_READ_ONLY, mem)
          else if (case v_verify d of None \<Rightarrow> False | Some ver \<Rightarrow> \<not> ver (di_member v))
          then (AEC_OUT_OF_RANGE, mem)
          else (AEC_OK, set_var d v mem))"

definition at_ssidtxt :: "string \<Rightarrow> u8 list \<Rightarrow> AT_ERROR_CODE \<times> u8 list" where
  "at_ssidtxt ssid mem =
     (let len = length (cstr ssid);
          m1 = poke (offsetof at_config_t ''wifi_ssid'') (replicate 32 0) mem;
          m2 = poke (offsetof at_config_t ''wifi_ssid'') (map byte_of (cstr ssid)) m1;
          m3 = poke (offsetof at_config_t ''wifi_ssid_len'') (bytes_of_word (of_nat len)) m2
      in (AEC_OK, m3))"

definition at_config :: "u8 list \<Rightarrow> AT_ERROR_CODE \<times> string list" where
  "at_config mem = (AEC_OK, map (\<lambda>d. var_line d mem) at_cfg_table)"

text \<open>What \<open>at_status\<close> prints once the callback has updated the structure.\<close>

definition at_status_lines :: "string option \<Rightarrow> u8 list \<Rightarrow> AT_ERROR_CODE \<times> string list" where
  "at_status_lines sv mem =
     (case sv of
        None \<Rightarrow> (AEC_OK, map (\<lambda>d. var_line d mem) at_sts_table)
      | Some key \<Rightarrow>
          (case find_var key at_sts_table of
             Some d \<Rightarrow> (AEC_OK, [var_line d mem])
           | None \<Rightarrow> (AEC_NOT_FOUND, [])))"

definition at_setsts :: "string \<Rightarrow> at_value_t \<Rightarrow> u8 list \<Rightarrow> AT_ERROR_CODE \<times> u8 list" where
  "at_setsts key v mem =
     (case find_var key at_sts_table of
        Some d \<Rightarrow> (AEC_OK, set_var d v mem)
      | None \<Rightarrow> (AEC_NOT_FOUND, mem))"

text \<open>
  The peers of an access point. \<open>at_peer\<close> is given the peer to print, but the table points into
  dummy_peer, which nothing writes.
\<close>

definition at_peer_t :: "field list" where
  "at_peer_t =
    [word_field ''link_id'', word_field ''state'', text_field ''addr'' 6, word_field ''last_rx'',
     word_field ''last_tx'', word_field ''rx_drops'', word_field ''tx_drops'', word_field ''rx_pkts'',
     word_field ''tx_pkts'', word_field ''tx_errs'', word_field ''rate_mask'', word_field ''cur_rate_idx'',
     word_field ''cur_rate_ok'', word_field ''cur_rate_fail'', word_field ''tx_consec_fail'',
     word_field ''rx_seqnum'', word_field ''rx_seqnum_mc'', word_field ''rx_rssi'',
     word_field ''rx_rateidx'', word_field ''setprot'', word_field ''listen_interval'',
     word_field ''capinfo'']"

definition peer_var :: "string \<Rightarrow> AT_PARA_TYPE \<Rightarrow> at_var_descriptor_t" where
  "peer_var name t =
     \<lparr>v_key = name, v_pt = t, v_po = APO_RO, v_pvar = offsetof at_peer_t name,
      v_vsize = size_of at_peer_t name, v_verify = None\<rparr>"

definition at_peer_table :: "at_var_descriptor_t list" where
  "at_peer_table =
    [peer_var ''link_id'' APT_DI, peer_var ''state'' APT_DI, peer_var ''addr'' APT_HEX,
     peer_var ''last_rx'' APT_DI, peer_var ''last_tx'' APT_DI, peer_var ''rx_drops'' APT_DI,
     peer_var ''tx_drops'' APT_DI, peer_var ''rx_pkts'' APT_DI, peer_var ''tx_pkts'' APT_DI,
     peer_var ''tx_errs'' APT_DI, peer_var ''rate_mask'' APT_DI, peer_var ''cur_rate_idx'' APT_DI,
     peer_var ''cur_rate_ok'' APT_DI, peer_var ''cur_rate_fail'' APT_DI, peer_var ''tx_consec_fail'' APT_DI,
     peer_var ''rx_seqnum'' APT_HI, peer_var ''rx_seqnum_mc'' APT_HI, peer_var ''rx_rssi'' APT_DI,
     peer_var ''rx_rateidx'' APT_DI, peer_var ''setprot'' APT_DI, peer_var ''listen_interval'' APT_DI,
     peer_var ''capinfo'' APT_HI]"

definition at_peer :: "u8 list \<Rightarrow> u8 list option \<Rightarrow> string option \<Rightarrow> AT_ERROR_CODE \<times> string list" where
  "at_peer dummy_peer peer var =
     (case peer of
        None \<Rightarrow> (AEC_NULL_POINTER, [])
      | Some _ \<Rightarrow>
          (case var of
             None \<Rightarrow> (AEC_OK, map (\<lambda>d. var_line d dummy_peer) at_peer_table)
           | Some key \<Rightarrow>
               (case find_var key at_peer_table of
                  Some d \<Rightarrow> (AEC_OK, [var_line d dummy_peer])
                | None \<Rightarrow> (AEC_NOT_FOUND, []))))"

text \<open>\<open>at_peers\<close> prints all peers, up to the first that fails, or one of them.\<close>

fun all_peers :: "u8 list \<Rightarrow> u8 list list \<Rightarrow> AT_ERROR_CODE \<times> string list" where
  "all_peers dummy_peer [] = (AEC_OK, [])"
| "all_peers dummy_peer (p # ps) =
     (case at_peer dummy_peer (Some p) None of
        (aec, ts) \<Rightarrow>
          if aec \<noteq> AEC_OK then (aec, ts)
          else (case all_peers dummy_peer ps of (aec', us) \<Rightarrow> (aec', ts @ us)))"

definition at_peers :: "u8 list \<Rightarrow> u8 list list \<Rightarrow> int \<Rightarrow> string option \<Rightarrow> AT_ERROR_CODE \<times> string list" where
  "at_peers dummy_peer peers pn pv =
     (if pn = 0 \<and> pv = None then all_peers dummy_peer peers
      else if 0 \<le> pn \<and> pn < int (length peers) then at_peer dummy_peer (Some (peers ! nat pn)) pv
      else (AEC_PARA_ERROR, []))"

lemma peers_are_dummies:
  assumes "length peers = length peers'"
  shows "at_peers dummy_peer peers pn pv = at_peers dummy_peer peers' pn pv"
proof -
  have all: "length ps = length qs \<Longrightarrow> all_peers d ps = all_peers d qs" for d ps qs
    by (induction ps qs rule: list_induct2) (simp_all only: all_peers.simps at_peer_def option.case)
  show ?thesis unfolding at_peers_def at_peer_def option.case all [OF assms] assms by (rule refl)
qed

text \<open>The configuration that other components read.\<close>

definition cfg_word :: "string \<Rightarrow> u8 list \<Rightarrow> u32" where
  "cfg_word name mem = word_of_bytes (take 4 (drop (offsetof at_config_t name) mem))"

definition at_event :: "u8 list \<Rightarrow> int \<Rightarrow> bool" where
  "at_event mem idx =
     (if idx < 32 then \<not> bit (cfg_word ''wind_off_low'' mem) (nat idx)
      else if idx < 64 then \<not> bit (cfg_word ''wind_off_medium'' mem) (nat (idx - 32))
      else if idx < 96 then \<not> bit (cfg_word ''wind_off_high'' mem) (nat (idx - 64))
      else False)"

definition at_serial :: "u8 list \<Rightarrow> u32 \<times> u32" where
  "at_serial mem = (cfg_word ''console1_speed'' mem, cfg_word ''console1_hwfc'' mem)"

section \<open>The tables are consistent\<close>

text \<open>
  Keys are distinct C strings, variables lie in the structure one behind the other, and integers and
  addresses have four bytes.
\<close>

definition table_ok :: "nat \<Rightarrow> at_var_descriptor_t list \<Rightarrow> bool" where
  "table_ok n table =
     (distinct (map v_key table) \<and>
      list_all (\<lambda>d. list_all (\<lambda>c. c \<noteq> CHR 0x00) (v_key d) \<and> v_pvar d + v_vsize d \<le> n \<and> 0 < v_vsize d \<and>
                    (v_pt d \<in> {APT_DI, APT_HI, APT_IP} \<longrightarrow> v_vsize d = 4)) table)"

definition apart :: "at_var_descriptor_t \<Rightarrow> at_var_descriptor_t \<Rightarrow> bool" where
  "apart d e = (v_pvar d + v_vsize d \<le> v_pvar e \<or> v_pvar e + v_vsize e \<le> v_pvar d)"

definition all_apart :: "at_var_descriptor_t list \<Rightarrow> bool" where
  "all_apart table = list_all (\<lambda>d. list_all (\<lambda>e. v_key d = v_key e \<or> apart d e) table) table"

lemma place_config:
  "place 0 at_config_t =
    [(''nv_manuf'', 0, 32),
     (''nv_model'', 32, 32),
     (''nv_serial'', 64, 32),
     (''nv_wifi_macaddr'', 96, 6),
     (''blink_led'', 104, 4),
     (''wind_off_low'', 108, 4),
     (''wind_off_medium'', 112, 4),
     (''wind_off_high'', 116, 4),
     (''user_desc'', 120, 64),
     (''escape_seq'', 184, 8),
     (''localecho1'', 192, 4),
     (''console1_speed'', 196, 4),
     (''console1_hwfc'', 200, 4),
     (''console1_enabled'', 204, 4),
     (''sleep_enabled'', 208, 4),
     (''standby_enabled'', 212, 4),
     (''standby_time'', 216, 4),
     (''wifi_tx_msdu_lifetime'', 220, 4),
     (''wifi_rx_msdu_lifetime'', 224, 4),
     (''wifi_operational_mode'', 228, 4),
     (''wifi_beacon_wakeup'', 232, 4),
     (''wifi_beacon_interval'', 236, 4),
     (''wifi_listen_interval'', 240, 4),
     (''wifi_rts_threshold'', 244, 4),
     (''wifi_ssid'', 248, 32),
     (''wifi_ssid_len'', 280, 4),
     (''wifi_channelnum'', 284, 4),
     (''wifi_opr_rate_mask'', 288, 4),
     (''wifi_bas_rate_mask'', 292, 4),
     (''wifi_mode'', 296, 4),
     (''wifi_auth_type'', 300, 4),
     (''wifi_powersave'', 304, 4),
     (''wifi_tx_power'', 308, 4),
     (''wifi_rssi_thresh'', 312, 4),
     (''wifi_rssi_hyst'', 316, 4),
     (''wifi_ap_idle_timeout'', 320, 4),
     (''wifi_beacon_loss_thresh'', 324, 4),
     (''wifi_priv_mode'', 328, 4),
     (''wifi_wep_keys'', 332, 64),
     (''wifi_wep_key_lens'', 396, 4),
     (''wifi_wep_default_key'', 400, 4),
     (''wifi_wpa_psk_raw'', 404, 32),
     (''wifi_wpa_psk_text'', 436, 64),
     (''ip_use_dhcp'', 500, 4),
     (''ip_use_httpd'', 504, 4),
     (''ip_mtu'', 508, 4),
     (''ip_hostname'', 512, 32),
     (''ip_apdomainname'', 544, 32),
     (''ip_ipaddr'', 576, 4),
     (''ip_netmask'', 580, 4),
     (''ip_gw'', 584, 4),
     (''ip_dns'', 588, 4),
     (''ip_http_get_recv_timeout'', 592, 4),
     (''ip_dhcp_timeout'', 596, 4),
     (''ip_sockd_timeout'', 600, 4)]"
  by code_simp

lemma config_at:
  "map_of (place 0 at_config_t) ''nv_manuf'' = Some (0, 32)"
  "map_of (place 0 at_config_t) ''nv_model'' = Some (32, 32)"
  "map_of (place 0 at_config_t) ''nv_serial'' = Some (64, 32)"
  "map_of (place 0 at_config_t) ''nv_wifi_macaddr'' = Some (96, 6)"
  "map_of (place 0 at_config_t) ''wind_off_low'' = Some (108, 4)"
  "map_of (place 0 at_config_t) ''wind_off_medium'' = Some (112, 4)"
  "map_of (place 0 at_config_t) ''wind_off_high'' = Some (116, 4)"
  "map_of (place 0 at_config_t) ''user_desc'' = Some (120, 64)"
  "map_of (place 0 at_config_t) ''escape_seq'' = Some (184, 8)"
  "map_of (place 0 at_config_t) ''localecho1'' = Some (192, 4)"
  "map_of (place 0 at_config_t) ''console1_speed'' = Some (196, 4)"
  "map_of (place 0 at_config_t) ''console1_hwfc'' = Some (200, 4)"
  "map_of (place 0 at_config_t) ''wifi_channelnum'' = Some (284, 4)"
  "map_of (place 0 at_config_t) ''wifi_mode'' = Some (296, 4)"
  "map_of (place 0 at_config_t) ''wifi_ssid'' = Some (248, 32)"
  "map_of (place 0 at_config_t) ''wifi_ssid_len'' = Some (280, 4)"
  "map_of (place 0 at_config_t) ''wifi_wpa_psk_text'' = Some (436, 64)"
  "map_of (place 0 at_config_t) ''ip_use_dhcp'' = Some (500, 4)"
  "map_of (place 0 at_config_t) ''ip_ipaddr'' = Some (576, 4)"
  "map_of (place 0 at_config_t) ''ip_netmask'' = Some (580, 4)"
  "map_of (place 0 at_config_t) ''ip_gw'' = Some (584, 4)"
  "map_of (place 0 at_config_t) ''ip_dns'' = Some (588, 4)"
  by (simp_all add: place_config)

lemma at_cfg_table_rows:
  "at_cfg_table =
    [\<lparr>v_key = ''nv_manuf'', v_pt = APT_TEXT, v_po = APO_RO, v_pvar = 0, v_vsize = 32, v_verify = None\<rparr>,
     \<lparr>v_key = ''nv_model'', v_pt = APT_TEXT, v_po = APO_RO, v_pvar = 32, v_vsize = 32, v_verify = None\<rparr>,
     \<lparr>v_key = ''nv_serial'', v_pt = APT_TEXT, v_po = APO_RO, v_pvar = 64, v_vsize = 32, v_verify = None\<rparr>,
     \<lparr>v_key = ''nv_wifi_macaddr'', v_pt = APT_HEX, v_po = APO_RO, v_pvar = 96, v_vsize = 6, v_verify = None\<rparr>,
     \<lparr>v_key = ''wind_off_low'', v_pt = APT_HI, v_po = APO_RW, v_pvar = 108, v_vsize = 4, v_verify = None\<rparr>,
     \<lparr>v_key = ''wind_off_medium'', v_pt = APT_HI, v_po = APO_RW, v_pvar = 112, v_vsize = 4, v_verify = None\<rparr>,
     \<lparr>v_key = ''wind_off_high'', v_pt = APT_HI, v_po = APO_RW, v_pvar = 116, v_vsize = 4, v_verify = None\<rparr>,
     \<lparr>v_key = ''user_desc'', v_pt = APT_TEXT, v_po = APO_RW, v_pvar = 120, v_vsize = 64, v_verify = None\<rparr>,
     \<lparr>v_key = ''escape_seq'', v_pt = APT_TEXT, v_po = APO_RW, v_pvar = 184, v_vsize = 8, v_verify = None\<rparr>,
     \<lparr>v_key = ''localecho1'', v_pt = APT_DI, v_po = APO_RW, v_pvar = 192, v_vsize = 4, v_verify = (Some localecho1_verify)\<rparr>,
     \<lparr>v_key = ''console1_speed'', v_pt = APT_DI, v_po = APO_RW, v_pvar = 196, v_vsize = 4, v_verify = (Some console1_speed_verify)\<rparr>,
     \<lparr>v_key = ''console1_hwfc'', v_pt = APT_DI, v_po = APO_RW, v_pvar = 200, v_vsize = 4, v_verify = (Some console1_hwfc_verify)\<rparr>,
     \<lparr>v_key = ''wifi_channelnum'', v_pt = APT_DI, v_po = APO_RW, v_pvar = 284, v_vsize = 4, v_verify = None\<rparr>,
     \<lparr>v_key = ''wifi_mode'', v_pt = APT_DI, v_po = APO_RW, v_pvar = 296, v_vsize = 4, v_verify = (Some wifi_mode_verify)\<rparr>,
     \<lparr>v_key = ''wifi_ssid'', v_pt = APT_HEX, v_po = APO_RW, v_pvar = 248, v_vsize = 32, v_verify = None\<rparr>,
     \<lparr>v_key = ''wifi_ssid_len'', v_pt = APT_DI, v_po = APO_RW, v_pvar = 280, v_vsize = 4, v_verify = (Some wifi_ssid_len_verify)\<rparr>,
     \<lparr>v_key = ''wifi_wpa_psk_text'', v_pt = APT_TEXT, v_po = APO_RW, v_pvar = 436, v_vsize = 64, v_verify = None\<rparr>,
     \<lparr>v_key = ''ip_use_dhcp'', v_pt = APT_DI, v_po = APO_RW, v_pvar = 500, v_vsize = 4, v_verify = (Some ip_use_dhcp_verify)\<rparr>,
     \<lparr>v_key = ''ip_ipaddr'', v_pt = APT_IP, v_po = APO_RW, v_pvar = 576, v_vsize = 4, v_verify = None\<rparr>,
     \<lparr>v_key = ''ip_netmask'', v_pt = APT_IP, v_po = APO_RW, v_pvar = 580, v_vsize = 4, v_verify = None\<rparr>,
     \<lparr>v_key = ''ip_gw'', v_pt = APT_IP, v_po = APO_RW, v_pvar = 584, v_vsize = 4, v_verify = None\<rparr>,
     \<lparr>v_key = ''ip_dns'', v_pt = APT_IP, v_po = APO_RW, v_pvar = 588, v_vsize = 4, v_verify = None\<rparr>]"
  by (simp only: at_cfg_table_def cfg_var_def offsetof_def size_of_def config_at option.case prod.case)

lemma place_status:
  "place 0 at_status_t =
    [(''version'', 0, 32),
     (''reset_reason'', 32, 4),
     (''conf_flag'', 36, 4),
     (''system_uptime'', 40, 4),
     (''system_sleeptime'', 44, 4),
     (''gpio_enable'', 48, 4),
     (''captiveportal'', 52, 4),
     (''wifi_state'', 56, 4),
     (''wifi_bssid'', 60, 6),
     (''wifi_aid'', 68, 4),
     (''wifi_channelnum'', 72, 4),
     (''wifi_sup_rate_mask'', 76, 4),
     (''wifi_bas_rate_mask'', 80, 4),
     (''wifi_chan_activity2'', 84, 4),
     (''wifi_max_tx_power'', 88, 4),
     (''wifi_reg_country'', 92, 4),
     (''wifi_dtim_period'', 96, 4),
     (''wifi_sleeping'', 100, 4),
     (''wifi_num_assoc'', 104, 4),
     (''ip_ipaddr'', 108, 4),
     (''ip_netmask'', 112, 4),
     (''ip_gw'', 116, 4),
     (''ip_dns'', 120, 4),
     (''ip_sock_open'', 124, 4),
     (''ip_sockd_port'', 128, 4),
     (''free_heap'', 132, 4),
     (''min_heap'', 136, 4),
     (''current_time'', 140, 4)]"
  by code_simp

lemma status_at:
  "map_of (place 0 at_status_t) ''wifi_num_assoc'' = Some (104, 4)"
  "map_of (place 0 at_status_t) ''ip_ipaddr'' = Some (108, 4)"
  "map_of (place 0 at_status_t) ''ip_netmask'' = Some (112, 4)"
  "map_of (place 0 at_status_t) ''ip_gw'' = Some (116, 4)"
  "map_of (place 0 at_status_t) ''ip_dns'' = Some (120, 4)"
  "map_of (place 0 at_status_t) ''ip_sock_open'' = Some (124, 4)"
  "map_of (place 0 at_status_t) ''ip_sockd_port'' = Some (128, 4)"
  by (simp_all add: place_status)

lemma at_sts_table_rows:
  "at_sts_table =
    [\<lparr>v_key = ''wifi_num_assoc'', v_pt = APT_DI, v_po = APO_RO, v_pvar = 104, v_vsize = 4, v_verify = None\<rparr>,
     \<lparr>v_key = ''ip_ipaddr'', v_pt = APT_IP, v_po = APO_RO, v_pvar = 108, v_vsize = 4, v_verify = None\<rparr>,
     \<lparr>v_key = ''ip_netmask'', v_pt = APT_IP, v_po = APO_RO, v_pvar = 112, v_vsize = 4, v_verify = None\<rparr>,
     \<lparr>v_key = ''ip_gw'', v_pt = APT_IP, v_po = APO_RO, v_pvar = 116, v_vsize = 4, v_verify = None\<rparr>,
     \<lparr>v_key = ''ip_dns'', v_pt = APT_IP, v_po = APO_RO, v_pvar = 120, v_vsize = 4, v_verify = None\<rparr>,
     \<lparr>v_key = ''ip_sock_open'', v_pt = APT_DI, v_po = APO_RO, v_pvar = 124, v_vsize = 4, v_verify = None\<rparr>,
     \<lparr>v_key = ''ip_sockd_port'', v_pt = APT_DI, v_po = APO_RO, v_pvar = 128, v_vsize = 4, v_verify = None\<rparr>]"
  by (simp only: at_sts_table_def sts_var_def offsetof_def size_of_def status_at option.case prod.case)


lemma config_size: "struct_size at_config_t = 604"
  by (simp add: struct_size_def place_config)

lemma status_size: "struct_size at_status_t = 144"
  by (simp add: struct_size_def place_status)

lemma cfg_table_ok: "table_ok 604 at_cfg_table"
  unfolding at_cfg_table_rows by code_simp

lemma cfg_table_apart: "all_apart at_cfg_table"
  unfolding at_cfg_table_rows by code_simp

lemma sts_table_ok: "table_ok 144 at_sts_table"
  unfolding at_sts_table_rows by code_simp

lemma sts_table_apart: "all_apart at_sts_table"
  unfolding at_sts_table_rows by code_simp

text \<open>Everything below offset 102 is read only, and all that may be written lies behind.\<close>

lemma read_only_below:
  "list_all (\<lambda>d. (v_po d = APO_RO \<longrightarrow> v_pvar d + v_vsize d \<le> 102) \<and> (v_po d = APO_RW \<longrightarrow> 108 \<le> v_pvar d)) at_cfg_table"
  unfolding at_cfg_table_rows by code_simp

end
