(* ===== verification/At_Store.thy ===== *)
theory At_Store
  imports At_Config
begin

text \<open>
  What the configuration tables promise as a store of variables: a value that fits its variable is read
  back, and the other variables keep theirs. The promises are a locale, with the tables of
  src/atcmd/at_config.c and src/atcmd/at_status.c as its interpretations.
\<close>

section \<open>The contract of a store of variables\<close>

locale var_store =
  fixes vars :: "'d set"
    and rd :: "'d \<Rightarrow> 'm \<Rightarrow> 'v"
    and wr :: "'d \<Rightarrow> 'v \<Rightarrow> 'm \<Rightarrow> 'm"
    and fits :: "'d \<Rightarrow> 'v \<Rightarrow> bool"
    and stored :: "'d \<Rightarrow> 'v \<Rightarrow> 'v"
    and ok :: "'m \<Rightarrow> bool"
  assumes wr_ok: "d \<in> vars \<Longrightarrow> fits d v \<Longrightarrow> ok m \<Longrightarrow> ok (wr d v m)"
    and rd_wr: "d \<in> vars \<Longrightarrow> fits d v \<Longrightarrow> ok m \<Longrightarrow> rd d (wr d v m) = stored d v"
    and rd_other: "d \<in> vars \<Longrightarrow> e \<in> vars \<Longrightarrow> e \<noteq> d \<Longrightarrow> fits d v \<Longrightarrow> ok m \<Longrightarrow> rd e (wr d v m) = rd e m"
begin

lemma writes_ok:
  "list_all (\<lambda>(d, v). d \<in> vars \<and> fits d v) ws \<Longrightarrow> ok m \<Longrightarrow> ok (fold (\<lambda>(d, v). wr d v) ws m)"
  by (induction ws arbitrary: m) (auto simp: wr_ok)

text \<open>After a sequence of writes each variable has the last value written to it, or its old one.\<close>

lemma last_write:
  "list_all (\<lambda>(d, v). d \<in> vars \<and> fits d v) ws \<Longrightarrow> ok m \<Longrightarrow> e \<in> vars \<Longrightarrow>
   rd e (fold (\<lambda>(d, v). wr d v) ws m) =
     (case map_of (rev ws) e of Some v \<Rightarrow> stored e v | None \<Rightarrow> rd e m)"
proof (induction ws rule: rev_induct)
  case Nil
  then show ?case by simp
next
  case (snoc w ws)
  obtain d v where w: "w = (d, v)" by force
  have ok: "ok (fold (\<lambda>(d, v). wr d v) ws m)" using writes_ok snoc.prems by simp
  show ?case using snoc ok by (auto simp: w rd_wr rd_other)
qed

end

section \<open>Bytes of a variable\<close>

definition var_bytes :: "at_var_descriptor_t \<Rightarrow> u8 list \<Rightarrow> u8 list" where
  "var_bytes d mem = take (v_vsize d) (drop (v_pvar d) mem)"

lemma length_poke [simp]: "off \<le> length mem \<Longrightarrow> length (poke off bs mem) = length mem"
  by (auto simp: poke_def)

lemma nth_poke:
  "off \<le> length mem \<Longrightarrow> i < length mem \<Longrightarrow>
   poke off bs mem ! i = (if off \<le> i \<and> i < off + length bs then bs ! (i - off) else mem ! i)"
  by (auto simp: poke_def nth_append min_def)

text \<open>A store changes the bytes from its offset on, and no others.\<close>

lemma take_poke: "off \<le> length mem \<Longrightarrow> n \<le> off \<Longrightarrow> take n (poke off bs mem) = take n mem"
  by (rule nth_equalityI) (auto simp: nth_poke)

lemma var_bytes_poke_other:
  "v_pvar d \<le> length mem \<Longrightarrow> length bs \<le> v_vsize d \<Longrightarrow> apart d e \<Longrightarrow>
   var_bytes e (poke (v_pvar d) bs mem) = var_bytes e mem"
  by (rule nth_equalityI) (auto simp: var_bytes_def nth_poke apart_def)

lemma var_bytes_poke_same:
  assumes "v_pvar d + v_vsize d \<le> length mem" "length bs \<le> v_vsize d"
  shows "var_bytes d (poke (v_pvar d) bs mem) = bs @ drop (length bs) (var_bytes d mem)"
proof (rule nth_equalityI)
  show "length (var_bytes d (poke (v_pvar d) bs mem)) = length (bs @ drop (length bs) (var_bytes d mem))"
    using assms by (simp add: var_bytes_def)
  fix i
  assume "i < length (var_bytes d (poke (v_pvar d) bs mem))"
  then have i: "i < v_vsize d" using assms by (simp add: var_bytes_def)
  then have "var_bytes d (poke (v_pvar d) bs mem) ! i = poke (v_pvar d) bs mem ! (v_pvar d + i)"
    using assms by (simp add: var_bytes_def)
  also have "\<dots> = (if i < length bs then bs ! i else mem ! (v_pvar d + i))"
    using assms i by (subst nth_poke) auto
  also have "\<dots> = (bs @ drop (length bs) (var_bytes d mem)) ! i"
    using assms i by (simp add: var_bytes_def nth_append)
  finally show "var_bytes d (poke (v_pvar d) bs mem) ! i = (bs @ drop (length bs) (var_bytes d mem)) ! i" .
qed

section \<open>Bytes and values\<close>

lemma unat_byte_of: "unat (byte_of c) = code c"
  by (simp add: byte_of_def unat_of_nat code_def)

lemma char_at_byte_of [simp]: "char_at (byte_of c) = c"
  by (simp add: char_at_def unat_byte_of code_def)

lemma byte_of_char_at [simp]: "byte_of (char_at b) = b"
  using unat_u8 [of b] by (simp add: char_at_def byte_of_def code_def)

lemma byte_of_zero: "(byte_of c = 0) = (c = CHR 0x00)"
proof
  assume "byte_of c = 0"
  then have "code c = 0" by (metis unat_byte_of unat_0)
  then have "(of_char c :: nat) = of_char (CHR 0x00)" by (simp add: code_def)
  then show "c = CHR 0x00" by (rule of_char_eqI)
next
  assume "c = CHR 0x00"
  then show "byte_of c = 0" by (simp add: byte_of_def code_def)
qed

lemma cstr_id: "list_all (\<lambda>c. c \<noteq> CHR 0x00) s \<Longrightarrow> cstr s = s"
  by (simp add: cstr_def takeWhile_eq_all_conv list_all_iff)

lemma base_256:
  "n mod 256 + 256 * (n div 256 mod 256 + 256 * (n div 65536 mod 256 + 256 * (n div 16777216))) = (n :: nat)"
proof -
  define a b c where "a = n div 256" and "b = a div 256" and "c = b div 256"
  have e: "n div 65536 = b" "n div 16777216 = c" by (simp_all add: a_def b_def c_def div_mult2_eq [symmetric])
  have r: "m mod 256 + 256 * (m div 256) = m" for m :: nat by (simp add: mult.commute)
  have "b mod 256 + 256 * c = b" "a mod 256 + 256 * b = a" "n mod 256 + 256 * a = n"
    using r [of b] r [of a] r [of n] by (simp_all only: a_def [symmetric] b_def [symmetric] c_def [symmetric])
  then show ?thesis by (simp only: e a_def [symmetric])
qed

lemma bytes_of_word_list:
  "bytes_of_word w = [of_nat (unat w), of_nat (unat w div 256), of_nat (unat w div 65536), of_nat (unat w div 16777216)]"
proof -
  have "[0..<4] = [0, 1, 2, 3 :: nat]" by (simp add: upt_rec)
  then show ?thesis by (simp add: bytes_of_word_def)
qed

lemma word_of_bytes_of_word [simp]: "word_of_bytes (bytes_of_word w) = w"
proof -
  have w: "unat w < 4294967296" by (rule unat_u32)
  then have l: "unat w div 16777216 mod 256 = unat w div 16777216" by (intro mod_less) simp
  have u: "unat (of_nat n :: u8) = n mod 256" for n by (simp add: unat_of_nat)
  have "foldr (\<lambda>b n. unat b + 256 * n) (bytes_of_word w) 0 = unat w"
    unfolding bytes_of_word_list foldr.simps o_apply id_apply u l using base_256 [of "unat w"] by simp
  then show ?thesis by (simp add: word_of_bytes_def)
qed

lemma sint_i32: "- 2147483648 \<le> i \<Longrightarrow> i < 2147483648 \<Longrightarrow> sint (word_of_int i :: u32) = i"
  unfolding sint_sbintrunc' by (rule signed_take_bit_int_eq_self) simp_all

lemma length_bytes_of_word [simp]: "length (bytes_of_word w) = 4"
  by (simp add: bytes_of_word_def)

section \<open>The laws of a table\<close>

definition var_fits :: "at_var_descriptor_t \<Rightarrow> at_value_t \<Rightarrow> bool" where
  "var_fits d v =
     (case v of
        V_text s \<Rightarrow> v_pt d = APT_TEXT \<and> list_all (\<lambda>c. c \<noteq> CHR 0x00) s \<and> length s < v_vsize d
      | V_hex bs \<Rightarrow> v_pt d = APT_HEX \<and> v_vsize d \<le> length bs
      | V_di i \<Rightarrow> v_pt d = APT_DI \<and> - 2147483648 \<le> i \<and> i < 2147483648
      | V_hi w \<Rightarrow> v_pt d = APT_HI
      | V_ip bs \<Rightarrow> v_pt d = APT_IP \<and> length bs = 4)"

text \<open>A structure is well formed when its texts end inside their variables.\<close>

definition mem_ok :: "nat \<Rightarrow> at_var_descriptor_t list \<Rightarrow> u8 list \<Rightarrow> bool" where
  "mem_ok n table mem =
     (length mem = n \<and> list_all (\<lambda>d. v_pt d = APT_TEXT \<longrightarrow> 0 \<in> set (var_bytes d mem)) table)"

text \<open>Then the value of a variable depends on its own bytes only.\<close>

lemma var_value_bytes:
  assumes "v_pt d = APT_TEXT \<longrightarrow> 0 \<in> set (var_bytes d mem)" "v_pt d \<in> {APT_DI, APT_HI, APT_IP} \<longrightarrow> v_vsize d = 4"
  shows "var_value d mem =
    (case v_pt d of
       APT_TEXT \<Rightarrow> V_text (map char_at (takeWhile (\<lambda>b. b \<noteq> 0) (var_bytes d mem)))
     | APT_HEX \<Rightarrow> V_hex (var_bytes d mem)
     | APT_DI \<Rightarrow> V_di (sint (word_of_bytes (var_bytes d mem)))
     | APT_HI \<Rightarrow> V_hi (word_of_bytes (var_bytes d mem))
     | APT_IP \<Rightarrow> V_ip (var_bytes d mem))"
proof -
  have "takeWhile (\<lambda>b. b \<noteq> 0) (drop (v_pvar d) mem) = takeWhile (\<lambda>b. b \<noteq> 0) (var_bytes d mem)"
    if "0 \<in> set (var_bytes d mem)"
  proof -
    have "drop (v_pvar d) mem = var_bytes d mem @ drop (v_vsize d) (drop (v_pvar d) mem)"
      by (simp only: var_bytes_def append_take_drop_id)
    then show ?thesis using takeWhile_append1 [OF that] by simp
  qed
  then show ?thesis using assms by (cases "v_pt d") (simp_all add: var_value_def var_bytes_def)
qed

lemma value_fits_bytes:
  assumes "var_fits d v" "v_pt d \<in> {APT_DI, APT_HI, APT_IP} \<longrightarrow> v_vsize d = 4"
  shows "length (value_bytes (at_set_value (v_vsize d) v)) \<le> v_vsize d"
  using assms by (cases v) (auto simp: var_fits_def at_set_value_def value_bytes_def cstr_id)

text \<open>What is read back: hex strings are cut to the size of the variable.\<close>

lemma var_value_set:
  assumes d: "v_pvar d + v_vsize d \<le> length mem" "v_pt d \<in> {APT_DI, APT_HI, APT_IP} \<longrightarrow> v_vsize d = 4"
    and v: "var_fits d v"
  shows "var_value d (set_var d v mem) = at_set_value (v_vsize d) v"
    "v_pt d = APT_TEXT \<longrightarrow> 0 \<in> set (var_bytes d (set_var d v mem))"
proof -
  let ?bs = "value_bytes (at_set_value (v_vsize d) v)"
  have b: "var_bytes d (set_var d v mem) = ?bs @ drop (length ?bs) (var_bytes d mem)"
    unfolding set_var_def by (rule var_bytes_poke_same [OF d(1) value_fits_bytes [OF v d(2)]])
  have l: "length (var_bytes d mem) = v_vsize d" using d(1) by (simp add: var_bytes_def)
  show z: "v_pt d = APT_TEXT \<longrightarrow> 0 \<in> set (var_bytes d (set_var d v mem))"
    using v b by (cases v) (auto simp: var_fits_def at_set_value_def value_bytes_def)
  show "var_value d (set_var d v mem) = at_set_value (v_vsize d) v"
  proof (cases v)
    case (V_text s)
    then have s: "list_all (\<lambda>c. c \<noteq> CHR 0x00) s" and t: "v_pt d = APT_TEXT" using v by (auto simp: var_fits_def)
    have nz: "b \<noteq> 0" if m: "b \<in> set (map byte_of s)" for b
    proof -
      have "b \<in> byte_of ` set s" using m by (simp only: set_map)
      then obtain c where "b = byte_of c" "c \<in> set s" by (rule imageE)
      then show ?thesis using s byte_of_zero [of c] by (simp only: list_all_iff) blast
    qed
    have tw: "takeWhile (\<lambda>b. b \<noteq> 0) (map byte_of s @ 0 # xs) = map byte_of s" for xs
      using takeWhile_append2 [of "map byte_of s" "\<lambda>b. b \<noteq> 0" "0 # xs", OF nz] by simp
    have vb: "value_bytes (at_set_value (v_vsize d) v) = map byte_of s @ [0]"
      using V_text s by (simp add: at_set_value_def value_bytes_def cstr_id)
    show ?thesis
      unfolding var_value_bytes [OF z d(2)] b vb
      by (simp add: t tw V_text at_set_value_def o_def)
  next
    case (V_hex bs)
    show ?thesis
      unfolding var_value_bytes [OF z d(2)] b
      using v l d(2) V_hex by (auto simp: at_set_value_def value_bytes_def var_fits_def)
  next
    case (V_di i)
    show ?thesis
      unfolding var_value_bytes [OF z d(2)] b
      using v l d(2) V_di by (auto simp: at_set_value_def value_bytes_def var_fits_def sint_i32)
  next
    case (V_hi w)
    show ?thesis
      unfolding var_value_bytes [OF z d(2)] b
      using v l d(2) V_hi by (auto simp: at_set_value_def value_bytes_def var_fits_def)
  next
    case (V_ip bs)
    show ?thesis
      unfolding var_value_bytes [OF z d(2)] b
      using v l d(2) V_ip by (auto simp: at_set_value_def value_bytes_def var_fits_def)
  qed
qed

lemma set_var_other:
  assumes d: "v_pvar d + v_vsize d \<le> length mem" "v_pt d \<in> {APT_DI, APT_HI, APT_IP} \<longrightarrow> v_vsize d = 4"
    and v: "var_fits d v" and e: "apart d e"
  shows "var_bytes e (set_var d v mem) = var_bytes e mem"
  unfolding set_var_def
  by (rule var_bytes_poke_other) (use d e value_fits_bytes [OF v d(2)] in auto)

lemma table_var:
  "table_ok n table \<Longrightarrow> d \<in> set table \<Longrightarrow>
   v_pvar d + v_vsize d \<le> n \<and> (v_pt d \<in> {APT_DI, APT_HI, APT_IP} \<longrightarrow> v_vsize d = 4)"
  by (auto simp: table_ok_def list_all_iff)

lemma table_apart:
  assumes "table_ok n table" "all_apart table" "d \<in> set table" "e \<in> set table" "e \<noteq> d"
  shows "apart d e"
proof -
  have "v_key d \<noteq> v_key e" using assms by (auto simp: table_ok_def distinct_map dest: inj_onD)
  then show ?thesis using assms by (auto simp: all_apart_def list_all_iff)
qed

lemma table_laws:
  assumes t: "table_ok n table" "all_apart table"
  shows "var_store (set table) var_value set_var var_fits (\<lambda>d. at_set_value (v_vsize d)) (mem_ok n table)"
proof
  fix d v m
  assume d: "d \<in> set table" and v: "var_fits d v" and m: "mem_ok n table m"
  note b = table_var [OF t(1) d, THEN conjunct1] table_var [OF t(1) d, THEN conjunct2]
  have l: "length m = n" using m by (simp add: mem_ok_def)
  note l1 = b(1) [folded l]
  show "var_value d (set_var d v m) = at_set_value (v_vsize d) v"
    by (rule var_value_set(1) [OF l1 b(2) v])
  have same: "v_pt e = APT_TEXT \<longrightarrow> 0 \<in> set (var_bytes e (set_var d v m))" if e: "e \<in> set table" for e
    using var_value_set(2) [OF l1 b(2) v] set_var_other [OF l1 b(2) v table_apart [OF t d e]] m e
    by (cases "e = d") (auto simp: mem_ok_def list_all_iff)
  have "v_pvar d \<le> length m" using l1 by simp
  then show "mem_ok n table (set_var d v m)"
    using same l by (simp add: mem_ok_def list_all_iff set_var_def)
  fix e
  assume e: "e \<in> set table" "e \<noteq> d"
  note o = set_var_other [OF l1 b(2) v table_apart [OF t d e]]
  have z: "v_pt e = APT_TEXT \<longrightarrow> 0 \<in> set (var_bytes e m)" using m e by (auto simp: mem_ok_def list_all_iff)
  note b2 = table_var [OF t(1) e(1), THEN conjunct2]
  show "var_value e (set_var d v m) = var_value e m"
    unfolding var_value_bytes [OF same [OF e(1)] b2] var_value_bytes [OF z b2] o ..
qed

interpretation cfg: var_store "set at_cfg_table" var_value set_var var_fits "\<lambda>d. at_set_value (v_vsize d)"
    "mem_ok 604 at_cfg_table"
  by (rule table_laws [OF cfg_table_ok cfg_table_apart])

interpretation sts: var_store "set at_sts_table" var_value set_var var_fits "\<lambda>d. at_set_value (v_vsize d)"
    "mem_ok 144 at_sts_table"
  by (rule table_laws [OF sts_table_ok sts_table_apart])

section \<open>Keys\<close>

lemma find_var_key:
  assumes "table_ok n table" "d \<in> set table"
  shows "find_var (v_key d) table = Some d"
proof -
  have "list_all (\<lambda>c. c \<noteq> CHR 0x00) (v_key d)"
    using assms(1) [unfolded table_ok_def, THEN conjunct2, unfolded list_all_iff [of _ table], THEN bspec, OF assms(2)]
    by (rule conjunct1)
  then have k: "cstr (v_key d) = v_key d" by (rule cstr_id)
  have "distinct (map v_key es) \<Longrightarrow> d \<in> set es \<Longrightarrow> find (\<lambda>e. v_key e = v_key d) es = Some d" for es
  proof (induction es)
    case Nil
    then show ?case by simp
  next
    case (Cons e es)
    show ?case
    proof (cases "d = e")
      case True
      then show ?thesis by simp
    next
      case False
      then have "d \<in> set es" using Cons.prems(2) by simp
      then have "v_key d \<in> v_key ` set es" by (rule imageI)
      then have "v_key e \<noteq> v_key d" using Cons.prems(1) by (metis distinct.simps(2) list.set_map list.simps(9))
      then show ?thesis using Cons \<open>d \<in> set es\<close> by (simp only: find.simps if_False list.map distinct.simps)
    qed
  qed
  then have "find (\<lambda>e. v_key e = v_key d) table = Some d"
    using assms by (simp add: table_ok_def)
  then show ?thesis by (simp add: find_var_def k)
qed

lemma find_var_in: "find_var key table = Some d \<Longrightarrow> d \<in> set table \<and> v_key d = cstr key"
  by (auto simp: find_var_def find_Some_iff)

definition verified :: "at_var_descriptor_t \<Rightarrow> at_value_t \<Rightarrow> bool" where
  "verified d v = (case v_verify d of None \<Rightarrow> True | Some ver \<Rightarrow> ver (di_member v))"

lemma setcfg_key:
  assumes "d \<in> set at_cfg_table"
  shows "at_setcfg (v_key d) v mem =
    (if v_po d \<noteq> APO_RW then (AEC_READ_ONLY, mem)
     else if \<not> verified d v then (AEC_OUT_OF_RANGE, mem) else (AEC_OK, set_var d v mem))"
  using find_var_key [OF cfg_table_ok assms]
  by (simp add: at_setcfg_def verified_def split: option.split)

lemma di_member_di: "- 2147483648 \<le> i \<Longrightarrow> i < 2147483648 \<Longrightarrow> di_member (V_di i) = i"
  by (simp add: di_member_def value_bytes_def sint_i32)

end
