(* ===== verification/At_Command.thy ===== *)
theory At_Command
  imports At_Store At_Queue "HOL-Library.Monad_Syntax"
begin

text \<open>
  The interpreter of AT commands: src/atcmd/at_command.c with the operations of at_common.c, at_socket.c,
  at_wlan.c and at_status.c. Its thread takes bytes from the queue of At_Queue, collects a line in a cache
  of 1024 bytes, looks the command up and runs its handler. What the application does is a callback, an
  argument of the model. An operation that does not return (it polls the serial port for ever, or stops in
  the endless loop of a failed check) is None.
\<close>

section \<open>State\<close>

text \<open>A call of the application: the command and the members of the parameter structure it reads.\<close>

datatype AT_CALLBACK_CMD =
    ACC_ACT
  | ACC_RST
  | ACC_MODE "u8 list"
  | ACC_SAVE
  | ACC_LOAD
  | ACC_STATUS
  | ACC_FACTORY
  | ACC_PEER
  | ACC_PING string
  | ACC_SOCKON string int int int
  | ACC_SOCKW int "u8 list"
  | ACC_SOCKQ int
  | ACC_SOCKR int int
  | ACC_SOCKC int
  | ACC_SOCKD int int
  | ACC_WIFI int
  | ACC_REASSOCIATE
  | ACC_GPIOC
  | ACC_GPIOR
  | ACC_GPIOW
  | ACC_SCAN int

text \<open>It answers a code, the type and value of its response, and what it makes of the configuration, the
  status and its own state \<open>'w\<close>.\<close>

type_synonym 'w handle_cb_t =
  "AT_CALLBACK_CMD \<Rightarrow> u8 list \<Rightarrow> u8 list \<Rightarrow> 'w \<Rightarrow> AT_ERROR_CODE \<times> (int \<times> int) \<times> u8 list \<times> u8 list \<times> 'w"

record 'w at_callback_t =
  handle_cb :: "'w handle_cb_t option"
  dump_cb :: bool

text \<open>\<open>answers\<close> is what the serial port will deliver, \<open>overrun\<close> records a store outside the cache.\<close>

record 'w at_state =
  at_cfg :: "u8 list"
  at_sts :: "u8 list"
  at_callback :: "'w at_callback_t"
  queue :: at_queue_t
  answers :: "chunk list"
  cache_cnt :: nat
  cache_buf :: string
  line_flag :: bool
  overrun :: bool
  dumped :: "string list"
  world :: 'w

type_synonym 'w at_m = "'w at_state \<Rightarrow> (AT_ERROR_CODE \<times> 'w at_state) option"

definition CMD_CACHE_MAX_LEN :: nat where "CMD_CACHE_MAX_LEN = 1024"
definition AT_CMD_MAX_SIZE :: nat where "AT_CMD_MAX_SIZE = 32"
definition MAX_DUMP_BUFF_SIZE :: nat where "MAX_DUMP_BUFF_SIZE = 1024"
definition AT_SOCKET_BUFFER_SIZE :: nat where "AT_SOCKET_BUFFER_SIZE = 1024"
definition AT_EQU :: char where "AT_EQU = CHR ''=''"
definition crlf :: string where "crlf = [AT_CR, AT_LF]"

section \<open>Input, output and calls\<close>

text \<open>The queue asks the serial port when it is empty; an exhausted port has nothing more to say.\<close>

definition next_answer :: "'w at_state \<Rightarrow> chunk option" where
  "next_answer s = Some (case answers s of [] \<Rightarrow> (0, []) | a # _ \<Rightarrow> a)"

definition after_ask :: "'w at_state \<Rightarrow> chunk list" where
  "after_ask s = (if qcnt (queue s) \<le> 0 then tl (answers s) else answers s)"

definition queue_get :: "'w at_state \<Rightarrow> u8 option \<times> 'w at_state" where
  "queue_get s =
     (case at_queue_get (next_answer s) (queue s) of
        (e, b, q) \<Rightarrow> (if e = AQEC_OK then b else None, s\<lparr>queue := q, answers := after_ask s\<rparr>))"

definition queue_peek :: "'w at_state \<Rightarrow> u8 option \<times> 'w at_state" where
  "queue_peek s =
     (case at_queue_peek (next_answer s) (queue s) of
        (e, b, q) \<Rightarrow> (if e = AQEC_OK then b else None, s\<lparr>queue := q, answers := after_ask s\<rparr>))"

text \<open>A text that does not fit the buffer of 1024 bytes stops in AT_ERR.\<close>

definition at_dump :: "string \<Rightarrow> 'w at_state \<Rightarrow> 'w at_state option" where
  "at_dump t s =
     (if length t < MAX_DUMP_BUFF_SIZE
      then Some (if dump_cb (at_callback s) then s\<lparr>dumped := dumped s @ [t]\<rparr> else s)
      else None)"

fun at_dumps :: "string list \<Rightarrow> 'w at_state \<Rightarrow> 'w at_state option" where
  "at_dumps [] s = Some s"
| "at_dumps (t # ts) s = at_dump t s \<bind> at_dumps ts"

definition call_cb :: "'w handle_cb_t \<Rightarrow> AT_CALLBACK_CMD \<Rightarrow> 'w at_state \<Rightarrow> AT_ERROR_CODE \<times> (int \<times> int) \<times> 'w at_state" where
  "call_cb f c s =
     (case f c (at_cfg s) (at_sts s) (world s) of
        (aec, rsp, cfg, sts, w) \<Rightarrow> (aec, rsp, s\<lparr>at_cfg := cfg, at_sts := sts, world := w\<rparr>))"

text \<open>The callback is called if there is one, and its answer ignored.\<close>

definition notify_cb :: "AT_CALLBACK_CMD \<Rightarrow> 'w at_m" where
  "notify_cb c s =
     (case handle_cb (at_callback s) of
        None \<Rightarrow> Some (AEC_OK, s)
      | Some f \<Rightarrow> Some (AEC_OK, snd (snd (call_cb f c s))))"

section \<open>Operations of at_common.c, at_wlan.c, at_config.c and at_status.c\<close>

definition at_act :: "'w at_m" where "at_act = notify_cb ACC_ACT"

definition at_reset :: "'w at_m" where
  "at_reset s =
     (case handle_cb (at_callback s) of
        None \<Rightarrow> Some (AEC_OK, s)
      | Some f \<Rightarrow> do {
          s1 \<leftarrow> at_dump (''Reboot...'' @ crlf) s;
          Some (AEC_OK, snd (snd (call_cb f ACC_RST s1)))
        })"

definition at_ping :: "string \<Rightarrow> 'w at_m" where "at_ping hostname = notify_cb (ACC_PING hostname)"
definition at_wifi :: "int \<Rightarrow> 'w at_m" where "at_wifi v = notify_cb (ACC_WIFI v)"
definition at_reassociate :: "'w at_m" where "at_reassociate = notify_cb ACC_REASSOCIATE"
definition at_factory :: "'w at_m" where "at_factory = notify_cb ACC_FACTORY"
definition at_save :: "'w at_m" where "at_save = notify_cb ACC_SAVE"

definition at_scan :: "string option \<Rightarrow> string option \<Rightarrow> 'w at_m" where
  "at_scan mode rep s =
     (case (mode, rep) of
        (None, None) \<Rightarrow> notify_cb (ACC_SCAN 0) s
      | (Some m, Some r) \<Rightarrow>
          if m = ''a'' \<and> r = ''r'' then notify_cb (ACC_SCAN 1) s
          else if m = ''p'' \<and> r = ''r'' then notify_cb (ACC_SCAN 2) s
          else Some (AEC_PARA_ERROR, s)
      | _ \<Rightarrow> Some (AEC_PARA_ERROR, s))"

definition at_status :: "string option \<Rightarrow> 'w at_m" where
  "at_status sv s = do {
     (_, s1) \<leftarrow> notify_cb ACC_STATUS s;
     let (aec, ts) = at_status_lines sv (at_sts s1);
     s2 \<leftarrow> at_dumps ts s1;
     Some (aec, s2)
   }"

text \<open>Those of at_config.c, on the state.\<close>

definition do_getcfg :: "string \<Rightarrow> 'w at_m" where
  "do_getcfg key s = (let (aec, ts) = at_getcfg key (at_cfg s) in at_dumps ts s \<bind> (\<lambda>s1. Some (aec, s1)))"

definition do_config :: "'w at_m" where
  "do_config s = (let (aec, ts) = at_config (at_cfg s) in at_dumps ts s \<bind> (\<lambda>s1. Some (aec, s1)))"

definition do_setcfg :: "string \<Rightarrow> at_value_t \<Rightarrow> 'w at_m" where
  "do_setcfg key v s = (let (aec, mem) = at_setcfg key v (at_cfg s) in Some (aec, s\<lparr>at_cfg := mem\<rparr>))"

definition do_ssidtxt :: "string \<Rightarrow> 'w at_m" where
  "do_ssidtxt ssid s = (let (aec, mem) = at_ssidtxt ssid (at_cfg s) in Some (aec, s\<lparr>at_cfg := mem\<rparr>))"

section \<open>Sockets and data mode\<close>

text \<open>\<open>strtol\<close> to base ten: blanks, a sign, digits, saturating.\<close>

definition strtol10 :: "string \<Rightarrow> int" where
  "strtol10 str =
     (let t = dropWhile (\<lambda>c. code c = 32 \<or> 9 \<le> code c \<and> code c \<le> 13) str;
          neg = (cur t = CHR ''-'');
          ds = takeWhile is_dec (if neg \<or> cur t = CHR ''+'' then tl t else t);
          n = int (dec_val ds)
      in if neg then max (- 2147483648) (- n) else min n 2147483647)"

definition protocol_no :: "string \<Rightarrow> int" where
  "protocol_no protocol = (if protocol = ''u'' then 1 else 0)"

text \<open>\<open>%0wd\<close>.\<close>

definition dec_width :: "nat \<Rightarrow> int \<Rightarrow> string" where
  "dec_width w i =
     (let ds = dec_digits (nat \<bar>i\<bar>); sg = (if i < 0 then ''-'' else [])
      in sg @ replicate (w - length ds - length sg) (CHR ''0'') @ ds)"

definition at_sockon :: "string \<Rightarrow> int \<Rightarrow> string \<Rightarrow> string \<Rightarrow> 'w at_m" where
  "at_sockon hostname port protocol ind s =
     (case handle_cb (at_callback s) of
        None \<Rightarrow> Some (AEC_UNDEFINED, s)
      | Some f \<Rightarrow>
          (case call_cb f (ACC_SOCKON hostname port (protocol_no protocol) (if ind = ''ind'' then 1 else 0)) s of
             (aec, (typ, vptr), s1) \<Rightarrow>
               if aec = AEC_OK \<and> typ = 0
               then at_dump (''ID: '' @ dec_width 2 vptr @ crlf) s1 \<bind> (\<lambda>s2. Some (aec, s2))
               else Some (aec, s1)))"

partial_function (option) wait_byte :: "'w at_state \<Rightarrow> (u8 \<times> 'w at_state) option" where
  "wait_byte s = (case queue_get s of (Some b, s1) \<Rightarrow> Some (b, s1) | (None, s1) \<Rightarrow> wait_byte s1)"

fun wait_bytes :: "nat \<Rightarrow> 'w at_state \<Rightarrow> (u8 list \<times> 'w at_state) option" where
  "wait_bytes 0 s = Some ([], s)"
| "wait_bytes (Suc n) s = do {
     (b, s1) \<leftarrow> wait_byte s;
     (bs, s2) \<leftarrow> wait_bytes n s1;
     Some (b # bs, s2)
   }"

function sockw_loop :: "int \<Rightarrow> int \<Rightarrow> 'w at_m" where
  "sockw_loop sid len s =
     (if len \<le> 0 then Some (AEC_OK, s)
      else let rlen = min len (int AT_SOCKET_BUFFER_SIZE)
           in do {
             (bs, s1) \<leftarrow> wait_bytes (nat rlen) s;
             case handle_cb (at_callback s1) of
               None \<Rightarrow> sockw_loop sid (len - rlen) s1
             | Some f \<Rightarrow>
                 (case call_cb f (ACC_SOCKW sid bs) s1 of
                    (aec, _, s2) \<Rightarrow> if aec \<noteq> AEC_OK then Some (AEC_SEND_FAIL, s2) else sockw_loop sid (len - rlen) s2)
           })"
  by pat_completeness auto
termination
  by (relation "measure (\<lambda>(sid, len, s). nat len)") (auto simp: AT_SOCKET_BUFFER_SIZE_def)

declare sockw_loop.simps [simp del]

definition at_sockw :: "string \<Rightarrow> int \<Rightarrow> 'w at_m" where
  "at_sockw sid len = sockw_loop (strtol10 sid) len"

definition at_sockq :: "string \<Rightarrow> 'w at_m" where
  "at_sockq sid s =
     (case handle_cb (at_callback s) of
        None \<Rightarrow> Some (AEC_UNDEFINED, s)
      | Some f \<Rightarrow>
          (case call_cb f (ACC_SOCKQ (strtol10 sid)) s of
             (aec, (typ, vptr), s1) \<Rightarrow>
               if aec = AEC_OK \<and> typ = 0
               then at_dump (''DATALEN: '' @ dec_width 0 vptr @ crlf) s1 \<bind> (\<lambda>s2. Some (aec, s2))
               else Some (aec, s1)))"

definition at_sockr :: "string \<Rightarrow> int \<Rightarrow> 'w at_m" where
  "at_sockr sid len = notify_cb (ACC_SOCKR (strtol10 sid) len)"

definition at_sockc :: "string \<Rightarrow> 'w at_m" where
  "at_sockc sid s =
     (case handle_cb (at_callback s) of
        None \<Rightarrow> Some (AEC_UNDEFINED, s)
      | Some f \<Rightarrow> (case call_cb f (ACC_SOCKC (strtol10 sid)) s of (aec, _, s1) \<Rightarrow> Some (aec, s1)))"

definition at_sockd :: "int \<Rightarrow> string \<Rightarrow> 'w at_m" where
  "at_sockd port protocol = notify_cb (ACC_SOCKD port (protocol_no protocol))"

text \<open>Data mode: what is in the queue, up to the size of the buffer, goes to the application, until it is the
  escape sequence with at most two bytes more, or the application refuses.\<close>

fun mode_fill :: "nat \<Rightarrow> 'w at_state \<Rightarrow> u8 list \<times> 'w at_state" where
  "mode_fill 0 s = ([], s)"
| "mode_fill (Suc n) s =
     (case queue_get s of
        (None, s1) \<Rightarrow> ([], s1)
      | (Some b, s1) \<Rightarrow> (case mode_fill n s1 of (bs, s2) \<Rightarrow> (b # bs, s2)))"

fun strncmp_eq :: "nat \<Rightarrow> u8 list \<Rightarrow> u8 list \<Rightarrow> bool" where
  "strncmp_eq (Suc n) (x # xs) (y # ys) = (x = y \<and> (x = 0 \<or> strncmp_eq n xs ys))"
| "strncmp_eq 0 xs ys = True"
| "strncmp_eq (Suc n) xs ys = False"

definition escape_mem :: "u8 list \<Rightarrow> u8 list" where
  "escape_mem mem = drop (offsetof at_config_t ''escape_seq'') mem"

definition is_escape :: "nat \<Rightarrow> u8 list \<Rightarrow> u8 list \<Rightarrow> bool" where
  "is_escape escape_len mem bs =
     (2 < length bs \<and> escape_len \<le> length bs \<and> length bs \<le> escape_len + 2 \<and> strncmp_eq escape_len (escape_mem mem) bs)"

partial_function (option) mode_loop :: "'w handle_cb_t \<Rightarrow> nat \<Rightarrow> 'w at_state \<Rightarrow> 'w at_state option" where
  "mode_loop f escape_len s =
     (case mode_fill AT_SOCKET_BUFFER_SIZE s of
        (bs, s1) \<Rightarrow>
          if is_escape escape_len (at_cfg s1) bs then at_dump (''Exit data mode.'' @ crlf) s1
          else (case call_cb f (ACC_MODE bs) s1 of
                  (aec, _, s2) \<Rightarrow>
                    if aec \<noteq> AEC_OK then at_dump (''Exit data mode.'' @ crlf) s2 else mode_loop f escape_len s2))"

definition at_mode :: "'w at_m" where
  "at_mode s =
     (case handle_cb (at_callback s) of
        None \<Rightarrow> Some (AEC_OK, s)
      | Some f \<Rightarrow> do {
          let escape_len = length (takeWhile (\<lambda>b. b \<noteq> 0) (escape_mem (at_cfg s)));
          s1 \<leftarrow> at_dump (''Enter data mode.'' @ crlf) s;
          s2 \<leftarrow> mode_loop f escape_len s1;
          Some (AEC_OK, s2)
        })"

section \<open>Handlers\<close>

definition para_d :: "AT_PARA_TYPE \<Rightarrow> u32 \<Rightarrow> u32 \<Rightarrow> at_para_descriptor_t" where
  "para_d t e n = \<lparr>pt = t, option = e OR (n AND 127)\<rparr>"

text \<open>The members of a handler's parameter structure: what was read, or the default.\<close>

definition text_of :: "at_value_t list \<Rightarrow> nat \<Rightarrow> string \<Rightarrow> string" where
  "text_of vs i dflt = (if i < length vs then (case vs ! i of V_text t \<Rightarrow> cstr t | _ \<Rightarrow> dflt) else dflt)"

definition di_of :: "at_value_t list \<Rightarrow> nat \<Rightarrow> int" where
  "di_of vs i = (if i < length vs then (case vs ! i of V_di n \<Rightarrow> n | _ \<Rightarrow> 0) else 0)"

text \<open>The two shapes of a handler: a command that takes no parameter, and one that takes a list of them.\<close>

definition no_paras :: "'w at_m \<Rightarrow> string \<Rightarrow> 'w at_m" where
  "no_paras act p s =
     (case at_get_parameters [] p of (res, _, _) \<Rightarrow> if res \<noteq> AEC_OK then Some (AEC_PARA_ERROR, s) else act s)"

definition with_paras :: "at_para_descriptor_t list \<Rightarrow> (at_value_t list \<Rightarrow> string \<Rightarrow> 'w at_m) \<Rightarrow> string \<Rightarrow> 'w at_m" where
  "with_paras ds act p s =
     (case at_get_parameters ds (tl p) of
        (res, r, vs) \<Rightarrow> if res \<noteq> AEC_OK then Some (AEC_PARA_ERROR, s) else act vs r s)"

definition attention_handler :: "string \<Rightarrow> 'w at_m" where
  "attention_handler p s = (case at_get_parameters [] p of (res, _, _) \<Rightarrow> Some (res, s))"

definition act_handler :: "string \<Rightarrow> 'w at_m" where "act_handler = no_paras at_act"
definition reset_handler :: "string \<Rightarrow> 'w at_m" where "reset_handler = no_paras at_reset"

definition getcfg_handler :: "string \<Rightarrow> 'w at_m" where
  "getcfg_handler p =
     (if cur p \<noteq> AT_EQU then (\<lambda>s. Some (AEC_NO_PARA, s))
      else with_paras [para_d APT_TEXT AET_LINE 64]
             (\<lambda>vs r s. if length vs \<noteq> 1 then Some (AEC_PARA_ERROR, s) else do_getcfg (text_of vs 0 []) s) p)"

definition cmd_value_list :: "at_para_descriptor_t list" where
  "cmd_value_list =
    [para_d APT_TEXT AET_LINE 64, para_d APT_HEX AET_LINE 64, para_d APT_DI AET_LINE 4,
     para_d APT_HI AET_LINE 4, para_d APT_IP AET_LINE 4]"

text \<open>The key comes first; its type says how the value is read.\<close>

definition setcfg_handler :: "string \<Rightarrow> 'w at_m" where
  "setcfg_handler p =
     (if cur p \<noteq> AT_EQU then (\<lambda>s. Some (AEC_NO_PARA, s))
      else with_paras [para_d APT_TEXT AET_PARA 64]
        (\<lambda>ks r s.
           if length ks \<noteq> 1 then Some (AEC_PARA_ERROR, s)
           else case find (\<lambda>d. Some (pt d) = at_typecfg (text_of ks 0 [])) cmd_value_list of
                  None \<Rightarrow> Some (AEC_NOT_FOUND, s)
                | Some d \<Rightarrow>
                    (case at_get_parameters [d] r of
                       (res, _, vs) \<Rightarrow>
                         if res \<noteq> AEC_OK then Some (AEC_PARA_ERROR, s)
                         else if length vs \<noteq> 1 then Some (AEC_PARA_ERROR, s)
                         else do_setcfg (text_of ks 0 []) (vs ! 0) s)) p)"

definition ssidtxt_handler :: "string \<Rightarrow> 'w at_m" where
  "ssidtxt_handler p =
     (if cur p \<noteq> AT_EQU then (\<lambda>s. Some (AEC_NO_PARA, s))
      else with_paras [para_d APT_TEXT AET_LINE 64]
             (\<lambda>vs r s. if length vs \<noteq> 1 then Some (AEC_PARA_ERROR, s) else do_ssidtxt (text_of vs 0 []) s) p)"

definition config_handler :: "string \<Rightarrow> 'w at_m" where "config_handler = no_paras do_config"
definition factory_handler :: "string \<Rightarrow> 'w at_m" where "factory_handler = no_paras at_factory"
definition save_handler :: "string \<Rightarrow> 'w at_m" where "save_handler = no_paras at_save"

definition status_handler :: "string \<Rightarrow> 'w at_m" where
  "status_handler p =
     (if cur p \<noteq> AT_EQU then no_paras (at_status None) p
      else with_paras [para_d APT_TEXT AET_LINE 64]
             (\<lambda>vs r s. if length vs \<noteq> 1 then Some (AEC_PARA_ERROR, s) else at_status (Some (text_of vs 0 [])) s) p)"

definition ping_handler :: "string \<Rightarrow> 'w at_m" where
  "ping_handler p =
     (if cur p \<noteq> AT_EQU then (\<lambda>s. Some (AEC_NO_PARA, s))
      else with_paras [para_d APT_TEXT AET_LINE 64]
             (\<lambda>vs r s. if length vs \<noteq> 1 then Some (AEC_PARA_ERROR, s) else at_ping (text_of vs 0 []) s) p)"

definition sockon_handler :: "string \<Rightarrow> 'w at_m" where
  "sockon_handler p =
     (if cur p \<noteq> AT_EQU then (\<lambda>s. Some (AEC_NO_PARA, s))
      else with_paras
        [para_d APT_TEXT AET_PARA 64, para_d APT_DI AET_PARA 4,
         para_d APT_TEXT (AET_PARA OR AET_LINE) 2, para_d APT_TEXT AET_LINE 4]
        (\<lambda>vs r s.
           let port = di_of vs 1; protocol = text_of vs 2 ''t''; ind = text_of vs 3 []
           in if length vs < 3 then Some (AEC_PARA_ERROR, s)
              else if port < 0 \<or> 65535 < port then Some (AEC_OUT_OF_RANGE, s)
              else if protocol \<noteq> ''t'' \<and> protocol \<noteq> ''u'' then Some (AEC_PARA_ERROR, s)
              else if length vs = 4 \<and> ind \<noteq> ''ind'' then Some (AEC_PARA_ERROR, s)
              else at_sockon (text_of vs 0 []) port protocol ind s) p)"

definition sockw_handler :: "string \<Rightarrow> 'w at_m" where
  "sockw_handler p =
     (if cur p \<noteq> AT_EQU then (\<lambda>s. Some (AEC_NO_PARA, s))
      else with_paras [para_d APT_TEXT AET_PARA 64, para_d APT_DI AET_LINE 4]
             (\<lambda>vs r s. if length vs < 2 then Some (AEC_PARA_ERROR, s) else at_sockw (text_of vs 0 []) (di_of vs 1) s) p)"

definition sockq_handler :: "string \<Rightarrow> 'w at_m" where
  "sockq_handler p =
     (if cur p \<noteq> AT_EQU then (\<lambda>s. Some (AEC_NO_PARA, s))
      else with_paras [para_d APT_TEXT AET_LINE 64]
             (\<lambda>vs r s. if length vs < 1 then Some (AEC_PARA_ERROR, s) else at_sockq (text_of vs 0 []) s) p)"

definition sockr_handler :: "string \<Rightarrow> 'w at_m" where
  "sockr_handler p =
     (if cur p \<noteq> AT_EQU then (\<lambda>s. Some (AEC_NO_PARA, s))
      else with_paras [para_d APT_TEXT AET_PARA 64, para_d APT_DI AET_LINE 4]
             (\<lambda>vs r s. if length vs < 2 then Some (AEC_PARA_ERROR, s) else at_sockr (text_of vs 0 []) (di_of vs 1) s) p)"

definition sockc_handler :: "string \<Rightarrow> 'w at_m" where
  "sockc_handler p =
     (if cur p \<noteq> AT_EQU then (\<lambda>s. Some (AEC_NO_PARA, s))
      else with_paras [para_d APT_TEXT AET_LINE 64]
             (\<lambda>vs r s. if length vs < 1 then Some (AEC_PARA_ERROR, s) else at_sockc (text_of vs 0 []) s) p)"

definition sockd_handler :: "string \<Rightarrow> 'w at_m" where
  "sockd_handler p =
     (if cur p \<noteq> AT_EQU then (\<lambda>s. Some (AEC_NO_PARA, s))
      else with_paras [para_d APT_DI (AET_PARA OR AET_LINE) 4, para_d APT_TEXT AET_LINE 2]
        (\<lambda>vs r s.
           let port = di_of vs 0; protocol = text_of vs 1 ''t''
           in if length vs < 1 then Some (AEC_PARA_ERROR, s)
              else if port < 0 \<or> 65535 < port then Some (AEC_OUT_OF_RANGE, s)
              else if protocol \<noteq> ''t'' \<and> protocol \<noteq> ''u'' then Some (AEC_PARA_ERROR, s)
              else at_sockd port protocol s) p)"

definition mode_handler :: "string \<Rightarrow> 'w at_m" where "mode_handler = no_paras at_mode"

definition wifi_handler :: "string \<Rightarrow> 'w at_m" where
  "wifi_handler p =
     (if cur p \<noteq> AT_EQU then (\<lambda>s. Some (AEC_NO_PARA, s))
      else with_paras [para_d APT_DI AET_LINE 4]
        (\<lambda>vs r s.
           if length vs \<noteq> 1 then Some (AEC_PARA_ERROR, s)
           else if 0 \<le> di_of vs 0 \<and> di_of vs 0 \<le> 1 then at_wifi (di_of vs 0) s
           else Some (AEC_OUT_OF_RANGE, s)) p)"

definition reassociate_handler :: "string \<Rightarrow> 'w at_m" where "reassociate_handler = no_paras at_reassociate"

definition scan_handler :: "string \<Rightarrow> 'w at_m" where
  "scan_handler p =
     (if cur p \<noteq> AT_EQU then no_paras (at_scan None None) p
      else with_paras [para_d APT_TEXT AET_PARA 2, para_d APT_TEXT AET_LINE 2]
        (\<lambda>vs r s.
           if length vs < 2 then Some (AEC_PARA_ERROR, s)
           else if text_of vs 0 [] \<noteq> ''a'' \<and> text_of vs 0 [] \<noteq> ''p'' then Some (AEC_PARA_ERROR, s)
           else if text_of vs 1 [] \<noteq> ''r'' then Some (AEC_PARA_ERROR, s)
           else at_scan (Some (text_of vs 0 [])) (Some (text_of vs 1 [])) s) p)"

section \<open>The command table\<close>

text \<open>The table of commands, with what AT+S.HELP prints for each.\<close>

definition at_usage :: "(string \<times> string) list" where
  "at_usage =
    [(''AT'', '' -- Null cmd, always returns OK''),
     (''AT+ACT'', '' -- Switch WiFi work mode''),
     (''AT+RST'', '' -- Reset the module''),
     (''AT+S.HELP'', '' -- This text''),
     (''AT+S.GCFG'', '' =<key> -- Get config key''),
     (''AT+S.SCFG'', '' =<key>,<value> -- Set config key''),
     (''AT+S.SSIDTXT'', '' [=<ssidtxt>] -- Set a textual SSID (not hex), otherwise prints current SSID''),
     (''AT&V'', '' -- Dump all settings''),
     (''AT&F'', '' -- Restore factory default settings''),
     (''AT&W'', '' -- Save current settings to flash''),
     (''AT+S.STS'', '' [=<sts_var>] -- Report current status/statistics''),
     (''AT+S.PING'', '' =<hostname> -- Send a ping to a specified host''),
     (''AT+S.SOCKON'', '' =<hostname>,<port>,<t|u> -- Open a network socket''),
     (''AT+S.SOCKW'', '' =<id>,<len> -- Write data to socket''),
     (''AT+S.SOCKQ'', '' =<id> -- Query socket for pending data''),
     (''AT+S.SOCKR'', '' =<id>,<len> -- Read data from socket''),
     (''AT+S.SOCKC'', '' =<id> -- Close socket''),
     (''AT+S.SOCKD'', '' =<0|port>,<t|u> -- Disable/Enable socket server. Default is TCP''),
     (''AT+S.'', '' -- Switch to data mode''),
     (''AT+S.WIFI'', '' =<0|1> -- Disable/Enable WiFi''),
     (''AT+S.ROAM'', '' -- Trigger a WiFi Roam''),
     (''AT+S.SCAN'', '' -- Perform a scan'')]"

definition at_help :: "'w at_m" where
  "at_help s = at_dumps (map (\<lambda>(cmd, usage). ''# '' @ cmd @ usage @ crlf) at_usage) s \<bind> (\<lambda>s1. Some (AEC_OK, s1))"

definition help_handler :: "string \<Rightarrow> 'w at_m" where "help_handler = no_paras at_help"

definition at_handlers :: "(string \<Rightarrow> 'w at_m) list" where
  "at_handlers =
    [attention_handler, act_handler, reset_handler, help_handler, getcfg_handler, setcfg_handler,
     ssidtxt_handler, config_handler, factory_handler, save_handler, status_handler, ping_handler,
     sockon_handler, sockw_handler, sockq_handler, sockr_handler, sockc_handler, sockd_handler,
     mode_handler, wifi_handler, reassociate_handler, scan_handler]"

definition at_command_table :: "(string \<times> (string \<Rightarrow> 'w at_m)) list" where
  "at_command_table = zip (map fst at_usage) at_handlers"

definition at_match :: "string \<Rightarrow> (string \<Rightarrow> 'w at_m) option" where
  "at_match cmd = map_of at_command_table (cstr cmd)"

section \<open>The parser\<close>

text \<open>The command is what stands before an equals sign or a newline, 32 characters at most.\<close>

fun cmd_scan :: "nat \<Rightarrow> string \<Rightarrow> string \<Rightarrow> (string \<times> string) option" where
  "cmd_scan 0 at_cmd p = Some (at_cmd, p)"
| "cmd_scan (Suc n) at_cmd p =
     (if cur p = AT_EQU \<or> cur p = AT_LF \<or> cur p = AT_CR then Some (at_cmd, p)
      else if length at_cmd < AT_CMD_MAX_SIZE then cmd_scan n (at_cmd @ [cur p]) (tl p)
      else None)"

definition at_parse_cmd :: "string \<Rightarrow> nat \<Rightarrow> 'w at_m" where
  "at_parse_cmd cmdline sz s =
     (case cmd_scan sz [] cmdline of
        None \<Rightarrow> Some (AEC_CMD_ERROR, s)
      | Some (at_cmd, p) \<Rightarrow>
          if at_cmd = [] then Some (AEC_BLANK_LINE, s)
          else case at_match at_cmd of
                 Some handler \<Rightarrow> handler p s
               | None \<Rightarrow> Some (AEC_CMD_ERROR, s))"

definition err_info :: "AT_ERROR_CODE \<Rightarrow> string option" where
  "err_info aec =
     (case aec of
        AEC_CMD_ERROR \<Rightarrow> Some ''Error command.''
      | AEC_NO_PARA \<Rightarrow> Some ''No parameter.''
      | AEC_PARA_ERROR \<Rightarrow> Some ''Error parameter.''
      | AEC_UNSUPPORTED \<Rightarrow> Some ''Unsupported.''
      | AEC_NOT_FOUND \<Rightarrow> Some ''Not found.''
      | AEC_NULL_POINTER \<Rightarrow> Some ''Null pointer.''
      | AEC_OUT_OF_RANGE \<Rightarrow> Some ''Out of range.''
      | AEC_SCAN_FAIL \<Rightarrow> Some ''Scan fail.''
      | AEC_READ_ONLY \<Rightarrow> Some ''Read only.''
      | AEC_SEND_FAIL \<Rightarrow> Some ''Send fail.''
      | AEC_CONNECT_FAIL \<Rightarrow> Some ''Connect fail.''
      | AEC_BIND_FAIL \<Rightarrow> Some ''Bind fail.''
      | AEC_SOCKET_FAIL \<Rightarrow> Some ''Socket fail.''
      | AEC_LIMITED \<Rightarrow> Some ''Limited.''
      | AEC_DISCONNECT \<Rightarrow> Some ''Disconnect.''
      | AEC_NETWORK_ERROR \<Rightarrow> Some ''Network error.''
      | AEC_NOT_ENOUGH_MEMORY \<Rightarrow> Some ''Not enough memory.''
      | AEC_IMPROPER_OPERATION \<Rightarrow> Some ''Improper operation.''
      | AEC_UNDEFINED \<Rightarrow> Some ''Undefined.''
      | _ \<Rightarrow> None)"

definition at_response :: "AT_ERROR_CODE \<Rightarrow> 'w at_state \<Rightarrow> 'w at_state option" where
  "at_response aec s =
     (if aec = AEC_OK then at_dump (crlf @ ''OK'' @ crlf) s
      else case err_info aec of
             Some info \<Rightarrow> at_dump (crlf @ ''ERROR: '' @ info @ crlf) s
           | None \<Rightarrow> Some s)"

text \<open>A store into the cache, and the stores that test its end first: they give None when the line is
  discarded.\<close>

definition cache_store :: "char \<Rightarrow> 'w at_state \<Rightarrow> 'w at_state" where
  "cache_store c s =
     s\<lparr>cache_cnt := cache_cnt s + 1, cache_buf := (cache_buf s)[cache_cnt s := c],
       overrun := overrun s \<or> CMD_CACHE_MAX_LEN \<le> cache_cnt s\<rparr>"

definition cache_add :: "char \<Rightarrow> 'w at_state \<Rightarrow> 'w at_state option" where
  "cache_add c s = (if cache_cnt s < CMD_CACHE_MAX_LEN then Some (cache_store c s) else None)"

definition cache_discard :: "'w at_state \<Rightarrow> 'w at_state" where
  "cache_discard s = s\<lparr>cache_cnt := 0\<rparr>"

text \<open>A byte of input: the state with the byte stored, or None for \<open>continue\<close> with what is then left.\<close>

definition take_char :: "char \<Rightarrow> 'w at_state \<Rightarrow> 'w at_state + 'w at_state" where
  "take_char tmp s =
     (if tmp = AT_LF
      then (case cache_add tmp s of
              None \<Rightarrow> Inl (cache_discard s)
            | Some s1 \<Rightarrow>
                (let s2 = s1\<lparr>line_flag := True\<rparr>
                 in case cache_add tmp s2 of None \<Rightarrow> Inl (cache_discard s2) | Some s3 \<Rightarrow> Inr s3))
      else if tmp = AT_CR
      then (let s1 = cache_store tmp s
            in case queue_peek s1 of
                 (b, s2) \<Rightarrow>
                   (let tmp1 = (case b of Some x \<Rightarrow> char_at x | None \<Rightarrow> tmp)
                    in if b \<noteq> None \<and> tmp1 = AT_LF
                       then (case queue_peek s2 of
                               (b2, s3) \<Rightarrow>
                                 (let tmp2 = (case b2 of Some x \<Rightarrow> char_at x | None \<Rightarrow> tmp1)
                                  in case cache_add tmp2 s3 of
                                       None \<Rightarrow> Inl (cache_discard s3)
                                     | Some s4 \<Rightarrow>
                                         (let s5 = s4\<lparr>line_flag := True\<rparr>
                                          in case cache_add tmp2 s5 of
                                               None \<Rightarrow> Inl (cache_discard s5)
                                             | Some s6 \<Rightarrow> Inr s6)))
                       else (let s3 = s2\<lparr>line_flag := True\<rparr>
                             in case cache_add tmp1 s3 of None \<Rightarrow> Inl (cache_discard s3) | Some s4 \<Rightarrow> Inr s4)))
      else (case cache_add tmp s of None \<Rightarrow> Inl (cache_discard s) | Some s1 \<Rightarrow> Inr s1))"

text \<open>The zero that ends the line for the echo is stored without a test.\<close>

definition cache_terminate :: "'w at_state \<Rightarrow> 'w at_state" where
  "cache_terminate s =
     s\<lparr>cache_buf := (cache_buf s)[cache_cnt s := CHR 0x00],
       overrun := overrun s \<or> CMD_CACHE_MAX_LEN \<le> cache_cnt s\<rparr>"

definition echo :: "'w at_state \<Rightarrow> 'w at_state option" where
  "echo s =
     (if cfg_word ''localecho1'' (at_cfg s) \<noteq> 0
      then (let s1 = cache_terminate s in at_dump (cstr (cache_buf s1)) s1)
      else Some s)"

definition finish_line :: "'w at_state \<Rightarrow> 'w at_state option" where
  "finish_line s =
     (if line_flag s
      then do {
        s1 \<leftarrow> echo s;
        (aec, s2) \<leftarrow> at_parse_cmd (cache_buf s1) (cache_cnt s1) s1;
        s3 \<leftarrow> at_response aec s2;
        Some (s3\<lparr>cache_cnt := 0, line_flag := False\<rparr>)
      }
      else Some s)"

text \<open>One turn of the endless loop of \<open>at_parse\<close>.\<close>

definition at_parse_turn :: "'w at_state \<Rightarrow> 'w at_state option" where
  "at_parse_turn s =
     (case queue_get s of
        (Some b, s1) \<Rightarrow> (case take_char (char_at b) s1 of Inl s2 \<Rightarrow> Some s2 | Inr s2 \<Rightarrow> finish_line s2)
      | (None, s1) \<Rightarrow> finish_line s1)"

fun at_parse_turns :: "nat \<Rightarrow> 'w at_state \<Rightarrow> 'w at_state option" where
  "at_parse_turns 0 s = Some s"
| "at_parse_turns (Suc n) s = at_parse_turn s \<bind> at_parse_turns n"

text \<open>The state in which \<open>at_parse\<close> starts after \<open>at_init\<close>; \<open>at_init\<close> loads the configuration, or the factory
  settings where that fails.\<close>

definition at_init :: "'w at_callback_t option \<Rightarrow> 'w at_m" where
  "at_init cb s =
     (case cb of
        None \<Rightarrow> Some (AEC_UNDEFINED, s\<lparr>at_callback := \<lparr>handle_cb = None, dump_cb = False\<rparr>\<rparr>)
      | Some c \<Rightarrow>
          (let s1 = s\<lparr>at_callback := c\<rparr>;
               s2 = (case handle_cb c of
                       None \<Rightarrow> s1
                     | Some f \<Rightarrow>
                         (case call_cb f ACC_LOAD s1 of
                            (aec, _, s2) \<Rightarrow> if aec \<noteq> AEC_OK then snd (snd (call_cb f ACC_FACTORY s2)) else s2))
           in Some (AEC_OK, s2\<lparr>cache_cnt := 0, cache_buf := replicate CMD_CACHE_MAX_LEN (CHR 0x00)\<rparr>)))"

end
