(* ===== verification/At_Session.thy ===== *)
theory At_Session
  imports At_Command
begin

text \<open>
  What a host that talks to the AT command interpreter can rely on: how a line gets from the serial port to
  its handler, what the configuration commands do, which stores stay in their buffers, and the read-only
  variables.
\<close>

section \<open>The bytes to come\<close>

text \<open>What the queue and the serial port hold, when the port delivers at least one byte at a time and no
  more than the ring takes.\<close>

definition pending :: "at_queue_t \<Rightarrow> chunk list \<Rightarrow> u8 list" where
  "pending q a = contents q @ concat (map snd a)"

definition port_ok :: "at_queue_t \<Rightarrow> chunk list \<Rightarrow> bool" where
  "port_ok q a = (ring_ok q \<and> list_all (\<lambda>(n, bs). n = int (length bs) \<and> bs \<noteq> [] \<and> n \<le> qsize q) a)"

definition io :: "at_queue_t \<Rightarrow> chunk list \<Rightarrow> 'w at_state \<Rightarrow> 'w at_state" where
  "io q a s = s\<lparr>queue := q, answers := a\<rparr>"

lemma io_fields [simp]:
  "queue (io q a s) = q" "answers (io q a s) = a" "at_cfg (io q a s) = at_cfg s" "at_sts (io q a s) = at_sts s"
  "at_callback (io q a s) = at_callback s" "cache_cnt (io q a s) = cache_cnt s"
  "cache_buf (io q a s) = cache_buf s" "line_flag (io q a s) = line_flag s" "overrun (io q a s) = overrun s"
  "dumped (io q a s) = dumped s" "world (io q a s) = world s" "io q a (io q' a' s) = io q a s"
  by (simp_all add: io_def)

lemma qsize_refill: "refill c q = Some q1 \<Longrightarrow> qsize q1 = qsize q"
proof -
  have "qsize (foldl put_byte q bs) = qsize q" for bs q
    by (induction bs arbitrary: q) (simp_all add: put_byte_def)
  then show "refill c q = Some q1 \<Longrightarrow> qsize q1 = qsize q"
    by (auto simp: refill_def split: option.splits if_splits prod.splits)
qed

text \<open>The queue's refill on a port that is in order.\<close>

lemma refill_port:
  assumes p: "port_ok q a" and b: "pending q a = b # bs"
  shows "\<exists>q1 a1. refill (Some (case a of [] \<Rightarrow> (0, []) | x # _ \<Rightarrow> x)) q = Some q1 \<and>
    (if qcnt q \<le> 0 then tl a else a) = a1 \<and> port_ok q1 a1 \<and> 0 < qcnt q1 \<and> pending q1 a1 = b # bs"
proof (cases "contents q")
  case Nil
  have r: "ring_ok q" using p by (simp add: port_ok_def)
  have z: "qcnt q \<le> 0" using Nil contents_empty [OF r] by simp
  obtain n cs a1 where a: "a = (n, cs) # a1" using b Nil by (cases a) (auto simp: pending_def)
  have c: "n = int (length cs)" "cs \<noteq> []" "int (length cs) \<le> qsize q" using p by (auto simp: port_ok_def a)
  obtain q1 where q1: "refill (Some (int (length cs), cs)) q = Some q1" "ring_ok q1" "0 < qcnt q1" "contents q1 = cs"
    "qsize q1 = qsize q"
    using refill_ok [OF r c(2,3)] Nil by auto
  show ?thesis using q1 z p b Nil by (auto simp: a c(1) port_ok_def pending_def)
next
  case (Cons x xs)
  have r: "ring_ok q" using p by (simp add: port_ok_def)
  then have z: "0 < qcnt q" using Cons contents_empty [OF r] by (auto simp: ring_ok_def)
  then show ?thesis using p b by (auto simp: refill_def)
qed

lemma queue_get_port:
  assumes "port_ok (queue s) (answers s)" "pending (queue s) (answers s) = b # bs"
  shows "\<exists>q a. queue_get s = (Some b, io q a s) \<and> port_ok q a \<and> pending q a = bs"
proof -
  obtain q1 a1 where q1: "refill (next_answer s) (queue s) = Some q1" "after_ask s = a1" "port_ok q1 a1" "0 < qcnt q1"
    "pending q1 a1 = b # bs"
    using refill_port [OF assms] by (auto simp: next_answer_def after_ask_def)
  let ?q = "q1\<lparr>ridx := wrap q1 (ridx q1), qcnt := qcnt q1 - 1\<rparr>"
  have r: "ring_ok q1" using q1(3) by (simp add: port_ok_def)
  note h = contents_head [OF r q1(4)]
  have "qbuf q1 ! ridx q1 = b" "pending ?q a1 = bs" using q1(5) h(1) by (simp_all add: pending_def)
  moreover have "port_ok ?q a1" using q1(3) h(2) by (simp add: port_ok_def)
  moreover have "queue_get s = (Some (qbuf q1 ! ridx q1), io ?q a1 s)"
    by (simp add: queue_get_def at_queue_get_def q1(1,2) io_def)
  ultimately show ?thesis by metis
qed

lemma queue_peek_port:
  assumes "port_ok (queue s) (answers s)" "pending (queue s) (answers s) = b # bs"
  shows "\<exists>q a. queue_peek s = (Some b, io q a s) \<and> port_ok q a \<and> pending q a = b # bs"
proof -
  obtain q1 a1 where q1: "refill (next_answer s) (queue s) = Some q1" "after_ask s = a1" "port_ok q1 a1" "0 < qcnt q1"
    "pending q1 a1 = b # bs"
    using refill_port [OF assms] by (auto simp: next_answer_def after_ask_def)
  have r: "ring_ok q1" using q1(3) by (simp add: port_ok_def)
  have "qbuf q1 ! ridx q1 = b" using q1(5) contents_head(1) [OF r q1(4)] by (simp add: pending_def)
  moreover have "queue_peek s = (Some (qbuf q1 ! ridx q1), io q1 a1 s)"
    by (simp add: queue_peek_def at_queue_peek_def q1(1,2) io_def)
  ultimately show ?thesis using q1(3,5) by auto
qed

section \<open>A line reaches the parser\<close>

definition plain_line :: "string \<Rightarrow> bool" where
  "plain_line line = list_all (\<lambda>c. c \<noteq> AT_CR \<and> c \<noteq> AT_LF) line"

definition collect :: "at_queue_t \<Rightarrow> chunk list \<Rightarrow> string \<Rightarrow> nat \<Rightarrow> bool \<Rightarrow> 'w at_state \<Rightarrow> 'w at_state" where
  "collect q a buf cnt fl s = s\<lparr>queue := q, answers := a, cache_buf := buf, cache_cnt := cnt, line_flag := fl\<rparr>"

lemma collect_fields [simp]:
  "queue (collect q a buf n fl s) = q" "answers (collect q a buf n fl s) = a"
  "at_cfg (collect q a buf n fl s) = at_cfg s" "at_sts (collect q a buf n fl s) = at_sts s"
  "at_callback (collect q a buf n fl s) = at_callback s" "cache_cnt (collect q a buf n fl s) = n"
  "cache_buf (collect q a buf n fl s) = buf" "line_flag (collect q a buf n fl s) = fl"
  "overrun (collect q a buf n fl s) = overrun s" "dumped (collect q a buf n fl s) = dumped s"
  "world (collect q a buf n fl s) = world s"
  "collect q' a' buf' n' fl' (collect q a buf n fl s) = collect q' a' buf' n' fl' s"
  by (simp_all add: collect_def)

lemma collect_self: "io q a s = collect q a (cache_buf s) (cache_cnt s) (line_flag s) s"
  by (simp add: io_def collect_def)

lemma cache_store_collect:
  "n < 1024 \<Longrightarrow> cache_store c (collect q a buf n fl s) = collect q a (buf[n := c]) (n + 1) fl s"
  by (simp add: cache_store_def collect_def CMD_CACHE_MAX_LEN_def)

lemma cache_add_collect:
  "n < 1024 \<Longrightarrow> cache_add c (collect q a buf n fl s) = Some (collect q a (buf[n := c]) (n + 1) fl s)"
  by (simp add: cache_add_def cache_store_collect CMD_CACHE_MAX_LEN_def)

lemma flag_collect: "(collect q a buf n fl s)\<lparr>line_flag := True\<rparr> = collect q a buf n True s"
  by (simp add: collect_def)

lemma queue_get_collect:
  assumes "port_ok q a" "pending q a = b # bs"
  shows "\<exists>q' a'. queue_get (collect q a buf n fl s) = (Some b, collect q' a' buf n fl s) \<and> port_ok q' a' \<and> pending q' a' = bs"
  using queue_get_port [of "collect q a buf n fl s" b bs] assms by (auto simp: collect_self)

lemma queue_peek_collect:
  assumes "port_ok q a" "pending q a = b # bs"
  shows "\<exists>q' a'. queue_peek (collect q a buf n fl s) = (Some b, collect q' a' buf n fl s) \<and> port_ok q' a' \<and> pending q' a' = b # bs"
  using queue_peek_port [of "collect q a buf n fl s" b bs] assms by (auto simp: collect_self)

lemma take_list_update_snoc: "n < length xs \<Longrightarrow> take (n + 1) (xs[n := x]) = take n xs @ [x]"
  by (simp add: take_Suc_conv_app_nth)

text \<open>Characters before the newline are collected.\<close>

lemma collect_turns:
  assumes "port_ok q a" "pending q a = map byte_of cs @ rest" "plain_line cs" "n + length cs \<le> 1024" "length buf = 1024"
  shows "\<exists>q' a' buf'. port_ok q' a' \<and> pending q' a' = rest \<and> length buf' = 1024 \<and>
    take (n + length cs) buf' = take n buf @ cs \<and>
    at_parse_turns (length cs) (collect q a buf n False s) = Some (collect q' a' buf' (n + length cs) False s)"
  using assms
proof (induction cs arbitrary: q a n buf)
  case Nil
  then show ?case by auto
next
  case (Cons c cs)
  obtain q1 a1 where g: "queue_get (collect q a buf n False s) = (Some (byte_of c), collect q1 a1 buf n False s)"
    "port_ok q1 a1" "pending q1 a1 = map byte_of cs @ rest"
    using queue_get_collect [OF Cons.prems(1), of "byte_of c" "map byte_of cs @ rest" buf n False s] Cons.prems(2) by auto
  have n: "n < 1024" and c: "c \<noteq> AT_CR" "c \<noteq> AT_LF" and cs: "plain_line cs"
    using Cons.prems by (auto simp: plain_line_def)
  have t: "at_parse_turn (collect q a buf n False s) = Some (collect q1 a1 (buf[n := c]) (n + 1) False s)"
    using n c by (simp add: at_parse_turn_def g(1) take_char_def cache_add_collect finish_line_def)
  obtain q' a' buf' where r: "port_ok q' a'" "pending q' a' = rest" "length buf' = 1024"
    "take (n + 1 + length cs) buf' = take (n + 1) (buf[n := c]) @ cs"
    "at_parse_turns (length cs) (collect q1 a1 (buf[n := c]) (n + 1) False s) = Some (collect q' a' buf' (n + 1 + length cs) False s)"
    using Cons.IH [OF g(2,3) cs, of "n + 1" "buf[n := c]"] Cons.prems(4,5) by auto
  have "take (n + 1) (buf[n := c]) = take n buf @ [c]"
    by (rule take_list_update_snoc) (use n Cons.prems(5) in simp)
  then show ?case using r t by (intro exI [of _ q'] exI [of _ a'] exI [of _ buf']) simp
qed

text \<open>The newline: carriage return, the line feed that is only looked at, and the line feed once more.\<close>

definition line_end :: string where "line_end = [AT_CR, AT_LF, AT_LF]"

lemma newline_chars [simp]: "AT_CR \<noteq> AT_LF" "AT_LF \<noteq> AT_CR" "AT_EQU \<noteq> AT_LF" "AT_EQU \<noteq> AT_CR" "AT_LF \<noteq> AT_EQU" "AT_CR \<noteq> AT_EQU"
  by (simp_all add: AT_CR_def AT_LF_def AT_EQU_def)

lemma add_3: "n + 3 = Suc (Suc (Suc n))"
  by simp

lemma take_three_updates:
  assumes "n + 3 \<le> length xs"
  shows "take (n + 3) (xs[n := x, n + 1 := y, n + 2 := z]) = take n xs @ [x, y, z]"
  using take_list_update_snoc [of "n + 2" "xs[n := x, n + 1 := y]" z]
    take_list_update_snoc [of "n + 1" "xs[n := x]" y] take_list_update_snoc [of n xs x] assms
  by (simp add: add_3)

lemma newline_turn:
  assumes "port_ok q a" "pending q a = map byte_of crlf @ rest" "n + 3 \<le> 1024" "length buf = 1024"
  shows "\<exists>q' a' buf'. port_ok q' a' \<and> pending q' a' = byte_of AT_LF # rest \<and> length buf' = 1024 \<and>
    take (n + 3) buf' = take n buf @ line_end \<and>
    at_parse_turn (collect q a buf n False s) = finish_line (collect q' a' buf' (n + 3) True s)"
proof -
  have b: "pending q a = byte_of AT_CR # byte_of AT_LF # rest" using assms(2) by (simp add: crlf_def)
  obtain q1 a1 where g: "queue_get (collect q a buf n False s) = (Some (byte_of AT_CR), collect q1 a1 buf n False s)"
    "port_ok q1 a1" "pending q1 a1 = byte_of AT_LF # rest"
    using queue_get_collect [OF assms(1) b] by metis
  obtain q2 a2 where p: "queue_peek (collect q1 a1 (buf[n := AT_CR]) (n + 1) False s) =
      (Some (byte_of AT_LF), collect q2 a2 (buf[n := AT_CR]) (n + 1) False s)"
    "port_ok q2 a2" "pending q2 a2 = byte_of AT_LF # rest"
    using queue_peek_collect [OF g(2,3)] by metis
  obtain q3 a3 where p3: "queue_peek (collect q2 a2 (buf[n := AT_CR]) (n + 1) False s) =
      (Some (byte_of AT_LF), collect q3 a3 (buf[n := AT_CR]) (n + 1) False s)"
    "port_ok q3 a3" "pending q3 a3 = byte_of AT_LF # rest"
    using queue_peek_collect [OF p(2,3)] by metis
  let ?buf = "buf[n := AT_CR, n + 1 := AT_LF, n + 2 := AT_LF]"
  have n: "n < 1024" "n + 1 < 1024" "n + 2 < 1024" using assms(3) by simp_all
  have "at_parse_turn (collect q a buf n False s) = finish_line (collect q3 a3 ?buf (n + 3) True s)"
    using n by (simp add: at_parse_turn_def g(1) take_char_def cache_store_collect p(1) [simplified]
      p3(1) [simplified] cache_add_collect flag_collect Let_def add_3)
  moreover have "take (n + 3) ?buf = take n buf @ line_end"
    unfolding line_end_def by (rule take_three_updates) (use assms in simp)
  ultimately show ?thesis using p3(2,3) assms(4)
    by (intro exI [of _ q3] exI [of _ a3] exI [of _ ?buf]) simp
qed

section \<open>Echo and responses\<close>

definition dump_to :: "string list \<Rightarrow> 'w at_state \<Rightarrow> 'w at_state" where
  "dump_to ts s = (if dump_cb (at_callback s) then s\<lparr>dumped := dumped s @ ts\<rparr> else s)"

definition echo_of :: "u8 list \<Rightarrow> string \<Rightarrow> string list" where
  "echo_of mem t = (if cfg_word ''localecho1'' mem \<noteq> 0 then [t] else [])"

definition ok_text :: string where "ok_text = crlf @ ''OK'' @ crlf"

lemma at_dump_short: "length t < 1024 \<Longrightarrow> at_dump t s = Some (dump_to [t] s)"
  by (simp add: at_dump_def dump_to_def MAX_DUMP_BUFF_SIZE_def)

lemma dump_to_fields [simp]:
  "queue (dump_to ts s) = queue s" "answers (dump_to ts s) = answers s" "at_cfg (dump_to ts s) = at_cfg s"
  "at_sts (dump_to ts s) = at_sts s" "at_callback (dump_to ts s) = at_callback s"
  "cache_cnt (dump_to ts s) = cache_cnt s" "cache_buf (dump_to ts s) = cache_buf s"
  "line_flag (dump_to ts s) = line_flag s" "overrun (dump_to ts s) = overrun s" "world (dump_to ts s) = world s"
  "dump_to [] s = s" "dump_to us (dump_to ts s) = dump_to (ts @ us) s"
  "dump_to ts (collect q a buf n fl s) = collect q a buf n fl (dump_to ts s)"
  "(dump_to ts s)\<lparr>at_cfg := m\<rparr> = dump_to ts (s\<lparr>at_cfg := m\<rparr>)"
  "(collect q a buf n fl s)\<lparr>at_cfg := m\<rparr> = collect q a buf n fl (s\<lparr>at_cfg := m\<rparr>)"
  "(collect q a buf n fl s)\<lparr>cache_cnt := k, line_flag := gl\<rparr> = collect q a buf k gl s"
  "dumped (dump_to ts s) = (if dump_cb (at_callback s) then dumped s @ ts else dumped s)"
  by (simp_all add: dump_to_def collect_def)

lemma nonul_take:
  assumes "list_all (\<lambda>c. c \<noteq> CHR 0x00) (take n xs)" "n < length xs"
  shows "cstr (xs[n := CHR 0x00]) = take n xs"
proof -
  have "xs[n := CHR 0x00] = take n xs @ CHR 0x00 # drop (Suc n) xs" by (rule upd_conv_take_nth_drop [OF assms(2)])
  moreover have "takeWhile P (as @ y # zs) = as" if "list_all P as" "\<not> P y" for P y and as zs :: "char list"
    using that takeWhile_append2 [of as P "y # zs"] by (simp add: list.pred_set)
  from this [OF assms(1)] have "takeWhile (\<lambda>c. c \<noteq> CHR 0x00) (take n xs @ CHR 0x00 # drop (Suc n) xs) = take n xs" by simp
  ultimately show ?thesis by (simp only: cstr_def)
qed

lemma echo_line:
  assumes "n < 1024" "length buf = 1024" "list_all (\<lambda>c. c \<noteq> CHR 0x00) (take n buf)"
  shows "\<exists>buf'. length buf' = 1024 \<and> take n buf' = take n buf \<and>
    echo (collect q a buf n True s) = Some (collect q a buf' n True (dump_to (echo_of (at_cfg s) (take n buf)) s))"
proof (cases "cfg_word ''localecho1'' (at_cfg s) = 0")
  case True
  then show ?thesis using assms by (intro exI [of _ buf]) (simp add: echo_def echo_of_def)
next
  case False
  have t: "cache_terminate (collect q a buf n True s) = collect q a (buf[n := CHR 0x00]) n True s"
    using assms(1) by (simp add: cache_terminate_def collect_def CMD_CACHE_MAX_LEN_def)
  have "cstr (buf[n := CHR 0x00]) = take n buf" by (rule nonul_take) (use assms in auto)
  then show ?thesis using assms False
    by (intro exI [of _ "buf[n := CHR 0x00]"]) (simp add: echo_def echo_of_def t at_dump_short)
qed

text \<open>Which bytes the port delivers for a line, and how the line is then served.\<close>

definition serve :: "string \<Rightarrow> nat \<Rightarrow> 'w at_state \<Rightarrow> 'w at_state option" where
  "serve buf n t = do {
     (aec, u) \<leftarrow> at_parse_cmd buf n t;
     v \<leftarrow> at_response aec u;
     Some (v\<lparr>cache_cnt := 0, line_flag := False\<rparr>)
   }"

lemma finish_serve:
  assumes "n < 1024" "length buf = 1024" "take n buf = t" "list_all (\<lambda>c. c \<noteq> CHR 0x00) t"
  shows "\<exists>r. length (t @ r) = 1024 \<and>
    finish_line (collect q a buf n True s) =
      serve (t @ r) n (collect q a (t @ r) n True (dump_to (echo_of (at_cfg s) t) s))"
proof -
  obtain buf' where b: "length buf' = 1024" "take n buf' = t"
    "echo (collect q a buf n True s) = Some (collect q a buf' n True (dump_to (echo_of (at_cfg s) t) s))"
    using echo_line [of n buf q a s] assms by auto
  have "buf' = t @ drop n buf'" using b(2) append_take_drop_id [of n buf'] by simp
  then show ?thesis using b(1,3) by (intro exI [of _ "drop n buf'"]) (simp add: finish_line_def serve_def)
qed

definition no_nul :: "string \<Rightarrow> bool" where "no_nul t = list_all (\<lambda>c. c \<noteq> CHR 0x00) t"

lemma no_nul_end: "no_nul (line @ line_end) = no_nul line"
  by (simp add: no_nul_def line_end_def AT_CR_def AT_LF_def)

lemma line_served:
  assumes "port_ok q a" "pending q a = map byte_of (line @ crlf) @ rest" "plain_line line" "no_nul line"
    "length line \<le> 1020" "length buf = 1024"
  shows "\<exists>q' a' r. port_ok q' a' \<and> pending q' a' = byte_of AT_LF # rest \<and> length (line @ line_end @ r) = 1024 \<and>
    at_parse_turns (length line + 1) (collect q a buf 0 False s) =
      serve (line @ line_end @ r) (length line + 3)
        (collect q' a' (line @ line_end @ r) (length line + 3) True (dump_to (echo_of (at_cfg s) (line @ line_end)) s))"
proof -
  have "pending q a = map byte_of line @ map byte_of crlf @ rest" "0 + length line \<le> 1024" using assms(2,5) by simp_all
  then obtain q1 a1 b1 where 1: "port_ok q1 a1" "pending q1 a1 = map byte_of crlf @ rest" "length b1 = 1024"
    "take (length line) b1 = line"
    "at_parse_turns (length line) (collect q a buf 0 False s) = Some (collect q1 a1 b1 (length line) False s)"
    using collect_turns [OF assms(1) _ assms(3) _ assms(6), of "map byte_of crlf @ rest" 0 s]
    unfolding take_0 append_Nil add_0 by metis
  have "length line + 3 \<le> 1024" using assms(5) by simp
  from newline_turn [OF 1(1,2) this 1(3), where s = s] obtain q2 a2 b2 where
    2: "port_ok q2 a2" "pending q2 a2 = byte_of AT_LF # rest" "length b2 = 1024"
    "take (length line + 3) b2 = line @ line_end"
    "at_parse_turn (collect q1 a1 b1 (length line) False s) = finish_line (collect q2 a2 b2 (length line + 3) True s)"
    using 1(4) by auto
  have nn: "list_all (\<lambda>c. c \<noteq> CHR 0x00) (line @ line_end)" using assms(4) no_nul_end by (simp only: no_nul_def)
  have "length line + 3 < 1024" using assms(5) by simp
  from finish_serve [OF this 2(3,4) nn, of q2 a2 s] obtain r where r: "length ((line @ line_end) @ r) = 1024"
    "finish_line (collect q2 a2 b2 (length line + 3) True s) = serve ((line @ line_end) @ r) (length line + 3)
       (collect q2 a2 ((line @ line_end) @ r) (length line + 3) True (dump_to (echo_of (at_cfg s) (line @ line_end)) s))"
    by blast
  have add: "at_parse_turns (m + 1) u = at_parse_turns m u \<bind> at_parse_turn" for m and u :: "'a at_state"
  proof (induction m arbitrary: u)
    case 0
    show ?case by (cases "at_parse_turn u") simp_all
  next
    case (Suc m)
    show ?case by (cases "at_parse_turn u") (simp_all add: Suc.IH [simplified])
  qed
  show ?thesis
    using 2(1,2) r unfolding add 1(5) by (intro exI [of _ q2] exI [of _ a2] exI [of _ r]) (simp add: 2(5))
qed

section \<open>Commands\<close>

lemma turns_add: "at_parse_turns (m + n) s = at_parse_turns m s \<bind> at_parse_turns n"
proof (induction m arbitrary: s)
  case 0
  show ?case by simp
next
  case (Suc m)
  show ?case by (cases "at_parse_turn s") (simp_all add: Suc.IH)
qed

lemma turns_trans: "at_parse_turns m s = Some t \<Longrightarrow> at_parse_turns n t = u \<Longrightarrow> at_parse_turns (m + n) s = u"
  by (simp add: turns_add)

lemma turns_one: "at_parse_turns 1 s = at_parse_turn s"
  by (cases "at_parse_turn s") simp_all

lemma cmd_scan_found:
  "list_all (\<lambda>c. c \<noteq> AT_EQU \<and> c \<noteq> AT_LF \<and> c \<noteq> AT_CR) cmd \<Longrightarrow> length acc + length cmd \<le> 32 \<Longrightarrow> length cmd < n \<Longrightarrow>
   cur p \<in> {AT_EQU, AT_LF, AT_CR} \<Longrightarrow> cmd_scan n acc (cmd @ p) = Some (acc @ cmd, p)"
proof (induction cmd arbitrary: acc n)
  case Nil
  then show ?case by (cases n) auto
next
  case (Cons c cmd)
  then obtain m where "n = Suc m" by (cases n) auto
  then show ?case using Cons by (simp add: cur_def AT_CMD_MAX_SIZE_def)
qed

lemma command_found:
  assumes "at_match cmd = Some h" "list_all (\<lambda>c. c \<noteq> AT_EQU \<and> c \<noteq> AT_LF \<and> c \<noteq> AT_CR) cmd" "length cmd \<le> 32" "cmd \<noteq> []"
    "length cmd < n" "cur p \<in> {AT_EQU, AT_LF, AT_CR}"
  shows "at_parse_cmd (cmd @ p) n s = h p s"
  using cmd_scan_found [of cmd "[]" n p] assms by (simp add: at_parse_cmd_def)

lemma match_scfg: "at_match ''AT+S.SCFG'' = Some setcfg_handler"
  and match_gcfg: "at_match ''AT+S.GCFG'' = Some getcfg_handler"
  and match_sockw: "at_match ''AT+S.SOCKW'' = Some sockw_handler"
  by (simp_all add: at_match_def at_command_table_def at_usage_def at_handlers_def cstr_def)

text \<open>A command that succeeds.\<close>

lemma serve_ok:
  assumes "at_parse_cmd buf n v = Some (AEC_OK, collect q a buf n True u)"
  shows "serve buf n v = Some (collect q a buf 0 False (dump_to [ok_text] u))"
proof -
  have "length ok_text < 1024" by (simp add: ok_text_def crlf_def)
  then have "at_response AEC_OK t = Some (dump_to [ok_text] t)" for t :: "'a at_state"
    unfolding at_response_def ok_text_def [symmetric] by (simp add: at_dump_short)
  then show ?thesis by (simp add: serve_def assms)
qed

text \<open>The line feed that was only looked at makes a blank line.\<close>

lemma lf_turn:
  assumes "port_ok q a" "pending q a = byte_of AT_LF # rest" "length buf = 1024"
  shows "\<exists>q' a' buf'. port_ok q' a' \<and> pending q' a' = rest \<and> length buf' = 1024 \<and>
    at_parse_turn (collect q a buf 0 False s) =
      Some (collect q' a' buf' 0 False (dump_to (echo_of (at_cfg s) [AT_LF, AT_LF]) s))"
proof -
  obtain q1 a1 where g: "queue_get (collect q a buf 0 False s) = (Some (byte_of AT_LF), collect q1 a1 buf 0 False s)"
    "port_ok q1 a1" "pending q1 a1 = rest"
    using queue_get_collect [OF assms(1,2)] by metis
  let ?buf = "buf[0 := AT_LF, 1 := AT_LF]"
  have t: "at_parse_turn (collect q a buf 0 False s) = finish_line (collect q1 a1 ?buf 2 True s)"
    by (simp add: at_parse_turn_def g(1) take_char_def cache_add_collect flag_collect Let_def numeral_2_eq_2)
  obtain x y zs where "buf = x # y # zs" using assms(3) by (cases buf; cases "tl buf") auto
  then have "take 2 ?buf = [AT_LF, AT_LF]" by simp
  moreover have "list_all (\<lambda>c. c \<noteq> CHR 0x00) [AT_LF, AT_LF]" by (simp add: AT_LF_def)
  ultimately obtain r where r: "length ([AT_LF, AT_LF] @ r) = 1024"
    "finish_line (collect q1 a1 ?buf 2 True s) = serve ([AT_LF, AT_LF] @ r) 2
       (collect q1 a1 ([AT_LF, AT_LF] @ r) 2 True (dump_to (echo_of (at_cfg s) [AT_LF, AT_LF]) s))"
    using finish_serve [of 2 ?buf "[AT_LF, AT_LF]" q1 a1 s] assms(3) by auto
  have b: "at_parse_cmd ([AT_LF, AT_LF] @ r) 2 u = Some (AEC_BLANK_LINE, u)" for u :: "'a at_state"
    by (simp add: at_parse_cmd_def numeral_2_eq_2 cur_def)
  have "finish_line (collect q1 a1 ?buf 2 True s) =
      Some (collect q1 a1 ([AT_LF, AT_LF] @ r) 0 False (dump_to (echo_of (at_cfg s) [AT_LF, AT_LF]) s))"
    unfolding r(2) serve_def b by (simp add: at_response_def err_info_def)
  then show ?thesis using g(2,3) r(1) t by metis
qed

section \<open>Setting and reading a variable\<close>

text \<open>A value that a host may send for a variable, what the handler makes of it (hex strings are filled up
  with zeros), and what is kept.\<close>

definition sendable :: "at_var_descriptor_t \<Rightarrow> at_value_t \<Rightarrow> bool" where
  "sendable d v =
     (case v of
        V_text s \<Rightarrow> v_pt d = APT_TEXT \<and> list_all plain s \<and> no_nul s \<and> s \<noteq> [] \<and> length s < v_vsize d
      | V_hex bs \<Rightarrow> v_pt d = APT_HEX \<and> bs \<noteq> [] \<and> length bs \<le> v_vsize d
      | V_di i \<Rightarrow> v_pt d = APT_DI \<and> 0 \<le> i \<and> i < 2147483648
      | V_hi w \<Rightarrow> v_pt d = APT_HI
      | V_ip bs \<Rightarrow> v_pt d = APT_IP \<and> length bs = 4)"

definition filled :: "nat \<Rightarrow> at_value_t \<Rightarrow> at_value_t" where
  "filled n v = (case v of V_hex bs \<Rightarrow> V_hex (bs @ replicate (n - length bs) 0) | _ \<Rightarrow> v)"

definition set_line :: "at_var_descriptor_t \<Rightarrow> at_value_t \<Rightarrow> string" where
  "set_line d v = ''AT+S.SCFG='' @ v_key d @ '','' @ at_text v"

definition get_line :: "at_var_descriptor_t \<Rightarrow> string" where
  "get_line d = ''AT+S.GCFG='' @ v_key d"

text \<open>The tables once more: keys can be sent, and no variable has more than 64 bytes.\<close>

lemma cfg_keys: "list_all (\<lambda>d. list_all plain (v_key d) \<and> no_nul (v_key d) \<and> v_key d \<noteq> [] \<and> length (v_key d) < 64 \<and> v_vsize d \<le> 64) at_cfg_table"
  unfolding at_cfg_table_rows by code_simp

lemma cfg_key:
  assumes "d \<in> set at_cfg_table"
  shows "list_all plain (v_key d)" "no_nul (v_key d)" "v_key d \<noteq> []" "length (v_key d) < 64" "v_vsize d \<le> 64"
proof -
  note k = cfg_keys [unfolded list_all_iff [of _ at_cfg_table], THEN bspec, OF assms]
  show "list_all plain (v_key d)" by (rule conjunct1 [OF k])
  show "no_nul (v_key d)" "v_key d \<noteq> []" "length (v_key d) < 64" "v_vsize d \<le> 64" using k by simp_all
qed

lemma hex_no_nul: "is_hex c \<Longrightarrow> c \<noteq> CHR 0x00"
  by (auto simp: is_hex_def code_def)

lemma hex_string: "list_all is_hex t \<Longrightarrow> list_all plain t \<and> no_nul t"
  unfolding no_nul_def using hex_no_nul hex_plain by (meson list.pred_mono_strong)

lemma dec_string: "list_all plain (dec_digits n) \<and> no_nul (dec_digits n)"
  by (rule hex_string) (meson dec_digits_dec dec_hex list.pred_mono_strong)

lemma concat_hex: "list_all is_hex (concat (map (\<lambda>b. hex_digits 2 (f b)) bs))"
  using hex_digits_hex by (induction bs) auto

lemma length_concat_hex: "length (concat (map (\<lambda>b. hex_digits 2 (f b)) bs)) = 2 * length bs"
  by (induction bs) auto

lemma dec_byte_short: "length (dec_digits (unat (b :: u8))) \<le> 3"
  using length_dec_digits [of "unat b" 3] unat_u8 [of b] by simp

lemma at_text_ok:
  assumes "sendable d v" "v_vsize d \<le> 64"
  shows "list_all plain (at_text v) \<and> no_nul (at_text v) \<and> length (at_text v) \<le> 128"
proof (cases v)
  case (V_text s)
  then show ?thesis using assms by (auto simp: sendable_def at_text_def)
next
  case (V_hex bs)
  then show ?thesis using assms hex_string [OF concat_hex] by (simp add: sendable_def at_text_def length_concat_hex)
next
  case (V_di i)
  then show ?thesis using assms dec_string length_dec_digits [of "nat i" 10]
    by (fastforce simp: sendable_def at_text_def)
next
  case (V_hi w)
  then show ?thesis using hex_string [OF hex_digits_hex] by (simp add: at_text_def)
next
  case (V_ip bs)
  then obtain a b c e where "bs = [a, b, c, e]"
    using assms by (auto simp: sendable_def length_Suc_conv eval_nat_numeral)
  moreover have "no_nul [AT_DOT]" by (simp add: no_nul_def AT_DOT_def)
  ultimately show ?thesis
    using V_ip dec_string dec_byte_short [of a] dec_byte_short [of b] dec_byte_short [of c] dec_byte_short [of e] dot_plain
    by (auto simp: at_text_def ip_text_def no_nul_def)
qed

lemma options: "SIZE_LIMIT (option (para_d t AET_PARA 64)) = 64" "SIZE_LIMIT (option (para_d t AET_LINE 64)) = 64"
  "AET_PARA AND option (para_d t AET_PARA n) \<noteq> 0" "AET_LINE AND option (para_d t AET_LINE n) \<noteq> 0"
  "pt (para_d t e n) = t"
  by (simp_all add: SIZE_LIMIT_def para_d_def AET_PARA_def AET_LINE_def)

text \<open>The value of a line is read as the descriptor of its type says.\<close>

definition value_d :: "AT_PARA_TYPE \<Rightarrow> at_para_descriptor_t" where
  "value_d t = para_d t AET_LINE (case t of APT_TEXT \<Rightarrow> 64 | APT_HEX \<Rightarrow> 64 | _ \<Rightarrow> 4)"

lemma find_value_d: "find (\<lambda>d. Some (pt d) = Some t) cmd_value_list = Some (value_d t)"
  by (cases t) (simp_all add: cmd_value_list_def value_d_def para_d_def)

lemma value_read:
  assumes "sendable d v" "v_vsize d \<le> 64"
  shows "\<exists>r'. at_get_parameters [value_d (v_pt d)] (at_text v @ line_end @ r) = (AEC_OK, r', [filled 64 v])"
proof (cases "v_pt d = APT_HEX")
  case False
  let ?d = "value_d (v_pt d)"
  have o: "fst (AET_LINE, True, AT_LF # r) AND option ?d \<noteq> 0" by (simp add: value_d_def options)
  have "admits (pt ?d) (option ?d) v"
    using assms False by (cases v) (auto simp: sendable_def value_d_def options text_fits_def)
  from get_para_ok [OF this at_end_crlf o] have
    "get_para ?d (at_text v @ line_end @ r) = \<lparr>r_over = True, r_error = False, r_para = AT_LF # r, r_value = Some v\<rparr>"
    by (simp add: line_end_def)
  moreover have "filled 64 v = v" using assms False by (cases v) (auto simp: sendable_def filled_def)
  ultimately show ?thesis by (simp add: at_get_parameters_def)
next
  case True
  then obtain bs where v: "v = V_hex bs" "bs \<noteq> []" "length bs \<le> 64"
    using assms by (cases v) (auto simp: sendable_def)
  then obtain as b where bs: "bs = as @ [b]" by (cases bs rule: rev_cases) auto
  let ?opt = "option (para_d APT_HEX AET_LINE 64)"
  have "length as < SIZE_LIMIT ?opt" "fst (AET_LINE, True, AT_LF # r) AND ?opt \<noteq> 0"
    using v bs by (simp_all add: options)
  from get_hex_ok [OF this(1) at_end_crlf this(2), of b] show ?thesis
    by (simp add: at_get_parameters_def True value_d_def get_para_def options v(1) bs line_end_def filled_def)
qed

lemma key_read:
  assumes "d \<in> set at_cfg_table"
  shows "at_get_parameters [para_d APT_TEXT AET_PARA 64] (v_key d @ AT_SEPARATOR # r) = (AEC_OK, r, [V_text (v_key d)])"
    "at_get_parameters [para_d APT_TEXT AET_LINE 64] (v_key d @ line_end @ r) = (AEC_OK, AT_LF # r, [V_text (v_key d)])"
proof -
  note k = cfg_key [OF assms]
  let ?p = "para_d APT_TEXT AET_PARA 64" and ?l = "para_d APT_TEXT AET_LINE 64"
  have f: "text_fits (option ?p) (v_key d)" "text_fits (option ?l) (v_key d)"
    using k by (simp_all add: text_fits_def options)
  note o = options(3) [of APT_TEXT 64] options(4) [of APT_TEXT 64]
  show "at_get_parameters [?p] (v_key d @ AT_SEPARATOR # r) = (AEC_OK, r, [V_text (v_key d)])"
    using text_pp.parse_sep [OF f(1) o(1)] by (simp add: at_get_parameters_def get_para_def options)
  show "at_get_parameters [?l] (v_key d @ line_end @ r) = (AEC_OK, AT_LF # r, [V_text (v_key d)])"
    using text_pp.parse_crlf [OF f(2) o(2), of "AT_LF # r"] by (simp add: at_get_parameters_def get_para_def options line_end_def)
qed

lemma key_text: "d \<in> set at_cfg_table \<Longrightarrow> text_of [V_text (v_key d)] 0 [] = v_key d"
  using cfg_key(2) [of d] by (simp add: text_of_def cstr_id no_nul_def)

lemma setcfg_handler_ok:
  assumes "d \<in> set at_cfg_table" "sendable d v"
  shows "setcfg_handler (AT_EQU # v_key d @ AT_SEPARATOR # at_text v @ line_end @ r) s = do_setcfg (v_key d) (filled 64 v) s"
proof -
  obtain r' where r': "at_get_parameters [value_d (v_pt d)] (at_text v @ line_end @ r) = (AEC_OK, r', [filled 64 v])"
    using value_read [OF assms(2) cfg_key(5) [OF assms(1)]] by blast
  have t: "at_typecfg (v_key d) = Some (v_pt d)"
    by (simp add: at_typecfg_def find_var_key [OF cfg_table_ok assms(1)])
  show ?thesis
    by (simp add: setcfg_handler_def cur_def with_paras_def key_read(1) [OF assms(1)] key_text [OF assms(1)] t
      find_value_d [simplified] r')
qed

lemma getcfg_handler_ok:
  assumes "d \<in> set at_cfg_table"
  shows "getcfg_handler (AT_EQU # v_key d @ line_end @ r) s = do_getcfg (v_key d) s"
  by (simp add: getcfg_handler_def cur_def with_paras_def key_read(2) [OF assms] key_text [OF assms])

text \<open>What a variable prints as is short.\<close>

lemma length_sep_by: "length (sep_by c ts) \<le> length (concat ts) + length ts"
  by (induction c ts rule: sep_by.induct) auto

lemma value_short:
  assumes "\<And>bs. v = V_hex bs \<Longrightarrow> length bs \<le> 64" "(\<forall>bs. v \<noteq> V_hex bs) \<longrightarrow> var_fits d v" "v_vsize d \<le> 64"
  shows "length (at_get_value v) \<le> 200"
proof (cases v)
  case (V_text s)
  then show ?thesis using assms by (auto simp: var_fits_def at_get_value_def)
next
  case (V_hex bs)
  then show ?thesis using assms length_sep_by [of "CHR '':''" "map (\<lambda>b. hex_digits 2 (unat b)) bs"]
    by (auto simp: at_get_value_def var_fits_def length_concat_hex)
next
  case (V_di i)
  then have "nat i < 10 ^ 10" "nat (- i) < 10 ^ 10" using assms by (auto simp: var_fits_def)
  then show ?thesis using length_dec_digits [of "nat i" 10] length_dec_digits [of "nat (- i)" 10] V_di
    by (simp add: at_get_value_def)
next
  case (V_hi w)
  then show ?thesis by (simp add: at_get_value_def)
next
  case (V_ip bs)
  have "length (concat (map (\<lambda>b. dec_digits (unat b)) xs)) \<le> 3 * length xs" for xs :: "u8 list"
    by (induction xs) (use dec_byte_short in \<open>auto simp: add_le_mono\<close>)
  from this [of bs] show ?thesis using assms V_ip length_sep_by [of AT_DOT "map (\<lambda>b. dec_digits (unat b)) bs"]
    by (auto simp: at_get_value_def var_fits_def)
qed

section \<open>A session\<close>

lemma plain_line_plain: "list_all plain t \<Longrightarrow> plain_line t"
  by (auto simp: plain_line_def plain_def list_all_iff)

lemma line_parts: "plain_line (x @ y) = (plain_line x \<and> plain_line y)" "no_nul (x @ y) = (no_nul x \<and> no_nul y)"
  by (simp_all add: plain_line_def no_nul_def)

lemma set_line_ok:
  assumes "d \<in> set at_cfg_table" "sendable d v"
  shows "plain_line (set_line d v)" "no_nul (set_line d v)" "length (set_line d v) \<le> 1020"
proof -
  note k = cfg_key [OF assms(1)] and t = at_text_ok [OF assms(2) cfg_key(5) [OF assms(1)]]
  have l: "plain_line ''AT+S.SCFG=''" "no_nul ''AT+S.SCFG=''" "plain_line '',''" "no_nul '',''"
    by (simp_all add: plain_line_def no_nul_def AT_CR_def AT_LF_def)
  show "plain_line (set_line d v)" "no_nul (set_line d v)"
    unfolding set_line_def line_parts using k t l plain_line_plain by blast+
  show "length (set_line d v) \<le> 1020" using k t by (simp add: set_line_def)
qed

lemma get_line_ok:
  assumes "d \<in> set at_cfg_table"
  shows "plain_line (get_line d)" "no_nul (get_line d)" "length (get_line d) \<le> 1020"
proof -
  note k = cfg_key [OF assms]
  have l: "plain_line ''AT+S.GCFG=''" "no_nul ''AT+S.GCFG=''"
    by (simp_all add: plain_line_def no_nul_def AT_CR_def AT_LF_def)
  show "plain_line (get_line d)" "no_nul (get_line d)"
    unfolding get_line_def line_parts using k l plain_line_plain by blast+
  show "length (get_line d) \<le> 1020" using k by (simp add: get_line_def)
qed

lemma command_chars:
  "list_all (\<lambda>c. c \<noteq> AT_EQU \<and> c \<noteq> AT_LF \<and> c \<noteq> AT_CR) ''AT+S.SCFG''"
  "list_all (\<lambda>c. c \<noteq> AT_EQU \<and> c \<noteq> AT_LF \<and> c \<noteq> AT_CR) ''AT+S.GCFG''"
  "list_all (\<lambda>c. c \<noteq> AT_EQU \<and> c \<noteq> AT_LF \<and> c \<noteq> AT_CR) ''AT+S.SOCKW''"
  by (simp_all add: AT_EQU_def AT_LF_def AT_CR_def)

text \<open>A command that succeeds and changes nothing but the configuration, from the port to the response.\<close>

lemma cfg_turns:
  fixes s :: "'w at_state"
  assumes line: "plain_line line" "no_nul line" "length line \<le> 1020"
    and p: "port_ok q a" "pending q a = map byte_of (line @ crlf) @ rest" "length buf = 1024"
    and c: "\<And>r (t :: 'w at_state). at_parse_cmd (line @ line_end @ r) (length line + 3) t = Some (AEC_OK, t\<lparr>at_cfg := g (at_cfg t)\<rparr>)"
  shows "\<exists>q' a' buf'. port_ok q' a' \<and> pending q' a' = byte_of AT_LF # rest \<and> length buf' = 1024 \<and>
    at_parse_turns (length line + 1) (collect q a buf 0 False s) =
      Some (collect q' a' buf' 0 False (dump_to (echo_of (at_cfg s) (line @ line_end) @ [ok_text]) (s\<lparr>at_cfg := g (at_cfg s)\<rparr>)))"
proof -
  from line_served [OF p(1,2) line p(3), of s] obtain q' a' r where
    s1: "port_ok q' a'" "pending q' a' = byte_of AT_LF # rest" "length (line @ line_end @ r) = 1024"
    "at_parse_turns (length line + 1) (collect q a buf 0 False s) =
      serve (line @ line_end @ r) (length line + 3)
        (collect q' a' (line @ line_end @ r) (length line + 3) True (dump_to (echo_of (at_cfg s) (line @ line_end)) s))"
    by blast
  have pc: "at_parse_cmd (line @ line_end @ r) (length line + 3)
      (collect q' a' (line @ line_end @ r) (length line + 3) True (dump_to (echo_of (at_cfg s) (line @ line_end)) s)) =
    Some (AEC_OK, collect q' a' (line @ line_end @ r) (length line + 3) True
      (dump_to (echo_of (at_cfg s) (line @ line_end)) (s\<lparr>at_cfg := g (at_cfg s)\<rparr>)))"
    by (simp add: c)
  show ?thesis
    using s1 serve_ok [OF pc] by (intro exI [of _ q'] exI [of _ a'] exI [of _ "line @ line_end @ r"]) simp
qed

lemma set_turns:
  assumes d: "d \<in> set at_cfg_table" "v_po d = APO_RW" "sendable d v" "verified d (filled 64 v)"
    and p: "port_ok q a" "pending q a = map byte_of (set_line d v @ crlf) @ rest" "length buf = 1024"
  shows "\<exists>q' a' buf'. port_ok q' a' \<and> pending q' a' = byte_of AT_LF # rest \<and> length buf' = 1024 \<and>
    at_parse_turns (length (set_line d v) + 1) (collect q a buf 0 False s) =
      Some (collect q' a' buf' 0 False (dump_to (echo_of (at_cfg s) (set_line d v @ line_end) @ [ok_text])
        (s\<lparr>at_cfg := set_var d (filled 64 v) (at_cfg s)\<rparr>)))"
proof -
  let ?l = "set_line d v"
  have l: "?l @ line_end @ r = ''AT+S.SCFG'' @ AT_EQU # v_key d @ AT_SEPARATOR # at_text v @ line_end @ r" for r
    by (simp add: set_line_def AT_EQU_def AT_SEPARATOR_def)
  have 1: "at_parse_cmd (?l @ line_end @ r) n t = do_setcfg (v_key d) (filled 64 v) t" if "9 < n" for r n t
    unfolding l using that command_chars(1)
    by (subst command_found [OF match_scfg]) (simp_all add: cur_def setcfg_handler_ok [OF d(1,3)])
  have 2: "do_setcfg (v_key d) (filled 64 v) t = Some (AEC_OK, t\<lparr>at_cfg := set_var d (filled 64 v) (at_cfg t)\<rparr>)" for t
    using d by (simp add: do_setcfg_def setcfg_key)
  have 3: "9 < length ?l + 3" by (simp add: set_line_def)
  show ?thesis
    by (rule cfg_turns [OF set_line_ok [OF d(1,3)] p, where g = "set_var d (filled 64 v)"]) (simp only: 1 [OF 3] 2)
qed

text \<open>Reading prints the variable.\<close>

lemma do_getcfg_ok:
  assumes "d \<in> set at_cfg_table" "length (var_line d (at_cfg s)) < 1024"
  shows "do_getcfg (v_key d) s = Some (AEC_OK, dump_to [var_line d (at_cfg s)] s)"
  using find_var_key [OF cfg_table_ok assms(1)] assms(2) by (simp add: do_getcfg_def at_getcfg_def at_dump_short)

lemma get_turns:
  assumes d: "d \<in> set at_cfg_table" "length (var_line d (at_cfg s)) < 1024"
    and p: "port_ok q a" "pending q a = map byte_of (get_line d @ crlf) @ rest" "length buf = 1024"
  shows "\<exists>q' a' buf'. port_ok q' a' \<and> pending q' a' = byte_of AT_LF # rest \<and> length buf' = 1024 \<and>
    at_parse_turns (length (get_line d) + 1) (collect q a buf 0 False s) =
      Some (collect q' a' buf' 0 False
        (dump_to (echo_of (at_cfg s) (get_line d @ line_end) @ [var_line d (at_cfg s), ok_text]) s))"
proof -
  let ?l = "get_line d"
  from line_served [OF p(1,2) get_line_ok [OF d(1)] p(3), of s] obtain q' a' r where
    s1: "port_ok q' a'" "pending q' a' = byte_of AT_LF # rest" "length (?l @ line_end @ r) = 1024"
    "at_parse_turns (length ?l + 1) (collect q a buf 0 False s) =
      serve (?l @ line_end @ r) (length ?l + 3)
        (collect q' a' (?l @ line_end @ r) (length ?l + 3) True (dump_to (echo_of (at_cfg s) (?l @ line_end)) s))"
    by blast
  have l: "?l @ line_end @ r = ''AT+S.GCFG'' @ AT_EQU # v_key d @ line_end @ r"
    by (simp add: get_line_def AT_EQU_def)
  have 1: "at_parse_cmd (?l @ line_end @ r) n t = do_getcfg (v_key d) t" if "9 < n" for n t
    unfolding l using that command_chars(2)
    by (subst command_found [OF match_gcfg]) (simp_all add: cur_def getcfg_handler_ok [OF d(1)])
  have 3: "9 < length ?l + 3" by (simp add: get_line_def)
  show ?thesis
    using s1 d serve_ok [where u = "dump_to (echo_of (at_cfg s) (?l @ line_end) @ [var_line d (at_cfg s)]) s"
      and v = "collect q' a' (?l @ line_end @ r) (length ?l + 3) True (dump_to (echo_of (at_cfg s) (?l @ line_end)) s)"
      and q = q' and a = a' and n = "length ?l + 3" and buf = "?l @ line_end @ r", unfolded 1 [OF 3]]
    by (intro exI [of _ q'] exI [of _ a'] exI [of _ "?l @ line_end @ r"]) (simp add: do_getcfg_ok)
qed

text \<open>The value is accepted if the variable's check, where it has one, says so.\<close>

definition accepted :: "at_var_descriptor_t \<Rightarrow> at_value_t \<Rightarrow> bool" where
  "accepted d v = (case (v, v_verify d) of (V_di i, Some ver) \<Rightarrow> ver i | _ \<Rightarrow> True)"

lemma cfg_verify: "list_all (\<lambda>d. Option.is_none (v_verify d) \<or> v_pt d = APT_DI) at_cfg_table"
  unfolding at_cfg_table_rows by code_simp

lemma accepted_verified:
  assumes "d \<in> set at_cfg_table" "sendable d v" "accepted d v"
  shows "verified d (filled 64 v)"
proof (cases v)
  case (V_di i)
  then show ?thesis
    using assms by (auto simp: verified_def filled_def accepted_def sendable_def di_member_di split: option.splits)
next
  case (V_text t)
  then have "v_verify d = None" using assms cfg_verify by (auto simp: sendable_def list_all_iff Option.is_none_def)
  then show ?thesis by (simp add: verified_def)
next
  case (V_hex bs)
  then have "v_verify d = None" using assms cfg_verify by (auto simp: sendable_def list_all_iff Option.is_none_def)
  then show ?thesis by (simp add: verified_def)
next
  case (V_hi w)
  then have "v_verify d = None" using assms cfg_verify by (auto simp: sendable_def list_all_iff Option.is_none_def)
  then show ?thesis by (simp add: verified_def)
next
  case (V_ip bs)
  then have "v_verify d = None" using assms cfg_verify by (auto simp: sendable_def list_all_iff Option.is_none_def)
  then show ?thesis by (simp add: verified_def)
qed

lemma filled_fits:
  assumes "sendable d v" "v_vsize d \<le> 64" "v_pt d \<in> {APT_DI, APT_HI, APT_IP} \<longrightarrow> v_vsize d = 4"
  shows "var_fits d (filled 64 v)" "at_set_value (v_vsize d) (filled 64 v) = filled (v_vsize d) v"
proof -
  have min: "min (v_vsize d - k) (64 - k) = v_vsize d - k" for k using assms(2) by simp
  have hex: "var_fits d (filled 64 v) \<and> at_set_value (v_vsize d) (filled 64 v) = filled (v_vsize d) v" if "v = V_hex bs" for bs
    using assms unfolding that by (simp add: sendable_def filled_def var_fits_def at_set_value_def min)
  have str: "var_fits d (filled 64 v) \<and> at_set_value (v_vsize d) (filled 64 v) = filled (v_vsize d) v" if "v = V_text t" for t
    using assms(1) unfolding that sendable_def filled_def var_fits_def at_set_value_def at_value_t.case no_nul_def by blast
  have "var_fits d (filled 64 v) \<and> at_set_value (v_vsize d) (filled 64 v) = filled (v_vsize d) v"
  proof (cases v)
    case (V_text t)
    then show ?thesis by (rule str)
  next
    case (V_hex bs)
    then show ?thesis by (rule hex)
  qed (use assms in \<open>simp_all add: sendable_def filled_def var_fits_def at_set_value_def\<close>)
  then show "var_fits d (filled 64 v)" "at_set_value (v_vsize d) (filled 64 v) = filled (v_vsize d) v" by auto
qed

definition ready :: "'w at_state \<Rightarrow> bool" where
  "ready s = (port_ok (queue s) (answers s) \<and> length (cache_buf s) = 1024 \<and> cache_cnt s = 0 \<and> \<not> line_flag s)"

lemma ready_collect: "ready (collect q a buf n fl s) = (port_ok q a \<and> length buf = 1024 \<and> n = 0 \<and> \<not> fl)"
  by (simp add: ready_def)

lemma ready_self: "ready s \<Longrightarrow> s = collect (queue s) (answers s) (cache_buf s) 0 False s"
  by (simp add: ready_def collect_def)

definition shown :: "at_var_descriptor_t \<Rightarrow> at_value_t \<Rightarrow> string" where
  "shown d v = ''# '' @ v_key d @ '' = '' @ at_get_value v @ crlf"

lemma set_get_session:
  assumes s: "ready s" "mem_ok 604 at_cfg_table (at_cfg s)"
    and d: "d \<in> set at_cfg_table" "v_po d = APO_RW" "sendable d v" "accepted d v"
    and p: "pending (queue s) (answers s) = map byte_of (set_line d v @ crlf @ get_line d @ crlf) @ rest"
  shows "\<exists>s'. at_parse_turns (length (set_line d v) + length (get_line d) + 3) s = Some s' \<and> ready s' \<and>
    pending (queue s') (answers s') = byte_of AT_LF # rest \<and> mem_ok 604 at_cfg_table (at_cfg s') \<and>
    (\<forall>e\<in>set at_cfg_table. var_value e (at_cfg s') = (if e = d then filled (v_vsize d) v else var_value e (at_cfg s))) \<and>
    (dump_cb (at_callback s) \<longrightarrow>
      dumped s' = dumped s @ echo_of (at_cfg s) (set_line d v @ line_end) @ [ok_text] @
        echo_of (at_cfg s') [AT_LF, AT_LF] @ echo_of (at_cfg s') (get_line d @ line_end) @
        [shown d (filled (v_vsize d) v), ok_text])"
proof -
  define m where "m = set_var d (filled 64 v) (at_cfg s)"
  note z = cfg_key(5) [OF d(1)] and f = filled_fits [OF d(3) cfg_key(5) [OF d(1)] table_var [OF cfg_table_ok d(1), THEN conjunct2]]
  have ok: "mem_ok 604 at_cfg_table m" unfolding m_def by (rule cfg.wr_ok [OF d(1) f(1) s(2)])
  have same: "var_value d m = filled (v_vsize d) v" unfolding m_def cfg.rd_wr [OF d(1) f(1) s(2)] by (rule f(2))
  have other: "var_value e m = var_value e (at_cfg s)" if "e \<in> set at_cfg_table" "e \<noteq> d" for e
    unfolding m_def by (rule cfg.rd_other [OF d(1) that f(1) s(2)])
  have line: "var_line d m = shown d (filled (v_vsize d) v)" by (simp add: var_line_def same shown_def crlf_def)
  have hexl: "length bs \<le> 64" if "filled (v_vsize d) v = V_hex bs" for bs
    using that d(3) z by (cases v) (auto simp: filled_def sendable_def)
  have "(\<forall>bs. filled (v_vsize d) v \<noteq> V_hex bs) \<longrightarrow> var_fits d (filled (v_vsize d) v)"
    using f(1) by (cases v) (auto simp: filled_def)
  from value_short [OF hexl this z] have short: "length (var_line d m) < 1024"
    using cfg_key(4) [OF d(1)] by (simp add: line shown_def crlf_def)
  have v: "verified d (filled 64 v)" by (rule accepted_verified [OF d(1,3,4)])
  have r: "port_ok (queue s) (answers s)" "length (cache_buf s) = 1024" using s(1) by (simp_all add: ready_def)
  from set_turns [OF d(1,2,3) v r(1) _ r(2), of "map byte_of (get_line d @ crlf) @ rest" s] p
  obtain q1 a1 b1 where 1: "port_ok q1 a1" "pending q1 a1 = byte_of AT_LF # map byte_of (get_line d @ crlf) @ rest"
    "length b1 = 1024" "at_parse_turns (length (set_line d v) + 1) s = Some (collect q1 a1 b1 0 False
      (dump_to (echo_of (at_cfg s) (set_line d v @ line_end) @ [ok_text]) (s\<lparr>at_cfg := m\<rparr>)))"
    unfolding ready_self [OF s(1), symmetric] m_def [symmetric] by auto
  define s1 where "s1 = dump_to (echo_of (at_cfg s) (set_line d v @ line_end) @ [ok_text]) (s\<lparr>at_cfg := m\<rparr>)"
  have c1: "at_cfg s1 = m" by (simp add: s1_def)
  from lf_turn [OF 1(1,2,3), of s1, unfolded c1] obtain q2 a2 b2 where 2: "port_ok q2 a2"
    "pending q2 a2 = map byte_of (get_line d @ crlf) @ rest" "length b2 = 1024"
    "at_parse_turn (collect q1 a1 b1 0 False s1) =
      Some (collect q2 a2 b2 0 False (dump_to (echo_of m [AT_LF, AT_LF]) s1))"
    by blast
  let ?s2 = "dump_to (echo_of m [AT_LF, AT_LF]) s1"
  have m2: "at_cfg ?s2 = m" by (simp add: c1)
  have s2: "length (var_line d (at_cfg ?s2)) < 1024" using short by (simp only: m2)
  from get_turns [OF d(1) s2 2(1,2,3)] obtain q3 a3 b3 where 3: "port_ok q3 a3"
    "pending q3 a3 = byte_of AT_LF # rest" "length b3 = 1024"
    "at_parse_turns (length (get_line d) + 1) (collect q2 a2 b2 0 False ?s2) = Some (collect q3 a3 b3 0 False
       (dump_to (echo_of m (get_line d @ line_end) @ [var_line d m, ok_text]) ?s2))"
    unfolding m2 by blast
  have n: "length (set_line d v) + length (get_line d) + 3 = (length (set_line d v) + 1) + (1 + (length (get_line d) + 1))"
    by simp
  have "at_parse_turns (length (set_line d v) + length (get_line d) + 3) s =
      Some (collect q3 a3 b3 0 False (dump_to (echo_of m (get_line d @ line_end) @ [var_line d m, ok_text]) ?s2))"
    unfolding n
    by (rule turns_trans [OF 1(4) [folded s1_def] turns_trans [OF _ 3(4)]]) (simp only: turns_one 2(4))
  then show ?thesis
    using 3(1,2,3) ok same other line by (intro exI conjI) (auto simp: ready_collect s1_def)
qed

text \<open>
  C9: A line AT+S.SCFG=<key>,<value> with a value that fits the variable and its check, followed by
  AT+S.GCFG=<key>, is answered OK, the value printed, and OK, with the lines echoed if the configuration says
  so. Then the variable has the value (a hex string filled up with zeros), every other variable of the table
  the one it had, and the parser is ready for what follows.
\<close>

theorem config_session:
  assumes "ready s" "mem_ok 604 at_cfg_table (at_cfg s)"
    and "d \<in> set at_cfg_table" "v_po d = APO_RW" "sendable d v" "accepted d v"
    and "pending (queue s) (answers s) = map byte_of (set_line d v @ crlf @ get_line d @ crlf) @ rest"
  shows "\<exists>s'. at_parse_turns (length (set_line d v) + length (get_line d) + 3) s = Some s' \<and> ready s' \<and>
    pending (queue s') (answers s') = byte_of AT_LF # rest \<and> mem_ok 604 at_cfg_table (at_cfg s') \<and>
    (\<forall>e\<in>set at_cfg_table. var_value e (at_cfg s') = (if e = d then filled (v_vsize d) v else var_value e (at_cfg s))) \<and>
    (dump_cb (at_callback s) \<longrightarrow>
      dumped s' = dumped s @ echo_of (at_cfg s) (set_line d v @ line_end) @ [ok_text] @
        echo_of (at_cfg s') [AT_LF, AT_LF] @ echo_of (at_cfg s') (get_line d @ line_end) @
        [shown d (filled (v_vsize d) v), ok_text])"
  by (rule set_get_session [OF assms])

text \<open>A fresh interpreter with an empty configuration, and a port that delivers some bytes.\<close>

definition start_in :: "'w \<Rightarrow> 'w handle_cb_t option \<Rightarrow> u8 list \<Rightarrow> 'w at_state" where
  "start_in w cb bs =
     \<lparr>at_cfg = replicate 604 0, at_sts = replicate 144 0, at_callback = \<lparr>handle_cb = cb, dump_cb = True\<rparr>,
      queue = \<lparr>qbuf = replicate 4096 0, qsize = 4096, ridx = 0, widx = 0, qcnt = 0\<rparr>,
      answers = (if bs = [] then [] else [(int (length bs), bs)]), cache_cnt = 0,
      cache_buf = replicate 1024 (CHR 0x00), line_flag = False, overrun = False, dumped = [], world = w\<rparr>"

abbreviation start_state :: "(unit handle_cb_t) option \<Rightarrow> u8 list \<Rightarrow> unit at_state" where
  "start_state \<equiv> start_in ()"

lemma start_ready: "length bs \<le> 4096 \<Longrightarrow> ready (start_in w cb bs)"
  by (simp add: ready_def start_in_def port_ok_def ring_ok_def)

lemma start_pending: "pending (queue (start_in w cb bs)) (answers (start_in w cb bs)) = bs"
  by (simp add: pending_def start_in_def contents_def)

lemma start_mem: "mem_ok 604 at_cfg_table (at_cfg (start_in w cb bs))"
proof -
  have "0 \<in> set (var_bytes d (replicate 604 0))" if "d \<in> set at_cfg_table" for d
  proof -
    have "v_pvar d + v_vsize d \<le> 604" "0 < v_vsize d"
      using cfg_table_ok [unfolded table_ok_def, THEN conjunct2, unfolded list_all_iff [of _ at_cfg_table], THEN bspec, OF that]
      by simp_all
    then show ?thesis by (simp add: var_bytes_def)
  qed
  then show ?thesis by (simp add: mem_ok_def start_in_def list_all_iff)
qed

definition speed_var :: at_var_descriptor_t where
  "speed_var = cfg_var ''console1_speed'' APT_DI APO_RW (Some console1_speed_verify)"

lemma speed_var_in: "speed_var \<in> set at_cfg_table"
  by (simp add: at_cfg_table_def speed_var_def)

theorem config_session_witness:
  "\<exists>n s'. at_parse_turns n (start_state None
      (map byte_of (set_line speed_var (V_di 9600) @ crlf @ get_line speed_var @ crlf))) = Some s' \<and>
    var_value speed_var (at_cfg s') = V_di 9600"
proof -
  let ?bs = "map byte_of (set_line speed_var (V_di 9600) @ crlf @ get_line speed_var @ crlf)"
  have d: "v_po speed_var = APO_RW" "sendable speed_var (V_di 9600)" "accepted speed_var (V_di 9600)"
    by (simp_all add: speed_var_def cfg_var_def sendable_def accepted_def console1_speed_verify_def)
  have "length ?bs \<le> 4096"
    using set_line_ok(3) [OF speed_var_in d(2)] get_line_ok(3) [OF speed_var_in] by (simp add: crlf_def)
  from config_session [OF start_ready [OF this] start_mem speed_var_in d, of "()" None "[]"] obtain s' where s':
    "at_parse_turns (length (set_line speed_var (V_di 9600)) + length (get_line speed_var) + 3) (start_state None ?bs) = Some s'"
    "\<forall>e\<in>set at_cfg_table. var_value e (at_cfg s') =
      (if e = speed_var then filled (v_vsize speed_var) (V_di 9600) else var_value e (at_cfg (start_state None ?bs)))"
    unfolding start_pending append_Nil2 by blast
  have "var_value speed_var (at_cfg s') = V_di 9600" using bspec [OF s'(2) speed_var_in] by (simp add: filled_def)
  then show ?thesis using s'(1) by blast
qed

end
