(* ===== verification/At_Safety.thy ===== *)
theory At_Safety
  imports At_Session
begin

text \<open>
  What holds of the AT command interpreter whatever bytes arrive: the handlers keep every invariant that
  their basic steps keep, hence the read-only variables and the bounds of the line cache. And where the
  checks of the configuration can be got round.
\<close>

section \<open>Invariants of the handlers\<close>

text \<open>
  The handlers are built from five steps: taking a byte from the queue, printing, calling the application,
  and the two stores into the configuration. What these keep, every command keeps.
\<close>

locale handler_inv =
  fixes Inv :: "'w at_state \<Rightarrow> bool"
  assumes inv_get: "Inv s \<Longrightarrow> Inv (snd (queue_get s))"
    and inv_dump: "Inv s \<Longrightarrow> at_dump t s = Some s' \<Longrightarrow> Inv s'"
    and inv_call: "Inv s \<Longrightarrow> handle_cb (at_callback s) = Some f \<Longrightarrow> Inv (snd (snd (call_cb f c s)))"
    and inv_set: "Inv s \<Longrightarrow> Inv (s\<lparr>at_cfg := snd (at_setcfg key v (at_cfg s))\<rparr>)"
    and inv_ssid: "Inv s \<Longrightarrow> Inv (s\<lparr>at_cfg := snd (at_ssidtxt t (at_cfg s))\<rparr>)"

lemma callback_get: "at_callback (snd (queue_get s)) = at_callback s"
  by (simp add: queue_get_def split: prod.split)

lemma callback_call: "at_callback (snd (snd (call_cb f c s))) = at_callback s"
  by (simp add: call_cb_def split: prod.split)

lemma callback_dump: "at_dump t s = Some s' \<Longrightarrow> at_callback s' = at_callback s"
  by (auto simp: at_dump_def split: if_splits)

context handler_inv
begin

definition keeps :: "'w at_m \<Rightarrow> bool" where
  "keeps m = (\<forall>s aec s'. Inv s \<longrightarrow> m s = Some (aec, s') \<longrightarrow> Inv s')"

lemma keepsI: "(\<And>s aec s'. Inv s \<Longrightarrow> m s = Some (aec, s') \<Longrightarrow> Inv s') \<Longrightarrow> keeps m"
  by (auto simp: keeps_def)

lemma keepsD: "keeps m \<Longrightarrow> Inv s \<Longrightarrow> m s = Some (aec, s') \<Longrightarrow> Inv s'"
  by (auto simp: keeps_def)

lemma keeps_const: "keeps (\<lambda>s. Some (c, s))"
  by (auto simp: keeps_def)

lemma dumps_inv: "Inv s \<Longrightarrow> at_dumps ts s = Some s' \<Longrightarrow> Inv s'"
proof (induction ts arbitrary: s)
  case Nil
  then show ?case by simp
next
  case (Cons t ts)
  then show ?case using inv_dump by (cases "at_dump t s") auto
qed

lemma keeps_notify: "keeps (notify_cb c)"
  by (rule keepsI) (auto simp: notify_cb_def inv_call split: option.splits)

lemma keeps_reset: "keeps at_reset"
proof (rule keepsI)
  fix s aec s'
  assume i: "Inv s" and r: "at_reset s = Some (aec, s')"
  show "Inv s'"
  proof (cases "handle_cb (at_callback s)")
    case None
    then show ?thesis using i r by (simp add: at_reset_def)
  next
    case (Some f)
    then obtain s1 where d: "at_dump (''Reboot...'' @ crlf) s = Some s1" "s' = snd (snd (call_cb f ACC_RST s1))"
      using r by (auto simp: at_reset_def split: bind_splits)
    then show ?thesis using inv_call [OF inv_dump [OF i d(1)]] callback_dump [OF d(1)] Some by simp
  qed
qed

lemma keeps_cfg: "keeps (do_setcfg key v)" "keeps (do_ssidtxt t)"
  using inv_set inv_ssid by (auto intro!: keepsI simp: do_setcfg_def do_ssidtxt_def split: prod.splits)
    (metis snd_conv)+

lemma keeps_print: "keeps (do_getcfg key)" "keeps do_config" "keeps at_help"
  by (auto intro!: keepsI elim: dumps_inv simp: do_getcfg_def do_config_def at_help_def split: prod.splits bind_splits)

lemma keeps_status: "keeps (at_status sv)"
proof (rule keepsI)
  fix s aec s'
  assume i: "Inv s" and r: "at_status sv s = Some (aec, s')"
  then obtain c s1 where n: "notify_cb ACC_STATUS s = Some (c, s1)"
    by (auto simp: at_status_def notify_cb_def split: option.splits)
  obtain x ts where x: "at_status_lines sv (at_sts s1) = (x, ts)" by force
  then obtain s2 where "at_dumps ts s1 = Some s2" "s' = s2"
    using r n by (auto simp: at_status_def split: bind_splits)
  then show "Inv s'" using dumps_inv keepsD [OF keeps_notify i n] by simp
qed

lemma keeps_sockets: "keeps (at_sockon h p pr ind)" "keeps (at_sockq sid)" "keeps (at_sockc sid)"
proof -
  have a: "Inv s'" if "Inv s" "handle_cb (at_callback s) = Some f"
    "(case call_cb f c s of (aec, (typ, vptr), s1) \<Rightarrow>
      if aec = AEC_OK \<and> typ = (0 :: int) then at_dump (g vptr) s1 \<bind> (\<lambda>s2. Some (aec, s2)) else Some (aec, s1)) = Some (aec, s')"
    for s s' :: "'w at_state" and f c aec and g :: "int \<Rightarrow> string"
    using inv_call [OF that(1,2), of c] that(3) inv_dump by (auto split: prod.splits if_splits bind_splits)
  show "keeps (at_sockon h p pr ind)"
  proof (rule keepsI)
    fix s aec s'
    assume i: "Inv s" and r: "at_sockon h p pr ind s = Some (aec, s')"
    then show "Inv s'" using a [OF i]
      by (cases "handle_cb (at_callback s)") (auto simp: at_sockon_def)
  qed
  show "keeps (at_sockq sid)"
  proof (rule keepsI)
    fix s aec s'
    assume i: "Inv s" and r: "at_sockq sid s = Some (aec, s')"
    then show "Inv s'" using a [OF i]
      by (cases "handle_cb (at_callback s)") (auto simp: at_sockq_def)
  qed
  show "keeps (at_sockc sid)"
  proof (rule keepsI)
    fix s aec s'
    assume i: "Inv s" and r: "at_sockc sid s = Some (aec, s')"
    show "Inv s'"
    proof (cases "handle_cb (at_callback s)")
      case None
      then show ?thesis using i r by (simp add: at_sockc_def)
    next
      case (Some f)
      then show ?thesis using inv_call [OF i Some, of "ACC_SOCKC (strtol10 sid)"] r
        by (auto simp: at_sockc_def split: prod.splits)
    qed
  qed
qed

text \<open>Waiting for bytes, and the two loops.\<close>

lemma wait_byte_inv: "wait_byte s = Some (b, s') \<Longrightarrow> Inv s \<Longrightarrow> Inv s' \<and> at_callback s' = at_callback s"
proof -
  assume w: "wait_byte s = Some (b, s')"
  have "Inv s \<longrightarrow> Inv (snd (b, s')) \<and> at_callback (snd (b, s')) = at_callback s"
  proof (rule wait_byte.raw_induct [OF _ w, where P = "\<lambda>s r. Inv s \<longrightarrow> Inv (snd r) \<and> at_callback (snd r) = at_callback s"])
    fix w and s :: "'w at_state" and r
    assume ih: "\<And>s r. w s = Some r \<Longrightarrow> Inv s \<longrightarrow> Inv (snd r) \<and> at_callback (snd r) = at_callback s"
      and r: "(case queue_get s of (None, s1) \<Rightarrow> w s1 | (Some b, s1) \<Rightarrow> Some (b, s1)) = Some r"
    obtain o1 s1 where g: "queue_get s = (o1, s1)" by force
    have "at_callback s1 = at_callback s" "Inv s \<longrightarrow> Inv s1" using callback_get [of s] inv_get [of s] g by simp_all
    then show "Inv s \<longrightarrow> Inv (snd r) \<and> at_callback (snd r) = at_callback s"
      using r ih [of s1 r] g by (cases o1) auto
  qed
  then show "Inv s \<Longrightarrow> Inv s' \<and> at_callback s' = at_callback s" by simp
qed

lemma wait_bytes_inv: "wait_bytes n s = Some (bs, s') \<Longrightarrow> Inv s \<Longrightarrow> Inv s' \<and> at_callback s' = at_callback s"
proof (induction n arbitrary: s bs)
  case 0
  then show ?case by simp
next
  case (Suc n)
  then show ?case using wait_byte_inv by (fastforce split: bind_splits)
qed

lemma keeps_sockw: "keeps (at_sockw sid len)"
proof -
  have "Inv s \<longrightarrow> sockw_loop x len s = Some (aec, s') \<longrightarrow> Inv s'" for x s aec s'
  proof (induction x len s rule: sockw_loop.induct)
    case (1 x len s)
    show ?case
    proof (intro impI)
      assume i: "Inv s" and r: "sockw_loop x len s = Some (aec, s')"
      show "Inv s'"
      proof (cases "len \<le> 0")
        case True
        then show ?thesis using i r by (subst (asm) sockw_loop.simps) simp
      next
        case False
        let ?l = "min len (int AT_SOCKET_BUFFER_SIZE)"
        obtain bs s1 where w: "wait_bytes (nat ?l) s = Some (bs, s1)"
          using r False by (subst (asm) sockw_loop.simps) (auto simp: Let_def split: bind_splits)
        note wi = wait_bytes_inv [OF w i]
        show ?thesis
        proof (cases "handle_cb (at_callback s1)")
          case None
          then have "sockw_loop x (len - ?l) s1 = Some (aec, s')"
            using r False w by (subst (asm) sockw_loop.simps) (simp add: Let_def)
          then show ?thesis using 1(1) [OF False refl w refl None] wi by blast
        next
          case (Some f)
          obtain c rr s2 where c: "call_cb f (ACC_SOCKW x bs) s1 = (c, rr, s2)" by (metis prod_cases3)
          have i2: "Inv s2" using inv_call [OF conjunct1 [OF wi] Some, of "ACC_SOCKW x bs"] c by simp
          have r2: "(if c \<noteq> AEC_OK then Some (AEC_SEND_FAIL, s2) else sockw_loop x (len - ?l) s2) = Some (aec, s')"
            using r False w Some c by (subst (asm) sockw_loop.simps) (simp add: Let_def)
          show ?thesis
          proof (cases "c = AEC_OK")
            case True
            then have "sockw_loop x (len - ?l) s2 = Some (aec, s')" using r2 by simp
            then show ?thesis using 1(2) [OF False refl w refl Some c [symmetric] refl] True i2 by blast
          next
            case False
            then show ?thesis using r2 i2 by simp
          qed
        qed
      qed
    qed
  qed
  then show ?thesis by (auto simp: keeps_def at_sockw_def)
qed

lemma mode_fill_inv: "Inv s \<Longrightarrow> Inv (snd (mode_fill n s)) \<and> at_callback (snd (mode_fill n s)) = at_callback s"
proof (induction n arbitrary: s)
  case 0
  then show ?case by simp
next
  case (Suc n)
  obtain o1 s1 where g: "queue_get s = (o1, s1)" by force
  have "at_callback s1 = at_callback s" "Inv s1" using callback_get [of s] inv_get [OF Suc.prems] g by simp_all
  then show ?case using Suc.IH [of s1] g by (cases o1) (auto split: prod.split)
qed

lemma mode_loop_inv:
  assumes "mode_loop f n s = Some s'"
  shows "Inv s \<and> handle_cb (at_callback s) = Some f \<longrightarrow> Inv s'"
proof (rule mode_loop.raw_induct [OF _ assms, where P = "\<lambda>f n s s'. Inv s \<and> handle_cb (at_callback s) = Some f \<longrightarrow> Inv s'"])
  fix ml f n and s s' :: "'w at_state"
  assume ih: "\<And>f n s s'. ml f n s = Some s' \<Longrightarrow> Inv s \<and> handle_cb (at_callback s) = Some f \<longrightarrow> Inv s'"
    and r: "(case mode_fill AT_SOCKET_BUFFER_SIZE s of
        (bs, s1) \<Rightarrow>
          if is_escape n (at_cfg s1) bs then at_dump (''Exit data mode.'' @ crlf) s1
          else (case call_cb f (ACC_MODE bs) s1 of
                  (aec, _, s2) \<Rightarrow>
                    if aec \<noteq> AEC_OK then at_dump (''Exit data mode.'' @ crlf) s2 else ml f n s2)) = Some s'"
  show "Inv s \<and> handle_cb (at_callback s) = Some f \<longrightarrow> Inv s'"
  proof (intro impI, elim conjE)
    assume i: "Inv s" and h: "handle_cb (at_callback s) = Some f"
    obtain bs s1 where m: "mode_fill AT_SOCKET_BUFFER_SIZE s = (bs, s1)" by force
    have i1: "Inv s1" "handle_cb (at_callback s1) = Some f" using mode_fill_inv [OF i, of AT_SOCKET_BUFFER_SIZE] m h by simp_all
    obtain c rr s2 where c: "call_cb f (ACC_MODE bs) s1 = (c, rr, s2)" by (metis prod_cases3)
    have i2: "Inv s2" "handle_cb (at_callback s2) = Some f"
      using inv_call [OF i1, of "ACC_MODE bs"] callback_call [of f "ACC_MODE bs" s1] c i1 by simp_all
    show "Inv s'" using r m c i1 i2 ih [of f n s2 s'] inv_dump by (auto split: if_splits)
  qed
qed

lemma keeps_mode: "keeps at_mode"
proof (rule keepsI)
  fix s aec s'
  assume i: "Inv s" and r: "at_mode s = Some (aec, s')"
  show "Inv s'"
  proof (cases "handle_cb (at_callback s)")
    case None
    then show ?thesis using i r by (simp add: at_mode_def)
  next
    case (Some f)
    obtain n s1 where d: "at_dump (''Enter data mode.'' @ crlf) s = Some s1" "mode_loop f n s1 = Some s'"
      using r Some by (auto simp: at_mode_def Let_def split: bind_splits)
    then show ?thesis using mode_loop_inv [OF d(2)] inv_dump [OF i d(1)] callback_dump [OF d(1)] Some by simp
  qed
qed

text \<open>The handlers.\<close>

lemma keeps_no_paras: "keeps m \<Longrightarrow> keeps (no_paras m p)"
  by (rule keepsI) (auto simp: no_paras_def dest: keepsD split: prod.splits if_splits)

lemma keeps_with_paras: "(\<And>vs r. keeps (\<lambda>s. m vs r s)) \<Longrightarrow> keeps (with_paras ds m p)"
  by (rule keepsI) (auto simp: with_paras_def dest: keepsD split: prod.splits if_splits)

lemma keeps_if: "keeps m1 \<Longrightarrow> keeps m2 \<Longrightarrow> keeps (if c then m1 else m2)"
  by simp

lemma keeps_ifs: "keeps m1 \<Longrightarrow> keeps m2 \<Longrightarrow> keeps (\<lambda>s. if c then m1 s else m2 s)"
  by (cases c) simp_all

lemmas keeps_intros = keeps_if keeps_ifs keeps_const keeps_with_paras keeps_no_paras keeps_notify keeps_reset keeps_cfg
  keeps_print keeps_status keeps_sockets keeps_sockw keeps_mode

lemma keeps_setcfg: "keeps (setcfg_handler p)"
proof -
  have "keeps (\<lambda>s. case find (\<lambda>d. Some (pt d) = at_typecfg k) cmd_value_list of
                  None \<Rightarrow> Some (AEC_NOT_FOUND, s)
                | Some d \<Rightarrow>
                    (case at_get_parameters [d] r of
                       (res, _, vs) \<Rightarrow>
                         if res \<noteq> AEC_OK then Some (AEC_PARA_ERROR, s)
                         else if length vs \<noteq> 1 then Some (AEC_PARA_ERROR, s)
                         else do_setcfg k (vs ! 0) s))" for k r
  proof (cases "find (\<lambda>d. Some (pt d) = at_typecfg k) cmd_value_list")
    case None
    then show ?thesis by (simp add: keeps_const)
  next
    case (Some d)
    obtain res x vs where "at_get_parameters [d] r = (res, x, vs)" by (metis prod_cases3)
    then show ?thesis using Some by (auto intro!: keeps_ifs keeps_cfg keeps_const)
  qed
  then show ?thesis unfolding setcfg_handler_def by (intro keeps_intros)
qed

lemma handlers_keep: "list_all (\<lambda>h. \<forall>p. keeps (h p)) at_handlers"
proof -
  have a: "keeps (attention_handler p)" for p
    by (rule keepsI) (auto simp: attention_handler_def split: prod.splits)
  have sc: "keeps (at_scan m r)" for m r
    by (rule keepsI) (auto simp: at_scan_def dest: keepsD [OF keeps_notify] split: option.splits if_splits)
  show ?thesis
    unfolding at_handlers_def list.pred_inject
    by (intro conjI allI TrueI a keeps_setcfg list.pred_inject(1))
      (unfold act_handler_def reset_handler_def help_handler_def getcfg_handler_def ssidtxt_handler_def config_handler_def
        factory_handler_def save_handler_def status_handler_def ping_handler_def sockon_handler_def sockw_handler_def
        sockq_handler_def sockr_handler_def sockc_handler_def sockd_handler_def mode_handler_def wifi_handler_def
        reassociate_handler_def scan_handler_def at_act_def at_factory_def at_save_def at_ping_def at_sockr_def
        at_sockd_def at_wifi_def at_reassociate_def Let_def, (intro keeps_intros sc)+)
qed

lemma parse_cmd_keeps: "keeps (at_parse_cmd buf n)"
proof (rule keepsI)
  fix s aec s'
  assume i: "Inv s" and r: "at_parse_cmd buf n s = Some (aec, s')"
  show "Inv s'"
  proof (cases "\<exists>cmd p h. cmd_scan n [] buf = Some (cmd, p) \<and> cmd \<noteq> [] \<and> at_match cmd = Some (h :: string \<Rightarrow> 'w at_m)")
    case True
    then obtain cmd p and h :: "string \<Rightarrow> 'w at_m" where h: "cmd_scan n [] buf = Some (cmd, p)" "cmd \<noteq> []" "at_match cmd = Some h"
      by blast
    have "h \<in> set at_handlers"
      using h(3) by (auto simp: at_match_def at_command_table_def dest!: map_of_SomeD set_zip_rightD)
    then have "keeps (h p)" using handlers_keep by (simp add: list_all_iff)
    then show ?thesis using keepsD i r h by (simp add: at_parse_cmd_def)
  next
    case False
    then show ?thesis using i r by (auto simp: at_parse_cmd_def split: option.splits prod.splits if_splits)
  qed
qed

end

section \<open>Read-only variables\<close>

text \<open>The application may change the configuration, but not its first 104 bytes.\<close>

definition cb_keeps_nv :: "'w at_callback_t \<Rightarrow> bool" where
  "cb_keeps_nv cb =
     (\<forall>f c mem sts w. handle_cb cb = Some f \<longrightarrow> length mem = 604 \<longrightarrow>
        (case f c mem sts w of (_, _, mem', _) \<Rightarrow> length mem' = 604 \<and> take 104 mem' = take 104 mem))"

definition nv_inv :: "u8 list \<Rightarrow> 'w at_state \<Rightarrow> bool" where
  "nv_inv nv s = (length (at_cfg s) = 604 \<and> take 104 (at_cfg s) = nv \<and> cb_keeps_nv (at_callback s))"

lemma poke_nv: "104 \<le> off \<Longrightarrow> off \<le> 604 \<Longrightarrow> length mem = 604 \<Longrightarrow> take 104 (poke off bs mem) = take 104 mem"
  by (rule take_poke) simp_all

lemma setcfg_nv:
  assumes "length mem = 604"
  shows "length (snd (at_setcfg key v mem)) = 604 \<and> take 104 (snd (at_setcfg key v mem)) = take 104 mem"
proof (cases "find_var key at_cfg_table")
  case None
  then show ?thesis using assms by (simp add: at_setcfg_def)
next
  case (Some d)
  then have d: "d \<in> set at_cfg_table" using find_var_in by blast
  have "v_pvar d \<le> 604" using table_var [OF cfg_table_ok d] by simp
  moreover have "v_po d = APO_RW \<longrightarrow> 108 \<le> v_pvar d"
    using read_only_below [unfolded list_all_iff, THEN bspec, OF d] by simp
  ultimately show ?thesis using assms Some by (auto simp: at_setcfg_def set_var_def poke_nv)
qed

lemma ssid_offsets: "offsetof at_config_t ''wifi_ssid'' = 248" "offsetof at_config_t ''wifi_ssid_len'' = 280"
  by (simp_all add: offsetof_def config_at)

lemma ssidtxt_nv:
  "length mem = 604 \<Longrightarrow>
   length (snd (at_ssidtxt t mem)) = 604 \<and> take 104 (snd (at_ssidtxt t mem)) = take 104 mem"
  by (simp add: at_ssidtxt_def Let_def ssid_offsets poke_nv)

lemma queue_get_frame:
  "at_cfg (snd (queue_get s)) = at_cfg s" "overrun (snd (queue_get s)) = overrun s" "at_callback (snd (queue_get s)) = at_callback s"
  "cache_cnt (snd (queue_get s)) = cache_cnt s" "cache_buf (snd (queue_get s)) = cache_buf s" "line_flag (snd (queue_get s)) = line_flag s"
  by (simp_all add: queue_get_def split: prod.split)

lemma queue_peek_frame:
  "at_cfg (snd (queue_peek s)) = at_cfg s" "overrun (snd (queue_peek s)) = overrun s" "at_callback (snd (queue_peek s)) = at_callback s"
  "cache_cnt (snd (queue_peek s)) = cache_cnt s" "cache_buf (snd (queue_peek s)) = cache_buf s" "line_flag (snd (queue_peek s)) = line_flag s"
  by (simp_all add: queue_peek_def split: prod.split)

lemma at_dump_frame:
  "at_dump t s = Some s' \<Longrightarrow> at_cfg s' = at_cfg s \<and> overrun s' = overrun s \<and> at_callback s' = at_callback s"
  by (auto simp: at_dump_def split: if_splits)

interpretation nv: handler_inv "nv_inv nv" for nv
proof
  fix s :: "'a at_state"
  assume i: "nv_inv nv s"
  show "nv_inv nv (snd (queue_get s))" using i by (simp add: nv_inv_def queue_get_frame)
  show "nv_inv nv s'" if "at_dump t s = Some s'" for t s'
    using i at_dump_frame [OF that] by (simp add: nv_inv_def)
  show "nv_inv nv (snd (snd (call_cb f c s)))" if "handle_cb (at_callback s) = Some f" for f c
    using i that unfolding nv_inv_def cb_keeps_nv_def
    by (fastforce simp: call_cb_def split: prod.splits)
  show "nv_inv nv (s\<lparr>at_cfg := snd (at_setcfg key v (at_cfg s))\<rparr>)" for key v
    using i setcfg_nv [of "at_cfg s" key v] by (simp add: nv_inv_def)
  show "nv_inv nv (s\<lparr>at_cfg := snd (at_ssidtxt t (at_cfg s))\<rparr>)" for t
    using i ssidtxt_nv [of "at_cfg s" t] by (simp add: nv_inv_def)
qed

text \<open>A byte that is taken changes only the cache and the queue.\<close>

definition same_cfg :: "'w at_state \<Rightarrow> 'w at_state \<Rightarrow> bool" where
  "same_cfg s s' = (at_cfg s' = at_cfg s \<and> at_callback s' = at_callback s)"

lemma cache_frame [simp]:
  "at_cfg (cache_store x t) = at_cfg t" "at_callback (cache_store x t) = at_callback t"
  "at_cfg (cache_discard t) = at_cfg t" "at_callback (cache_discard t) = at_callback t"
  by (simp_all add: cache_store_def cache_discard_def)

lemma cache_add_frame: "cache_add x t = Some u \<Longrightarrow> at_cfg u = at_cfg t \<and> at_callback u = at_callback t"
  by (auto simp: cache_add_def split: if_splits)

lemma peek_frame: "queue_peek t = (b, u) \<Longrightarrow> at_cfg u = at_cfg t \<and> at_callback u = at_callback t"
  using queue_peek_frame [of t] by simp

lemma take_char_cfg: "take_char c s = Inl s' \<or> take_char c s = Inr s' \<Longrightarrow> same_cfg s s'"
  unfolding take_char_def Let_def same_cfg_def
  by (auto split: if_splits option.splits prod.splits dest!: peek_frame cache_add_frame)

lemma finish_line_nv:
  assumes "nv_inv nv s" "finish_line s = Some s'"
  shows "nv_inv nv s'"
proof (cases "line_flag s")
  case False
  then show ?thesis using assms by (simp add: finish_line_def)
next
  case True
  then obtain s1 aec s2 s3 where e: "echo s = Some s1" "at_parse_cmd (cache_buf s1) (cache_cnt s1) s1 = Some (aec, s2)"
    "at_response aec s2 = Some s3" "s' = s3\<lparr>cache_cnt := 0, line_flag := False\<rparr>"
    using assms(2) by (auto simp: finish_line_def split: bind_splits)
  have "nv_inv nv (cache_terminate s)" using assms(1) by (simp add: nv_inv_def cache_terminate_def)
  then have "nv_inv nv s1" using e(1) assms(1) nv.inv_dump by (auto simp: echo_def Let_def split: if_splits)
  then have "nv_inv nv s2" by (rule nv.keepsD [OF nv.parse_cmd_keeps _ e(2)])
  then have "nv_inv nv s3" using e(3) nv.inv_dump by (auto simp: at_response_def split: if_splits option.splits)
  then show ?thesis by (simp add: e(4) nv_inv_def)
qed

lemma turn_nv:
  assumes "nv_inv nv s" "at_parse_turn s = Some s'"
  shows "nv_inv nv s'"
proof -
  obtain o1 s1 where g: "queue_get s = (o1, s1)" by force
  have i: "nv_inv nv s1" using nv.inv_get [OF assms(1)] g by simp
  show ?thesis
  proof (cases o1)
    case None
    then show ?thesis using assms(2) g finish_line_nv [OF i] by (simp add: at_parse_turn_def)
  next
    case (Some b)
    have "nv_inv nv s2" if "take_char (char_at b) s1 = Inl s2 \<or> take_char (char_at b) s1 = Inr s2" for s2
      using i take_char_cfg [OF that] by (simp add: nv_inv_def same_cfg_def)
    then show ?thesis
      using assms(2) g Some finish_line_nv by (cases "take_char (char_at b) s1") (auto simp: at_parse_turn_def)
  qed
qed

lemma turns_nv: "nv_inv nv s \<Longrightarrow> at_parse_turns n s = Some s' \<Longrightarrow> nv_inv nv s'"
proof (induction n arbitrary: s)
  case 0
  then show ?case by simp
next
  case (Suc n)
  then show ?case using turn_nv by (cases "at_parse_turn s") auto
qed

lemma nv_bytes:
  assumes "d \<in> set at_cfg_table" "v_po d = APO_RO" "take 104 mem = take 104 mem'"
  shows "var_bytes d mem = var_bytes d mem'"
proof -
  have "v_pvar d + v_vsize d \<le> 104"
    using read_only_below [unfolded list_all_iff, THEN bspec, OF assms(1)] assms(2) by simp
  then have "var_bytes d m = take (v_vsize d) (drop (v_pvar d) (take 104 m))" for m
    by (simp add: var_bytes_def drop_take min_def)
  then show ?thesis using assms(3) by simp
qed


definition serial_var :: at_var_descriptor_t where "serial_var = cfg_var ''nv_serial'' APT_TEXT APO_RO None"


section \<open>The bounds of the line cache\<close>

interpretation in_cache: handler_inv "\<lambda>s. \<not> overrun s"
proof
  fix s :: "'a at_state"
  assume i: "\<not> overrun s"
  show "\<not> overrun (snd (queue_get s))" using i by (simp add: queue_get_frame)
  show "\<not> overrun s'" if "at_dump t s = Some s'" for t s' using i at_dump_frame [OF that] by simp
  show "\<not> overrun (snd (snd (call_cb f c s)))" for f c using i by (simp add: call_cb_def split: prod.split)
  show "\<not> overrun (s\<lparr>at_cfg := snd (at_setcfg key v (at_cfg s))\<rparr>)" for key v using i by simp
  show "\<not> overrun (s\<lparr>at_cfg := snd (at_ssidtxt t (at_cfg s))\<rparr>)" for t using i by simp
qed

text \<open>\<open>room k s\<close>: nothing stored outside so far, and there is room for \<open>k\<close> more characters.\<close>

definition room :: "nat \<Rightarrow> 'w at_state \<Rightarrow> bool" where
  "room k s = (\<not> overrun s \<and> cache_cnt s + k \<le> 1024)"

lemma room_store: "room (Suc k) s \<Longrightarrow> room k (cache_store c s)"
  by (simp add: room_def cache_store_def CMD_CACHE_MAX_LEN_def)

lemma room_add: "room (Suc k) s \<Longrightarrow> cache_add c s = Some s' \<Longrightarrow> room k s'"
  by (auto simp: cache_add_def room_store split: if_splits)

lemma room_frame: "room k (s\<lparr>line_flag := b\<rparr>) = room k s" "room k s \<Longrightarrow> room j (cache_discard s) = (j \<le> 1024)"
  "room k s \<Longrightarrow> j \<le> k \<Longrightarrow> room j s"
  by (auto simp: room_def cache_discard_def)

lemma room_peek: "room k s \<Longrightarrow> queue_peek s = (b, s') \<Longrightarrow> room k s'"
  using queue_peek_frame [of s] by (auto simp: room_def)

lemma take_char_room:
  assumes "room 4 s"
  shows "take_char c s = Inl s' \<Longrightarrow> room 4 s'" "take_char c s = Inr s' \<Longrightarrow> room 1 s'"
proof -
  have r: "room k s" if "k \<le> 4" for k using room_frame(3) [OF assms that] .
  note rooms = r [of 4] r [of 3] r [of 2, simplified numeral_2_eq_2]
  have some: "\<exists>u. cache_add x t = Some u" if "room (Suc k) t" for x k and t :: "'a at_state"
    using that by (auto simp: cache_add_def room_def CMD_CACHE_MAX_LEN_def)
  have add2: "\<exists>u v. cache_add x t = Some u \<and> cache_add x (u\<lparr>line_flag := True\<rparr>) = Some v \<and> room k v"
    if t: "room (Suc (Suc k)) t" for x k and t :: "'a at_state"
  proof -
    obtain u where u: "cache_add x t = Some u" using some [OF t] by blast
    then have ru: "room (Suc k) (u\<lparr>line_flag := True\<rparr>)" using room_add [OF t] by (simp add: room_frame)
    obtain v where "cache_add x (u\<lparr>line_flag := True\<rparr>) = Some v" using some [OF ru] by blast
    then show ?thesis using u room_add [OF ru] by blast
  qed
  have "\<exists>s2. take_char c s = Inr s2 \<and> room 1 s2"
  proof (cases "c = AT_LF")
    case True
    obtain u v where "cache_add AT_LF s = Some u" "cache_add AT_LF (u\<lparr>line_flag := True\<rparr>) = Some v" "room 1 v"
      using add2 [of 1 s AT_LF] r [of 3] by (auto simp: eval_nat_numeral)
    then show ?thesis using True by (simp add: take_char_def Let_def)
  next
    case lf: False
    show ?thesis
    proof (cases "c = AT_CR")
      case False
      obtain u where "cache_add c s = Some u" "room 1 u"
        using some [of 1 s c] room_add [of 1 s c] r [of 2] by (auto simp: eval_nat_numeral)
      then show ?thesis using False lf by (simp add: take_char_def)
    next
      case True
      have s1: "room 3 (cache_store AT_CR s)" using room_store [of 3 s AT_CR] assms by (simp add: eval_nat_numeral)
      obtain b s2 where p: "queue_peek (cache_store AT_CR s) = (b, s2)" by force
      have s2: "room 3 s2" by (rule room_peek [OF s1 p])
      let ?c = "case b of Some x \<Rightarrow> char_at x | None \<Rightarrow> AT_CR"
      show ?thesis
      proof (cases "b \<noteq> None \<and> ?c = AT_LF")
        case l: True
        obtain b2 s3 where p2: "queue_peek s2 = (b2, s3)" by force
        have s3: "room 3 s3" by (rule room_peek [OF s2 p2])
        let ?d = "case b2 of Some x \<Rightarrow> char_at x | None \<Rightarrow> ?c"
        obtain u v where "cache_add ?d s3 = Some u" "cache_add ?d (u\<lparr>line_flag := True\<rparr>) = Some v" "room 1 v"
          using add2 [of 1 s3 ?d] s3 by (auto simp: eval_nat_numeral)
        then show ?thesis using True l p p2 by (auto simp: take_char_def Let_def)
      next
        case n: False
        have "room (Suc 1) (s2\<lparr>line_flag := True\<rparr>)" using room_frame(3) [OF s2, of 2] by (simp add: room_frame eval_nat_numeral)
        then obtain u where "cache_add ?c (s2\<lparr>line_flag := True\<rparr>) = Some u" "room 1 u"
          using some room_add by blast
        then show ?thesis using True n p by (auto simp: take_char_def Let_def)
      qed
    qed
  qed
  then show "take_char c s = Inl s' \<Longrightarrow> room 4 s'" "take_char c s = Inr s' \<Longrightarrow> room 1 s'" by auto
qed

lemma finish_line_room:
  assumes "room 1 s" "finish_line s = Some s'"
  shows "\<not> overrun s'"
proof (cases "line_flag s")
  case False
  then show ?thesis using assms by (simp add: finish_line_def room_def)
next
  case True
  then obtain s1 aec s2 s3 where e: "echo s = Some s1" "at_parse_cmd (cache_buf s1) (cache_cnt s1) s1 = Some (aec, s2)"
    "at_response aec s2 = Some s3" "s' = s3\<lparr>cache_cnt := 0, line_flag := False\<rparr>"
    using assms(2) by (auto simp: finish_line_def split: bind_splits)
  have "\<not> overrun (cache_terminate s)" using assms(1) by (simp add: room_def cache_terminate_def CMD_CACHE_MAX_LEN_def)
  then have "\<not> overrun s1" using e(1) assms(1) in_cache.inv_dump by (auto simp: echo_def Let_def room_def split: if_splits)
  then have "\<not> overrun s2" by (rule in_cache.keepsD [OF in_cache.parse_cmd_keeps _ e(2)])
  then have "\<not> overrun s3" using e(3) in_cache.inv_dump by (auto simp: at_response_def split: if_splits option.splits)
  then show ?thesis by (simp add: e(4))
qed

lemma turn_room:
  assumes "room 4 s" "at_parse_turn s = Some s'"
  shows "\<not> overrun s'"
proof -
  obtain o1 s1 where g: "queue_get s = (o1, s1)" by force
  have i: "room 4 s1" using assms(1) queue_get_frame [of s] g by (simp add: room_def)
  show ?thesis
  proof (cases o1)
    case None
    then show ?thesis using assms(2) g finish_line_room room_frame(3) [OF i, of 1] by (simp add: at_parse_turn_def)
  next
    case (Some b)
    show ?thesis
    proof (cases "take_char (char_at b) s1")
      case (Inl u)
      then show ?thesis using assms(2) g Some take_char_room(1) [OF i Inl] by (simp add: at_parse_turn_def room_def)
    next
      case (Inr u)
      have "finish_line u = Some s'" using assms(2) g Some Inr by (simp add: at_parse_turn_def)
      then show ?thesis by (rule finish_line_room [OF take_char_room(2) [OF i Inr]])
    qed
  qed
qed

text \<open>A carriage return after 1024 characters is stored behind the cache.\<close>

lemma cr_overruns:
  assumes "port_ok q a" "pending q a = byte_of AT_CR # rest" "length buf = 1024"
  shows "\<exists>s'. at_parse_turn (collect q a buf 1024 False s) = Some s' \<and> overrun s'"
proof -
  obtain q1 a1 where g: "queue_get (collect q a buf 1024 False s) = (Some (byte_of AT_CR), collect q1 a1 buf 1024 False s)"
    using queue_get_collect [OF assms(1,2)] by metis
  let ?s1 = "cache_store AT_CR (collect q1 a1 buf 1024 False s)"
  have 1: "overrun ?s1" "cache_cnt ?s1 = 1025" by (simp_all add: cache_store_def CMD_CACHE_MAX_LEN_def)
  have full: "cache_add x t = None" if "cache_cnt t = 1025" for x and t :: "'a at_state"
    using that by (simp add: cache_add_def CMD_CACHE_MAX_LEN_def)
  obtain b s2 where p: "queue_peek ?s1 = (b, s2)" by force
  then have 2: "overrun s2" "cache_cnt s2 = 1025" using queue_peek_frame [of ?s1] 1 by simp_all
  obtain b3 s3 where p3: "queue_peek s2 = (b3, s3)" by force
  then have 3: "overrun s3" "cache_cnt s3 = 1025" using queue_peek_frame [of s2] 2 by simp_all
  show ?thesis
    using p p3 2 3 by (auto simp: at_parse_turn_def g take_char_def Let_def full cache_discard_def)
qed

text \<open>
  C26: As long as a line leaves at least four bytes of the cache free, no turn of the parser stores outside
  the cache, whatever byte comes; but a line of 1024 characters ended by a carriage return does.
\<close>

theorem line_cache_bounds:
  "(\<not> overrun s \<and> cache_cnt s \<le> 1020 \<and> at_parse_turn s = Some s' \<longrightarrow> \<not> overrun s') \<and>
   (ready t \<and> pending (queue t) (answers t) = map byte_of (line @ [AT_CR]) @ rest \<and> plain_line line \<and> length line = 1024 \<longrightarrow>
     (\<exists>t'. at_parse_turns 1025 t = Some t' \<and> overrun t'))"
proof (intro conjI impI)
  assume "\<not> overrun s \<and> cache_cnt s \<le> 1020 \<and> at_parse_turn s = Some s'"
  then show "\<not> overrun s'" using turn_room [of s s'] by (simp add: room_def)
next
  assume t: "ready t \<and> pending (queue t) (answers t) = map byte_of (line @ [AT_CR]) @ rest \<and> plain_line line \<and> length line = 1024"
  then have p: "port_ok (queue t) (answers t)" "length (cache_buf t) = 1024" by (simp_all add: ready_def)
  from collect_turns [OF p(1) _ _ _ p(2), of line "byte_of AT_CR # rest" 0 t] t
  obtain q a buf where c: "port_ok q a" "pending q a = byte_of AT_CR # rest" "length buf = 1024"
    "at_parse_turns 1024 t = Some (collect q a buf 1024 False t)"
    using ready_self [of t] by auto
  from cr_overruns [OF c(1-3)] obtain t' where t': "at_parse_turn (collect q a buf 1024 False t) = Some t'" "overrun t'" by blast
  have n: "1025 = 1024 + (1 :: nat)" by simp
  have "at_parse_turns 1025 t = Some t'"
    unfolding n by (rule turns_trans [OF c(4)]) (simp only: turns_one t'(1))
  then show "\<exists>t'. at_parse_turns 1025 t = Some t' \<and> overrun t'" using t'(2) by blast
qed

theorem line_cache_bounds_witness:
  "(\<exists>s'. at_parse_turn (start_state None [byte_of AT_LF]) = Some s' \<and> \<not> overrun s') \<and>
   (\<exists>t'. at_parse_turns 1025 (start_state None (map byte_of (replicate 1024 (CHR ''a'') @ [AT_CR]))) = Some t' \<and> overrun t')"
proof (intro conjI)
  let ?s = "start_state None [byte_of AT_LF]"
  have r: "ready ?s" by (rule start_ready) simp
  from r have p: "port_ok (queue ?s) (answers ?s)" "length (cache_buf ?s) = 1024" by (simp_all add: ready_def)
  obtain s' where s': "at_parse_turn ?s = Some s'"
    using lf_turn [OF p(1) start_pending [of "()" None "[byte_of AT_LF]"] p(2), of ?s]
    unfolding ready_self [OF r, symmetric] by blast
  have "\<not> overrun ?s" "cache_cnt ?s \<le> 1020" by (simp_all add: start_in_def)
  then have "\<not> overrun s'"
    using line_cache_bounds [where s = ?s and s' = s', THEN conjunct1, THEN mp] s' by blast
  then show "\<exists>s'. at_parse_turn ?s = Some s' \<and> \<not> overrun s'" using s' by blast
next
  let ?l = "replicate 1024 (CHR ''a'')"
  let ?t = "start_state None (map byte_of (?l @ [AT_CR]))"
  have "length (map byte_of (?l @ [AT_CR])) \<le> 4096" by simp
  note t = start_ready [OF this, of "()" None] start_pending [of "()" None "map byte_of (?l @ [AT_CR])"]
  have "plain_line ?l" by (simp add: plain_line_def list.pred_set AT_CR_def AT_LF_def)
  moreover have "length ?l = 1024" by (rule length_replicate)
  ultimately show "\<exists>t'. at_parse_turns 1025 ?t = Some t' \<and> overrun t'"
    using line_cache_bounds [where t = ?t and line = ?l and rest = "[]", THEN conjunct2, THEN mp] t
    unfolding append_Nil2 by blast
qed

section \<open>The echo of a full line\<close>

lemma echo_stops:
  assumes "ready s" "cfg_word ''localecho1'' (at_cfg s) \<noteq> 0"
    and "pending (queue s) (answers s) = map byte_of (line @ [AT_LF]) @ rest" "plain_line line" "no_nul line" "length line = 1022"
  shows "at_parse_turns 1023 s = None"
proof -
  from assms(1) have p: "port_ok (queue s) (answers s)" "length (cache_buf s) = 1024" by (simp_all add: ready_def)
  from collect_turns [OF p(1) _ assms(4) _ p(2), of "byte_of AT_LF # rest" 0 s] assms(3,6)
  obtain q a buf where c: "port_ok q a" "pending q a = byte_of AT_LF # rest" "length buf = 1024" "take 1022 buf = line"
    "at_parse_turns 1022 s = Some (collect q a buf 1022 False s)"
    using ready_self [OF assms(1)] by auto
  obtain q1 a1 where g: "queue_get (collect q a buf 1022 False s) = (Some (byte_of AT_LF), collect q1 a1 buf 1022 False s)"
    using queue_get_collect [OF c(1,2)] by metis
  let ?buf = "buf[1022 := AT_LF, 1023 := AT_LF]"
  have t: "at_parse_turn (collect q a buf 1022 False s) = finish_line (collect q1 a1 ?buf 1024 True s)"
    by (simp add: at_parse_turn_def g take_char_def cache_add_collect flag_collect Let_def)
  have b: "?buf = line @ [AT_LF, AT_LF]"
  proof -
    have l: "take 1023 (buf[1022 := AT_LF]) = line @ [AT_LF]"
      using take_list_update_snoc [of 1022 buf AT_LF] c(3,4) by simp
    have "take 1024 ?buf = take 1023 (buf[1022 := AT_LF]) @ [AT_LF]"
      using take_list_update_snoc [of 1023 "buf[1022 := AT_LF]" AT_LF] c(3) by simp
    then show ?thesis using c(3) l by simp
  qed
  have "list_all (\<lambda>x. x \<noteq> CHR 0x00) ?buf" unfolding b using assms(5) by (simp add: no_nul_def AT_LF_def)
  then have e: "cstr ?buf = ?buf" by (rule cstr_id)
  let ?c = "collect q1 a1 ?buf 1024 True s"
  have ct: "cache_buf (cache_terminate ?c) = ?buf" using c(3) by (simp add: cache_terminate_def list_update_beyond)
  have "echo ?c = None"
    unfolding echo_def Let_def ct e using assms(2) c(3) by (simp add: at_dump_def MAX_DUMP_BUFF_SIZE_def)
  then have "at_parse_turn (collect q a buf 1022 False s) = None" by (simp add: t finish_line_def)
  then have "at_parse_turns (1022 + 1) s = None" by (intro turns_trans [OF c(5)]) (simp only: turns_one)
  then show ?thesis by simp
qed

text \<open>With the echo switched on, a line of 1022 characters ended by a line feed stops the interpreter: the
  line feed is stored twice, the 1024 characters fill the cache, and the echo is one more than at_dump can
  print, which ends in the endless loop of AT_ERR.
\<close>

lemma full_line_echo_stops:
  assumes "ready s" "cfg_word ''localecho1'' (at_cfg s) \<noteq> 0"
    and "pending (queue s) (answers s) = map byte_of (line @ [AT_LF]) @ rest" "plain_line line" "no_nul line" "length line = 1022"
  shows "at_parse_turns 1023 s = None"
  by (rule echo_stops [OF assms])

lemma word_poke:
  assumes "off + 4 \<le> length mem"
  shows "take 4 (drop off (poke off (bytes_of_word w) mem)) = bytes_of_word w"
  using assms by (simp add: poke_def)

lemma full_line_echo_stops_witness:
  "at_parse_turns 1023 ((start_state None (map byte_of (replicate 1022 (CHR ''a'') @ [AT_LF])))
     \<lparr>at_cfg := poke 192 (bytes_of_word 1) (replicate 604 0)\<rparr>) = None"
proof -
  let ?l = "replicate 1022 (CHR ''a'')"
  let ?t = "start_state None (map byte_of (?l @ [AT_LF]))"
  let ?s = "?t\<lparr>at_cfg := poke 192 (bytes_of_word 1) (replicate 604 0)\<rparr>"
  have "length (map byte_of (?l @ [AT_LF])) \<le> 4096" by simp
  then have r: "ready ?s" using start_ready [of _ "()" None] by (simp add: ready_def)
  have p: "pending (queue ?s) (answers ?s) = map byte_of (?l @ [AT_LF]) @ []"
    using start_pending [of "()" None "map byte_of (?l @ [AT_LF])"] by simp
  have "offsetof at_config_t ''localecho1'' = 192" by (simp add: offsetof_def config_at)
  then have e: "cfg_word ''localecho1'' (at_cfg ?s) \<noteq> 0"
    by (simp add: cfg_word_def word_poke)
  have l: "plain_line ?l" "no_nul ?l" "length ?l = 1022"
    by (simp_all only: plain_line_def no_nul_def list.pred_set set_replicate_conv_if length_replicate)
      (simp_all add: AT_CR_def AT_LF_def)
  show ?thesis by (rule full_line_echo_stops [OF r e p l])
qed

end
