(* ===== verification/At_Checks.thy ===== *)
theory At_Checks
  imports At_Safety
begin

text \<open>
  The checks of the configuration: sequences of settings that fit their variables keep every check true and
  behave as writes to separate variables, but two commands store more than their variable holds. And what
  the write command of a socket takes for its data.
\<close>

section \<open>Sequences of settings\<close>

text \<open>A configuration that meets the checks, and the settings of a sequence that are carried out.\<close>

definition cfg_sound :: "u8 list \<Rightarrow> bool" where
  "cfg_sound mem =
     (mem_ok 604 at_cfg_table mem \<and>
      list_all (\<lambda>d. case (v_verify d, var_value d mem) of (Some ver, V_di i) \<Rightarrow> ver i | _ \<Rightarrow> True) at_cfg_table)"

definition carried_out :: "string \<times> at_value_t \<Rightarrow> (at_var_descriptor_t \<times> at_value_t) option" where
  "carried_out w =
     (case find_var (fst w) at_cfg_table of
        Some d \<Rightarrow> if v_po d = APO_RW \<and> verified d (snd w) then Some (d, snd w) else None
      | None \<Rightarrow> None)"

definition settings :: "(string \<times> at_value_t) list \<Rightarrow> u8 list \<Rightarrow> u8 list" where
  "settings ws mem = fold (\<lambda>(k, v) m. snd (at_setcfg k v m)) ws mem"

lemma setcfg_carried: "snd (at_setcfg k v m) = (case carried_out (k, v) of Some (d, u) \<Rightarrow> set_var d u m | None \<Rightarrow> m)"
  by (auto simp: at_setcfg_def carried_out_def verified_def split: option.splits)

lemma settings_writes: "settings ws mem = fold (\<lambda>(d, v). set_var d v) (List.map_filter carried_out ws) mem"
proof (induction ws arbitrary: mem)
  case Nil
  show ?case by (simp add: settings_def List.map_filter_def)
next
  case (Cons w ws)
  obtain k v where w: "w = (k, v)" by force
  have "settings (w # ws) mem = settings ws (snd (at_setcfg k v mem))" by (simp add: settings_def w)
  also have "\<dots> = fold (\<lambda>(d, v). set_var d v) (List.map_filter carried_out ws) (snd (at_setcfg k v mem))" by (rule Cons.IH)
  finally show ?case by (auto simp: setcfg_carried w map_filter_simps split: option.splits)
qed

definition fitting :: "string \<times> at_value_t \<Rightarrow> bool" where
  "fitting w = (case find_var (fst w) at_cfg_table of Some d \<Rightarrow> var_fits d (snd w) | None \<Rightarrow> True)"

lemma carried_fits: "list_all fitting ws \<Longrightarrow> list_all (\<lambda>(d, v). d \<in> set at_cfg_table \<and> var_fits d v) (List.map_filter carried_out ws)"
proof (induction ws)
  case Nil
  show ?case by (simp add: List.map_filter_def)
next
  case (Cons w ws)
  then show ?case
    by (auto simp: map_filter_simps carried_out_def fitting_def split: option.splits if_splits dest: find_var_in)
qed

lemma sound_set:
  assumes m: "cfg_sound m" and d: "d \<in> set at_cfg_table" "var_fits d v" "verified d v"
  shows "cfg_sound (set_var d v m)"
proof -
  have k: "mem_ok 604 at_cfg_table m" using m by (simp add: cfg_sound_def)
  have "case (v_verify e, var_value e (set_var d v m)) of (Some ver, V_di i) \<Rightarrow> ver i | _ \<Rightarrow> True"
    if e: "e \<in> set at_cfg_table" for e
  proof (cases "e = d")
    case True
    then show ?thesis
      using d cfg.rd_wr [OF d(1,2) k]
      by (auto simp: verified_def at_set_value_def var_fits_def di_member_di split: option.splits at_value_t.splits)
  next
    case False
    then show ?thesis using m e cfg.rd_other [OF d(1) e False d(2) k] by (auto simp: cfg_sound_def list_all_iff)
  qed
  then show ?thesis using cfg.wr_ok [OF d(1,2) k] by (simp add: cfg_sound_def list_all_iff)
qed

lemma settings_sound: "list_all fitting ws \<Longrightarrow> cfg_sound mem \<Longrightarrow> cfg_sound (settings ws mem)"
proof (induction ws arbitrary: mem)
  case Nil
  then show ?case by (simp add: settings_def)
next
  case (Cons w ws)
  obtain k v where w: "w = (k, v)" by force
  have "cfg_sound (snd (at_setcfg k v mem))"
    using Cons.prems sound_set
    by (auto simp: setcfg_carried carried_out_def w fitting_def split: option.splits dest: find_var_in)
  moreover have "settings (w # ws) mem = settings ws (snd (at_setcfg k v mem))" by (simp add: settings_def w)
  ultimately show ?case using Cons by simp
qed

text \<open>
  C16: From a configuration that meets the checks, any sequence of settings whose values fit their variables
  leads to a configuration that meets them; every variable then has the last value that was carried out for
  it (the key known and writable, the check passed), and the others are as before.
\<close>

theorem settings_checked:
  assumes "list_all fitting ws" "cfg_sound mem" "e \<in> set at_cfg_table"
  shows "cfg_sound (settings ws mem) \<and>
    var_value e (settings ws mem) =
      (case map_of (rev (List.map_filter carried_out ws)) e of
         Some v \<Rightarrow> at_set_value (v_vsize e) v
       | None \<Rightarrow> var_value e mem)"
  using settings_sound [OF assms(1,2)] cfg.last_write [OF carried_fits [OF assms(1)] _ assms(3), of mem] assms(2)
  by (simp add: settings_writes cfg_sound_def)

definition factory_cfg :: "u8 list" where "factory_cfg = set_var speed_var (V_di 9600) (replicate 604 0)"

lemma zero_checks: "list_all (\<lambda>d. v_key d = ''console1_speed'' \<or> (case v_verify d of None \<Rightarrow> True | Some ver \<Rightarrow> ver 0)) at_cfg_table"
  unfolding at_cfg_table_rows by code_simp

lemma factory_sound: "cfg_sound factory_cfg"
proof -
  have k: "mem_ok 604 at_cfg_table (replicate 604 0)" using start_mem [of "()" None "[]"] by (simp add: start_in_def)
  have f: "var_fits speed_var (V_di 9600)" by (simp add: var_fits_def speed_var_def cfg_var_def)
  have "replicate 4 (0 :: u8) = [0, 0, 0, 0]" by (simp add: numeral_eq_Suc)
  then have z: "word_of_bytes (replicate 4 0) = 0" by (simp add: word_of_bytes_def)
  have "case (v_verify e, var_value e factory_cfg) of (Some ver, V_di i) \<Rightarrow> ver i | _ \<Rightarrow> True" if e: "e \<in> set at_cfg_table" for e
  proof (cases "e = speed_var")
    case True
    then show ?thesis using cfg.rd_wr [OF speed_var_in f k]
      by (simp add: factory_cfg_def speed_var_def cfg_var_def at_set_value_def console1_speed_verify_def)
  next
    case False
    have "v_key e \<noteq> ''console1_speed''"
    proof
      assume "v_key e = ''console1_speed''"
      then have "find_var (v_key e) at_cfg_table = find_var (v_key speed_var) at_cfg_table"
        by (simp add: speed_var_def cfg_var_def)
      then show False using False find_var_key [OF cfg_table_ok e] find_var_key [OF cfg_table_ok speed_var_in] by simp
    qed
    then have c: "case v_verify e of None \<Rightarrow> True | Some ver \<Rightarrow> ver 0"
      using zero_checks [unfolded list_all_iff, THEN bspec, OF e] by simp
    note b = table_var [OF cfg_table_ok e]
    have v: "var_value e factory_cfg = var_value e (replicate 604 0)"
      unfolding factory_cfg_def by (rule cfg.rd_other [OF speed_var_in e False f k])
    have "i = 0" if "var_value e (replicate 604 0) = V_di i" for i
    proof -
      have t: "v_pt e = APT_DI" using that by (cases "v_pt e") (simp_all add: var_value_def Let_def)
      then have "v_pvar e + 4 \<le> 604" using b by simp
      then have "take 4 (drop (v_pvar e) (replicate 604 0)) = replicate 4 (0 :: u8)"
        by (simp only: drop_replicate take_replicate) (simp only: min_def, simp)
      then show ?thesis using that t z by (simp add: var_value_def Let_def)
    qed
    then show ?thesis using c v by (auto split: option.splits at_value_t.splits)
  qed
  then show ?thesis using cfg.wr_ok [OF speed_var_in f k] by (simp add: cfg_sound_def list_all_iff factory_cfg_def)
qed

theorem settings_checked_witness:
  "cfg_sound (settings [(''console1_speed'', V_di 38400), (''console1_speed'', V_di 7), (''nv_serial'', V_text ''x'')] factory_cfg) \<and>
   var_value speed_var (settings [(''console1_speed'', V_di 38400), (''console1_speed'', V_di 7), (''nv_serial'', V_text ''x'')] factory_cfg) =
     V_di 38400"
proof -
  let ?ws = "[(''console1_speed'', V_di 38400), (''console1_speed'', V_di 7), (''nv_serial'', V_text ''x'')]"
  have in2: "serial_var \<in> set at_cfg_table" by (simp add: at_cfg_table_def serial_var_def)
  have f: "find_var ''console1_speed'' at_cfg_table = Some speed_var" "find_var ''nv_serial'' at_cfg_table = Some serial_var"
    using find_var_key [OF cfg_table_ok speed_var_in] find_var_key [OF cfg_table_ok in2]
    by (simp_all add: speed_var_def serial_var_def cfg_var_def)
  have s: "v_pt serial_var = APT_TEXT" "v_vsize serial_var = 32" "v_po serial_var = APO_RO"
    by (simp_all add: serial_var_def cfg_var_def size_of_def config_at)
  have p: "v_pt speed_var = APT_DI" "v_po speed_var = APO_RW" "verified speed_var (V_di 38400)" "\<not> verified speed_var (V_di 7)"
    by (simp_all add: speed_var_def cfg_var_def verified_def di_member_di console1_speed_verify_def)
  have "list_all fitting ?ws" by (simp add: fitting_def f s p var_fits_def)
  moreover have "List.map_filter carried_out ?ws = [(speed_var, V_di 38400)]"
    by (simp add: map_filter_simps carried_out_def f s p)
  ultimately show ?thesis using settings_checked [OF _ factory_sound speed_var_in, of ?ws] by (simp add: at_set_value_def)
qed

section \<open>Stores that run over a variable\<close>

text \<open>The text of a line as the handlers read it.\<close>

definition sendable_text :: "string \<Rightarrow> bool" where
  "sendable_text t = (list_all plain t \<and> no_nul t \<and> t \<noteq> [] \<and> length t < 64)"

lemma text_read:
  assumes "sendable_text t"
  shows "at_get_parameters [para_d APT_TEXT AET_LINE 64] (t @ line_end @ r) = (AEC_OK, AT_LF # r, [V_text t])"
proof -
  let ?l = "para_d APT_TEXT AET_LINE 64"
  have "text_fits (option ?l) t" using assms by (simp add: text_fits_def options sendable_text_def)
  from text_pp.parse_crlf [OF this options(4) [of APT_TEXT 64], of "AT_LF # r"]
  show ?thesis by (simp add: at_get_parameters_def get_para_def options line_end_def)
qed

definition escape_var :: at_var_descriptor_t where "escape_var = cfg_var ''escape_seq'' APT_TEXT APO_RW None"

lemma escape_var_in: "escape_var \<in> set at_cfg_table" and escape_var_fields: "v_key escape_var = ''escape_seq''"
  "v_pt escape_var = APT_TEXT" "v_po escape_var = APO_RW" "v_verify escape_var = None" "v_pvar escape_var = 184"
  by (simp_all add: at_cfg_table_def escape_var_def cfg_var_def offsetof_def config_at)

definition escape_line :: "string \<Rightarrow> string" where "escape_line t = ''AT+S.SCFG=escape_seq,'' @ t"
definition ssid_line :: "string \<Rightarrow> string" where "ssid_line t = ''AT+S.SSIDTXT='' @ t"

lemma match_ssidtxt: "at_match ''AT+S.SSIDTXT'' = Some ssidtxt_handler"
  by (simp add: at_match_def at_command_table_def at_usage_def at_handlers_def cstr_def)

lemma text_of_one: "no_nul t \<Longrightarrow> text_of [V_text t] 0 [] = t"
  by (simp add: text_of_def cstr_id no_nul_def)

lemma text_line_ok:
  assumes "sendable_text t" "plain_line cmd" "no_nul cmd" "length cmd \<le> 100"
  shows "plain_line (cmd @ t)" "no_nul (cmd @ t)" "length (cmd @ t) \<le> 1020"
  using assms plain_line_plain by (simp_all add: line_parts sendable_text_def)

lemma escape_cmd:
  assumes "sendable_text t"
  shows "at_parse_cmd (escape_line t @ line_end @ r) (length (escape_line t) + 3) s =
    Some (AEC_OK, s\<lparr>at_cfg := poke 184 (map byte_of t @ [0]) (at_cfg s)\<rparr>)"
proof -
  have l: "escape_line t @ line_end @ r = ''AT+S.SCFG'' @ AT_EQU # v_key escape_var @ AT_SEPARATOR # t @ line_end @ r"
    by (simp add: escape_line_def escape_var_fields AT_EQU_def AT_SEPARATOR_def)
  have n: "9 < length (escape_line t) + 3" by (simp add: escape_line_def)
  have ty: "at_typecfg (v_key escape_var) = Some APT_TEXT"
    by (simp add: at_typecfg_def find_var_key [OF cfg_table_ok escape_var_in] escape_var_fields(2))
  have v: "value_d APT_TEXT = para_d APT_TEXT AET_LINE 64" by (simp add: value_d_def)
  have h: "setcfg_handler (AT_EQU # v_key escape_var @ AT_SEPARATOR # t @ line_end @ r) s = do_setcfg (v_key escape_var) (V_text t) s"
    by (simp add: setcfg_handler_def cur_def with_paras_def key_read(1) [OF escape_var_in] key_text [OF escape_var_in] ty
      find_value_d [of APT_TEXT, simplified] v text_read [OF assms])
  have "cstr t = t" using assms unfolding sendable_text_def no_nul_def by (intro cstr_id) simp
  then have "value_bytes (at_set_value (v_vsize escape_var) (V_text t)) = map byte_of t @ [0]"
    by (simp add: at_set_value_def value_bytes_def)
  then have "do_setcfg (v_key escape_var) (V_text t) s = Some (AEC_OK, s\<lparr>at_cfg := poke 184 (map byte_of t @ [0]) (at_cfg s)\<rparr>)"
    by (simp add: do_setcfg_def setcfg_key [OF escape_var_in] escape_var_fields(3,4,5) verified_def set_var_def)
  then show ?thesis
    unfolding l using n command_chars(1) by (subst command_found [OF match_scfg]) (simp_all add: cur_def h)
qed

lemma ssid_cmd:
  assumes "sendable_text t"
  shows "at_parse_cmd (ssid_line t @ line_end @ r) (length (ssid_line t) + 3) s =
    Some (AEC_OK, s\<lparr>at_cfg := snd (at_ssidtxt t (at_cfg s))\<rparr>)"
proof -
  have l: "ssid_line t @ line_end @ r = ''AT+S.SSIDTXT'' @ AT_EQU # t @ line_end @ r"
    by (simp add: ssid_line_def AT_EQU_def)
  have n: "12 < length (ssid_line t) + 3" by (simp add: ssid_line_def)
  have nn: "no_nul t" using assms by (simp add: sendable_text_def)
  have h: "ssidtxt_handler (AT_EQU # t @ line_end @ r) s = do_ssidtxt t s"
    by (simp add: ssidtxt_handler_def cur_def with_paras_def text_read [OF assms] text_of_one [OF nn])
  have "list_all (\<lambda>c. c \<noteq> AT_EQU \<and> c \<noteq> AT_LF \<and> c \<noteq> AT_CR) ''AT+S.SSIDTXT''"
    by (simp add: AT_EQU_def AT_LF_def AT_CR_def)
  moreover have "do_ssidtxt t s = Some (AEC_OK, s\<lparr>at_cfg := snd (at_ssidtxt t (at_cfg s))\<rparr>)"
    by (simp add: do_ssidtxt_def at_ssidtxt_def Let_def)
  ultimately show ?thesis
    unfolding l using n by (subst command_found [OF match_ssidtxt]) (simp_all add: cur_def h)
qed

text \<open>Four characters that are not zero make a number that no check admits.\<close>

lemma big_word:
  assumes "unat (d :: u8) \<noteq> 0"
  shows "\<not> console1_speed_verify (sint (word_of_bytes [a, b, c, d]))" "\<not> localecho1_verify (sint (word_of_bytes [a, b, c, d]))"
proof -
  let ?w = "word_of_bytes [a, b, c, d]"
  let ?n = "unat a + 256 * (unat b + 256 * (unat c + 256 * unat d))"
  have "w + 256 * (x + 256 * (y + 256 * z)) < 4294967296" if "w < 256" "x < 256" "y < 256" "z < 256" for w x y z :: nat
  proof -
    have "w \<le> 255" "x \<le> 255" "y \<le> 255" "z \<le> 255" using that by simp_all
    then show ?thesis by (simp add: distrib_left)
  qed
  from this [OF unat_u8 unat_u8 unat_u8 unat_u8] have "?n < 4294967296" .
  moreover have "unat (of_nat m :: u32) = m" if "m < 4294967296" for m
    using that by (simp add: unsigned_of_nat take_bit_nat_eq_self)
  moreover have "?w = of_nat ?n" by (simp only: word_of_bytes_def foldr.simps o_apply id_apply mult_0_right add_0_right)
  ultimately have n: "unat ?w = ?n" by (simp only:)
  have "1 \<le> unat d" using assms by simp
  then have "16777216 \<le> ?n" by (simp add: distrib_left)
  moreover have "unat ?w = nat i" if "sint ?w = i" "0 \<le> i" for i
  proof -
    have "?w = word_of_int i" unfolding that(1) [symmetric] by simp
    moreover have "i < 2147483648" using sint_lt [of ?w] that(1) by simp
    ultimately show ?thesis using that(2) by (simp add: unat_word_ariths unsigned_of_int take_bit_int_eq_self unat_eq_nat_uint)
  qed
  ultimately have big: "16777216 \<le> i" if "sint ?w = i" "0 \<le> i" for i using that n by (metis nat_le_eq_zle nat_numeral zle_int of_nat_le_iff nat_0_le of_nat_numeral)
  show "\<not> console1_speed_verify (sint ?w)" "\<not> localecho1_verify (sint ?w)"
    using big [OF refl] by (auto simp: console1_speed_verify_def localecho1_verify_def)
qed

lemma take_four:
  assumes "j + 4 \<le> length m"
  shows "take 4 (drop j m) = [m ! j, m ! (j + 1), m ! (j + 2), m ! (j + 3)]"
proof -
  have c: "drop i m = m ! i # drop (i + 1) m" if "i < j + 4" for i
    using Cons_nth_drop_Suc [of i m] that assms by simp
  have d: "drop j m = m ! j # m ! (j + 1) # m ! (j + 2) # m ! (j + 3) # drop (j + 4) m"
    using c [of j] c [of "j + 1"] c [of "j + 2"] c [of "j + 3"] by (simp add: numeral_eq_Suc)
  show ?thesis unfolding d by (simp add: numeral_eq_Suc)
qed

lemma four_bytes:
  assumes "length mem = 604" "no_nul t" "k + 4 \<le> length t" "off + length t < 604"
  shows "\<exists>a b c d. take 4 (drop (off + k) (poke off (map byte_of t @ [0]) mem)) = [a, b, c, d] \<and> unat d \<noteq> 0"
proof -
  let ?m = "poke off (map byte_of t @ [0]) mem"
  have l: "length ?m = 604" using assms by simp
  have "take 4 (drop (off + k) ?m) = [?m ! (off + k), ?m ! (off + k + 1), ?m ! (off + k + 2), ?m ! (off + k + 3)]"
    by (rule take_four) (use l assms(3,4) in simp)
  moreover have "?m ! (off + k + 3) = byte_of (t ! (k + 3))"
    using assms by (subst nth_poke) (auto simp: nth_append)
  moreover have "unat (byte_of (t ! (k + 3))) \<noteq> 0"
  proof -
    have "t ! (k + 3) \<noteq> CHR 0x00" using assms(2,3) unfolding no_nul_def list_all_length by simp
    then show ?thesis using byte_of_zero by (simp add: unat_eq_0)
  qed
  ultimately show ?thesis by simp
qed

lemma escape_overruns:
  assumes "length mem = 604" "no_nul t" "16 \<le> length t" "length t < 64"
  shows "\<not> console1_speed_verify (sint (cfg_word ''console1_speed'' (poke 184 (map byte_of t @ [0]) mem)))"
    "\<not> localecho1_verify (sint (cfg_word ''localecho1'' (poke 184 (map byte_of t @ [0]) mem)))"
proof -
  have o: "offsetof at_config_t ''console1_speed'' = 184 + 12" "offsetof at_config_t ''localecho1'' = 184 + 8"
    by (simp_all add: offsetof_def config_at)
  obtain a b c d where 1: "take 4 (drop (184 + 12) (poke 184 (map byte_of t @ [0]) mem)) = [a, b, c, d]" "unat d \<noteq> 0"
    using four_bytes [OF assms(1,2), of 12 184] assms(3,4) by auto
  obtain a' b' c' d' where 2: "take 4 (drop (184 + 8) (poke 184 (map byte_of t @ [0]) mem)) = [a', b', c', d']" "unat d' \<noteq> 0"
    using four_bytes [OF assms(1,2), of 8 184] assms(3,4) by auto
  show "\<not> console1_speed_verify (sint (cfg_word ''console1_speed'' (poke 184 (map byte_of t @ [0]) mem)))"
    unfolding cfg_word_def o 1(1) by (rule big_word(1) [OF 1(2)])
  show "\<not> localecho1_verify (sint (cfg_word ''localecho1'' (poke 184 (map byte_of t @ [0]) mem)))"
    unfolding cfg_word_def o 2(1) by (rule big_word(2) [OF 2(2)])
qed

lemma ssid_overruns:
  assumes "length mem = 604" "no_nul t" "32 < length t" "length t < 64"
  shows "\<not> wifi_ssid_len_verify (sint (cfg_word ''wifi_ssid_len'' (snd (at_ssidtxt t mem))))"
proof -
  have t: "cstr t = t" using assms(2) unfolding no_nul_def by (rule cstr_id)
  have w: "take 4 (drop 280 (poke 280 (bytes_of_word w) m)) = bytes_of_word w" if "length m = 604" for w m
    by (rule word_poke) (simp add: that)
  have "cfg_word ''wifi_ssid_len'' (snd (at_ssidtxt t mem)) = of_nat (length t)"
    using assms(1) by (simp add: cfg_word_def at_ssidtxt_def Let_def ssid_offsets t w)
  moreover have "sint (of_nat (length t) :: u32) = int (length t)"
    using assms(4) sint_i32 [of "int (length t)"] by simp
  ultimately show ?thesis using assms(3) by (simp add: wifi_ssid_len_verify_def)
qed

text \<open>
  C35: A text of 16 to 63 characters for the escape sequence, whose variable has eight bytes, is accepted with
  OK although it runs over the echo switch and the speed of the console, which then have values that their
  checks refuse. A network name of 33 to 63 characters is accepted too and leaves a name length that its
  check refuses.
\<close>

theorem checks_bypassed:
  assumes "ready s" "length (at_cfg s) = 604" "sendable_text t"
    and "pending (queue s) (answers s) = map byte_of (line @ crlf) @ rest"
    and "line = escape_line t \<and> 16 \<le> length t \<or> line = ssid_line t \<and> 32 < length t"
  shows "\<exists>s'. at_parse_turns (length line + 1) s = Some s' \<and>
    (dump_cb (at_callback s) \<longrightarrow> dumped s' = dumped s @ echo_of (at_cfg s) (line @ line_end) @ [ok_text]) \<and>
    (line = escape_line t \<longrightarrow>
       \<not> console1_speed_verify (sint (cfg_word ''console1_speed'' (at_cfg s'))) \<and>
       \<not> localecho1_verify (sint (cfg_word ''localecho1'' (at_cfg s')))) \<and>
    (line = ssid_line t \<longrightarrow> \<not> wifi_ssid_len_verify (sint (cfg_word ''wifi_ssid_len'' (at_cfg s'))))"
proof -
  have p: "port_ok (queue s) (answers s)" "length (cache_buf s) = 1024" using assms(1) by (simp_all add: ready_def)
  have n: "no_nul t" "length t < 64" using assms(3) by (simp_all add: sendable_text_def)
  have ne: "escape_line t \<noteq> ssid_line t" by (simp add: escape_line_def ssid_line_def)
  define g where "g mem = (if line = escape_line t then poke 184 (map byte_of t @ [0]) mem else snd (at_ssidtxt t mem))" for mem
  have l: "plain_line line" "no_nul line" "length line \<le> 1020"
    using assms(5) text_line_ok [OF assms(3), of "''AT+S.SCFG=escape_seq,''"] text_line_ok [OF assms(3), of "''AT+S.SSIDTXT=''"]
    by (auto simp: escape_line_def ssid_line_def plain_line_def no_nul_def AT_CR_def AT_LF_def)
  have c: "at_parse_cmd (line @ line_end @ r) (length line + 3) u = Some (AEC_OK, u\<lparr>at_cfg := g (at_cfg u)\<rparr>)" for r and u :: "'a at_state"
    using assms(5) ne escape_cmd [OF assms(3)] ssid_cmd [OF assms(3)] by (auto simp: g_def)
  from cfg_turns [OF l p(1) assms(4) p(2) c, of s] obtain q a buf where
    "at_parse_turns (length line + 1) s = Some (collect q a buf 0 False
       (dump_to (echo_of (at_cfg s) (line @ line_end) @ [ok_text]) (s\<lparr>at_cfg := g (at_cfg s)\<rparr>)))"
    unfolding ready_self [OF assms(1), symmetric] by blast
  then show ?thesis
    using assms(2,5) ne escape_overruns [OF assms(2) n(1) _ n(2)] ssid_overruns [OF assms(2) n(1) _ n(2)]
    by (intro exI conjI) (auto simp: g_def)
qed

theorem checks_bypassed_witness:
  "\<exists>n s'. at_parse_turns n (start_state None (map byte_of (escape_line (replicate 20 (CHR ''a'')) @ crlf))) = Some s' \<and>
     \<not> console1_speed_verify (sint (cfg_word ''console1_speed'' (at_cfg s')))"
proof -
  let ?t = "replicate 20 (CHR ''a'')"
  let ?s = "start_state None (map byte_of (escape_line ?t @ crlf))"
  have "length (map byte_of (escape_line ?t @ crlf)) \<le> 4096" by (simp add: escape_line_def crlf_def)
  note s = start_ready [OF this, of "()" None] start_pending [of "()" None "map byte_of (escape_line ?t @ crlf)"]
  have "sendable_text ?t"
    by (simp add: sendable_text_def list.pred_set plain_def no_nul_def AT_SEPARATOR_def AT_CR_def AT_LF_def)
  moreover have "length (at_cfg ?s) = 604" by (simp add: start_in_def)
  ultimately show ?thesis
    using checks_bypassed [OF s(1), of ?t "escape_line ?t" "[]"] s(2) unfolding append_Nil2 by fastforce
qed

section \<open>The data of a socket\<close>

text \<open>Waiting for bytes that are there.\<close>

lemma wait_byte_there:
  assumes "port_ok q a" "pending q a = b # bs"
  shows "\<exists>q' a'. wait_byte (collect q a buf n fl s) = Some (b, collect q' a' buf n fl s) \<and> port_ok q' a' \<and> pending q' a' = bs"
proof -
  obtain q' a' where "queue_get (collect q a buf n fl s) = (Some b, collect q' a' buf n fl s)" "port_ok q' a'" "pending q' a' = bs"
    using queue_get_collect [OF assms] by metis
  then show ?thesis by (intro exI [of _ q'] exI [of _ a']) (subst wait_byte.simps, simp)
qed

lemma wait_bytes_there:
  "port_ok q a \<Longrightarrow> pending q a = bs @ rest \<Longrightarrow>
   \<exists>q' a'. wait_bytes (length bs) (collect q a buf n fl s) = Some (bs, collect q' a' buf n fl s) \<and> port_ok q' a' \<and> pending q' a' = rest"
proof (induction bs arbitrary: q a)
  case Nil
  then show ?case by auto
next
  case (Cons b bs)
  obtain q1 a1 where 1: "wait_byte (collect q a buf n fl s) = Some (b, collect q1 a1 buf n fl s)" "port_ok q1 a1" "pending q1 a1 = bs @ rest"
    using wait_byte_there [OF Cons.prems(1), of b "bs @ rest" buf n fl s] Cons.prems(2) by auto
  obtain q' a' where "wait_bytes (length bs) (collect q1 a1 buf n fl s) = Some (bs, collect q' a' buf n fl s)" "port_ok q' a'" "pending q' a' = rest"
    using Cons.IH [OF 1(2,3)] by blast
  then show ?case using 1(1) by (auto simp: 1(1))
qed

text \<open>An application that takes the data and says OK; \<open>w'\<close> is what becomes of it.\<close>

definition takes_data :: "'w handle_cb_t \<Rightarrow> int \<Rightarrow> u8 list \<Rightarrow> 'w at_state \<Rightarrow> 'w \<Rightarrow> bool" where
  "takes_data f sid bs s w' =
     (\<exists>rsp. f (ACC_SOCKW sid bs) (at_cfg s) (at_sts s) (world s) = (AEC_OK, rsp, at_cfg s, at_sts s, w'))"

lemma sockw_block:
  assumes "port_ok q a" "pending q a = bs @ rest" "bs \<noteq> []" "length bs \<le> 1024"
    and "handle_cb (at_callback s) = Some f" "takes_data f sid bs s w'"
  shows "\<exists>q' a'. sockw_loop sid (int (length bs)) (collect q a buf n fl s) = Some (AEC_OK, collect q' a' buf n fl (s\<lparr>world := w'\<rparr>)) \<and>
    port_ok q' a' \<and> pending q' a' = rest"
proof -
  obtain q' a' where w: "wait_bytes (length bs) (collect q a buf n fl s) = Some (bs, collect q' a' buf n fl s)" "port_ok q' a'" "pending q' a' = rest"
    using wait_bytes_there [OF assms(1,2)] by blast
  obtain rsp where c: "call_cb f (ACC_SOCKW sid bs) (collect q' a' buf n fl s) = (AEC_OK, rsp, collect q' a' buf n fl (s\<lparr>world := w'\<rparr>))"
    using assms(6) by (auto simp: takes_data_def call_cb_def collect_def)
  have m: "min (int (length bs)) 1024 = int (length bs)" using assms(4) by simp
  have z: "sockw_loop sid 0 u = Some (AEC_OK, u)" for u by (subst sockw_loop.simps) simp
  show ?thesis
    using w assms(3,5)
    by (intro exI [of _ q'] exI [of _ a']) (subst sockw_loop.simps, simp add: AT_SOCKET_BUFFER_SIZE_def m c z)
qed

definition sockw_line :: "string \<Rightarrow> nat \<Rightarrow> string" where
  "sockw_line sid n = ''AT+S.SOCKW='' @ sid @ '','' @ dec_digits n"

lemma sockw_paras:
  assumes "sendable_text sid" "n < 2147483648"
  shows "at_get_parameters [para_d APT_TEXT AET_PARA 64, para_d APT_DI AET_LINE 4] (sid @ AT_SEPARATOR # dec_digits n @ line_end @ r) =
    (AEC_OK, AT_LF # r, [V_text sid, V_di (int n)])"
proof -
  let ?ds = "[para_d APT_TEXT AET_PARA 64, para_d APT_DI AET_LINE 4]"
  have "line_admitted ?ds [V_text sid, V_di (int n)]"
    using assms by (simp add: options text_fits_def sendable_text_def)
  from para_list_line [OF this, of "AT_LF # r" "[]"] show ?thesis
    by (simp add: at_get_parameters_def at_text_def line_end_def)
qed

lemma sockw_cmd:
  assumes "sendable_text sid" "n < 2147483648"
  shows "at_parse_cmd (sockw_line sid n @ line_end @ r) (length (sockw_line sid n) + 3) s = at_sockw sid (int n) s"
proof -
  have l: "sockw_line sid n @ line_end @ r = ''AT+S.SOCKW'' @ AT_EQU # sid @ AT_SEPARATOR # dec_digits n @ line_end @ r"
    by (simp add: sockw_line_def AT_EQU_def AT_SEPARATOR_def)
  have k: "10 < length (sockw_line sid n) + 3" by (simp add: sockw_line_def)
  have t: "text_of [V_text sid, V_di (int n)] 0 [] = sid" "di_of [V_text sid, V_di (int n)] 1 = int n"
    using text_of_one [of sid] assms(1) by (simp_all add: sendable_text_def text_of_def di_of_def)
  have "sockw_handler (AT_EQU # sid @ AT_SEPARATOR # dec_digits n @ line_end @ r) s = at_sockw sid (int n) s"
    by (simp add: sockw_handler_def cur_def with_paras_def sockw_paras [OF assms] t [simplified])
  then show ?thesis
    unfolding l using k command_chars(3) by (subst command_found [OF match_sockw]) (simp_all add: cur_def)
qed

text \<open>
  C37: When a line AT+S.SOCKW=<id>,<len> ends in carriage return and line feed, as the lines of the other
  commands may, the line feed is still in the queue when the data is read: the application is given the line
  feed and the data without its last byte, and the last byte is taken for the beginning of the next command.
\<close>

theorem sockw_sends_line_feed:
  assumes "ready s" "handle_cb (at_callback s) = Some f" "sendable_text sid"
    and "data \<noteq> []" "length data \<le> 1024"
    and "pending (queue s) (answers s) = map byte_of (sockw_line sid (length data) @ crlf) @ data @ rest"
    and "takes_data f (strtol10 sid) (byte_of AT_LF # butlast data) s w'"
  shows "\<exists>s'. at_parse_turns (length (sockw_line sid (length data)) + 1) s = Some s' \<and> ready s' \<and>
    world s' = w' \<and> pending (queue s') (answers s') = last data # rest"
proof -
  let ?l = "sockw_line sid (length data)" and ?d = "byte_of AT_LF # butlast data"
  have p: "port_ok (queue s) (answers s)" "length (cache_buf s) = 1024" using assms(1) by (simp_all add: ready_def)
  have dd: "length (dec_digits (length data)) \<le> 10" by (rule length_dec_digits) (use assms(5) in simp_all)
  have l: "plain_line ?l" "no_nul ?l" "length ?l \<le> 1020"
  proof -
    have k: "plain_line ''AT+S.SOCKW=''" "no_nul ''AT+S.SOCKW=''" "plain_line '',''" "no_nul '',''"
      by (simp_all add: plain_line_def no_nul_def AT_CR_def AT_LF_def)
    show "plain_line ?l" "no_nul ?l"
      unfolding sockw_line_def line_parts using k assms(3) dec_string plain_line_plain by (auto simp: sendable_text_def)
    show "length ?l \<le> 1020" using dd assms(3) by (simp add: sockw_line_def sendable_text_def)
  qed
  from line_served [OF p(1) assms(6) l p(2), of s] obtain q a r where
    s1: "port_ok q a" "pending q a = byte_of AT_LF # data @ rest" "length (?l @ line_end @ r) = 1024"
    "at_parse_turns (length ?l + 1) s = serve (?l @ line_end @ r) (length ?l + 3)
        (collect q a (?l @ line_end @ r) (length ?l + 3) True (dump_to (echo_of (at_cfg s) (?l @ line_end)) s))"
    unfolding ready_self [OF assms(1), symmetric] by blast
  let ?e = "dump_to (echo_of (at_cfg s) (?l @ line_end)) s"
  have pd: "pending q a = ?d @ last data # rest" using s1(2) assms(4) by (simp add: append_butlast_last_id [symmetric] del: append_butlast_last_id)
  have len: "length ?d = length data" using assms(4) by simp
  have td: "takes_data f (strtol10 sid) ?d ?e w'" using assms(7) by (simp add: takes_data_def)
  have cb: "handle_cb (at_callback ?e) = Some f" using assms(2) by simp
  obtain q' a' where b: "sockw_loop (strtol10 sid) (int (length ?d)) (collect q a (?l @ line_end @ r) (length ?l + 3) True ?e) =
      Some (AEC_OK, collect q' a' (?l @ line_end @ r) (length ?l + 3) True (?e\<lparr>world := w'\<rparr>))"
    "port_ok q' a'" "pending q' a' = last data # rest"
    using sockw_block [OF s1(1) pd _ _ cb td, of "?l @ line_end @ r" "length ?l + 3" True] len assms(5) by auto
  have "at_parse_cmd (?l @ line_end @ r) (length ?l + 3) (collect q a (?l @ line_end @ r) (length ?l + 3) True ?e) =
      Some (AEC_OK, collect q' a' (?l @ line_end @ r) (length ?l + 3) True (?e\<lparr>world := w'\<rparr>))"
    using b(1) unfolding len sockw_cmd [OF assms(3), of "length data", OF le_less_trans [OF assms(5)], simplified] at_sockw_def .
  from serve_ok [OF this] have
    "at_parse_turns (length ?l + 1) s = Some (collect q' a' (?l @ line_end @ r) 0 False (dump_to [ok_text] (?e\<lparr>world := w'\<rparr>)))"
    unfolding s1(4) .
  then show ?thesis using b(2,3) s1(3) by (intro exI conjI) (auto simp: ready_collect)
qed

lemma str_one: "strtol10 ''1'' = 1"
  by (simp add: strtol10_def cur_def is_dec_def dec_val_def code_def)

theorem sockw_sends_line_feed_witness:
  "\<exists>s'. at_parse_turns 15 (start_in [] (Some (\<lambda>c mem sts w. (AEC_OK, (0, 0), mem, sts, w @ [c])))
       (map byte_of (sockw_line ''1'' 2 @ crlf) @ [65, 66])) = Some s' \<and>
     world s' = [ACC_SOCKW 1 [byte_of AT_LF, 65]] \<and> pending (queue s') (answers s') = [66]"
proof -
  let ?f = "\<lambda>c mem sts w. (AEC_OK, (0, 0), mem, sts, w @ [c])"
  let ?s = "start_in [] (Some ?f) (map byte_of (sockw_line ''1'' 2 @ crlf) @ [65, 66])"
  have d: "length (dec_digits 2) = 1" by (simp add: dec_digits.simps)
  have "length (map byte_of (sockw_line ''1'' 2 @ crlf) @ [65, 66]) \<le> 4096"
    by (simp add: sockw_line_def crlf_def d)
  note r = start_ready [OF this, of "[]" "Some ?f"]
  have p: "pending (queue ?s) (answers ?s) = map byte_of (sockw_line ''1'' (length [65 :: u8, 66]) @ crlf) @ [65, 66] @ []"
    by (simp add: start_pending numeral_2_eq_2)
  have c: "handle_cb (at_callback ?s) = Some ?f" by (simp add: start_in_def)
  have st: "sendable_text ''1''" by (simp add: sendable_text_def plain_def no_nul_def AT_SEPARATOR_def AT_CR_def AT_LF_def)
  have t: "takes_data ?f (strtol10 ''1'') (byte_of AT_LF # butlast [65, 66]) ?s [ACC_SOCKW 1 [byte_of AT_LF, 65]]"
    by (simp add: takes_data_def start_in_def str_one)
  have l: "length (sockw_line ''1'' (length [65 :: u8, 66])) + 1 = 15" by (simp add: sockw_line_def d [unfolded numeral_2_eq_2] numeral_2_eq_2)
  show ?thesis
    using sockw_sends_line_feed [OF r c st _ _ p t] unfolding l by simp blast
qed

end
