(* ===== verification/Cmd.thy ===== *)
theory Cmd
  imports Console At_Parameter "HOL-Library.Monad_Syntax"
begin

text \<open>
  The commands of the console: project/common/cmd/cmd_util.c, which splits a line in place, finds its
  command and writes the response, and the command table of project/wlan_demo/command.c. The line is in a
  memory of bytes and an argument is an offset into it, None being the empty string that has no place in
  the line. What the commands of other files do is an argument of the definitions. A store or a read
  outside the buffer of the response is None.
\<close>

section \<open>State\<close>

datatype cmd_code_type = CMD_CODE_TYEP_STATUS | CMD_CODE_TYEP_EVENT

datatype cmd_status =
    CMD_STATUS_ACKED
  | CMD_STATUS_OK
  | CMD_STATUS_UNKNOWN_CMD
  | CMD_STATUS_INVALID_ARG
  | CMD_STATUS_FAIL

fun status_code :: "cmd_status \<Rightarrow> nat" where
  "status_code CMD_STATUS_ACKED = 100"
| "status_code CMD_STATUS_OK = 200"
| "status_code CMD_STATUS_UNKNOWN_CMD = 400"
| "status_code CMD_STATUS_INVALID_ARG = 401"
| "status_code CMD_STATUS_FAIL = 402"

text \<open>\<open>uart_tx\<close>: what was written to the console.\<close>

record 'w cmd_state =
  cmd_mem :: "u8 list"
  str_buf :: "u8 list"
  uart_tx :: "u8 list"
  cmd_world :: 'w

type_synonym 'w cmd_handler = "nat option \<Rightarrow> 'w cmd_state \<Rightarrow> (cmd_status \<times> 'w cmd_state) option"

definition ascii :: "string \<Rightarrow> u8 list" where "ascii t = map of_char t"

definition c_str :: "u8 list \<Rightarrow> nat \<Rightarrow> u8 list" where "c_str mem p = c_string (drop p mem)"

definition str_of :: "'w cmd_state \<Rightarrow> nat option \<Rightarrow> u8 list" where
  "str_of s cmd = (case cmd of None \<Rightarrow> [] | Some p \<Rightarrow> c_str (cmd_mem s) p)"

section \<open>Finding the command\<close>

definition split_cmd :: "nat option \<Rightarrow> 'w cmd_state \<Rightarrow> nat option \<times> 'w cmd_state" where
  "split_cmd cmd s =
     (case cmd of
        None \<Rightarrow> (None, s)
      | Some p \<Rightarrow>
          (let str = c_str (cmd_mem s) p; i = length (takeWhile (\<lambda>b. b \<noteq> 32) str)
           in if i < length str then (Some (p + i + 1), s\<lparr>cmd_mem := (cmd_mem s)[p + i := 0]\<rparr>) else (None, s)))"

definition cmd_exec :: "(string \<times> 'w cmd_handler) list \<Rightarrow> 'w cmd_handler" where
  "cmd_exec cdata cmd s =
     (case split_cmd cmd s of
        (args, s1) \<Rightarrow>
          (case find (\<lambda>(name, _). ascii name = str_of s1 cmd) cdata of
             Some (_, exec) \<Rightarrow> exec args s1
           | None \<Rightarrow> Some (CMD_STATUS_UNKNOWN_CMD, s1)))"

text \<open>\<open>strncmp\<close> of two C strings.\<close>

definition eq_upto :: "nat \<Rightarrow> u8 list \<Rightarrow> u8 list \<Rightarrow> bool" where
  "eq_upto n a b = (take n (a @ [0]) = take n (b @ [0]))"

definition cmd2_exec :: "(string \<times> nat \<times> 'w cmd_handler) list \<Rightarrow> 'w cmd_handler" where
  "cmd2_exec cdata cmd s =
     (case find (\<lambda>(name, name_len, _). eq_upto name_len (str_of s cmd) (ascii name)) cdata of
        Some (_, name_len, exec) \<Rightarrow> exec (map_option (\<lambda>p. p + name_len) cmd) s
      | None \<Rightarrow> Some (CMD_STATUS_UNKNOWN_CMD, s))"

section \<open>Splitting the arguments\<close>

definition is_blank :: "u8 \<Rightarrow> bool" where "is_blank b = (b = 32 \<or> b = 9)"

definition skip_blanks :: "u8 list \<Rightarrow> nat \<Rightarrow> nat" where
  "skip_blanks mem p = p + length (takeWhile is_blank (drop p mem))"

definition skip_word :: "u8 list \<Rightarrow> nat \<Rightarrow> nat" where
  "skip_word mem p = p + length (takeWhile (\<lambda>b. \<not> is_blank b \<and> b \<noteq> 0) (drop p mem))"

text \<open>The loop; its first argument is \<open>size - argc\<close>.\<close>

fun argv_loop :: "nat \<Rightarrow> u8 list \<Rightarrow> nat \<Rightarrow> nat list \<times> u8 list" where
  "argv_loop 0 mem start = ([], mem)"
| "argv_loop (Suc n) mem start =
     (if mem ! start = 0 then ([], mem)
      else let start1 = skip_blanks mem start
           in if mem ! start1 = 0 then ([], mem)
              else let end1 = skip_word mem start1; mem1 = mem[end1 := 0]
                   in if mem ! end1 = 0 then ([start1], mem1)
                      else (case argv_loop n mem1 (end1 + 1) of (argv, mem2) \<Rightarrow> (start1 # argv, mem2)))"

definition cmd_parse_argv :: "nat option \<Rightarrow> nat option list \<Rightarrow> int \<Rightarrow> u8 list \<Rightarrow> int \<times> nat option list \<times> u8 list" where
  "cmd_parse_argv cmd argv sz mem =
     (case (case cmd of None \<Rightarrow> ([], mem) | Some p \<Rightarrow> argv_loop (nat sz) mem p) of
        (ps, mem1) \<Rightarrow>
          (let argc = length ps; argv1 = map Some ps @ drop argc argv
           in (int argc, if 0 < argc \<and> int argc < sz then argv1[argc := None] else argv1, mem1)))"

section \<open>Responses\<close>

definition cmd_get_status_desc :: "cmd_status \<Rightarrow> string" where
  "cmd_get_status_desc status =
     (let num = status_code status
      in if 200 \<le> num \<and> num \<le> 200 then [''OK''] ! (num - 200)
         else if 400 \<le> num \<and> num \<le> 402 then [''Unknown command'', ''Invalid argument'', ''Fail''] ! (num - 400)
         else [])"

text \<open>\<open>snprintf\<close> at an offset of the buffer; \<open>left\<close> is an int that becomes a size_t.\<close>

definition snprintf_at :: "nat \<Rightarrow> int \<Rightarrow> u8 list \<Rightarrow> u8 list \<Rightarrow> u8 list option" where
  "snprintf_at ptr left text buf =
     (let n = nat (left mod 4294967296)
      in if n = 0 then Some buf
         else let out = take (n - 1) text @ [0]
              in if ptr + length out \<le> length buf then Some (take ptr buf @ out @ drop (ptr + length out) buf) else None)"

definition cmd_header :: "cmd_code_type \<Rightarrow> nat \<Rightarrow> u8 list" where
  "cmd_header type num =
     ascii (''<'' @ (if type = CMD_CODE_TYEP_STATUS then ''ACK'' else ''EVT'') @ ''> '' @ dec_digits num @ '' '')"

text \<open>\<open>text\<close> is the formatted text; the buffer has 400 bytes.\<close>

definition cmd_write :: "cmd_code_type \<Rightarrow> nat \<Rightarrow> u8 list \<Rightarrow> 'w cmd_state \<Rightarrow> 'w cmd_state option" where
  "cmd_write type num msg s =
     (let hdr = cmd_header type num;
          left0 = 399;
          left1 = left0 - int (length hdr);
          ptr1 = length hdr;
          ptr2 = ptr1 + length msg;
          left2 = left1 - int (length msg) + 1;
          left3 = left2 - 1;
          len = 400 - left3
      in do {
        b1 \<leftarrow> snprintf_at 0 left0 hdr (str_buf s);
        b2 \<leftarrow> snprintf_at ptr1 left1 msg b1;
        b3 \<leftarrow> snprintf_at ptr2 left2 [10] b2;
        if len \<le> 400 then Some (s\<lparr>str_buf := b3, uart_tx := uart_tx s @ take (nat len) b3\<rparr>) else None
      })"

section \<open>The commands of wlan_demo\<close>

text \<open>\<open>env\<close> gives the commands of the other files; \<open>cmd_drv_exec\<close> has an empty table.\<close>

definition g_net_cmds :: "(string \<Rightarrow> 'w cmd_handler) \<Rightarrow> (string \<times> 'w cmd_handler) list" where
  "g_net_cmds env =
     map (\<lambda>n. (n, env n))
       [''mode'', ''ap'', ''sta'', ''ifconfig'', ''smartconfig'', ''airkiss'', ''smartlink'', ''iperf'', ''ping'']"

definition cmd_net_exec :: "(string \<Rightarrow> 'w cmd_handler) \<Rightarrow> 'w cmd_handler" where
  "cmd_net_exec env = cmd_exec (g_net_cmds env)"

definition cmd_drv_exec :: "'w cmd_handler" where "cmd_drv_exec = cmd_exec []"

definition g_main_cmds :: "(string \<Rightarrow> 'w cmd_handler) \<Rightarrow> (string \<times> 'w cmd_handler) list" where
  "g_main_cmds env =
     (''net'', cmd_net_exec env) # (''drv'', cmd_drv_exec) #
     map (\<lambda>n. (n, env n))
       [''echo'', ''mem'', ''heap'', ''thread'', ''upgrade'', ''reboot'', ''ota'', ''etf'', ''pm'', ''efpg'', ''flash'',
        ''lmac'', ''sysinfo'']"

definition main_cmd_exec :: "(string \<Rightarrow> 'w cmd_handler) \<Rightarrow> nat option \<Rightarrow> 'w cmd_state \<Rightarrow> 'w cmd_state option" where
  "main_cmd_exec env cmd s =
     (if str_of s cmd \<noteq> []
      then do {
        (status, s1) \<leftarrow> cmd_exec (g_main_cmds env) cmd s;
        if status \<noteq> CMD_STATUS_ACKED
        then cmd_write CMD_CODE_TYEP_STATUS (status_code status) (ascii (cmd_get_status_desc status)) s1
        else Some s1
      }
      else Some s)"

section \<open>Arguments are the words of the line\<close>

function words :: "u8 list \<Rightarrow> u8 list list" where
  "words str =
     (case dropWhile is_blank str of
        [] \<Rightarrow> []
      | b # bs \<Rightarrow> (b # takeWhile (\<lambda>c. \<not> is_blank c) bs) # words (dropWhile (\<lambda>c. \<not> is_blank c) bs))"
  by pat_completeness auto
termination
proof (relation "measure length", simp)
  fix str b and bs :: "u8 list"
  assume "dropWhile is_blank str = b # bs"
  then have "Suc (length bs) \<le> length str" using length_dropWhile_le [of is_blank str] by simp
  then show "(dropWhile (\<lambda>c. \<not> is_blank c) bs, str) \<in> measure length"
    using length_dropWhile_le [of "\<lambda>c. \<not> is_blank c" bs] by simp
qed

declare words.simps [simp del]

lemma zero_not_blank [simp]: "\<not> is_blank 0"
  by (simp add: is_blank_def)

lemma words_blanks: "\<forall>b\<in>set bl. is_blank b \<Longrightarrow> words (bl @ str) = words str"
  by (subst words.simps) (simp add: words.simps [of str] dropWhile_append)

lemma words_word:
  assumes "w \<noteq> []" "\<forall>b\<in>set w. \<not> is_blank b" "str = [] \<or> is_blank (hd str)"
  shows "words (w @ str) = w # words str"
proof -
  obtain b bs where w: "w = b # bs" using assms(1) by (cases w) auto
  have t: "takeWhile (\<lambda>c. \<not> is_blank c) (bs @ str) = bs" "dropWhile (\<lambda>c. \<not> is_blank c) (bs @ str) = str"
    using assms(2,3) w by (cases str; simp add: takeWhile_append dropWhile_append)+
  show ?thesis using assms(2) unfolding w append_Cons by (subst words.simps) (simp add: t)
qed

text \<open>A string is blanks, and then nothing or a word.\<close>

lemma word_cases:
  obtains (blank) "\<forall>b\<in>set str. is_blank b"
  | (word) bl w t where "str = bl @ w @ t" "\<forall>b\<in>set bl. is_blank b" "w \<noteq> []" "\<forall>b\<in>set w. \<not> is_blank b"
      "t = [] \<or> is_blank (hd t)"
proof (cases "dropWhile is_blank str")
  case Nil
  then show ?thesis using blank by (simp add: dropWhile_eq_Nil_conv)
next
  case (Cons b bs)
  let ?w = "takeWhile (\<lambda>c. \<not> is_blank c) (b # bs)" and ?t = "dropWhile (\<lambda>c. \<not> is_blank c) (b # bs)"
  have nb: "\<not> is_blank b" using hd_dropWhile [of is_blank str] Cons by simp
  show ?thesis
  proof (rule word)
    show "str = takeWhile is_blank str @ ?w @ ?t"
      unfolding takeWhile_dropWhile_id unfolding Cons [symmetric] by (rule takeWhile_dropWhile_id [symmetric])
    show "\<forall>c\<in>set (takeWhile is_blank str). is_blank c" "\<forall>c\<in>set ?w. \<not> is_blank c" by (blast dest: set_takeWhileD)+
    show "?w \<noteq> []" using nb by simp
    show "?t = [] \<or> is_blank (hd ?t)" using hd_dropWhile [of "\<lambda>c. \<not> is_blank c" "b # bs"] by blast
  qed
qed

lemma drop_pre [simp]: "drop (length pre + n) (pre @ xs) = drop n xs"
  by simp

lemma scan_word:
  assumes "\<forall>b\<in>set w. \<not> is_blank b \<and> b \<noteq> 0" "x = 0 \<or> is_blank x"
  shows "takeWhile (\<lambda>b. \<not> is_blank b \<and> b \<noteq> 0) (w @ x # r) = w"
  using assms by (auto simp: takeWhile_append)

lemma c_str_at: "c_str (pre @ w @ 0 # r) (length pre) = takeWhile (\<lambda>b. b \<noteq> 0) w"
proof -
  have "takeWhile (\<lambda>b. b \<noteq> 0) (w @ 0 # r) = takeWhile (\<lambda>b. b \<noteq> 0) w" by (induction w) auto
  then show ?thesis by (simp add: c_str_def c_string_def)
qed

lemma c_str_no_zero: "0 \<notin> set w \<Longrightarrow> takeWhile (\<lambda>b. b \<noteq> 0) w = w"
  by (auto simp: takeWhile_eq_all_conv)

text \<open>One round of the loop.\<close>

lemma argv_step:
  assumes "mem = pre @ bl @ w @ x # r" "\<forall>b\<in>set bl. is_blank b" "w \<noteq> []" "\<forall>b\<in>set w. \<not> is_blank b \<and> b \<noteq> 0" "x = 0 \<or> is_blank x"
  shows "argv_loop (Suc n) mem (length pre) =
    (if x = 0 then ([length (pre @ bl)], pre @ bl @ w @ 0 # r)
     else (case argv_loop n ((pre @ bl @ w @ [0]) @ r) (length (pre @ bl @ w @ [0])) of (argv, m) \<Rightarrow> (length (pre @ bl) # argv, m)))"
proof -
  obtain b bs where w: "w = b # bs" using assms(3) by (cases w) auto
  have nb: "\<not> is_blank b" "b \<noteq> 0" using assms(4) w by auto
  have "takeWhile is_blank (bl @ w @ x # r) = bl" using assms(2) w nb by (simp add: takeWhile_append)
  then have s: "skip_blanks mem (length pre) = length (pre @ bl)" by (simp add: skip_blanks_def assms(1))
  have e: "skip_word mem (length (pre @ bl)) = length (pre @ bl @ w)"
    using scan_word [OF assms(4,5)] by (simp add: skip_word_def assms(1))
  have m: "mem ! length (pre @ bl) = b" "mem ! length (pre @ bl @ w) = x"
    "mem[length (pre @ bl @ w) := 0] = pre @ bl @ w @ 0 # r"
    using w by (simp_all add: assms(1) nth_append list_update_append)
  have "mem ! length pre \<noteq> 0"
  proof (cases bl)
    case Nil
    then show ?thesis using m(1) nb by simp
  next
    case (Cons c cs)
    then show ?thesis using assms(1,2) by (auto simp: nth_append)
  qed
  then show ?thesis using nb by (simp add: s e m Let_def del: append_assoc length_append) simp
qed

lemma argv_blank:
  assumes "mem = pre @ bl @ 0 # r" "\<forall>b\<in>set bl. is_blank b"
  shows "argv_loop n mem (length pre) = ([], mem)"
proof (cases n)
  case (Suc k)
  have "takeWhile is_blank (bl @ 0 # r) = bl" using assms(2) by (simp add: takeWhile_append)
  then have "skip_blanks mem (length pre) = length (pre @ bl)" by (simp add: skip_blanks_def assms(1))
  moreover have "mem ! length (pre @ bl) = 0" by (simp add: assms(1) nth_append)
  ultimately show ?thesis by (simp add: Suc)
qed simp

lemma argv_words:
  assumes "0 \<notin> set str"
  shows "\<exists>argv str'. argv_loop n (pre @ str @ 0 # r) (length pre) = (argv, pre @ str' @ 0 # r) \<and>
    length str' = length str \<and> length argv = min n (length (words str)) \<and>
    (\<forall>i<length argv. length pre \<le> argv ! i \<and> argv ! i \<le> length pre + length str \<and>
       c_str (pre @ str' @ 0 # r) (argv ! i) = words str ! i)"
  using assms
proof (induction n arbitrary: pre str)
  case 0
  then show ?case by auto
next
  case (Suc n)
  show ?case
  proof (cases str rule: word_cases)
    case blank
    then have "words str = []" using words_blanks [of str "[]"] by (simp add: words.simps)
    then show ?thesis using argv_blank [where pre = pre and r = r and n = "Suc n", OF refl blank] by (intro exI [of _ "[]"] exI [of _ str]) simp
  next
    case (word bl w t)
    have w0: "\<forall>b\<in>set w. \<not> is_blank b \<and> b \<noteq> 0" "0 \<notin> set w" "0 \<notin> set t" using word(1,4) Suc.prems by auto
    have ws: "words str = w # words t" using words_blanks [OF word(2)] words_word [OF word(3,4,5)] word(1) by simp
    show ?thesis
    proof (cases t)
      case Nil
      have "argv_loop (Suc n) (pre @ str @ 0 # r) (length pre) = ([length (pre @ bl)], pre @ str @ 0 # r)"
        using argv_step [where pre = pre and x = 0 and r = r and n = n, OF refl word(2,3) w0(1)] word(1) Nil by simp
      moreover have "c_str (pre @ str @ 0 # r) (length (pre @ bl)) = w"
        using c_str_at [of "pre @ bl" w r] c_str_no_zero [OF w0(2)] word(1) Nil by simp
      moreover have "words t = []" using Nil by (simp add: words.simps)
      ultimately show ?thesis using ws word(1) by (intro exI [of _ "[length (pre @ bl)]"] exI [of _ str]) simp
    next
      case (Cons x t')
      have x: "is_blank x" "x \<noteq> 0" using word(5) w0(3) Cons by auto
      let ?pre = "pre @ bl @ w @ [0]"
      obtain argv t'' where ih: "argv_loop n (?pre @ t' @ 0 # r) (length ?pre) = (argv, ?pre @ t'' @ 0 # r)"
        "length t'' = length t'" "length argv = min n (length (words t'))"
        "\<forall>i<length argv. length ?pre \<le> argv ! i \<and> argv ! i \<le> length ?pre + length t' \<and>
           c_str (?pre @ t'' @ 0 # r) (argv ! i) = words t' ! i"
        using Suc.IH [of t' ?pre] w0(3) Cons by auto
      have m: "pre @ str @ 0 # r = pre @ bl @ w @ x # t' @ 0 # r" using word(1) Cons by simp
      have l: "argv_loop (Suc n) (pre @ str @ 0 # r) (length pre) = (length (pre @ bl) # argv, ?pre @ t'' @ 0 # r)"
        unfolding m using argv_step [where pre = pre and x = x and r = "t' @ 0 # r" and n = n, OF refl word(2,3) w0(1)] x ih(1) by simp
      have "words t = words t'" using words_blanks [of "[x]" t'] x(1) Cons by simp
      moreover have "c_str (?pre @ t'' @ 0 # r) (length (pre @ bl)) = w"
        using c_str_at [of "pre @ bl" w "t'' @ 0 # r"] c_str_no_zero [OF w0(2)] by simp
      moreover have "length (bl @ w @ 0 # t'') = length str" using ih(2) word(1) Cons by simp
      ultimately show ?thesis
        using l ih(3,4) ws word(1) Cons
        by (intro exI [of _ "length (pre @ bl) # argv"] exI [of _ "bl @ w @ 0 # t''"]) (auto simp: nth_Cons split: nat.splits)
    qed
  qed
qed

lemma parse_argv_words:
  assumes "0 \<notin> set str" "0 \<le> sz" "sz \<le> int (length argv)"
  shows "\<exists>argc argv' str'.
    cmd_parse_argv (Some (length pre)) argv sz (pre @ str @ 0 # r) = (argc, argv', pre @ str' @ 0 # r) \<and>
    argc = min sz (int (length (words str))) \<and> length str' = length str \<and>
    (\<forall>i<nat argc. \<exists>q. argv' ! i = Some q \<and> length pre \<le> q \<and> q \<le> length pre + length str \<and>
       c_str (pre @ str' @ 0 # r) q = words str ! i) \<and>
    (0 < argc \<and> argc < sz \<longrightarrow> argv' ! nat argc = None)"
proof -
  obtain ps str' where l: "argv_loop (nat sz) (pre @ str @ 0 # r) (length pre) = (ps, pre @ str' @ 0 # r)"
    "length str' = length str" "length ps = min (nat sz) (length (words str))"
    "\<forall>i<length ps. length pre \<le> ps ! i \<and> ps ! i \<le> length pre + length str \<and> c_str (pre @ str' @ 0 # r) (ps ! i) = words str ! i"
    using argv_words [OF assms(1), of "nat sz" pre r] by blast
  have n: "int (length ps) = min sz (int (length (words str)))" using l(3) assms(2) by simp
  let ?argv = "map Some ps @ drop (length ps) argv"
  let ?argv' = "if 0 < length ps \<and> int (length ps) < sz then ?argv[length ps := None] else ?argv"
  have c: "cmd_parse_argv (Some (length pre)) argv sz (pre @ str @ 0 # r) = (int (length ps), ?argv', pre @ str' @ 0 # r)"
    by (simp add: cmd_parse_argv_def l(1) Let_def)
  have e: "?argv' ! i = Some (ps ! i)" if "i < length ps" for i
    using that by (simp add: nth_append nth_list_update)
  have z: "0 < length ps \<and> int (length ps) < sz \<longrightarrow> ?argv' ! length ps = None" using assms(3) by auto
  show ?thesis
    by (intro exI [of _ "int (length ps)"] exI [of _ ?argv'] exI [of _ str'] conjI c n l(2)) (use l(4) e z in \<open>auto simp del: l(3)\<close>)
qed

text \<open>
  C22: Splitting a line in place gives as many arguments as the line has words, at most the size of the
  array; the i-th pointer leads to the i-th word, ended by a zero; the array ends with NULL if it is not
  full and there is an argument; the memory around the line is not touched.
\<close>

theorem cmd_parse_argv_words:
  assumes "0 \<notin> set str" "0 \<le> sz" "sz \<le> int (length argv)"
  shows "\<exists>argc argv' str'.
    cmd_parse_argv (Some (length pre)) argv sz (pre @ str @ 0 # r) = (argc, argv', pre @ str' @ 0 # r) \<and>
    argc = min sz (int (length (words str))) \<and> length str' = length str \<and>
    (\<forall>i<nat argc. \<exists>q. argv' ! i = Some q \<and> length pre \<le> q \<and> q \<le> length pre + length str \<and>
       c_str (pre @ str' @ 0 # r) q = words str ! i) \<and>
    (0 < argc \<and> argc < sz \<longrightarrow> argv' ! nat argc = None)"
  by (rule parse_argv_words [OF assms])

lemma words_sample: "words (ascii ''  ap  -s x'') = [ascii ''ap'', ascii ''-s'', ascii ''x'']"
proof -
  have "ascii ''  ap  -s x'' = [32, 32] @ ascii ''ap'' @ [32, 32] @ ascii ''-s'' @ [32] @ ascii ''x''" by (simp add: ascii_def)
  moreover have "words (ascii ''x'') = [ascii ''x'']" using words_word [of "ascii ''x''" "[]"]
    by (simp add: ascii_def is_blank_def words.simps [of "[]"])
  ultimately show ?thesis
    using words_blanks [of "[32, 32]"] words_blanks [of "[32]"]
      words_word [of "ascii ''ap''" "[32, 32] @ ascii ''-s'' @ [32] @ ascii ''x''"]
      words_word [of "ascii ''-s''" "[32] @ ascii ''x''"]
    by (simp add: ascii_def is_blank_def)
qed

theorem cmd_parse_argv_words_witness:
  "\<exists>argv' str'. cmd_parse_argv (Some 2) (replicate 4 None) 4 ([1, 2] @ ascii ''  ap  -s x'' @ 0 # [7]) =
     (3, argv', [1, 2] @ str' @ 0 # [7]) \<and> (\<exists>q. argv' ! 1 = Some q \<and> c_str ([1, 2] @ str' @ 0 # [7]) q = ascii ''-s'') \<and> argv' ! 3 = None"
proof -
  have "0 \<notin> set (ascii ''  ap  -s x'')" by (simp add: ascii_def)
  from cmd_parse_argv_words [OF this, of 4 "replicate 4 None" "[1, 2]" "[7]"] obtain argc argv' str' where
    c: "cmd_parse_argv (Some (length [1 :: u8, 2])) (replicate 4 None) 4 ([1, 2] @ ascii ''  ap  -s x'' @ 0 # [7]) = (argc, argv', [1, 2] @ str' @ 0 # [7])"
    "argc = min 4 (int (length (words (ascii ''  ap  -s x''))))"
    "\<forall>i<nat argc. \<exists>q. argv' ! i = Some q \<and> c_str ([1, 2] @ str' @ 0 # [7]) q = words (ascii ''  ap  -s x'') ! i"
    "0 < argc \<and> argc < 4 \<longrightarrow> argv' ! nat argc = None"
    unfolding length_replicate by fastforce
  have n: "argc = 3" using c(2) by (simp add: words_sample)
  obtain q where "argv' ! 1 = Some q" "c_str ([1, 2] @ str' @ 0 # [7]) q = ascii ''-s''"
    using c(3) [unfolded n words_sample, THEN spec, of 1] by auto
  moreover have "argv' ! 3 = None" using c(4) n by simp
  moreover have "length [1 :: u8, 2] = 2" by simp
  ultimately show ?thesis using c(1) n by metis
qed

section \<open>What is written to the console\<close>

lemma snprintf_ok:
  assumes "0 < left" "left \<le> 400" "ptr + length msg < ptr + nat left" "ptr + nat left \<le> length buf"
  shows "snprintf_at ptr left msg buf = Some (take ptr buf @ msg @ 0 # drop (ptr + length msg + 1) buf)"
proof -
  have "left mod 4294967296 = left" using assms(1,2) by simp
  then show ?thesis using assms by (simp add: snprintf_at_def Let_def)
qed

lemma snprintf_cut:
  assumes "0 < left" "left \<le> 400" "nat left \<le> length msg" "ptr + nat left \<le> length buf"
  shows "snprintf_at ptr left msg buf = Some (take ptr buf @ take (nat left - 1) msg @ 0 # drop (ptr + nat left) buf)"
proof -
  have "left mod 4294967296 = left" using assms(1,2) by simp
  then show ?thesis using assms by (simp add: snprintf_at_def Let_def)
qed

lemma snprintf_length: "snprintf_at ptr left msg buf = Some b \<Longrightarrow> length b = length buf"
  by (auto simp: snprintf_at_def Let_def split: if_splits)

text \<open>The header has at most 17 bytes.\<close>

lemma header_short: "num < 4294967296 \<Longrightarrow> length (cmd_header ty num) \<le> 17"
  using length_dec_digits [of num 10] by (simp add: cmd_header_def ascii_def)

lemma cmd_write_cases:
  assumes "length (str_buf s) = 400" "num < 4294967296"
  shows "length (cmd_header ty num) + length msg < 399 \<longrightarrow>
      (\<exists>b. cmd_write ty num msg s = Some (s\<lparr>str_buf := b, uart_tx := uart_tx s @ cmd_header ty num @ msg @ [10]\<rparr>) \<and> length b = 400)"
    and "399 < length (cmd_header ty num) + length msg \<and> length msg < 2147483648 \<longrightarrow> cmd_write ty num msg s = None"
proof -
  let ?h = "cmd_header ty num"
  have h: "length ?h \<le> 17" by (rule header_short [OF assms(2)])
  let ?b1 = "?h @ 0 # drop (length ?h + 1) (str_buf s)"
  have b1: "snprintf_at 0 399 ?h (str_buf s) = Some ?b1" using snprintf_ok [of "399" "0" ?h "str_buf s"] h assms(1) by simp
  have l1: "length ?b1 = 400" using h assms(1) by simp
  show "length ?h + length msg < 399 \<longrightarrow>
      (\<exists>b. cmd_write ty num msg s = Some (s\<lparr>str_buf := b, uart_tx := uart_tx s @ ?h @ msg @ [10]\<rparr>) \<and> length b = 400)"
  proof
    assume t: "length ?h + length msg < 399"
    let ?b2 = "?h @ msg @ 0 # drop (length ?h + length msg + 1) ?b1"
    have b2: "snprintf_at (length ?h) (399 - int (length ?h)) msg ?b1 = Some ?b2"
      using snprintf_ok [of "399 - int (length ?h)" "length ?h" msg ?b1] t l1 by simp
    have l2: "length ?b2 = 400" using l1 t by simp
    let ?p = "length ?h + length msg"
    let ?b3 = "?h @ msg @ 10 # 0 # drop (?p + 2) ?b2"
    have b3: "snprintf_at ?p (399 - int (length ?h) - int (length msg) + 1) [10] ?b2 = Some ?b3"
      using snprintf_ok [of "399 - int (length ?h) - int (length msg) + 1" ?p "[10]" ?b2] t l2 by simp
    have l3: "length ?b3 = 400" using l2 t by simp
    have n: "nat (400 - (399 - int (length ?h) - int (length msg) + 1 - 1)) = ?p + 1" by simp
    have "take (?p + 1) ?b3 = ?h @ msg @ [10]" by simp
    then have "cmd_write ty num msg s = Some (s\<lparr>str_buf := ?b3, uart_tx := uart_tx s @ ?h @ msg @ [10]\<rparr>)"
      using t unfolding cmd_write_def Let_def b1 bind.bind_lunit b2 b3 n by simp
    then show "\<exists>b. cmd_write ty num msg s = Some (s\<lparr>str_buf := b, uart_tx := uart_tx s @ ?h @ msg @ [10]\<rparr>) \<and> length b = 400"
      using l3 by blast
  qed
  show "399 < length ?h + length msg \<and> length msg < 2147483648 \<longrightarrow> cmd_write ty num msg s = None"
  proof
    assume t: "399 < length ?h + length msg \<and> length msg < 2147483648"
    let ?left = "399 - int (length ?h) - int (length msg) + 1"
    have "0 < 399 - int (length ?h)" "399 - int (length ?h) \<le> 400" "nat (399 - int (length ?h)) \<le> length msg"
      "length ?h + nat (399 - int (length ?h)) \<le> length ?b1"
      unfolding l1 using t h by linarith+
    from snprintf_cut [OF this] obtain b2 where b2: "snprintf_at (length ?h) (399 - int (length ?h)) msg ?b1 = Some b2" by blast
    then have l2: "length b2 = 400" using snprintf_length l1 by metis
    show "cmd_write ty num msg s = None"
    proof (cases "?left = 0")
      case True
      then show ?thesis unfolding cmd_write_def Let_def b1 bind.bind_lunit b2 by (simp add: snprintf_at_def)
    next
      case False
      have "?left mod 4294967296 = ?left + 4294967296"
        by (rule mod_pos_pos_trivial [of "?left + 4294967296" 4294967296, simplified mod_add_self2]) (use t h False in linarith)+
      then have "snprintf_at (length ?h + length msg) ?left [10] b2 = None"
        using t h False l2 by (simp add: snprintf_at_def Let_def)
      then show ?thesis unfolding cmd_write_def Let_def b1 bind.bind_lunit b2 by simp
    qed
  qed
qed

text \<open>
  C27: A response is written as header, text and line feed while header and text together have at most 398
  characters; with 400 or more of them, cmd_write stores or reads behind its buffer.
\<close>

theorem cmd_write_bounds:
  assumes "length (str_buf s) = 400" "num < 4294967296" "length msg < 2147483648"
  shows "(length (cmd_header ty num) + length msg < 399 \<longrightarrow>
      (\<exists>b. cmd_write ty num msg s = Some (s\<lparr>str_buf := b, uart_tx := uart_tx s @ cmd_header ty num @ msg @ [10]\<rparr>) \<and> length b = 400)) \<and>
    (399 < length (cmd_header ty num) + length msg \<longrightarrow> cmd_write ty num msg s = None)"
  using cmd_write_cases [OF assms(1,2), of ty msg] assms(3) by blast

definition cmd_start :: "'w \<Rightarrow> u8 list \<Rightarrow> 'w cmd_state" where
  "cmd_start w mem = \<lparr>cmd_mem = mem, str_buf = replicate 400 0, uart_tx = [], cmd_world = w\<rparr>"

theorem cmd_write_bounds_witness:
  "map_option uart_tx (cmd_write CMD_CODE_TYEP_STATUS 200 (ascii ''OK'') (cmd_start () [])) = Some (ascii ''<ACK> 200 OK'' @ [10]) \<and>
   cmd_write CMD_CODE_TYEP_EVENT 603 (replicate 400 97) (cmd_start () []) = None"
proof -
  have b: "length (str_buf (cmd_start () [])) = 400" by (simp add: cmd_start_def)
  have d: "dec_digits 200 = ''200''" by code_simp
  have h: "cmd_header CMD_CODE_TYEP_STATUS 200 = ascii ''<ACK> 200 ''" by (simp add: cmd_header_def d)
  have l: "length (ascii t) = length t" for t by (simp add: ascii_def)
  have "ascii ''<ACK> 200 '' @ ascii ''OK'' = ascii ''<ACK> 200 OK''" by (simp add: ascii_def)
  then show ?thesis
    using cmd_write_bounds [OF b, of 200 "ascii ''OK''" CMD_CODE_TYEP_STATUS]
      cmd_write_bounds [OF b, of 603 "replicate 400 97" CMD_CODE_TYEP_EVENT]
    by (auto simp: h l cmd_start_def)
qed

section \<open>The shell as a function of the text\<close>

text \<open>
  What a line does, as a function of its text: the command's name is what stands before the first space.
  \<open>f\<close> says what the commands of other files answer, write and do.
\<close>

definition split_text :: "u8 list \<Rightarrow> u8 list \<times> u8 list" where
  "split_text str = (takeWhile (\<lambda>b. b \<noteq> 32) str, tl (dropWhile (\<lambda>b. b \<noteq> 32) str))"

type_synonym 'w text_cmd = "string \<Rightarrow> u8 list \<Rightarrow> 'w \<Rightarrow> cmd_status \<times> u8 list \<times> 'w"

definition pick :: "string list \<Rightarrow> 'w text_cmd \<Rightarrow> u8 list \<Rightarrow> 'w \<Rightarrow> cmd_status \<times> u8 list \<times> 'w" where
  "pick names f str w =
     (case find (\<lambda>n. ascii n = fst (split_text str)) names of
        Some n \<Rightarrow> f n (snd (split_text str)) w
      | None \<Rightarrow> (CMD_STATUS_UNKNOWN_CMD, [], w))"

definition net_names :: "string list" where
  "net_names = [''mode'', ''ap'', ''sta'', ''ifconfig'', ''smartconfig'', ''airkiss'', ''smartlink'', ''iperf'', ''ping'']"

definition main_names :: "string list" where
  "main_names = [''echo'', ''mem'', ''heap'', ''thread'', ''upgrade'', ''reboot'', ''ota'', ''etf'', ''pm'', ''efpg'',
     ''flash'', ''lmac'', ''sysinfo'']"

definition shell_cmd :: "'w text_cmd \<Rightarrow> 'w text_cmd" where
  "shell_cmd f n args w =
     (if n = ''net'' then pick net_names f args w
      else if n = ''drv'' then (CMD_STATUS_UNKNOWN_CMD, [], w)
      else f n args w)"

definition answer :: "cmd_status \<Rightarrow> u8 list" where
  "answer st =
     (if st = CMD_STATUS_ACKED then []
      else cmd_header CMD_CODE_TYEP_STATUS (status_code st) @ ascii (cmd_get_status_desc st) @ [10])"

fun shell_text :: "'w text_cmd \<Rightarrow> u8 list list \<Rightarrow> 'w \<Rightarrow> u8 list \<times> 'w" where
  "shell_text f [] w = ([], w)"
| "shell_text f (l # ls) w =
     (if l = [] then shell_text f ls w
      else case pick (''net'' # ''drv'' # main_names) (shell_cmd f) l w of
             (st, out, w1) \<Rightarrow> (case shell_text f ls w1 of (outs, w2) \<Rightarrow> (out @ answer st @ outs, w2)))"

text \<open>A pointer to a string that ends.\<close>

definition points_to :: "'w cmd_state \<Rightarrow> nat option \<Rightarrow> u8 list \<Rightarrow> bool" where
  "points_to s cmd str =
     (case cmd of
        None \<Rightarrow> str = []
      | Some p \<Rightarrow> \<exists>pre r. cmd_mem s = pre @ str @ 0 # r \<and> p = length pre \<and> 0 \<notin> set str)"

text \<open>A handler, given a pointer to its arguments, does what a function says of their text.\<close>

definition does_text :: "'w cmd_handler \<Rightarrow> (u8 list \<Rightarrow> 'w \<Rightarrow> cmd_status \<times> u8 list \<times> 'w) \<Rightarrow> bool" where
  "does_text h g =
     (\<forall>args s str. points_to s args str \<and> length (str_buf s) = 400 \<longrightarrow>
        (case g str (cmd_world s) of
           (st, out, w) \<Rightarrow>
             \<exists>s'. h args s = Some (st, s') \<and> cmd_world s' = w \<and> uart_tx s' = uart_tx s @ out \<and> length (str_buf s') = 400))"

lemma does_textD:
  assumes "does_text h g" "points_to s args str" "length (str_buf s) = 400" "g str (cmd_world s) = (st, out, w)"
  shows "\<exists>s'. h args s = Some (st, s') \<and> cmd_world s' = w \<and> uart_tx s' = uart_tx s @ out \<and> length (str_buf s') = 400"
  using assms(1) [unfolded does_text_def, rule_format, OF conjI [OF assms(2,3)]] by (simp add: assms(4))

lemma points_str: "points_to s cmd str \<Longrightarrow> str_of s cmd = str"
  by (auto simp: points_to_def str_of_def c_str_at c_str_no_zero split: option.splits)

lemma split_points:
  assumes "points_to s cmd str"
  shows "\<exists>args m. split_cmd cmd s = (args, s\<lparr>cmd_mem := m\<rparr>) \<and>
    points_to (s\<lparr>cmd_mem := m\<rparr>) cmd (fst (split_text str)) \<and> points_to (s\<lparr>cmd_mem := m\<rparr>) args (snd (split_text str))"
proof (cases cmd)
  case None
  then show ?thesis using assms by (intro exI [of _ None] exI [of _ "cmd_mem s"]) (simp add: points_to_def split_cmd_def split_text_def)
next
  case (Some p)
  obtain pre r where m: "cmd_mem s = pre @ str @ 0 # r" "p = length pre" "0 \<notin> set str"
    using assms Some by (auto simp: points_to_def)
  have c: "c_str (cmd_mem s) p = str" using m by (simp add: c_str_at c_str_no_zero)
  let ?n = "takeWhile (\<lambda>b. b \<noteq> 32) str" and ?d = "dropWhile (\<lambda>b. b \<noteq> 32) str"
  have nd: "str = ?n @ ?d" by simp
  have z: "0 \<notin> set ?n" "0 \<notin> set ?d" using m(3) set_takeWhileD set_dropWhileD by metis+
  show ?thesis
  proof (cases ?d)
    case Nil
    then have n: "?n = str" using nd by (metis append_Nil2)
    have "split_cmd cmd s = (None, s\<lparr>cmd_mem := cmd_mem s\<rparr>)" by (simp add: split_cmd_def Some c n Let_def)
    moreover have "split_text str = (str, [])" by (simp add: split_text_def n Nil)
    ultimately show ?thesis using assms by (intro exI [of _ None] exI [of _ "cmd_mem s"]) (simp add: points_to_def)
  next
    case (Cons b bs)
    let ?m = "pre @ ?n @ 0 # bs @ 0 # r"
    have str: "str = ?n @ b # bs" using nd Cons by simp
    have "length ?n < length str" using arg_cong [OF str, of length] by simp
    moreover have "(cmd_mem s)[p + length ?n := 0] = ?m"
      unfolding m(1,2) by (subst str) (simp add: list_update_append)
    ultimately have "split_cmd cmd s = (Some (p + length ?n + 1), s\<lparr>cmd_mem := ?m\<rparr>)"
      by (simp add: split_cmd_def Some c Let_def)
    moreover have "points_to (s\<lparr>cmd_mem := ?m\<rparr>) cmd ?n"
      unfolding points_to_def Some option.case
      by (intro exI [of _ pre] exI [of _ "bs @ 0 # r"]) (use z(1) m(2) in simp)
    moreover have "points_to (s\<lparr>cmd_mem := ?m\<rparr>) (Some (p + length ?n + 1)) bs"
      unfolding points_to_def option.case
      by (intro exI [of _ "pre @ ?n @ [0]"] exI [of _ r]) (use z(2) m(2) Cons in simp)
    ultimately show ?thesis using Cons
      by (intro exI [of _ "Some (p + length ?n + 1)"] exI [of _ ?m]) (simp add: split_text_def)
  qed
qed

text \<open>A table of commands that do what a function says of their text is such a command itself.\<close>

lemma exec_pick:
  assumes t: "map fst cdata = names" "\<forall>(n, h)\<in>set cdata. does_text h (f n)"
  shows "does_text (cmd_exec cdata) (pick names f)"
  unfolding does_text_def
proof (intro allI impI)
  fix cmd and s :: "'a cmd_state" and str
  assume p: "points_to s cmd str \<and> length (str_buf s) = 400"
  obtain args m where a: "split_cmd cmd s = (args, s\<lparr>cmd_mem := m\<rparr>)"
    "points_to (s\<lparr>cmd_mem := m\<rparr>) cmd (fst (split_text str))" "points_to (s\<lparr>cmd_mem := m\<rparr>) args (snd (split_text str))"
    using split_points p by blast
  let ?s = "s\<lparr>cmd_mem := m\<rparr>" and ?nm = "fst (split_text str)"
  have f: "find (\<lambda>n. ascii n = ?nm) (map fst xs) = map_option fst (find (\<lambda>(n, _). ascii n = ?nm) xs)"
    for xs :: "(string \<times> 'a cmd_handler) list"
    by (induction xs) auto
  show "case pick names f str (cmd_world s) of
    (st, out, w) \<Rightarrow>
      \<exists>s'. cmd_exec cdata cmd s = Some (st, s') \<and> cmd_world s' = w \<and> uart_tx s' = uart_tx s @ out \<and> length (str_buf s') = 400"
  proof (cases "find (\<lambda>(n, _). ascii n = ?nm) cdata")
    case None
    then have "cmd_exec cdata cmd s = Some (CMD_STATUS_UNKNOWN_CMD, ?s)" by (simp add: cmd_exec_def a(1) points_str [OF a(2)])
    moreover have "pick names f str (cmd_world s) = (CMD_STATUS_UNKNOWN_CMD, [], cmd_world s)"
      unfolding pick_def t(1) [symmetric] f None by simp
    ultimately show ?thesis using p by simp
  next
    case (Some e)
    obtain n h where e: "e = (n, h)" by force
    have "(n, h) \<in> set cdata" using Some e by (auto simp: find_Some_iff set_conv_nth)
    then have d: "does_text h (f n)" using t(2) by auto
    have x: "cmd_exec cdata cmd s = h args ?s" using Some e by (simp add: cmd_exec_def a(1) points_str [OF a(2)])
    have pk: "pick names f str (cmd_world s) = f n (snd (split_text str)) (cmd_world s)"
      unfolding pick_def t(1) [symmetric] f Some by (simp add: e)
    have l: "length (str_buf ?s) = 400" "cmd_world ?s = cmd_world s" "uart_tx ?s = uart_tx s" using p by simp_all
    show ?thesis using does_textD [OF d a(3) l(1)] by (auto simp: x pk l split: prod.splits)
  qed
qed

lemma main_does_text:
  fixes env :: "string \<Rightarrow> 'w cmd_handler"
  assumes "\<forall>n\<in>set (net_names @ main_names). does_text (env n) (f n)"
  shows "does_text (cmd_exec (g_main_cmds env)) (pick (''net'' # ''drv'' # main_names) (shell_cmd f))"
proof (rule exec_pick)
  show "map fst (g_main_cmds env) = ''net'' # ''drv'' # main_names" by (simp add: g_main_cmds_def main_names_def)
  have n: "does_text (cmd_net_exec env) (pick net_names f)"
    unfolding cmd_net_exec_def by (rule exec_pick) (use assms in \<open>auto simp: g_net_cmds_def net_names_def\<close>)
  have "pick [] f = (\<lambda>args w. (CMD_STATUS_UNKNOWN_CMD, [], w))" by (intro ext) (simp add: pick_def)
  then have d: "does_text (cmd_drv_exec :: 'w cmd_handler) (\<lambda>args w. (CMD_STATUS_UNKNOWN_CMD, [], w))"
    using exec_pick [of "[]" "[]" f] by (simp add: cmd_drv_exec_def)
  have m: "\<forall>x\<in>set main_names. shell_cmd f x = f x" by (simp add: main_names_def shell_cmd_def fun_eq_iff)
  have g: "g_main_cmds env = (''net'', cmd_net_exec env) # (''drv'', cmd_drv_exec) # map (\<lambda>x. (x, env x)) main_names"
    by (simp add: g_main_cmds_def main_names_def)
  have "shell_cmd f ''net'' = pick net_names f" "shell_cmd f ''drv'' = (\<lambda>args w. (CMD_STATUS_UNKNOWN_CMD, [], w))"
    by (simp_all add: shell_cmd_def fun_eq_iff)
  then show "\<forall>(x, h)\<in>set (g_main_cmds env). does_text h (shell_cmd f x)"
    using n d m assms unfolding g by auto
qed

text \<open>The responses fit the buffer.\<close>

lemma answer_written:
  assumes "length (str_buf s) = 400" "st \<noteq> CMD_STATUS_ACKED"
  shows "\<exists>b. cmd_write CMD_CODE_TYEP_STATUS (status_code st) (ascii (cmd_get_status_desc st)) s =
    Some (s\<lparr>str_buf := b, uart_tx := uart_tx s @ answer st\<rparr>) \<and> length b = 400"
proof -
  have c: "status_code st < 4294967296" by (cases st) simp_all
  have "length (ascii (cmd_get_status_desc st)) \<le> 20" by (cases st) (simp_all add: cmd_get_status_desc_def ascii_def)
  then have "length (cmd_header CMD_CODE_TYEP_STATUS (status_code st)) + length (ascii (cmd_get_status_desc st)) < 399"
    using header_short [OF c, of CMD_CODE_TYEP_STATUS] by linarith
  then show ?thesis using cmd_write_cases(1) [OF assms(1) c] assms(2) by (simp add: answer_def)
qed

text \<open>Lines that are executed one after the other, each in its buffer.\<close>

fun run_lines :: "(string \<Rightarrow> 'w cmd_handler) \<Rightarrow> u8 list list \<Rightarrow> 'w cmd_state \<Rightarrow> 'w cmd_state option" where
  "run_lines env [] s = Some s"
| "run_lines env (buf # bufs) s = main_cmd_exec env (Some 0) (s\<lparr>cmd_mem := buf\<rparr>) \<bind> run_lines env bufs"

lemma run_lines_text:
  assumes "\<forall>n\<in>set (net_names @ main_names). does_text (env n) (f n)" "\<forall>b\<in>set bufs. 0 \<in> set b" "length (str_buf s) = 400"
  shows "\<exists>s'. run_lines env bufs s = Some s' \<and>
    shell_text f (map c_string bufs) (cmd_world s) = (drop (length (uart_tx s)) (uart_tx s'), cmd_world s') \<and>
    take (length (uart_tx s)) (uart_tx s') = uart_tx s"
  using assms(2,3)
proof (induction bufs arbitrary: s)
  case Nil
  then show ?case by simp
next
  case (Cons b bufs)
  let ?s = "s\<lparr>cmd_mem := b\<rparr>" and ?l = "c_string b"
  have "b = ?l @ dropWhile (\<lambda>x. x \<noteq> 0) b" by (simp add: c_string_def)
  moreover obtain r where "dropWhile (\<lambda>x. x \<noteq> 0) b = 0 # r"
    using Cons.prems(1) hd_dropWhile [of "\<lambda>x. x \<noteq> 0" b] by (cases "dropWhile (\<lambda>x. x \<noteq> 0) b") (auto simp: dropWhile_eq_Nil_conv)
  moreover have "0 \<notin> set ?l" by (auto simp: c_string_def dest: set_takeWhileD)
  ultimately have p: "points_to ?s (Some 0) ?l" unfolding points_to_def option.case
    by (intro exI [of _ "[]"] exI [of _ r]) simp
  show ?case
  proof (cases "?l = []")
    case True
    have "main_cmd_exec env (Some 0) ?s = Some ?s" by (simp add: main_cmd_exec_def points_str [OF p] True)
    then show ?thesis using Cons.IH [of ?s] Cons.prems True by simp
  next
    case False
    obtain st out w where sp: "pick (''net'' # ''drv'' # main_names) (shell_cmd f) ?l (cmd_world s) = (st, out, w)"
      by (metis prod_cases3)
    obtain s1 where s1: "cmd_exec (g_main_cmds env) (Some 0) ?s = Some (st, s1)" "cmd_world s1 = w" "uart_tx s1 = uart_tx s @ out"
      "length (str_buf s1) = 400"
      using does_textD [OF main_does_text [OF assms(1)] p, of st out w] Cons.prems(2) sp by auto
    obtain s2 where s2: "main_cmd_exec env (Some 0) ?s = Some s2" "cmd_world s2 = w" "uart_tx s2 = uart_tx s @ out @ answer st"
      "length (str_buf s2) = 400"
    proof (cases "st = CMD_STATUS_ACKED")
      case True
      then show ?thesis using that [of s1] s1 False by (simp add: main_cmd_exec_def points_str [OF p] answer_def)
    next
      case na: False
      obtain b' where "cmd_write CMD_CODE_TYEP_STATUS (status_code st) (ascii (cmd_get_status_desc st)) s1 =
        Some (s1\<lparr>str_buf := b', uart_tx := uart_tx s1 @ answer st\<rparr>)" "length b' = 400"
        using answer_written [OF s1(4) na] by blast
      then show ?thesis using that s1 False na by (simp add: main_cmd_exec_def points_str [OF p])
    qed
    obtain s' where s': "run_lines env bufs s2 = Some s'"
      "shell_text f (map c_string bufs) w = (drop (length (uart_tx s2)) (uart_tx s'), cmd_world s')"
      "take (length (uart_tx s2)) (uart_tx s') = uart_tx s2"
      using Cons.IH [of s2] Cons.prems s2 by auto
    obtain rest where u: "uart_tx s' = uart_tx s2 @ rest" using s'(3) by (metis append_take_drop_id)
    then show ?thesis using s'(1,2) s2 sp False by (simp add: u)
  qed
qed

section \<open>From the keyboard to the response\<close>

text \<open>
  C21: Lines typed at the console, each followed by a round of its thread, are executed as typed, and
  together they do what their texts say: each goes to the command named by its first word, through the
  tables of the main and of the network commands, and is answered by one response, written completely,
  unless the command has acknowledged itself or the line is empty.
\<close>

theorem console_session:
  assumes "length bufs = 2" "\<forall>b\<in>set bufs. length b = 256"
    and "\<forall>(line, eol)\<in>set ls. line_ok line \<and> eol_ok eol"
    and "map c_string mems = map fst ls" "\<forall>b\<in>set mems. 0 \<in> set b"
    and "\<forall>n\<in>set (net_names @ main_names). does_text (env n) (f n)"
    and "length (str_buf s) = 400" "uart_tx s = []"
  shows "\<exists>c' s'. con_rounds (map (\<lambda>(l, e). l @ e) ls) (snd (console_start True True (con_start_state bufs))) = Some c' \<and>
    cmd_log c' = map c_string mems \<and> run_lines env mems s = Some s' \<and>
    shell_text f (map fst ls) (cmd_world s) = (uart_tx s', cmd_world s')"
  using rounds_execute [OF start_rest(1) [OF assms(1,2)] assms(3)] start_rest(2) [OF assms(1,2)]
    run_lines_text [OF assms(6,5,7)] assms(4,8) by auto

theorem console_session_witness:
  "\<exists>c' s'. con_rounds [ascii ''net ping x'' @ [10]] (snd (console_start True True (con_start_state zero_bufs))) = Some c' \<and>
    cmd_log c' = [ascii ''net ping x''] \<and>
    run_lines (\<lambda>n args s. Some (CMD_STATUS_OK, s\<lparr>cmd_world := cmd_world s @ [(n, str_of s args)]\<rparr>))
      [ascii ''net ping x'' @ [0, 7]] (cmd_start [] []) = Some s' \<and>
    cmd_world s' = [(''ping'', ascii ''x'')] \<and> uart_tx s' = ascii ''<ACK> 200 OK'' @ [10]"
proof -
  let ?env = "\<lambda>n args s. Some (CMD_STATUS_OK, s\<lparr>cmd_world := cmd_world s @ [(n, str_of s args)]\<rparr>)"
  let ?f = "\<lambda>n str w. (CMD_STATUS_OK, [], w @ [(n, str)])"
  let ?l = "ascii ''net ping x''"
  have l: "?l = [110, 101, 116, 32, 112, 105, 110, 103, 32, 120]" by (simp add: ascii_def)
  have ok: "\<forall>(line, eol)\<in>set [(?l, [10])]. line_ok line \<and> eol_ok eol" by (simp add: l line_ok_def eol_ok_def isprint_def)
  have m: "map c_string [?l @ [0, 7]] = map fst [(?l, [10 :: u8])]" by (simp add: l c_string_def)
  have t: "\<forall>n\<in>set (net_names @ main_names). does_text (?env n) (?f n)" by (simp add: does_text_def points_str)
  have d: "dec_digits 200 = ''200''" by code_simp
  have sh: "shell_text ?f [?l] [] = (ascii ''<ACK> 200 OK'' @ [10], [(''ping'', ascii ''x'')])"
    by (simp add: l pick_def split_text_def main_names_def net_names_def shell_cmd_def answer_def cmd_header_def d
      cmd_get_status_desc_def) (simp add: ascii_def)
  have c: "cmd_world (cmd_start [] []) = []" "uart_tx (cmd_start [] []) = []" "length (str_buf (cmd_start [] [])) = 400"
    "\<forall>b\<in>set [?l @ [0, 7]]. 0 \<in> set b"
    by (simp_all add: cmd_start_def)
  have e: "map c_string [?l @ [0, 7]] = [?l]" "map fst [(?l, [10 :: u8])] = [?l]" "map (\<lambda>(l, e). l @ e) [(?l, [10])] = [?l @ [10]]"
    using m by simp_all
  from console_session [OF zero_bufs_ok ok m c(4) t c(3,2)] show ?thesis unfolding e c(1) sh by auto
qed

end
