(* ===== verification/Wrap_Malloc.thy ===== *)
theory Wrap_Malloc
  imports Prelude "HOL-Library.Monad_Syntax"
begin

text \<open>
  The tracing allocator, src/libc/wrap_malloc.c with WRAP_MALLOC_MEM_TRACE: malloc, realloc and free of the
  C library are wrapped, every block is entered in a table of 1024 entries and ends in four magic bytes,
  which are checked when it is freed. The allocator of the C library is a parameter: its answer is the
  pointer (0 for NULL) and the contents of the block. All operations run with the scheduler suspended, so
  they are steps of one sequence. A read or store outside a block is None. What is printed as an error is a report.
\<close>

section \<open>State\<close>

record heap_mem =
  hm_ptr :: nat
  hm_size :: u32

datatype report = Corrupt nat | Missed nat | Exhausted | Count_exceeded

text \<open>\<open>blocks\<close>: the blocks of the C library and their contents.\<close>

record wm_state =
  g_mem :: "heap_mem list"
  g_mem_entry_cnt :: int
  g_mem_entry_cnt_max :: int
  g_mem_empty_idx :: nat
  g_mem_sum :: u32
  g_mem_sum_max :: u32
  g_do_reallocing :: bool
  blocks :: "nat \<Rightarrow> u8 list option"
  reports :: "report list"

definition HEAP_MEM_MAX_CNT :: nat where "HEAP_MEM_MAX_CNT = 1024"
definition WRAP_MEM_MAGIC_LEN :: nat where "WRAP_MEM_MAGIC_LEN = 4"
definition g_mem_magic :: "u8 list" where "g_mem_magic = [0x4a, 0x5b, 0x6c, 0x7f]"

definition wm_report :: "report \<Rightarrow> wm_state \<Rightarrow> wm_state" where
  "wm_report r s = s\<lparr>reports := reports s @ [r]\<rparr>"

section \<open>The magic bytes and the table\<close>

definition WRAP_MEM_SET_MAGIC :: "nat \<Rightarrow> nat \<Rightarrow> wm_state \<Rightarrow> wm_state option" where
  "WRAP_MEM_SET_MAGIC p l s =
     (case blocks s p of
        None \<Rightarrow> None
      | Some bs \<Rightarrow>
          if l + 4 \<le> length bs then Some (s\<lparr>blocks := (blocks s)(p \<mapsto> take l bs @ g_mem_magic @ drop (l + 4) bs)\<rparr>)
          else None)"

definition WRAP_MEM_CHK_MAGIC :: "nat \<Rightarrow> nat \<Rightarrow> wm_state \<Rightarrow> bool option" where
  "WRAP_MEM_CHK_MAGIC p l s =
     (case blocks s p of
        None \<Rightarrow> None
      | Some bs \<Rightarrow> if l + 4 \<le> length bs then Some (take 4 (drop l bs) \<noteq> g_mem_magic) else None)"

fun check_entries :: "heap_mem list \<Rightarrow> wm_state \<Rightarrow> report list option" where
  "check_entries [] s = Some []"
| "check_entries (e # es) s =
     (if hm_ptr e \<noteq> 0
      then do {
        corrupt \<leftarrow> WRAP_MEM_CHK_MAGIC (hm_ptr e) (unat (hm_size e)) s;
        rs \<leftarrow> check_entries es s;
        Some (if corrupt then Corrupt (hm_ptr e) # rs else rs)
      }
      else check_entries es s)"

definition wrap_malloc_heap_info :: "wm_state \<Rightarrow> (u32 \<times> report list) option" where
  "wrap_malloc_heap_info s = check_entries (g_mem s) s \<bind> (\<lambda>rs. Some (g_mem_sum s, rs))"

definition find_entry :: "nat \<Rightarrow> nat \<Rightarrow> heap_mem list \<Rightarrow> nat option" where
  "find_entry from p mem = find (\<lambda>i. hm_ptr (mem ! i) = p) [from..<HEAP_MEM_MAX_CNT]"

definition wrap_malloc_add_entry :: "nat \<Rightarrow> u32 \<Rightarrow> wm_state \<Rightarrow> wm_state option" where
  "wrap_malloc_add_entry p sz s = do {
     s1 \<leftarrow> WRAP_MEM_SET_MAGIC p (unat sz) s;
     case find_entry (g_mem_empty_idx s1) 0 (g_mem s1) of
       Some i \<Rightarrow>
         (let cnt = g_mem_entry_cnt s1 + 1; total = g_mem_sum s1 + sz
          in Some (s1\<lparr>g_mem := (g_mem s1)[i := \<lparr>hm_ptr = p, hm_size = sz\<rparr>], g_mem_entry_cnt := cnt,
                      g_mem_empty_idx := i + 1, g_mem_sum := total,
                      g_mem_sum_max := (if total > g_mem_sum_max s1 then total else g_mem_sum_max s1),
                      g_mem_entry_cnt_max := (if cnt > g_mem_entry_cnt_max s1 then cnt else g_mem_entry_cnt_max s1)\<rparr>))
     | None \<Rightarrow> Some (wm_report Count_exceeded s1)
   }"

definition wrap_malloc_delete_entry :: "nat \<Rightarrow> wm_state \<Rightarrow> (int \<times> wm_state) option" where
  "wrap_malloc_delete_entry p s =
     (case find_entry 0 p (g_mem s) of
        Some i \<Rightarrow>
          (let sz = hm_size (g_mem s ! i)
           in do {
             corrupt \<leftarrow> WRAP_MEM_CHK_MAGIC p (unat sz) s;
             let s1 = (if corrupt then wm_report (Corrupt p) s else s);
             Some (sint sz, s1\<lparr>g_mem_sum := g_mem_sum s1 - sz, g_mem := (g_mem s1)[i := \<lparr>hm_ptr = 0, hm_size = 0\<rparr>],
                           g_mem_entry_cnt := g_mem_entry_cnt s1 - 1,
                           g_mem_empty_idx := (if i < g_mem_empty_idx s1 then i else g_mem_empty_idx s1)\<rparr>)
           })
      | None \<Rightarrow> Some (-1, wm_report (Missed p) s))"

definition wrap_malloc_update_entry :: "nat \<Rightarrow> nat \<Rightarrow> u32 \<Rightarrow> wm_state \<Rightarrow> (int \<times> wm_state) option" where
  "wrap_malloc_update_entry old_ptr new_ptr new_size s = do {
     s1 \<leftarrow> WRAP_MEM_SET_MAGIC new_ptr (unat new_size) s;
     case find_entry 0 old_ptr (g_mem s1) of
       Some i \<Rightarrow>
         (let old_size = hm_size (g_mem s1 ! i); total = g_mem_sum s1 - old_size + new_size
          in Some (sint old_size,
                   s1\<lparr>g_mem_sum := total, g_mem := (g_mem s1)[i := \<lparr>hm_ptr = new_ptr, hm_size = new_size\<rparr>],
                      g_mem_sum_max := (if total > g_mem_sum_max s1 then total else g_mem_sum_max s1)\<rparr>))
     | None \<Rightarrow> Some (-1, wm_report (Missed new_ptr) s1)
   }"

section \<open>The wrapped functions\<close>

text \<open>
  The answer of the C library. Its realloc calls malloc and free, which are wrapped too; the flag keeps
  them from the table, and the answer is what realloc makes of them together.
\<close>

type_synonym block_answer = "nat \<times> u8 list"

definition real_malloc :: "block_answer \<Rightarrow> wm_state \<Rightarrow> wm_state" where
  "real_malloc a s = (if fst a = 0 then s else s\<lparr>blocks := (blocks s)(fst a \<mapsto> snd a)\<rparr>)"

definition real_free :: "nat \<Rightarrow> wm_state \<Rightarrow> wm_state" where
  "real_free p s = s\<lparr>blocks := (blocks s)(p := None)\<rparr>"

definition real_realloc :: "block_answer \<Rightarrow> nat \<Rightarrow> u32 \<Rightarrow> wm_state \<Rightarrow> wm_state" where
  "real_realloc a p real_size s =
     (if fst a \<noteq> 0 then s\<lparr>blocks := ((blocks s)(p := None))(fst a \<mapsto> snd a)\<rparr>
      else if real_size = 0 then real_free p s else s)"

definition wrap_malloc_r :: "block_answer \<Rightarrow> u32 \<Rightarrow> wm_state \<Rightarrow> (nat \<times> wm_state) option" where
  "wrap_malloc_r a sz s =
     (let s1 = real_malloc a s; p = fst a
      in if \<not> g_do_reallocing s1
         then (if p \<noteq> 0 then wrap_malloc_add_entry p sz s1 \<bind> (\<lambda>s2. Some (p, s2)) else Some (p, wm_report Exhausted s1))
         else Some (p, s1))"

text \<open>The size that malloc asks for.\<close>

definition real_size :: "u32 \<Rightarrow> wm_state \<Rightarrow> u32" where
  "real_size sz s = (if g_do_reallocing s then sz else sz + of_nat WRAP_MEM_MAGIC_LEN)"

definition realloc_size :: "u32 \<Rightarrow> u32" where
  "realloc_size sz = (if sz \<noteq> 0 then sz + of_nat WRAP_MEM_MAGIC_LEN else sz)"

definition wrap_realloc_r :: "block_answer \<Rightarrow> nat \<Rightarrow> u32 \<Rightarrow> wm_state \<Rightarrow> (nat \<times> wm_state) option" where
  "wrap_realloc_r a p sz s =
     (let s1 = real_realloc a p (realloc_size sz) (s\<lparr>g_do_reallocing := True\<rparr>); q = fst a
      in do {
        s2 \<leftarrow> (if p = 0
               then (if q \<noteq> 0 then wrap_malloc_add_entry q sz s1
                     else if sz \<noteq> 0 then Some (wm_report Exhausted s1) else Some s1)
               else if sz = 0 then wrap_malloc_delete_entry p s1 \<bind> (\<lambda>(old_size, s2). Some s2)
               else if q \<noteq> 0 then wrap_malloc_update_entry p q sz s1 \<bind> (\<lambda>(old_size, s2). Some s2)
               else Some (wm_report Exhausted s1));
        Some (q, s2\<lparr>g_do_reallocing := False\<rparr>)
      })"

definition wrap_free_r :: "nat \<Rightarrow> wm_state \<Rightarrow> wm_state option" where
  "wrap_free_r p s = do {
     s1 \<leftarrow> (if \<not> g_do_reallocing s \<and> p \<noteq> 0 then wrap_malloc_delete_entry p s \<bind> (\<lambda>(sz, s1). Some s1) else Some s);
     Some (real_free p s1)
   }"

text \<open>A store of the program into a block.\<close>

definition block_store :: "nat \<Rightarrow> nat \<Rightarrow> u8 \<Rightarrow> wm_state \<Rightarrow> wm_state" where
  "block_store p k b s = s\<lparr>blocks := (blocks s)(p := map_option (\<lambda>bs. bs[k := b]) (blocks s p))\<rparr>"

definition wm_start :: wm_state where
  "wm_start = \<lparr>g_mem = replicate HEAP_MEM_MAX_CNT \<lparr>hm_ptr = 0, hm_size = 0\<rparr>, g_mem_entry_cnt = 0, g_mem_entry_cnt_max = 0,
     g_mem_empty_idx = 0, g_mem_sum = 0, g_mem_sum_max = 0, g_do_reallocing = False, blocks = Map.empty, reports = []\<rparr>"

section \<open>The table is the blocks that are held\<close>

text \<open>\<open>h\<close>: the blocks the program holds, with the sizes it asked for.\<close>

definition slots :: "heap_mem list \<Rightarrow> nat set" where
  "slots g = {i. i < length g \<and> hm_ptr (g ! i) \<noteq> 0}"

definition tinv :: "(nat \<Rightarrow> u32 option) \<Rightarrow> heap_mem list \<Rightarrow> int \<Rightarrow> nat \<Rightarrow> u32 \<Rightarrow> bool" where
  "tinv h g cnt idx sm =
     (length g = 1024 \<and> inj_on (\<lambda>i. hm_ptr (g ! i)) (slots g) \<and>
      (\<forall>p sz. h p = Some sz \<longleftrightarrow> (\<exists>i\<in>slots g. hm_ptr (g ! i) = p \<and> hm_size (g ! i) = sz)) \<and>
      cnt = int (card (slots g)) \<and> sm = (\<Sum>i\<in>slots g. hm_size (g ! i)) \<and>
      idx \<le> 1024 \<and> (\<forall>i<idx. i \<in> slots g))"

lemma finite_slots [simp]: "finite (slots g)"
  by (simp add: slots_def)

lemma find_entry_Some:
  "find_entry k p g = Some i \<Longrightarrow> k \<le> i \<and> i < 1024 \<and> hm_ptr (g ! i) = p \<and> (\<forall>j. k \<le> j \<and> j < i \<longrightarrow> hm_ptr (g ! j) \<noteq> p)"
proof -
  assume "find_entry k p g = Some i"
  then obtain n where n: "n < length [k..<1024]" "i = [k..<1024] ! n" "hm_ptr (g ! i) = p"
    "\<forall>j<n. hm_ptr (g ! ([k..<1024] ! j)) \<noteq> p"
    by (auto simp: find_entry_def HEAP_MEM_MAX_CNT_def find_Some_iff)
  then have i: "i = k + n" "i < 1024" by simp_all
  have "hm_ptr (g ! j) \<noteq> p" if "k \<le> j" "j < i" for j
    using n(4) [rule_format, of "j - k"] that i by simp
  then show ?thesis using i n(3) by simp
qed

lemma find_entry_None: "find_entry k p g = None \<Longrightarrow> k \<le> i \<Longrightarrow> i < 1024 \<Longrightarrow> hm_ptr (g ! i) \<noteq> p"
  by (auto simp: find_entry_def HEAP_MEM_MAX_CNT_def find_None_iff)

lemma tinv_dom:
  assumes "tinv h g c k sm"
  shows "dom h = (\<lambda>i. hm_ptr (g ! i)) ` slots g" "card (dom h) = nat c" "(\<Sum>p\<in>dom h. the (h p)) = sm" "0 \<notin> dom h"
proof -
  have g: "h p = Some sz \<longleftrightarrow> (\<exists>i\<in>slots g. hm_ptr (g ! i) = p \<and> hm_size (g ! i) = sz)" for p sz
    using assms by (simp add: tinv_def)
  show d: "dom h = (\<lambda>i. hm_ptr (g ! i)) ` slots g" using g by (auto simp: dom_def)
  have inj: "inj_on (\<lambda>i. hm_ptr (g ! i)) (slots g)" using assms by (simp add: tinv_def)
  show "card (dom h) = nat c" using assms by (simp add: d card_image [OF inj] tinv_def)
  have "h (hm_ptr (g ! i)) = Some (hm_size (g ! i))" if "i \<in> slots g" for i using g that by blast
  then have "(\<Sum>p\<in>dom h. the (h p)) = (\<Sum>i\<in>slots g. hm_size (g ! i))"
    unfolding d by (subst sum.reindex [OF inj]) (simp add: o_def)
  then show "(\<Sum>p\<in>dom h. the (h p)) = sm" using assms by (simp add: tinv_def)
  show "0 \<notin> dom h" unfolding d by (auto simp: slots_def)
qed

lemma tinv_held: "tinv h g c k sm \<Longrightarrow> j \<in> slots g \<Longrightarrow> h (hm_ptr (g ! j)) = Some (hm_size (g ! j))"
  by (auto simp: tinv_def)

lemma slots_update: "i < length g \<Longrightarrow> slots (g[i := e]) = (if hm_ptr e \<noteq> 0 then insert i (slots g) else slots g - {i})"
  by (auto simp: slots_def nth_list_update)

lemma tinv_add:
  assumes t: "tinv h g c k sm" and p: "p \<noteq> 0" "h p = None"
    and i: "k \<le> i" "i < 1024" "hm_ptr (g ! i) = 0" "\<forall>j. k \<le> j \<and> j < i \<longrightarrow> hm_ptr (g ! j) \<noteq> 0"
  shows "tinv (h(p \<mapsto> sz)) (g[i := \<lparr>hm_ptr = p, hm_size = sz\<rparr>]) (c + 1) (i + 1) (sm + sz)"
proof -
  let ?g = "g[i := \<lparr>hm_ptr = p, hm_size = sz\<rparr>]"
  have l: "length g = 1024" using t by (simp add: tinv_def)
  have ni: "i \<notin> slots g" using i(3) by (simp add: slots_def)
  have s: "slots ?g = insert i (slots g)" using slots_update [of i g] i(2) l p(1) by simp
  have o: "?g ! j = (if j = i then \<lparr>hm_ptr = p, hm_size = sz\<rparr> else g ! j)" if "j \<in> slots ?g" for j
    using that i(2) l by (auto simp: nth_list_update s slots_def)
  have np: "hm_ptr (g ! j) \<noteq> p" if "j \<in> slots g" for j using t p(2) that by (force simp: tinv_def)
  have "inj_on (\<lambda>j. hm_ptr (?g ! j)) (slots ?g)"
    using t np ni o by (auto simp: tinv_def s inj_on_def nth_list_update)
  moreover have "(h(p \<mapsto> sz)) q = Some z \<longleftrightarrow> (\<exists>j\<in>slots ?g. hm_ptr (?g ! j) = q \<and> hm_size (?g ! j) = z)" for q z
  proof (cases "q = p")
    case True
    then show ?thesis using o np ni unfolding s by (auto simp: i(2) l nth_list_update)
  next
    case False
    have "h q = Some z \<longleftrightarrow> (\<exists>j\<in>slots g. hm_ptr (g ! j) = q \<and> hm_size (g ! j) = z)" using t by (simp add: tinv_def)
    then show ?thesis using False ni unfolding s by (auto simp: i(2) l nth_list_update)
  qed
  moreover have "c + 1 = int (card (slots ?g))" using t ni by (simp add: tinv_def s)
  moreover have "sm + sz = (\<Sum>j\<in>slots ?g. hm_size (?g ! j))"
  proof -
    have "(\<Sum>j\<in>slots g. hm_size (?g ! j)) = (\<Sum>j\<in>slots g. hm_size (g ! j))"
      using ni by (intro sum.cong refl) (metis nth_list_update_neq)
    then show ?thesis using t ni i(2) l by (simp add: s tinv_def)
  qed
  moreover have "j \<in> slots ?g" if "j < i + 1" for j
  proof -
    have "j = i \<or> j < k \<or> k \<le> j \<and> j < i" using that by linarith
    then have "j = i \<or> j \<in> slots g" using t i l by (auto simp: tinv_def slots_def)
    then show ?thesis by (auto simp: s)
  qed
  ultimately show ?thesis using l i(2) by (simp add: tinv_def)
qed

lemma tinv_at:
  assumes "tinv h g c k sm" "i < 1024" "hm_ptr (g ! i) = p" "p \<noteq> 0"
  shows "h p = Some (hm_size (g ! i))" "\<forall>j\<in>slots g. hm_ptr (g ! j) = p \<longrightarrow> j = i" "i \<in> slots g"
proof -
  show i: "i \<in> slots g" using assms by (simp add: tinv_def slots_def)
  show "h p = Some (hm_size (g ! i))" using assms i by (auto simp: tinv_def)
  show "\<forall>j\<in>slots g. hm_ptr (g ! j) = p \<longrightarrow> j = i" using assms i by (auto simp: tinv_def inj_on_def)
qed

lemma tinv_delete:
  assumes t: "tinv h g c k sm" and i: "i < 1024" "hm_ptr (g ! i) = p" "p \<noteq> 0"
  shows "tinv (h(p := None)) (g[i := \<lparr>hm_ptr = 0, hm_size = 0\<rparr>]) (c - 1) (if i < k then i else k) (sm - hm_size (g ! i))"
proof -
  let ?g = "g[i := \<lparr>hm_ptr = 0, hm_size = 0\<rparr>]"
  note a = tinv_at [OF t i]
  have l: "length g = 1024" using t by (simp add: tinv_def)
  have s: "slots ?g = slots g - {i}" using slots_update [of i g] i(1) l by simp
  have "inj_on (\<lambda>j. hm_ptr (?g ! j)) (slots ?g)"
    using t by (auto simp: tinv_def s inj_on_def nth_list_update)
  moreover have "(h(p := None)) q = Some z \<longleftrightarrow> (\<exists>j\<in>slots ?g. hm_ptr (?g ! j) = q \<and> hm_size (?g ! j) = z)" for q z
  proof (cases "q = p")
    case True
    then show ?thesis using a(2) by (auto simp: s nth_list_update)
  next
    case False
    have "h q = Some z \<longleftrightarrow> (\<exists>j\<in>slots g. hm_ptr (g ! j) = q \<and> hm_size (g ! j) = z)" using t by (simp add: tinv_def)
    then show ?thesis using False i(2) by (auto simp: s nth_list_update)
  qed
  moreover have "c - 1 = int (card (slots ?g))"
  proof -
    have "0 < card (slots g)" using a(3) by (auto simp: card_gt_0_iff)
    then show ?thesis using t a(3) by (simp add: tinv_def s of_nat_diff)
  qed
  moreover have "sm - hm_size (g ! i) = (\<Sum>j\<in>slots ?g. hm_size (?g ! j))"
  proof -
    have "(\<Sum>j\<in>slots ?g. hm_size (?g ! j)) = (\<Sum>j\<in>slots g - {i}. hm_size (g ! j))"
      unfolding s by (intro sum.cong refl) simp
    then show ?thesis using t a(3) by (simp add: tinv_def sum.remove [of "slots g" i])
  qed
  moreover have "j \<in> slots ?g" if "j < (if i < k then i else k)" for j
    using that t by (auto simp: s tinv_def split: if_splits)
  ultimately show ?thesis using l t i(1) by (simp add: tinv_def)
qed

lemma tinv_replace:
  assumes t: "tinv h g c k sm" and i: "i < 1024" "hm_ptr (g ! i) = p" "p \<noteq> 0" and q: "q \<noteq> 0" "q \<noteq> p \<longrightarrow> h q = None"
  shows "tinv ((h(p := None))(q \<mapsto> sz)) (g[i := \<lparr>hm_ptr = q, hm_size = sz\<rparr>]) c k (sm - hm_size (g ! i) + sz)"
proof -
  let ?g = "g[i := \<lparr>hm_ptr = q, hm_size = sz\<rparr>]"
  note a = tinv_at [OF t i]
  have l: "length g = 1024" using t by (simp add: tinv_def)
  have s: "slots ?g = slots g" using slots_update [of i g] i(1) l q(1) a(3) by auto
  have nq: "hm_ptr (g ! j) \<noteq> q" if "j \<in> slots g" "j \<noteq> i" for j
    using tinv_held [OF t that(1)] q(2) a(2) that by (cases "q = p") auto
  have o: "hm_ptr (?g ! j) = (if j = i then q else hm_ptr (g ! j))" for j using i(1) l by (simp add: nth_list_update)
  have "inj_on (\<lambda>j. hm_ptr (?g ! j)) (slots ?g)"
  proof (rule inj_onI)
    fix x y
    assume "x \<in> slots ?g" "y \<in> slots ?g" "hm_ptr (?g ! x) = hm_ptr (?g ! y)"
    then show "x = y" using t nq [of x] nq [of y] unfolding s o by (auto simp: tinv_def inj_on_def split: if_splits)
  qed
  moreover have "((h(p := None))(q \<mapsto> sz)) r = Some z \<longleftrightarrow> (\<exists>j\<in>slots ?g. hm_ptr (?g ! j) = r \<and> hm_size (?g ! j) = z)" for r z
  proof -
    have h: "h r = Some z \<longleftrightarrow> (\<exists>j\<in>slots g. hm_ptr (g ! j) = r \<and> hm_size (g ! j) = z)" using t by (simp add: tinv_def)
    have "(\<exists>j\<in>slots ?g. hm_ptr (?g ! j) = r \<and> hm_size (?g ! j) = z) \<longleftrightarrow>
        (r = q \<and> z = sz) \<or> (\<exists>j\<in>slots g - {i}. hm_ptr (g ! j) = r \<and> hm_size (g ! j) = z)"
      using a(3) i(1) l unfolding s by (auto simp: nth_list_update)
    moreover have "(\<exists>j\<in>slots g - {i}. hm_ptr (g ! j) = r \<and> hm_size (g ! j) = z) \<longleftrightarrow> r \<noteq> p \<and> h r = Some z"
      using a(2) i(2) by (auto simp: h)
    moreover have "r = q \<Longrightarrow> \<not> (r \<noteq> p \<and> h r = Some z)" using q(2) by auto
    ultimately show ?thesis by auto
  qed
  moreover have "sm - hm_size (g ! i) + sz = (\<Sum>j\<in>slots ?g. hm_size (?g ! j))"
  proof -
    have "(\<Sum>j\<in>slots g - {i}. hm_size (?g ! j)) = (\<Sum>j\<in>slots g - {i}. hm_size (g ! j))"
      by (intro sum.cong refl) simp
    then show ?thesis using t a(3) i(1) l by (simp add: tinv_def s sum.remove [of "slots g" i])
  qed
  ultimately show ?thesis using l t unfolding tinv_def s by auto
qed

text \<open>As long as less than 1024 blocks are held there is a free entry at or behind the index.\<close>

lemma tinv_free_slot:
  assumes "tinv h g c k sm" "card (dom h) < 1024"
  shows "\<exists>i. find_entry k 0 g = Some i"
proof (rule ccontr)
  assume "\<not> ?thesis"
  then have "find_entry k 0 g = None" by auto
  then have "i \<in> slots g" if "i < 1024" for i
    using find_entry_None [of k 0 g i] that assms(1) by (cases "i < k") (auto simp: tinv_def slots_def)
  then have "{..<1024} \<subseteq> slots g" by auto
  then have "1024 \<le> card (slots g)" using card_mono [of "slots g" "{..<1024}"] by simp
  then show False using assms tinv_dom(2) [OF assms(1)] by (simp add: tinv_def)
qed

section \<open>The blocks and their magic bytes\<close>

text \<open>Every block that is held is as long as asked for and four bytes more, the magic ones.\<close>

definition binv :: "(nat \<Rightarrow> u32 option) \<Rightarrow> (nat \<Rightarrow> u8 list option) \<Rightarrow> bool" where
  "binv h bl =
     (dom bl = dom h \<and>
      (\<forall>p sz. h p = Some sz \<longrightarrow> (\<exists>bs. bl p = Some bs \<and> length bs = unat sz + 4 \<and> drop (unat sz) bs = g_mem_magic)))"

definition wm_inv :: "(nat \<Rightarrow> u32 option) \<Rightarrow> wm_state \<Rightarrow> bool" where
  "wm_inv h s =
     (tinv h (g_mem s) (g_mem_entry_cnt s) (g_mem_empty_idx s) (g_mem_sum s) \<and> binv h (blocks s) \<and>
      \<not> g_do_reallocing s \<and> (\<forall>r\<in>set (reports s). r = Exhausted))"

lemma magic_length [simp]: "length g_mem_magic = 4"
  by (simp add: g_mem_magic_def)

lemma set_magic:
  assumes "length bs = unat sz + 4"
  shows "WRAP_MEM_SET_MAGIC p (unat sz) (s\<lparr>blocks := bl(p \<mapsto> bs)\<rparr>) =
    Some (s\<lparr>blocks := bl(p \<mapsto> take (unat sz) bs @ g_mem_magic)\<rparr>)"
  using assms by (simp add: WRAP_MEM_SET_MAGIC_def)

lemma binv_add: "binv h bl \<Longrightarrow> length bs = unat sz \<Longrightarrow> binv (h(p \<mapsto> sz)) (bl(p \<mapsto> bs @ g_mem_magic))"
  by (auto simp: binv_def)

lemma binv_delete: "binv h bl \<Longrightarrow> binv (h(p := None)) (bl(p := None))"
  by (auto simp: binv_def)

lemma magic_intact: "binv h (blocks s) \<Longrightarrow> h p = Some sz \<Longrightarrow> WRAP_MEM_CHK_MAGIC p (unat sz) s = Some False"
  by (force simp: binv_def WRAP_MEM_CHK_MAGIC_def)

text \<open>Entering a block; the table and the index are those of a state that agrees with \<open>h\<close>.\<close>

lemma add_entry_ok:
  assumes "tinv h (g_mem s) (g_mem_entry_cnt s) (g_mem_empty_idx s) (g_mem_sum s)" "binv h bl"
    and "p \<noteq> 0" "h p = None" "length bs = unat sz + 4" "card (dom h) < 1024"
  shows "\<exists>s'. wrap_malloc_add_entry p sz (s\<lparr>blocks := bl(p \<mapsto> bs)\<rparr>) = Some s' \<and>
    tinv (h(p \<mapsto> sz)) (g_mem s') (g_mem_entry_cnt s') (g_mem_empty_idx s') (g_mem_sum s') \<and>
    binv (h(p \<mapsto> sz)) (blocks s') \<and> reports s' = reports s \<and> g_do_reallocing s' = g_do_reallocing s"
proof -
  obtain i where i: "find_entry (g_mem_empty_idx s) 0 (g_mem s) = Some i" using tinv_free_slot [OF assms(1,6)] by auto
  note f = find_entry_Some [OF i]
  have t: "tinv (h(p \<mapsto> sz)) ((g_mem s)[i := \<lparr>hm_ptr = p, hm_size = sz\<rparr>]) (g_mem_entry_cnt s + 1) (i + 1) (g_mem_sum s + sz)"
    by (rule tinv_add [OF assms(1,3,4)]) (use f in auto)
  have b: "binv (h(p \<mapsto> sz)) (bl(p \<mapsto> take (unat sz) bs @ g_mem_magic))"
    by (rule binv_add [OF assms(2)]) (use assms(5) in simp)
  show ?thesis using t b by (simp add: wrap_malloc_add_entry_def set_magic [OF assms(5)] i Let_def)
qed

lemma delete_entry_ok:
  assumes "tinv h (g_mem s) (g_mem_entry_cnt s) (g_mem_empty_idx s) (g_mem_sum s)" "h p = Some sz"
    and "WRAP_MEM_CHK_MAGIC p (unat sz) s = Some c"
  shows "\<exists>s'. wrap_malloc_delete_entry p s = Some (sint sz, s') \<and>
    tinv (h(p := None)) (g_mem s') (g_mem_entry_cnt s') (g_mem_empty_idx s') (g_mem_sum s') \<and>
    blocks s' = blocks s \<and> g_do_reallocing s' = g_do_reallocing s \<and>
    reports s' = reports s @ (if c then [Corrupt p] else [])"
proof -
  have p0: "p \<noteq> 0" using tinv_dom(4) [OF assms(1)] assms(2) by (metis domI)
  obtain j where j: "j \<in> slots (g_mem s)" "hm_ptr (g_mem s ! j) = p" using assms by (auto simp: tinv_def)
  have "find_entry 0 p (g_mem s) \<noteq> None"
    using find_entry_None [of 0 p "g_mem s" j] j assms(1) by (auto simp: slots_def tinv_def)
  then obtain i where i: "find_entry 0 p (g_mem s) = Some i" by auto
  note f = find_entry_Some [OF i]
  have sz: "hm_size (g_mem s ! i) = sz" using tinv_at(1) [OF assms(1), of i p] f p0 assms(2) by simp
  have t: "tinv (h(p := None)) ((g_mem s)[i := \<lparr>hm_ptr = 0, hm_size = 0\<rparr>]) (g_mem_entry_cnt s - 1)
      (if i < g_mem_empty_idx s then i else g_mem_empty_idx s) (g_mem_sum s - sz)"
    using tinv_delete [OF assms(1), of i p] f p0 sz by simp
  then show ?thesis
    by (cases "i < g_mem_empty_idx s") (simp_all add: wrap_malloc_delete_entry_def i sz assms(3) Let_def wm_report_def)
qed

lemma update_entry_ok:
  assumes "tinv h (g_mem s) (g_mem_entry_cnt s) (g_mem_empty_idx s) (g_mem_sum s)" "binv (h(p := None)) bl" "h p = Some old"
    and "q \<noteq> 0" "q \<noteq> p \<longrightarrow> h q = None" "length bs = unat sz + 4"
  shows "\<exists>s'. wrap_malloc_update_entry p q sz (s\<lparr>blocks := bl(q \<mapsto> bs)\<rparr>) = Some (sint old, s') \<and>
    tinv ((h(p := None))(q \<mapsto> sz)) (g_mem s') (g_mem_entry_cnt s') (g_mem_empty_idx s') (g_mem_sum s') \<and>
    binv ((h(p := None))(q \<mapsto> sz)) (blocks s') \<and> reports s' = reports s \<and> g_do_reallocing s' = g_do_reallocing s"
proof -
  have p0: "p \<noteq> 0" using tinv_dom(4) [OF assms(1)] assms(3) by (metis domI)
  obtain j where j: "j \<in> slots (g_mem s)" "hm_ptr (g_mem s ! j) = p" using assms by (auto simp: tinv_def)
  have "find_entry 0 p (g_mem s) \<noteq> None"
    using find_entry_None [of 0 p "g_mem s" j] j assms(1) by (auto simp: slots_def tinv_def)
  then obtain i where i: "find_entry 0 p (g_mem s) = Some i" by auto
  note f = find_entry_Some [OF i]
  have old: "hm_size (g_mem s ! i) = old" using tinv_at(1) [OF assms(1), of i p] f p0 assms(3) by simp
  have t: "tinv ((h(p := None))(q \<mapsto> sz)) ((g_mem s)[i := \<lparr>hm_ptr = q, hm_size = sz\<rparr>]) (g_mem_entry_cnt s)
      (g_mem_empty_idx s) (g_mem_sum s - old + sz)"
    using tinv_replace [OF assms(1), of i p q] f p0 old assms(4,5) by simp
  have b: "binv ((h(p := None))(q \<mapsto> sz)) (bl(q \<mapsto> take (unat sz) bs @ g_mem_magic))"
    by (rule binv_add [OF assms(2)]) (use assms(6) in simp)
  show ?thesis using t b by (simp add: wrap_malloc_update_entry_def set_magic [OF assms(6)] i old Let_def)
qed

section \<open>Runs\<close>

text \<open>What the allocator of the C library promises of an answer: NULL, or a new block of the size asked for.\<close>

definition fresh :: "(nat \<Rightarrow> u32 option) \<Rightarrow> block_answer \<Rightarrow> u32 \<Rightarrow> bool" where
  "fresh h a n = (fst a = 0 \<or> h (fst a) = None \<and> length (snd a) = unat n)"

text \<open>
  The calls of a program that holds at most 1024 blocks, each smaller than the address space less the magic
  bytes, frees what it holds, stores inside its blocks and does not use realloc with size 0. A realloc that moves the block answers a new
  pointer, one that does not the old one.
\<close>

inductive wm_reach :: "(nat \<Rightarrow> u32 option) \<Rightarrow> wm_state \<Rightarrow> bool" where
  start: "wm_reach Map.empty wm_start"
| malloc: "wm_reach h s \<Longrightarrow> card (dom h) < 1024 \<Longrightarrow> unat sz + 4 < 4294967296 \<Longrightarrow> fresh h a (real_size sz s) \<Longrightarrow>
    wrap_malloc_r a sz s = Some (p, s') \<Longrightarrow> wm_reach (if p = 0 then h else h(p \<mapsto> sz)) s'"
| malloc_by_realloc: "wm_reach h s \<Longrightarrow> card (dom h) < 1024 \<Longrightarrow> unat sz + 4 < 4294967296 \<Longrightarrow> sz \<noteq> 0 \<Longrightarrow>
    fresh h a (realloc_size sz) \<Longrightarrow> wrap_realloc_r a 0 sz s = Some (p, s') \<Longrightarrow> wm_reach (if p = 0 then h else h(p \<mapsto> sz)) s'"
| realloc: "wm_reach h s \<Longrightarrow> h p = Some old \<Longrightarrow> unat sz + 4 < 4294967296 \<Longrightarrow> sz \<noteq> 0 \<Longrightarrow>
    fresh (h(p := None)) a (realloc_size sz) \<Longrightarrow> wrap_realloc_r a p sz s = Some (q, s') \<Longrightarrow>
    wm_reach (if q = 0 then h else (h(p := None))(q \<mapsto> sz)) s'"
| free: "wm_reach h s \<Longrightarrow> h p = Some sz \<Longrightarrow> wrap_free_r p s = Some s' \<Longrightarrow> wm_reach (h(p := None)) s'"
| free_null: "wm_reach h s \<Longrightarrow> wrap_free_r 0 s = Some s' \<Longrightarrow> wm_reach h s'"
| store: "wm_reach h s \<Longrightarrow> h p = Some sz \<Longrightarrow> k < unat sz \<Longrightarrow> wm_reach h (block_store p k b s)"

lemma real_sizes:
  assumes "unat sz + 4 < 4294967296"
  shows "\<not> g_do_reallocing s \<Longrightarrow> unat (real_size sz s) = unat sz + 4" "sz \<noteq> 0 \<Longrightarrow> unat (realloc_size sz) = unat sz + 4"
  using assms by (simp_all add: real_size_def realloc_size_def WRAP_MEM_MAGIC_LEN_def unat_word_ariths)

lemma held_not_null: "wm_inv h s \<Longrightarrow> h p = Some sz \<Longrightarrow> p \<noteq> 0"
  using tinv_dom(4) unfolding wm_inv_def by (metis domI)

lemma malloc_step:
  assumes i: "wm_inv h s" and a: "card (dom h) < 1024" "unat sz + 4 < 4294967296" "fresh h a (real_size sz s)"
  shows "\<exists>p s'. wrap_malloc_r a sz s = Some (p, s') \<and> p = fst a \<and> wm_inv (if p = 0 then h else h(p \<mapsto> sz)) s'"
proof (cases "fst a = 0")
  case True
  then show ?thesis using i by (auto simp: wrap_malloc_r_def real_malloc_def wm_inv_def wm_report_def)
next
  case False
  have t: "tinv h (g_mem s) (g_mem_entry_cnt s) (g_mem_empty_idx s) (g_mem_sum s)" "binv h (blocks s)" "\<not> g_do_reallocing s"
    "\<forall>r\<in>set (reports s). r = Exhausted"
    using i by (simp_all add: wm_inv_def)
  have f: "h (fst a) = None" "length (snd a) = unat sz + 4" using a(3) False real_sizes(1) [OF a(2) t(3)] by (simp_all add: fresh_def)
  obtain s' where "wrap_malloc_add_entry (fst a) sz (s\<lparr>blocks := (blocks s)(fst a \<mapsto> snd a)\<rparr>) = Some s'"
    "tinv (h(fst a \<mapsto> sz)) (g_mem s') (g_mem_entry_cnt s') (g_mem_empty_idx s') (g_mem_sum s')"
    "binv (h(fst a \<mapsto> sz)) (blocks s')" "reports s' = reports s" "g_do_reallocing s' = g_do_reallocing s"
    using add_entry_ok [OF t(1,2) False f a(1)] by blast
  then show ?thesis using False t(3,4) by (simp add: wrap_malloc_r_def real_malloc_def wm_inv_def)
qed

lemma realloc_null_step:
  assumes i: "wm_inv h s" and a: "card (dom h) < 1024" "unat sz + 4 < 4294967296" "sz \<noteq> 0" "fresh h a (realloc_size sz)"
  shows "\<exists>p s'. wrap_realloc_r a 0 sz s = Some (p, s') \<and> p = fst a \<and> wm_inv (if p = 0 then h else h(p \<mapsto> sz)) s'"
proof -
  have t: "tinv h (g_mem s) (g_mem_entry_cnt s) (g_mem_empty_idx s) (g_mem_sum s)" "binv h (blocks s)"
    "\<forall>r\<in>set (reports s). r = Exhausted" "\<not> g_do_reallocing s"
    using i by (simp_all add: wm_inv_def)
  have z: "realloc_size sz \<noteq> 0" using real_sizes(2) [OF a(2,3)] by (auto simp: unat_eq_0 [symmetric])
  show ?thesis
  proof (cases "fst a = 0")
    case True
    then show ?thesis using t a(3) z by (simp add: wrap_realloc_r_def real_realloc_def wm_inv_def wm_report_def Let_def)
  next
    case False
    let ?s = "s\<lparr>g_do_reallocing := True\<rparr>"
    have f: "h (fst a) = None" "length (snd a) = unat sz + 4" using a(4) False real_sizes(2) [OF a(2,3)] by (simp_all add: fresh_def)
    have t': "tinv h (g_mem ?s) (g_mem_entry_cnt ?s) (g_mem_empty_idx ?s) (g_mem_sum ?s)" using t(1) by simp
    have "0 \<notin> dom h" by (rule tinv_dom(4) [OF t(1)])
    then have "0 \<notin> dom (blocks s)" using t(2) by (simp add: binv_def)
    then have n: "(blocks s)(0 := None) = blocks s" by (auto simp: fun_eq_iff domIff)
    obtain s' where "wrap_malloc_add_entry (fst a) sz (?s\<lparr>blocks := (blocks s)(fst a \<mapsto> snd a)\<rparr>) = Some s'"
      "tinv (h(fst a \<mapsto> sz)) (g_mem s') (g_mem_entry_cnt s') (g_mem_empty_idx s') (g_mem_sum s')"
      "binv (h(fst a \<mapsto> sz)) (blocks s')" "reports s' = reports s"
      using add_entry_ok [OF t' t(2) False f a(1)] by auto
    then show ?thesis using False t(3) a(3) by (simp add: wrap_realloc_r_def real_realloc_def wm_inv_def n Let_def)
  qed
qed

lemma realloc_step:
  assumes i: "wm_inv h s" and a: "h p = Some old" "unat sz + 4 < 4294967296" "sz \<noteq> 0" "fresh (h(p := None)) a (realloc_size sz)"
  shows "\<exists>q s'. wrap_realloc_r a p sz s = Some (q, s') \<and> q = fst a \<and> wm_inv (if q = 0 then h else (h(p := None))(q \<mapsto> sz)) s'"
proof -
  have t: "tinv h (g_mem s) (g_mem_entry_cnt s) (g_mem_empty_idx s) (g_mem_sum s)" "binv h (blocks s)"
    "\<forall>r\<in>set (reports s). r = Exhausted"
    using i by (simp_all add: wm_inv_def)
  note p0 = held_not_null [OF i a(1)]
  have z: "realloc_size sz \<noteq> 0" using real_sizes(2) [OF a(2,3)] by (auto simp: unat_eq_0 [symmetric])
  show ?thesis
  proof (cases "fst a = 0")
    case True
    then show ?thesis using t a(3) z p0 by (simp add: wrap_realloc_r_def real_realloc_def wm_inv_def wm_report_def Let_def)
  next
    case False
    let ?s = "s\<lparr>g_do_reallocing := True\<rparr>"
    have f: "fst a \<noteq> p \<longrightarrow> h (fst a) = None" "length (snd a) = unat sz + 4"
      using a(4) False real_sizes(2) [OF a(2,3)] by (auto simp: fresh_def split: if_splits)
    have t': "tinv h (g_mem ?s) (g_mem_entry_cnt ?s) (g_mem_empty_idx ?s) (g_mem_sum ?s)" using t(1) by simp
    obtain s' where "wrap_malloc_update_entry p (fst a) sz (?s\<lparr>blocks := ((blocks s)(p := None))(fst a \<mapsto> snd a)\<rparr>) = Some (sint old, s')"
      "tinv ((h(p := None))(fst a \<mapsto> sz)) (g_mem s') (g_mem_entry_cnt s') (g_mem_empty_idx s') (g_mem_sum s')"
      "binv ((h(p := None))(fst a \<mapsto> sz)) (blocks s')" "reports s' = reports s"
      using update_entry_ok [OF t' binv_delete [OF t(2)] a(1) False f] by auto
    then show ?thesis using False t(3) a(3) p0 by (simp add: wrap_realloc_r_def real_realloc_def wm_inv_def Let_def)
  qed
qed

lemma delete_step:
  assumes "wm_inv h s" "h p = Some sz" "WRAP_MEM_CHK_MAGIC p (unat sz) s = Some c"
  shows "\<exists>s'. wrap_free_r p s = Some s' \<and> reports s' = reports s @ (if c then [Corrupt p] else []) \<and>
    (\<not> c \<longrightarrow> wm_inv (h(p := None)) s')"
proof -
  have t: "tinv h (g_mem s) (g_mem_entry_cnt s) (g_mem_empty_idx s) (g_mem_sum s)" "binv h (blocks s)" "\<not> g_do_reallocing s"
    "\<forall>r\<in>set (reports s). r = Exhausted"
    using assms(1) by (simp_all add: wm_inv_def)
  note p0 = held_not_null [OF assms(1,2)]
  have b: "binv (h(p := None)) ((blocks s)(p := None))" by (rule binv_delete [OF t(2)])
  obtain s1 where s1: "wrap_malloc_delete_entry p s = Some (sint sz, s1)"
    "tinv (h(p := None)) (g_mem s1) (g_mem_entry_cnt s1) (g_mem_empty_idx s1) (g_mem_sum s1)" "blocks s1 = blocks s"
    "g_do_reallocing s1 = g_do_reallocing s" "reports s1 = reports s @ (if c then [Corrupt p] else [])"
    using delete_entry_ok [OF t(1) assms(2,3)] by blast
  then show ?thesis using t(3,4) b p0 by (simp add: wrap_free_r_def real_free_def wm_inv_def)
qed

lemma store_step:
  assumes "wm_inv h s" "h p = Some sz" "k < unat sz"
  shows "wm_inv h (block_store p k b s)"
proof -
  have t: "binv h (blocks s)" using assms(1) by (simp add: wm_inv_def)
  obtain bs where bs: "blocks s p = Some bs" "length bs = unat sz + 4" "drop (unat sz) bs = g_mem_magic"
    using t assms(2) unfolding binv_def by blast
  have "drop (unat sz) (bs[k := b]) = g_mem_magic" using bs(3) assms(3) by simp
  moreover have "dom ((blocks s)(p \<mapsto> bs[k := b])) = dom h" using t assms(2) by (auto simp: binv_def)
  ultimately have "binv h ((blocks s)(p \<mapsto> bs[k := b]))" using t assms(2) bs(2) by (auto simp: binv_def)
  then show ?thesis using assms(1) bs(1) by (simp add: wm_inv_def block_store_def)
qed

lemma wm_start_inv: "wm_inv Map.empty wm_start"
proof -
  have "slots (replicate 1024 \<lparr>hm_ptr = 0, hm_size = 0\<rparr>) = {}" by (auto simp: slots_def)
  then show ?thesis by (simp add: wm_inv_def wm_start_def tinv_def binv_def HEAP_MEM_MAX_CNT_def)
qed

lemma free_null_step: "wm_inv h s \<Longrightarrow> wrap_free_r 0 s = Some s' \<Longrightarrow> wm_inv h s'"
proof -
  assume i: "wm_inv h s" and f: "wrap_free_r 0 s = Some s'"
  have t: "tinv h (g_mem s) (g_mem_entry_cnt s) (g_mem_empty_idx s) (g_mem_sum s)" "dom (blocks s) = dom h"
    using i by (simp_all add: wm_inv_def binv_def)
  have "blocks s 0 = None" using tinv_dom(4) [OF t(1)] unfolding t(2) [symmetric] by (simp add: domIff)
  then have "(blocks s)(0 := None) = blocks s" by (simp add: fun_upd_idem)
  then show ?thesis using i f by (auto simp: wrap_free_r_def real_free_def wm_inv_def)
qed

lemma wm_reach_inv: "wm_reach h s \<Longrightarrow> wm_inv h s"
proof (induction rule: wm_reach.induct)
  case start
  show ?case by (rule wm_start_inv)
next
  case (malloc h s sz a p s')
  then show ?case using malloc_step [of h s sz a] by auto
next
  case (malloc_by_realloc h s sz a p s')
  then show ?case using realloc_null_step [of h s sz a] by auto
next
  case (realloc h s p old sz a q s')
  then show ?case using realloc_step [of h s p old sz a] by auto
next
  case (free h s p sz s')
  have b: "binv h (blocks s)" using free.IH by (simp add: wm_inv_def)
  obtain s2 where "wrap_free_r p s = Some s2" "wm_inv (h(p := None)) s2"
    using delete_step [OF free.IH free.hyps(2) magic_intact [OF b free.hyps(2)]] by blast
  then show ?case using free.hyps(3) by (metis option.inject)
next
  case (free_null h s s')
  show ?case by (rule free_null_step [OF free_null.IH free_null.hyps(2)])
next
  case (store h s p sz k b)
  show ?case by (rule store_step [OF store.IH store.hyps(2,3)])
qed

section \<open>What the trace says\<close>

lemma entries_intact:
  assumes "binv h (blocks s)" "\<forall>e\<in>set es. hm_ptr e \<noteq> 0 \<longrightarrow> h (hm_ptr e) = Some (hm_size e)"
  shows "check_entries es s = Some []"
  using assms(2) magic_intact [OF assms(1)] by (induction es) auto

lemma table_entries:
  assumes "tinv h g c k sm"
  shows "\<forall>e\<in>set g. hm_ptr e \<noteq> 0 \<longrightarrow> h (hm_ptr e) = Some (hm_size e)"
    "\<And>p sz. h p = Some sz \<Longrightarrow> \<exists>e\<in>set g. hm_ptr e = p \<and> hm_size e = sz \<and> p \<noteq> 0"
proof -
  show "\<forall>e\<in>set g. hm_ptr e \<noteq> 0 \<longrightarrow> h (hm_ptr e) = Some (hm_size e)"
    using tinv_held [OF assms] by (auto simp: in_set_conv_nth slots_def)
  fix p sz
  assume "h p = Some sz"
  then obtain i where "i \<in> slots g" "hm_ptr (g ! i) = p" "hm_size (g ! i) = sz" using assms by (auto simp: tinv_def)
  then show "\<exists>e\<in>set g. hm_ptr e = p \<and> hm_size e = sz \<and> p \<noteq> 0" by (auto simp: slots_def intro!: bexI [of _ "g ! i"])
qed


lemma one_block: "\<exists>s. wm_reach [16 \<mapsto> 8] s"
proof -
  have z: "unat (8 :: u32) = 8" by simp
  have r: "unat (real_size 8 wm_start) = 12" using real_sizes(1) [of 8 wm_start] by (simp add: wm_start_def)
  then have f: "fresh Map.empty (16, replicate 12 0) (real_size 8 wm_start)" by (simp add: fresh_def)
  obtain s where s: "wrap_malloc_r (16, replicate 12 0) 8 wm_start = Some (16, s)"
    using malloc_step [OF wm_start_inv _ _ f] z by auto
  have "wm_reach (if (16 :: nat) = 0 then Map.empty else [16 \<mapsto> 8]) s"
    using wm_reach.malloc [OF wm_reach.start _ _ f s] z by simp
  then show ?thesis by auto
qed


text \<open>A store into the magic bytes of a block.\<close>

lemma corrupt_entries:
  assumes "binv h bl" "h p = Some sz" "\<forall>e\<in>set es. hm_ptr e \<noteq> 0 \<longrightarrow> h (hm_ptr e) = Some (hm_size e)"
    and "\<forall>q. q \<noteq> p \<longrightarrow> blocks s q = bl q" "WRAP_MEM_CHK_MAGIC p (unat sz) s = Some True"
  shows "\<exists>rs. check_entries es s = Some rs \<and> ((\<exists>e\<in>set es. hm_ptr e = p \<and> p \<noteq> 0) \<longrightarrow> Corrupt p \<in> set rs)"
  using assms(3)
proof (induction es)
  case Nil
  show ?case by simp
next
  case (Cons e es)
  then obtain rs where rs: "check_entries es s = Some rs" "(\<exists>e\<in>set es. hm_ptr e = p \<and> p \<noteq> 0) \<longrightarrow> Corrupt p \<in> set rs" by auto
  show ?case
  proof (cases "hm_ptr e = 0 \<or> hm_ptr e = p")
    case True
    then show ?thesis using rs assms(2,5) Cons.prems by auto
  next
    case False
    have "WRAP_MEM_CHK_MAGIC (hm_ptr e) (unat (hm_size e)) (s\<lparr>blocks := bl\<rparr>) = Some False"
      using magic_intact [of h "s\<lparr>blocks := bl\<rparr>"] assms(1) Cons.prems False by simp
    then have "WRAP_MEM_CHK_MAGIC (hm_ptr e) (unat (hm_size e)) s = Some False"
      using assms(4) False by (simp add: WRAP_MEM_CHK_MAGIC_def)
    then show ?thesis using rs False by auto
  qed
qed

text \<open>
  C36: A store to one of the four bytes behind a block, if it changes the byte, is found out: by the inspection
  of the heap at once, and when the block is freed. A realloc to size 0 however reads the magic bytes of
  the block after the C library has freed it.
\<close>

theorem overrun_reported:
  assumes "wm_reach h s" "h p = Some sz" "unat sz \<le> k" "k < unat sz + 4" "b \<noteq> g_mem_magic ! (k - unat sz)"
  shows "(\<exists>rs. wrap_malloc_heap_info (block_store p k b s) = Some (g_mem_sum s, rs) \<and> Corrupt p \<in> set rs) \<and>
    (\<exists>s'. wrap_free_r p (block_store p k b s) = Some s' \<and> Corrupt p \<in> set (reports s')) \<and>
    wrap_realloc_r (0, []) p 0 s = None"
proof -
  have i: "wm_inv h s" by (rule wm_reach_inv [OF assms(1)])
  have t: "tinv h (g_mem s) (g_mem_entry_cnt s) (g_mem_empty_idx s) (g_mem_sum s)" "binv h (blocks s)"
    using i by (simp_all add: wm_inv_def)
  note p0 = held_not_null [OF i assms(2)]
  obtain bs where bs: "blocks s p = Some bs" "length bs = unat sz + 4" "drop (unat sz) bs = g_mem_magic"
    using t(2) assms(2) unfolding binv_def by blast
  let ?s = "block_store p k b s"
  have bl: "blocks ?s = (blocks s)(p \<mapsto> bs[k := b])" by (simp add: block_store_def bs(1))
  have "drop (unat sz) (bs[k := b]) = g_mem_magic[k - unat sz := b]" using assms(3) bs(3) by (simp add: drop_update_swap)
  moreover have "g_mem_magic[k - unat sz := b] \<noteq> g_mem_magic"
    using assms(3,4,5) by (metis magic_length nth_list_update_eq add_diff_cancel_left' diff_less_mono)
  ultimately have c: "WRAP_MEM_CHK_MAGIC p (unat sz) ?s = Some True"
    by (simp add: WRAP_MEM_CHK_MAGIC_def bl bs(2))
  have fr: "g_mem ?s = g_mem s" "g_mem_sum ?s = g_mem_sum s" "g_mem_entry_cnt ?s = g_mem_entry_cnt s"
    "g_mem_empty_idx ?s = g_mem_empty_idx s" "g_do_reallocing ?s = g_do_reallocing s" "reports ?s = reports s"
    by (simp_all add: block_store_def)
  obtain rs where "check_entries (g_mem s) ?s = Some rs" "Corrupt p \<in> set rs"
    using corrupt_entries [OF t(2) assms(2) table_entries(1) [OF t(1)], of ?s] c bl table_entries(2) [OF t(1) assms(2)] by auto
  then have 1: "wrap_malloc_heap_info ?s = Some (g_mem_sum s, rs)" "Corrupt p \<in> set rs" by (simp_all add: wrap_malloc_heap_info_def fr)
  have t': "tinv h (g_mem ?s) (g_mem_entry_cnt ?s) (g_mem_empty_idx ?s) (g_mem_sum ?s)" using t(1) by (simp add: fr)
  obtain s1 where s1: "wrap_malloc_delete_entry p ?s = Some (sint sz, s1)" "reports s1 = reports ?s @ [Corrupt p]"
    using delete_entry_ok [OF t' assms(2) c] by auto
  have 2: "\<exists>s'. wrap_free_r p ?s = Some s' \<and> Corrupt p \<in> set (reports s')"
    using s1 i p0 by (simp add: wrap_free_r_def real_free_def fr wm_inv_def)
  have "find_entry 0 p (g_mem s) \<noteq> None"
  proof -
    obtain j where "j \<in> slots (g_mem s)" "hm_ptr (g_mem s ! j) = p" using t(1) assms(2) by (auto simp: tinv_def)
    then show ?thesis using find_entry_None [of 0 p "g_mem s" j] t(1) by (auto simp: slots_def tinv_def)
  qed
  then have 3: "wrap_realloc_r (0, []) p 0 s = None"
    using p0 by (auto simp: wrap_realloc_r_def real_realloc_def realloc_size_def real_free_def wrap_malloc_delete_entry_def
      WRAP_MEM_CHK_MAGIC_def Let_def)
  show ?thesis using 1 2 3 by blast
qed

theorem overrun_reported_witness:
  "\<exists>s s'. wm_reach [16 \<mapsto> 8] s \<and> wrap_free_r 16 (block_store 16 8 0 s) = Some s' \<and> Corrupt 16 \<in> set (reports s')"
proof -
  obtain s where s: "wm_reach [16 \<mapsto> 8] s" using one_block by auto
  from overrun_reported [OF this, of 16 8 8 0] show ?thesis using s by (simp add: g_mem_magic_def) blast
qed

text \<open>A size so near the end of the address space that the magic bytes do not fit: the sum wraps, the
  library has a small block to give, and the magic bytes are stored outside it.\<close>

lemma huge_size_overruns:
  assumes "\<not> g_do_reallocing s" "4294967292 \<le> unat sz" "fst a \<noteq> 0" "length (snd a) = unat (real_size sz s)"
  shows "unat (real_size sz s) < 4 \<and> wrap_malloc_r a sz s = None"
proof -
  have u: "unat sz < 4294967296" by (rule order.strict_trans2 [OF unsigned_less]) simp
  have "unat (real_size sz s) = (unat sz + 4) mod 4294967296"
    using assms(1) by (simp add: real_size_def WRAP_MEM_MAGIC_LEN_def unat_word_ariths)
  also have "\<dots> = unat sz - 4294967292" using u assms(2) by (simp add: mod_if)
  finally have r: "unat (real_size sz s) = unat sz - 4294967292" .
  then have "\<not> unat sz + 4 \<le> length (snd a)" using assms(2,4) by simp
  then show ?thesis using assms(1,3) r u
    by (simp add: wrap_malloc_r_def real_malloc_def wrap_malloc_add_entry_def WRAP_MEM_SET_MAGIC_def Let_def)
qed

text \<open>\<open>realloc (NULL, 0)\<close>: a block of no bytes gets magic bytes.\<close>

lemma realloc_null_zero_overruns:
  assumes "fst a \<noteq> 0" "snd a = []"
  shows "wrap_realloc_r a 0 0 s = None"
  using assms by (simp add: wrap_realloc_r_def real_realloc_def realloc_size_def wrap_malloc_add_entry_def WRAP_MEM_SET_MAGIC_def Let_def)

end
