(* ===== verification/Spec2Isabelle.thy ===== *)
theory Spec2Isabelle
  imports Sys_Ctrl Buttons Mbuf At_Parameter At_Queue Smart_Config Ir_Nec Psram_Heap Console Efpg_Frame Boot Audio_Rec At_Checks Cmd Wrap_Malloc
begin

text \<open>
  A verification development for the firmware kit of the XR872 wireless microcontroller. The kit is C code
  around a real-time kernel: a framework through which applications exchange events, drivers, an interpreter
  for AT commands, the receiver by which a device learns its access point, programming of the fuses in
  production, the update over the air and the boot loader. This development models the logic of the kit's own
  modules; the third-party libraries it carries, and the functions it calls in the mask ROM, are outside.

  \<^bold>\<open>Conventions.\<close> A \<open>struct\<close> is a \<open>record\<close> with the fields of the source, an \<open>enum\<close> a \<open>datatype\<close>, an integer
  of the source a word of its width where it can wrap and a \<open>nat\<close> where its range is tested or shown. A module's
  static variables are one record that its operations take and return. Every error return is a value of the result
  type. A pointer is a number, an object that is shared lives in a map from pointers to records. What the
  code calls and the repository does not contain (kernel, ROM, hash engines, xz, file system, HTTP client, the
  callbacks of the application) is an argument of the definitions, and what a theorem needs of it is a premise.
  Concurrency is a step relation with one step for each part of a thread that runs between two points where it
  waits, an interrupt or callback being one step. A loop that is structural, or has a measure, is a \<open>fun\<close> or a
  \<open>function\<close> with its termination proof; a loop whose end depends on the data or on a callback is a
  \<open>partial_function (option)\<close>, where \<open>None\<close> is not to return, and then the theorems claim \<open>Some\<close>; fuel is used only
  where every round consumes at least one byte of a length that is the fuel (\<open>Ota.append_loop\<close>).

  \<^bold>\<open>Shared ground.\<close>
  \<^item> \<open>Prelude\<close>: integer types, collections of hints, updates of a range of a list, bounds of words.
  \<^item> \<open>Sys_List\<close> (include/sys/list.h): the circular doubly linked lists as a heap of nodes with \<open>next\<close> and \<open>prev\<close>;
    insertion, deletion and the drain loop refine the operations on the abstract list.
  \<^item> \<open>Os\<close> (src/kernel/os/FreeRTOS): the counting semaphore and the message queue as values, with what the
    wrappers return; scheduling is the business of the step relations of the clients.

  \<^bold>\<open>The event framework\<close> (project/common/framework/sys_ctrl). An event is a word of type and subtype. A queue
  (\<open>Event_Queue\<close>, event_queue.c) holds messages, plain or by priority on the sorted list of \<open>Container\<close> (container.c);
  a looper (\<open>Looper\<close>, looper.c) takes one message after the other and hands it to the publisher or to its own
  handler; the publisher (\<open>Publisher\<close>, publisher.c) calls the observers (\<open>Observer\<close>, observer.c) whose event
  matches, who may attach and detach observers meanwhile; \<open>Sys_Ctrl\<close> (sys_ctrl.c) is the instance the system uses
  and composes them. The lemmas show that lists and queues refine abstract lists, that notification ends and keeps
  the invariant of the publisher, and that messages reach the observers in order.

  \<^bold>\<open>Buttons\<close> (project/common/apps/buttons/buttons.c): the objects of the module with their states, the thread,
  the timer and the interrupts as steps; the invariant of all reachable states, and the behaviour of each of the
  five kinds of buttons over complete holds and interrupted ones.

  \<^bold>\<open>Memory.\<close> \<open>Mbuf\<close> (src/sys/mbuf): packet buffers, their limits and their accounting. \<open>Psram_Heap\<close>
  (src/driver/chip/psram/psram_heap_4.c): the free list in memory, with the invariant that blocks are sorted,
  disjoint, aligned and never adjacent, and its refinement to first fit. \<open>Wrap_Malloc\<close>
  (src/libc/wrap_malloc.c): the table of the blocks of the C library with their magic bytes, exact over all runs.

  \<^bold>\<open>Commands.\<close> \<open>Console\<close> (src/console/console.c): receive interrupt and thread. \<open>Cmd\<close> (project/common/cmd/cmd_util.c,
  project/wlan_demo/command.c): the dispatch of console lines, which are split in place, and the responses; a line
  typed at the console is followed through the nested tables to the command and its one response. \<open>At_Queue\<close>, \<open>At_Parameter\<close>
  (src/atcmd/at_queue.c, at_parameter.c): the byte queue, and the parser and printer of parameters against their
  descriptors. \<open>At_Config\<close> (at_config.c, at_status.c): the configuration and the status as the bytes of their
  structures, laid out as the compiler does, with the tables of variables; a store that runs over a variable
  changes the next one, and one that runs over the end of the structure is cut there. \<open>At_Store\<close>: the tables as an
  interface, the locale \<open>var_store\<close>, of which configuration and status are models. \<open>At_Command\<close> (at_command.c,
  at_common.c, at_socket.c, at_wlan.c): the thread that collects a line, looks the command up and runs its
  handler, all the handlers, writing to a socket and the data mode; the application is a callback that may change
  configuration, status and a state of its own, the serial port the list of what it will deliver; \<open>None\<close> is not to
  return (polling for ever, or the endless loop of AT_ERR). \<open>At_Session\<close>: what a host can rely on, from the bytes
  on the port to the configuration and the response. \<open>At_Safety\<close>: the locale \<open>handler_inv\<close>, what every handler
  keeps is kept by the parser, with the read-only variables and the bounds of the cache. \<open>At_Checks\<close>: sequences of
  settings against the checks, the stores that run over their variables, and the data of a socket.

  \<^bold>\<open>Radio and remote control.\<close> \<open>Smart_Config\<close> (src/smartlink/smartconfig): check sum, lead codes, data packets,
  and the decoder's state. \<open>Ir_Nec\<close> (src/driver/chip/ir_nec.c): the NEC code.

  \<^bold>\<open>Fuses.\<close> \<open>Efuse\<close> (src/driver/chip/hal_efuse.c): bit ranges on 32-bit words, shown equal to the bits. \<open>Efpg\<close>
  and \<open>Efpg_Boot\<close> (src/efpg/efpg_efuse.c): the fields with their spare slots and corrections, and what is read back
  after an acknowledged write although some fuses are bad. \<open>Efpg_Frame\<close> (src/efpg/efpg_frame.c, efpg.c): the dialogue
  with the programming tool; no fuse is burnt without the key, and the two overruns of its buffers.

  \<^bold>\<open>Update.\<close> \<open>Flash\<close> (src/driver/chip/hal_flash.c): programming by pages. \<open>Ota\<close> (src/ota): receive, check and
  switch the image; an update stays in its area whatever the source sends. \<open>Boot\<close> (project/bootloader/main.c): choice of the
  image, loading and decompression, fallback; together with \<open>Ota\<close>, that no update can lose the device.

  \<^bold>\<open>Sound.\<close> \<open>Audio_Dma\<close> and \<open>Audio_Rec\<close> (src/driver/chip/hal_i2s.c, codec/hal_audiocodec.c): the circular buffers of two halves,
  with writer or reader, interrupts and the DMA as steps. \<open>Pcm\<close> (src/audio/pcm/audio_pcm.c): the cache that makes blocks
  of writes of any size. The interface between the two is the locale \<open>block_sink\<close>, of which both drivers are models.

  \<^bold>\<open>Bounds.\<close> Lengths of buffers, tables and fields are those of the source, defined under its macro names; no bound
  is put on the length of a run, on the number of objects or on sizes other than the widths of the integers.

  \<^bold>\<open>Not modelled.\<close> Third-party code (lwIP, mbed TLS, libwebsockets, noPoll, SHTTPD, the HTTP and MQTT clients, cJSON,
  FatFs, XZ, the FreeRTOS kernel, the DHCP server, drivers of sensors), because it is not this program's logic; what
  the kit calls of it is a parameter. The drivers of peripherals write registers, whose behaviour the sources do
  not state; many are empty in the repository because their code is in the ROM (as the image, flash and fdcm
  libraries and the core of power management). The single shell commands, board tables, demonstrations and the glue that
  starts threads hold little logic of their own. Airkiss and the voice decoder call binary libraries.
\<close>

end
